(* ===== verification/Int64.thy ===== *)
theory Int64
  imports Prelude
begin

text \<open>
  The checked 64-bit arithmetic of the runtime (src/tools/hlinterp/interp_parts/rt_num.py):
  \<open>i64_add\<close> .. \<open>i64_mod\<close>, the string-to-int conversion \<open>parse_int\<close> with its inverse
  \<open>int.to_str\<close>, and the 64-bit linear congruential generator \<open>HalisRNG\<close>. A panic is a value
  \<open>HLPanic msg\<close>, or \<open>HLPanicB msg\<close> when the program supplies the message (a byte string); the
  source line a panic carries is a diagnostic and is not modelled.
\<close>

datatype panic = HLPanic string | HLPanicB bytes

definition INT64_MAX :: int where "INT64_MAX = 9223372036854775807"

definition INT64_MIN :: int where "INT64_MIN = -9223372036854775808"

definition in64 :: "int \<Rightarrow> bool" where
  "in64 n \<longleftrightarrow> INT64_MIN \<le> n \<and> n \<le> INT64_MAX"

lemmas in64_defs = in64_def INT64_MIN_def INT64_MAX_def

abbreviation overflow :: panic where
  "overflow \<equiv> HLPanic ''integer overflow''"

abbreviation div_zero :: panic where
  "div_zero \<equiv> HLPanic ''division by zero''"

section \<open>The operations\<close>

definition i64_add :: "int \<Rightarrow> int \<Rightarrow> panic + int" where
  "i64_add a b =
     (let r = a + b in if r < INT64_MIN \<or> r > INT64_MAX then Inl overflow else Inr r)"

definition i64_sub :: "int \<Rightarrow> int \<Rightarrow> panic + int" where
  "i64_sub a b =
     (let r = a - b in if r < INT64_MIN \<or> r > INT64_MAX then Inl overflow else Inr r)"

definition i64_mul :: "int \<Rightarrow> int \<Rightarrow> panic + int" where
  "i64_mul a b =
     (let r = a * b in if r < INT64_MIN \<or> r > INT64_MAX then Inl overflow else Inr r)"

definition i64_neg :: "int \<Rightarrow> panic + int" where
  "i64_neg a = (if a = INT64_MIN then Inl overflow else Inr (- a))"

definition i64_div :: "int \<Rightarrow> int \<Rightarrow> panic + int" where
  "i64_div a b =
     (if b = 0 then Inl div_zero
      else if a = INT64_MIN \<and> b = -1 then Inl overflow
      else let q = \<bar>a\<bar> div \<bar>b\<bar> in Inr (if (a < 0) = (b < 0) then q else - q))"

definition i64_mod :: "int \<Rightarrow> int \<Rightarrow> panic + int" where
  "i64_mod a b =
     (if b = 0 then Inl div_zero
      else if a = INT64_MIN \<and> b = -1 then Inl overflow
      else let r = \<bar>a\<bar> mod \<bar>b\<bar> in Inr (if a \<ge> 0 then r else - r))"

lemmas i64_op_defs = i64_add_def i64_sub_def i64_mul_def i64_neg_def i64_div_def i64_mod_def

lemma i64_add_Inr [i64_simps]: "i64_add a b = Inr r \<longleftrightarrow> r = a + b \<and> in64 r"
  by (auto simp: i64_add_def in64_def Let_def)

lemma i64_sub_Inr [i64_simps]: "i64_sub a b = Inr r \<longleftrightarrow> r = a - b \<and> in64 r"
  by (auto simp: i64_sub_def in64_def Let_def)

lemma i64_mul_Inr [i64_simps]: "i64_mul a b = Inr r \<longleftrightarrow> r = a * b \<and> in64 r"
  by (auto simp: i64_mul_def in64_def Let_def)

lemma i64_neg_Inr [i64_simps]: "in64 a \<Longrightarrow> i64_neg a = Inr r \<longleftrightarrow> r = - a \<and> in64 r"
  by (auto simp: i64_neg_def in64_defs)

lemma in64_sint: "in64 (sint (a :: 64 word))"
proof -
  have "- (2 ^ (64 - 1)) \<le> sint a \<and> sint a < 2 ^ (64 - 1)"
    using sint_greater_eq [of a] sint_less [of a] by simp
  then show ?thesis by (simp add: in64_defs)
qed

lemma signed_take_bit_in64: "in64 n \<Longrightarrow> signed_take_bit 63 n = n"
  by (simp add: signed_take_bit_int_eq_self in64_defs)

lemma sint_word_of_int_in64: "in64 n \<Longrightarrow> sint (word_of_int n :: 64 word) = n"
  by (simp add: sint_sbintrunc' signed_take_bit_in64)

lemma sint_eq_iff_in64: "sint (word_of_int n :: 64 word) = n \<longleftrightarrow> in64 n"
  by (metis in64_sint sint_word_of_int_in64)

lemma i64_div_sgn:
  "b \<noteq> 0 \<Longrightarrow> \<not> (a = INT64_MIN \<and> b = -1) \<Longrightarrow>
   i64_div a b = Inr (sgn a * sgn b * (\<bar>a\<bar> div \<bar>b\<bar>))"
  by (auto simp: i64_div_def Let_def sgn_if)

lemma i64_mod_sgn:
  "b \<noteq> 0 \<Longrightarrow> \<not> (a = INT64_MIN \<and> b = -1) \<Longrightarrow>
   i64_mod a b = Inr (sgn a * (\<bar>a\<bar> mod \<bar>b\<bar>))"
  by (auto simp: i64_mod_def Let_def sgn_if)

section \<open>Decimal text\<close>

abbreviation bad_int :: panic where
  "bad_int \<equiv> HLPanic ''cannot convert string to int''"

abbreviation int_too_large :: panic where
  "int_too_large \<equiv> HLPanic ''integer too large when converting string''"

text \<open>The loop of \<open>parse_int\<close>: \<open>v\<close> is the value read so far.\<close>

fun parse_digits :: "bytes \<Rightarrow> int \<Rightarrow> panic + int" where
  "parse_digits [] v = Inr v"
| "parse_digits (c # cs) v =
     (if uint c < 48 \<or> uint c > 57 then Inl bad_int
      else let v' = v * 10 + (uint c - 48)
           in if v' > 2 ^ 63 then Inl int_too_large else parse_digits cs v')"

definition parse_int :: "bytes \<Rightarrow> panic + int" where
  "parse_int s =
     (let neg = (s \<noteq> [] \<and> hd s = 45); ds = (if neg then tl s else s)
      in if ds = [] then Inl bad_int
         else bindE (parse_digits ds 0)
                (\<lambda>v. if neg then Inr (- v)
                     else if v > INT64_MAX then Inl int_too_large else Inr v))"

text \<open>\<open>str(o).encode("utf-8")\<close> of a Python integer: the decimal digits of the magnitude,
  most significant first, after a minus sign when the integer is negative.\<close>

fun dec_nat :: "nat \<Rightarrow> bytes" where
  "dec_nat n = (if n < 10 then [word_of_nat (48 + n)]
                else dec_nat (n div 10) @ [word_of_nat (48 + n mod 10)])"

declare dec_nat.simps [simp del]

definition int_to_str :: "int \<Rightarrow> bytes" where
  "int_to_str i = (if i < 0 then 45 # dec_nat (nat (- i)) else dec_nat (nat i))"

text \<open>When a byte is a digit, and the value a run of digits denotes.\<close>

definition is_digit :: "8 word \<Rightarrow> bool" where
  "is_digit c \<longleftrightarrow> 48 \<le> uint c \<and> uint c \<le> 57"

definition dstep :: "int \<Rightarrow> 8 word \<Rightarrow> int" where
  "dstep v c = v * 10 + (uint c - 48)"

definition dval :: "bytes \<Rightarrow> int" where
  "dval ds = foldl dstep 0 ds"

lemma dstep_mono: "is_digit c \<Longrightarrow> 0 \<le> v \<Longrightarrow> v \<le> dstep v c"
  by (simp add: dstep_def is_digit_def)

lemma foldl_digits_mono:
  "\<forall>c\<in>set ds. is_digit c \<Longrightarrow> 0 \<le> v \<Longrightarrow> v \<le> foldl dstep v ds"
proof (induction ds arbitrary: v)
  case (Cons c cs)
  then have "v \<le> dstep v c" "dstep v c \<le> foldl dstep (dstep v c) cs"
    using dstep_mono [of c v] by auto
  then show ?case by simp
qed simp

lemma parse_digits_Cons:
  "parse_digits (c # cs) v =
     (if \<not> is_digit c then Inl bad_int
      else if dstep v c > 2 ^ 63 then Inl int_too_large else parse_digits cs (dstep v c))"
  by (auto simp: is_digit_def dstep_def Let_def)

declare parse_digits.simps(2) [simp del]

lemma parse_digits_Inr:
  "0 \<le> v \<Longrightarrow> v \<le> 2 ^ 63 \<Longrightarrow>
   parse_digits ds v = Inr r \<longleftrightarrow>
     (\<forall>c\<in>set ds. is_digit c) \<and> r = foldl dstep v ds \<and> r \<le> 2 ^ 63"
proof (induction ds arbitrary: v)
  case (Cons c cs)
  show ?case
  proof (cases "is_digit c \<and> dstep v c \<le> 2 ^ 63")
    case True
    then have "0 \<le> dstep v c" using dstep_mono [of c v] Cons.prems(1) by simp
    then show ?thesis using True Cons.IH [of "dstep v c"] by (simp add: parse_digits_Cons)
  next
    case False
    then have "parse_digits (c # cs) v \<noteq> Inr r" by (auto simp: parse_digits_Cons)
    moreover have "\<not> foldl dstep v (c # cs) \<le> 2 ^ 63" if d: "\<forall>c'\<in>set (c # cs). is_digit c'"
    proof -
      have "dstep v c \<le> foldl dstep (dstep v c) cs"
        using d dstep_mono [of c v] Cons.prems(1) by (intro foldl_digits_mono) auto
      then show ?thesis using False d by auto
    qed
    ultimately show ?thesis by auto
  qed
qed auto

lemma uint_digit: "k < 10 \<Longrightarrow> uint (word_of_nat (48 + k) :: 8 word) = 48 + int k"
  by (simp add: unsigned_of_nat take_bit_nat_eq_self del: of_nat_add of_nat_numeral)

lemma dec_nat_digits: "\<forall>c\<in>set (dec_nat n). is_digit c"
proof (induction n rule: dec_nat.induct)
  case (1 n)
  then show ?case
    by (subst dec_nat.simps) (auto simp: is_digit_def uint_digit simp del: of_nat_add)
qed

lemma dec_nat_nonempty [simp]: "dec_nat n \<noteq> []"
  by (subst dec_nat.simps) simp

lemma dval_dec_nat: "dval (dec_nat n) = int n"
proof (induction n rule: dec_nat.induct)
  case (1 n)
  show ?case
  proof (cases "n < 10")
    case True
    then show ?thesis by (subst dec_nat.simps) (simp add: dval_def dstep_def uint_digit del: of_nat_add)
  next
    case False
    have u: "uint (word_of_nat (48 + n mod 10) :: 8 word) = 48 + int (n mod 10)"
      by (rule uint_digit) simp
    have "dval (dec_nat n) = dstep (dval (dec_nat (n div 10))) (word_of_nat (48 + n mod 10))"
      using False by (subst dec_nat.simps) (simp add: dval_def)
    also have "\<dots> = int (n div 10) * 10 + int (n mod 10)"
      by (simp add: dstep_def u 1 [OF False] del: of_nat_add)
    finally show ?thesis by (metis of_nat_add of_nat_mult of_nat_numeral div_mult_mod_eq)
  qed
qed

lemma dval_nonneg: "\<forall>c\<in>set ds. is_digit c \<Longrightarrow> 0 \<le> dval ds"
  using foldl_digits_mono [of ds 0] by (simp add: dval_def)

lemma parse_digits_dval:
  "parse_digits ds 0 = Inr r \<longleftrightarrow> (\<forall>c\<in>set ds. is_digit c) \<and> r = dval ds \<and> r \<le> 2 ^ 63"
  by (simp add: parse_digits_Inr dval_def)

lemma parse_int_neg:
  "parse_int (45 # ds) =
     (if ds = [] then Inl bad_int else bindE (parse_digits ds 0) (\<lambda>v. Inr (- v)))"
  by (simp add: parse_int_def)

lemma parse_int_pos:
  "s \<noteq> [] \<Longrightarrow> hd s \<noteq> 45 \<Longrightarrow>
   parse_int s = bindE (parse_digits s 0)
     (\<lambda>v. if v > INT64_MAX then Inl int_too_large else Inr v)"
  by (simp add: parse_int_def)

lemma digit_not_minus: "is_digit c \<Longrightarrow> c \<noteq> 45"
  by (auto simp: is_digit_def)

lemma hd_digits_not_minus: "ds \<noteq> [] \<Longrightarrow> \<forall>c\<in>set ds. is_digit c \<Longrightarrow> hd ds \<noteq> 45"
  using digit_not_minus list.set_sel(1) by metis

section \<open>The random number generator\<close>

text \<open>\<open>HalisRNG\<close>: the state is a Python integer masked to 64 bits.\<close>

definition RNG_MASK :: int where "RNG_MASK = push_bit 64 1 - 1"
definition RNG_A :: int where "RNG_A = 6364136223846793005"
definition RNG_C :: int where "RNG_C = 1442695040888963407"

definition rng_init :: int where "rng_init = 1"

definition rng_seed :: "int \<Rightarrow> int" where
  "rng_seed s = (let st = and s RNG_MASK in if st = 0 then 1 else st)"

definition rng_next :: "int \<Rightarrow> int" where
  "rng_next st = and (st * RNG_A + RNG_C) RNG_MASK"

text \<open>\<open>randrange\<close> and \<open>random\<close> return the drawn value and the state after the draw; the
  float that \<open>random\<close> returns is the quotient of the drawn 53-bit integer by \<open>2 ^ 53\<close>,
  which a double represents exactly, so the model keeps the numerator.\<close>

definition rng_randrange :: "int \<Rightarrow> int \<Rightarrow> int \<times> int" where
  "rng_randrange mx st = (let st' = rng_next st in (st' mod mx, st'))"

definition rng_random53 :: "int \<Rightarrow> int \<times> int" where
  "rng_random53 st = (let st' = rng_next st in (drop_bit 11 st', st'))"

lemma and_rng_mask: "and n RNG_MASK = n mod 2 ^ 64"
proof -
  have "RNG_MASK = mask 64" by (simp add: RNG_MASK_def mask_eq_exp_minus_1)
  then show ?thesis by (metis take_bit_eq_mask take_bit_eq_mod)
qed

lemma rng_next_word:
  "rng_next (uint w) = uint (w * word_of_int RNG_A + word_of_int RNG_C :: 64 word)"
  by (simp add: rng_next_def and_rng_mask uint_word_ariths uint_word_of_int mod_simps)

lemma rng_next_range: "0 \<le> rng_next st \<and> rng_next st < 2 ^ 64"
  by (simp add: rng_next_def and_rng_mask)

lemma rng_A_inverse: "word_of_int RNG_A * 0xc097ef87329e28a5 = (1 :: 64 word)"
  by (simp add: RNG_A_def)

lemma rng_next_inj: "inj_on rng_next {0..<2 ^ 64}"
proof (rule inj_onI)
  fix x y :: int
  assume r: "x \<in> {0..<2 ^ 64}" "y \<in> {0..<2 ^ 64}" and e: "rng_next x = rng_next y"
  define a b :: "64 word" where ab: "a = word_of_int x" "b = word_of_int y"
  have x: "x = uint a" and y: "y = uint b" using r by (simp_all add: ab uint_word_of_int)
  have "a * word_of_int RNG_A = b * word_of_int RNG_A"
    using e unfolding x y rng_next_word by (metis add_right_imp_eq word_uint_eqI)
  then have "a * (word_of_int RNG_A * 0xc097ef87329e28a5) = b * (word_of_int RNG_A * 0xc097ef87329e28a5)"
    by (simp only: mult.assoc [symmetric])
  then have "a = b" by (simp only: rng_A_inverse mult_1_right)
  then show "x = y" by (simp add: x y)
qed

lemma rng_next_parity: "odd (rng_next st - st)"
proof -
  have "even (st * (RNG_A - 1))" by (simp add: RNG_A_def)
  moreover have "odd RNG_C" by (simp add: RNG_C_def)
  ultimately have "odd (st * RNG_A + RNG_C - st)" by (simp add: right_diff_distrib)
  moreover have "even (rng_next st - (st * RNG_A + RNG_C))"
  proof -
    have "(2 ^ 64 :: int) dvd rng_next st - (st * RNG_A + RNG_C)"
      by (simp add: rng_next_def and_rng_mask mod_eq_dvd_iff [symmetric])
    then show ?thesis by (rule dvd_trans [rotated]) simp
  qed
  ultimately show ?thesis by presburger
qed

lemma parse_digits_digits:
  "\<forall>c\<in>set ds. is_digit c \<Longrightarrow> parse_digits ds v = Inl e \<Longrightarrow> e = int_too_large"
  by (induction ds arbitrary: v) (auto simp: parse_digits_Cons split: if_splits)

lemma parse_digits_dec_nat:
  "parse_digits (dec_nat n) 0 = (if int n \<le> 2 ^ 63 then Inr (int n) else Inl int_too_large)"
proof (cases "parse_digits (dec_nat n) 0")
  case (Inl e)
  then have "\<not> int n \<le> 2 ^ 63"
    using parse_digits_dval [of "dec_nat n" "int n"] dec_nat_digits [of n]
    by (auto simp: dval_dec_nat)
  then show ?thesis using Inl parse_digits_digits [OF dec_nat_digits Inl] by simp
next
  case (Inr v)
  then show ?thesis by (simp add: parse_digits_dval dval_dec_nat)
qed

section \<open>Properties\<close>

text \<open>C29. The checked operations are signed 64-bit machine arithmetic with overflow detection:
  on the signed values of two 64-bit words, add, sub, mul and neg return the signed value of
  the wrapping word operation when that is the exact result, and panic otherwise.\<close>

theorem i64_arith_word:
  fixes a b :: "64 word"
  shows "i64_add (sint a) (sint b) =
           (if sint (a + b) = sint a + sint b then Inr (sint (a + b)) else Inl overflow) \<and>
         i64_sub (sint a) (sint b) =
           (if sint (a - b) = sint a - sint b then Inr (sint (a - b)) else Inl overflow) \<and>
         i64_mul (sint a) (sint b) =
           (if sint (a * b) = sint a * sint b then Inr (sint (a * b)) else Inl overflow) \<and>
         i64_neg (sint a) =
           (if sint (- a) = - sint a then Inr (sint (- a)) else Inl overflow)"
    (is "?add \<and> ?sub \<and> ?mul \<and> ?neg")
proof (intro conjI)
  have w: "word_of_int (sint a) = a" "word_of_int (sint b) = b" by simp_all
  have "sint (a + b) = sint a + sint b \<longleftrightarrow> in64 (sint a + sint b)"
    using sint_eq_iff_in64 [of "sint a + sint b"] by (simp add: w)
  then show ?add by (auto simp: i64_add_def in64_def Let_def)
  have "sint (a - b) = sint a - sint b \<longleftrightarrow> in64 (sint a - sint b)"
    using sint_eq_iff_in64 [of "sint a - sint b"] by (simp add: w)
  then show ?sub by (auto simp: i64_sub_def in64_def Let_def)
  have "sint (a * b) = sint a * sint b \<longleftrightarrow> in64 (sint a * sint b)"
    using sint_eq_iff_in64 [of "sint a * sint b"] by (simp add: w)
  then show ?mul by (auto simp: i64_mul_def in64_def Let_def)
  have "sint (- a) = - sint a \<longleftrightarrow> in64 (- sint a)"
    using sint_eq_iff_in64 [of "- sint a"] by (simp add: w)
  then show ?neg using in64_sint [of a] by (auto simp: i64_neg_def in64_defs)
qed

text \<open>C30. Division and remainder truncate toward zero, as in C and on the hardware: a zero
  divisor and the single overflowing quotient panic, and otherwise \<open>a = q * b + r\<close> with
  \<open>\<bar>r\<bar> < \<bar>b\<bar>\<close>, \<open>r\<close> zero or of the sign of \<open>a\<close>, and both results in range.\<close>

theorem i64_div_mod_law:
  assumes "in64 a" and "in64 b"
  shows "if b = 0 then i64_div a b = Inl div_zero \<and> i64_mod a b = Inl div_zero
         else if a = INT64_MIN \<and> b = -1
         then i64_div a b = Inl overflow \<and> i64_mod a b = Inl overflow
         else \<exists>q r. i64_div a b = Inr q \<and> i64_mod a b = Inr r \<and> a = q * b + r \<and>
                \<bar>r\<bar> < \<bar>b\<bar> \<and> (r = 0 \<or> sgn r = sgn a) \<and> in64 q \<and> in64 r"
proof (cases "b = 0 \<or> a = INT64_MIN \<and> b = -1")
  case True
  then show ?thesis by (auto simp: i64_div_def i64_mod_def INT64_MIN_def)
next
  case False
  define q r where q: "q = sgn a * sgn b * (\<bar>a\<bar> div \<bar>b\<bar>)" and r: "r = sgn a * (\<bar>a\<bar> mod \<bar>b\<bar>)"
  have b: "b \<noteq> 0" "\<bar>b\<bar> > 0" using False by auto
  have "q * b = sgn a * ((\<bar>a\<bar> div \<bar>b\<bar>) * \<bar>b\<bar>)" by (simp add: q abs_sgn [of b] mult.commute mult.left_commute)
  then have "q * b + r = sgn a * ((\<bar>a\<bar> div \<bar>b\<bar>) * \<bar>b\<bar> + \<bar>a\<bar> mod \<bar>b\<bar>)"
    by (simp only: r distrib_left)
  then have law: "q * b + r = a" by (simp add: sgn_mult_abs)
  have m: "0 \<le> \<bar>a\<bar> mod \<bar>b\<bar>" "\<bar>a\<bar> mod \<bar>b\<bar> < \<bar>b\<bar>" "\<bar>a\<bar> mod \<bar>b\<bar> \<le> \<bar>a\<bar>"
    using b by (simp_all add: zmod_le_nonneg_dividend)
  have "\<bar>r\<bar> \<le> \<bar>a\<bar> mod \<bar>b\<bar>" using m(1) by (cases "a = 0") (simp_all add: r abs_mult)
  then have rb: "\<bar>r\<bar> < \<bar>b\<bar>" "\<bar>r\<bar> \<le> \<bar>a\<bar>" using m by linarith+
  have rs: "r = 0 \<or> sgn r = sgn a" using m by (auto simp: r sgn_if)
  have r64: "in64 r" using rb(2) rs assms(1) by (auto simp: in64_defs sgn_if split: if_splits)
  have "0 \<le> \<bar>a\<bar> div \<bar>b\<bar>" using b by (simp add: pos_imp_zdiv_nonneg_iff)
  then have qd: "\<bar>q\<bar> \<le> \<bar>a\<bar> div \<bar>b\<bar>" using b by (cases "a = 0") (simp_all add: q abs_mult)
  moreover have "\<bar>a\<bar> div \<bar>b\<bar> \<le> \<bar>a\<bar>" using b zdiv_mono2 [of "\<bar>a\<bar>" 1 "\<bar>b\<bar>"] by simp
  ultimately have qa: "\<bar>q\<bar> \<le> \<bar>a\<bar>" by linarith
  have "q \<noteq> 2 ^ 63"
  proof
    assume q63: "q = 2 ^ 63"
    then have "a = INT64_MIN" using qa assms(1) by (auto simp: in64_defs)
    moreover have "\<bar>b\<bar> = 1"
    proof (rule ccontr)
      assume "\<bar>b\<bar> \<noteq> 1"
      then have "\<bar>a\<bar> div \<bar>b\<bar> \<le> \<bar>a\<bar> div 2" using b by (intro zdiv_mono2) auto
      then have "\<bar>q\<bar> \<le> \<bar>a\<bar> div 2" using qd by linarith
      then show False using q63 assms(1) by (auto simp: in64_defs)
    qed
    ultimately show False using False q63 by (auto simp: q INT64_MIN_def abs_if split: if_splits)
  qed
  then have q64: "in64 q" using qa assms(1) by (auto simp: in64_defs)
  have "i64_div a b = Inr q" "i64_mod a b = Inr r"
    using False by (simp_all add: q r i64_div_sgn i64_mod_sgn)
  then show ?thesis using False law rb rs r64 q64 by auto
qed

theorem i64_div_mod_law_witness:
  "\<exists>q r. i64_div (-7) 2 = Inr q \<and> i64_mod (-7) 2 = Inr r \<and> -7 = q * 2 + r \<and>
     \<bar>r\<bar> < 2 \<and> (r = 0 \<or> sgn r = -1) \<and> in64 q \<and> in64 r"
  using i64_div_mod_law [of "-7" 2] by (simp add: in64_defs)

text \<open>\<open>parse_int\<close> accepts exactly the decimal numerals of the 64-bit integers: a non-empty
  run of digits, optionally after a minus sign, whose value is in range; its result is that
  value.\<close>

lemma parse_int_accepts:
  "parse_int s = Inr n \<longleftrightarrow>
     (\<exists>neg ds. s = (if neg then 45 # ds else ds) \<and> ds \<noteq> [] \<and> list_all is_digit ds \<and>
        n = (if neg then - dval ds else dval ds) \<and> in64 n)"
  (is "?l \<longleftrightarrow> ?r")
proof
  assume l: ?l
  have "s \<noteq> []" using l by (auto simp: parse_int_def)
  show ?r
  proof (cases "hd s = 45")
    case True
    then obtain ds where s: "s = 45 # ds" using \<open>s \<noteq> []\<close> by (cases s) auto
    show ?thesis
      using l dval_nonneg [of ds] unfolding s parse_int_neg
      by (intro exI [of _ True] exI [of _ ds])
         (auto simp: bindE_eq_Inr parse_digits_dval in64_defs list_all_iff split: if_splits)
  next
    case False
    then show ?thesis
      using l dval_nonneg [of s] \<open>s \<noteq> []\<close>
      by (intro exI [of _ False] exI [of _ s])
         (auto simp: parse_int_pos bindE_eq_Inr parse_digits_dval in64_defs list_all_iff split: if_splits)
  qed
next
  assume ?r
  then obtain neg ds where s: "s = (if neg then 45 # ds else ds)" and ds: "ds \<noteq> []"
    and d: "\<forall>c\<in>set ds. is_digit c" and n: "n = (if neg then - dval ds else dval ds)" "in64 n"
    by (auto simp: list_all_iff)
  have "parse_digits ds 0 = Inr (dval ds)"
    using d n by (auto simp: parse_digits_dval in64_defs split: if_splits)
  then show ?l
    using s ds n hd_digits_not_minus [OF ds d]
    by (cases neg) (auto simp: parse_int_neg parse_int_pos in64_defs)
qed

text \<open>The decimal text \<open>int.to_str\<close> of an integer reads back as that integer, for every
  64-bit integer, \<open>INT64_MIN\<close> included; the text of an integer out of range is refused.\<close>

lemma parse_int_to_str:
  "parse_int (int_to_str n) = (if in64 n then Inr n else Inl int_too_large)"
proof (cases "n < 0")
  case True
  then show ?thesis
    by (auto simp: int_to_str_def parse_int_neg parse_digits_dec_nat in64_defs)
next
  case False
  have "hd (dec_nat (nat n)) \<noteq> 45" by (intro hd_digits_not_minus dec_nat_digits) simp
  then show ?thesis
    using False by (auto simp: int_to_str_def parse_int_pos parse_digits_dec_nat in64_defs)
qed

text \<open>C31. \<open>parse_int\<close> accepts exactly the decimal numerals of the 64-bit integers (a non-empty run of
  digits, optionally after a minus sign, whose value is in range) with that value as its result, and
  the decimal text of an integer reads back as it when it is in range and is refused otherwise.\<close>

theorem parse_int_reads_numerals:
  "(parse_int s = Inr n \<longleftrightarrow>
     (\<exists>neg ds. s = (if neg then 45 # ds else ds) \<and> ds \<noteq> [] \<and> list_all is_digit ds \<and>
        n = (if neg then - dval ds else dval ds) \<and> in64 n)) \<and>
   parse_int (int_to_str k) = (if in64 k then Inr k else Inl int_too_large)"
  using parse_int_accepts parse_int_to_str by blast

text \<open>The generator is the 64-bit linear congruential generator of the native runtime: on
  the state range \<open>rng_next\<close> is the wrapping word operation \<open>w * A + C\<close>, it permutes the range
  (no two states collapse), and no state is a fixed point: seed 0 is not degenerate.\<close>

lemma rng_next_permutation:
  "rng_next (uint w) = uint (w * word_of_int RNG_A + word_of_int RNG_C :: 64 word) \<and>
   bij_betw rng_next {0..<2 ^ 64} {0..<2 ^ 64} \<and> rng_next st \<noteq> st"
proof -
  have "rng_next ` {0..<2 ^ 64} \<subseteq> {0..<2 ^ 64}" using rng_next_range by auto
  then have "bij_betw rng_next {0..<2 ^ 64} {0..<2 ^ 64}"
    using rng_next_inj by (simp add: bij_betw_def endo_inj_surj)
  moreover have "rng_next st \<noteq> st" using rng_next_parity [of st] by auto
  ultimately show ?thesis using rng_next_word by blast
qed

end
