(* ===== verification/Ast.thy ===== *)
theory Ast
  imports Int64
begin

text \<open>
  The abstract syntax the parser builds (src/tools/hlinterp/parser.py) and the checker annotates:
  expressions, statements, refinements and functions. A node of the source is a dict whose \<open>"k"\<close>
  names its kind; here each kind is a constructor and the other keys are its arguments. The
  annotations the later passes read are arguments too: the static type \<open>t\<close> of a binary operation
  and of an identifier, the resolved callee \<open>rc\<close> / \<open>rm\<close>, and the verdicts \<open>ovf_safe\<close>,
  \<open>div_safe\<close> and \<open>bnd_safe\<close> of the proof engine (absent in the source is \<open>False\<close> here). The line of
  a node is a diagnostic and is left out. A type is the string the parser makes of it.
\<close>

type_synonym ty = string

datatype binop = OpOr | OpAnd | OpEq | OpNe | OpLt | OpLe | OpGt | OpGe
  | OpAdd | OpSub | OpMul | OpDiv | OpMod

datatype unop = OpNot | OpNeg

text \<open>The callee of a call as the checker resolved it: a program function or a builtin.\<close>

datatype callee = User name | Builtin name

text \<open>A match pattern: \<open>_\<close>, or an enum's variant with the names bound to its payloads.\<close>

datatype pat = PWild | PVariant name name "name list"

datatype expr =
    EInt int
  | EFloat "64 word"
  | EBool bool
  | EStr bytes
  | EIdent name ty
  | EBin binop expr expr ty bool bool
  | EUn unop expr
  | ECall name callee "expr list"
  | EField expr name
  | EMethod expr name "expr list" callee bool
  | EIndex expr expr bool
  | EList "expr list"
  | EStruct name "(name \<times> expr) list"
  | EEnum name name "expr list"
  | EMatch expr "(pat \<times> expr) list"
  | EQmark expr name name

text \<open>A refinement \<open>where p\<close> on a slot: the predicate over \<open>self\<close> and its text.\<close>

datatype refinement = Refinement (ref_ast: expr) (ref_text: string)

datatype lval = LIdent name ty | LField expr name | LIndex expr expr

datatype stmt =
    SLet name ty expr "refinement option"
  | SAssign lval expr "(refinement \<times> string) option"
  | SIf expr "stmt list" "stmt list"
  | SWhile expr "stmt list"
  | SFor name expr "stmt list"
  | SReturn "expr option"
  | SBreak
  | SContinue
  | SExpr expr
  | SAsm

text \<open>A parameter is a name, a type and whether it is \<open>mut\<close>.\<close>

type_synonym param = "name \<times> ty \<times> bool"

record fn =
  fn_name :: name
  fn_method :: bool
  fn_params :: "param list"
  fn_body :: "stmt list"
  fn_requires :: "expr option"
  fn_ensures :: "expr option"
  fn_param_preds :: "(name \<times> refinement) list"
  fn_ret_pred :: "refinement option"
  fn_tail_call :: bool
  fn_extern :: bool

text \<open>A struct declaration: its fields with their default expressions, in order, and the
  refinements of its fields.\<close>

record struct_def =
  st_fields :: "(name \<times> ty \<times> expr option) list"
  st_preds :: "(name \<times> refinement) list"

abbreviation ty_int :: ty where "ty_int \<equiv> ''int''"

text \<open>The \<open>ident\<close> shape several passes look for.\<close>

fun ident_name :: "expr \<Rightarrow> name option" where
  "ident_name (EIdent n _) = Some n"
| "ident_name _ = None"

lemma ident_name_Some [simp]: "ident_name e = Some n \<longleftrightarrow> (\<exists>t. e = EIdent n t)"
  by (cases e) auto

end
