(* ===== verification/Intervals.thy ===== *)
theory Intervals
  imports Ast
begin

text \<open>
  The interval domain of the proof engine (src/tools/hlinterp/proof.py, first part): bounds,
  intervals, their arithmetic, the join and the widening operator, and the verdicts \<open>fits\<close> and
  \<open>excludes_zero\<close>. A bound is unknown (\<open>None\<close> in the source), a number, or symbolic: the
  tuple \<open>("len", owner, delta)\<close>, the length of \<open>owner\<close> plus \<open>delta\<close>.

  \<open>iv_has L iv n\<close> says that \<open>n\<close> is in \<open>iv\<close> when \<open>L w j\<close> tells that \<open>j\<close> is at most the length of
  \<open>w\<close>; a symbolic lower bound, which the engine never makes, contains nothing. The lemmas of \<open>iv_sound\<close> show every operation sound for it.
\<close>

datatype bound = Unknown | Num int | Len name int

datatype interval = Iv (iv_lo: bound) (iv_hi: bound)

definition TOP :: interval where "TOP = Iv Unknown Unknown"

definition iv_const :: "int \<Rightarrow> interval" where "iv_const n = Iv (Num n) (Num n)"

definition numeric_bound :: "bound \<Rightarrow> bound" where
  "numeric_bound b = (case b of Len _ _ \<Rightarrow> Unknown | _ \<Rightarrow> b)"

text \<open>\<open>b_op f x y\<close> applies \<open>f\<close> to two bounds: unknown when either is not a number.\<close>

definition b_op :: "(int \<Rightarrow> int \<Rightarrow> int) \<Rightarrow> bound \<Rightarrow> bound \<Rightarrow> bound" where
  "b_op f x y =
     (case (numeric_bound x, numeric_bound y) of (Num m, Num n) \<Rightarrow> Num (f m n) | _ \<Rightarrow> Unknown)"

definition iv_add :: "interval \<Rightarrow> interval \<Rightarrow> interval" where
  "iv_add a b = Iv (b_op (+) (iv_lo a) (iv_lo b)) (b_op (+) (iv_hi a) (iv_hi b))"

definition iv_sub :: "interval \<Rightarrow> interval \<Rightarrow> interval" where
  "iv_sub a b = Iv (b_op (-) (iv_lo a) (iv_hi b)) (b_op (-) (iv_hi a) (iv_lo b))"

definition b_neg :: "bound \<Rightarrow> bound" where
  "b_neg x = (case numeric_bound x of Num n \<Rightarrow> Num (- n) | _ \<Rightarrow> Unknown)"

definition iv_neg :: "interval \<Rightarrow> interval" where
  "iv_neg a = Iv (b_neg (iv_hi a)) (b_neg (iv_lo a))"

definition iv_widen :: "interval \<Rightarrow> interval \<Rightarrow> interval" where
  "iv_widen a b = Iv (b_op min (iv_lo a) (iv_lo b)) (b_op max (iv_hi a) (iv_hi b))"

text \<open>The product: the least and the greatest of the four corners, TOP if a corner is unknown.\<close>

definition iv_mul :: "interval \<Rightarrow> interval \<Rightarrow> interval" where
  "iv_mul a b =
     (case (a, b) of
        (Iv (Num al) (Num ah), Iv (Num bl) (Num bh)) \<Rightarrow>
          (let c1 = al * bl; c2 = al * bh; c3 = ah * bl; c4 = ah * bh
           in Iv (Num (min (min c1 c2) (min c3 c4))) (Num (max (max c1 c2) (max c3 c4))))
      | _ \<Rightarrow> TOP)"

definition fits :: "interval \<Rightarrow> bool" where
  "fits iv =
     (case (iv_lo iv, iv_hi iv) of
        (Num l, Num h) \<Rightarrow> l \<ge> INT64_MIN \<and> h \<le> INT64_MAX
      | _ \<Rightarrow> False)"

definition add_fits :: "interval \<Rightarrow> interval \<Rightarrow> bool" where "add_fits a b = fits (iv_add a b)"
definition sub_fits :: "interval \<Rightarrow> interval \<Rightarrow> bool" where "sub_fits a b = fits (iv_sub a b)"
definition mul_fits :: "interval \<Rightarrow> interval \<Rightarrow> bool" where "mul_fits a b = fits (iv_mul a b)"

definition is_len :: "bound \<Rightarrow> bool" where
  "is_len b = (case b of Len _ _ \<Rightarrow> True | _ \<Rightarrow> False)"

definition excludes_zero :: "interval \<Rightarrow> bool" where
  "excludes_zero iv =
     (if is_len (iv_hi iv) \<or> is_len (iv_lo iv) then False
      else (case iv_hi iv of Num h \<Rightarrow> h < 0 | _ \<Rightarrow> False) \<or>
           (case iv_lo iv of Num l \<Rightarrow> l > 0 | _ \<Rightarrow> False))"

text \<open>The widening operator: a bound that grew becomes unknown.\<close>

definition widen_growth :: "interval \<Rightarrow> interval \<Rightarrow> interval" where
  "widen_growth a b =
     Iv (case (numeric_bound (iv_lo a), numeric_bound (iv_lo b)) of
           (Num m, Num n) \<Rightarrow> if n \<ge> m then Num m else Unknown | _ \<Rightarrow> Unknown)
        (case (numeric_bound (iv_hi a), numeric_bound (iv_hi b)) of
           (Num m, Num n) \<Rightarrow> if n \<le> m then Num m else Unknown | _ \<Rightarrow> Unknown)"

definition iv_contains :: "interval \<Rightarrow> interval \<Rightarrow> bool" where
  "iv_contains a b =
     (if is_len (iv_lo a) \<or> is_len (iv_hi a) \<or> is_len (iv_lo b) \<or> is_len (iv_hi b) then False
      else (case (iv_lo a, iv_lo b) of (Unknown, _) \<Rightarrow> True | (Num m, Num n) \<Rightarrow> m \<le> n | _ \<Rightarrow> False) \<and>
           (case (iv_hi a, iv_hi b) of (Unknown, _) \<Rightarrow> True | (Num m, Num n) \<Rightarrow> m \<ge> n | _ \<Rightarrow> False))"

section \<open>What an interval means\<close>

definition lo_ok :: "bound \<Rightarrow> int \<Rightarrow> bool" where
  "lo_ok b n = (case b of Num m \<Rightarrow> m \<le> n | Unknown \<Rightarrow> True | Len _ _ \<Rightarrow> False)"

definition hi_ok :: "(name \<Rightarrow> int \<Rightarrow> bool) \<Rightarrow> bound \<Rightarrow> int \<Rightarrow> bool" where
  "hi_ok L b n =
     (case b of Num m \<Rightarrow> n \<le> m | Unknown \<Rightarrow> True | Len w d \<Rightarrow> L w (n - d))"

definition iv_has :: "(name \<Rightarrow> int \<Rightarrow> bool) \<Rightarrow> interval \<Rightarrow> int \<Rightarrow> bool" where
  "iv_has L iv n \<longleftrightarrow> lo_ok (iv_lo iv) n \<and> hi_ok L (iv_hi iv) n"

lemmas iv_has_defs = iv_has_def lo_ok_def hi_ok_def

lemma TOP_has [simp, iv_simps]: "iv_has L TOP n"
  by (simp add: TOP_def iv_has_defs)

lemma const_has [simp, iv_simps]: "iv_has L (iv_const k) n \<longleftrightarrow> n = k"
  by (auto simp: iv_const_def iv_has_defs)

lemma add_sound: "iv_has L1 a m \<Longrightarrow> iv_has L2 b n \<Longrightarrow> iv_has L' (iv_add a b) (m + n)"
  by (auto simp: iv_add_def iv_has_defs b_op_def numeric_bound_def split: bound.splits)

lemma sub_sound: "iv_has L1 a m \<Longrightarrow> iv_has L2 b n \<Longrightarrow> iv_has L' (iv_sub a b) (m - n)"
  by (auto simp: iv_sub_def iv_has_defs b_op_def numeric_bound_def split: bound.splits)

lemma neg_sound: "iv_has L a m \<Longrightarrow> iv_has L' (iv_neg a) (- m)"
  by (auto simp: iv_neg_def b_neg_def iv_has_defs numeric_bound_def split: bound.splits)

lemma mul_corners:
  fixes m n :: int
  assumes "al \<le> m" "m \<le> ah" "bl \<le> n" "n \<le> bh"
  shows "min (min (al * bl) (al * bh)) (min (ah * bl) (ah * bh)) \<le> m * n"
    and "m * n \<le> max (max (al * bl) (al * bh)) (max (ah * bl) (ah * bh))"
proof -
  have a: "(m * n \<le> al * n \<or> m * n \<le> ah * n) \<and> (al * n \<le> m * n \<or> ah * n \<le> m * n)"
    using assms by (cases "n \<ge> 0") (auto intro: mult_right_mono mult_right_mono_neg)
  have b: "(k * n \<le> k * bl \<or> k * n \<le> k * bh) \<and> (k * bl \<le> k * n \<or> k * bh \<le> k * n)" for k
    using assms by (cases "k \<ge> 0") (auto intro: mult_left_mono mult_left_mono_neg)
  show "min (min (al * bl) (al * bh)) (min (ah * bl) (ah * bh)) \<le> m * n"
    using a b [of al] b [of ah] by linarith
  show "m * n \<le> max (max (al * bl) (al * bh)) (max (ah * bl) (ah * bh))"
    using a b [of al] b [of ah] by linarith
qed

lemma iv_mul_cases:
  "iv_mul a b = TOP \<or>
   (\<exists>al ah bl bh. a = Iv (Num al) (Num ah) \<and> b = Iv (Num bl) (Num bh))"
  by (auto simp: iv_mul_def split: interval.splits bound.splits)

lemma mul_sound: "iv_has L1 a m \<Longrightarrow> iv_has L2 b n \<Longrightarrow> iv_has L' (iv_mul a b) (m * n)"
  using iv_mul_cases [of a b]
proof (elim disjE exE conjE)
  fix al ah bl bh
  assume h: "iv_has L1 a m" "iv_has L2 b n" and e: "a = Iv (Num al) (Num ah)" "b = Iv (Num bl) (Num bh)"
  then have "al \<le> m" "m \<le> ah" "bl \<le> n" "n \<le> bh" by (simp_all add: iv_has_defs)
  from mul_corners [OF this] show ?thesis
    by (simp add: e iv_mul_def iv_has_defs Let_def del: min_le_iff_disj le_max_iff_disj)
qed simp

lemma widen_sound1: "iv_has L a n \<Longrightarrow> iv_has L' (iv_widen a b) n"
  by (auto simp: iv_widen_def iv_has_defs b_op_def numeric_bound_def split: bound.splits)

lemma widen_sound2: "iv_has L b n \<Longrightarrow> iv_has L' (iv_widen a b) n"
  by (auto simp: iv_widen_def iv_has_defs b_op_def numeric_bound_def split: bound.splits)

lemma growth_sound: "iv_has L a n \<Longrightarrow> iv_has L' (widen_growth a b) n"
  by (auto simp: widen_growth_def iv_has_defs numeric_bound_def split: bound.splits)

lemma contains_sound: "iv_contains a b \<Longrightarrow> iv_has L b n \<Longrightarrow> iv_has L' a n"
  by (auto simp: iv_contains_def is_len_def iv_has_defs split: bound.splits if_splits)

lemma fits_in64: "fits iv \<Longrightarrow> iv_has L iv n \<Longrightarrow> in64 n"
  by (auto simp: fits_def iv_has_defs in64_def split: bound.splits)

lemma excludes_zero_sound: "excludes_zero iv \<Longrightarrow> iv_has L iv n \<Longrightarrow> n \<noteq> 0"
  by (auto simp: excludes_zero_def iv_has_defs is_len_def split: bound.splits if_splits)

lemmas iv_sound = add_sound sub_sound neg_sound mul_sound widen_sound1 widen_sound2
  growth_sound contains_sound

text \<open>An interval operation whose result is not TOP had operands that are not TOP.\<close>

lemma TOP_ops [iv_simps]:
  "iv_add TOP b = TOP" "iv_add a TOP = TOP" "iv_sub TOP b = TOP" "iv_sub a TOP = TOP"
  "iv_mul TOP b = TOP" "iv_mul a TOP = TOP" "iv_neg TOP = TOP"
  by (auto simp: iv_add_def iv_sub_def iv_mul_def iv_neg_def TOP_def b_op_def b_neg_def
      numeric_bound_def split: bound.splits interval.splits)

lemma not_fits_TOP [simp]: "\<not> fits TOP"
  by (simp add: fits_def TOP_def)

end
