(* ===== verification/ProofEngine.thy ===== *)
theory ProofEngine
  imports Intervals "HOL-Library.AList"
begin

text \<open>
  The proof engine (src/tools/hlinterp/proof.py): the facts it seeds from a \<open>requires\<close> clause, the
  interval of an expression under the facts, the verdicts it writes on the nodes, the
  propagation of facts through statements, and the evaluation of contracts on constant arguments.

  Facts. The source keeps one dict: variables to intervals, and under two NUL-prefixed keys the set
  of non-zero variables and the map of minimum lengths. Here they are the three parts of a record.

  Annotations. The source writes verdicts into the nodes it walks; \<open>annot\<close> and \<open>prop_stmt\<close> return
  the annotated tree. Every pass over a loop's body overwrites the verdicts of the pass before it,
  so the tree returned is the one of the last pass.
\<close>

section \<open>Facts\<close>

record facts =
  ivs :: "(name \<times> interval) list"
  nzs :: "name list"
  minlens :: "(name \<times> int) list"

definition no_facts :: facts where "no_facts = \<lparr>ivs = [], nzs = [], minlens = []\<rparr>"

definition iv_of :: "facts \<Rightarrow> name \<Rightarrow> interval" where
  "iv_of F x = (case map_of (ivs F) x of Some iv \<Rightarrow> iv | None \<Rightarrow> TOP)"

definition set_iv :: "name \<Rightarrow> interval \<Rightarrow> facts \<Rightarrow> facts" where
  "set_iv x iv F = F\<lparr>ivs := AList.update x iv (ivs F)\<rparr>"

definition del_iv :: "name \<Rightarrow> facts \<Rightarrow> facts" where
  "del_iv x F = F\<lparr>ivs := AList.delete x (ivs F)\<rparr>"

definition set_minlen :: "facts \<Rightarrow> name \<Rightarrow> int \<Rightarrow> facts" where
  "set_minlen F w k =
     (case map_of (minlens F) w of
        None \<Rightarrow> F\<lparr>minlens := AList.update w k (minlens F)\<rparr>
      | Some old \<Rightarrow> if k > old then F\<lparr>minlens := AList.update w k (minlens F)\<rparr> else F)"

text \<open>\<open>_refine\<close>: with \<open>lo = "nz"\<close>, and with bounds.\<close>

definition refine_nz :: "facts \<Rightarrow> name \<Rightarrow> facts" where
  "refine_nz F x =
     (let old = iv_of F x in
      if (case iv_hi old of Num h \<Rightarrow> h < 0 | _ \<Rightarrow> False) then F
      else if (case iv_lo old of Num l \<Rightarrow> l > 0 | _ \<Rightarrow> False) then F
      else (set_iv x old F)\<lparr>nzs := List.insert x (nzs F)\<rparr>)"

definition refine :: "facts \<Rightarrow> name \<Rightarrow> bound \<Rightarrow> bound \<Rightarrow> facts" where
  "refine F x lo hi =
     (let old = iv_of F x in
      if is_len lo
      then let new_hi = (if hi \<noteq> Unknown then hi else iv_hi old)
           in set_iv x (Iv lo (if is_len (iv_hi old) then iv_hi old else new_hi)) F
      else let new_lo = (case (lo, iv_lo old) of
                           (Unknown, ol) \<Rightarrow> ol | (Num m, Num n) \<Rightarrow> Num (max n m) | _ \<Rightarrow> lo);
               new_hi = (case (hi, iv_hi old) of
                           (Unknown, oh) \<Rightarrow> oh | (Num m, Num n) \<Rightarrow> Num (min n m) | _ \<Rightarrow> hi)
           in set_iv x (Iv new_lo new_hi) F)"

section \<open>Seeding\<close>

definition int_var :: "expr \<Rightarrow> param list \<Rightarrow> name option" where
  "int_var e params =
     (case ident_name e of
        Some n \<Rightarrow> if list_ex (\<lambda>(pn, pt, _). pn = n \<and> pt = ty_int) params then Some n else None
      | None \<Rightarrow> None)"

fun int_lit :: "expr \<Rightarrow> int option" where
  "int_lit (EInt n) = Some n"
| "int_lit _ = None"

fun is_len_call :: "expr \<Rightarrow> bool" where
  "is_len_call (ECall f _ _) = (f = ''len'')"
| "is_len_call (EMethod _ f _ _ _) = (f = ''len'')"
| "is_len_call _ = False"

fun len_owner :: "expr \<Rightarrow> name" where
  "len_owner (ECall f _ (EIdent n _ # _)) = (if f = ''len'' then n else ''?'')"
| "len_owner (EMethod (EIdent n _) f _ _ _) = (if f = ''len'' then n else ''?'')"
| "len_owner _ = ''?''"

fun flip_op :: "binop \<Rightarrow> binop" where
  "flip_op OpLt = OpGt"
| "flip_op OpLe = OpGe"
| "flip_op OpGt = OpLt"
| "flip_op OpGe = OpLe"
| "flip_op op = op"

definition bound_var :: "facts \<Rightarrow> name \<Rightarrow> binop \<Rightarrow> int \<Rightarrow> bool \<Rightarrow> facts" where
  "bound_var F x op0 k var_on_left =
     (let op = (if var_on_left then op0 else flip_op op0) in
      case op of
        OpGe \<Rightarrow> refine F x (Num k) Unknown
      | OpGt \<Rightarrow> refine F x (Num (k + 1)) Unknown
      | OpLe \<Rightarrow> refine F x Unknown (Num k)
      | OpLt \<Rightarrow> refine F x Unknown (Num (k - 1))
      | OpEq \<Rightarrow> refine F x (Num k) (Num k)
      | OpNe \<Rightarrow> if k = 0 then refine_nz F x else F
      | _ \<Rightarrow> F)"

text \<open>The first group of shapes a conjunct is matched against, and the minimum-length shapes.\<close>

definition seed_bound :: "param list \<Rightarrow> binop \<Rightarrow> expr \<Rightarrow> expr \<Rightarrow> facts \<Rightarrow> facts" where
  "seed_bound params op l r F =
     (case (int_var l params, int_lit r) of
        (Some x, Some k) \<Rightarrow> bound_var F x op k True
      | _ \<Rightarrow>
     (case (int_var r params, int_lit l) of
        (Some x, Some k) \<Rightarrow> bound_var F x op k False
      | _ \<Rightarrow>
     (case (int_var l params, int_var r params) of
        (Some _, Some _) \<Rightarrow> F
      | (Some x, None) \<Rightarrow>
          if is_len_call r
          then (case op of OpLt \<Rightarrow> refine F x Unknown (Len (len_owner r) (-1))
                | OpLe \<Rightarrow> refine F x Unknown (Len (len_owner r) 0) | _ \<Rightarrow> F)
          else F
      | (None, Some x) \<Rightarrow>
          if is_len_call l
          then (case op of OpGt \<Rightarrow> refine F x Unknown (Len (len_owner l) (-1))
                | OpGe \<Rightarrow> refine F x Unknown (Len (len_owner l) 0) | _ \<Rightarrow> F)
          else F
      | (None, None) \<Rightarrow> F)))"

definition seed_minlen :: "binop \<Rightarrow> expr \<Rightarrow> expr \<Rightarrow> facts \<Rightarrow> facts" where
  "seed_minlen op len_side other F =
     (if is_len_call len_side
      then (case int_lit other of
              Some k \<Rightarrow> (case op of OpGe \<Rightarrow> set_minlen F (len_owner len_side) k
                        | OpGt \<Rightarrow> set_minlen F (len_owner len_side) (k + 1)
                        | OpEq \<Rightarrow> set_minlen F (len_owner len_side) k
                        | _ \<Rightarrow> F)
            | None \<Rightarrow> F)
      else F)"

fun seed_walk :: "expr \<Rightarrow> param list \<Rightarrow> facts \<Rightarrow> facts" where
  "seed_walk (EBin op l r t ovf divs) params F =
     (if op = OpAnd then seed_walk r params (seed_walk l params F)
      else seed_minlen (flip_op op) r l (seed_minlen op l r (seed_bound params op l r F)))"
| "seed_walk _ params F = F"

definition seed_from_requires :: "expr \<Rightarrow> param list \<Rightarrow> facts" where
  "seed_from_requires e params = seed_walk e params no_facts"

section \<open>Intervals of expressions and verdicts\<close>

fun expr_interval :: "facts \<Rightarrow> expr \<Rightarrow> interval" where
  "expr_interval F (EInt n) = iv_const n"
| "expr_interval F (EIdent x t) = iv_of F x"
| "expr_interval F (EUn op e) = (if op = OpNeg then iv_neg (expr_interval F e) else TOP)"
| "expr_interval F (EBin op l r t ovf divs) =
     (let li = expr_interval F l; ri = expr_interval F r
      in case op of OpAdd \<Rightarrow> iv_add li ri | OpSub \<Rightarrow> iv_sub li ri | OpMul \<Rightarrow> iv_mul li ri
         | _ \<Rightarrow> TOP)"
| "expr_interval F _ = TOP"

definition bin_overflow_ok :: "facts \<Rightarrow> binop \<Rightarrow> expr \<Rightarrow> expr \<Rightarrow> bool" where
  "bin_overflow_ok F op l r =
     (let li = expr_interval F l; ri = expr_interval F r
      in case op of OpAdd \<Rightarrow> add_fits li ri | OpSub \<Rightarrow> sub_fits li ri | OpMul \<Rightarrow> mul_fits li ri
         | _ \<Rightarrow> False)"

definition div_ok :: "facts \<Rightarrow> expr \<Rightarrow> expr \<Rightarrow> bool" where
  "div_ok F l r =
     (let ri = expr_interval F r;
          nz = (excludes_zero ri \<or>
                (case ident_name r of Some x \<Rightarrow> x \<in> set (nzs F) | None \<Rightarrow> False));
          li = expr_interval F l;
          can_be_min = (case iv_lo li of Unknown \<Rightarrow> True | Num m \<Rightarrow> m \<le> INT64_MIN | Len _ _ \<Rightarrow> False)
      in nz \<and>
         \<not> (can_be_min \<and>
            (iv_lo ri = Unknown \<or>
             (case iv_lo ri of Num m \<Rightarrow> m \<le> -1 | _ \<Rightarrow> False) \<and>
             (case iv_hi ri of Unknown \<Rightarrow> True | Num m \<Rightarrow> m \<ge> -1 | Len _ _ \<Rightarrow> False))))"

definition nonneg_lo :: "interval \<Rightarrow> bool" where
  "nonneg_lo iv = (case iv_lo iv of Num l \<Rightarrow> 0 \<le> l | _ \<Rightarrow> False)"

definition below_minlen :: "facts \<Rightarrow> name \<Rightarrow> int \<Rightarrow> bool" where
  "below_minlen F w h = (case map_of (minlens F) w of Some k \<Rightarrow> h < k | None \<Rightarrow> False)"

definition index_ok :: "facts \<Rightarrow> expr \<Rightarrow> expr \<Rightarrow> bool" where
  "index_ok F tgt idx =
     (case ident_name tgt of
        None \<Rightarrow> False
      | Some w \<Rightarrow>
          (let ii = expr_interval F idx
           in nonneg_lo ii \<and>
              (case iv_hi ii of
                 Len v d \<Rightarrow> v = w \<and> d = -1
               | Num h \<Rightarrow> below_minlen F w h
               | Unknown \<Rightarrow> False)))"

definition byte_at_ok :: "facts \<Rightarrow> expr \<Rightarrow> expr list \<Rightarrow> bool" where
  "byte_at_ok F tgt args = (case args of [] \<Rightarrow> False | a # _ \<Rightarrow> index_ok F tgt a)"

definition slice_ok :: "facts \<Rightarrow> expr \<Rightarrow> expr list \<Rightarrow> bool" where
  "slice_ok F tgt args =
     (case (ident_name tgt, args) of
        (Some w, [a, b]) \<Rightarrow>
          (let ai = expr_interval F a; bi = expr_interval F b
           in nonneg_lo ai \<and>
              (case (iv_hi ai, iv_lo bi) of (Num h, Num l) \<Rightarrow> h \<le> l | _ \<Rightarrow> False) \<and>
              (case iv_hi bi of
                 Len v d \<Rightarrow> v = w \<and> (d = -1 \<or> d = 0)
               | Num h \<Rightarrow> below_minlen F w h
               | Unknown \<Rightarrow> False))
      | _ \<Rightarrow> False)"

text \<open>\<open>propagate_stmt_exprs\<close> on one expression: the verdicts of every node in it.\<close>

fun annot :: "facts \<Rightarrow> expr \<Rightarrow> expr" where
  "annot F (EBin op l r t ovf divs) =
     EBin op (annot F l) (annot F r) t
       (if (op = OpAdd \<or> op = OpSub \<or> op = OpMul) \<and> t = ty_int then bin_overflow_ok F op l r else ovf)
       (if (op = OpDiv \<or> op = OpMod) \<and> t = ty_int then div_ok F l r else divs)"
| "annot F (EUn op e) = EUn op (annot F e)"
| "annot F (ECall f rc args) = ECall f rc (map (annot F) args)"
| "annot F (EField e f) = EField (annot F e) f"
| "annot F (EMethod e f args rm bnd) =
     EMethod (annot F e) f (map (annot F) args) rm
       (if f = ''byte_at'' then byte_at_ok F e args
        else if f = ''slice'' then slice_ok F e args else bnd)"
| "annot F (EIndex e i bnd) = EIndex (annot F e) (annot F i) (index_ok F e i)"
| "annot F (EList es) = EList (map (annot F) es)"
| "annot F (EStruct n fs) = EStruct n (map (\<lambda>(f, e). (f, annot F e)) fs)"
| "annot F (EEnum n v es) = EEnum n v (map (annot F) es)"
| "annot F (EMatch e arms) = EMatch (annot F e) (map (\<lambda>(p, b). (p, annot F b)) arms)"
| "annot F (EQmark e a b) = EQmark (annot F e) a b"
| "annot F e = e"

section \<open>Invalidation and joins\<close>

definition drop_owner :: "name \<Rightarrow> facts \<Rightarrow> facts" where
  "drop_owner w F =
     F\<lparr>minlens := filter (\<lambda>(o', _). o' \<noteq> w) (minlens F),
       ivs := map (\<lambda>(x, iv). (x, case iv_hi iv of
                Len v d \<Rightarrow> if v = w then Iv (numeric_bound (iv_lo iv)) Unknown else iv
              | _ \<Rightarrow> iv)) (ivs F)\<rparr>"

fun len_mutators :: "expr \<Rightarrow> name list" where
  "len_mutators (EMethod t f args rm bnd) =
     (case (f = ''pop'' \<or> f = ''push'', ident_name t) of (True, Some x) \<Rightarrow> [x] | _ \<Rightarrow> []) @
     concat (map len_mutators args) @ len_mutators t"
| "len_mutators (EBin op l r t ovf divs) = len_mutators l @ len_mutators r"
| "len_mutators (EUn op e) = len_mutators e"
| "len_mutators (ECall f rc args) = concat (map len_mutators args)"
| "len_mutators (EField e f) = len_mutators e"
| "len_mutators (EIndex e i bnd) = len_mutators i @ len_mutators e"
| "len_mutators (EList es) = concat (map len_mutators es)"
| "len_mutators (EStruct n fs) = concat (map (\<lambda>(f, e). len_mutators e) fs)"
| "len_mutators (EEnum n v es) = concat (map len_mutators es)"
| "len_mutators (EMatch e arms) = len_mutators e @ concat (map (\<lambda>(p, b). len_mutators b) arms)"
| "len_mutators (EQmark e a b) = len_mutators e"
| "len_mutators e = []"

definition keys2 :: "(name \<times> 'a) list \<Rightarrow> (name \<times> 'a) list \<Rightarrow> name list" where
  "keys2 a b = remdups (map fst a @ map fst b)"

definition join_facts :: "facts \<Rightarrow> facts \<Rightarrow> facts" where
  "join_facts a b =
     \<lparr>ivs = map (\<lambda>k. (k, case (map_of (ivs a) k, map_of (ivs b) k) of
                (Some i, Some j) \<Rightarrow> iv_widen i j | _ \<Rightarrow> TOP)) (keys2 (ivs a) (ivs b)),
      nzs = filter (\<lambda>x. x \<in> set (nzs b)) (nzs a),
      minlens = concat (map (\<lambda>k. case (map_of (minlens a) k, map_of (minlens b) k) of
                (Some m, Some n) \<Rightarrow> [(k, min m n)] | _ \<Rightarrow> []) (keys2 (minlens a) (minlens b)))\<rparr>"

section \<open>Propagation through statements\<close>

fun const_range :: "expr \<Rightarrow> (int \<times> int) option" where
  "const_range (ECall f rc [EInt a, EInt b]) =
     (if f = ''range'' then (if b > a then Some (a, b) else Some (a, a)) else None)"
| "const_range _ = None"

fun assigned_int_vars :: "nat \<Rightarrow> stmt list \<Rightarrow> name list"
and assigned_int_vars1 :: "nat \<Rightarrow> stmt \<Rightarrow> name list" where
  "assigned_int_vars d [] = []"
| "assigned_int_vars d (s # ss) =
     (if d > 64 then [] else assigned_int_vars1 d s @ assigned_int_vars d ss)"
| "assigned_int_vars1 d (SLet x t e rp) = (if t = ty_int then [x] else [])"
| "assigned_int_vars1 d (SAssign (LIdent x t) e rp) = [x]"
| "assigned_int_vars1 d (SIf c th el) = assigned_int_vars (d + 1) th @ assigned_int_vars (d + 1) el"
| "assigned_int_vars1 d (SWhile c body) = assigned_int_vars (d + 1) body"
| "assigned_int_vars1 d (SFor x it body) = assigned_int_vars (d + 1) body"
| "assigned_int_vars1 d s = []"

text \<open>The invariant of a \<open>while\<close> loop, for a body that takes facts to facts: two rounds, the
  widening operator, and at most four rounds that send to TOP what still escapes.\<close>

definition grown :: "facts \<Rightarrow> facts \<Rightarrow> name list" where
  "grown I w =
     map fst (filter (\<lambda>(k, v). case map_of (ivs I) k of
        Some cur \<Rightarrow> \<not> iv_contains cur v | None \<Rightarrow> False) (ivs w))"

definition top_all :: "name list \<Rightarrow> facts \<Rightarrow> facts" where
  "top_all ks F = F\<lparr>ivs := map (\<lambda>(k, v). (k, if k \<in> set ks then TOP else v)) (ivs F)\<rparr>"

fun verify_rounds :: "nat \<Rightarrow> (facts \<Rightarrow> facts) \<Rightarrow> facts \<Rightarrow> facts" where
  "verify_rounds 0 body I = I"
| "verify_rounds (Suc n) body I =
     (let g = grown I (body I)
      in if g = [] then I else verify_rounds n body (top_all g I))"

definition widen_facts :: "facts \<Rightarrow> facts \<Rightarrow> facts" where
  "widen_facts f1 f2 =
     f2\<lparr>ivs := map (\<lambda>(k, v). (k, case map_of (ivs f1) k of
          Some v1 \<Rightarrow> widen_growth v1 v | None \<Rightarrow> v)) (ivs f2)\<rparr>"

definition while_inv :: "(facts \<Rightarrow> facts) \<Rightarrow> facts \<Rightarrow> facts" where
  "while_inv body F =
     (let f1 = join_facts F (body F);
          f2 = join_facts f1 (body f1)
      in verify_rounds 4 body (widen_facts f1 f2))"

text \<open>The facts at the head of a \<open>for\<close> body.\<close>

definition for_entry :: "name \<Rightarrow> expr \<Rightarrow> stmt list \<Rightarrow> facts \<Rightarrow> facts" where
  "for_entry x it body F =
     set_iv x (case const_range it of Some (a, b) \<Rightarrow> Iv (Num a) (Num (b - 1)) | None \<Rightarrow> TOP)
       (fold (\<lambda>v G. if v \<noteq> x then set_iv v TOP G else G) (assigned_int_vars 0 body) F)"

text \<open>A write to the variable \<open>x\<close> of type \<open>t\<close>.\<close>

definition write_var :: "name \<Rightarrow> ty \<Rightarrow> expr \<Rightarrow> facts \<Rightarrow> facts" where
  "write_var x t e F =
     (if t = ty_int
      then let G = drop_owner x (F\<lparr>nzs := removeAll x (nzs F)\<rparr>)
           in set_iv x (expr_interval G e) G
      else drop_owner x (del_iv x F))"

definition drop_mutated :: "expr list \<Rightarrow> facts \<Rightarrow> facts" where
  "drop_mutated es F = fold drop_owner (concat (map len_mutators es)) F"

definition MAX_DEPTH :: nat where "MAX_DEPTH = 32"

function (sequential)
    prop_block :: "nat \<Rightarrow> stmt list \<Rightarrow> facts \<Rightarrow> stmt list \<times> facts"
and prop_list :: "nat \<Rightarrow> stmt list \<Rightarrow> facts \<Rightarrow> stmt list \<times> facts"
and prop_stmt :: "nat \<Rightarrow> stmt \<Rightarrow> facts \<Rightarrow> stmt \<times> facts" where
  "prop_block d ss F = (if d > MAX_DEPTH then (ss, F) else prop_list d ss F)"
| "prop_list d [] F = ([], F)"
| "prop_list d (s # ss) F =
     (let (s', F1) = prop_stmt d s F; (ss', F2) = prop_list d ss F1 in (s' # ss', F2))"
| "prop_stmt d (SWhile c body) F =
     (let I = while_inv (\<lambda>G. snd (prop_block (d + 1) body G)) F
      in (SWhile (annot I c) (fst (prop_block (d + 1) body I)), I))"
| "prop_stmt d (SFor x it body) F =
     (let (body', bf) = prop_block (d + 1) body (for_entry x it body F)
      in (SFor x it body', del_iv x (join_facts F bf)))"
| "prop_stmt d (SIf c th el) F =
     (let G = drop_mutated [c] F;
          (th', F1) = prop_block (d + 1) th G;
          (el', F2) = prop_block (d + 1) el G
      in (SIf (annot F c) th' el', join_facts F1 F2))"
| "prop_stmt d (SLet x t e rp) F =
     (SLet x t (annot F e) rp, write_var x t e (drop_mutated [e] F))"
| "prop_stmt d (SAssign (LIdent x t) e rp) F =
     (SAssign (LIdent x t) (annot F e) rp, write_var x t e (drop_mutated [e] F))"
| "prop_stmt d (SAssign (LIndex b i) e rp) F =
     (SAssign (LIndex b (annot F i)) (annot F e) rp, drop_mutated [e, i] F)"
| "prop_stmt d (SAssign (LField b f) e rp) F =
     (SAssign (LField b f) (annot F e) rp, drop_mutated [e] F)"
| "prop_stmt d (SReturn (Some e)) F = (SReturn (Some (annot F e)), drop_mutated [e] F)"
| "prop_stmt d (SExpr e) F = (SExpr (annot F e), drop_mutated [e] F)"
| "prop_stmt d s F = (s, F)"
  by pat_completeness auto
termination
  by (relation "measure (case_sum (\<lambda>(d, ss, F). Suc (2 * size_list size ss))
        (case_sum (\<lambda>(d, ss, F). 2 * size_list size ss) (\<lambda>(d, s, F). 2 * size s)))") auto

definition propagate_stmts :: "stmt list \<Rightarrow> facts \<Rightarrow> stmt list \<times> facts" where
  "propagate_stmts ss F = prop_block 0 ss F"

end
