(* ===== verification/Runtime.thy ===== *)
theory Runtime
  imports Ast
begin

text \<open>
  The reference interpreter of the language (src/tools/hlinterp/interp_parts/exec.py and the
  \<open>call_fn\<close> of core.py): runtime values, the store of mutable lists, structs and maps, scopes,
  and the evaluation of expressions, statements and calls.

  Effects. A computation takes and returns an \<open>ist\<close> and ends in a value or in a signal: the
  exceptions of the source (panic, return, break, continue, tail call, exit), \<open>SStuck\<close> for what
  is outside the model (an operation the checker rejects, a builtin not modelled), \<open>SFuel\<close> when
  the bound on the nesting depth is used up, and \<open>SUnsafe\<close>, below.

  Objects. Lists, structs and maps are Python objects shared by reference: a value of that kind
  is the index \<open>VRef a\<close> of an object in \<open>heap\<close>. Enum values are never updated in place and are
  plain values. Scopes are innermost first; a binding keeps only its value, since the flags
  beside it are never read at run time.

  Elision. The native compiler omits the runtime check of an operation whose \<open>ovf_safe\<close>,
  \<open>div_safe\<close> or \<open>bnd_safe\<close> annotation is set. With \<open>elide C\<close> false the definitions are the
  interpreter of the source, which ignores the annotations. With \<open>elide C\<close> true a failing check
  at an annotated operation is \<open>SUnsafe\<close> in place of the panic: the native code would go on
  past it with undefined behaviour.
\<close>

section \<open>Values, state and computations\<close>

datatype val =
    VInt int
  | VBool bool
  | VStr bytes
  | VFloat "64 word"
  | VNone
  | VRef nat
  | VEnum name name "val list"

datatype hobj =
    HList "val list"
  | HStruct "(name \<times> val) list"
  | HMap "(val \<times> val) list"

type_synonym scope = "name \<rightharpoonup> val"

record ist =
  env :: "scope list"
  heap :: "hobj list"
  out :: bytes
  errout :: bytes
  rng :: int
  frames :: "name list"

datatype sig =
    SPanic panic
  | SReturn val
  | SBreak
  | SContinue
  | STail name "val list"
  | SExit int
  | SStuck string
  | SFuel
  | SUnsafe

type_synonym 'a ev = "ist \<Rightarrow> (sig + 'a) \<times> ist"

text \<open>The arithmetic of IEEE doubles, given by the hardware: operations on the 64-bit patterns.\<close>

record float_ops =
  f_add :: "64 word \<Rightarrow> 64 word \<Rightarrow> 64 word"
  f_sub :: "64 word \<Rightarrow> 64 word \<Rightarrow> 64 word"
  f_mul :: "64 word \<Rightarrow> 64 word \<Rightarrow> 64 word"
  f_div :: "64 word \<Rightarrow> 64 word \<Rightarrow> 64 word"
  f_mod :: "64 word \<Rightarrow> 64 word \<Rightarrow> 64 word"
  f_neg :: "64 word \<Rightarrow> 64 word"
  f_lt :: "64 word \<Rightarrow> 64 word \<Rightarrow> bool"
  f_eq :: "64 word \<Rightarrow> 64 word \<Rightarrow> bool"
  f_zero :: "64 word \<Rightarrow> bool"

record ctx =
  fns :: "name \<rightharpoonup> fn"
  structs :: "name \<rightharpoonup> struct_def"
  contracts :: bool
  elide :: bool
  flops :: float_ops

definition ret :: "'a \<Rightarrow> 'a ev" where "ret v = (\<lambda>s. (Inr v, s))"

definition raise :: "sig \<Rightarrow> 'a ev" where "raise e = (\<lambda>s. (Inl e, s))"

definition bindS :: "'a ev \<Rightarrow> ('a \<Rightarrow> 'b ev) \<Rightarrow> 'b ev" where
  "bindS m f = (\<lambda>s. case m s of (Inl e, s') \<Rightarrow> (Inl e, s') | (Inr v, s') \<Rightarrow> f v s')"

definition getS :: "ist ev" where "getS = (\<lambda>s. (Inr s, s))"

definition modS :: "(ist \<Rightarrow> ist) \<Rightarrow> unit ev" where "modS g = (\<lambda>s. (Inr (), g s))"

text \<open>\<open>on_result m f\<close> continues with the outcome of \<open>m\<close>, whatever it is (an except clause).\<close>

definition on_result :: "'a ev \<Rightarrow> (sig + 'a \<Rightarrow> 'b ev) \<Rightarrow> 'b ev" where
  "on_result m f = (\<lambda>s. case m s of (r, s') \<Rightarrow> f r s')"

text \<open>\<open>scoped b m\<close>: run \<open>m\<close> in one more scope, dropped again whatever the outcome.\<close>

definition scoped :: "scope \<Rightarrow> 'a ev \<Rightarrow> 'a ev" where
  "scoped b m = (\<lambda>s. case m (s\<lparr>env := b # env s\<rparr>) of (r, s') \<Rightarrow> (r, s'\<lparr>env := tl (env s')\<rparr>))"

text \<open>\<open>with_env E m\<close>: run \<open>m\<close> in an environment of its own; \<open>with_frame k m\<close>: with \<open>k\<close> on the
  stack of running functions.\<close>

definition with_env :: "scope list \<Rightarrow> 'a ev \<Rightarrow> 'a ev" where
  "with_env E m = (\<lambda>s. case m (s\<lparr>env := E\<rparr>) of (r, s') \<Rightarrow> (r, s'\<lparr>env := env s\<rparr>))"

definition with_frame :: "name \<Rightarrow> 'a ev \<Rightarrow> 'a ev" where
  "with_frame k m =
     (\<lambda>s. case m (s\<lparr>frames := k # frames s\<rparr>) of (r, s') \<Rightarrow> (r, s'\<lparr>frames := frames s\<rparr>))"

fun mapS :: "('a \<Rightarrow> 'b ev) \<Rightarrow> 'a list \<Rightarrow> 'b list ev" where
  "mapS f [] = ret []"
| "mapS f (x # xs) = bindS (f x) (\<lambda>y. bindS (mapS f xs) (\<lambda>ys. ret (y # ys)))"

fun iterS :: "('a \<Rightarrow> unit ev) \<Rightarrow> 'a list \<Rightarrow> unit ev" where
  "iterS f [] = ret ()"
| "iterS f (x # xs) = bindS (f x) (\<lambda>_. iterS f xs)"

text \<open>The index loop of \<open>for\<close>: \<open>step i\<close> tells whether to go on.\<close>

fun for_loop :: "nat \<Rightarrow> nat \<Rightarrow> (nat \<Rightarrow> bool ev) \<Rightarrow> unit ev" where
  "for_loop 0 i step = ret ()"
| "for_loop (Suc k) i step = bindS (step i) (\<lambda>go. if go then for_loop k (Suc i) step else ret ())"

lemmas ev_defs = ret_def raise_def bindS_def getS_def modS_def on_result_def scoped_def
  with_env_def with_frame_def

abbreviation panic :: "string \<Rightarrow> 'a ev" where "panic m \<equiv> raise (SPanic (HLPanic m))"

abbreviation stuck :: "string \<Rightarrow> 'a ev" where "stuck m \<equiv> raise (SStuck m)"

text \<open>A check at an operation annotated \<open>flag\<close>, and a checked arithmetic result.\<close>

definition check :: "ctx \<Rightarrow> bool \<Rightarrow> bool \<Rightarrow> string \<Rightarrow> unit ev" where
  "check C flag ok msg =
     (if ok then ret () else if elide C \<and> flag then raise SUnsafe else panic msg)"

definition checked :: "ctx \<Rightarrow> bool \<Rightarrow> Int64.panic + int \<Rightarrow> val ev" where
  "checked C flag r =
     (case r of Inr v \<Rightarrow> ret (VInt v)
      | Inl p \<Rightarrow> if elide C \<and> flag then raise SUnsafe else raise (SPanic p))"

section \<open>Scopes and objects\<close>

fun lookup :: "scope list \<Rightarrow> name \<Rightarrow> val option" where
  "lookup [] x = None"
| "lookup (sc # E) x = (case sc x of Some v \<Rightarrow> Some v | None \<Rightarrow> lookup E x)"

fun update_var :: "scope list \<Rightarrow> name \<Rightarrow> val \<Rightarrow> scope list" where
  "update_var [] x v = []"
| "update_var (sc # E) x v =
     (if sc x \<noteq> None then sc(x \<mapsto> v) # E else sc # update_var E x v)"

fun bind_var :: "scope list \<Rightarrow> name \<Rightarrow> val \<Rightarrow> scope list" where
  "bind_var [] x v = []"
| "bind_var (sc # E) x v = sc(x \<mapsto> v) # E"

definition deref :: "ist \<Rightarrow> val \<Rightarrow> hobj option" where
  "deref s v = (case v of VRef a \<Rightarrow> if a < length (heap s) then Some (heap s ! a) else None
                | _ \<Rightarrow> None)"

definition alloc :: "hobj \<Rightarrow> val ev" where
  "alloc obj = (\<lambda>s. (Inr (VRef (length (heap s))), s\<lparr>heap := heap s @ [obj]\<rparr>))"

definition store :: "val \<Rightarrow> hobj \<Rightarrow> unit ev" where
  "store v obj = (case v of VRef a \<Rightarrow> modS (\<lambda>s. s\<lparr>heap := (heap s)[a := obj]\<rparr>)
                  | _ \<Rightarrow> stuck ''store'')"

text \<open>Python's \<open>bool(v)\<close>, \<open>==\<close> and \<open><\<close> on the values the checker lets them be applied to.\<close>

definition truthy :: "ctx \<Rightarrow> ist \<Rightarrow> val \<Rightarrow> bool" where
  "truthy C s v =
     (case v of VBool b \<Rightarrow> b | VInt n \<Rightarrow> n \<noteq> 0 | VStr t \<Rightarrow> t \<noteq> [] | VNone \<Rightarrow> False
      | VFloat f \<Rightarrow> \<not> f_zero (flops C) f | VEnum _ _ _ \<Rightarrow> True
      | VRef a \<Rightarrow> (case deref s v of Some (HList xs) \<Rightarrow> xs \<noteq> []
                   | Some (HStruct fs) \<Rightarrow> fs \<noteq> [] | Some (HMap m) \<Rightarrow> m \<noteq> [] | None \<Rightarrow> False))"

fun scalar_eq :: "ctx \<Rightarrow> val \<Rightarrow> val \<Rightarrow> bool option" where
  "scalar_eq C (VInt a) (VInt b) = Some (a = b)"
| "scalar_eq C (VBool a) (VBool b) = Some (a = b)"
| "scalar_eq C (VStr a) (VStr b) = Some (a = b)"
| "scalar_eq C (VFloat a) (VFloat b) = Some (f_eq (flops C) a b)"
| "scalar_eq C _ _ = None"

fun bytes_less :: "bytes \<Rightarrow> bytes \<Rightarrow> bool" where
  "bytes_less [] [] = False"
| "bytes_less [] (_ # _) = True"
| "bytes_less (_ # _) [] = False"
| "bytes_less (a # as) (b # bs) = (a < b \<or> a = b \<and> bytes_less as bs)"

fun scalar_less :: "ctx \<Rightarrow> val \<Rightarrow> val \<Rightarrow> bool option" where
  "scalar_less C (VInt a) (VInt b) = Some (a < b)"
| "scalar_less C (VBool a) (VBool b) = Some (\<not> a \<and> b)"
| "scalar_less C (VStr a) (VStr b) = Some (bytes_less a b)"
| "scalar_less C (VFloat a) (VFloat b) = Some (f_lt (flops C) a b)"
| "scalar_less C _ _ = None"

definition ret_bool :: "bool option \<Rightarrow> val ev" where
  "ret_bool r = (case r of Some b \<Rightarrow> ret (VBool b) | None \<Rightarrow> stuck ''comparison'')"

text \<open>\<open><=\<close> of floats is false on a NaN, so it is less-or-equal and not the negation of greater.\<close>

definition scalar_le :: "ctx \<Rightarrow> val \<Rightarrow> val \<Rightarrow> bool option" where
  "scalar_le C a b =
     (case scalar_less C a b of None \<Rightarrow> None
      | Some lt \<Rightarrow> (case scalar_eq C a b of None \<Rightarrow> None | Some eq \<Rightarrow> Some (lt \<or> eq)))"

text \<open>The strict operators of \<open>eval_bin\<close>, on the values of both operands.\<close>

definition arith :: "ctx \<Rightarrow> binop \<Rightarrow> bool \<Rightarrow> bool \<Rightarrow> int \<Rightarrow> int \<Rightarrow> val ev" where
  "arith C op ovf divs a b =
     (case op of
        OpAdd \<Rightarrow> checked C ovf (i64_add a b)
      | OpSub \<Rightarrow> checked C ovf (i64_sub a b)
      | OpMul \<Rightarrow> checked C ovf (i64_mul a b)
      | OpDiv \<Rightarrow> checked C divs (i64_div a b)
      | OpMod \<Rightarrow> checked C divs (i64_mod a b)
      | _ \<Rightarrow> stuck ''unknown operator'')"

definition float_arith :: "ctx \<Rightarrow> binop \<Rightarrow> 64 word \<Rightarrow> 64 word \<Rightarrow> val ev" where
  "float_arith C op a b =
     (case op of
        OpAdd \<Rightarrow> ret (VFloat (f_add (flops C) a b))
      | OpSub \<Rightarrow> ret (VFloat (f_sub (flops C) a b))
      | OpMul \<Rightarrow> ret (VFloat (f_mul (flops C) a b))
      | OpDiv \<Rightarrow> ret (VFloat (f_div (flops C) a b))
      | OpMod \<Rightarrow> ret (VFloat (f_mod (flops C) a b))
      | _ \<Rightarrow> stuck ''unknown operator'')"

definition strict_bin :: "ctx \<Rightarrow> binop \<Rightarrow> bool \<Rightarrow> bool \<Rightarrow> val \<Rightarrow> val \<Rightarrow> val ev" where
  "strict_bin C op ovf divs a b =
     (case op of
        OpEq \<Rightarrow> ret_bool (scalar_eq C a b)
      | OpNe \<Rightarrow> ret_bool (map_option Not (scalar_eq C a b))
      | OpLt \<Rightarrow> ret_bool (scalar_less C a b)
      | OpLe \<Rightarrow> ret_bool (scalar_le C a b)
      | OpGt \<Rightarrow> ret_bool (scalar_less C b a)
      | OpGe \<Rightarrow> ret_bool (scalar_le C b a)
      | _ \<Rightarrow> (case (a, b) of
               (VInt m, VInt n) \<Rightarrow> arith C op ovf divs m n
             | (VFloat x, VFloat y) \<Rightarrow> float_arith C op x y
             | (VStr t, VStr u) \<Rightarrow> if op = OpAdd then ret (VStr (t @ u)) else stuck ''operand types''
             | _ \<Rightarrow> stuck ''operand types''))"

definition eval_un :: "ctx \<Rightarrow> unop \<Rightarrow> val \<Rightarrow> val ev" where
  "eval_un C op v =
     (case op of
        OpNot \<Rightarrow> bindS getS (\<lambda>s. ret (VBool (\<not> truthy C s v)))
      | OpNeg \<Rightarrow> (case v of
            VInt n \<Rightarrow> (case i64_neg n of Inr r \<Rightarrow> ret (VInt r) | Inl p \<Rightarrow> raise (SPanic p))
          | VFloat f \<Rightarrow> ret (VFloat (f_neg (flops C) f))
          | _ \<Rightarrow> stuck ''operand type''))"

definition out_of_bounds :: string where "out_of_bounds = ''array access out of bounds''"

text \<open>\<open>lst[i]\<close> with the bounds check, and \<open>base[i] = val\<close>.\<close>

definition index_get :: "ctx \<Rightarrow> bool \<Rightarrow> val \<Rightarrow> val \<Rightarrow> val ev" where
  "index_get C bnd l i =
     bindS getS (\<lambda>s. case (deref s l, i) of
       (Some (HList xs), VInt k) \<Rightarrow>
         bindS (check C bnd (0 \<le> k \<and> k < int (length xs)) out_of_bounds)
           (\<lambda>_. ret (xs ! nat k))
     | _ \<Rightarrow> stuck ''index'')"

definition index_set :: "val \<Rightarrow> val \<Rightarrow> val \<Rightarrow> unit ev" where
  "index_set l i v =
     bindS getS (\<lambda>s. case (deref s l, i) of
       (Some (HList xs), VInt k) \<Rightarrow>
         if k < 0 \<or> k \<ge> int (length xs) then panic out_of_bounds
         else store l (HList (xs[nat k := v]))
     | _ \<Rightarrow> stuck ''index'')"

definition field_get :: "val \<Rightarrow> name \<Rightarrow> val ev" where
  "field_get b f =
     bindS getS (\<lambda>s. case deref s b of
       Some (HStruct fs) \<Rightarrow> (case map_of fs f of Some v \<Rightarrow> ret v | None \<Rightarrow> stuck ''field'')
     | _ \<Rightarrow> stuck ''field'')"

definition field_set :: "val \<Rightarrow> name \<Rightarrow> val \<Rightarrow> unit ev" where
  "field_set b f v =
     bindS getS (\<lambda>s. case deref s b of
       Some (HStruct fs) \<Rightarrow> store b (HStruct (AList.update f v fs))
     | _ \<Rightarrow> stuck ''field'')"

end
