(* ===== verification/Builtins.thy ===== *)
theory Builtins
  imports Runtime "HOL-Library.Sublist"
begin

text \<open>
  The builtins a program can call that are pure or touch only the interpreter's state:
  \<open>builtin\<close> (src/tools/hlinterp/interp_parts/builtin.py) and \<open>builtin_method\<close>
  (builtin_method.py). Printing appends to \<open>out\<close> or \<open>errout\<close>; the random numbers draw from
  \<open>rng\<close>. Builtins that reach the operating system, the clock, the network, threads, or that print
  or parse floats are outside the model: they are \<open>SStuck\<close>.
\<close>

section \<open>Byte strings\<close>

text \<open>\<open>t.find(p)\<close>: the first place where \<open>p\<close> occurs, or -1.\<close>

fun bfind :: "bytes \<Rightarrow> bytes \<Rightarrow> int" where
  "bfind t p =
     (if take (length p) t = p then 0
      else case t of [] \<Rightarrow> -1 | _ # t' \<Rightarrow> (let r = bfind t' p in if r < 0 then -1 else r + 1))"

declare bfind.simps [simp del]

text \<open>\<open>t.split(sep)\<close> for a non-empty separator: \<open>cur\<close> holds the current piece, reversed.\<close>

fun bsplit_go :: "bytes \<Rightarrow> bytes \<Rightarrow> bytes \<Rightarrow> bytes list" where
  "bsplit_go sep cur [] = [rev cur]"
| "bsplit_go sep cur (c # t) =
     (if take (length sep) (c # t) = sep
      then rev cur # bsplit_go sep [] (drop (length sep - 1) t)
      else bsplit_go sep (c # cur) t)"

definition bsplit :: "bytes \<Rightarrow> bytes \<Rightarrow> bytes list" where
  "bsplit t sep = bsplit_go sep [] t"

fun bjoin :: "bytes \<Rightarrow> bytes list \<Rightarrow> bytes" where
  "bjoin sep [] = []"
| "bjoin sep [p] = p"
| "bjoin sep (p # q # ps) = p @ sep @ bjoin sep (q # ps)"

definition B_LOW :: "8 word \<Rightarrow> bool" where "B_LOW c \<longleftrightarrow> c < 0x21"

definition btrim :: "bytes \<Rightarrow> bytes" where
  "btrim t = rev (dropWhile B_LOW (rev (dropWhile B_LOW t)))"

definition is_prefix :: "bytes \<Rightarrow> bytes \<Rightarrow> bool" where
  "is_prefix p t \<longleftrightarrow> take (length p) t = p"

definition is_suffix :: "bytes \<Rightarrow> bytes \<Rightarrow> bool" where
  "is_suffix p t \<longleftrightarrow> length p \<le> length t \<and> drop (length t - length p) t = p"

section \<open>Bit operations on int64 values\<close>

definition MASK64 :: int where "MASK64 = push_bit 64 1 - 1"

definition i64_wrap :: "int \<Rightarrow> int" where
  "i64_wrap v = (let u = and v MASK64 in if u \<ge> push_bit 63 1 then u - push_bit 64 1 else u)"

text \<open>\<open>x.bit_length()\<close>, \<open>bin(x).count("1")\<close> and the loop of \<open>int_ctz\<close> for \<open>x \<ge> 0\<close>.\<close>

fun bit_length :: "nat \<Rightarrow> nat" where
  "bit_length x = (if x = 0 then 0 else Suc (bit_length (x div 2)))"

fun bit_count :: "nat \<Rightarrow> nat" where
  "bit_count x = (if x = 0 then 0 else x mod 2 + bit_count (x div 2))"

fun ctz_loop :: "nat \<Rightarrow> nat \<Rightarrow> nat" where
  "ctz_loop x n = (if x = 0 \<or> x mod 2 \<noteq> 0 then n else ctz_loop (x div 2) (n + 1))"

declare bit_length.simps [simp del] bit_count.simps [simp del] ctz_loop.simps [simp del]

fun int_builtin :: "name \<Rightarrow> int list \<Rightarrow> int option" where
  "int_builtin f [a, b] =
     (if f = ''int_and'' then Some (i64_wrap (and a b))
      else if f = ''int_or'' then Some (i64_wrap (or a b))
      else if f = ''int_xor'' then Some (i64_wrap (xor a b))
      else let n = nat (and b 63) in
           if f = ''int_shl'' then Some (i64_wrap (push_bit n a))
           else if f = ''int_shr'' then Some (i64_wrap (drop_bit n (and a MASK64)))
           else if f = ''int_sar'' then Some (i64_wrap (drop_bit n a))
           else None)"
| "int_builtin f [a] =
     (if f = ''int_not'' then Some (i64_wrap (not a))
      else let x = nat (and a MASK64) in
           if f = ''int_popcount'' then Some (int (bit_count x))
           else if f = ''int_clz'' then Some (if x = 0 then 64 else 64 - int (bit_length x))
           else if f = ''int_ctz'' then Some (if x = 0 then 64 else int (ctz_loop x 0))
           else None)"
| "int_builtin _ _ = None"

section \<open>Cloning\<close>

text \<open>\<open>deep_clone\<close>: \<open>seen\<close> maps an object already reached to its copy, so each object is copied
  once and cycles end. The copy is allocated empty and filled when its parts are cloned. The first
  argument bounds the nesting; a value reaches each object at most once, so the number of objects
  and the depth of the enum values bound it.\<close>

type_synonym clone_st = "(nat \<times> nat) list \<times> hobj list"

fun clone_val :: "nat \<Rightarrow> val \<Rightarrow> clone_st \<Rightarrow> (val \<times> clone_st) option"
and clone_list :: "nat \<Rightarrow> val list \<Rightarrow> clone_st \<Rightarrow> (val list \<times> clone_st) option" where
  "clone_val 0 v st = None"
| "clone_val (Suc n) v (seen, hp) =
     (case v of
        VRef a \<Rightarrow>
          (case map_of seen a of Some c \<Rightarrow> Some (VRef c, (seen, hp))
           | None \<Rightarrow>
             if \<not> a < length hp then None
             else let c = length hp in
               (case hp ! a of
                  HList xs \<Rightarrow>
                    (case clone_list n xs ((a, c) # seen, hp @ [HList []]) of None \<Rightarrow> None
                     | Some (ys, (seen', hp')) \<Rightarrow> Some (VRef c, (seen', hp'[c := HList ys])))
                | HStruct fs \<Rightarrow>
                    (case clone_list n (map snd fs) ((a, c) # seen, hp @ [HStruct []]) of
                       None \<Rightarrow> None
                     | Some (ys, (seen', hp')) \<Rightarrow>
                         Some (VRef c, (seen', hp'[c := HStruct (zip (map fst fs) ys)])))
                | HMap m \<Rightarrow>
                    (case clone_list n (map snd m) ((a, c) # seen, hp @ [HMap []]) of
                       None \<Rightarrow> None
                     | Some (ys, (seen', hp')) \<Rightarrow>
                         Some (VRef c, (seen', hp'[c := HMap (zip (map fst m) ys)])))))
      | VEnum e k vs \<Rightarrow>
          (case clone_list n vs (seen, hp) of None \<Rightarrow> None
           | Some (ys, st') \<Rightarrow> Some (VEnum e k ys, st'))
      | _ \<Rightarrow> Some (v, (seen, hp)))"
| "clone_list n [] st = Some ([], st)"
| "clone_list 0 (v # vs) st = None"
| "clone_list (Suc n) (v # vs) st =
     (case clone_val n v st of None \<Rightarrow> None
      | Some (y, st') \<Rightarrow>
        (case clone_list n vs st' of None \<Rightarrow> None
         | Some (ys, st'') \<Rightarrow> Some (y # ys, st'')))"

text \<open>The nesting bound given to a clone: every object reached adds its own length.\<close>

fun val_depth :: "val \<Rightarrow> nat" where
  "val_depth (VEnum _ _ vs) = Suc (length vs + sum_list (map val_depth vs))"
| "val_depth _ = 1"

fun hobj_vals :: "hobj \<Rightarrow> val list" where
  "hobj_vals (HList xs) = xs"
| "hobj_vals (HStruct fs) = map snd fs"
| "hobj_vals (HMap m) = map snd m"

definition clone_fuel :: "val \<Rightarrow> hobj list \<Rightarrow> nat" where
  "clone_fuel v hp =
     val_depth v + sum_list (map (\<lambda>ob. 2 + length (hobj_vals ob) + sum_list (map val_depth (hobj_vals ob))) hp)"

definition deep_clone :: "val \<Rightarrow> val ev" where
  "deep_clone v = (\<lambda>s. case clone_val (Suc (clone_fuel v (heap s))) v ([], heap s) of
     Some (c, (_, hp)) \<Rightarrow> (Inr c, s\<lparr>heap := hp\<rparr>)
   | None \<Rightarrow> (Inl (SStuck ''clone''), s))"

section \<open>Functions\<close>

definition RANGE_MAX :: int where "RANGE_MAX = 1000000"

text \<open>\<open>%d\<close> in a message.\<close>

definition fmt_int :: "int \<Rightarrow> string" where
  "fmt_int n = map (\<lambda>c. char_of (unat c)) (int_to_str n)"

definition range_msg :: "int \<Rightarrow> int \<Rightarrow> int \<Rightarrow> string" where
  "range_msg a b count =
     ''range('' @ fmt_int a @ '', '' @ fmt_int b @ '') would produce '' @ fmt_int count @
     '' elements (limit '' @ fmt_int RANGE_MAX @
     '') - use an explicit counter loop for large ranges''"

definition py_range :: "int \<Rightarrow> int \<Rightarrow> val ev" where
  "py_range a b =
     (let count = (if b > a then b - a else 0)
      in if count > RANGE_MAX then panic (range_msg a b count)
         else alloc (HList (map (\<lambda>k. VInt (a + int k)) [0..<nat count])))"

text \<open>\<open>all_ints\<close>, \<open>all_strs\<close>: the arguments as the operation needs them.\<close>

fun all_ints :: "val list \<Rightarrow> int list option" where
  "all_ints [] = Some []"
| "all_ints (VInt n # vs) = map_option ((#) n) (all_ints vs)"
| "all_ints (_ # vs) = None"

fun all_strs :: "val list \<Rightarrow> bytes list option" where
  "all_strs [] = Some []"
| "all_strs (VStr t # vs) = map_option ((#) t) (all_strs vs)"
| "all_strs (_ # vs) = None"

definition lift_parse :: "Int64.panic + int \<Rightarrow> val ev" where
  "lift_parse r = (case r of Inr n \<Rightarrow> ret (VInt n) | Inl p \<Rightarrow> raise (SPanic p))"

definition size_of :: "val \<Rightarrow> val ev" where
  "size_of v = bindS getS (\<lambda>s. case v of
     VStr t \<Rightarrow> ret (VInt (int (length t)))
   | _ \<Rightarrow> (case deref s v of
             Some (HList xs) \<Rightarrow> ret (VInt (int (length xs)))
           | Some (HMap m) \<Rightarrow> ret (VInt (int (length m)))
           | _ \<Rightarrow> stuck ''len''))"

definition rand_int :: "int \<Rightarrow> val ev" where
  "rand_int mx =
     (if mx \<le> 0 then panic ''rand_int() requires a positive max''
      else (\<lambda>s. case rng_randrange mx (rng s) of (v, st) \<Rightarrow> (Inr (VInt v), s\<lparr>rng := st\<rparr>)))"

definition builtin_str :: "val \<Rightarrow> val ev" where
  "builtin_str v =
     (case v of VBool b \<Rightarrow> ret (VStr (if b then [116, 114, 117, 101] else [102, 97, 108, 115, 101]))
      | VInt n \<Rightarrow> ret (VStr (int_to_str n))
      | VStr t \<Rightarrow> ret v
      | _ \<Rightarrow> stuck ''str'')"

definition builtin1 :: "name \<Rightarrow> val \<Rightarrow> val ev" where
  "builtin1 f v =
     (case v of
        VStr t \<Rightarrow>
          if f = ''print'' then bindS (modS (\<lambda>s. s\<lparr>out := out s @ t\<rparr>)) (\<lambda>_. ret VNone)
          else if f = ''println'' then bindS (modS (\<lambda>s. s\<lparr>out := out s @ t @ [10]\<rparr>)) (\<lambda>_. ret VNone)
          else if f = ''eprint'' then bindS (modS (\<lambda>s. s\<lparr>errout := errout s @ t\<rparr>)) (\<lambda>_. ret VNone)
          else if f = ''eprintln''
          then bindS (modS (\<lambda>s. s\<lparr>errout := errout s @ t @ [10]\<rparr>)) (\<lambda>_. ret VNone)
          else if f = ''panic'' then raise (SPanic (HLPanicB t))
          else if f = ''int'' then lift_parse (parse_int t)
          else stuck f
      | VInt n \<Rightarrow>
          if f = ''exit'' then raise (SExit (and n 255))
          else if f = ''chr''
          then (if n < 0 \<or> n > 255 then panic ''chr out of range 0..255''
                else ret (VStr [word_of_int n]))
          else if f = ''rand_int'' then rand_int n
          else if f = ''rand_seed'' then bindS (modS (\<lambda>s. s\<lparr>rng := rng_seed n\<rparr>)) (\<lambda>_. ret VNone)
          else (case int_builtin f [n] of Some r \<Rightarrow> ret (VInt r) | None \<Rightarrow> stuck f)
      | _ \<Rightarrow> stuck f)"

definition list_strs :: "val \<Rightarrow> ist \<Rightarrow> bytes list option" where
  "list_strs v s = (case deref s v of Some (HList xs) \<Rightarrow> all_strs xs | _ \<Rightarrow> None)"

definition builtin2 :: "name \<Rightarrow> val \<Rightarrow> val \<Rightarrow> val ev" where
  "builtin2 f v w =
     (case (v, w) of
        (VInt a, VInt b) \<Rightarrow>
          if f = ''range'' then py_range a b
          else (case int_builtin f [a, b] of Some r \<Rightarrow> ret (VInt r) | None \<Rightarrow> stuck f)
      | (VRef _, VStr sep) \<Rightarrow>
          if f = ''join''
          then bindS getS (\<lambda>s. case list_strs v s of
                 Some ps \<Rightarrow> ret (VStr (bjoin sep ps)) | None \<Rightarrow> stuck f)
          else stuck f
      | _ \<Rightarrow> stuck f)"

section \<open>Methods\<close>

text \<open>\<open>byte_at\<close> and \<open>slice\<close> carry the \<open>bnd_safe\<close> annotation of their call.\<close>

definition str_method :: "ctx \<Rightarrow> bool \<Rightarrow> name \<Rightarrow> bytes \<Rightarrow> val list \<Rightarrow> val ev" where
  "str_method C bnd op t args =
     (case args of
        [] \<Rightarrow>
          if op = ''str.len'' then ret (VInt (int (length t)))
          else if op = ''str.trim'' then ret (VStr (btrim t))
          else if op = ''str.to_int'' then lift_parse (parse_int t)
          else if op = ''str.to_str'' then ret (VStr t)
          else stuck op
      | [VInt i] \<Rightarrow>
          if op = ''str.byte_at''
          then bindS (check C bnd (0 \<le> i \<and> i < int (length t)) ''string access out of bounds'')
                 (\<lambda>_. ret (VInt (uint (t ! nat i))))
          else stuck op
      | [VInt a, VInt b] \<Rightarrow>
          if op = ''str.slice''
          then bindS (check C bnd (0 \<le> a \<and> a \<le> b \<and> b \<le> int (length t)) ''invalid string slice'')
                 (\<lambda>_. ret (VStr (slice (nat a) (nat b) t)))
          else stuck op
      | [VStr p] \<Rightarrow>
          if op = ''str.find'' then ret (VInt (bfind t p))
          else if op = ''str.contains'' then ret (VBool (bfind t p \<ge> 0))
          else if op = ''str.starts_with'' then ret (VBool (is_prefix p t))
          else if op = ''str.ends_with'' then ret (VBool (is_suffix p t))
          else if op = ''str.split''
          then (if p = [] then panic ''empty separator not allowed''
                else alloc (HList (map VStr (bsplit t p))))
          else stuck op
      | _ \<Rightarrow> stuck op)"

definition list_method :: "name \<Rightarrow> val \<Rightarrow> val list \<Rightarrow> val list \<Rightarrow> val ev" where
  "list_method op l xs args =
     (if op = ''list.len'' then ret (VInt (int (length xs)))
      else if op = ''list.pop''
      then (if xs = [] then panic ''pop from empty list''
            else bindS (store l (HList (butlast xs))) (\<lambda>_. ret (last xs)))
      else (case args of
              [v] \<Rightarrow>
                if op = ''list.push'' then bindS (store l (HList (xs @ [v]))) (\<lambda>_. ret VNone)
                else if op = ''list.get''
                then (case v of
                        VInt i \<Rightarrow> if i < 0 \<or> i \<ge> int (length xs) then panic out_of_bounds
                                  else ret (xs ! nat i)
                      | _ \<Rightarrow> stuck op)
                else stuck op
            | [VInt i, v] \<Rightarrow>
                if op = ''list.set''
                then (if i < 0 \<or> i \<ge> int (length xs) then panic out_of_bounds
                      else bindS (store l (HList (xs[nat i := v]))) (\<lambda>_. ret VNone))
                else stuck op
            | _ \<Rightarrow> stuck op))"

definition map_method :: "name \<Rightarrow> val \<Rightarrow> (val \<times> val) list \<Rightarrow> val list \<Rightarrow> val ev" where
  "map_method op l m args =
     (case args of
        [] \<Rightarrow>
          if op = ''map.len'' then ret (VInt (int (length m)))
          else if op = ''map.keys'' then alloc (HList (map fst m))
          else stuck op
      | [k] \<Rightarrow> if op = ''map.has'' then ret (VBool (map_of m k \<noteq> None)) else stuck op
      | [k, v] \<Rightarrow>
          if op = ''map.set'' then bindS (store l (HMap (AList.update k v m))) (\<lambda>_. ret VNone)
          else if op = ''map.get_or''
          then (case map_of m k of None \<Rightarrow> ret v | Some VNone \<Rightarrow> ret v | Some w \<Rightarrow> ret w)
          else stuck op
      | _ \<Rightarrow> stuck op)"

definition int_method :: "name \<Rightarrow> int \<Rightarrow> val ev" where
  "int_method op n =
     (if op = ''int.to_str'' then ret (VStr (int_to_str n))
      else if op = ''int.abs''
      then (if n < 0 then lift_parse (i64_neg n) else ret (VInt n))
      else stuck op)"

definition builtin_method :: "ctx \<Rightarrow> bool \<Rightarrow> name \<Rightarrow> val \<Rightarrow> val list \<Rightarrow> val ev" where
  "builtin_method C bnd op t args =
     (case t of
        VStr b \<Rightarrow> str_method C bnd op b args
      | VInt n \<Rightarrow> int_method op n
      | VBool b \<Rightarrow> if op = ''bool.to_str'' then builtin_str t else stuck op
      | _ \<Rightarrow> bindS getS (\<lambda>s. case deref s t of
               Some (HList xs) \<Rightarrow> list_method op t xs args
             | Some (HMap m) \<Rightarrow> map_method op t m args
             | _ \<Rightarrow> stuck op))"

definition builtin :: "name \<Rightarrow> val list \<Rightarrow> val ev" where
  "builtin f args =
     (case args of
        [] \<Rightarrow> if f = ''map_new'' then alloc (HMap []) else stuck f
      | [v] \<Rightarrow>
          if f = ''len'' then size_of v
          else if f = ''str'' then builtin_str v
          else if f = ''drop'' then ret VNone
          else if f = ''clone'' then deep_clone v
          else if f = ''take'' then ret v
          else builtin1 f v
      | [v, w] \<Rightarrow> builtin2 f v w
      | _ \<Rightarrow> stuck f)"

end
