(* ===== verification/Interp.thy ===== *)
theory Interp
  imports Builtins
begin

text \<open>
  The evaluator (src/tools/hlinterp/interp_parts/exec.py; \<open>call_fn\<close> and \<open>check_refine\<close> of core.py).
  The first number is a bound on the nesting of calls to the evaluator, loop iterations included;
  \<open>SFuel\<close> is the outcome when it is used up, and every other outcome is the same for any larger
  bound (lemma \<open>eval_mono\<close>).
\<close>

section \<open>The evaluator\<close>

text \<open>The two ways a run of a function's body leaves \<open>call_fn\<close>: a result, or the tail call that
  is to be run in its place.\<close>

datatype call_result = CDone val | CTail name "val list"

fun ok_value :: "val \<Rightarrow> name \<Rightarrow> name \<Rightarrow> val ev" where
  "ok_value (VEnum en var vs) okv errv =
     (if var = okv
      then (if length vs \<noteq> 1
            then panic ''? operator: success variant must have exactly one payload''
            else ret (hd vs))
      else if var = errv then raise (SReturn (VEnum en var vs))
      else panic ''? operator: enum value matched neither ok nor err variant'')"
| "ok_value _ _ _ = panic ''? on non-enum value''"

text \<open>The bindings an arm's pattern makes of the payloads: \<open>None\<close> when there are too few.\<close>

fun bind_payloads :: "name list \<Rightarrow> val list \<Rightarrow> scope \<Rightarrow> scope option" where
  "bind_payloads [] vs sc = Some sc"
| "bind_payloads (b # bs) [] sc = (if b = ''_'' then bind_payloads bs [] sc else None)"
| "bind_payloads (b # bs) (v # vs) sc =
     bind_payloads bs vs (if b = ''_'' then sc else sc(b \<mapsto> v))"

text \<open>The first arm that applies to a value, with the scope its pattern opens: \<open>None\<close> for a
  wildcard, which opens none.\<close>

fun select_arm :: "name \<Rightarrow> name \<Rightarrow> (pat \<times> expr) list \<Rightarrow> (name list option \<times> expr) option" where
  "select_arm en var [] = None"
| "select_arm en var ((PWild, body) # arms) = Some (None, body)"
| "select_arm en var ((PVariant pe pv bs, body) # arms) =
     (if pe \<noteq> en \<or> pv \<noteq> var then select_arm en var arms else Some (Some bs, body))"

text \<open>The scope a function starts in; \<open>None\<close> when the argument count is wrong.\<close>

definition bind_params :: "param list \<Rightarrow> val list \<Rightarrow> scope option" where
  "bind_params ps args =
     (if length ps \<noteq> length args then None
      else Some (fold (\<lambda>(p, v) sc. sc(fst p \<mapsto> v)) (zip ps args) Map.empty))"

definition refine_msg :: "string \<Rightarrow> string \<Rightarrow> string" where
  "refine_msg what txt =
     ''refinement violation: '' @ what @ '' must satisfy '' @ [char_of (39 :: nat)] @ txt @ [char_of (39 :: nat)]"

definition quoted :: "string \<Rightarrow> string" where
  "quoted x = [char_of (39 :: nat)] @ x @ [char_of (39 :: nat)]"

definition contract_msg :: "string \<Rightarrow> string \<Rightarrow> string \<Rightarrow> string" where
  "contract_msg which f how =
     ''contract violation: '' @ which @ '' of '' @ quoted f @ '' (function '' @ how @ '' failed at runtime)''"

text \<open>\<open>env[0]["result"] = v\<close>: the function's own scope is the outermost one.\<close>

fun update_last :: "scope list \<Rightarrow> val \<Rightarrow> scope list" where
  "update_last [] v = []"
| "update_last [sc] v = [sc(''result'' \<mapsto> v)]"
| "update_last (sc # E) v = sc # update_last E v"

text \<open>The tail self-call of a \<open>#[tail_call]\<close> function: the call's callee and arguments, when the
  returned expression is a call to the running function.\<close>

fun tail_target :: "ctx \<Rightarrow> ist \<Rightarrow> expr \<Rightarrow> (name \<times> expr list) option" where
  "tail_target C s (ECall _ (User k) args) =
     (case frames s of
        cur # _ \<Rightarrow> if k = cur \<and> (case fns C cur of Some f \<Rightarrow> fn_tail_call f | None \<Rightarrow> False)
                   then Some (k, args) else None
      | [] \<Rightarrow> None)"
| "tail_target C s _ = None"

text \<open>The long messages; the dash is in its UTF-8 bytes.\<close>

definition em_dash :: string where "em_dash = map char_of [226 :: nat, 128, 148]"

definition binding_msg :: string where
  "binding_msg = ''match: binding count exceeds payload count (internal checker bug '' @ em_dash @
     '' please report)''"

definition asm_msg :: string where
  "asm_msg = ''asm! cannot be executed by the boot interpreter '' @ em_dash @
     '' use the native compiler `hlc` (which lowers asm! to GCC extended asm) or wrap the asm! call '' @
     ''in a path the interpreter does not take (e.g. an extern '' @ [CHR 0x22] @ ''C'' @ [CHR 0x22] @
     '' fn or a kernel-only entrypoint)''"

function (sequential)
    eval_expr :: "ctx \<Rightarrow> nat \<Rightarrow> expr \<Rightarrow> val ev"
and check_refine :: "ctx \<Rightarrow> nat \<Rightarrow> refinement \<Rightarrow> val \<Rightarrow> string \<Rightarrow> unit ev"
and exec_stmt :: "ctx \<Rightarrow> nat \<Rightarrow> stmt \<Rightarrow> unit ev"
and exec_while :: "ctx \<Rightarrow> nat \<Rightarrow> expr \<Rightarrow> stmt list \<Rightarrow> unit ev"
and assign_to :: "ctx \<Rightarrow> nat \<Rightarrow> lval \<Rightarrow> val \<Rightarrow> unit ev"
and call_fn :: "ctx \<Rightarrow> nat \<Rightarrow> name \<Rightarrow> val list \<Rightarrow> val ev"
where
  "eval_expr C 0 e = raise SFuel"
| "eval_expr C (Suc n) e =
     (case e of
        EInt i \<Rightarrow> ret (VInt i)
      | EFloat f \<Rightarrow> ret (VFloat f)
      | EBool b \<Rightarrow> ret (VBool b)
      | EStr t \<Rightarrow> ret (VStr t)
      | EIdent x t \<Rightarrow> bindS getS (\<lambda>s. case lookup (env s) x of
            Some v \<Rightarrow> ret v
          | None \<Rightarrow> panic (''variable does not exist: '' @ x))
      | EBin op l r t ovf divs \<Rightarrow>
          (case op of
             OpOr \<Rightarrow> bindS (eval_expr C n l) (\<lambda>a. bindS getS (\<lambda>s.
               if truthy C s a then ret (VBool True) else eval_expr C n r))
           | OpAnd \<Rightarrow> bindS (eval_expr C n l) (\<lambda>a. bindS getS (\<lambda>s.
               if \<not> truthy C s a then ret (VBool False) else eval_expr C n r))
           | _ \<Rightarrow> bindS (eval_expr C n l) (\<lambda>a. bindS (eval_expr C n r) (\<lambda>b.
               strict_bin C op ovf divs a b)))
      | EUn op a \<Rightarrow> bindS (eval_expr C n a) (eval_un C op)
      | ECall f rc args \<Rightarrow> bindS (mapS (\<lambda>a. eval_expr C n a) args) (\<lambda>vs.
          case rc of User k \<Rightarrow> call_fn C n k vs | Builtin b \<Rightarrow> builtin b vs)
      | EField a f \<Rightarrow> bindS (eval_expr C n a) (\<lambda>b. field_get b f)
      | EMethod a m args rm bnd \<Rightarrow> bindS (eval_expr C n a) (\<lambda>t.
          bindS (mapS (\<lambda>a. eval_expr C n a) args) (\<lambda>vs.
          case rm of User k \<Rightarrow> call_fn C n k (t # vs)
          | Builtin b \<Rightarrow> builtin_method C bnd b t vs))
      | EIndex a i bnd \<Rightarrow> bindS (eval_expr C n a) (\<lambda>l. bindS (eval_expr C n i) (\<lambda>k.
          index_get C bnd l k))
      | EList items \<Rightarrow> bindS (mapS (\<lambda>a. eval_expr C n a) items) (\<lambda>vs. alloc (HList vs))
      | EStruct sn fes \<Rightarrow>
          (case structs C sn of None \<Rightarrow> stuck ''struct''
           | Some d \<Rightarrow>
             bindS (mapS (\<lambda>fe. bindS (eval_expr C n (snd fe)) (\<lambda>v. ret (fst fe, v))) fes) (\<lambda>given.
             bindS (mapS (\<lambda>fd. bindS
                 (case map_of (rev given) (fst fd) of Some v \<Rightarrow> ret v
                  | None \<Rightarrow> (case snd (snd fd) of Some de \<Rightarrow> eval_expr C n de
                     | None \<Rightarrow> panic (''struct literal missing required field: '' @ fst fd)))
                 (\<lambda>v. bindS (case map_of (st_preds d) (fst fd) of
                        Some rf \<Rightarrow> check_refine C n rf v (''field '' @ quoted (sn @ ''.'' @ fst fd))
                      | None \<Rightarrow> ret ())
                    (\<lambda>_. ret (fst fd, v)))) (st_fields d)) (\<lambda>fs. alloc (HStruct fs))))
      | EEnum en var args \<Rightarrow> bindS (mapS (\<lambda>a. eval_expr C n a) args) (\<lambda>vs. ret (VEnum en var vs))
      | EMatch scrut arms \<Rightarrow> bindS (eval_expr C n scrut) (\<lambda>v.
          case v of
            VEnum en var vs \<Rightarrow>
              (case select_arm en var arms of
                 None \<Rightarrow> panic ''match: no arm matched (non-exhaustive?)''
               | Some (None, body) \<Rightarrow> eval_expr C n body
               | Some (Some bs, body) \<Rightarrow>
                   (case bind_payloads bs vs Map.empty of
                      None \<Rightarrow> panic binding_msg
                    | Some sc \<Rightarrow> scoped sc (eval_expr C n body)))
          | _ \<Rightarrow> panic ''match on non-enum value'')
      | EQmark a okv errv \<Rightarrow> bindS (eval_expr C n a) (\<lambda>v. ok_value v okv errv))"
| "check_refine C 0 rf v what = raise SFuel"
| "check_refine C (Suc n) rf v what =
     with_env [[''self'' \<mapsto> v]] (bindS (eval_expr C n (ref_ast rf)) (\<lambda>r. bindS getS (\<lambda>s.
       if truthy C s r then ret () else panic (refine_msg what (ref_text rf)))))"
| "exec_stmt C 0 st = raise SFuel"
| "exec_stmt C (Suc n) st =
     (case st of
        SLet x t e rp \<Rightarrow> bindS (eval_expr C n e) (\<lambda>v.
          bindS (case rp of Some rf \<Rightarrow> check_refine C n rf v (''variable '' @ quoted x) | None \<Rightarrow> ret ())
            (\<lambda>_. modS (\<lambda>s. s\<lparr>env := bind_var (env s) x v\<rparr>)))
      | SAssign lv e rp \<Rightarrow> bindS (eval_expr C n e) (\<lambda>v.
          bindS (case rp of Some (rf, what) \<Rightarrow> check_refine C n rf v what | None \<Rightarrow> ret ())
            (\<lambda>_. assign_to C n lv v))
      | SIf c th el \<Rightarrow> bindS (eval_expr C n c) (\<lambda>v. bindS getS (\<lambda>s.
          scoped Map.empty (iterS (\<lambda>x. exec_stmt C n x) (if truthy C s v then th else el))))
      | SWhile c body \<Rightarrow> exec_while C n c body
      | SFor x it body \<Rightarrow> bindS (eval_expr C n it) (\<lambda>l. bindS getS (\<lambda>s0.
          case deref s0 l of
            Some (HList xs0) \<Rightarrow> for_loop (length xs0) 0 (\<lambda>i. bindS getS (\<lambda>s.
              case deref s l of
                Some (HList xs) \<Rightarrow>
                  if length xs \<le> i then ret False
                  else on_result (scoped [x \<mapsto> xs ! i] (iterS (\<lambda>y. exec_stmt C n y) body))
                    (\<lambda>r. case r of Inr _ \<Rightarrow> ret True | Inl sig.SContinue \<Rightarrow> ret True
                      | Inl sig.SBreak \<Rightarrow> ret False | Inl sg \<Rightarrow> raise sg)
              | _ \<Rightarrow> stuck ''for''))
          | _ \<Rightarrow> stuck ''for''))
      | stmt.SReturn None \<Rightarrow> raise (sig.SReturn VNone)
      | stmt.SReturn (Some e) \<Rightarrow> bindS getS (\<lambda>s.
          case tail_target C s e of
            Some (k, args) \<Rightarrow> bindS (mapS (\<lambda>a. eval_expr C n a) args) (\<lambda>vs. raise (STail k vs))
          | None \<Rightarrow> bindS (eval_expr C n e) (\<lambda>v. raise (sig.SReturn v)))
      | stmt.SBreak \<Rightarrow> raise sig.SBreak
      | stmt.SContinue \<Rightarrow> raise sig.SContinue
      | SExpr e \<Rightarrow> bindS (eval_expr C n e) (\<lambda>_. ret ())
      | SAsm \<Rightarrow> panic asm_msg)"
| "exec_while C 0 c body = raise SFuel"
| "exec_while C (Suc n) c body =
     bindS (eval_expr C n c) (\<lambda>v. bindS getS (\<lambda>s.
       if truthy C s v
       then on_result (scoped Map.empty (iterS (\<lambda>x. exec_stmt C n x) body))
              (\<lambda>r. case r of Inr _ \<Rightarrow> exec_while C n c body
                | Inl sig.SContinue \<Rightarrow> exec_while C n c body
                | Inl sig.SBreak \<Rightarrow> ret () | Inl sg \<Rightarrow> raise sg)
       else ret ()))"
| "assign_to C 0 lv v = raise SFuel"
| "assign_to C (Suc n) lv v =
     (case lv of
        LIdent x t \<Rightarrow> bindS getS (\<lambda>s. case lookup (env s) x of
            Some _ \<Rightarrow> modS (\<lambda>s. s\<lparr>env := update_var (env s) x v\<rparr>)
          | None \<Rightarrow> panic (''variable does not exist: '' @ x))
      | LField b f \<Rightarrow> bindS (eval_expr C n b) (\<lambda>w. field_set w f v)
      | LIndex b i \<Rightarrow> bindS (eval_expr C n b) (\<lambda>l. bindS (eval_expr C n i) (\<lambda>k.
          index_set l k v)))"
| "call_fn C 0 key args = raise SFuel"
| "call_fn C (Suc n) key args =
     (case fns C key of
        None \<Rightarrow> stuck ''function''
      | Some f \<Rightarrow>
        if fn_extern f then stuck ''extern''
        else (case bind_params (fn_params f) args of
          None \<Rightarrow> stuck ''argument count''
        | Some sc \<Rightarrow>
          bindS (with_env [sc]
            (bindS (iterS (\<lambda>p. case map_of (fn_param_preds f) (fst p) of
                 Some rf \<Rightarrow> bindS getS (\<lambda>s.
                   check_refine C n rf (case lookup (env s) (fst p) of Some v \<Rightarrow> v | None \<Rightarrow> VNone)
                     (''parameter '' @ quoted (fst p) @ '' of '' @ quoted key))
               | None \<Rightarrow> ret ()) (if fn_method f then tl (fn_params f) else fn_params f)) (\<lambda>_.
             bindS (case fn_requires f of
                 Some q \<Rightarrow> if contracts C then bindS (eval_expr C n q) (\<lambda>v. bindS getS (\<lambda>s.
                     if truthy C s v then ret ()
                     else panic (contract_msg ''requires'' (fn_name f) ''precondition'')))
                   else ret ()
               | None \<Rightarrow> ret ()) (\<lambda>_.
             with_frame key (on_result (iterS (\<lambda>x. exec_stmt C n x) (fn_body f)) (\<lambda>r.
               let ensure = (\<lambda>v. case fn_ensures f of
                   Some q \<Rightarrow> if contracts C
                     then bindS (modS (\<lambda>s. s\<lparr>env := update_last (env s) v\<rparr>)) (\<lambda>_.
                       bindS (eval_expr C n q) (\<lambda>w. bindS getS (\<lambda>s.
                         if truthy C s w then ret ()
                         else panic (contract_msg ''ensures'' (fn_name f) ''postcondition''))))
                     else ret ()
                 | None \<Rightarrow> ret ())
               in case r of
                 Inl (STail k vs) \<Rightarrow> ret (CTail k vs)
               | Inl (sig.SReturn v) \<Rightarrow> bindS (ensure v) (\<lambda>_.
                   bindS (case fn_ret_pred f of
                       Some rf \<Rightarrow> check_refine C n rf v (''return value of '' @ quoted key)
                     | None \<Rightarrow> ret ()) (\<lambda>_. ret (CDone v)))
               | Inl sg \<Rightarrow> raise sg
               | Inr _ \<Rightarrow> bindS (ensure VNone) (\<lambda>_. ret (CDone VNone))))))))
          (\<lambda>cr. case cr of CDone v \<Rightarrow> ret v | CTail k vs \<Rightarrow> call_fn C n k vs)))"
  by pat_completeness auto

termination
  apply (relation "measure (case_sum
      (case_sum (\<lambda>(C, n, e). n) (case_sum (\<lambda>(C, n, rf, v, w). n) (\<lambda>(C, n, st). n)))
      (case_sum (\<lambda>(C, n, c, b). n) (case_sum (\<lambda>(C, n, lv, v). n) (\<lambda>(C, n, k, vs). n))))")
  apply (rule wf_measure)
  apply (simp_all only: in_measure sum.case prod.case lessI)
  done

declare eval_expr.simps(2) [simp del] exec_stmt.simps(2) [simp del] exec_while.simps(2) [simp del]
  assign_to.simps(2) [simp del] call_fn.simps(2) [simp del] check_refine.simps(2) [simp del]

definition exec_stmts :: "ctx \<Rightarrow> nat \<Rightarrow> stmt list \<Rightarrow> unit ev" where
  "exec_stmts C n ss = iterS (\<lambda>x. exec_stmt C n x) ss"

end
