(* ===== verification/InterpFacts.thy ===== *)
theory InterpFacts
  imports Interp
begin

text \<open>
  What every run of the evaluator respects: a larger nesting bound changes no outcome but \<open>SFuel\<close>,
  and evaluating an expression leaves the scopes as they were. Relations between the state before and
  the state after that a computation may establish are the locale \<open>state_rel\<close>, with the rules by
  which they compose; it is interpreted on the unchanged scopes and on the growth of the store.
\<close>

section \<open>More fuel\<close>

definition ev_le :: "'a ev \<Rightarrow> 'a ev \<Rightarrow> bool" where
  "ev_le m m' \<longleftrightarrow> (\<forall>s. fst (m s) \<noteq> Inl SFuel \<longrightarrow> m' s = m s)"

named_theorems le_rules \<open>ev_le of the combinators\<close>

lemma ev_le_refl: "ev_le m m"
  by (simp add: ev_le_def)

lemma ev_le_fuel: "ev_le (raise SFuel) m"
  by (simp add: ev_le_def raise_def)

lemma ev_le_trans: "ev_le a b \<Longrightarrow> ev_le b c \<Longrightarrow> ev_le a c"
  by (fastforce simp: ev_le_def)

lemma ev_le_bind [le_rules]:
  "ev_le m m' \<Longrightarrow> (\<And>v. ev_le (f v) (f' v)) \<Longrightarrow> ev_le (bindS m f) (bindS m' f')"
  unfolding ev_le_def bindS_def by (fastforce split: prod.splits sum.splits)

lemma ev_le_on_result [le_rules]:
  assumes "ev_le m m'" and "\<And>r. ev_le (f r) (f' r)"
    and "\<And>s. fst (f (Inl SFuel) s) = Inl SFuel"
  shows "ev_le (on_result m f) (on_result m' f')"
  unfolding ev_le_def on_result_def
proof (intro allI impI)
  fix s assume nf: "fst (case m s of (r, s') \<Rightarrow> f r s') \<noteq> Inl SFuel"
  obtain r s1 where m: "m s = (r, s1)" by (cases "m s")
  then have "r \<noteq> Inl SFuel" using nf assms(3) by auto
  then have "m' s = (r, s1)" using assms(1) m by (simp add: ev_le_def)
  then show "(case m' s of (r, s') \<Rightarrow> f' r s') = (case m s of (r, s') \<Rightarrow> f r s')"
    using nf m assms(2) by (simp add: ev_le_def)
qed

lemma ev_le_scoped [le_rules]: "ev_le m m' \<Longrightarrow> ev_le (scoped b m) (scoped b m')"
  unfolding ev_le_def scoped_def by (fastforce split: prod.splits)

lemma ev_le_with_env [le_rules]: "ev_le m m' \<Longrightarrow> ev_le (with_env E m) (with_env E m')"
  unfolding ev_le_def with_env_def by (fastforce split: prod.splits)

lemma ev_le_with_frame [le_rules]: "ev_le m m' \<Longrightarrow> ev_le (with_frame k m) (with_frame k m')"
  unfolding ev_le_def with_frame_def by (fastforce split: prod.splits)

lemma ev_le_mapS [le_rules]: "(\<And>x. ev_le (f x) (f' x)) \<Longrightarrow> ev_le (mapS f xs) (mapS f' xs)"
  by (induction xs) (auto intro: le_rules ev_le_refl)

lemma ev_le_iterS [le_rules]: "(\<And>x. ev_le (f x) (f' x)) \<Longrightarrow> ev_le (iterS f xs) (iterS f' xs)"
  by (induction xs) (auto intro: le_rules ev_le_refl)

lemma ev_le_for_loop [le_rules]:
  "(\<And>i. ev_le (f i) (f' i)) \<Longrightarrow> ev_le (for_loop k i f) (for_loop k i f')"
  by (induction k arbitrary: i) (auto intro!: le_rules ev_le_refl)

lemma ev_le_if [le_rules]:
  "ev_le a a' \<Longrightarrow> ev_le b b' \<Longrightarrow> ev_le (if c then a else b) (if c then a' else b')"
  by simp

lemma ev_le_cases [le_rules]:
  "\<And>a a' f f' x. ev_le a a' \<Longrightarrow> (\<And>v. ev_le (f v) (f' v)) \<Longrightarrow>
     ev_le (case x of None \<Rightarrow> a | Some v \<Rightarrow> f v) (case x of None \<Rightarrow> a' | Some v \<Rightarrow> f' v)"
  "\<And>f f' g g' x. (\<And>k. ev_le (f k) (f' k)) \<Longrightarrow> (\<And>b. ev_le (g b) (g' b)) \<Longrightarrow>
     ev_le (case x of User k \<Rightarrow> f k | Builtin b \<Rightarrow> g b) (case x of User k \<Rightarrow> f' k | Builtin b \<Rightarrow> g' b)"
  "\<And>f f' g g' x. (\<And>k. ev_le (f k) (f' k)) \<Longrightarrow> (\<And>k vs. ev_le (g k vs) (g' k vs)) \<Longrightarrow>
     ev_le (case x of CDone v \<Rightarrow> f v | CTail k vs \<Rightarrow> g k vs) (case x of CDone v \<Rightarrow> f' v | CTail k vs \<Rightarrow> g' k vs)"
  "\<And>f f' x. (\<And>a b. ev_le (f a b) (f' a b)) \<Longrightarrow>
     ev_le (case x of (a, b) \<Rightarrow> f a b) (case x of (a, b) \<Rightarrow> f' a b)"
  "\<And>f f' g g' x. (\<And>e. ev_le (f e) (f' e)) \<Longrightarrow> (\<And>v. ev_le (g v) (g' v)) \<Longrightarrow>
     ev_le (case x of Inl e \<Rightarrow> f e | Inr v \<Rightarrow> g v) (case x of Inl e \<Rightarrow> f' e | Inr v \<Rightarrow> g' v)"
  "\<And>a a' b b' d d' x. ev_le a a' \<Longrightarrow> ev_le b b' \<Longrightarrow> ev_le d d' \<Longrightarrow>
     ev_le (case x of OpOr \<Rightarrow> a | OpAnd \<Rightarrow> b | _ \<Rightarrow> d) (case x of OpOr \<Rightarrow> a' | OpAnd \<Rightarrow> b' | _ \<Rightarrow> d')"
  "\<And>f f' d d' x. (\<And>a b c. ev_le (f a b c) (f' a b c)) \<Longrightarrow> ev_le d d' \<Longrightarrow>
     ev_le (case x of VEnum a b c \<Rightarrow> f a b c | _ \<Rightarrow> d) (case x of VEnum a b c \<Rightarrow> f' a b c | _ \<Rightarrow> d')"
  "\<And>f f' d d' x. (\<And>a. ev_le (f a) (f' a)) \<Longrightarrow> ev_le d d' \<Longrightarrow>
     ev_le (case x of HList a \<Rightarrow> f a | _ \<Rightarrow> d) (case x of HList a \<Rightarrow> f' a | _ \<Rightarrow> d')"
  by (simp_all split: option.split callee.split call_result.split prod.split sum.split binop.split
      val.split hobj.split)

lemma ev_le_case_sig [le_rules]:
  assumes "\<And>v. ev_le (fr v) (fr' v)" "ev_le b b'" "ev_le c c'" "\<And>k vs. ev_le (t k vs) (t' k vs)"
    "\<And>p. ev_le (fp p) (fp' p)" "\<And>i. ev_le (x i) (x' i)" "\<And>m. ev_le (st m) (st' m)"
    "ev_le fu fu'" "ev_le us us'"
  shows "ev_le (case sg of SPanic p \<Rightarrow> fp p | SReturn v \<Rightarrow> fr v | SBreak \<Rightarrow> b | SContinue \<Rightarrow> c
      | STail k vs \<Rightarrow> t k vs | SExit i \<Rightarrow> x i | SStuck m \<Rightarrow> st m | SFuel \<Rightarrow> fu | SUnsafe \<Rightarrow> us)
     (case sg of SPanic p \<Rightarrow> fp' p | SReturn v \<Rightarrow> fr' v | SBreak \<Rightarrow> b' | SContinue \<Rightarrow> c'
      | STail k vs \<Rightarrow> t' k vs | SExit i \<Rightarrow> x' i | SStuck m \<Rightarrow> st' m | SFuel \<Rightarrow> fu' | SUnsafe \<Rightarrow> us')"
  using assms by (cases sg) simp_all

lemma fst_raise [simp]: "fst (raise e s) = Inl e"
  by (simp add: raise_def)

text \<open>One level of the evaluator: if the recursive calls at bound \<open>m\<close> extend those at \<open>n\<close>, so do the
  calls one level up.\<close>

lemma eval_le_Suc:
  assumes IH: "\<And>e. ev_le (eval_expr C n e) (eval_expr C m e)"
    "\<And>rf v what. ev_le (check_refine C n rf v what) (check_refine C m rf v what)"
    "\<And>st. ev_le (exec_stmt C n st) (exec_stmt C m st)"
    "\<And>c b. ev_le (exec_while C n c b) (exec_while C m c b)"
    "\<And>lv v. ev_le (assign_to C n lv v) (assign_to C m lv v)"
    "\<And>k vs. ev_le (call_fn C n k vs) (call_fn C m k vs)"
  shows "ev_le (eval_expr C (Suc n) e) (eval_expr C (Suc m) e)"
    and "ev_le (check_refine C (Suc n) rf v what) (check_refine C (Suc m) rf v what)"
    and "ev_le (exec_stmt C (Suc n) st) (exec_stmt C (Suc m) st)"
    and "ev_le (exec_while C (Suc n) c b) (exec_while C (Suc m) c b)"
    and "ev_le (assign_to C (Suc n) lv v) (assign_to C (Suc m) lv v)"
    and "ev_le (call_fn C (Suc n) k vs) (call_fn C (Suc m) k vs)"
proof -
  note rules = IH le_rules ev_le_refl
  show "ev_le (eval_expr C (Suc n) e) (eval_expr C (Suc m) e)"
    unfolding eval_expr.simps(2) by (cases e; simp only: expr.case; intro rules)
  show "ev_le (check_refine C (Suc n) rf v what) (check_refine C (Suc m) rf v what)"
    unfolding check_refine.simps(2) by (intro rules)
  show "ev_le (exec_stmt C (Suc n) st) (exec_stmt C (Suc m) st)"
  proof (cases st)
    case (SReturn eo)
    then show ?thesis unfolding exec_stmt.simps(2)
      by (cases eo; simp only: stmt.case option.case; intro rules)
  next
    case (SFor x it body)
    then show ?thesis unfolding exec_stmt.simps(2) by (simp only: stmt.case, intro rules, simp)
  qed (simp_all only: exec_stmt.simps(2) stmt.case, (intro rules)+)
  show "ev_le (exec_while C (Suc n) c b) (exec_while C (Suc m) c b)"
    unfolding exec_while.simps(2) by (intro rules, simp)
  show "ev_le (assign_to C (Suc n) lv v) (assign_to C (Suc m) lv v)"
    unfolding assign_to.simps(2) by (cases lv; simp only: lval.case; intro rules)
  show "ev_le (call_fn C (Suc n) k vs) (call_fn C (Suc m) k vs)"
    unfolding call_fn.simps(2) Let_def by (intro rules, simp)
qed

lemma eval_le_step:
  "(\<forall>e. ev_le (eval_expr C n e) (eval_expr C (Suc n) e)) \<and>
   (\<forall>rf v what. ev_le (check_refine C n rf v what) (check_refine C (Suc n) rf v what)) \<and>
   (\<forall>st. ev_le (exec_stmt C n st) (exec_stmt C (Suc n) st)) \<and>
   (\<forall>c b. ev_le (exec_while C n c b) (exec_while C (Suc n) c b)) \<and>
   (\<forall>lv v. ev_le (assign_to C n lv v) (assign_to C (Suc n) lv v)) \<and>
   (\<forall>k vs. ev_le (call_fn C n k vs) (call_fn C (Suc n) k vs))"
proof (induction n)
  case 0
  show ?case by (simp add: ev_le_fuel)
next
  case (Suc n)
  then show ?case by (intro conjI allI; intro eval_le_Suc; blast)
qed

lemma le_mono: "(\<And>k. ev_le (f k) (f (Suc k))) \<Longrightarrow> n \<le> m \<Longrightarrow> ev_le (f n) (f m)"
  by (induction m) (auto simp: le_Suc_eq intro: ev_le_refl ev_le_trans)

lemmas eval_le_steps =
  eval_le_step [THEN conjunct1, rule_format]
  eval_le_step [THEN conjunct2, THEN conjunct2, THEN conjunct1, rule_format]
  eval_le_step [THEN conjunct2, THEN conjunct2, THEN conjunct2, THEN conjunct2, THEN conjunct2, rule_format]

lemma eval_mono: "n \<le> m \<Longrightarrow> ev_le (eval_expr C n e) (eval_expr C m e)"
  by (rule le_mono [of "\<lambda>k. eval_expr C k e", OF eval_le_steps(1)])

lemma exec_mono: "n \<le> m \<Longrightarrow> ev_le (exec_stmt C n st) (exec_stmt C m st)"
  by (rule le_mono [of "\<lambda>k. exec_stmt C k st", OF eval_le_steps(2)])

lemma exec_stmts_mono: "n \<le> m \<Longrightarrow> ev_le (exec_stmts C n ss) (exec_stmts C m ss)"
  unfolding exec_stmts_def by (intro ev_le_iterS exec_mono)

lemma call_mono: "n \<le> m \<Longrightarrow> ev_le (call_fn C n k vs) (call_fn C m k vs)"
  by (rule le_mono [of "\<lambda>j. call_fn C j k vs", OF eval_le_steps(3)])

section \<open>State relations\<close>

text \<open>The length of an object when it is a list.\<close>

fun list_size :: "hobj \<Rightarrow> nat option" where
  "list_size (HList xs) = Some (length xs)"
| "list_size _ = None"

text \<open>A relation from the state before to the state after, kept by every part of a computation.\<close>

locale state_rel =
  fixes R :: "ist \<Rightarrow> ist \<Rightarrow> bool"
  assumes R_refl: "R s s" and R_trans: "R s t \<Longrightarrow> R t u \<Longrightarrow> R s u"
begin

definition pres :: "'a ev \<Rightarrow> bool" where
  "pres m \<longleftrightarrow> (\<forall>s. R s (snd (m s)))"

lemma presD: "pres m \<Longrightarrow> m s = (r, s') \<Longrightarrow> R s s'"
  by (metis pres_def snd_conv)

lemma pres_ret: "pres (ret v)" and pres_raise: "pres (raise e)" and pres_get: "pres getS"
  by (simp_all add: pres_def ret_def raise_def getS_def R_refl)

lemma pres_bind:
  assumes "pres m" and "\<And>v. pres (f v)" shows "pres (bindS m f)"
  unfolding pres_def
proof
  fix s
  obtain r s1 where m: "m s = (r, s1)" by (cases "m s")
  then have "R s s1" using assms(1) presD by blast
  then show "R s (snd (bindS m f s))"
    using assms(2) m by (cases r) (auto simp: bindS_def pres_def intro: R_trans)
qed

lemma pres_on_result:
  assumes "pres m" and "\<And>r. pres (f r)" shows "pres (on_result m f)"
  unfolding pres_def
proof
  fix s
  obtain r s1 where m: "m s = (r, s1)" by (cases "m s")
  then have "R s s1" using assms(1) presD by blast
  then show "R s (snd (on_result m f s))"
    using assms(2) m by (auto simp: on_result_def pres_def intro: R_trans)
qed

lemma pres_mapS: "(\<And>x. x \<in> set xs \<Longrightarrow> pres (f x)) \<Longrightarrow> pres (mapS f xs)"
  by (induction xs) (auto intro!: pres_bind pres_ret)

lemma pres_iterS: "(\<And>x. x \<in> set xs \<Longrightarrow> pres (f x)) \<Longrightarrow> pres (iterS f xs)"
  by (induction xs) (auto intro!: pres_bind pres_ret)

lemma pres_for_loop: "(\<And>i. pres (f i)) \<Longrightarrow> pres (for_loop k i f)"
  by (induction k arbitrary: i) (auto intro!: pres_bind pres_ret)

lemma pres_if: "(c \<Longrightarrow> pres a) \<Longrightarrow> (\<not> c \<Longrightarrow> pres b) \<Longrightarrow> pres (if c then a else b)"
  by simp

lemma pres_option: "(x = None \<Longrightarrow> pres a) \<Longrightarrow> (\<And>v. x = Some v \<Longrightarrow> pres (f v)) \<Longrightarrow>
    pres (case x of None \<Rightarrow> a | Some v \<Rightarrow> f v)"
  by (cases x) auto

lemma pres_sum: "(\<And>e. x = Inl e \<Longrightarrow> pres (f e)) \<Longrightarrow> (\<And>v. x = Inr v \<Longrightarrow> pres (g v)) \<Longrightarrow>
    pres (case x of Inl e \<Rightarrow> f e | Inr v \<Rightarrow> g v)"
  by (cases x) auto

lemma pres_val:
  "(\<And>n. x = VInt n \<Longrightarrow> pres (fi n)) \<Longrightarrow> (\<And>b. x = VBool b \<Longrightarrow> pres (fb b)) \<Longrightarrow>
   (\<And>t. x = VStr t \<Longrightarrow> pres (fs t)) \<Longrightarrow> (\<And>f. x = VFloat f \<Longrightarrow> pres (ff f)) \<Longrightarrow>
   (x = VNone \<Longrightarrow> pres fn) \<Longrightarrow> (\<And>a. x = VRef a \<Longrightarrow> pres (fr a)) \<Longrightarrow>
   (\<And>e v vs. x = VEnum e v vs \<Longrightarrow> pres (fe e v vs)) \<Longrightarrow>
   pres (case x of VInt n \<Rightarrow> fi n | VBool b \<Rightarrow> fb b | VStr t \<Rightarrow> fs t | VFloat f \<Rightarrow> ff f
     | VNone \<Rightarrow> fn | VRef a \<Rightarrow> fr a | VEnum e v vs \<Rightarrow> fe e v vs)"
  by (cases x) auto

lemma pres_hobj:
  "(\<And>a. x = HList a \<Longrightarrow> pres (f a)) \<Longrightarrow> (\<And>a. x = HStruct a \<Longrightarrow> pres (g a)) \<Longrightarrow>
   (\<And>a. x = HMap a \<Longrightarrow> pres (h a)) \<Longrightarrow>
   pres (case x of HList a \<Rightarrow> f a | HStruct a \<Rightarrow> g a | HMap a \<Rightarrow> h a)"
  by (cases x) auto

lemma pres_list: "(x = [] \<Longrightarrow> pres a) \<Longrightarrow> (\<And>v vs. x = v # vs \<Longrightarrow> pres (f v vs)) \<Longrightarrow>
    pres (case x of [] \<Rightarrow> a | v # vs \<Rightarrow> f v vs)"
  by (cases x) auto

lemma pres_prod: "(\<And>a b. x = (a, b) \<Longrightarrow> pres (f a b)) \<Longrightarrow> pres (case x of (a, b) \<Rightarrow> f a b)"
  by (cases x) auto

lemma pres_binop:
  "pres a \<Longrightarrow> pres b \<Longrightarrow> pres d \<Longrightarrow>
   pres (case x of OpOr \<Rightarrow> a | OpAnd \<Rightarrow> b | _ \<Rightarrow> d)"
  by (cases x) auto

lemma pres_callee:
  "(\<And>k. x = User k \<Longrightarrow> pres (f k)) \<Longrightarrow> (\<And>b. x = Builtin b \<Longrightarrow> pres (g b)) \<Longrightarrow>
   pres (case x of User k \<Rightarrow> f k | Builtin b \<Rightarrow> g b)"
  by (cases x) auto

lemmas pres_rules = pres_ret pres_raise pres_get pres_bind pres_on_result pres_mapS pres_iterS
  pres_for_loop pres_if pres_option pres_sum pres_val pres_hobj pres_list pres_prod pres_callee

lemma pres_check: "pres (check C fl ok m)"
  unfolding check_def by (intro pres_rules)

lemma pres_checked: "pres (checked C fl r)"
  unfolding checked_def by (intro pres_rules)

lemma pres_ret_bool: "pres (ret_bool r)"
  unfolding ret_bool_def by (intro pres_rules)

lemma pres_arith: "pres (arith C op ov dv a b)"
  unfolding arith_def by (cases op) (simp_all add: pres_checked pres_raise)

lemma pres_float_arith: "pres (float_arith C op a b)"
  unfolding float_arith_def by (cases op) (simp_all add: pres_ret pres_raise)

lemma pres_strict_bin: "pres (strict_bin C op ov dv a b)"
  unfolding strict_bin_def
  by (cases op; simp only: binop.case; intro pres_rules pres_ret_bool pres_arith pres_float_arith)

lemma pres_eval_un: "pres (eval_un C op v)"
  unfolding eval_un_def by (cases op; simp only: unop.case; intro pres_rules)

lemma pres_index_get: "pres (index_get C b l i)"
  unfolding index_get_def by (intro pres_rules pres_check)

lemma pres_field_get: "pres (field_get b f)"
  unfolding field_get_def by (intro pres_rules)

lemma pres_ok_value: "pres (ok_value v a b)"
  by (cases "(v, a, b)" rule: ok_value.cases) (auto intro!: pres_rules)

lemmas pres_ops = pres_check pres_checked pres_ret_bool pres_strict_bin pres_eval_un
  pres_index_get pres_field_get pres_ok_value

end

text \<open>Cloning leaves the objects that were there as they are.\<close>

definition heap_ext :: "hobj list \<Rightarrow> hobj list \<Rightarrow> bool" where
  "heap_ext hp hp' \<longleftrightarrow> length hp \<le> length hp' \<and> (\<forall>a < length hp. hp' ! a = hp ! a)"

lemma heap_ext_refl: "heap_ext h h"
  by (simp add: heap_ext_def)

lemma heap_ext_trans: "heap_ext a b \<Longrightarrow> heap_ext b c \<Longrightarrow> heap_ext a c"
  by (auto simp: heap_ext_def)

lemma heap_ext_new: "heap_ext (hp @ [ob]) hp' \<Longrightarrow> heap_ext hp (hp'[length hp := ob'])"
  by (auto simp: heap_ext_def nth_append)

lemma heap_ext_append: "heap_ext h (h @ [ob])"
  by (simp add: heap_ext_def nth_append)

lemma clone_ext:
  "(clone_val n v (seen, hp) = Some (c, (seen', hp')) \<longrightarrow> heap_ext hp hp') \<and>
   (clone_list n vs (seen, hp) = Some (cs, (seen', hp')) \<longrightarrow> heap_ext hp hp')"
proof (induction n arbitrary: v vs seen hp c cs seen' hp')
  case 0
  show ?case by (cases vs) (auto simp: heap_ext_refl)
next
  case (Suc n)
  have val: "heap_ext hp hp'" if "clone_val n v (seen, hp) = Some (c, (seen', hp'))"
    for v seen hp c seen' hp' using Suc that by blast
  have list: "heap_ext hp hp'" if "clone_list n vs (seen, hp) = Some (cs, (seen', hp'))"
    for vs seen hp cs seen' hp' using Suc that by blast
  have "heap_ext hp hp'" if "clone_val (Suc n) v (seen, hp) = Some (c, (seen', hp'))"
    using that
    by (auto simp: Let_def heap_ext_refl split: val.splits option.splits hobj.splits if_splits
        dest!: list intro!: heap_ext_new)
  moreover have "heap_ext hp hp'" if "clone_list (Suc n) vs (seen, hp) = Some (cs, (seen', hp'))"
    using that
    by (cases vs) (auto simp: heap_ext_refl split: option.splits dest!: list val intro: heap_ext_trans)
  ultimately show ?case by blast
qed

declare clone_val.simps [simp del] clone_list.simps [simp del]

locale io_rel = state_rel +
  assumes R_io: "R s (s\<lparr>out := ob\<rparr>)" "R s (s\<lparr>errout := ob\<rparr>)" "R s (s\<lparr>rng := r\<rparr>)"
    and R_ext: "heap_ext (heap s) hp \<Longrightarrow> R s (s\<lparr>heap := hp\<rparr>)"
    and R_store: "a < length (heap s) \<Longrightarrow> list_size (heap s ! a) = list_size obj \<Longrightarrow>
      R s (s\<lparr>heap := (heap s)[a := obj]\<rparr>)"
begin

lemma pres_io:
  "pres (modS (\<lambda>s. s\<lparr>out := out s @ t\<rparr>))" "pres (modS (\<lambda>s. s\<lparr>errout := errout s @ t\<rparr>))"
  "pres (modS (\<lambda>s. s\<lparr>rng := rng_seed n\<rparr>))" "pres (alloc obj)" "pres (rand_int n)" "pres (deep_clone v)"
proof -
  show "pres (deep_clone v)"
    by (auto simp: pres_def deep_clone_def R_refl split: option.splits
        dest!: clone_ext [THEN conjunct1, rule_format] intro!: R_ext)
  show "pres (rand_int n)"
    by (auto simp: pres_def rand_int_def raise_def R_refl R_io split: prod.splits)
qed (auto simp: pres_def modS_def alloc_def R_io R_ext heap_ext_append)

lemma pres_lift_parse: "pres (lift_parse r)"
  unfolding lift_parse_def by (intro pres_rules)

lemma pres_builtin1: "pres (builtin1 f v)"
  unfolding builtin1_def by (intro pres_rules pres_io pres_lift_parse)

lemma pres_py_range: "pres (py_range a b)"
  unfolding py_range_def Let_def by (intro pres_rules pres_io)

lemma pres_builtin2: "pres (builtin2 f v w)"
  unfolding builtin2_def by (intro pres_rules pres_io pres_py_range)

lemma pres_builtin: "pres (builtin f args)"
  unfolding builtin_def size_of_def builtin_str_def
  by (intro pres_rules pres_io pres_builtin1 pres_builtin2)

lemma pres_str_method: "pres (str_method C b op t args)"
  unfolding str_method_def by (intro pres_rules pres_io pres_lift_parse pres_check)

lemma pres_store:
  assumes "deref s l = Some old" and "list_size old = list_size obj"
  shows "R s (snd (store l obj s))"
  using assms by (auto simp: deref_def store_def modS_def R_store split: val.splits if_splits)

lemma pres_list_method:
  assumes "deref s l = Some (HList xs)" and "op \<noteq> ''list.push''" and "op \<noteq> ''list.pop''"
  shows "R s (snd (list_method op l xs args s))"
  using assms pres_store [OF assms(1)]
  by (auto simp: list_method_def ret_def raise_def bindS_def R_refl split: list.splits val.splits prod.splits sum.splits)
     (metis length_list_update list_size.simps(1) snd_conv)+

end

text \<open>The scopes are unchanged.\<close>

definition keep_env :: "ist \<Rightarrow> ist \<Rightarrow> bool" where
  "keep_env s s' \<longleftrightarrow> env s' = env s"

text \<open>The store only grows, and its lists keep their lengths.\<close>

definition heap_le :: "ist \<Rightarrow> ist \<Rightarrow> bool" where
  "heap_le s s' \<longleftrightarrow> length (heap s) \<le> length (heap s') \<and>
     (\<forall>a. a < length (heap s) \<longrightarrow> list_size (heap s' ! a) = list_size (heap s ! a))"

interpretation ke: io_rel keep_env
  by unfold_locales (auto simp: keep_env_def)

interpretation hl: io_rel heap_le
  by unfold_locales (auto simp: heap_le_def heap_ext_def nth_list_update)

lemma ke_store: "ke.pres (store l obj)"
  by (cases l) (auto simp: ke.pres_def store_def modS_def raise_def keep_env_def)

lemma ke_builtin_method: "ke.pres (builtin_method C b op t args)"
  unfolding builtin_method_def list_method_def map_method_def int_method_def builtin_str_def
  by (intro ke.pres_rules ke.pres_str_method ke_store ke.pres_io ke.pres_lift_parse)

lemma ke_with_env: "ke.pres (with_env E m)"
  by (auto simp: ke.pres_def with_env_def keep_env_def split: prod.splits)

lemma ke_scoped:
  assumes "ke.pres m" shows "ke.pres (scoped sc m)"
  unfolding ke.pres_def
proof
  fix s
  obtain r s1 where m: "m (s\<lparr>env := sc # env s\<rparr>) = (r, s1)" by (cases "m (s\<lparr>env := sc # env s\<rparr>)")
  then have "env s1 = sc # env s" using ke.presD [OF assms m] by (simp add: keep_env_def)
  then show "keep_env s (snd (scoped sc m s))" by (simp add: scoped_def keep_env_def m)
qed

lemma ke_level:
  assumes IH: "\<And>e. ke.pres (eval_expr C n e)" "\<And>rf v what. ke.pres (check_refine C n rf v what)"
    "\<And>k vs. ke.pres (call_fn C n k vs)"
  shows "ke.pres (eval_expr C (Suc n) e)" and "ke.pres (check_refine C (Suc n) rf v what)"
    and "ke.pres (call_fn C (Suc n) k vs)"
proof -
  note rules = IH ke.pres_binop ke.pres_rules ke.pres_ops ke.pres_io ke.pres_builtin
    ke_builtin_method ke_with_env ke_scoped
  show "ke.pres (eval_expr C (Suc n) e)"
    unfolding eval_expr.simps(2) by (cases e; simp only: expr.case; intro rules)
  show "ke.pres (check_refine C (Suc n) rf v what)"
    unfolding check_refine.simps(2) by (intro rules)
  show "ke.pres (call_fn C (Suc n) k vs)"
    unfolding call_fn.simps(2) by (intro rules) (auto split: call_result.split intro: rules)
qed

lemma ke_all:
  "(\<forall>e. ke.pres (eval_expr C n e)) \<and> (\<forall>rf v what. ke.pres (check_refine C n rf v what)) \<and>
   (\<forall>k vs. ke.pres (call_fn C n k vs))"
proof (induction n)
  case 0
  show ?case by (simp add: ke.pres_raise)
next
  case (Suc n)
  then show ?case by (intro conjI allI; intro ke_level; blast)
qed

text \<open>Evaluating an expression leaves the scopes as they were.\<close>

lemma eval_keeps_env: "eval_expr C n e s = (r, s') \<Longrightarrow> env s' = env s"
  using ke_all [of C n] ke.presD [of "eval_expr C n e" s r s'] by (simp add: keep_env_def)

lemma refine_keeps_env: "check_refine C n rf v what s = (r, s') \<Longrightarrow> env s' = env s"
  using ke_all [of C n] ke.presD [of "check_refine C n rf v what" s r s'] by (simp add: keep_env_def)

end
