(* ===== verification/ProofSound.thy ===== *)
theory ProofSound
  imports ProofEngine InterpFacts
begin

text \<open>
  Soundness of the proof engine with respect to the interpreter: what the facts say of a state
  (\<open>facts_ok\<close>), the intervals of expressions contain their values, seeding from a \<open>requires\<close> that
  holds gives facts that hold, and the verdicts \<open>annot\<close> writes are sound: evaluating the annotated
  expression with its checks elided is evaluating the expression with all its checks.
\<close>

section \<open>What the facts say\<close>

text \<open>\<open>len_at_least s w j\<close>: whatever string or list \<open>w\<close> is bound to has length \<open>j\<close> or more.\<close>

definition len_at_least :: "ist \<Rightarrow> name \<Rightarrow> int \<Rightarrow> bool" where
  "len_at_least s w j =
     (case lookup (env s) w of
        Some (VStr t) \<Rightarrow> j \<le> int (length t)
      | Some (VRef a) \<Rightarrow> a < length (heap s) \<and>
          (case list_size (heap s ! a) of Some k \<Rightarrow> j \<le> int k | None \<Rightarrow> True)
      | _ \<Rightarrow> True)"

definition facts_ok :: "facts \<Rightarrow> ist \<Rightarrow> bool" where
  "facts_ok F s \<longleftrightarrow>
     (\<forall>x n. lookup (env s) x = Some (VInt n) \<longrightarrow>
        iv_has (len_at_least s) (iv_of F x) n \<and> (x \<in> set (nzs F) \<longrightarrow> n \<noteq> 0)) \<and>
     (\<forall>w m. map_of (minlens F) w = Some m \<longrightarrow> len_at_least s w m)"

lemma len_stable:
  "env s' = env s \<Longrightarrow> heap_le s s' \<Longrightarrow> len_at_least s w j \<Longrightarrow> len_at_least s' w j"
  by (auto simp: len_at_least_def heap_le_def split: option.splits val.splits)

lemma iv_has_mono:
  "(\<And>w j. L w j \<Longrightarrow> L' w j) \<Longrightarrow> iv_has L iv n \<Longrightarrow> iv_has L' iv n"
  by (auto simp: iv_has_def hi_ok_def split: bound.splits)

lemma facts_stable:
  assumes "facts_ok F s" and "env s' = env s" and "heap_le s s'"
  shows "facts_ok F s'"
  using assms len_stable [OF assms(2,3)] iv_has_mono [of "len_at_least s" "len_at_least s'"]
  by (simp add: facts_ok_def)

lemma facts_var:
  "facts_ok F s \<Longrightarrow> lookup (env s) x = Some (VInt n) \<Longrightarrow> iv_has (len_at_least s) (iv_of F x) n"
  by (simp add: facts_ok_def)

section \<open>Evaluation, one node at a time\<close>

lemma bindS_Inr:
  "bindS m f s = (Inr v, s') \<longleftrightarrow> (\<exists>a s1. m s = (Inr a, s1) \<and> f a s1 = (Inr v, s'))"
  by (auto simp: bindS_def split: prod.splits sum.splits)

lemma eval_zero: "eval_expr C 0 e s = (Inl SFuel, s)"
  by (simp add: raise_def)

lemma eval_not_zero: "eval_expr C n e s = (Inr v, s') \<Longrightarrow> \<exists>m. n = Suc m"
  by (cases n) (simp_all add: raise_def)

lemma eval_ident_Inr:
  "eval_expr C n (EIdent x t) s = (Inr v, s') \<Longrightarrow> s' = s \<and> lookup (env s) x = Some v"
  by (cases n) (auto simp: raise_def eval_expr.simps(2) bindS_def getS_def ret_def split: option.splits)

lemma eval_int_Inr: "eval_expr C n (EInt i) s = (Inr v, s') \<Longrightarrow> s' = s \<and> v = VInt i"
  by (cases n) (auto simp: raise_def eval_expr.simps(2) ret_def)

lemma checked_Inr: "checked C fl r s = (Inr v, s') \<Longrightarrow> \<exists>n. r = Inr n \<and> v = VInt n \<and> s' = s"
  by (auto simp: checked_def raise_def ret_def split: sum.splits if_splits)

definition arith_result :: "binop \<Rightarrow> int \<Rightarrow> int \<Rightarrow> Int64.panic + int" where
  "arith_result op a b =
     (case op of OpAdd \<Rightarrow> i64_add a b | OpSub \<Rightarrow> i64_sub a b | OpMul \<Rightarrow> i64_mul a b
      | OpDiv \<Rightarrow> i64_div a b | OpMod \<Rightarrow> i64_mod a b | _ \<Rightarrow> Inl overflow)"

definition arith_op :: "binop \<Rightarrow> bool" where
  "arith_op op \<longleftrightarrow> op = OpAdd \<or> op = OpSub \<or> op = OpMul \<or> op = OpDiv \<or> op = OpMod"

text \<open>An arithmetic node that yields an integer had integer operands.\<close>

lemma strict_int:
  assumes "strict_bin C op ov dv a b s = (Inr (VInt k), s')" and "arith_op op"
  shows "\<exists>m n. a = VInt m \<and> b = VInt n \<and> arith_result op m n = Inr k \<and> s' = s"
  using assms
  by (cases op; cases a; cases b;
      auto simp: strict_bin_def arith_op_def arith_def arith_result_def float_arith_def raise_def ret_def
        dest!: checked_Inr)

lemma eval_bin_Inr:
  assumes "eval_expr C n (EBin op l r t ov dv) s = (Inr v, s')" and "op \<noteq> OpOr" and "op \<noteq> OpAnd"
  shows "\<exists>m a b s1 s2. n = Suc m \<and> eval_expr C m l s = (Inr a, s1) \<and>
           eval_expr C m r s1 = (Inr b, s2) \<and> strict_bin C op ov dv a b s2 = (Inr v, s')"
proof -
  obtain m where n: "n = Suc m" using assms(1) eval_not_zero by blast
  have "eval_expr C n (EBin op l r t ov dv) =
      bindS (eval_expr C m l) (\<lambda>a. bindS (eval_expr C m r) (\<lambda>b. strict_bin C op ov dv a b))"
    using assms(2,3) by (cases op) (simp_all add: n eval_expr.simps(2))
  then show ?thesis using assms(1) n by (auto simp: bindS_Inr)
qed

section \<open>Intervals contain values\<close>

lemma interval_sound:
  assumes "facts_ok F s" and "eval_expr C n e s = (Inr (VInt k), s')"
  shows "iv_has (len_at_least s) (expr_interval F e) k \<and> (expr_interval F e \<noteq> TOP \<longrightarrow> s' = s)"
  using assms(2)
proof (induction e arbitrary: n k s')
  case (EInt i)
  then show ?case using eval_int_Inr by fastforce
next
  case (EIdent x t)
  then show ?case using eval_ident_Inr [of C n x t s] facts_var [OF assms(1)] by auto
next
  case (EUn op e)
  show ?case
  proof (cases "op = OpNeg")
    case True
    obtain m where n: "n = Suc m" using EUn.prems eval_not_zero by blast
    then obtain v s1 where e: "eval_expr C m e s = (Inr v, s1)" "eval_un C OpNeg v s1 = (Inr (VInt k), s')"
      using EUn.prems True by (auto simp: eval_expr.simps(2) bindS_Inr)
    then obtain j where v: "v = VInt j" "k = - j" "s' = s1"
      by (auto simp: eval_un_def raise_def ret_def i64_neg_def split: val.splits sum.splits if_splits)
    then show ?thesis using EUn.IH [of m j s1] e True by (auto simp: neg_sound iv_simps)
  qed simp
next
  case (EBin op l r t ov dv)
  show ?case
  proof (cases "op = OpAdd \<or> op = OpSub \<or> op = OpMul")
    case True
    then obtain m a b s1 s2 where n: "n = Suc m" and l: "eval_expr C m l s = (Inr a, s1)"
      and r: "eval_expr C m r s1 = (Inr b, s2)" and o: "strict_bin C op ov dv a b s2 = (Inr (VInt k), s')"
      using eval_bin_Inr [OF EBin.prems] by auto
    have "arith_op op" using True by (auto simp: arith_op_def)
    from strict_int [OF o this] obtain i j where ij: "a = VInt i" "b = VInt j" "s' = s2"
      "arith_result op i j = Inr k" by auto
    have L: "iv_has (len_at_least s) (expr_interval F l) i" "expr_interval F l \<noteq> TOP \<Longrightarrow> s1 = s"
      using EBin.IH(1) l ij by auto
    show ?thesis
    proof (cases "expr_interval F l = TOP")
      case True
      then show ?thesis using \<open>op = OpAdd \<or> op = OpSub \<or> op = OpMul\<close> by (auto simp: iv_simps)
    next
      case False
      then have "s1 = s" using L by blast
      then have R: "iv_has (len_at_least s) (expr_interval F r) j" "expr_interval F r \<noteq> TOP \<Longrightarrow> s2 = s"
        using EBin.IH(2) r ij by auto
      then show ?thesis using L(1) ij True
        by (cases "expr_interval F r = TOP") (auto simp: arith_result_def i64_simps add_sound sub_sound mul_sound iv_simps)
    qed
  next
    case False
    then show ?thesis by (cases op) (auto simp: Let_def)
  qed
qed simp_all

section \<open>Verdicts\<close>

lemma overflow_verdict:
  assumes "bin_overflow_ok F op l r" and "iv_has L1 (expr_interval F l) i"
    and "iv_has L2 (expr_interval F r) j"
  shows "\<exists>k. arith_result op i j = Inr k"
  using assms
  by (cases op)
     (auto simp: bin_overflow_ok_def Let_def add_fits_def sub_fits_def mul_fits_def arith_result_def
        i64_simps dest!: fits_in64 [OF _ add_sound [of L1 _ i L2 _ j L1]]
          fits_in64 [OF _ sub_sound [of L1 _ i L2 _ j L1]] fits_in64 [OF _ mul_sound [of L1 _ i L2 _ j L1]])

lemma div_verdict:
  assumes "div_ok F l r" and "op = OpDiv \<or> op = OpMod"
    and "iv_has L1 (expr_interval F l) i" and "iv_has L2 (expr_interval F r) j"
    and "\<And>x t. r = EIdent x t \<Longrightarrow> x \<in> set (nzs F) \<Longrightarrow> j \<noteq> 0"
    and "\<not> is_len (iv_hi (expr_interval F r))"
  shows "\<exists>k. arith_result op i j = Inr k"
proof -
  have j: "j \<noteq> 0"
    using assms(1,4,5) excludes_zero_sound [of "expr_interval F r" L2 j]
    by (auto simp: div_ok_def Let_def split: option.splits)
  have "\<not> (i = INT64_MIN \<and> j = -1)"
    using assms(1,3,4,6) by (auto simp: div_ok_def Let_def iv_has_defs is_len_def split: bound.splits)
  then show ?thesis
    using j assms(2) i64_div_sgn i64_mod_sgn by (auto simp: arith_result_def)
qed

lemma index_verdict:
  assumes ok: "index_ok F tgt idx" and F: "facts_ok F s"
    and t: "eval_expr C n tgt s = (Inr v, s1)" and i: "eval_expr C m idx s1 = (Inr (VInt k), s2)"
  shows "s1 = s \<and> s2 = s \<and> 0 \<le> k \<and> (\<exists>w. lookup (env s) w = Some v \<and> len_at_least s w (k + 1))"
proof -
  obtain w ty where w: "tgt = EIdent w ty"
    using ok by (auto simp: index_ok_def split: option.splits)
  then have v: "s1 = s" "lookup (env s) w = Some v" using eval_ident_Inr t by auto
  let ?iv = "expr_interval F idx"
  have nn: "nonneg_lo ?iv" using ok w by (simp add: index_ok_def Let_def)
  then have "?iv \<noteq> TOP" by (auto simp: nonneg_lo_def TOP_def)
  then have iv: "iv_has (len_at_least s) ?iv k" "s2 = s"
    using interval_sound [OF F] i v(1) by auto
  have "0 \<le> k" using nn iv(1) by (auto simp: nonneg_lo_def iv_has_defs split: bound.splits)
  moreover have "len_at_least s w (k + 1)"
  proof (cases "iv_hi ?iv")
    case (Len u d)
    then show ?thesis using ok w iv(1) by (auto simp: index_ok_def Let_def iv_has_defs)
  next
    case (Num h)
    then obtain b where b: "map_of (minlens F) w = Some b" "h < b"
      using ok w by (auto simp: index_ok_def Let_def below_minlen_def split: option.splits)
    then have "len_at_least s w b" using F by (simp add: facts_ok_def)
    moreover have "k \<le> h" using iv(1) Num by (simp add: iv_has_defs)
    ultimately show ?thesis
      using b(2) by (auto simp: len_at_least_def split: option.splits val.splits)
  next
    case Unknown
    then show ?thesis using ok w by (simp add: index_ok_def Let_def)
  qed
  ultimately show ?thesis using v iv(2) by blast
qed

lemma slice_verdict:
  assumes ok: "slice_ok F tgt [a, b]" and F: "facts_ok F s"
    and t: "eval_expr C n tgt s = (Inr (VStr u), s1)"
    and a: "eval_expr C m a s1 = (Inr (VInt i), s2)" and b: "eval_expr C m b s2 = (Inr (VInt j), s3)"
  shows "0 \<le> i \<and> i \<le> j \<and> j \<le> int (length u)"
proof -
  obtain w ty where w: "tgt = EIdent w ty"
    using ok by (auto simp: slice_ok_def split: option.splits)
  then have u: "s1 = s" "lookup (env s) w = Some (VStr u)" using eval_ident_Inr t by auto
  let ?ai = "expr_interval F a" and ?bi = "expr_interval F b"
  have nn: "nonneg_lo ?ai" using ok w by (simp add: slice_ok_def Let_def)
  then have "?ai \<noteq> TOP" by (auto simp: nonneg_lo_def TOP_def)
  then have ai: "iv_has (len_at_least s) ?ai i" "s2 = s" using interval_sound [OF F] a u(1) by auto
  then have bi: "iv_has (len_at_least s) ?bi j" using interval_sound [OF F] b by auto
  have len: "len_at_least s w j' \<Longrightarrow> j' \<le> int (length u)" for j'
    using u(2) by (simp add: len_at_least_def)
  have "0 \<le> i" using nn ai(1) by (auto simp: nonneg_lo_def iv_has_defs split: bound.splits)
  moreover have "i \<le> j"
    using ok w ai(1) bi by (auto simp: slice_ok_def Let_def iv_has_defs split: bound.splits)
  moreover have "j \<le> int (length u)"
  proof (cases "iv_hi ?bi")
    case (Len v d)
    then show ?thesis using ok w bi len [of "j - d"]
      by (auto simp: slice_ok_def Let_def iv_has_defs)
  next
    case (Num h)
    then obtain k where k: "map_of (minlens F) w = Some k" "h < k"
      using ok w by (auto simp: slice_ok_def Let_def below_minlen_def split: option.splits)
    then have "k \<le> int (length u)" using F len by (simp add: facts_ok_def)
    then show ?thesis using bi Num k(2) by (simp add: iv_has_defs)
  next
    case Unknown
    then show ?thesis using ok w by (simp add: slice_ok_def Let_def)
  qed
  ultimately show ?thesis by blast
qed

section \<open>Elision in expressions\<close>

text \<open>\<open>mentions F x\<close>: the facts say something that depends on \<open>x\<close>.\<close>

definition mentions :: "facts \<Rightarrow> name \<Rightarrow> bool" where
  "mentions F x \<longleftrightarrow>
     map_of (ivs F) x \<noteq> None \<or> x \<in> set (nzs F) \<or> map_of (minlens F) x \<noteq> None \<or>
     list_ex (\<lambda>(_, iv). case iv_hi iv of Len w _ \<Rightarrow> w = x | _ \<Rightarrow> False) (ivs F)"

text \<open>The expressions the soundness of \<open>annot\<close> is for: they carry no verdict yet, call only
  builtins, neither push nor pop, build no structs (whose defaults are code elsewhere), their match
  arms rebind no name the facts mention, and no divisor has a symbolic upper bound. The examples at
  the end of the theory show that the verdicts are not sound without the last three conditions.\<close>

fun calm :: "facts \<Rightarrow> expr \<Rightarrow> bool" where
  "calm F (EBin op l r t ov dv) \<longleftrightarrow> \<not> ov \<and> \<not> dv \<and> calm F l \<and> calm F r \<and>
     ((op = OpDiv \<or> op = OpMod) \<longrightarrow> \<not> is_len (iv_hi (expr_interval F r)))"
| "calm F (EUn op e) = calm F e"
| "calm F (ECall f rc args) = ((case rc of Builtin _ \<Rightarrow> True | User _ \<Rightarrow> False) \<and> list_all (calm F) args)"
| "calm F (EField e f) = calm F e"
| "calm F (EMethod e f args rm bnd) =
     (\<not> bnd \<and> calm F e \<and> list_all (calm F) args \<and>
      (case rm of User _ \<Rightarrow> False
       | Builtin op \<Rightarrow> op \<noteq> ''list.push'' \<and> op \<noteq> ''list.pop'' \<and>
           (op = ''str.byte_at'') = (f = ''byte_at'') \<and> (op = ''str.slice'') = (f = ''slice'')))"
| "calm F (EIndex e i bnd) = (\<not> bnd \<and> calm F e \<and> calm F i)"
| "calm F (EList es) = list_all (calm F) es"
| "calm F (EStruct n fs) = False"
| "calm F (EEnum n v es) = list_all (calm F) es"
| "calm F (EMatch e arms) =
     (calm F e \<and> list_all (\<lambda>(p, b). calm F b \<and>
        (case p of PWild \<Rightarrow> True | PVariant _ _ bs \<Rightarrow> list_all (\<lambda>x. \<not> mentions F x) bs)) arms)"
| "calm F (EQmark e a b) = calm F e"
| "calm F e = True"

lemma hl_scoped: "hl.pres m \<Longrightarrow> hl.pres (scoped sc m)"
proof -
  assume m: "hl.pres m"
  have "heap_le s (snd (scoped sc m s))" for s
    using m [unfolded hl.pres_def, rule_format, of "s\<lparr>env := sc # env s\<rparr>"]
    by (auto simp: scoped_def heap_le_def split: prod.splits)
  then show ?thesis by (simp add: hl.pres_def)
qed

lemma snd_bind_ret: "snd (bindS m (\<lambda>_. ret v) s) = snd (m s)"
  by (auto simp: bindS_def ret_def split: prod.splits sum.splits)

lemma hl_map_method:
  assumes "deref s l = Some (HMap m)"
  shows "heap_le s (snd (map_method op l m args s))"
proof (cases "op = ''map.set''")
  case True
  have "heap_le s (snd (store l (HMap m') s))" for m'
    using hl.pres_store [OF assms] by simp
  then show ?thesis
    by (simp add: map_method_def True snd_bind_ret raise_def hl.R_refl split: list.split)
next
  case False
  have "hl.pres (map_method op l m args)"
    unfolding map_method_def if_not_P [OF False] by (intro hl.pres_rules hl.pres_io)
  then show ?thesis by (simp add: hl.pres_def)
qed

lemma select_arm_in:
  "select_arm en var arms = Some (bo, b) \<Longrightarrow>
   \<exists>p. (p, b) \<in> set arms \<and> (case bo of None \<Rightarrow> p = PWild | Some bs \<Rightarrow> p = PVariant en var bs)"
  by (induction en var arms rule: select_arm.induct) (auto split: if_splits)

lemma hl_builtin_method:
  assumes "op \<noteq> ''list.push''" and "op \<noteq> ''list.pop''"
  shows "hl.pres (builtin_method C b op t args)"
proof -
  have 1: "hl.pres (bindS getS (\<lambda>s. case deref s t of Some (HList xs) \<Rightarrow> list_method op t xs args
      | Some (HMap m) \<Rightarrow> map_method op t m args | _ \<Rightarrow> stuck op))"
    using hl.pres_list_method [OF _ assms] hl_map_method
    by (auto simp: hl.pres_def bindS_def getS_def raise_def hl.R_refl split: option.splits hobj.splits)
  show ?thesis
    unfolding builtin_method_def int_method_def builtin_str_def
    by (intro hl.pres_rules hl.pres_str_method hl.pres_lift_parse 1)
qed

lemma calm_heap: "calm F e \<Longrightarrow> hl.pres (eval_expr C n e)"
proof (induction n arbitrary: e)
  case 0
  show ?case by (simp add: hl.pres_raise)
next
  case (Suc n)
  have args: "hl.pres (mapS (\<lambda>a. eval_expr C n a) es)" if "list_all (calm F) es" for es
    using that Suc.IH by (intro hl.pres_mapS) (auto simp: list_all_iff)
  note rules = Suc.IH args hl.pres_binop hl.pres_rules hl.pres_ops hl.pres_io hl.pres_builtin
    hl_builtin_method hl_scoped
  show ?case
  proof (cases e)
    case (EMatch c arms)
    have "calm F b" if "select_arm en var arms = Some (bs, b)" for en var bs b
      using select_arm_in [OF that] Suc.prems EMatch by (auto simp: list_all_iff)
    then show ?thesis
      using Suc.prems EMatch unfolding eval_expr.simps(2)
      by (simp only: expr.case) (intro rules; auto intro!: rules split: option.split prod.split)
  next
    case (ECall f rc args)
    then show ?thesis using Suc.prems unfolding eval_expr.simps(2)
      by (cases rc; simp only: expr.case callee.case) (auto simp: list_all_iff intro!: rules)
  next
    case (EMethod a f args rm bnd)
    then obtain op where rm: "rm = Builtin op" using Suc.prems by (cases rm) auto
    then have c: "calm F a" "list_all (calm F) args" "op \<noteq> ''list.push''" "op \<noteq> ''list.pop''"
      using Suc.prems EMethod by simp_all
    have "hl.pres (bindS (eval_expr C n a) (\<lambda>t. bindS (mapS (\<lambda>a. eval_expr C n a) args)
        (\<lambda>vs. builtin_method C bnd op t vs)))"
      by (intro hl.pres_bind Suc.IH c(1) args [OF c(2)] hl_builtin_method [OF c(3,4)])
    then show ?thesis by (simp only: EMethod rm eval_expr.simps(2) expr.case callee.case)
  qed (use Suc.prems in \<open>simp_all only: eval_expr.simps(2) expr.case calm.simps, (intro rules; simp)+\<close>)
qed

text \<open>Two computations that agree from a state on.\<close>

lemma bindS_eq:
  "m s = m' s \<Longrightarrow> (\<And>v s1. m' s = (Inr v, s1) \<Longrightarrow> f v s1 = f' v s1) \<Longrightarrow>
   bindS m f s = bindS m' f' s"
  by (auto simp: bindS_def split: prod.splits sum.splits)

lemma mapS_eq:
  assumes "\<And>x s. x \<in> set xs \<Longrightarrow> P s \<Longrightarrow> f (h x) s = g x s"
    and "\<And>x s r s'. x \<in> set xs \<Longrightarrow> P s \<Longrightarrow> g x s = (r, s') \<Longrightarrow> P s'" and "P s"
  shows "mapS f (map h xs) s = mapS g xs s"
  using assms
proof (induction xs arbitrary: s)
  case (Cons x xs)
  have tail: "bindS (mapS f (map h xs)) (\<lambda>ys. ret (y # ys)) s1 =
      bindS (mapS g xs) (\<lambda>ys. ret (y # ys)) s1" if "g x s = (Inr y, s1)" for y s1
    using Cons.prems that by (intro bindS_eq Cons.IH) (auto intro: Cons.prems(2))
  have "bindS (f (h x)) (\<lambda>y. bindS (mapS f (map h xs)) (\<lambda>ys. ret (y # ys))) s =
        bindS (g x) (\<lambda>y. bindS (mapS g xs) (\<lambda>ys. ret (y # ys))) s"
    by (rule bindS_eq) (use Cons.prems tail in simp_all)
  then show ?case by simp
qed simp

abbreviation checked_ctx :: "ctx \<Rightarrow> ctx" where "checked_ctx C \<equiv> C\<lparr>elide := False\<rparr>"
abbreviation elided_ctx :: "ctx \<Rightarrow> ctx" where "elided_ctx C \<equiv> C\<lparr>elide := True\<rparr>"

lemma truthy_elide [simp]: "truthy (C\<lparr>elide := b\<rparr>) = truthy C"
  by (intro ext) (simp add: truthy_def cong: val.case_cong)

lemma scalar_elide [simp]:
  "scalar_eq (C\<lparr>elide := b\<rparr>) v w = scalar_eq C v w"
  "scalar_less (C\<lparr>elide := b\<rparr>) v w = scalar_less C v w"
  "scalar_le (C\<lparr>elide := b\<rparr>) v w = scalar_le C v w"
proof -
  show 1: "scalar_eq (C\<lparr>elide := b\<rparr>) v w = scalar_eq C v w" for v w
    by (cases "(C, v, w)" rule: scalar_eq.cases) auto
  show 2: "scalar_less (C\<lparr>elide := b\<rparr>) v w = scalar_less C v w" for v w
    by (cases "(C, v, w)" rule: scalar_less.cases) auto
  show "scalar_le (C\<lparr>elide := b\<rparr>) v w = scalar_le C v w"
    by (simp add: scalar_le_def 1 2 cong: option.case_cong)
qed

lemma eval_un_elide [simp]: "eval_un (C\<lparr>elide := b\<rparr>) = eval_un C"
  by (intro ext) (auto simp: eval_un_def split: unop.split val.split)

lemma float_elide [simp]: "float_arith (C\<lparr>elide := b\<rparr>) = float_arith C"
  by (intro ext) (simp add: float_arith_def cong: binop.case_cong)

lemma checked_eq: "(fl \<Longrightarrow> is_ok r) \<Longrightarrow> checked (elided_ctx C) fl r = checked (checked_ctx C) False r"
  by (cases r) (auto simp: checked_def)

lemma check_eq: "(fl \<Longrightarrow> ok) \<Longrightarrow> check (elided_ctx C) fl ok msg = check (checked_ctx C) False ok msg"
  by (auto simp: check_def)

lemma strict_eq:
  assumes "\<And>m n. a = VInt m \<Longrightarrow> b = VInt n \<Longrightarrow>
      (ov \<longrightarrow> op \<in> {OpAdd, OpSub, OpMul} \<longrightarrow> is_ok (arith_result op m n)) \<and>
      (dv \<longrightarrow> op \<in> {OpDiv, OpMod} \<longrightarrow> is_ok (arith_result op m n))"
  shows "strict_bin (elided_ctx C) op ov dv a b = strict_bin (checked_ctx C) op False False a b"
proof -
  have ar: "arith (elided_ctx C) op ov dv m n = arith (checked_ctx C) op False False m n"
    if "a = VInt m" "b = VInt n" for m n
    using assms [OF that]
    by (cases op) (auto simp: arith_def arith_result_def intro!: checked_eq)
  show ?thesis
    using ar by (cases op; cases a; cases b) (simp_all add: strict_bin_def)
qed

lemma index_eq:
  assumes "bnd \<Longrightarrow> \<exists>w k. i = VInt k \<and> 0 \<le> k \<and> lookup (env s) w = Some l \<and> len_at_least s w (k + 1)"
  shows "index_get (elided_ctx C) bnd l i s = index_get (checked_ctx C) False l i s"
proof -
  have "check (elided_ctx C) bnd (0 \<le> k \<and> k < int (length xs)) m =
        check (checked_ctx C) False (0 \<le> k \<and> k < int (length xs)) m"
    if "deref s l = Some (HList xs)" "i = VInt k" for xs k m
    using assms that by (intro check_eq) (auto simp: len_at_least_def deref_def split: val.splits if_splits)
  then show ?thesis
    by (auto simp: index_get_def bindS_def getS_def split: option.split hobj.split val.split)
qed

lemma method_eq:
  assumes "\<And>b i. bnd \<Longrightarrow> op = ''str.byte_at'' \<Longrightarrow> t = VStr b \<Longrightarrow> vs = [VInt i] \<Longrightarrow>
      0 \<le> i \<and> i < int (length b)"
    and "\<And>b i j. bnd \<Longrightarrow> op = ''str.slice'' \<Longrightarrow> t = VStr b \<Longrightarrow> vs = [VInt i, VInt j] \<Longrightarrow>
      0 \<le> i \<and> i \<le> j \<and> j \<le> int (length b)"
  shows "builtin_method (elided_ctx C) bnd op t vs = builtin_method (checked_ctx C) False op t vs"
proof -
  have "str_method (elided_ctx C) bnd op b vs = str_method (checked_ctx C) False op b vs"
    if t: "t = VStr b" for b
  proof -
    have 1: "check (elided_ctx C) bnd (0 \<le> i \<and> i < int (length b)) m =
        check (checked_ctx C) False (0 \<le> i \<and> i < int (length b)) m"
      if "op = ''str.byte_at''" "vs = [VInt i]" for i m
      using assms(1) t that by (intro check_eq) simp
    have 2: "check (elided_ctx C) bnd (0 \<le> i \<and> i \<le> j \<and> j \<le> int (length b)) m =
        check (checked_ctx C) False (0 \<le> i \<and> i \<le> j \<and> j \<le> int (length b)) m"
      if "op = ''str.slice''" "vs = [VInt i, VInt j]" for i j m
      using assms(2) t that by (intro check_eq) simp
    show ?thesis
      unfolding str_method_def using 1 2 by (auto split: list.split val.split)
  qed
  then show ?thesis
    unfolding builtin_method_def by (auto split: val.split)
qed

lemma facts_scope:
  assumes "facts_ok F s" and "\<And>x. x \<in> dom sc \<Longrightarrow> \<not> mentions F x"
  shows "facts_ok F (s\<lparr>env := sc # env s\<rparr>)"
proof -
  have look: "lookup (sc # env s) x = lookup (env s) x" if "mentions F x" for x
    using assms(2) [of x] that by (auto split: option.splits)
  have len: "len_at_least (s\<lparr>env := sc # env s\<rparr>) w j = len_at_least s w j" if "mentions F w" for w j
    using look [OF that] by (simp add: len_at_least_def cong: option.case_cong val.case_cong)
  have owner: "mentions F w" if h: "iv_hi (iv_of F x) = Len w d" for x w d
  proof -
    obtain iv where "map_of (ivs F) x = Some iv" "iv_hi iv = Len w d"
      using h by (cases "map_of (ivs F) x") (simp_all add: iv_of_def TOP_def)
    then have "(x, iv) \<in> set (ivs F)" by (simp add: map_of_SomeD)
    then show ?thesis using \<open>iv_hi iv = Len w d\<close>
      by (force simp: mentions_def list_ex_iff)
  qed
  have top: "iv_of F x = TOP \<and> x \<notin> set (nzs F)" if "\<not> mentions F x" for x
    using that by (simp add: mentions_def iv_of_def)
  show ?thesis
    unfolding facts_ok_def
  proof (intro conjI allI impI)
    fix x n assume x: "lookup (env (s\<lparr>env := sc # env s\<rparr>)) x = Some (VInt n)"
    have "iv_has (len_at_least s) (iv_of F x) n \<and> (x \<in> set (nzs F) \<longrightarrow> n \<noteq> 0)"
    proof (cases "mentions F x")
      case True
      then show ?thesis using assms(1) look [OF True] x by (simp add: facts_ok_def)
    qed (simp add: top)
    then show "iv_has (len_at_least (s\<lparr>env := sc # env s\<rparr>)) (iv_of F x) n" "x \<in> set (nzs F) \<Longrightarrow> n \<noteq> 0"
      using owner [of x] len by (auto simp: iv_has_def hi_ok_def split: bound.splits)
  next
    fix w m assume w: "map_of (minlens F) w = Some m"
    then have "mentions F w" by (simp add: mentions_def)
    then show "len_at_least (s\<lparr>env := sc # env s\<rparr>) w m"
      using assms(1) w len by (simp add: facts_ok_def)
  qed
qed

lemma bind_payloads_dom: "bind_payloads bs vs sc = Some sc' \<Longrightarrow> dom sc' \<subseteq> dom sc \<union> set bs"
  by (induction bs vs sc rule: bind_payloads.induct) (fastforce split: if_splits)+

lemma select_arm_map:
  "select_arm en var (map (\<lambda>(p, b). (p, h b)) arms) =
   map_option (\<lambda>(bo, b). (bo, h b)) (select_arm en var arms)"
  by (induction en var arms rule: select_arm.induct) auto

lemma calm_step:
  assumes "calm F e" and "facts_ok F s" and "eval_expr C n e s = (r, s')"
  shows "facts_ok F s'"
  using facts_stable [OF assms(2) eval_keeps_env [OF assms(3)]]
    hl.presD [OF calm_heap [OF assms(1)] assms(3)] by blast

lemma eval_strict:
  "op \<noteq> OpOr \<Longrightarrow> op \<noteq> OpAnd \<Longrightarrow> eval_expr C (Suc n) (EBin op l r t ov dv) =
     bindS (eval_expr C n l) (\<lambda>a. bindS (eval_expr C n r) (\<lambda>b. strict_bin C op ov dv a b))"
  by (cases op) (simp_all add: eval_expr.simps(2))

lemma bin_elide:
  assumes IH: "\<And>e s. facts_ok F s \<Longrightarrow> calm F e \<Longrightarrow>
      eval_expr (elided_ctx C) n (annot F e) s = eval_expr (checked_ctx C) n e s"
    and F: "facts_ok F s" and calm: "calm F (EBin op l r t ov dv)"
  shows "eval_expr (elided_ctx C) (Suc n) (annot F (EBin op l r t ov dv)) s =
         eval_expr (checked_ctx C) (Suc n) (EBin op l r t ov dv) s"
proof -
  have lr: "calm F l" "calm F r" "\<not> ov" "\<not> dv" using calm by auto
  show ?thesis
  proof (cases "op = OpOr \<or> op = OpAnd")
    case True
    then show ?thesis
      using lr IH [OF F] IH calm_step [OF lr(1) F]
      by (auto simp: eval_expr.simps(2) getS_def bindS_def split: prod.splits sum.splits)
  next
    case False
    let ?o = "(op = OpAdd \<or> op = OpSub \<or> op = OpMul) \<and> t = ty_int \<and> bin_overflow_ok F op l r"
    let ?d = "(op = OpDiv \<or> op = OpMod) \<and> t = ty_int \<and> div_ok F l r"
    have an: "annot F (EBin op l r t ov dv) = EBin op (annot F l) (annot F r) t ?o ?d"
      using lr by auto
    have "strict_bin (elided_ctx C) op ?o ?d a b = strict_bin (checked_ctx C) op False False a b"
      if a: "eval_expr (checked_ctx C) n l s = (Inr a, s1)"
        and b: "eval_expr (checked_ctx C) n r s1 = (Inr b, s2)" for a b s1 s2
    proof (rule strict_eq)
      fix i j assume ij: "a = VInt i" "b = VInt j"
      have F1: "facts_ok F s1" by (rule calm_step [OF lr(1) F a])
      have L: "iv_has (len_at_least s) (expr_interval F l) i" using interval_sound [OF F] a ij by simp
      have R: "iv_has (len_at_least s1) (expr_interval F r) j" using interval_sound [OF F1] b ij by simp
      have nz: "j \<noteq> 0" if "r = EIdent x ty" "x \<in> set (nzs F)" for x ty
        using eval_ident_Inr [of "checked_ctx C" n x ty s1] b that ij F1 by (auto simp: facts_ok_def)
      have "is_ok (arith_result op i j)" if "?o"
        using overflow_verdict [OF _ L R] that by (auto simp: is_ok_iff)
      moreover have "is_ok (arith_result op i j)" if "?d"
        using div_verdict [OF _ _ L R nz] that calm by (auto simp: is_ok_iff)
      ultimately show "(?o \<longrightarrow> op \<in> {OpAdd, OpSub, OpMul} \<longrightarrow> is_ok (arith_result op i j)) \<and>
          (?d \<longrightarrow> op \<in> {OpDiv, OpMod} \<longrightarrow> is_ok (arith_result op i j))" by blast
    qed
    moreover have "op \<noteq> OpOr" "op \<noteq> OpAnd" using False by auto
    ultimately show ?thesis
      using lr calm_step [OF lr(1) F]
      unfolding an eval_strict [OF \<open>op \<noteq> OpOr\<close> \<open>op \<noteq> OpAnd\<close>] by (auto intro!: bindS_eq IH F)
  qed
qed

lemma args_elide:
  assumes IH: "\<And>e s. facts_ok F s \<Longrightarrow> calm F e \<Longrightarrow>
      eval_expr (elided_ctx C) n (annot F e) s = eval_expr (checked_ctx C) n e s"
    and F: "facts_ok F s" and calm: "list_all (calm F) es"
  shows "mapS (\<lambda>a. eval_expr (elided_ctx C) n a) (map (annot F) es) s =
         mapS (\<lambda>a. eval_expr (checked_ctx C) n a) es s"
  using calm calm_step by (intro mapS_eq [where P = "facts_ok F"] F IH) (auto simp: list_all_iff)

lemma method_elide:
  assumes IH: "\<And>e s. facts_ok F s \<Longrightarrow> calm F e \<Longrightarrow>
      eval_expr (elided_ctx C) n (annot F e) s = eval_expr (checked_ctx C) n e s"
    and F: "facts_ok F s" and calm: "calm F (EMethod e f args rm bnd)"
  shows "eval_expr (elided_ctx C) (Suc n) (annot F (EMethod e f args rm bnd)) s =
         eval_expr (checked_ctx C) (Suc n) (EMethod e f args rm bnd) s"
proof -
  obtain op where rm: "rm = Builtin op" using calm by (cases rm) auto
  then have c: "calm F e" "list_all (calm F) args" "\<not> bnd"
    "(op = ''str.byte_at'') = (f = ''byte_at'')" "(op = ''str.slice'') = (f = ''slice'')"
    using calm by auto
  define fl where "fl = (if f = ''byte_at'' then byte_at_ok F e args
        else if f = ''slice'' then slice_ok F e args else bnd)"
  have eq: "builtin_method (elided_ctx C) fl op t vs = builtin_method (checked_ctx C) False op t vs"
    if t: "eval_expr (checked_ctx C) n e s = (Inr t, s1)"
      and vs: "mapS (\<lambda>a. eval_expr (checked_ctx C) n a) args s1 = (Inr vs, s2)" for t s1 vs s2
  proof (rule method_eq)
    fix b i assume h: fl "op = ''str.byte_at''" "t = VStr b" "vs = [VInt i]"
    obtain a where a: "args = [a]" "eval_expr (checked_ctx C) n a s1 = (Inr (VInt i), s2)"
    proof (cases args)
      case Nil then show ?thesis using vs h(4) by (simp add: ret_def)
    next
      case (Cons a as)
      then show ?thesis using vs h(4) that by (cases as) (auto simp: bindS_Inr ret_def)
    qed
    then have "index_ok F e a" using h c(4) by (simp add: fl_def byte_at_ok_def)
    from index_verdict [OF this F t a(2)] show "0 \<le> i \<and> i < int (length b)"
      using h(3) by (auto simp: len_at_least_def)
  next
    fix b i j assume h: fl "op = ''str.slice''" "t = VStr b" "vs = [VInt i, VInt j]"
    have nb: "f \<noteq> ''byte_at''" using c(4) h(2) by auto
    have sl: "slice_ok F e args" using h c(5) nb by (simp add: fl_def)
    then obtain a a' where aa: "args = [a, a']"
      by (auto simp: slice_ok_def split: option.splits list.splits)
    then obtain s3 where "eval_expr (checked_ctx C) n a s1 = (Inr (VInt i), s3)"
      "eval_expr (checked_ctx C) n a' s3 = (Inr (VInt j), s2)"
      using vs h(4) by (auto simp: bindS_Inr ret_def)
    then show "0 \<le> i \<and> i \<le> j \<and> j \<le> int (length b)"
      using slice_verdict [OF sl [unfolded aa] F] t h(3) by blast
  qed
  show ?thesis
    using eq calm_step [OF c(1) F] unfolding annot.simps rm fl_def [symmetric]
    by (simp only: eval_expr.simps(2) expr.case callee.case)
       (use c(3) in \<open>auto intro!: bindS_eq IH F c args_elide\<close>)
qed

theorem annot_elide:
  "facts_ok F s \<Longrightarrow> calm F e \<Longrightarrow>
   eval_expr (elided_ctx C) n (annot F e) s = eval_expr (checked_ctx C) n e s"
proof (induction n arbitrary: e s)
  case 0
  show ?case by simp
next
  case (Suc n)
  note IH = Suc.IH and F = Suc.prems(1) and calm = Suc.prems(2)
  show ?case
  proof (cases e)
    case (EBin op l r t ov dv)
    then show ?thesis using bin_elide [OF IH F] calm by blast
  next
    case (EMethod a f args rm bnd)
    then show ?thesis using method_elide [OF IH F] calm by blast
  next
    case (EUn op a)
    then show ?thesis using calm by (auto simp: eval_expr.simps(2) intro!: bindS_eq IH F)
  next
    case (ECall f rc args)
    then show ?thesis using calm
      by (cases rc) (auto simp: eval_expr.simps(2) intro!: bindS_eq args_elide IH F)
  next
    case (EField a f)
    then show ?thesis using calm by (auto simp: eval_expr.simps(2) intro!: bindS_eq IH F)
  next
    case (EIndex a i bnd)
    have c: "calm F a" "calm F i" using calm EIndex by auto
    have "index_get (elided_ctx C) (index_ok F a i) l k s2 = index_get (checked_ctx C) False l k s2"
      if "eval_expr (checked_ctx C) n a s = (Inr l, s1)" "eval_expr (checked_ctx C) n i s1 = (Inr k, s2)"
      for l k s1 s2
    proof (cases k)
      case (VInt j)
      then show ?thesis using index_verdict [OF _ F that(1)] that(2)
        by (intro index_eq) blast
    qed (auto simp: index_get_def bindS_def getS_def split: option.splits hobj.splits)
    then show ?thesis using EIndex calm calm_step [OF c(1) F]
      by (auto simp: eval_expr.simps(2) intro!: bindS_eq IH F)
  next
    case (EList es)
    then show ?thesis using calm
      by (auto simp: eval_expr.simps(2) intro!: bindS_eq args_elide IH F)
  next
    case (EEnum en v es)
    then show ?thesis using calm
      by (auto simp: eval_expr.simps(2) intro!: bindS_eq args_elide IH F)
  next
    case (EMatch c arms)
    have c: "calm F c" and arms: "list_all (\<lambda>(p, b). calm F b \<and>
        (case p of PWild \<Rightarrow> True | PVariant _ _ bs \<Rightarrow> list_all (\<lambda>x. \<not> mentions F x) bs)) arms"
      using calm EMatch by auto
    have body: "eval_expr (elided_ctx C) n (annot F b) s1 = eval_expr (checked_ctx C) n b s1"
      if "select_arm en var arms = Some (None, b)" "facts_ok F s1" for en var b s1
      using select_arm_in [OF that(1)] arms IH that(2) by (auto simp: list_all_iff)
    have scope: "scoped sc (eval_expr (elided_ctx C) n (annot F b)) s1 =
        scoped sc (eval_expr (checked_ctx C) n b) s1"
      if "select_arm en var arms = Some (Some bs, b)" "bind_payloads bs vs Map.empty = Some sc"
        "facts_ok F s1" for en var bs b vs sc s1
    proof -
      have "calm F b" "\<forall>x\<in>set bs. \<not> mentions F x"
        using select_arm_in [OF that(1)] arms by (auto simp: list_all_iff)
      moreover have "dom sc \<subseteq> set bs" using bind_payloads_dom [OF that(2)] by simp
      ultimately show ?thesis
        using IH [OF facts_scope [OF that(3)]] by (simp add: scoped_def subset_iff)
    qed
    show ?thesis
      unfolding EMatch annot.simps eval_expr.simps(2) expr.case
      by (rule bindS_eq, rule IH [OF F c])
         (auto simp: select_arm_map intro!: body scope dest: calm_step [OF c F]
           split: val.split option.split prod.split)
  next
    case (EQmark a o1 o2)
    then show ?thesis using calm by (auto simp: eval_expr.simps(2) intro!: bindS_eq IH F)
  qed (use calm in \<open>simp_all add: eval_expr.simps(2)\<close>)
qed

section \<open>Seeding\<close>

text \<open>The expressions a contract may be made of (\<open>check_contract_purity\<close>): no calls but the length.
  The check also lets through list and struct literals, which put an object on the heap; they are
  left out here.\<close>

fun pure :: "expr \<Rightarrow> bool" where
  "pure (EBin op l r t ov dv) = (pure l \<and> pure r)"
| "pure (EUn op e) = pure e"
| "pure (ECall f rc [a]) = (f = ''len'' \<and> rc = Builtin ''len'' \<and> pure a)"
| "pure (EMethod e f [] rm bnd) =
     (f = ''len'' \<and> rm \<in> {Builtin ''str.len'', Builtin ''list.len'', Builtin ''map.len''} \<and> pure e)"
| "pure (EField e f) = pure e"
| "pure (EIndex e i bnd) = (pure e \<and> pure i)"
| "pure (EEnum n v es) = list_all pure es"
| "pure (EMatch e arms) = (pure e \<and> list_all (\<lambda>(p, b). pure b) arms)"
| "pure (EQmark e a b) = pure e"
| "pure (EInt n) = True"
| "pure (EFloat n) = True"
| "pure (EBool b) = True"
| "pure (EStr t) = True"
| "pure (EIdent x t) = True"
| "pure _ = False"

text \<open>The state is unchanged.\<close>

interpretation eqs: state_rel "(=) :: ist \<Rightarrow> ist \<Rightarrow> bool"
  by unfold_locales auto

lemma eq_len_method:
  "op \<in> {''str.len'', ''list.len'', ''map.len''} \<Longrightarrow> eqs.pres (builtin_method C b op t [])"
  unfolding builtin_method_def int_method_def str_method_def list_method_def map_method_def
    builtin_str_def
  by (intro eqs.pres_rules) auto

lemma eq_len: "eqs.pres (builtin ''len'' [v])"
  by (simp add: builtin_def size_of_def) (intro eqs.pres_rules)

lemma eq_scoped:
  assumes "eqs.pres m"
  shows "eqs.pres (scoped sc m)"
proof -
  have m: "t = snd (m t)" for t using assms unfolding eqs.pres_def by blast
  have "snd (scoped sc m s) = (snd (m (s\<lparr>env := sc # env s\<rparr>)))
      \<lparr>env := tl (env (snd (m (s\<lparr>env := sc # env s\<rparr>))))\<rparr>" for s
    by (simp add: scoped_def case_prod_beta)
  then have "snd (scoped sc m s) = s" for s by (simp flip: m)
  then show ?thesis unfolding eqs.pres_def by simp
qed

lemma pure_eq: "pure e \<Longrightarrow> eqs.pres (eval_expr C n e)"
proof (induction n arbitrary: e)
  case 0
  show ?case by (simp add: eqs.pres_raise)
next
  case (Suc n)
  note rules = Suc.IH eqs.pres_binop eqs.pres_rules eqs.pres_ops eq_len eq_len_method
  show ?case
  proof (cases e)
    case (ECall f rc args)
    then obtain a where "args = [a]" "rc = Builtin ''len''" "pure a"
      using Suc.prems by (cases "ECall f rc args" rule: pure.cases) auto
    moreover have "eqs.pres (bindS (mapS (\<lambda>a. eval_expr C n a) [a]) (\<lambda>vs. builtin ''len'' vs))"
      if "pure a" for a
    proof -
      have "bindS (mapS (\<lambda>a. eval_expr C n a) [a]) (\<lambda>vs. builtin ''len'' vs) =
            bindS (eval_expr C n a) (\<lambda>v. builtin ''len'' [v])"
        by (intro ext) (auto simp: bindS_def ret_def split: prod.splits sum.splits)
      then show ?thesis using that by (auto intro!: rules)
    qed
    ultimately show ?thesis
      by (simp only: ECall eval_expr.simps(2) expr.case callee.case)
  next
    case (EMethod a f args rm bnd)
    then obtain op where "args = []" "rm = Builtin op" "op \<in> {''str.len'', ''list.len'', ''map.len''}" "pure a"
      using Suc.prems by (cases "EMethod a f args rm bnd" rule: pure.cases) auto
    moreover have "eqs.pres (bindS (eval_expr C n a) (\<lambda>t. bindS (mapS (\<lambda>a. eval_expr C n a) [])
        (\<lambda>vs. builtin_method C bnd op t vs)))"
      if "op \<in> {''str.len'', ''list.len'', ''map.len''}" "pure a" for op a
    proof -
      have "bindS (mapS (\<lambda>a. eval_expr C n a) []) (\<lambda>vs. builtin_method C bnd op t vs) =
            builtin_method C bnd op t []" for t
        by (intro ext) (auto simp: bindS_def ret_def)
      then show ?thesis using that by (auto intro!: rules)
    qed
    ultimately show ?thesis
      by (simp only: EMethod eval_expr.simps(2) expr.case callee.case)
  next
    case (EMatch c arms)
    have "eqs.pres (eval_expr C n b)" if "select_arm en var arms = Some (bs, b)" for en var bs b
      using select_arm_in [OF that] Suc.prems EMatch by (auto simp: list_all_iff intro!: Suc.IH)
    moreover have "eqs.pres (eval_expr C n c)" using Suc.prems EMatch by (simp add: Suc.IH)
    ultimately show ?thesis
      unfolding EMatch eval_expr.simps(2) expr.case
      by (intro eqs.pres_bind)
         (auto intro!: eqs.pres_raise eq_scoped split: val.split option.split prod.split)
  next
    case (EEnum nm v es)
    then have "eqs.pres (mapS (\<lambda>a. eval_expr C n a) es)"
      using Suc.prems by (intro eqs.pres_mapS Suc.IH) (simp add: list_all_iff)
    then show ?thesis
      unfolding EEnum eval_expr.simps(2) expr.case by (intro eqs.pres_bind eqs.pres_ret)
  next
    case (EQmark a b1 b2)
    then show ?thesis
      using Suc.prems unfolding EQmark eval_expr.simps(2) expr.case
      by (intro eqs.pres_bind Suc.IH eqs.pres_ok_value) simp
  qed (use Suc.prems in \<open>simp_all only: eval_expr.simps(2) expr.case pure.simps, (intro rules; simp)+\<close>)
qed

lemma pure_state: "pure e \<Longrightarrow> eval_expr C n e s = (r, s') \<Longrightarrow> s' = s"
  using eqs.presD [OF pure_eq] by blast

lemma len_value:
  assumes "pure e" and "is_len_call e" and "eval_expr C n e s = (Inr (VInt k), s')"
    and "lookup (env s) ''?'' = None" and "j \<le> k"
  shows "len_at_least s (len_owner e) j"
proof (cases "len_owner e = ''?''")
  case True
  then show ?thesis using assms(4) by (simp add: len_at_least_def)
next
  case False
  obtain m where n: "n = Suc m" using assms(3) eval_not_zero by blast
  have size: "len_at_least s x j" if "lookup (env s) x = Some v" "size_of v s = (Inr (VInt k), s')" for x v
    using that assms(5)
    by (auto simp: size_of_def bindS_def getS_def raise_def ret_def len_at_least_def deref_def
        split: val.splits option.splits hobj.splits if_splits)
  have meth: "len_at_least s x j"
    if "lookup (env s) x = Some v" "builtin_method C b op v [] s = (Inr (VInt k), s')"
      "op \<in> {''str.len'', ''list.len'', ''map.len''}" for x v b op
    using that assms(5)
    by (auto simp: builtin_method_def str_method_def list_method_def map_method_def int_method_def
        bindS_def getS_def raise_def ret_def len_at_least_def deref_def
        split: val.splits option.splits hobj.splits if_splits)
  show ?thesis
  proof (cases e rule: len_owner.cases)
    case (1 f rc x t es)
    then have "es = []" "rc = Builtin ''len''" "f = ''len''"
      using assms(1,2) by (cases es; auto)+
    then obtain v where "eval_expr C m (EIdent x t) s = (Inr v, s)" "size_of v s = (Inr (VInt k), s')"
      using assms(3) 1 n eval_ident_Inr [of C m x t s]
      by (auto simp: eval_expr.simps(2) bindS_Inr ret_def builtin_def)
    then show ?thesis using size eval_ident_Inr [of C m x t s] 1 \<open>f = ''len''\<close> by auto
  next
    case (2 x t f args rm b)
    then obtain op where "args = []" "rm = Builtin op" "op \<in> {''str.len'', ''list.len'', ''map.len''}" "f = ''len''"
      using assms(1,2) by (cases args) auto
    moreover from this obtain v where "eval_expr C m (EIdent x t) s = (Inr v, s)"
      "builtin_method C b op v [] s = (Inr (VInt k), s')"
      using assms(3) 2 n eval_ident_Inr [of C m x t s]
      by (auto simp: eval_expr.simps(2) bindS_Inr ret_def)
    ultimately show ?thesis using meth eval_ident_Inr [of C m x t s] 2 by auto
  qed (use False in auto)
qed

lemma iv_of_set: "iv_of (set_iv x iv F) y = (if y = x then iv else iv_of F y)"
  by (simp add: iv_of_def set_iv_def update_conv)

lemma set_iv_sel [simp]: "nzs (set_iv x iv F) = nzs F" "minlens (set_iv x iv F) = minlens F"
  by (simp_all add: set_iv_def)

lemma facts_set_iv:
  assumes "facts_ok F s"
    and "\<And>n. lookup (env s) x = Some (VInt n) \<Longrightarrow> iv_has (len_at_least s) iv n"
  shows "facts_ok (set_iv x iv F) s"
  using assms by (auto simp: facts_ok_def iv_of_set)

lemma refine_ok:
  assumes F: "facts_ok F s" and lo: "\<not> is_len lo"
    and "\<And>n. lookup (env s) x = Some (VInt n) \<Longrightarrow> lo_ok lo n \<and> hi_ok (len_at_least s) hi n"
  shows "facts_ok (refine F x lo hi) s"
proof -
  have "iv_has (len_at_least s) iv n"
    if n: "lookup (env s) x = Some (VInt n)"
      and iv: "iv = Iv (case (lo, iv_lo (iv_of F x)) of
            (Unknown, ol) \<Rightarrow> ol | (Num m, Num n) \<Rightarrow> Num (max n m) | _ \<Rightarrow> lo)
          (case (hi, iv_hi (iv_of F x)) of
            (Unknown, oh) \<Rightarrow> oh | (Num m, Num n) \<Rightarrow> Num (min n m) | _ \<Rightarrow> hi)" for iv n
    using facts_var [OF F n] assms(3) [OF n] lo
    by (simp add: iv iv_has_def lo_ok_def hi_ok_def is_len_def split: bound.splits)
  then show ?thesis
    using lo by (simp add: refine_def Let_def facts_set_iv [OF F])
qed

lemma refine_nz_ok:
  assumes F: "facts_ok F s" and "\<And>n. lookup (env s) x = Some (VInt n) \<Longrightarrow> n \<noteq> 0"
  shows "facts_ok (refine_nz F x) s"
proof -
  have "facts_ok (set_iv x (iv_of F x) F) s" using F by (intro facts_set_iv) (auto simp: facts_var)
  then have "facts_ok ((set_iv x (iv_of F x) F)\<lparr>nzs := List.insert x (nzs F)\<rparr>) s"
    using assms(2) by (auto simp: facts_ok_def iv_of_def)
  then show ?thesis using F by (simp add: refine_nz_def Let_def)
qed

lemma set_minlen_ok: "facts_ok F s \<Longrightarrow> len_at_least s w k \<Longrightarrow> facts_ok (set_minlen F w k) s"
  by (auto simp: set_minlen_def facts_ok_def update_conv iv_of_def split: option.splits)

text \<open>What a comparison that holds says of integers.\<close>

definition int_rel :: "binop \<Rightarrow> int \<Rightarrow> int \<Rightarrow> bool" where
  "int_rel op m n =
     (case op of OpEq \<Rightarrow> m = n | OpNe \<Rightarrow> m \<noteq> n | OpLt \<Rightarrow> m < n | OpLe \<Rightarrow> m \<le> n
      | OpGt \<Rightarrow> m > n | OpGe \<Rightarrow> m \<ge> n | _ \<Rightarrow> True)"

lemma int_rel_flip: "int_rel (flip_op op) n m = int_rel op m n"
  by (cases op) (auto simp: int_rel_def)

lemma cmp_true:
  assumes "strict_bin C op ov dv (VInt m) (VInt n) s = (Inr v, s')" and "truthy C s' v"
  shows "int_rel op m n"
  using assms
  by (cases op) (auto simp: strict_bin_def ret_bool_def ret_def truthy_def int_rel_def scalar_le_def)

lemma cmp_ints:
  assumes "strict_bin C op ov dv a b s = (Inr v, s')" and "op \<notin> {OpAdd, OpSub, OpMul, OpDiv, OpMod, OpOr, OpAnd}"
  shows "(\<exists>m. a = VInt m) = (\<exists>n. b = VInt n)"
  using assms
  by (cases op; cases a; cases b) (auto simp: strict_bin_def ret_bool_def raise_def scalar_le_def)

lemma bound_var_ok:
  assumes F: "facts_ok F s" and rel: "\<And>n. lookup (env s) x = Some (VInt n) \<Longrightarrow>
      int_rel (if left then op else flip_op op) n k"
  shows "facts_ok (bound_var F x op k left) s"
  using rel unfolding bound_var_def Let_def
  by (cases "if left then op else flip_op op")
     (auto simp: F int_rel_def lo_ok_def hi_ok_def is_len_def intro!: refine_ok refine_nz_ok)

lemma int_var_Some: "int_var e ps = Some x \<Longrightarrow> \<exists>t. e = EIdent x t"
  by (auto simp: int_var_def split: option.splits if_splits)

lemma int_lit_Some: "int_lit e = Some k \<Longrightarrow> e = EInt k"
  by (cases e) auto

lemma seed_minlen_ok:
  assumes F: "facts_ok F s"
    and h: "\<And>k. is_len_call e \<Longrightarrow> int_lit k' = Some k \<Longrightarrow>
      \<exists>i. (\<forall>j. j \<le> i \<longrightarrow> len_at_least s (len_owner e) j) \<and> int_rel op i k"
  shows "facts_ok (seed_minlen op e k' F) s"
proof (cases "is_len_call e \<and> int_lit k' \<noteq> None")
  case True
  then obtain k where k: "int_lit k' = Some k" by auto
  then obtain i where i: "\<forall>j. j \<le> i \<longrightarrow> len_at_least s (len_owner e) j" "int_rel op i k"
    using h True by blast
  then show ?thesis
    using True k by (cases op) (auto simp: seed_minlen_def int_rel_def F intro!: set_minlen_ok)
next
  case False
  then show ?thesis by (auto simp: seed_minlen_def F)
qed

text \<open>A conjunct that evaluates to true in \<open>s\<close>, with what its sides evaluate to.\<close>

definition true_conjunct ::
  "ctx \<Rightarrow> nat \<Rightarrow> ist \<Rightarrow> binop \<Rightarrow> expr \<Rightarrow> expr \<Rightarrow> val \<Rightarrow> val \<Rightarrow> bool" where
  "true_conjunct C m s op l r a b \<longleftrightarrow>
     eval_expr C m l s = (Inr a, s) \<and> eval_expr C m r s = (Inr b, s) \<and>
     (\<exists>ov dv v. strict_bin C op ov dv a b s = (Inr v, s) \<and> truthy C s v) \<and>
     op \<notin> {OpAdd, OpSub, OpMul, OpDiv, OpMod, OpOr, OpAnd} \<and>
     pure l \<and> pure r \<and> lookup (env s) ''?'' = None"

lemma conjunct_rel:
  "true_conjunct C m s op l r a b \<Longrightarrow> a = VInt i \<Longrightarrow> b = VInt j \<Longrightarrow> int_rel op i j"
  using cmp_true by (fastforce simp: true_conjunct_def)

lemma conjunct_ints: "true_conjunct C m s op l r a b \<Longrightarrow> (\<exists>i. a = VInt i) = (\<exists>j. b = VInt j)"
  using cmp_ints unfolding true_conjunct_def by blast

lemma conjunct_vars:
  assumes "true_conjunct C m s op l r a b" and "lookup (env s) x = Some (VInt n)"
  shows "l = EIdent x t \<Longrightarrow> a = VInt n" and "r = EIdent x t \<Longrightarrow> b = VInt n"
  using assms eval_ident_Inr [of C m x t s a s] eval_ident_Inr [of C m x t s b s]
  by (auto simp: true_conjunct_def)

lemma conjunct_lits:
  assumes "true_conjunct C m s op l r a b"
  shows "int_lit l = Some k \<Longrightarrow> a = VInt k" and "int_lit r = Some k \<Longrightarrow> b = VInt k"
  using assms eval_int_Inr int_lit_Some unfolding true_conjunct_def by blast+

lemma conjunct_lens:
  assumes "true_conjunct C m s op l r a b" and "j \<le> k"
  shows "is_len_call l \<Longrightarrow> a = VInt k \<Longrightarrow> len_at_least s (len_owner l) j"
    and "is_len_call r \<Longrightarrow> b = VInt k \<Longrightarrow> len_at_least s (len_owner r) j"
  using assms len_value unfolding true_conjunct_def by blast+

lemma seed_bound_ok:
  assumes T: "true_conjunct C m s op l r a b" and F: "facts_ok F s"
  shows "facts_ok (seed_bound ps op l r F) s"
proof -
  note rel = conjunct_rel [OF T] and ints = conjunct_ints [OF T]
  have 1: "facts_ok (bound_var F x op k True) s" if "int_var l ps = Some x" "int_lit r = Some k" for x k
    using rel conjunct_lits(2) [OF T that(2)] conjunct_vars(1) [OF T] int_var_Some [OF that(1)]
    by (intro bound_var_ok F) auto
  have 2: "facts_ok (bound_var F x op k False) s" if "int_var r ps = Some x" "int_lit l = Some k" for x k
    using rel conjunct_lits(1) [OF T that(2)] conjunct_vars(2) [OF T] int_var_Some [OF that(1)]
    by (intro bound_var_ok F) (auto simp: int_rel_flip)
  have 3: "facts_ok (refine F x Unknown (Len (len_owner r) d)) s"
    if x: "int_var l ps = Some x" and c: "is_len_call r" "op = OpLt \<and> d = -1 \<or> op = OpLe \<and> d = 0" for x d
  proof (rule refine_ok [OF F])
    fix n assume n: "lookup (env s) x = Some (VInt n)"
    then have a: "a = VInt n" using int_var_Some [OF x] conjunct_vars(1) [OF T] by auto
    then obtain j where j: "b = VInt j" using ints by auto
    then have "n - d \<le> j" using rel [OF a j] c(2) by (auto simp: int_rel_def)
    then show "lo_ok Unknown n \<and> hi_ok (len_at_least s) (Len (len_owner r) d) n"
      using conjunct_lens(2) [OF T _ c(1) j] by (simp add: lo_ok_def hi_ok_def)
  qed (simp add: is_len_def)
  have 4: "facts_ok (refine F x Unknown (Len (len_owner l) d)) s"
    if x: "int_var r ps = Some x" and c: "is_len_call l" "op = OpGt \<and> d = -1 \<or> op = OpGe \<and> d = 0" for x d
  proof (rule refine_ok [OF F])
    fix n assume n: "lookup (env s) x = Some (VInt n)"
    then have b: "b = VInt n" using int_var_Some [OF x] conjunct_vars(2) [OF T] by auto
    then obtain j where j: "a = VInt j" using ints by auto
    then have "n - d \<le> j" using rel [OF j b] c(2) by (auto simp: int_rel_def)
    then show "lo_ok Unknown n \<and> hi_ok (len_at_least s) (Len (len_owner l) d) n"
      using conjunct_lens(1) [OF T _ c(1) j] by (simp add: lo_ok_def hi_ok_def)
  qed (simp add: is_len_def)
  show ?thesis
    unfolding seed_bound_def
    by (auto simp: F 1 2 split: option.split binop.split intro!: 3 4)
qed

lemma seed_minlens_ok:
  assumes T: "true_conjunct C m s op l r a b" and F: "facts_ok F s"
  shows "facts_ok (seed_minlen (flip_op op) r l (seed_minlen op l r F)) s"
proof (rule seed_minlen_ok, rule seed_minlen_ok [OF F])
  fix k assume h: "is_len_call l" "int_lit r = Some k"
  then have b: "b = VInt k" using conjunct_lits(2) [OF T] by blast
  then obtain i where a: "a = VInt i" using conjunct_ints [OF T] by blast
  then show "\<exists>i. (\<forall>j. j \<le> i \<longrightarrow> len_at_least s (len_owner l) j) \<and> int_rel op i k"
    using conjunct_lens(1) [OF T _ h(1) a] conjunct_rel [OF T a b] by blast
next
  fix k assume h: "is_len_call r" "int_lit l = Some k"
  then have a: "a = VInt k" using conjunct_lits(1) [OF T] by blast
  then obtain i where b: "b = VInt i" using conjunct_ints [OF T] by blast
  then show "\<exists>i. (\<forall>j. j \<le> i \<longrightarrow> len_at_least s (len_owner r) j) \<and> int_rel (flip_op op) i k"
    using conjunct_lens(2) [OF T _ h(1) b] conjunct_rel [OF T a b] int_rel_flip by blast
qed

lemma seed_noop:
  assumes "op \<in> {OpAdd, OpSub, OpMul, OpDiv, OpMod, OpOr, OpAnd}"
  shows "seed_bound ps op l r F = F \<and> seed_minlen op l r F = F \<and> seed_minlen (flip_op op) r l F = F"
  using assms
  by (cases op) (auto simp: seed_bound_def seed_minlen_def bound_var_def split: option.splits)

theorem seed_walk_ok:
  assumes "facts_ok F s" and "pure e" and "lookup (env s) ''?'' = None"
    and "eval_expr C n e s = (Inr v, s')" and "truthy C s' v"
  shows "facts_ok (seed_walk e ps F) s"
  using assms
proof (induction e ps F arbitrary: n v s' rule: seed_walk.induct)
  case (1 op l r t ov dv ps F)
  have p: "pure l" "pure r" using 1 by auto
  show ?case
  proof (cases "op = OpAnd")
    case True
    obtain m a s1 where n: "n = Suc m" and l: "eval_expr C m l s = (Inr a, s1)"
      using "1.prems"(4) True eval_not_zero [OF "1.prems"(4)]
      by (auto simp: eval_expr.simps(2) bindS_Inr)
    then have s1: "s1 = s" using pure_state p by blast
    have ta: "truthy C s a" "eval_expr C m r s = (Inr v, s')"
      using "1.prems"(4,5) True n l s1
      by (auto simp: eval_expr.simps(2) bindS_Inr getS_def ret_def truthy_def split: if_splits)
    have "facts_ok (seed_walk l ps F) s"
      using "1.IH"(1) True "1.prems" p l s1 ta by blast
    then have "facts_ok (seed_walk r ps (seed_walk l ps F)) s"
      using "1.IH"(2) True "1.prems" p ta by blast
    then show ?thesis using True by simp
  next
    case False
    show ?thesis
    proof (cases "op \<in> {OpAdd, OpSub, OpMul, OpDiv, OpMod, OpOr, OpAnd}")
      case True
      then show ?thesis using False "1.prems"(1) seed_noop [OF True] by simp
    next
      case cmp: False
      then obtain m a b s1 s2 where h: "eval_expr C m l s = (Inr a, s1)" "eval_expr C m r s1 = (Inr b, s2)"
        "strict_bin C op ov dv a b s2 = (Inr v, s')"
        using eval_bin_Inr [OF "1.prems"(4)] by auto
      have "s1 = s" "s2 = s" using pure_state p h by blast+
      moreover have "s' = s" using pure_state "1.prems" by blast
      ultimately have "true_conjunct C m s op l r a b"
        using h cmp "1.prems" p unfolding true_conjunct_def by blast
      then show ?thesis
        using False seed_minlens_ok seed_bound_ok "1.prems"(1) by simp
    qed
  qed
qed simp_all

lemma no_facts_ok: "facts_ok no_facts s"
  by (simp add: facts_ok_def no_facts_def iv_of_def)

end
