(* ===== verification/ProofStmts.thy ===== *)
theory ProofStmts
  imports ProofSound
begin

text \<open>
  Soundness of the propagation through statements. The engine's facts at a loop head are a guess it
  tries a bounded number of times to confirm; \<open>cert_stmt\<close> is the executable check that a guess is
  inductive and that the statements stay in the fragment the engine is sound for (no \<open>for\<close>, no
  \<open>break\<close> or \<open>continue\<close>, no name bound twice along a path of scopes, calm expressions). For every
  body that passes it, running the annotated body with the checks elided is running the body with
  all its checks (\<open>propagate_elide\<close>). \<open>PlainBody\<close> shows which bodies pass it by their syntax alone.
\<close>

section \<open>Expressions without verdicts, and what expressions cannot raise\<close>

lemma plain_elide: "calm F e \<Longrightarrow> eval_expr (elided_ctx C) n e s = eval_expr (checked_ctx C) n e s"
proof (induction n arbitrary: e s)
  case 0
  show ?case by simp
next
  case (Suc n)
  have eq: "eval_expr (elided_ctx C) n a = eval_expr (checked_ctx C) n a" if "calm F a" for a
    using Suc.IH that by auto
  have args: "mapS (\<lambda>a. eval_expr (elided_ctx C) n a) es = mapS (\<lambda>a. eval_expr (checked_ctx C) n a) es"
    if "list_all (calm F) es" for es
    using that by (induction es) (auto simp: eq)
  have meth: "builtin_method (elided_ctx C) False op = builtin_method (checked_ctx C) False op" for op
    by (rule ext, rule ext, rule method_eq) auto
  have idx: "index_get (elided_ctx C) False = index_get (checked_ctx C) False"
    by (rule ext, rule ext, rule ext, rule index_eq) simp
  have str: "strict_bin (elided_ctx C) op False False = strict_bin (checked_ctx C) op False False" for op
    by (rule ext, rule ext, rule strict_eq) simp
  show ?case
  proof (cases e)
    case (EBin op l r t ov dv)
    then show ?thesis using Suc.prems
      by (cases op) (simp_all add: eval_expr.simps(2) eq str cong: if_cong)
  next
    case (EMatch c arms)
    have "eval_expr (elided_ctx C) n b = eval_expr (checked_ctx C) n b"
      if "select_arm en var arms = Some (bo, b)" for en var bo b
      using select_arm_in [OF that] Suc.prems EMatch by (auto simp: list_all_iff intro!: eq)
    then show ?thesis using Suc.prems EMatch
      by (auto simp: eval_expr.simps(2) eq intro!: bindS_eq split: val.split option.split prod.split)
  next
    case (ECall f rc args)
    then show ?thesis using Suc.prems by (cases rc) (auto simp: eval_expr.simps(2) args)
  next
    case (EMethod a f args rm bnd)
    then show ?thesis using Suc.prems by (cases rm) (auto simp: eval_expr.simps(2) eq args meth)
  qed (use Suc.prems in \<open>auto simp: eval_expr.simps(2) eq args idx\<close>)
qed

text \<open>\<open>quiet m\<close>: \<open>m\<close> ends in neither \<open>break\<close> nor \<open>continue\<close>.\<close>

definition quiet :: "'a ev \<Rightarrow> bool" where
  "quiet m \<longleftrightarrow> (\<forall>s. fst (m s) \<noteq> Inl sig.SBreak \<and> fst (m s) \<noteq> Inl sig.SContinue)"

lemma quiet_ret: "quiet (ret v)" and quiet_get: "quiet getS" and quiet_mod: "quiet (modS g)"
  by (simp_all add: quiet_def ev_defs)

lemma quiet_raise: "e \<noteq> sig.SBreak \<Longrightarrow> e \<noteq> sig.SContinue \<Longrightarrow> quiet (raise e)"
  by (simp add: quiet_def raise_def)

lemma quiet_bind: "quiet m \<Longrightarrow> (\<And>v. quiet (f v)) \<Longrightarrow> quiet (bindS m f)"
  unfolding quiet_def bindS_def by (auto split: prod.splits sum.splits) (metis fst_conv)+

lemma quiet_scoped: "quiet m \<Longrightarrow> quiet (scoped sc m)"
  unfolding quiet_def scoped_def by (auto split: prod.splits) (metis fst_conv)+

lemma quiet_mapS: "(\<And>x. x \<in> set xs \<Longrightarrow> quiet (f x)) \<Longrightarrow> quiet (mapS f xs)"
  by (induction xs) (auto intro!: quiet_bind quiet_ret)

lemma quiet_iterS: "(\<And>x. x \<in> set xs \<Longrightarrow> quiet (f x)) \<Longrightarrow> quiet (iterS f xs)"
  by (induction xs) (auto intro!: quiet_bind quiet_ret)

lemma quiet_if: "quiet a \<Longrightarrow> quiet b \<Longrightarrow> quiet (if c then a else b)"
  by simp

lemma quiet_cases:
  "\<And>a f x. quiet a \<Longrightarrow> (\<And>v. quiet (f v)) \<Longrightarrow> quiet (case x of None \<Rightarrow> a | Some v \<Rightarrow> f v)"
  "\<And>f g x. (\<And>e. quiet (f e)) \<Longrightarrow> (\<And>v. quiet (g v)) \<Longrightarrow> quiet (case x of Inl e \<Rightarrow> f e | Inr v \<Rightarrow> g v)"
  "\<And>a f x. quiet a \<Longrightarrow> (\<And>v vs. quiet (f v vs)) \<Longrightarrow> quiet (case x of [] \<Rightarrow> a | v # vs \<Rightarrow> f v vs)"
  "\<And>f x. (\<And>a b. quiet (f a b)) \<Longrightarrow> quiet (case x of (a, b) \<Rightarrow> f a b)"
  "\<And>f g h x. (\<And>a. quiet (f a)) \<Longrightarrow> (\<And>a. quiet (g a)) \<Longrightarrow> (\<And>a. quiet (h a)) \<Longrightarrow>
     quiet (case x of HList a \<Rightarrow> f a | HStruct a \<Rightarrow> g a | HMap a \<Rightarrow> h a)"
  "\<And>a b d x. quiet a \<Longrightarrow> quiet b \<Longrightarrow> quiet d \<Longrightarrow> quiet (case x of OpOr \<Rightarrow> a | OpAnd \<Rightarrow> b | _ \<Rightarrow> d)"
  "\<And>f1 f2 f3 f4 f5 f6 f7 x. (\<And>a. quiet (f1 a)) \<Longrightarrow> (\<And>a. quiet (f2 a)) \<Longrightarrow> (\<And>a. quiet (f3 a)) \<Longrightarrow>
     (\<And>a. quiet (f4 a)) \<Longrightarrow> quiet f5 \<Longrightarrow> (\<And>a. quiet (f6 a)) \<Longrightarrow> (\<And>a b c. quiet (f7 a b c)) \<Longrightarrow>
     quiet (case x of VInt a \<Rightarrow> f1 a | VBool a \<Rightarrow> f2 a | VStr a \<Rightarrow> f3 a | VFloat a \<Rightarrow> f4 a
       | VNone \<Rightarrow> f5 | VRef a \<Rightarrow> f6 a | VEnum a b c \<Rightarrow> f7 a b c)"
  by (simp_all split: option.split sum.split list.split prod.split hobj.split binop.split val.split)

lemma quiet_prims:
  "quiet (alloc obj)" "quiet (rand_int n)" "quiet (deep_clone v)" "quiet (store v obj)"
  by (auto simp: quiet_def alloc_def rand_int_def deep_clone_def store_def ev_defs
      split: prod.splits option.splits val.splits)

lemmas quiet_rules = quiet_ret quiet_get quiet_mod quiet_bind quiet_scoped quiet_mapS quiet_if
  quiet_cases quiet_prims

lemma quiet_ops:
  "quiet (check C fl ok m)" "quiet (checked C fl r)" "quiet (strict_bin C op ov dv a b)"
  "quiet (eval_un C uop v)" "quiet (index_get C bnd l i)" "quiet (index_set l i v)"
  "quiet (field_get b f)" "quiet (field_set b f v)" "quiet (ok_value v oo ee)"
proof -
  show c: "quiet (check C fl ok m)" for C fl ok m
    unfolding check_def by (intro quiet_rules quiet_raise; simp)
  show d: "quiet (checked C fl r)" for C fl r
    unfolding checked_def by (intro quiet_rules quiet_raise; simp)
  have ar: "quiet (arith C op ov dv a b)" for C op ov dv a b
    unfolding arith_def by (cases op) (simp_all add: d quiet_raise)
  have fl: "quiet (float_arith C op a b)" for C op a b
    unfolding float_arith_def by (cases op) (simp_all add: quiet_ret quiet_raise)
  have rb: "quiet (ret_bool r)" for r
    unfolding ret_bool_def by (intro quiet_rules quiet_raise; simp)
  show "quiet (strict_bin C op ov dv a b)"
    unfolding strict_bin_def by (cases op; simp only: binop.case; intro quiet_rules rb ar fl quiet_raise; simp)
  show "quiet (eval_un C uop v)"
    unfolding eval_un_def by (cases uop; simp only: unop.case; intro quiet_rules quiet_raise; simp)
  show "quiet (index_get C bnd l i)" "quiet (index_set l i v)" "quiet (field_get b f)" "quiet (field_set b f v)"
    unfolding index_get_def index_set_def field_get_def field_set_def
    by (intro quiet_rules quiet_raise c; simp)+
  show "quiet (ok_value v oo ee)"
    by (cases "(v, oo, ee)" rule: ok_value.cases) (auto intro!: quiet_ret quiet_raise)
qed

lemma quiet_builtins: "quiet (builtin f vs)" "quiet (builtin_method C bnd op t vs)"
proof -
  have p: "quiet (lift_parse r)" for r
    unfolding lift_parse_def by (intro quiet_rules quiet_raise; simp)
  have r: "quiet (py_range a b)" for a b
    unfolding py_range_def Let_def by (intro quiet_rules quiet_raise; simp)
  have b1: "quiet (builtin1 f v)" for f v
    unfolding builtin1_def by (intro quiet_rules quiet_raise p; simp)
  have b2: "quiet (builtin2 f v w)" for f v w
    unfolding builtin2_def by (intro quiet_rules quiet_raise r; simp)
  show "quiet (builtin f vs)"
    unfolding builtin_def size_of_def builtin_str_def by (intro quiet_rules quiet_raise b1 b2; simp)
  show "quiet (builtin_method C bnd op t vs)"
    unfolding builtin_method_def str_method_def list_method_def map_method_def int_method_def
      builtin_str_def
    by (intro quiet_rules quiet_raise quiet_ops p; simp)
qed

lemma calm_quiet: "calm F e \<Longrightarrow> quiet (eval_expr C n e)"
proof (induction n arbitrary: e)
  case 0
  show ?case by (simp add: quiet_raise)
next
  case (Suc n)
  have args: "quiet (mapS (\<lambda>a. eval_expr C n a) es)" if "list_all (calm F) es" for es
    using that Suc.IH by (intro quiet_mapS) (auto simp: list_all_iff)
  note rules = Suc.IH args quiet_rules quiet_ops quiet_builtins
  show ?case
  proof (cases e)
    case (EMatch c arms)
    have "calm F b" if "select_arm en var arms = Some (bs, b)" for en var bs b
      using select_arm_in [OF that] Suc.prems EMatch by (auto simp: list_all_iff)
    moreover have "calm F c" using Suc.prems EMatch by simp
    ultimately show ?thesis
      unfolding EMatch eval_expr.simps(2) expr.case
      by (intro quiet_bind Suc.IH)
         (auto intro!: quiet_raise quiet_scoped Suc.IH split: val.split option.split prod.split)
  next
    case (ECall f rc args)
    then show ?thesis using Suc.prems unfolding eval_expr.simps(2)
      by (cases rc; simp only: expr.case callee.case) (auto simp: list_all_iff intro!: rules)
  next
    case (EMethod a f args rm bnd)
    then obtain op where rm: "rm = Builtin op" using Suc.prems by (cases rm) auto
    then have c: "calm F a" "list_all (calm F) args" using Suc.prems EMethod by simp_all
    show ?thesis
      unfolding EMethod rm eval_expr.simps(2) expr.case callee.case
      by (intro quiet_bind Suc.IH c(1) args [OF c(2)] quiet_builtins)
  qed (use Suc.prems in \<open>simp_all only: eval_expr.simps(2) expr.case calm.simps, (intro rules quiet_raise; simp)+\<close>)
qed

section \<open>The certificate\<close>

text \<open>\<open>covers I W\<close>: every state the facts \<open>W\<close> hold of is one the facts \<open>I\<close> hold of.\<close>

definition covers :: "facts \<Rightarrow> facts \<Rightarrow> bool" where
  "covers I W \<longleftrightarrow>
     list_all (\<lambda>(k, _). iv_of I k = TOP \<or> iv_contains (iv_of I k) (iv_of W k)) (ivs I) \<and>
     list_all (\<lambda>x. x \<in> set (nzs W)) (nzs I) \<and>
     list_all (\<lambda>(w, m). case map_of (minlens W) w of Some k \<Rightarrow> m \<le> k | None \<Rightarrow> False) (minlens I)"

fun decls :: "stmt \<Rightarrow> name list" where
  "decls (SLet x t e rp) = [x]"
| "decls _ = []"

text \<open>\<open>B\<close> holds the names of the enclosing scopes, \<open>D\<close> those the current block has declared.\<close>

function (sequential)
    cert_block :: "nat \<Rightarrow> name list \<Rightarrow> name list \<Rightarrow> stmt list \<Rightarrow> facts \<Rightarrow> bool"
and cert_list :: "nat \<Rightarrow> name list \<Rightarrow> name list \<Rightarrow> stmt list \<Rightarrow> facts \<Rightarrow> bool"
and cert_stmt :: "nat \<Rightarrow> name list \<Rightarrow> name list \<Rightarrow> stmt \<Rightarrow> facts \<Rightarrow> bool" where
  "cert_block d B D ss F = (d \<le> MAX_DEPTH \<and> cert_list d B D ss F)"
| "cert_list d B D [] F = True"
| "cert_list d B D (s # ss) F =
     (cert_stmt d B D s F \<and> cert_list d B (D @ decls s) ss (snd (prop_stmt d s F)))"
| "cert_stmt d B D (SLet x t e rp) F =
     (rp = None \<and> calm F e \<and> x \<notin> set B \<and> (t = ty_int \<or> x \<notin> set (nzs F)))"
| "cert_stmt d B D (SAssign (LIdent x t) e rp) F =
     (rp = None \<and> calm F e \<and> (t = ty_int \<or> x \<notin> set (nzs F)))"
| "cert_stmt d B D (SAssign (LIndex b i) e rp) F =
     (rp = None \<and> ident_name b \<noteq> None \<and> calm F e \<and> calm F i)"
| "cert_stmt d B D (SAssign (LField b f) e rp) F = (rp = None \<and> ident_name b \<noteq> None \<and> calm F e)"
| "cert_stmt d B D (SIf c th el) F =
     (calm F c \<and> cert_block (d + 1) (B @ D) [] th (drop_mutated [c] F) \<and>
      cert_block (d + 1) (B @ D) [] el (drop_mutated [c] F))"
| "cert_stmt d B D (SWhile c body) F =
     (let I = while_inv (\<lambda>G. snd (prop_block (d + 1) body G)) F
      in calm I c \<and> cert_block (d + 1) (B @ D) [] body I \<and>
         covers I (snd (prop_block (d + 1) body I)))"
| "cert_stmt d B D (stmt.SReturn (Some e)) F = calm F e"
| "cert_stmt d B D (stmt.SReturn None) F = True"
| "cert_stmt d B D (SExpr e) F = calm F e"
| "cert_stmt d B D _ F = False"
  by pat_completeness auto
termination
  by (relation "measure (case_sum (\<lambda>(d, B, D, ss, F). Suc (2 * size_list size ss))
        (case_sum (\<lambda>(d, B, D, ss, F). 2 * size_list size ss) (\<lambda>(d, B, D, s, F). 2 * size s)))") auto

section \<open>Facts under joins, invalidation and writes\<close>

lemma len_mono: "len_at_least s w k \<Longrightarrow> m \<le> k \<Longrightarrow> len_at_least s w m"
  by (auto simp: len_at_least_def split: option.splits val.splits)

text \<open>Facts that say less.\<close>

lemma facts_weaken:
  assumes F: "facts_ok F s"
    and iv: "\<And>x n. iv_has (len_at_least s) (iv_of F x) n \<Longrightarrow> iv_has (len_at_least s) (iv_of F' x) n"
    and nz: "\<And>x. x \<in> set (nzs F') \<Longrightarrow> x \<in> set (nzs F)"
    and ml: "\<And>w m. map_of (minlens F') w = Some m \<Longrightarrow> \<exists>k. map_of (minlens F) w = Some k \<and> m \<le> k"
  shows "facts_ok F' s"
  unfolding facts_ok_def
proof (intro conjI allI impI)
  fix x n assume "lookup (env s) x = Some (VInt n)"
  then have "iv_has (len_at_least s) (iv_of F x) n" "x \<in> set (nzs F) \<longrightarrow> n \<noteq> 0"
    using F by (auto simp: facts_ok_def)
  then show "iv_has (len_at_least s) (iv_of F' x) n" "x \<in> set (nzs F') \<Longrightarrow> n \<noteq> 0"
    using iv nz by auto
next
  fix w m assume "map_of (minlens F') w = Some m"
  then obtain k where "map_of (minlens F) w = Some k" "m \<le> k" using ml by blast
  moreover from this have "len_at_least s w k" using F by (simp add: facts_ok_def)
  ultimately show "len_at_least s w m" using len_mono by blast
qed

lemma covers_ok:
  assumes c: "covers I W" and W: "facts_ok W s"
  shows "facts_ok I s"
proof (rule facts_weaken [OF W])
  fix x n assume x: "iv_has (len_at_least s) (iv_of W x) n"
  have "iv_of I x = TOP \<or> iv_contains (iv_of I x) (iv_of W x)"
  proof (cases "map_of (ivs I) x")
    case None
    then show ?thesis by (simp add: iv_of_def)
  next
    case (Some iv)
    then have "(x, iv) \<in> set (ivs I)" by (rule map_of_SomeD)
    then show ?thesis using c by (auto simp: covers_def list_all_iff)
  qed
  then show "iv_has (len_at_least s) (iv_of I x) n" using x contains_sound by auto
next
  fix x assume "x \<in> set (nzs I)"
  then show "x \<in> set (nzs W)" using c by (auto simp: covers_def list_all_iff)
next
  fix w m assume "map_of (minlens I) w = Some m"
  then have "(w, m) \<in> set (minlens I)" by (rule map_of_SomeD)
  then show "\<exists>k. map_of (minlens W) w = Some k \<and> m \<le> k"
    using c by (auto simp: covers_def list_all_iff split: option.splits)
qed

lemma map_of_concat_keyed:
  "map_of (concat (map (\<lambda>k. case f k of Some v \<Rightarrow> [(k, v)] | None \<Rightarrow> []) ks)) k =
   (if k \<in> set ks then f k else None)"
  by (induction ks) (auto split: option.splits)

lemma keys2_set: "map_of a k \<noteq> None \<or> map_of b k \<noteq> None \<Longrightarrow> k \<in> set (keys2 a b)"
  by (auto simp: keys2_def map_of_None_keys)

lemma join_iv: "iv_of (join_facts a b) x =
   (case (map_of (ivs a) x, map_of (ivs b) x) of (Some i, Some j) \<Rightarrow> iv_widen i j | _ \<Rightarrow> TOP)"
  using keys2_set [of "ivs a" x "ivs b"]
  by (cases "map_of (ivs a) x"; cases "map_of (ivs b) x")
     (auto simp: iv_of_def join_facts_def map_of_keyed split: if_splits)

lemma join_minlen: "map_of (minlens (join_facts a b)) w = Some m \<Longrightarrow>
   \<exists>i j. map_of (minlens a) w = Some i \<and> map_of (minlens b) w = Some j \<and> m = min i j"
proof -
  have "minlens (join_facts a b) = concat (map (\<lambda>k. case (case (map_of (minlens a) k, map_of (minlens b) k)
      of (Some m, Some n) \<Rightarrow> Some (min m n) | _ \<Rightarrow> None) of Some v \<Rightarrow> [(k, v)] | None \<Rightarrow> [])
      (keys2 (minlens a) (minlens b)))"
    by (auto simp: join_facts_def intro!: arg_cong [where f = concat] split: option.splits)
  then show "map_of (minlens (join_facts a b)) w = Some m \<Longrightarrow>
      \<exists>i j. map_of (minlens a) w = Some i \<and> map_of (minlens b) w = Some j \<and> m = min i j"
    by (auto simp: map_of_concat_keyed split: if_splits option.splits)
qed

lemma join_nzs: "x \<in> set (nzs (join_facts a b)) \<longleftrightarrow> x \<in> set (nzs a) \<and> x \<in> set (nzs b)"
  by (auto simp: join_facts_def)

lemma join_has1: "iv_has L (iv_of a x) n \<Longrightarrow> iv_has L (iv_of (join_facts a b) x) n"
  unfolding join_iv by (auto simp: iv_of_def intro: widen_sound1 split: option.splits)

lemma join_has2: "iv_has L (iv_of b x) n \<Longrightarrow> iv_has L (iv_of (join_facts a b) x) n"
  unfolding join_iv by (auto simp: iv_of_def intro: widen_sound2 split: option.splits)

lemma join_ok1: "facts_ok a s \<Longrightarrow> facts_ok (join_facts a b) s"
  by (rule facts_weaken [of a]) (auto simp: join_nzs join_has1 dest: join_minlen)

lemma join_ok2: "facts_ok b s \<Longrightarrow> facts_ok (join_facts a b) s"
  by (rule facts_weaken [of b]) (auto simp: join_nzs join_has2 dest: join_minlen)

lemma drop_owner_iv: "iv_of (drop_owner w F) x =
   (case iv_hi (iv_of F x) of Len v d \<Rightarrow>
      if v = w then Iv (numeric_bound (iv_lo (iv_of F x))) Unknown else iv_of F x
    | _ \<Rightarrow> iv_of F x)"
  by (simp add: iv_of_def drop_owner_def map_of_map_snd TOP_def split: option.splits bound.splits)

lemma drop_owner_sel [simp]: "nzs (drop_owner w F) = nzs F"
  "map_of (minlens (drop_owner w F)) v = (if v = w then None else map_of (minlens F) v)"
  by (simp_all add: drop_owner_def map_of_filter_fst)

lemma drop_owner_ok: "facts_ok F s \<Longrightarrow> facts_ok (drop_owner w F) s"
  by (erule facts_weaken)
     (auto simp: drop_owner_iv iv_has_defs numeric_bound_def split: bound.splits if_splits)

lemma drop_mutated_ok: "facts_ok F s \<Longrightarrow> facts_ok (drop_mutated es F) s"
proof -
  have "facts_ok F s \<Longrightarrow> facts_ok (fold drop_owner ws F) s" for ws
    by (induction ws arbitrary: F) (auto intro: drop_owner_ok)
  then show "facts_ok F s \<Longrightarrow> facts_ok (drop_mutated es F) s" by (simp add: drop_mutated_def)
qed

text \<open>After \<open>drop_owner w\<close> nothing is said in terms of the length of \<open>w\<close>.\<close>

definition free_of :: "name \<Rightarrow> facts \<Rightarrow> bool" where
  "free_of w F \<longleftrightarrow> map_of (minlens F) w = None \<and> (\<forall>x d. iv_hi (iv_of F x) \<noteq> Len w d)"

lemma drop_owner_free: "free_of w (drop_owner w F)"
  by (auto simp: free_of_def drop_owner_iv split: bound.splits)

lemma interval_free: "free_of w F \<Longrightarrow> iv_hi (expr_interval F e) \<noteq> Len w d"
  by (induction e rule: expr_interval.induct)
     (auto simp: free_of_def iv_const_def TOP_def iv_neg_def b_neg_def iv_add_def iv_sub_def iv_mul_def
        b_op_def Let_def numeric_bound_def split: binop.splits bound.splits interval.splits)

lemma iv_has_free:
  assumes "\<And>w j. w \<noteq> x \<Longrightarrow> L w j \<Longrightarrow> L' w j" and "\<And>d. iv_hi iv \<noteq> Len x d" and "iv_has L iv n"
  shows "iv_has L' iv n"
  using assms by (cases "iv_hi iv") (auto simp: iv_has_def hi_ok_def)

text \<open>A write to \<open>x\<close>: the state \<open>s'\<close> has the new value of \<open>x\<close> and every other name as in \<open>s\<close>.\<close>

lemma write_ok:
  assumes F: "facts_ok F s" and v: "eval_expr C n e s0 = (Inr v, s)" and F0: "facts_ok F s0"
    and look: "\<And>y. y \<noteq> x \<Longrightarrow> lookup (env s') y = lookup (env s) y" "lookup (env s') x = Some v"
    and hp: "heap s' = heap s" and ty: "t = ty_int \<or> x \<notin> set (nzs F)"
    and st: "env s = env s0" "heap_le s0 s"
  shows "facts_ok (write_var x t e F) s'"
proof -
  define G where "G = drop_owner x (F\<lparr>nzs := removeAll x (nzs F)\<rparr>)"
  have weak: "facts_ok (F\<lparr>nzs := removeAll x (nzs F)\<rparr>) u" if "facts_ok F u" for u
    using that by (rule facts_weaken) (auto simp: iv_of_def)
  have G0: "facts_ok G s0" and G: "facts_ok G s"
    unfolding G_def using F F0 weak drop_owner_ok by auto
  have free: "free_of x G" unfolding G_def by (rule drop_owner_free)
  have len: "len_at_least s' w j" if "w \<noteq> x" "len_at_least s w j" for w j
    using that look(1) [OF that(1)] hp by (simp add: len_at_least_def cong: option.case_cong val.case_cong)
  have xfer: "iv_has (len_at_least s') iv k"
    if "iv_has (len_at_least s) iv k" "\<And>d. iv_hi iv \<noteq> Len x d" for iv k
    by (rule iv_has_free [where L = "len_at_least s" and x = x]) (use len that in auto)
  have other: "iv_has (len_at_least s') (iv_of H y) k \<and> (y \<in> set (nzs H) \<longrightarrow> k \<noteq> 0)"
    if "facts_ok H s" "free_of x H" "y \<noteq> x" "lookup (env s') y = Some (VInt k)" for H y k
    using that look(1) [OF that(3)] xfer [of "iv_of H y" k] by (simp add: facts_ok_def free_of_def)
  have mine: "iv_has (len_at_least s') (expr_interval G e) k" if "v = VInt k" for k
  proof -
    have "iv_has (len_at_least s0) (expr_interval G e) k"
      using interval_sound [OF G0] v that by blast
    then have "iv_has (len_at_least s) (expr_interval G e) k"
      using len_stable [OF st] by (rule iv_has_mono [rotated])
    then show ?thesis using xfer interval_free [OF free] by blast
  qed
  have ml: "len_at_least s' w m"
    if "facts_ok H s" "free_of x H" "map_of (minlens H) w = Some m" for H w m
  proof -
    have "w \<noteq> x" using that by (auto simp: free_of_def)
    then show ?thesis using that len [of w] by (simp add: facts_ok_def)
  qed
  have nx: "x \<notin> set (nzs G)" by (simp add: G_def)
  show ?thesis
  proof (cases "t = ty_int")
    case True
    have "facts_ok (set_iv x (expr_interval G e) G) s'"
      unfolding facts_ok_def using other [OF G free] mine ml [OF G free] nx look(2)
      by (auto simp: iv_of_set)
    then show ?thesis using True by (simp add: write_var_def G_def Let_def)
  next
    case False
    define H where "H = drop_owner x (del_iv x F)"
    have H: "facts_ok H s"
      unfolding H_def using F
      by (intro drop_owner_ok, elim facts_weaken) (auto simp: del_iv_def iv_of_def delete_conv)
    have fH: "free_of x H" unfolding H_def by (rule drop_owner_free)
    have "facts_ok H s'"
      unfolding facts_ok_def
    proof (intro conjI allI impI)
      fix y k assume y: "lookup (env s') y = Some (VInt k)"
      show "iv_has (len_at_least s') (iv_of H y) k"
      proof (cases "y = x")
        case True
        have "iv_of H x = TOP"
          by (simp only: H_def drop_owner_iv) (simp add: del_iv_def iv_of_def delete_conv TOP_def)
        then show ?thesis using True by simp
      next
        case False
        then show ?thesis using other [OF H fH _ y] by blast
      qed
      show "k \<noteq> 0" if "y \<in> set (nzs H)"
      proof -
        have "nzs H = nzs F" by (simp add: H_def del_iv_def)
        then have "y \<noteq> x" using that ty False by auto
        then show ?thesis using other [OF H fH _ y] that by blast
      qed
    next
      fix w m assume "map_of (minlens H) w = Some m"
      then show "len_at_least s' w m" using ml [OF H fH] by blast
    qed
    then show ?thesis using False by (simp add: write_var_def H_def)
  qed
qed

section \<open>Statements\<close>

definition scope_ok :: "name list \<Rightarrow> name list \<Rightarrow> ist \<Rightarrow> bool" where
  "scope_ok B D s \<longleftrightarrow>
     (\<exists>sc E. env s = sc # E \<and> dom sc \<subseteq> set D \<and> (\<forall>x. lookup E x \<noteq> None \<longrightarrow> x \<in> set B) \<and>
        (\<forall>x \<in> dom sc. lookup E x = None))"

text \<open>The outer scopes bind the same names.\<close>

definition same_outer :: "ist \<Rightarrow> ist \<Rightarrow> bool" where
  "same_outer s s' \<longleftrightarrow> map dom (tl (env s')) = map dom (tl (env s))"

lemma lookup_dom: "map dom E = map dom E' \<Longrightarrow> (lookup E x = None) = (lookup E' x = None)"
proof (induction E arbitrary: E')
  case (Cons sc E)
  then obtain sc' F where "E' = sc' # F" "dom sc = dom sc'" "map dom E = map dom F" by (cases E') auto
  then show ?case using Cons.IH [of F] by (auto split: option.splits)
qed simp

lemma lookup_bind: "lookup (bind_var (sc # E) x v) y = (if y = x then Some v else lookup (sc # E) y)"
  by simp

lemma lookup_update:
  "lookup E x \<noteq> None \<Longrightarrow> lookup (update_var E x v) y = (if y = x then Some v else lookup E y)"
  by (induction E) (auto split: option.splits)

lemma dom_update: "map dom (update_var E x v) = map dom E"
  by (induction E) auto

text \<open>What the two runs of a statement, elided and checked, have in common from a state.\<close>

definition agree :: "facts \<Rightarrow> name list \<Rightarrow> name list \<Rightarrow> unit ev \<Rightarrow> unit ev \<Rightarrow> ist \<Rightarrow> bool" where
  "agree F B D m m' s \<longleftrightarrow>
     m s = m' s \<and> fst (m' s) \<noteq> Inl sig.SBreak \<and> fst (m' s) \<noteq> Inl sig.SContinue \<and>
     (\<forall>s'. m' s = (Inr (), s') \<longrightarrow> facts_ok F s' \<and> scope_ok B D s' \<and> same_outer s s')"

lemma same_outer_refl: "same_outer s s"
  by (simp add: same_outer_def)

lemma same_outer_trans: "same_outer s t \<Longrightarrow> same_outer t u \<Longrightarrow> same_outer s u"
  by (simp add: same_outer_def)

lemma scope_env: "scope_ok B D s \<Longrightarrow> env s' = env s \<Longrightarrow> scope_ok B D s'"
  by (simp add: scope_ok_def)

lemma agree_bind:
  assumes e: "m s = m' s" and q: "quiet m'"
    and k: "\<And>v s1. m' s = (Inr v, s1) \<Longrightarrow> same_outer s s1 \<and> agree F B D (f v) (f' v) s1"
  shows "agree F B D (bindS m f) (bindS m' f') s"
proof (cases "m' s")
  case (Pair r s1)
  show ?thesis
  proof (cases r)
    case (Inl sg)
    then show ?thesis
      using Pair e q [unfolded quiet_def, rule_format, of s] by (simp add: agree_def bindS_def)
  next
    case (Inr v)
    then show ?thesis using Pair e k [of v s1] same_outer_trans
      by (auto simp: agree_def bindS_def)
  qed
qed

lemma agree_eval:
  assumes F: "facts_ok F s" and c: "calm F e" and sc: "scope_ok B D s"
    and k: "\<And>v s1. eval_expr (checked_ctx C) n e s = (Inr v, s1) \<Longrightarrow> facts_ok F s1 \<Longrightarrow>
      scope_ok B D s1 \<Longrightarrow> env s1 = env s \<Longrightarrow> heap_le s s1 \<Longrightarrow> agree G B' D' (f v) (f' v) s1"
    and m: "m s = eval_expr (checked_ctx C) n e s"
  shows "agree G B' D' (bindS m f) (bindS (eval_expr (checked_ctx C) n e) f') s"
proof (rule agree_bind, rule m, rule calm_quiet [OF c])
  fix v s1 assume ev: "eval_expr (checked_ctx C) n e s = (Inr v, s1)"
  have en: "env s1 = env s" by (rule eval_keeps_env [OF ev])
  show "same_outer s s1 \<and> agree G B' D' (f v) (f' v) s1"
    using k [OF ev calm_step [OF c F ev] scope_env [OF sc en] en] hl.presD [OF calm_heap [OF c] ev] en
    by (simp add: same_outer_def)
qed

lemma agree_done: "facts_ok F s \<Longrightarrow> scope_ok B D s \<Longrightarrow> agree F B D (ret ()) (ret ()) s"
  by (simp add: agree_def ret_def same_outer_refl)

lemma agree_raise: "e \<noteq> sig.SBreak \<Longrightarrow> e \<noteq> sig.SContinue \<Longrightarrow> agree F B D (raise e) (raise e) s"
  by (simp add: agree_def raise_def)

text \<open>Leaving a scope forgets names, and keeps what is said of the others.\<close>

lemma facts_pop:
  assumes F: "facts_ok F s" and e: "env s = sc # E" and d: "\<And>x. x \<in> dom sc \<Longrightarrow> lookup E x = None"
  shows "facts_ok F (s\<lparr>env := E\<rparr>)"
proof -
  have look: "lookup (env s) x = Some v" if "lookup E x = Some v" for x v
    using that d [of x] e by (auto split: option.splits)
  have len: "len_at_least (s\<lparr>env := E\<rparr>) w j" if "len_at_least s w j" for w j
    using that look [of w] by (auto simp: len_at_least_def split: option.splits val.splits)
  have iv: "iv_has (len_at_least (s\<lparr>env := E\<rparr>)) iv n" if "iv_has (len_at_least s) iv n" for iv n
    using iv_has_mono len that by blast
  show ?thesis
    unfolding facts_ok_def
  proof (intro conjI allI impI)
    fix x n assume "lookup (env (s\<lparr>env := E\<rparr>)) x = Some (VInt n)"
    then have "lookup (env s) x = Some (VInt n)" using look by simp
    then have h: "iv_has (len_at_least s) (iv_of F x) n" "x \<in> set (nzs F) \<longrightarrow> n \<noteq> 0"
      using F unfolding facts_ok_def by blast+
    show "iv_has (len_at_least (s\<lparr>env := E\<rparr>)) (iv_of F x) n" by (rule iv [OF h(1)])
    show "n \<noteq> 0" if "x \<in> set (nzs F)" using h(2) that by blast
  next
    fix w m assume "map_of (minlens F) w = Some m"
    then show "len_at_least (s\<lparr>env := E\<rparr>) w m" using F len unfolding facts_ok_def by blast
  qed
qed

lemma agree_block:
  assumes F: "facts_ok F s" and sc: "scope_ok B D s"
    and body: "\<And>s0. facts_ok F s0 \<Longrightarrow> scope_ok (B @ D) [] s0 \<Longrightarrow> agree W (B @ D) D' m m' s0"
  shows "agree W B D (scoped Map.empty m) (scoped Map.empty m') s"
proof -
  obtain sc0 E where e: "env s = sc0 # E" "dom sc0 \<subseteq> set D" "\<forall>x. lookup E x \<noteq> None \<longrightarrow> x \<in> set B"
    "\<forall>x\<in>dom sc0. lookup E x = None" using sc by (auto simp: scope_ok_def)
  define s0 where "s0 = s\<lparr>env := Map.empty # env s\<rparr>"
  have "facts_ok F s0" unfolding s0_def by (rule facts_scope [OF F]) simp
  moreover have "scope_ok (B @ D) [] s0"
    using e by (auto simp: scope_ok_def s0_def split: option.splits)
  ultimately have a: "agree W (B @ D) D' m m' s0" by (rule body)
  have "facts_ok W (s1\<lparr>env := tl (env s1)\<rparr>) \<and> scope_ok B D (s1\<lparr>env := tl (env s1)\<rparr>) \<and>
      same_outer s (s1\<lparr>env := tl (env s1)\<rparr>)" if "m' s0 = (Inr (), s1)" for s1
  proof -
    have h: "facts_ok W s1" "scope_ok (B @ D) D' s1" "same_outer s0 s1" using a that by (auto simp: agree_def)
    obtain sc1 E1 where e1: "env s1 = sc1 # E1" "\<forall>x\<in>dom sc1. lookup E1 x = None"
      using h(2) by (auto simp: scope_ok_def)
    have d: "map dom E1 = map dom (sc0 # E)" using h(3) e1 e by (simp add: same_outer_def s0_def)
    then obtain sc2 E2 where e2: "E1 = sc2 # E2" "dom sc2 = dom sc0" "map dom E2 = map dom E"
      by (cases E1) auto
    have "\<forall>x. lookup E2 x \<noteq> None \<longrightarrow> x \<in> set B" using e(3) by (simp add: lookup_dom [OF e2(3)])
    moreover have "\<forall>x\<in>dom sc2. lookup E2 x = None" using e(4) e2(2) by (simp add: lookup_dom [OF e2(3)])
    ultimately have "scope_ok B D (s1\<lparr>env := E1\<rparr>)"
      unfolding scope_ok_def using e(2) e2(1,2) by auto
    moreover have "facts_ok W (s1\<lparr>env := E1\<rparr>)" using facts_pop [OF h(1) e1(1)] e1(2) by blast
    ultimately show ?thesis using e1 e2 e by (simp add: same_outer_def)
  qed
  then show ?thesis
    using a by (auto simp: agree_def scoped_def s0_def [symmetric] split: prod.splits)
qed

text \<open>The invariant of a loop holds on entry.\<close>

lemma widen_facts_iv: "iv_of (widen_facts f1 f2) x =
   (case map_of (ivs f2) x of None \<Rightarrow> TOP
    | Some v \<Rightarrow> (case map_of (ivs f1) x of Some v1 \<Rightarrow> widen_growth v1 v | None \<Rightarrow> v))"
  by (simp add: iv_of_def widen_facts_def map_of_map_snd split: option.split)

lemma widen_facts_ok:
  assumes "facts_ok f1 s" and "facts_ok f2 s" shows "facts_ok (widen_facts f1 f2) s"
proof -
  have "iv_has (len_at_least s) (iv_of (widen_facts f1 f2) x) n"
    if "iv_has (len_at_least s) (iv_of f1 x) n" "iv_has (len_at_least s) (iv_of f2 x) n" for x n
    using that unfolding widen_facts_iv by (auto simp: iv_of_def growth_sound split: option.splits)
  moreover have "nzs (widen_facts f1 f2) = nzs f2" "minlens (widen_facts f1 f2) = minlens f2"
    by (simp_all add: widen_facts_def)
  ultimately show ?thesis using assms unfolding facts_ok_def by simp
qed

lemma top_all_iv: "iv_of (top_all ks F) x = (if x \<in> set ks then TOP else iv_of F x)"
  by (simp add: iv_of_def top_all_def map_of_map_snd split: option.split)

lemma top_all_ok: "facts_ok F s \<Longrightarrow> facts_ok (top_all ks F) s"
  by (rule facts_weaken [of F]) (auto simp: top_all_iv, auto simp: top_all_def)

lemma verify_rounds_ok: "facts_ok I s \<Longrightarrow> facts_ok (verify_rounds n body I) s"
  by (induction n arbitrary: I) (auto simp: Let_def top_all_ok)

lemma while_inv_ok: "facts_ok F s \<Longrightarrow> facts_ok (while_inv body F) s"
  by (simp add: while_inv_def Let_def verify_rounds_ok widen_facts_ok join_ok1)

section \<open>Runs of statements\<close>

text \<open>The induction over the nesting bound: what holds of every statement and of every loop.\<close>

definition stmts_agree :: "ctx \<Rightarrow> nat \<Rightarrow> bool" where
  "stmts_agree C n \<longleftrightarrow> (\<forall>d B D st F s. cert_stmt d B D st F \<longrightarrow> facts_ok F s \<longrightarrow> scope_ok B D s \<longrightarrow>
     agree (snd (prop_stmt d st F)) B (D @ decls st)
       (exec_stmt (elided_ctx C) n (fst (prop_stmt d st F))) (exec_stmt (checked_ctx C) n st) s)"

definition loops_agree :: "ctx \<Rightarrow> nat \<Rightarrow> bool" where
  "loops_agree C n \<longleftrightarrow> (\<forall>d B D c body I s. calm I c \<longrightarrow> cert_block (d + 1) (B @ D) [] body I \<longrightarrow>
     covers I (snd (prop_block (d + 1) body I)) \<longrightarrow> facts_ok I s \<longrightarrow> scope_ok B D s \<longrightarrow>
     agree I B D (exec_while (elided_ctx C) n (annot I c) (fst (prop_block (d + 1) body I)))
       (exec_while (checked_ctx C) n c body) s)"

lemma list_agree:
  assumes IH: "stmts_agree C n"
  shows "cert_list d B D ss F \<Longrightarrow> facts_ok F s \<Longrightarrow> scope_ok B D s \<Longrightarrow>
    agree (snd (prop_list d ss F)) B (D @ concat (map decls ss))
      (iterS (\<lambda>x. exec_stmt (elided_ctx C) n x) (fst (prop_list d ss F)))
      (iterS (\<lambda>x. exec_stmt (checked_ctx C) n x) ss) s"
proof (induction ss arbitrary: D F s)
  case Nil
  then show ?case by (simp add: agree_done)
next
  case (Cons st ss)
  define F1 where "F1 = snd (prop_stmt d st F)"
  let ?m = "exec_stmt (elided_ctx C) n (fst (prop_stmt d st F))" and ?m' = "exec_stmt (checked_ctx C) n st"
  have c: "cert_stmt d B D st F" "cert_list d B (D @ decls st) ss F1" using Cons.prems(1) by (simp_all add: F1_def)
  have a: "agree F1 B (D @ decls st) ?m ?m' s"
    using IH c(1) Cons.prems(2,3) by (simp add: stmts_agree_def F1_def)
  have "agree (snd (prop_list d ss F1)) B (D @ concat (map decls (st # ss)))
      (bindS ?m (\<lambda>_. iterS (\<lambda>x. exec_stmt (elided_ctx C) n x) (fst (prop_list d ss F1))))
      (bindS ?m' (\<lambda>_. iterS (\<lambda>x. exec_stmt (checked_ctx C) n x) ss)) s"
  proof (cases "?m' s")
    case (Pair r s1)
    show ?thesis
    proof (cases r)
      case (Inl sg)
      then show ?thesis using Pair a by (simp add: agree_def bindS_def)
    next
      case (Inr u)
      then have h: "facts_ok F1 s1" "scope_ok B (D @ decls st) s1" "same_outer s s1" "?m s = (Inr (), s1)"
        using Pair a by (auto simp: agree_def)
      have "agree (snd (prop_list d ss F1)) B ((D @ decls st) @ concat (map decls ss))
          (iterS (\<lambda>x. exec_stmt (elided_ctx C) n x) (fst (prop_list d ss F1)))
          (iterS (\<lambda>x. exec_stmt (checked_ctx C) n x) ss) s1"
        by (rule Cons.IH [OF c(2) h(1,2)])
      then show ?thesis using Pair Inr h(3,4) same_outer_trans by (auto simp: agree_def bindS_def)
    qed
  qed
  then show ?case by (simp add: F1_def case_prod_beta)
qed

lemma block_agree:
  assumes IH: "stmts_agree C n" and c: "cert_block d (B @ D) [] ss F"
    and F: "facts_ok F s" and sc: "scope_ok B D s"
  shows "agree (snd (prop_block d ss F)) B D
    (scoped Map.empty (iterS (\<lambda>x. exec_stmt (elided_ctx C) n x) (fst (prop_block d ss F))))
    (scoped Map.empty (iterS (\<lambda>x. exec_stmt (checked_ctx C) n x) ss)) s"
proof -
  have d: "d \<le> MAX_DEPTH" "cert_list d (B @ D) [] ss F" using c by auto
  then have p: "prop_block d ss F = prop_list d ss F" by simp
  show ?thesis
    unfolding p using list_agree [OF IH d(2)] by (intro agree_block [OF F sc]) simp
qed

lemma agree_weaken:
  "agree W B D m m' s \<Longrightarrow> (\<And>s. facts_ok W s \<Longrightarrow> facts_ok F s) \<Longrightarrow> agree F B D m m' s"
  by (auto simp: agree_def)

lemma loop_step:
  assumes IH: "stmts_agree C n" and IHW: "loops_agree C n"
  shows "loops_agree C (Suc n)"
  unfolding loops_agree_def
proof (intro allI impI)
  fix d B D c body I s
  assume h: "calm I c" "cert_block (d + 1) (B @ D) [] body I"
    "covers I (snd (prop_block (d + 1) body I))" "facts_ok I s" "scope_ok B D s"
  let ?W = "snd (prop_block (d + 1) body I)"
  let ?b = "scoped Map.empty (iterS (\<lambda>x. exec_stmt (elided_ctx C) n x) (fst (prop_block (d + 1) body I)))"
  let ?b' = "scoped Map.empty (iterS (\<lambda>x. exec_stmt (checked_ctx C) n x) body)"
  let ?w = "exec_while (elided_ctx C) n (annot I c) (fst (prop_block (d + 1) body I))"
  let ?w' = "exec_while (checked_ctx C) n c body"
  let ?k = "\<lambda>w r. case r of Inr _ \<Rightarrow> w | Inl sig.SContinue \<Rightarrow> w | Inl sig.SBreak \<Rightarrow> ret () | Inl sg \<Rightarrow> raise sg"
  have loop: "agree I B D ?w ?w' s1" if "facts_ok I s1" "scope_ok B D s1" for s1
    using IHW h(1-3) that by (simp add: loops_agree_def)
  have round: "agree I B D (on_result ?b (?k ?w)) (on_result ?b' (?k ?w')) s1"
    if "facts_ok I s1" "scope_ok B D s1" for s1
  proof -
    have a: "agree ?W B D ?b ?b' s1" by (rule block_agree [OF IH h(2) that])
    obtain r s2 where r: "?b' s1 = (r, s2)" by (cases "?b' s1")
    show ?thesis
    proof (cases r)
      case (Inl sg)
      then have "sg \<noteq> sig.SBreak" "sg \<noteq> sig.SContinue" using a r by (auto simp: agree_def)
      then have "on_result ?b' (?k ?w') s1 = (Inl sg, s2)" "on_result ?b (?k ?w) s1 = (Inl sg, s2)"
        using a r Inl by (cases sg; simp add: agree_def on_result_def raise_def)+
      then show ?thesis using \<open>sg \<noteq> sig.SBreak\<close> \<open>sg \<noteq> sig.SContinue\<close> by (simp add: agree_def)
    next
      case (Inr u)
      then have s2: "facts_ok ?W s2" "scope_ok B D s2" "same_outer s1 s2" using a r by (auto simp: agree_def)
      then have "agree I B D ?w ?w' s2" using loop covers_ok [OF h(3)] by blast
      then show ?thesis using a r Inr s2(3) same_outer_trans by (auto simp: agree_def on_result_def)
    qed
  qed
  show "agree I B D (exec_while (elided_ctx C) (Suc n) (annot I c) (fst (prop_block (d + 1) body I)))
      (exec_while (checked_ctx C) (Suc n) c body) s"
    unfolding exec_while.simps(2)
  proof (rule agree_eval [OF h(4,1,5)])
    show "eval_expr (elided_ctx C) n (annot I c) s = eval_expr (checked_ctx C) n c s"
      by (rule annot_elide [OF h(4,1)])
    fix v s1 assume s1: "facts_ok I s1" "scope_ok B D s1"
    show "agree I B D
        (bindS getS (\<lambda>s. if truthy (elided_ctx C) s v then on_result ?b (?k ?w) else ret ()))
        (bindS getS (\<lambda>s. if truthy (checked_ctx C) s v then on_result ?b' (?k ?w') else ret ())) s1"
      using round [OF s1] agree_done [OF s1] by (auto simp: bindS_def getS_def agree_def)
  qed
qed

text \<open>Writes: the state after a \<open>let\<close> or an assignment to a variable.\<close>

lemma let_agree:
  assumes F: "facts_ok F s" and sc: "scope_ok B D s" and c: "cert_stmt d B D (SLet x t e rp) F"
  shows "agree (snd (prop_stmt d (SLet x t e rp) F)) B (D @ [x])
    (exec_stmt (elided_ctx C) (Suc n) (fst (prop_stmt d (SLet x t e rp) F)))
    (exec_stmt (checked_ctx C) (Suc n) (SLet x t e rp)) s"
proof -
  have h: "rp = None" "calm F e" "x \<notin> set B" "t = ty_int \<or> x \<notin> set (nzs F)" using c by auto
  let ?G = "drop_mutated [e] F"
  have G: "\<And>u. facts_ok F u \<Longrightarrow> facts_ok ?G u" by (rule drop_mutated_ok)
  have nz: "nzs ?G = nzs F"
  proof -
    have "nzs (fold drop_owner ws F) = nzs F" for ws by (induction ws arbitrary: F) auto
    then show ?thesis by (simp add: drop_mutated_def)
  qed
  show ?thesis
    unfolding prop_stmt.simps fst_conv snd_conv exec_stmt.simps(2) stmt.case h(1) option.case
  proof (rule agree_eval [OF F h(2) sc])
    show "eval_expr (elided_ctx C) n (annot F e) s = eval_expr (checked_ctx C) n e s"
      by (rule annot_elide [OF F h(2)])
    fix v s1
    assume ev: "eval_expr (checked_ctx C) n e s = (Inr v, s1)" and s1: "facts_ok F s1" "scope_ok B D s1"
      "env s1 = env s" "heap_le s s1"
    obtain c0 E where e: "env s1 = c0 # E" "dom c0 \<subseteq> set D" "\<forall>x. lookup E x \<noteq> None \<longrightarrow> x \<in> set B"
      "\<forall>x\<in>dom c0. lookup E x = None" using s1(2) by (auto simp: scope_ok_def)
    define s2 where "s2 = s1\<lparr>env := bind_var (env s1) x v\<rparr>"
    have "facts_ok (write_var x t e ?G) s2"
      using e(1) s1(3,4) h(4) nz G F s1(1) by (intro write_ok [OF _ ev]) (auto simp: s2_def)
    moreover have "scope_ok B (D @ [x]) s2"
      using e h(3) by (auto simp: scope_ok_def s2_def)
    moreover have "same_outer s1 s2" using e(1) by (simp add: same_outer_def s2_def)
    ultimately show "agree (write_var x t e ?G) B (D @ [x])
        (bindS (ret ()) (\<lambda>_. modS (\<lambda>s. s\<lparr>env := bind_var (env s) x v\<rparr>)))
        (bindS (ret ()) (\<lambda>_. modS (\<lambda>s. s\<lparr>env := bind_var (env s) x v\<rparr>))) s1"
      by (simp add: agree_def bindS_def ret_def modS_def s2_def)
  qed
qed

lemma assign_var_agree:
  assumes F: "facts_ok F s" and sc: "scope_ok B D s" and c: "cert_stmt d B D (SAssign (LIdent x t) e rp) F"
  shows "agree (snd (prop_stmt d (SAssign (LIdent x t) e rp) F)) B D
    (exec_stmt (elided_ctx C) (Suc n) (fst (prop_stmt d (SAssign (LIdent x t) e rp) F)))
    (exec_stmt (checked_ctx C) (Suc n) (SAssign (LIdent x t) e rp)) s"
proof -
  have h: "rp = None" "calm F e" "t = ty_int \<or> x \<notin> set (nzs F)" using c by auto
  let ?G = "drop_mutated [e] F"
  have G: "\<And>u. facts_ok F u \<Longrightarrow> facts_ok ?G u" by (rule drop_mutated_ok)
  have nz: "nzs ?G = nzs F"
  proof -
    have "nzs (fold drop_owner ws F) = nzs F" for ws by (induction ws arbitrary: F) auto
    then show ?thesis by (simp add: drop_mutated_def)
  qed
  show ?thesis
    unfolding prop_stmt.simps fst_conv snd_conv exec_stmt.simps(2) stmt.case h(1) option.case
  proof (rule agree_eval [OF F h(2) sc])
    show "eval_expr (elided_ctx C) n (annot F e) s = eval_expr (checked_ctx C) n e s"
      by (rule annot_elide [OF F h(2)])
    fix v s1
    assume ev: "eval_expr (checked_ctx C) n e s = (Inr v, s1)" and s1: "facts_ok F s1" "scope_ok B D s1"
      "env s1 = env s" "heap_le s s1"
    show "agree (write_var x t e ?G) B D
        (bindS (ret ()) (\<lambda>_. assign_to (elided_ctx C) n (LIdent x t) v))
        (bindS (ret ()) (\<lambda>_. assign_to (checked_ctx C) n (LIdent x t) v)) s1"
    proof (cases n)
      case 0
      then show ?thesis by (simp add: agree_def bindS_def ret_def raise_def)
    next
      case (Suc m)
      show ?thesis
      proof (cases "lookup (env s1) x")
        case None
        then show ?thesis using Suc
          by (simp add: agree_def bindS_def ret_def raise_def assign_to.simps(2) getS_def)
      next
        case (Some old)
        define s2 where "s2 = s1\<lparr>env := update_var (env s1) x v\<rparr>"
        have "facts_ok (write_var x t e ?G) s2"
          using Some s1(3,4) h(3) nz G F s1(1)
          by (intro write_ok [OF _ ev]) (auto simp: s2_def lookup_update)
        moreover have d: "map dom (env s2) = map dom (env s1)" by (simp add: s2_def dom_update)
        moreover have "scope_ok B D s2"
        proof -
          obtain c0 E where e: "env s1 = c0 # E" "dom c0 \<subseteq> set D" "\<forall>x. lookup E x \<noteq> None \<longrightarrow> x \<in> set B"
            "\<forall>x\<in>dom c0. lookup E x = None" using s1(2) by (auto simp: scope_ok_def)
          then obtain c1 E1 where e1: "env s2 = c1 # E1" "dom c1 = dom c0" "map dom E1 = map dom E"
            using d by (cases "env s2") auto
          show ?thesis
            unfolding scope_ok_def using e e1 lookup_dom [OF e1(3)]
            by (intro exI [of _ c1] exI [of _ E1]) simp
        qed
        moreover have "same_outer s1 s2" using d by (simp add: same_outer_def map_tl)
        ultimately show ?thesis using Suc Some
          by (simp add: agree_def bindS_def ret_def modS_def s2_def assign_to.simps(2) getS_def)
      qed
    qed
  qed
qed

lemma index_set_heap: "heap_le s (snd (index_set l i v s))"
proof -
  have "heap_le s (snd (store l (HList (xs[k := v])) s))" if "deref s l = Some (HList xs)" for xs k
    using hl.pres_store [OF that] by simp
  then show ?thesis
    by (auto simp: index_set_def bindS_def getS_def raise_def hl.R_refl split: option.split hobj.split val.split)
qed

lemma field_set_heap: "heap_le s (snd (field_set b f v s))"
proof -
  have "heap_le s (snd (store b (HStruct fs') s))" if "deref s b = Some (HStruct fs)" for fs fs'
    using hl.pres_store [OF that] by simp
  then show ?thesis
    by (auto simp: field_set_def bindS_def getS_def raise_def hl.R_refl split: option.split hobj.split)
qed

lemma set_env: "env (snd (index_set l i v s)) = env s" "env (snd (field_set b f v s)) = env s"
  by (auto simp: index_set_def field_set_def bindS_def getS_def raise_def store_def modS_def
      split: option.split hobj.split val.split)

lemma agree_same:
  assumes "facts_ok F s" and "scope_ok B D s" and "quiet m"
    and "env (snd (m s)) = env s" and "heap_le s (snd (m s))"
  shows "agree F B D m m s"
  using assms facts_stable [OF assms(1), of "snd (m s)"]
  by (auto simp: agree_def quiet_def same_outer_def scope_ok_def)

lemma assign_slot_agree:
  assumes F: "facts_ok F s" and sc: "scope_ok B D s" and c: "cert_stmt d B D (SAssign lv e rp) F"
    and lv: "lv = LIndex b i \<or> lv = LField b f"
  shows "agree (snd (prop_stmt d (SAssign lv e rp) F)) B D
    (exec_stmt (elided_ctx C) (Suc n) (fst (prop_stmt d (SAssign lv e rp) F)))
    (exec_stmt (checked_ctx C) (Suc n) (SAssign lv e rp)) s"
proof -
  have h: "rp = None" "calm F e" "ident_name b \<noteq> None" using c lv by auto
  then obtain y ty where b: "b = EIdent y ty" by auto
  have plain: "eval_expr (elided_ctx C) m b u = eval_expr (checked_ctx C) m b u" for m u
    using plain_elide [of no_facts b] b by simp
  have cb: "calm F b" using b by simp
  define lv' where "lv' = (case lv of LIndex b i \<Rightarrow> LIndex b (annot F i) | _ \<Rightarrow> lv)"
  have p: "fst (prop_stmt d (SAssign lv e rp) F) = SAssign lv' (annot F e) rp"
    using lv by (auto simp: lv'_def)
  obtain es where es: "snd (prop_stmt d (SAssign lv e rp) F) = drop_mutated es F" using lv by auto
  have "agree F B D (exec_stmt (elided_ctx C) (Suc n) (SAssign lv' (annot F e) rp))
      (exec_stmt (checked_ctx C) (Suc n) (SAssign lv e rp)) s"
    unfolding exec_stmt.simps(2) stmt.case h(1) option.case
  proof (rule agree_eval [OF F h(2) sc])
    show "eval_expr (elided_ctx C) n (annot F e) s = eval_expr (checked_ctx C) n e s"
      by (rule annot_elide [OF F h(2)])
    fix v s1 assume s1: "facts_ok F s1" "scope_ok B D s1"
    have r: "bindS (ret ()) (\<lambda>_. m) = m" for m :: "unit ev"
      by (intro ext) (simp add: bindS_def ret_def)
    show "agree F B D (bindS (ret ()) (\<lambda>_. assign_to (elided_ctx C) n lv' v))
        (bindS (ret ()) (\<lambda>_. assign_to (checked_ctx C) n lv v)) s1"
      unfolding r
    proof (cases n)
      case 0
      then show "agree F B D (assign_to (elided_ctx C) n lv' v) (assign_to (checked_ctx C) n lv v) s1"
        by (simp add: agree_raise)
    next
      case (Suc m)
      show "agree F B D (assign_to (elided_ctx C) n lv' v) (assign_to (checked_ctx C) n lv v) s1"
        using lv
      proof
        assume l: "lv = LField b f"
        show ?thesis
          unfolding Suc l lv'_def lval.case assign_to.simps(2)
        proof (rule agree_eval [OF s1(1) cb s1(2)])
          show "eval_expr (elided_ctx C) m b s1 = eval_expr (checked_ctx C) m b s1" by (rule plain)
          fix w s2 assume "facts_ok F s2" "scope_ok B D s2"
          then show "agree F B D (field_set w f v) (field_set w f v) s2"
            by (rule agree_same) (simp_all add: quiet_ops set_env field_set_heap)
        qed
      next
        assume l: "lv = LIndex b i"
        then have ci: "calm F i" using c by simp
        show ?thesis
          unfolding Suc l lv'_def lval.case assign_to.simps(2)
        proof (rule agree_eval [OF s1(1) cb s1(2)])
          show "eval_expr (elided_ctx C) m b s1 = eval_expr (checked_ctx C) m b s1" by (rule plain)
          fix w s2 assume s2: "facts_ok F s2" "scope_ok B D s2"
          show "agree F B D (bindS (eval_expr (elided_ctx C) m (annot F i)) (\<lambda>k. index_set w k v))
              (bindS (eval_expr (checked_ctx C) m i) (\<lambda>k. index_set w k v)) s2"
          proof (rule agree_eval [OF s2(1) ci s2(2)])
            show "eval_expr (elided_ctx C) m (annot F i) s2 = eval_expr (checked_ctx C) m i s2"
              by (rule annot_elide [OF s2(1) ci])
            fix k s3 assume "facts_ok F s3" "scope_ok B D s3"
            then show "agree F B D (index_set w k v) (index_set w k v) s3"
              by (rule agree_same) (simp_all add: quiet_ops set_env index_set_heap)
          qed
        qed
      qed
    qed
  qed
  then show ?thesis unfolding p es by (rule agree_weaken) (rule drop_mutated_ok)
qed

lemma return_agree:
  assumes F: "facts_ok F s" and c: "calm F e"
  shows "agree G B D (exec_stmt (elided_ctx C) (Suc n) (stmt.SReturn (Some (annot F e))))
    (exec_stmt (checked_ctx C) (Suc n) (stmt.SReturn (Some e))) s"
proof -
  have t: "tail_target (elided_ctx C) s (annot F e) = None" "tail_target (checked_ctx C) s e = None"
    using c by (cases e; simp split: callee.splits)+
  have "exec_stmt (elided_ctx C) (Suc n) (stmt.SReturn (Some (annot F e))) s =
      bindS (eval_expr (elided_ctx C) n (annot F e)) (\<lambda>v. raise (sig.SReturn v)) s"
    by (simp add: exec_stmt.simps(2) bindS_def getS_def t)
  also have "\<dots> = bindS (eval_expr (checked_ctx C) n e) (\<lambda>v. raise (sig.SReturn v)) s"
    by (rule bindS_eq, rule annot_elide [OF F c]) simp
  finally have eq: "exec_stmt (elided_ctx C) (Suc n) (stmt.SReturn (Some (annot F e))) s =
      bindS (eval_expr (checked_ctx C) n e) (\<lambda>v. raise (sig.SReturn v)) s" .
  have eq': "exec_stmt (checked_ctx C) (Suc n) (stmt.SReturn (Some e)) s =
      bindS (eval_expr (checked_ctx C) n e) (\<lambda>v. raise (sig.SReturn v)) s"
    by (simp add: exec_stmt.simps(2) bindS_def getS_def t)
  have "quiet (bindS (eval_expr (checked_ctx C) n e) (\<lambda>v. raise (sig.SReturn v) :: unit ev))"
    by (intro quiet_bind calm_quiet [OF c] quiet_raise) auto
  moreover have "fst (bindS (eval_expr (checked_ctx C) n e) (\<lambda>v. raise (sig.SReturn v)) s) \<noteq> Inr ()"
    by (auto simp: bindS_def raise_def split: prod.splits sum.splits)
  ultimately show ?thesis by (auto simp: agree_def eq eq' quiet_def)
qed

lemma stmt_step:
  assumes IH: "stmts_agree C n" and IHW: "loops_agree C n"
  shows "stmts_agree C (Suc n)"
  unfolding stmts_agree_def
proof (intro allI impI)
  fix d B D st F s
  assume c: "cert_stmt d B D st F" and F: "facts_ok F s" and sc: "scope_ok B D s"
  let ?goal = "agree (snd (prop_stmt d st F)) B (D @ decls st)
     (exec_stmt (elided_ctx C) (Suc n) (fst (prop_stmt d st F))) (exec_stmt (checked_ctx C) (Suc n) st) s"
  show ?goal
  proof (cases st)
    case (SLet x t e rp)
    then show ?thesis using let_agree [OF F sc, of d x t e rp C n] c by simp
  next
    case (SAssign lv e rp)
    show ?thesis
    proof (cases lv)
      case (LIdent x t)
      then show ?thesis using assign_var_agree [OF F sc, of d x t e rp C n] c SAssign by simp
    next
      case (LField b f)
      then show ?thesis using assign_slot_agree [OF F sc, of d lv e rp b _ f C n] c SAssign by simp
    next
      case (LIndex b i)
      then show ?thesis using assign_slot_agree [OF F sc, of d lv e rp b i _ C n] c SAssign by simp
    qed
  next
    case (SIf q th el)
    let ?G = "drop_mutated [q] F"
    have h: "calm F q" "cert_block (d + 1) (B @ D) [] th ?G" "cert_block (d + 1) (B @ D) [] el ?G"
      using c SIf by auto
    define T where "T = prop_block (d + 1) th ?G"
    define E where "E = prop_block (d + 1) el ?G"
    have p: "prop_stmt d (SIf q th el) F = (SIf (annot F q) (fst T) (fst E), join_facts (snd T) (snd E))"
      by (simp add: T_def E_def Let_def case_prod_beta)
    have D: "D @ decls (SIf q th el) = D" by simp
    show ?thesis
      unfolding SIf p D fst_conv snd_conv exec_stmt.simps(2) stmt.case
    proof (rule agree_eval [OF F h(1) sc])
      show "eval_expr (elided_ctx C) n (annot F q) s = eval_expr (checked_ctx C) n q s"
        by (rule annot_elide [OF F h(1)])
      fix v s1 assume s1: "facts_ok F s1" "scope_ok B D s1"
      have G: "facts_ok ?G s1" by (rule drop_mutated_ok [OF s1(1)])
      have "agree (join_facts (snd T) (snd E)) B D
          (scoped Map.empty (iterS (\<lambda>x. exec_stmt (elided_ctx C) n x) (fst T)))
          (scoped Map.empty (iterS (\<lambda>x. exec_stmt (checked_ctx C) n x) th)) s1"
        unfolding T_def using block_agree [OF IH h(2) G s1(2)] by (rule agree_weaken) (rule join_ok1)
      moreover have "agree (join_facts (snd T) (snd E)) B D
          (scoped Map.empty (iterS (\<lambda>x. exec_stmt (elided_ctx C) n x) (fst E)))
          (scoped Map.empty (iterS (\<lambda>x. exec_stmt (checked_ctx C) n x) el)) s1"
        unfolding E_def using block_agree [OF IH h(3) G s1(2)] by (rule agree_weaken) (rule join_ok2)
      ultimately show "agree (join_facts (snd T) (snd E)) B D
          (bindS getS (\<lambda>s. scoped Map.empty (iterS (\<lambda>x. exec_stmt (elided_ctx C) n x)
             (if truthy (elided_ctx C) s v then fst T else fst E))))
          (bindS getS (\<lambda>s. scoped Map.empty (iterS (\<lambda>x. exec_stmt (checked_ctx C) n x)
             (if truthy (checked_ctx C) s v then th else el)))) s1"
        by (cases "truthy C s1 v") (simp_all add: agree_def bindS_def getS_def)
    qed
  next
    case (SWhile q body)
    define I where "I = while_inv (\<lambda>G. snd (prop_block (d + 1) body G)) F"
    have h: "calm I q" "cert_block (d + 1) (B @ D) [] body I" "covers I (snd (prop_block (d + 1) body I))"
      using c by (simp_all only: SWhile cert_stmt.simps Let_def I_def)
    have p: "prop_stmt d (SWhile q body) F = (SWhile (annot I q) (fst (prop_block (d + 1) body I)), I)"
      by (simp only: prop_stmt.simps Let_def I_def)
    have "agree I B D (exec_while (elided_ctx C) n (annot I q) (fst (prop_block (d + 1) body I)))
        (exec_while (checked_ctx C) n q body) s"
      using IHW h while_inv_ok [OF F] sc unfolding loops_agree_def I_def by blast
    then show ?thesis
      unfolding SWhile p fst_conv snd_conv exec_stmt.simps(2) stmt.case by simp
  next
    case (SReturn eo)
    show ?thesis
    proof (cases eo)
      case None
      then show ?thesis using SReturn
        by (simp add: exec_stmt.simps(2) agree_raise)
    next
      case (Some e)
      then have ce: "calm F e" using c SReturn by simp
      show ?thesis using return_agree [OF F ce] SReturn Some by simp
    qed
  next
    case (SExpr e)
    then have ce: "calm F e" using c by simp
    have "agree F B D (exec_stmt (elided_ctx C) (Suc n) (SExpr (annot F e)))
        (exec_stmt (checked_ctx C) (Suc n) (SExpr e)) s"
      unfolding exec_stmt.simps(2) stmt.case
      by (rule agree_eval [OF F ce sc]) (auto intro: agree_done annot_elide [OF F ce])
    then show ?thesis using SExpr by (simp add: agree_weaken drop_mutated_ok)
  qed (use c in auto)
qed

lemma all_agree: "stmts_agree C n \<and> loops_agree C n"
proof (induction n)
  case 0
  show ?case by (simp add: stmts_agree_def loops_agree_def agree_raise)
next
  case (Suc n)
  then show ?case using stmt_step loop_step by blast
qed

theorem propagate_elide:
  assumes "cert_block 0 [] D ss F" and "facts_ok F s" and "scope_ok [] D s"
  shows "exec_stmts (elided_ctx C) n (fst (propagate_stmts ss F)) s = exec_stmts (checked_ctx C) n ss s"
  using list_agree [of C n 0 "[]" D ss F s] all_agree [of C n] assms
  by (simp add: agree_def exec_stmts_def propagate_stmts_def MAX_DEPTH_def)

end
