(* ===== verification/Run.thy ===== *)
theory Run
  imports ProofStmts
begin

text \<open>
  Evaluating the model on concrete programs by rewriting: the equations of the evaluator at a
  numeral bound, and congruence rules that keep the simplifier out of what has not been reached yet
  (continuations, loop bodies, the branches of a test).
\<close>

lemmas eval_num = eval_expr.simps(2) [of C "pred_numeral k" for C k, folded numeral_eq_Suc]
lemmas exec_num = exec_stmt.simps(2) [of C "pred_numeral k" for C k, folded numeral_eq_Suc]
lemmas while_num = exec_while.simps(2) [of C "pred_numeral k" for C k, folded numeral_eq_Suc]
lemmas assign_num = assign_to.simps(2) [of C "pred_numeral k" for C k, folded numeral_eq_Suc]
lemmas call_num = call_fn.simps(2) [of C "pred_numeral k" for C k, folded numeral_eq_Suc]
lemmas refine_num = check_refine.simps(2) [of C "pred_numeral k" for C k, folded numeral_eq_Suc]

lemma bindS_run: "bindS m f s = (case m s of (r, s') \<Rightarrow> (case r of Inl e \<Rightarrow> (Inl e, s') | Inr v \<Rightarrow> f v s'))"
  by (simp add: bindS_def split: prod.split sum.split)

lemmas run = eval_num exec_num while_num assign_num call_num refine_num exec_stmts_def
  bindS_run ret_def raise_def getS_def modS_def on_result_def scoped_def with_env_def with_frame_def
  checked_def check_def arith_def strict_bin_def ret_bool_def eval_un_def truthy_def index_get_def
  index_set_def out_of_bounds_def deref_def alloc_def store_def i64_op_defs INT64_MIN_def INT64_MAX_def
  scalar_le_def Let_def

lemma bindS_run_cong: "m = m' \<Longrightarrow> bindS m f = bindS m' f"
  by simp

lemma on_result_run_cong: "m = m' \<Longrightarrow> on_result m f = on_result m' f"
  by simp

lemma scoped_run_cong: "b = b' \<Longrightarrow> scoped b m = scoped b' m"
  by simp

lemma iterS_run_cong: "xs = xs' \<Longrightarrow> iterS f xs = iterS f xs'"
  by simp

lemma mapS_run_cong: "xs = xs' \<Longrightarrow> mapS f xs = mapS f xs'"
  by simp

lemma let_run_cong: "x = x' \<Longrightarrow> Let x f = Let x' f"
  by simp

lemma while_inv_run_cong: "F = F' \<Longrightarrow> while_inv b F = while_inv b F'"
  by simp

lemma verify_run_cong: "n = n' \<Longrightarrow> F = F' \<Longrightarrow> verify_rounds n b F = verify_rounds n' b F'"
  by simp

lemma prod_run_cong: "p = q \<Longrightarrow> case_prod f p = case_prod f q"
  by simp

lemmas run_cong = prod_run_cong bindS_run_cong on_result_run_cong scoped_run_cong iterS_run_cong mapS_run_cong
  let_run_cong while_inv_run_cong verify_run_cong

lemmas verify_num = verify_rounds.simps(2) [of "pred_numeral k" for k, folded numeral_eq_Suc]

lemmas engine_run = propagate_stmts_def MAX_DEPTH_def while_inv_def join_facts_def widen_facts_def
  grown_def top_all_def keys2_def set_iv_def del_iv_def drop_owner_def drop_mutated_def write_var_def
  for_entry_def iv_of_def no_facts_def TOP_def iv_const_def iv_add_def iv_sub_def iv_mul_def iv_neg_def
  iv_widen_def widen_growth_def iv_contains_def b_op_def b_neg_def numeric_bound_def is_len_def fits_def
  add_fits_def sub_fits_def mul_fits_def excludes_zero_def bin_overflow_ok_def div_ok_def nonneg_lo_def
  below_minlen_def index_ok_def byte_at_ok_def slice_ok_def INT64_MIN_def INT64_MAX_def
  seed_from_requires_def seed_bound_def seed_minlen_def bound_var_def refine_def refine_nz_def
  set_minlen_def int_var_def Let_def verify_num

end
