(* ===== verification/ConstEval.thy ===== *)
theory ConstEval
  imports ProofSound
begin

text \<open>
  Contracts on literal arguments (src/tools/hlinterp/proof.py: \<open>const_eval\<close>, \<open>args_are_const\<close>): the
  checker evaluates the \<open>requires\<close> clause at a call whose arguments are all literals and rejects
  the program when the verdict is false. The constants of the source are Python values; here they
  are the values of the interpreter. The IEEE operations on floats are the parameter \<open>flops\<close>, and
  a float operand beside an int operand is \<open>None\<close> (the checker types contracts and rejects it); a
  string beside another type is what Python makes of it (\<open>const_mixed\<close>).
\<close>

section \<open>Constant evaluation\<close>

text \<open>Python's \<open>isinstance (v, int)\<close>: a bool is an int.\<close>

fun as_int :: "val \<Rightarrow> int option" where
  "as_int (VInt n) = Some n"
| "as_int (VBool b) = Some (if b then 1 else 0)"
| "as_int _ = None"

definition const_not :: "float_ops \<Rightarrow> val \<Rightarrow> val option" where
  "const_not fl v =
     (case v of VBool b \<Rightarrow> Some (VBool (\<not> b)) | VInt n \<Rightarrow> Some (VBool (n = 0))
      | VStr t \<Rightarrow> Some (VBool (t = [])) | VFloat f \<Rightarrow> Some (VBool (f_zero fl f)) | _ \<Rightarrow> None)"

definition const_neg :: "float_ops \<Rightarrow> val \<Rightarrow> val option" where
  "const_neg fl v =
     (case v of VFloat f \<Rightarrow> Some (VFloat (f_neg fl f))
      | _ \<Rightarrow> map_option (\<lambda>n. VInt (- n)) (as_int v))"

text \<open>Truncated quotient and remainder; \<open>None\<close> for a zero divisor and for the one pair of 64-bit
  operands whose quotient does not fit.\<close>

definition const_quot :: "int \<Rightarrow> int \<Rightarrow> int option" where
  "const_quot l r =
     (if r = 0 then None else if l = -9223372036854775808 \<and> r = -1 then None
      else let q = abs l div abs r in Some (if (l \<ge> 0) = (r \<ge> 0) then q else - q))"

definition const_rem :: "int \<Rightarrow> int \<Rightarrow> int option" where
  "const_rem l r = map_option (\<lambda>q. l - q * r) (const_quot l r)"

definition const_int_bin :: "binop \<Rightarrow> int \<Rightarrow> int \<Rightarrow> val option" where
  "const_int_bin op l r =
     (case op of
        OpAdd \<Rightarrow> Some (VInt (l + r)) | OpSub \<Rightarrow> Some (VInt (l - r)) | OpMul \<Rightarrow> Some (VInt (l * r))
      | OpDiv \<Rightarrow> map_option VInt (const_quot l r) | OpMod \<Rightarrow> map_option VInt (const_rem l r)
      | OpEq \<Rightarrow> Some (VBool (l = r)) | OpNe \<Rightarrow> Some (VBool (l \<noteq> r))
      | OpLt \<Rightarrow> Some (VBool (l < r)) | OpLe \<Rightarrow> Some (VBool (l \<le> r))
      | OpGt \<Rightarrow> Some (VBool (r < l)) | OpGe \<Rightarrow> Some (VBool (r \<le> l))
      | _ \<Rightarrow> None)"

text \<open>IEEE bit patterns: \<open>math.fmod\<close> raises on an infinite dividend or a zero divisor.\<close>

definition f_abs_bits :: "64 word \<Rightarrow> nat" where "f_abs_bits f = unat f mod 2 ^ 63"
definition f_is_inf :: "64 word \<Rightarrow> bool" where "f_is_inf f = (f_abs_bits f = 2047 * 2 ^ 52)"
definition f_is_nan :: "64 word \<Rightarrow> bool" where "f_is_nan f = (f_abs_bits f > 2047 * 2 ^ 52)"

definition const_float_bin :: "float_ops \<Rightarrow> binop \<Rightarrow> 64 word \<Rightarrow> 64 word \<Rightarrow> val option" where
  "const_float_bin fl op l r =
     (case op of
        OpAdd \<Rightarrow> Some (VFloat (f_add fl l r)) | OpSub \<Rightarrow> Some (VFloat (f_sub fl l r))
      | OpMul \<Rightarrow> Some (VFloat (f_mul fl l r))
      | OpDiv \<Rightarrow> if f_zero fl r then None else Some (VFloat (f_div fl l r))
      | OpMod \<Rightarrow> if f_is_inf l \<and> \<not> f_is_nan r \<or> f_zero fl r \<and> \<not> f_is_nan l then None
                 else Some (VFloat (f_mod fl l r))
      | OpEq \<Rightarrow> Some (VBool (f_eq fl l r)) | OpNe \<Rightarrow> Some (VBool (\<not> f_eq fl l r))
      | OpLt \<Rightarrow> Some (VBool (f_lt fl l r)) | OpLe \<Rightarrow> Some (VBool (f_lt fl l r \<or> f_eq fl l r))
      | OpGt \<Rightarrow> Some (VBool (f_lt fl r l)) | OpGe \<Rightarrow> Some (VBool (f_lt fl r l \<or> f_eq fl r l))
      | _ \<Rightarrow> None)"

definition const_str_bin :: "binop \<Rightarrow> bytes \<Rightarrow> bytes \<Rightarrow> val option" where
  "const_str_bin op l r =
     (case op of
        OpAdd \<Rightarrow> Some (VStr (l @ r))
      | OpEq \<Rightarrow> Some (VBool (l = r)) | OpNe \<Rightarrow> Some (VBool (l \<noteq> r))
      | OpLt \<Rightarrow> Some (VBool (bytes_less l r)) | OpLe \<Rightarrow> Some (VBool (bytes_less l r \<or> l = r))
      | OpGt \<Rightarrow> Some (VBool (bytes_less r l)) | OpGe \<Rightarrow> Some (VBool (bytes_less r l \<or> r = l))
      | _ \<Rightarrow> None)"

text \<open>A string beside a value of another type: never equal, repeated by a product with an int, and
  a \<open>TypeError\<close> otherwise.\<close>

definition const_mixed :: "binop \<Rightarrow> val \<Rightarrow> val \<Rightarrow> val option" where
  "const_mixed op l r =
     (case op of
        OpEq \<Rightarrow> Some (VBool False) | OpNe \<Rightarrow> Some (VBool True)
      | OpMul \<Rightarrow> (case (l, as_int r, as_int l, r) of
            (VStr t, Some n, _, _) \<Rightarrow> Some (VStr (concat (replicate (nat n) t)))
          | (_, _, Some n, VStr t) \<Rightarrow> Some (VStr (concat (replicate (nat n) t)))
          | _ \<Rightarrow> None)
      | _ \<Rightarrow> None)"

definition is_str :: "val \<Rightarrow> bool" where
  "is_str v = (case v of VStr _ \<Rightarrow> True | _ \<Rightarrow> False)"

definition const_bin :: "float_ops \<Rightarrow> binop \<Rightarrow> val \<Rightarrow> val \<Rightarrow> val option" where
  "const_bin fl op l r =
     (case (as_int l, as_int r) of
        (Some a, Some b) \<Rightarrow> const_int_bin op a b
      | _ \<Rightarrow> (case (l, r) of
                (VFloat a, VFloat b) \<Rightarrow> const_float_bin fl op a b
              | (VStr a, VStr b) \<Rightarrow> const_str_bin op a b
              | _ \<Rightarrow> if is_str l \<noteq> is_str r then const_mixed op l r else None))"

definition const_len :: "val option \<Rightarrow> val option" where
  "const_len v = (case v of Some (VStr t) \<Rightarrow> Some (VInt (int (length t))) | _ \<Rightarrow> None)"

fun const_eval :: "float_ops \<Rightarrow> expr \<Rightarrow> scope \<Rightarrow> val option" where
  "const_eval fl (EInt n) cs = Some (VInt n)"
| "const_eval fl (EFloat f) cs = Some (VFloat f)"
| "const_eval fl (EBool b) cs = Some (VBool b)"
| "const_eval fl (EStr t) cs = Some (VStr t)"
| "const_eval fl (EIdent x t) cs = cs x"
| "const_eval fl (EUn op e) cs =
     (case const_eval fl e cs of None \<Rightarrow> None
      | Some v \<Rightarrow> (case op of OpNot \<Rightarrow> const_not fl v | OpNeg \<Rightarrow> const_neg fl v))"
| "const_eval fl (EBin op l r t ovf divs) cs =
     (let a = const_eval fl l cs; b = const_eval fl r cs in
      case op of
        OpAnd \<Rightarrow> if a = Some (VBool False) \<or> b = Some (VBool False) then Some (VBool False)
                 else if a = Some (VBool True) \<and> b = Some (VBool True) then Some (VBool True)
                 else None
      | OpOr \<Rightarrow> if a = Some (VBool True) \<or> b = Some (VBool True) then Some (VBool True)
                else if a = Some (VBool False) \<and> b = Some (VBool False) then Some (VBool False)
                else None
      | _ \<Rightarrow> (case (a, b) of (Some v, Some w) \<Rightarrow> const_bin fl op v w | _ \<Rightarrow> None))"
| "const_eval fl (ECall f rc args) cs =
     (if f = ''len'' then const_len (case args of [] \<Rightarrow> None | a # _ \<Rightarrow> const_eval fl a cs) else None)"
| "const_eval fl (EMethod e f args rm bnd) cs =
     (if f = ''len'' then const_len (const_eval fl e cs) else None)"
| "const_eval fl _ cs = None"

text \<open>\<open>args_are_const\<close>: the literal arguments bound to the parameters (which are as many).\<close>

fun literal :: "expr \<Rightarrow> val option" where
  "literal (EInt n) = Some (VInt n)"
| "literal (EBool b) = Some (VBool b)"
| "literal (EStr t) = Some (VStr t)"
| "literal _ = None"

fun args_const :: "(param \<times> expr) list \<Rightarrow> scope \<Rightarrow> scope option" where
  "args_const [] cs = Some cs"
| "args_const ((p, a) # ps) cs =
     (case literal a of None \<Rightarrow> None | Some v \<Rightarrow> args_const ps (cs(fst p \<mapsto> v)))"

definition args_are_const :: "param list \<Rightarrow> expr list \<Rightarrow> scope option" where
  "args_are_const ps args =
     (if length ps \<noteq> length args then None else args_const (zip ps args) Map.empty)"

section \<open>Agreement with the interpreter\<close>

lemma quot_trunc: "i64_div l r = Inr q \<Longrightarrow> const_quot l r = Some k \<Longrightarrow> k = q"
  by (auto simp: i64_op_defs const_quot_def Let_def split: if_splits)

lemma abs_rem:
  fixes l r :: int
  shows "l - (if (l \<ge> 0) = (r \<ge> 0) then abs l div abs r else - (abs l div abs r)) * r =
         (if l \<ge> 0 then abs l mod abs r else - (abs l mod abs r))"
proof -
  have "abs l - abs r * (abs l div abs r) = abs l mod abs r" by (simp add: minus_mult_div_eq_mod)
  then show ?thesis by (cases "l \<ge> 0"; cases "r \<ge> 0"; simp add: mult.commute; arith)
qed

lemma rem_trunc: "i64_mod l r = Inr q \<Longrightarrow> const_rem l r = Some k \<Longrightarrow> k = q"
proof -
  assume m: "i64_mod l r = Inr q" and c: "const_rem l r = Some k"
  have "k = l - (if (l \<ge> 0) = (r \<ge> 0) then abs l div abs r else - (abs l div abs r)) * r"
    using c by (auto simp: const_rem_def const_quot_def Let_def split: if_splits)
  moreover have "q = (if l \<ge> 0 then abs l mod abs r else - (abs l mod abs r))"
    using m by (simp add: i64_op_defs Let_def split: if_splits)
  ultimately show ?thesis by (simp only: abs_rem)
qed

lemma i64_exact: "i64_add m n = Inr k \<Longrightarrow> k = m + n" "i64_sub m n = Inr k \<Longrightarrow> k = m - n"
  "i64_mul m n = Inr k \<Longrightarrow> k = m * n"
  by (auto simp: i64_op_defs Let_def split: if_splits)

lemma arith_const:
  "arith C op ov dv m n s = (Inr w, s') \<Longrightarrow> const_int_bin op m n = Some v \<Longrightarrow> arith_op op \<Longrightarrow> w = v"
  by (cases op) (auto simp: arith_def const_int_bin_def arith_op_def dest!: checked_Inr i64_exact
      dest: quot_trunc rem_trunc)

lemma strict_const:
  assumes r: "strict_bin C op ov dv a b s = (Inr w, s')" and c: "const_bin (flops C) op a b = Some v"
    and op: "op \<noteq> OpOr" "op \<noteq> OpAnd"
  shows "w = v"
proof -
  consider m n where "as_int a = Some m" "as_int b = Some n" "const_int_bin op m n = Some v"
    | x y where "a = VFloat x" "b = VFloat y" "const_float_bin (flops C) op x y = Some v"
    | x y where "a = VStr x" "b = VStr y" "const_str_bin op x y = Some v"
    | "is_str a \<noteq> is_str b"
    using c unfolding const_bin_def by (cases a; cases b; simp split: if_splits)
  then show ?thesis
  proof cases
    case 1
    note int = this
    show ?thesis
    proof (cases "arith_op op")
      case True
      then have "\<exists>m' n'. a = VInt m' \<and> b = VInt n' \<and> arith C op ov dv m' n' s = (Inr w, s')"
        using r int by (cases a; cases b; cases op)
          (simp_all add: strict_bin_def arith_op_def raise_def)
      then show ?thesis using int True by (auto intro: arith_const)
    next
      case False
      then show ?thesis
        using r op int by (cases a; cases b; cases op)
          (auto simp: strict_bin_def arith_op_def const_int_bin_def scalar_le_def ret_bool_def
            raise_def ret_def split: if_splits)
    qed
  next
    case 2
    then show ?thesis
      using r op by (cases op) (auto simp: strict_bin_def const_float_bin_def scalar_le_def
          ret_bool_def float_arith_def ret_def split: if_splits)
  next
    case 3
    then show ?thesis
      using r op by (cases op) (auto simp: strict_bin_def const_str_bin_def scalar_le_def
          ret_bool_def raise_def ret_def split: if_splits)
  next
    case 4
    then show ?thesis
      using r op by (cases a; cases b; cases op) (auto simp: is_str_def strict_bin_def scalar_le_def
          ret_bool_def raise_def)
  qed
qed

lemma un_const:
  assumes "eval_un C op a s = (Inr w, s')"
    and "(case op of OpNot \<Rightarrow> const_not (flops C) a | OpNeg \<Rightarrow> const_neg (flops C) a) = Some v"
  shows "w = v"
  using assms
  by (cases op; cases a; auto simp: eval_un_def const_not_def const_neg_def bindS_def getS_def ret_def
      raise_def truthy_def i64_op_defs split: if_splits)

lemma or_Inr:
  assumes "eval_expr C n (EBin OpOr l r t ov dv) s = (Inr v, s')"
  shows "\<exists>m a s1. n = Suc m \<and> eval_expr C m l s = (Inr a, s1) \<and>
           (if truthy C s1 a then v = VBool True \<and> s' = s1 else eval_expr C m r s1 = (Inr v, s'))"
proof -
  obtain m where n: "n = Suc m" using assms eval_not_zero by blast
  then obtain a s1 where a: "eval_expr C m l s = (Inr a, s1)"
    using assms by (auto simp: eval_expr.simps(2) bindS_Inr)
  show ?thesis
    using assms by (intro exI [of _ m] exI [of _ a] exI [of _ s1])
      (auto simp: n a eval_expr.simps(2) bindS_def getS_def ret_def split: if_splits)
qed

lemma and_Inr:
  assumes "eval_expr C n (EBin OpAnd l r t ov dv) s = (Inr v, s')"
  shows "\<exists>m a s1. n = Suc m \<and> eval_expr C m l s = (Inr a, s1) \<and>
           (if truthy C s1 a then eval_expr C m r s1 = (Inr v, s') else v = VBool False \<and> s' = s1)"
proof -
  obtain m where n: "n = Suc m" using assms eval_not_zero by blast
  then obtain a s1 where a: "eval_expr C m l s = (Inr a, s1)"
    using assms by (auto simp: eval_expr.simps(2) bindS_Inr)
  show ?thesis
    using assms by (intro exI [of _ m] exI [of _ a] exI [of _ s1])
      (auto simp: n a eval_expr.simps(2) bindS_def getS_def ret_def split: if_splits)
qed

lemma size_const: "size_of v s = (Inr w, s') \<Longrightarrow> const_len (Some v) = Some u \<Longrightarrow> w = u"
  by (auto simp: size_of_def const_len_def bindS_def getS_def ret_def split: val.splits)

lemma len_method_const:
  "builtin_method C b op v [] s = (Inr w, s') \<Longrightarrow> op \<in> {''str.len'', ''list.len'', ''map.len''} \<Longrightarrow>
   const_len (Some v) = Some u \<Longrightarrow> w = u"
  by (auto simp: builtin_method_def str_method_def const_len_def ret_def raise_def split: val.splits)

lemma literal_value:
  "eval_expr C n (EInt i) s = (Inr w, s') \<Longrightarrow> w = VInt i"
  "eval_expr C n (EFloat f) s = (Inr w, s') \<Longrightarrow> w = VFloat f"
  "eval_expr C n (EBool b) s = (Inr w, s') \<Longrightarrow> w = VBool b"
  "eval_expr C n (EStr t) s = (Inr w, s') \<Longrightarrow> w = VStr t"
  by (cases n; auto simp: raise_def ret_def eval_expr.simps(2))+

theorem const_eval_agrees:
  assumes "pure e" and "const_eval (flops C) e cs = Some v"
    and "\<And>x w. cs x = Some w \<Longrightarrow> lookup (env s) x = Some w"
    and "eval_expr C n e s = (Inr w, s')"
  shows "w = v"
  using assms(1,2,4)
proof (induction e arbitrary: n v w s')
  case (EIdent x t)
  then show ?case using assms(3) eval_ident_Inr by fastforce
next
  case (EUn op e)
  obtain m a s1 where e: "eval_expr C m e s = (Inr a, s1)" and u: "eval_un C op a s1 = (Inr w, s')"
    using EUn.prems(3) eval_not_zero [OF EUn.prems(3)] by (auto simp: eval_expr.simps(2) bindS_Inr)
  obtain b where b: "const_eval (flops C) e cs = Some b"
    "(case op of OpNot \<Rightarrow> const_not (flops C) b | OpNeg \<Rightarrow> const_neg (flops C) b) = Some v"
    using EUn.prems(2) by (auto split: option.splits)
  moreover have "a = b" using EUn.IH e b EUn.prems(1) by auto
  ultimately show ?case using un_const u by blast
next
  case (EBin op l r t ov dv)
  have p: "pure l" "pure r" using EBin.prems by auto
  consider "op = OpAnd" | "op = OpOr" | "op \<noteq> OpAnd" "op \<noteq> OpOr" by blast
  then show ?case
  proof cases
    case 1
    obtain m a s1 where l: "eval_expr C m l s = (Inr a, s1)"
      and r: "if truthy C s1 a then eval_expr C m r s1 = (Inr w, s') else w = VBool False \<and> s' = s1"
      using and_Inr EBin.prems(3) 1 by blast
    have "s1 = s" using pure_state p l by blast
    then show ?thesis
      using EBin.IH(1) [OF p(1) _ l] EBin.IH(2) [OF p(2)] r EBin.prems(2) 1
      by (auto simp: Let_def truthy_def split: if_splits)
  next
    case 2
    obtain m a s1 where l: "eval_expr C m l s = (Inr a, s1)"
      and r: "if truthy C s1 a then w = VBool True \<and> s' = s1 else eval_expr C m r s1 = (Inr w, s')"
      using or_Inr EBin.prems(3) 2 by blast
    have "s1 = s" using pure_state p l by blast
    then show ?thesis
      using EBin.IH(1) [OF p(1) _ l] EBin.IH(2) [OF p(2)] r EBin.prems(2) 2
      by (auto simp: Let_def truthy_def split: if_splits)
  next
    case 3
    obtain m a b s1 s2 where e: "eval_expr C m l s = (Inr a, s1)" "eval_expr C m r s1 = (Inr b, s2)"
      "strict_bin C op ov dv a b s2 = (Inr w, s')"
      using eval_bin_Inr [OF EBin.prems(3)] 3 by blast
    obtain a' b' where ab: "const_eval (flops C) l cs = Some a'" "const_eval (flops C) r cs = Some b'"
      "const_bin (flops C) op a' b' = Some v"
      using EBin.prems(2) 3 by (cases op) (auto simp: Let_def split: option.splits)
    have "s1 = s" using pure_state p e by blast
    then have "a' = a" "b' = b" using EBin.IH p e ab by blast+
    then show ?thesis using strict_const e(3) ab(3) 3 by blast
  qed
next
  case (ECall f rc args)
  then obtain a where a: "args = [a]" "rc = Builtin ''len''" "pure a" "f = ''len''"
    by (cases "ECall f rc args" rule: pure.cases) auto
  obtain m u s1 where "eval_expr C m a s = (Inr u, s1)" "size_of u s1 = (Inr w, s')"
    using ECall.prems(3) eval_not_zero [OF ECall.prems(3)] a
    by (auto simp: eval_expr.simps(2) bindS_Inr ret_def builtin_def)
  moreover obtain u' where "const_eval (flops C) a cs = Some u'" "const_len (Some u') = Some v"
    using ECall.prems(2) a by (auto simp: const_len_def split: option.splits)
  ultimately show ?case using ECall.IH a size_const by (metis list.set_intros(1))
next
  case (EMethod a f args rm bnd)
  then obtain op where o: "args = []" "rm = Builtin op" "op \<in> {''str.len'', ''list.len'', ''map.len''}"
    "pure a" "f = ''len''"
    by (cases "EMethod a f args rm bnd" rule: pure.cases) auto
  obtain m u s1 where "eval_expr C m a s = (Inr u, s1)" "builtin_method C bnd op u [] s1 = (Inr w, s')"
    using EMethod.prems(3) eval_not_zero [OF EMethod.prems(3)] o
    by (auto simp: eval_expr.simps(2) bindS_Inr ret_def)
  moreover obtain u' where "const_eval (flops C) a cs = Some u'" "const_len (Some u') = Some v"
    using EMethod.prems(2) o by (auto simp: const_len_def split: option.splits)
  ultimately show ?case using EMethod.IH o len_method_const by blast
qed (auto dest!: literal_value)

section \<open>Literal arguments\<close>

text \<open>The constants are the bindings a call makes of the literals' values.\<close>

lemma literal_eval: "literal a = Some v \<Longrightarrow> eval_expr C (Suc n) a s = (Inr v, s)"
  by (cases a rule: literal.cases) (auto simp: eval_expr.simps(2) ret_def)

lemma args_const_fold:
  "length ps = length args \<Longrightarrow> args_const (zip ps args) cs = Some cs' \<Longrightarrow>
   \<exists>vs. map literal args = map Some vs \<and> length vs = length ps \<and>
        cs' = fold (\<lambda>(p, v) sc. sc(fst p \<mapsto> v)) (zip ps vs) cs"
proof (induction ps args arbitrary: cs rule: list_induct2)
  case (Cons p ps a as)
  then obtain v where v: "literal a = Some v" "args_const (zip ps as) (cs(fst p \<mapsto> v)) = Some cs'"
    by (auto split: option.splits)
  then obtain vs where "map literal as = map Some vs" "length vs = length ps"
    "cs' = fold (\<lambda>(p, v) sc. sc(fst p \<mapsto> v)) (zip ps vs) (cs(fst p \<mapsto> v))"
    using Cons.IH by blast
  then have "map literal (a # as) = map Some (v # vs)" "length (v # vs) = length (p # ps)"
    "cs' = fold (\<lambda>(p, v) sc. sc(fst p \<mapsto> v)) (zip (p # ps) (v # vs)) cs"
    using v by (simp_all only: list.map length_Cons zip_Cons_Cons fold_simps prod.case)
  then show ?case by blast
qed simp

lemma args_are_const_bind:
  assumes "args_are_const ps args = Some cs"
  shows "\<exists>vs. map literal args = map Some vs \<and> bind_params ps vs = Some cs"
proof -
  have "length ps = length args" "args_const (zip ps args) Map.empty = Some cs"
    using assms by (auto simp: args_are_const_def split: if_splits)
  from args_const_fold [OF this] show ?thesis unfolding bind_params_def by metis
qed

end
