(* ===== verification/PlainBody.thy ===== *)
theory PlainBody
  imports ProofStmts
begin

text \<open>
  The bodies for which eliding the proved checks is sound, told by their syntax. \<open>elidable\<close> asks of
  a body what the counterexamples of \<open>EngineProps\<close> violate: no \<open>for\<close>, \<open>break\<close> or \<open>continue\<close>, no
  user calls, \<open>push\<close>, \<open>pop\<close> or struct literals, no shadowing, blocks no deeper than the engine
  walks, and no loop that writes more than four names at type \<open>int\<close>, which is the number of
  rounds the engine spends on confirming its guess at the loop head.

  The facts at a loop head are flat (no symbolic bound survives a join), a pass over the body leaves the facts of
  the expr_names it does not write as they were (\<open>moves\<close>), and each round that does not confirm the guess
  sends one more written name to TOP; so the guess is inductive (\<open>while_covers\<close>) and the body passes
  the check of \<open>ProofStmts\<close> (\<open>elidable_cert\<close>).
\<close>

section \<open>The fragment\<close>

fun expr_names :: "expr \<Rightarrow> name list" where
  "expr_names (EIdent x t) = [x]"
| "expr_names (EBin op l r t ov dv) = expr_names l @ expr_names r"
| "expr_names (EUn op e) = expr_names e"
| "expr_names (ECall f rc args) = concat (map expr_names args)"
| "expr_names (EField e f) = expr_names e"
| "expr_names (EMethod e f args rm bnd) = expr_names e @ concat (map expr_names args)"
| "expr_names (EIndex e i bnd) = expr_names e @ expr_names i"
| "expr_names (EList es) = concat (map expr_names es)"
| "expr_names (EStruct n fs) = concat (map (\<lambda>(f, e). expr_names e) fs)"
| "expr_names (EEnum n v es) = concat (map expr_names es)"
| "expr_names (EMatch e arms) = expr_names e @ concat (map (\<lambda>(p, b). expr_names b) arms)"
| "expr_names (EQmark e a b) = expr_names e"
| "expr_names e = []"

text \<open>A comparison of the clause has a length on a side.\<close>

fun uses_len :: "expr \<Rightarrow> bool" where
  "uses_len (EBin op l r t ov dv) = (uses_len l \<or> uses_len r)"
| "uses_len e = is_len_call e"

text \<open>\<open>N\<close>: the names the facts may speak of; \<open>lens\<close>: whether an interval may end in a length.\<close>

fun tame :: "name list \<Rightarrow> bool \<Rightarrow> expr \<Rightarrow> bool" where
  "tame N lens (EBin op l r t ov dv) \<longleftrightarrow> \<not> ov \<and> \<not> dv \<and> tame N lens l \<and> tame N lens r \<and>
     ((op = OpDiv \<or> op = OpMod) \<longrightarrow> \<not> lens \<or> ident_name r = None)"
| "tame N lens (EUn op e) = tame N lens e"
| "tame N lens (ECall f rc args) =
     ((case rc of Builtin _ \<Rightarrow> True | User _ \<Rightarrow> False) \<and> list_all (tame N lens) args)"
| "tame N lens (EField e f) = tame N lens e"
| "tame N lens (EMethod e f args rm bnd) =
     (\<not> bnd \<and> f \<noteq> ''push'' \<and> f \<noteq> ''pop'' \<and> tame N lens e \<and> list_all (tame N lens) args \<and>
      (case rm of User _ \<Rightarrow> False
       | Builtin op \<Rightarrow> op \<noteq> ''list.push'' \<and> op \<noteq> ''list.pop'' \<and>
           (op = ''str.byte_at'') = (f = ''byte_at'') \<and> (op = ''str.slice'') = (f = ''slice'')))"
| "tame N lens (EIndex e i bnd) = (\<not> bnd \<and> tame N lens e \<and> tame N lens i)"
| "tame N lens (EList es) = list_all (tame N lens) es"
| "tame N lens (EStruct n fs) = False"
| "tame N lens (EEnum n v es) = list_all (tame N lens) es"
| "tame N lens (EMatch e arms) =
     (tame N lens e \<and> list_all (\<lambda>(p, b). tame N lens b \<and>
        (case p of PWild \<Rightarrow> True | PVariant _ _ bs \<Rightarrow> list_all (\<lambda>x. x \<notin> set N) bs)) arms)"
| "tame N lens (EQmark e a b) = tame N lens e"
| "tame N lens e = True"

text \<open>The names a body writes at type \<open>int\<close>, and those it writes at another type.\<close>

fun writes :: "bool \<Rightarrow> stmt list \<Rightarrow> name list"
and writes1 :: "bool \<Rightarrow> stmt \<Rightarrow> name list" where
  "writes b [] = []"
| "writes b (s # ss) = writes1 b s @ writes b ss"
| "writes1 b (SLet x t e rp) = (if (t = ty_int) = b then [x] else [])"
| "writes1 b (SAssign (LIdent x t) e rp) = (if (t = ty_int) = b then [x] else [])"
| "writes1 b (SIf c th el) = writes b th @ writes b el"
| "writes1 b (SWhile c body) = writes b body"
| "writes1 b (SFor x it body) = writes b body"
| "writes1 b s = []"

definition few_writes :: "stmt list \<Rightarrow> bool" where
  "few_writes body \<longleftrightarrow> length (remdups (writes True body)) \<le> 4 \<and>
     list_all (\<lambda>x. x \<notin> set (writes False body)) (writes True body)"

text \<open>\<open>Q\<close>: the names of the clause; \<open>B\<close>: the names of the enclosing scopes; \<open>D\<close>: those the
  current block has declared.\<close>

function (sequential)
    simple_block :: "name list \<Rightarrow> name list \<Rightarrow> bool \<Rightarrow> nat \<Rightarrow> name list \<Rightarrow> stmt list \<Rightarrow> bool"
and simple_list :: "name list \<Rightarrow> name list \<Rightarrow> bool \<Rightarrow> nat \<Rightarrow> name list \<Rightarrow> name list \<Rightarrow> stmt list \<Rightarrow> bool"
and simple_stmt :: "name list \<Rightarrow> name list \<Rightarrow> bool \<Rightarrow> nat \<Rightarrow> name list \<Rightarrow> name list \<Rightarrow> stmt \<Rightarrow> bool" where
  "simple_block N Q lens d B ss = (d \<le> MAX_DEPTH \<and> simple_list N Q lens d B [] ss)"
| "simple_list N Q lens d B D [] = True"
| "simple_list N Q lens d B D (s # ss) =
     (simple_stmt N Q lens d B D s \<and> simple_list N Q lens d B (D @ decls s) ss)"
| "simple_stmt N Q lens d B D (SLet x t e rp) =
     (rp = None \<and> tame N lens e \<and> x \<notin> set B \<and> (t = ty_int \<or> x \<notin> set Q))"
| "simple_stmt N Q lens d B D (SAssign (LIdent x t) e rp) =
     (rp = None \<and> tame N lens e \<and> (t = ty_int \<or> x \<notin> set Q))"
| "simple_stmt N Q lens d B D (SAssign (LIndex b i) e rp) =
     (rp = None \<and> ident_name b \<noteq> None \<and> tame N lens e \<and> tame N lens i)"
| "simple_stmt N Q lens d B D (SAssign (LField b f) e rp) =
     (rp = None \<and> ident_name b \<noteq> None \<and> tame N lens e)"
| "simple_stmt N Q lens d B D (SIf c th el) =
     (tame N lens c \<and> simple_block N Q lens (d + 1) (B @ D) th \<and> simple_block N Q lens (d + 1) (B @ D) el)"
| "simple_stmt N Q lens d B D (SWhile c body) =
     (tame N False c \<and> simple_block N Q False (d + 1) (B @ D) body \<and> few_writes body)"
| "simple_stmt N Q lens d B D (stmt.SReturn (Some e)) = tame N lens e"
| "simple_stmt N Q lens d B D (stmt.SReturn None) = True"
| "simple_stmt N Q lens d B D (SExpr e) = tame N lens e"
| "simple_stmt N Q lens d B D _ = False"
  by pat_completeness auto
termination
  by (relation "measure (case_sum (\<lambda>(N, Q, k, d, B, ss). Suc (2 * size_list size ss))
        (case_sum (\<lambda>(N, Q, k, d, B, D, ss). 2 * size_list size ss)
          (\<lambda>(N, Q, k, d, B, D, s). 2 * size s)))") auto

text \<open>The bodies under a clause \<open>q\<close> over the parameters \<open>ps\<close>. No identifier is \<open>?\<close>.\<close>

definition elidable :: "expr \<Rightarrow> param list \<Rightarrow> stmt list \<Rightarrow> bool" where
  "elidable q ps body \<longleftrightarrow> ''?'' \<notin> set (map fst ps) \<and>
     simple_list (''?'' # expr_names q @ writes True body @ writes False body) (expr_names q) (uses_len q)
       0 [] (map fst ps) body"

section \<open>Flat facts\<close>

definition flat_iv :: "interval \<Rightarrow> bool" where
  "flat_iv iv \<longleftrightarrow> \<not> is_len (iv_lo iv) \<and> \<not> is_len (iv_hi iv)"

definition flat :: "facts \<Rightarrow> bool" where
  "flat F \<longleftrightarrow> (\<forall>x. flat_iv (iv_of F x))"

lemmas flat_defs = flat_iv_def is_len_def numeric_bound_def b_op_def b_neg_def

lemma flat_ops [simp]: "flat_iv TOP" "flat_iv (iv_const n)" "flat_iv (iv_add a b)" "flat_iv (iv_sub a b)"
  "flat_iv (iv_neg a)" "flat_iv (iv_mul a b)" "flat_iv (iv_widen a b)" "flat_iv (widen_growth a b)"
  by (auto simp: flat_defs TOP_def iv_const_def iv_add_def iv_sub_def iv_neg_def iv_mul_def iv_widen_def
      widen_growth_def Let_def split: bound.splits interval.splits)

lemma flat_same [simp]: "flat_iv i \<Longrightarrow> iv_widen i i = i" "flat_iv i \<Longrightarrow> widen_growth i i = i"
  "flat_iv i \<Longrightarrow> iv_contains i i"
  by (cases i; auto simp: flat_defs iv_widen_def widen_growth_def iv_contains_def split: bound.splits)+

lemma widen_TOP [simp]: "iv_widen TOP i = TOP" "iv_widen i TOP = TOP" "widen_growth i TOP = TOP"
  by (simp_all add: iv_widen_def widen_growth_def TOP_def b_op_def numeric_bound_def split: bound.split)

lemma flat_interval: "flat F \<Longrightarrow> flat_iv (expr_interval F e)"
  by (induction e rule: expr_interval.induct) (auto simp: flat_def Let_def split: binop.split)

lemma flat_join [simp]: "flat (join_facts a b)"
  by (auto simp: flat_def join_iv split: option.splits)

lemma flat_no_len: "flat_iv iv \<Longrightarrow> \<not> is_len (iv_hi iv)"
  by (simp add: flat_iv_def)

section \<open>What a pass over a body does to the facts\<close>

text \<open>From \<open>F\<close> to \<open>G\<close> the names \<open>I\<close> are written at type \<open>int\<close> and the names \<open>J\<close> at other types.\<close>

definition moves :: "name set \<Rightarrow> name set \<Rightarrow> facts \<Rightarrow> facts \<Rightarrow> bool" where
  "moves I J F G \<longleftrightarrow>
     (flat F \<longrightarrow> flat G) \<and>
     (\<forall>x. x \<notin> I \<union> J \<longrightarrow> flat_iv (iv_of F x) \<longrightarrow> iv_of G x = iv_of F x) \<and>
     (\<forall>x \<in> J - I. iv_of G x = TOP) \<and>
     (\<forall>x. x \<notin> J \<longrightarrow> map_of (ivs F) x \<noteq> None \<longrightarrow> map_of (ivs G) x \<noteq> None) \<and>
     set (nzs G) = set (nzs F) - I \<and>
     (\<forall>w. map_of (minlens G) w = (if w \<in> I \<union> J then None else map_of (minlens F) w)) \<and>
     (distinct (map fst (ivs F)) \<longrightarrow> distinct (map fst (ivs G)))"

lemma moves_refl: "moves {} {} F F"
  by (simp add: moves_def)

lemma moves_trans:
  assumes a: "moves I J F G" and b: "moves I' J' G H"
  shows "moves (I \<union> I') (J \<union> J') F H"
  unfolding moves_def
proof (intro conjI allI ballI impI)
  show "flat H" if "flat F" using that a b by (simp add: moves_def)
  show same: "iv_of H x = iv_of F x" if "x \<notin> I \<union> I' \<union> (J \<union> J')" "flat_iv (iv_of F x)" for x
    using that a b by (simp add: moves_def)
  show "iv_of H x = TOP" if "x \<in> J \<union> J' - (I \<union> I')" for x
  proof (cases "x \<in> J'")
    case False
    then have "iv_of G x = TOP" using that a by (simp add: moves_def)
    then show ?thesis using False that b by (simp add: moves_def)
  qed (use that b in \<open>simp add: moves_def\<close>)
  show "map_of (ivs H) x \<noteq> None" if "x \<notin> J \<union> J'" "map_of (ivs F) x \<noteq> None" for x
    using that a b by (simp add: moves_def)
  show "set (nzs H) = set (nzs F) - (I \<union> I')" using a b by (auto simp: moves_def)
  show "map_of (minlens H) w = (if w \<in> I \<union> I' \<union> (J \<union> J') then None else map_of (minlens F) w)" for w
    using a b by (auto simp: moves_def)
  show "distinct (map fst (ivs H))" if "distinct (map fst (ivs F))" using that a b by (simp add: moves_def)
qed

lemma join_key: "map_of (ivs (join_facts a b)) x = None \<longleftrightarrow> map_of (ivs a) x = None \<and> map_of (ivs b) x = None"
  by (auto simp: join_facts_def map_of_keyed keys2_def map_of_eq_None_iff image_iff)

lemma join_iv_same: "iv_of a x = i \<Longrightarrow> iv_of b x = i \<Longrightarrow> flat_iv i \<Longrightarrow> iv_of (join_facts a b) x = i"
  unfolding join_iv by (auto simp: iv_of_def split: option.splits)

lemma join_iv_TOP: "iv_of a x = TOP \<or> iv_of b x = TOP \<Longrightarrow> iv_of (join_facts a b) x = TOP"
  unfolding join_iv by (auto simp: iv_of_def split: option.splits)

lemma keys2_Un: "set (keys2 a b) = fst ` set a \<union> fst ` set b"
  by (simp add: keys2_def)

lemma join_minlen_iff: "map_of (minlens (join_facts a b)) w =
   (case (map_of (minlens a) w, map_of (minlens b) w) of (Some m, Some n) \<Rightarrow> Some (min m n) | _ \<Rightarrow> None)"
proof -
  have "minlens (join_facts a b) = concat (map (\<lambda>k. case (case (map_of (minlens a) k, map_of (minlens b) k)
      of (Some m, Some n) \<Rightarrow> Some (min m n) | _ \<Rightarrow> None) of Some v \<Rightarrow> [(k, v)] | None \<Rightarrow> [])
      (keys2 (minlens a) (minlens b)))"
    by (auto simp: join_facts_def intro!: arg_cong [where f = concat] split: option.splits)
  then show ?thesis
    using keys2_set [of "minlens a" w "minlens b"]
    by (auto simp: map_of_concat_keyed split: option.splits)
qed

lemma join_distinct [simp]: "distinct (map fst (ivs (join_facts a b)))"
  by (simp add: join_facts_def o_def) (simp add: keys2_def)

lemma moves_join:
  assumes a: "moves I J F G" and b: "moves I' J' F H"
  shows "moves (I \<union> I') (J \<union> J') F (join_facts G H)"
  unfolding moves_def
proof (intro conjI allI ballI impI)
  show "flat (join_facts G H)" by simp
  show "iv_of (join_facts G H) x = iv_of F x" if "x \<notin> I \<union> I' \<union> (J \<union> J')" "flat_iv (iv_of F x)" for x
    using that a b by (intro join_iv_same) (simp_all add: moves_def)
  show "iv_of (join_facts G H) x = TOP" if "x \<in> J \<union> J' - (I \<union> I')" for x
    using that a b by (intro join_iv_TOP) (auto simp: moves_def)
  show "map_of (ivs (join_facts G H)) x \<noteq> None" if "x \<notin> J \<union> J'" "map_of (ivs F) x \<noteq> None" for x
    using that a by (simp add: join_key moves_def)
  show "set (nzs (join_facts G H)) = set (nzs F) - (I \<union> I')"
    using a b by (auto simp: moves_def join_nzs)
  show "map_of (minlens (join_facts G H)) w =
      (if w \<in> I \<union> I' \<union> (J \<union> J') then None else map_of (minlens F) w)" for w
    using a b by (auto simp: moves_def join_minlen_iff split: option.split)
qed simp

lemma drop_owner_keys: "map fst (ivs (drop_owner w F)) = map fst (ivs F)"
  by (simp add: drop_owner_def o_def case_prod_beta)

lemma drop_owner_flat: "flat_iv (iv_of F x) \<Longrightarrow> iv_of (drop_owner w F) x = iv_of F x"
  by (auto simp: drop_owner_iv flat_defs split: bound.split)

lemma drop_owner_key: "map_of (ivs (drop_owner w F)) x = None \<longleftrightarrow> map_of (ivs F) x = None"
  by (simp add: map_of_eq_None_iff drop_owner_keys flip: set_map)

lemma set_iv_keys: "map_of (ivs (set_iv x iv F)) y = (if y = x then Some iv else map_of (ivs F) y)"
  by (simp add: set_iv_def update_conv)

lemma set_iv_distinct: "distinct (map fst (ivs F)) \<Longrightarrow> distinct (map fst (ivs (set_iv x iv F)))"
  by (simp add: set_iv_def distinct_update)

lemma moves_write:
  "moves (if t = ty_int then {x} else {}) (if t = ty_int then {} else {x}) F (write_var x t e F)"
proof (cases "t = ty_int")
  case True
  define G where "G = drop_owner x (F\<lparr>nzs := removeAll x (nzs F)\<rparr>)"
  have w: "write_var x t e F = set_iv x (expr_interval G e) G"
    using True by (simp add: write_var_def G_def Let_def)
  have same: "iv_of G y = iv_of F y" if "flat_iv (iv_of F y)" for y
    using that drop_owner_flat [of "F\<lparr>nzs := removeAll x (nzs F)\<rparr>" y x] by (simp add: G_def iv_of_def)
  have "flat G" if "flat F" using same that by (simp add: flat_def)
  then have "flat (set_iv x (expr_interval G e) G)" if "flat F"
    using that flat_interval by (simp add: flat_def iv_of_set)
  moreover have "map_of (ivs G) y = None \<longleftrightarrow> map_of (ivs F) y = None" for y
    by (simp add: G_def drop_owner_key)
  moreover have "map fst (ivs G) = map fst (ivs F)" by (simp add: G_def drop_owner_keys)
  moreover have "nzs G = removeAll x (nzs F)" by (simp add: G_def)
  moreover have "map_of (minlens G) y = (if y = x then None else map_of (minlens F) y)" for y
    by (simp add: G_def)
  ultimately show ?thesis
    unfolding w moves_def using True same
    by (simp add: iv_of_set set_iv_keys set_iv_distinct del: not_None_eq)
next
  case False
  define G where "G = del_iv x F"
  have w: "write_var x t e F = drop_owner x G"
    using False by (simp add: write_var_def G_def)
  have G: "iv_of G y = (if y = x then TOP else iv_of F y)" for y
    by (simp add: G_def del_iv_def iv_of_def delete_conv)
  have "flat G" if "flat F" using that G by (simp add: flat_def)
  then have "flat (drop_owner x G)" if "flat F" using that drop_owner_flat by (simp add: flat_def)
  moreover have "iv_of (drop_owner x G) x = TOP" using drop_owner_flat [of G x x] G by simp
  moreover have "iv_of (drop_owner x G) y = iv_of F y" if "y \<noteq> x" "flat_iv (iv_of F y)" for y
    using that drop_owner_flat [of G y x] G by simp
  moreover have "map_of (ivs G) y = (if y = x then None else map_of (ivs F) y)" for y
    by (simp add: G_def del_iv_def delete_conv)
  moreover have "distinct (map fst (ivs G))" if "distinct (map fst (ivs F))"
    using that by (simp add: G_def del_iv_def distinct_delete)
  ultimately show ?thesis
    unfolding w moves_def using False
    by (auto simp: drop_owner_key drop_owner_keys) (simp_all add: G_def del_iv_def)
qed

section \<open>The guess at a loop head\<close>

lemma widen_keys: "map fst (ivs (widen_facts a b)) = map fst (ivs b)"
  by (simp add: widen_facts_def o_def case_prod_beta)

lemma moves_widen:
  assumes a: "moves I J F G" and d: "distinct (map fst (ivs G))" and f: "flat F" "flat G"
  shows "moves I J F (widen_facts F G)"
proof -
  have same: "iv_of (widen_facts F G) x = i" if "iv_of F x = i" "iv_of G x = i" for x i
    using that f unfolding widen_facts_iv by (auto simp: iv_of_def flat_def split: option.splits)
  have top: "iv_of (widen_facts F G) x = TOP" if "iv_of G x = TOP" for x
    using that unfolding widen_facts_iv by (auto simp: iv_of_def split: option.splits)
  have fl: "flat (widen_facts F G)"
    using f unfolding flat_def widen_facts_iv by (auto simp: iv_of_def split: option.splits)
  have key: "map_of (ivs (widen_facts F G)) x = None \<longleftrightarrow> map_of (ivs G) x = None" for x
    by (simp add: map_of_eq_None_iff widen_keys flip: set_map)
  have sel: "nzs (widen_facts F G) = nzs G" "minlens (widen_facts F G) = minlens G"
    by (simp_all add: widen_facts_def)
  show ?thesis
    using a d fl unfolding moves_def sel
    by (simp add: same top key widen_keys del: not_None_eq)
qed

lemma top_all_keys: "map fst (ivs (top_all ks F)) = map fst (ivs F)"
  by (simp add: top_all_def o_def case_prod_beta)

lemma top_all_sel [simp]: "nzs (top_all ks F) = nzs F" "minlens (top_all ks F) = minlens F"
  by (simp_all add: top_all_def)

lemma top_all_flat: "flat F \<Longrightarrow> flat (top_all ks F)"
  by (simp add: flat_def top_all_iv)

lemma moves_top_all:
  assumes "moves I J F G" and "set ks \<subseteq> I"
  shows "moves I J F (top_all ks G)"
proof -
  have key: "map_of (ivs (top_all ks G)) x = None \<longleftrightarrow> map_of (ivs G) x = None" for x
    by (simp add: map_of_eq_None_iff top_all_keys flip: set_map)
  show ?thesis
    using assms top_all_flat [of G ks] unfolding moves_def
    by (auto simp: key top_all_keys top_all_iv simp del: not_None_eq)
qed

text \<open>The names that escape a flat guess are written, and were not TOP.\<close>

lemma grown_written:
  assumes b: "moves I J G (body G)" and f: "flat G" and t: "\<forall>x \<in> J - I. iv_of G x = TOP"
    and d: "distinct (map fst (ivs G))" and x: "x \<in> set (grown G (body G))"
  shows "x \<in> I \<and> iv_of G x \<noteq> TOP"
proof -
  obtain v where v: "(x, v) \<in> set (ivs (body G))"
    "case map_of (ivs G) x of Some cur \<Rightarrow> \<not> iv_contains cur v | None \<Rightarrow> False"
    using x by (auto simp: grown_def)
  have "distinct (map fst (ivs (body G)))" using b d by (simp add: moves_def)
  then have B: "iv_of (body G) x = v" using v(1) by (simp add: iv_of_def)
  obtain cur where c: "map_of (ivs G) x = Some cur" "\<not> iv_contains cur v"
    using v(2) by (auto split: option.splits)
  then have G: "iv_of G x = cur" by (simp add: iv_of_def)
  have fl: "flat_iv v" using b f B by (auto simp: moves_def flat_def)
  have "cur \<noteq> TOP" using c(2) fl by (auto simp: TOP_def iv_contains_def flat_iv_def is_len_def)
  moreover have "x \<in> I"
  proof (rule ccontr)
    assume "x \<notin> I"
    then have "x \<notin> J" using t G \<open>cur \<noteq> TOP\<close> by auto
    then have "v = cur" using b f B G \<open>x \<notin> I\<close> by (auto simp: moves_def flat_def)
    then show False using c(2) fl by simp
  qed
  ultimately show ?thesis using G by simp
qed

text \<open>What is known of the facts at a loop head.\<close>

definition head_facts :: "name set \<Rightarrow> name set \<Rightarrow> facts \<Rightarrow> bool" where
  "head_facts I J G \<longleftrightarrow> flat G \<and> distinct (map fst (ivs G)) \<and> distinct (map fst (minlens G)) \<and>
     (\<forall>x \<in> J - I. iv_of G x = TOP) \<and> set (nzs G) \<inter> I = {} \<and>
     (\<forall>w \<in> I \<union> J. map_of (minlens G) w = None)"

lemma head_facts_top_all: "head_facts I J G \<Longrightarrow> head_facts I J (top_all ks G)"
  by (simp add: head_facts_def top_all_flat top_all_keys top_all_iv)

text \<open>A guess nothing escapes from is inductive.\<close>

lemma head_facts_covers:
  assumes b: "moves I J G (body G)" and s: "head_facts I J G" and IJ: "I \<inter> J = {}"
    and g: "set (grown G (body G)) \<subseteq> {x. iv_of G x = TOP}"
  shows "covers G (body G)"
proof -
  have iv: "iv_of G k = TOP \<or> iv_contains (iv_of G k) (iv_of (body G) k)" for k
  proof (cases "iv_of G k = TOP")
    case False
    then obtain cur where c: "map_of (ivs G) k = Some cur" by (auto simp: iv_of_def split: option.splits)
    have J: "k \<notin> J" using False s IJ by (auto simp: head_facts_def)
    then obtain v where v: "map_of (ivs (body G)) k = Some v" using b c by (auto simp: moves_def)
    then have "(k, v) \<in> set (ivs (body G))" by (rule map_of_SomeD)
    moreover have "k \<notin> set (grown G (body G))" using g False by auto
    ultimately have "iv_contains cur v" using c by (force simp: grown_def)
    then show ?thesis using c v by (simp add: iv_of_def)
  qed simp
  have "x \<in> set (nzs (body G))" if "x \<in> set (nzs G)" for x
    using that b s by (auto simp: moves_def head_facts_def)
  moreover have "\<exists>k. map_of (minlens (body G)) w = Some k \<and> m \<le> k" if "(w, m) \<in> set (minlens G)" for w m
  proof -
    have m: "map_of (minlens G) w = Some m" using that s by (simp add: head_facts_def)
    moreover have "\<forall>w \<in> I \<union> J. map_of (minlens G) w = None" using s unfolding head_facts_def by blast
    ultimately have "w \<notin> I \<union> J" by auto
    then show ?thesis using b m unfolding moves_def by auto
  qed
  ultimately show ?thesis
    using iv by (fastforce simp: covers_def list_all_iff split: option.splits)
qed

text \<open>As many rounds as names are written confirm the guess.\<close>

lemma verify_covers:
  assumes b: "\<And>G. moves I J G (body G)" and IJ: "I \<inter> J = {}" and fin: "finite I"
  shows "head_facts I J G \<Longrightarrow> card {x \<in> I. iv_of G x \<noteq> TOP} \<le> n \<Longrightarrow>
    covers (verify_rounds n body G) (body (verify_rounds n body G))"
proof (induction n arbitrary: G)
  case 0
  then have none: "\<forall>x \<in> I. iv_of G x = TOP" using fin by auto
  have "set (grown G (body G)) \<subseteq> {x. iv_of G x = TOP}"
  proof
    fix x assume "x \<in> set (grown G (body G))"
    then have "x \<in> I" using grown_written [of I J G body, OF b] 0(1) unfolding head_facts_def by blast
    then show "x \<in> {x. iv_of G x = TOP}" using none by simp
  qed
  then show ?case using head_facts_covers [of I J G body, OF b 0(1) IJ] by simp
next
  case (Suc n)
  let ?g = "grown G (body G)"
  show ?case
  proof (cases "?g = []")
    case True
    then show ?thesis using head_facts_covers [of I J G body, OF b Suc.prems(1) IJ] by simp
  next
    case False
    then obtain x where x: "x \<in> set ?g" by (cases ?g) auto
    then have xI: "x \<in> I" "iv_of G x \<noteq> TOP"
      using grown_written [of I J G body, OF b] Suc.prems(1) unfolding head_facts_def by blast+
    have "{y \<in> I. iv_of (top_all ?g G) y \<noteq> TOP} \<subset> {y \<in> I. iv_of G y \<noteq> TOP}"
      using x xI by (auto simp: top_all_iv)
    then have "card {y \<in> I. iv_of (top_all ?g G) y \<noteq> TOP} < card {y \<in> I. iv_of G y \<noteq> TOP}"
      using fin by (intro psubset_card_mono) auto
    then have "covers (verify_rounds n body (top_all ?g G)) (body (verify_rounds n body (top_all ?g G)))"
      using Suc.prems by (intro Suc.IH head_facts_top_all) auto
    then show ?thesis using False by (simp add: Let_def)
  qed
qed

lemma join_minlens_distinct: "distinct (map fst (minlens (join_facts a b)))"
proof -
  have "distinct (map fst (concat (map g ks)))"
    if "\<And>k. g k = [] \<or> (\<exists>v. g k = [(k, v)])" "distinct ks" for g :: "name \<Rightarrow> (name \<times> int) list" and ks
    using that(2)
  proof (induction ks)
    case (Cons k ks)
    have "x = k'" if "(x, v) \<in> set (g k')" for x v k'
      using that \<open>\<And>k. g k = [] \<or> (\<exists>v. g k = [(k, v)])\<close> [of k'] by auto
    then have "k \<notin> fst ` set (concat (map g ks))" using Cons.prems by fastforce
    moreover from that(1) have "g k = [] \<or> (\<exists>v. g k = [(k, v)])" .
    ultimately show ?case using Cons by (elim disjE exE) simp_all
  qed simp
  moreover have "distinct (keys2 (minlens a) (minlens b))" by (simp add: keys2_def)
  ultimately show ?thesis
    unfolding join_facts_def facts.simps by (auto split: option.split)
qed

lemma verify_moves:
  assumes b: "\<And>G. moves I J G (body G)"
  shows "moves I J F G \<Longrightarrow> head_facts I J G \<Longrightarrow> moves I J F (verify_rounds n body G)"
proof (induction n arbitrary: G)
  case (Suc n)
  have "set (grown G (body G)) \<subseteq> I"
    using grown_written [of I J G body, OF b] Suc.prems(2) unfolding head_facts_def by blast
  then show ?case
    using Suc.prems Suc.IH [OF moves_top_all head_facts_top_all] by (simp add: Let_def)
qed simp

lemma guess_head_facts:
  assumes b: "\<And>G. moves I J G (body G)"
  defines "f1 \<equiv> \<lambda>F. join_facts F (body F)"
  shows "moves I J F (widen_facts (f1 F) (f1 (f1 F))) \<and> head_facts I J (widen_facts (f1 F) (f1 (f1 F)))"
proof -
  have m: "moves I J G (f1 G)" for G
    using moves_join [OF moves_refl b [of G]] by (simp add: f1_def)
  have fl: "flat (f1 G)" "distinct (map fst (ivs (f1 G)))" "distinct (map fst (minlens (f1 G)))" for G
    by (simp_all add: f1_def join_minlens_distinct)
  have w: "moves I J (f1 F) (widen_facts (f1 F) (f1 (f1 F)))" by (rule moves_widen [OF m fl(2,1,1)])
  have "minlens (widen_facts (f1 F) (f1 (f1 F))) = minlens (f1 (f1 F))" by (simp add: widen_facts_def)
  then have "head_facts I J (widen_facts (f1 F) (f1 (f1 F)))"
    using w fl [of F] fl(3) [of "f1 F"] by (auto simp: head_facts_def moves_def)
  then show ?thesis using moves_trans [OF m w] by simp
qed

lemma while_moves:
  assumes "\<And>G. moves I J G (body G)"
  shows "moves I J F (while_inv body F)"
  using guess_head_facts [of I J body F, OF assms] verify_moves [of I J body, OF assms]
  by (simp add: while_inv_def Let_def)

lemma while_covers:
  assumes "\<And>G. moves I J G (body G)" and "I \<inter> J = {}" and "finite I" and "card I \<le> 4"
  shows "covers (while_inv body F) (body (while_inv body F))"
proof -
  have "card {x \<in> I. P x} \<le> 4" for P
    using assms(3,4) card_mono [of I "{x \<in> I. P x}"] by fastforce
  then show ?thesis
    using guess_head_facts [of I J body F, OF assms(1)] verify_covers [of I J body, OF assms(1-3)]
    by (simp add: while_inv_def Let_def)
qed

section \<open>Bodies\<close>

lemma tame_mutators: "tame N lens e \<Longrightarrow> len_mutators e = []"
  by (induction e rule: len_mutators.induct) (auto simp: list_all_iff split: option.splits)

lemma tame_drop: "list_all (tame N lens) es \<Longrightarrow> drop_mutated es F = F"
proof -
  assume "list_all (tame N lens) es"
  then have "concat (map len_mutators es) = []" using tame_mutators by (force simp: list_all_iff)
  then show ?thesis by (simp only: drop_mutated_def fold_simps)
qed

lemma prop_moves:
  "simple_block N Q lens d B ss \<Longrightarrow>
     moves (set (writes True ss)) (set (writes False ss)) F (snd (prop_block d ss F))"
  "simple_list N Q lens d B D ss \<Longrightarrow>
     moves (set (writes True ss)) (set (writes False ss)) F (snd (prop_list d ss F))"
  "simple_stmt N Q lens d B D s \<Longrightarrow>
     moves (set (writes1 True s)) (set (writes1 False s)) F (snd (prop_stmt d s F))"
proof (induction N Q lens d B ss and N Q lens d B D ss and N Q lens d B D s arbitrary: F and F and F
    rule: simple_block_simple_list_simple_stmt.induct)
  case (3 N Q lens d B D s ss)
  then show ?case
    using moves_trans [of _ _ F "snd (prop_stmt d s F)" _ _ "snd (prop_list d ss (snd (prop_stmt d s F)))"]
    by (simp add: case_prod_beta)
next
  case (4 N Q lens d B D x t e rp)
  then show ?case using moves_write [of t x F e]
    by (cases "t = ty_int") (simp_all add: tame_drop [of N lens])
next
  case (5 N Q lens d B D x t e rp)
  then show ?case using moves_write [of t x F e]
    by (cases "t = ty_int") (simp_all add: tame_drop [of N lens])
next
  case (8 N Q lens d B D c th el)
  then show ?case
    using moves_join [of _ _ F "snd (prop_block (d + 1) th F)" _ _ "snd (prop_block (d + 1) el F)"]
    by (simp add: Let_def case_prod_beta tame_drop [of N lens])
next
  case (9 N Q lens d B D c body)
  then show ?case by (auto simp: Let_def intro!: while_moves)
qed (auto simp: moves_refl tame_drop)

section \<open>What the facts speak of\<close>

definition len_in :: "name list \<Rightarrow> bool \<Rightarrow> interval \<Rightarrow> bool" where
  "len_in N lens iv \<longleftrightarrow> (\<forall>w d. iv_hi iv = Len w d \<longrightarrow> lens \<and> w \<in> set N)"

definition inside :: "name list \<Rightarrow> name list \<Rightarrow> bool \<Rightarrow> facts \<Rightarrow> bool" where
  "inside N Q lens F \<longleftrightarrow> (\<forall>(x, iv) \<in> set (ivs F). x \<in> set N \<and> len_in N lens iv) \<and>
     set (nzs F) \<subseteq> set Q \<and> fst ` set (minlens F) \<subseteq> set N"

lemma flat_len_in: "flat_iv iv \<Longrightarrow> len_in N lens iv"
  by (cases "iv_hi iv") (simp_all add: len_in_def flat_iv_def is_len_def)

lemma inside_iv:
  assumes "inside N Q lens F"
  shows "len_in N lens (iv_of F x)"
proof (cases "map_of (ivs F) x")
  case None
  then show ?thesis by (simp add: iv_of_def flat_len_in)
next
  case (Some iv)
  then show ?thesis using assms map_of_SomeD [OF Some] by (auto simp: inside_def iv_of_def)
qed

lemma interval_len_in: "inside N Q lens F \<Longrightarrow> len_in N lens (expr_interval F e)"
proof (cases "\<exists>x t. e = EIdent x t")
  case False
  then have "flat_iv (expr_interval F e)"
    by (cases e) (auto simp: Let_def split: binop.split)
  then show ?thesis by (rule flat_len_in)
qed (auto simp: inside_iv)

lemma interval_ident: "is_len (iv_hi (expr_interval F e)) \<Longrightarrow> ident_name e \<noteq> None"
proof (rule ccontr)
  assume l: "is_len (iv_hi (expr_interval F e))" and "\<not> ident_name e \<noteq> None"
  then have "flat_iv (expr_interval F e)" by (cases e) (auto simp: Let_def split: binop.split)
  then show False using l by (simp add: flat_iv_def)
qed

lemma inside_mentions:
  assumes F: "inside N Q lens F" and Q: "set Q \<subseteq> set N" and m: "mentions F x"
  shows "x \<in> set N"
proof -
  have iv: "y \<in> set N \<and> len_in N lens iv" if "(y, iv) \<in> set (ivs F)" for y iv
    using F that by (auto simp: inside_def)
  have l: "\<exists>y iv d. (y, iv) \<in> set (ivs F) \<and> iv_hi iv = Len x d"
    if ex: "list_ex (\<lambda>(_, iv). case iv_hi iv of Len w _ \<Rightarrow> w = x | _ \<Rightarrow> False) (ivs F)"
  proof -
    obtain y iv where "(y, iv) \<in> set (ivs F)" "case iv_hi iv of Len w _ \<Rightarrow> w = x | _ \<Rightarrow> False"
      using ex by (auto simp: list_ex_iff)
    then show ?thesis by (cases "iv_hi iv") auto
  qed
  consider iv where "map_of (ivs F) x = Some iv" | "x \<in> set (nzs F)" | k where "map_of (minlens F) x = Some k"
    | y iv d where "(y, iv) \<in> set (ivs F)" "iv_hi iv = Len x d"
    using m l unfolding mentions_def by blast
  then show ?thesis
  proof cases
    case (1 iv)
    then show ?thesis using iv [OF map_of_SomeD [OF 1]] by simp
  next
    case (3 k)
    then show ?thesis using F map_of_SomeD [OF 3] by (force simp: inside_def)
  next
    case (4 y iv d)
    then show ?thesis using iv [OF 4(1)] by (simp add: len_in_def)
  qed (use F Q in \<open>auto simp: inside_def\<close>)
qed

lemma tame_calm:
  assumes Q: "set Q \<subseteq> set N"
  shows "inside N Q lens F \<Longrightarrow> tame N lens e \<Longrightarrow> calm F e"
proof (induction F e rule: calm.induct)
  case (1 F op l r t ov dv)
  have "\<not> is_len (iv_hi (expr_interval F r))" if "\<not> lens \<or> ident_name r = None"
    using that interval_ident [of F r] interval_len_in [OF 1(3), of r] by (auto simp: len_in_def is_len_def split: bound.splits)
  then show ?case using 1 by auto
next
  case (10 F e arms)
  have "\<not> mentions F x" if "x \<notin> set N" for x using that inside_mentions [OF 10(3) Q] by blast
  then show ?case using 10 by (fastforce simp: list_all_iff split: pat.splits)
qed (auto simp: list_all_iff)

lemma update_in: "p \<in> set (AList.update x v ps) \<Longrightarrow> p = (x, v) \<or> p \<in> set ps"
  by (induction ps) (auto split: if_splits)

lemma inside_set_iv:
  "inside N Q lens F \<Longrightarrow> x \<in> set N \<Longrightarrow> len_in N lens iv \<Longrightarrow> inside N Q lens (set_iv x iv F)"
  by (auto simp: inside_def set_iv_def dest!: update_in)

lemma inside_drop_owner: "inside N Q lens F \<Longrightarrow> inside N Q lens (drop_owner w F)"
  by (auto simp: inside_def drop_owner_def len_in_def split: bound.splits if_splits)

lemma inside_write:
  assumes F: "inside N Q lens F" and x: "x \<in> set N"
  shows "inside N Q lens (write_var x t e F)"
proof -
  have "inside N Q lens (F\<lparr>nzs := removeAll x (nzs F)\<rparr>)" "inside N Q lens (del_iv x F)"
    using F by (auto simp: inside_def del_iv_def AList.delete_eq)
  then show ?thesis
    using x by (auto simp: write_var_def Let_def intro!: inside_set_iv inside_drop_owner interval_len_in)
qed

lemma inside_join:
  assumes a: "inside N Q lens a" and b: "inside N Q lens' b"
  shows "inside N Q False (join_facts a b)"
proof -
  have k: "x \<in> set N" if "x \<in> set (keys2 (ivs a) (ivs b))" for x
    using that a b by (auto simp: keys2_Un inside_def)
  have m: "x \<in> set N" if "x \<in> set (keys2 (minlens a) (minlens b))" for x
    using that a b by (auto simp: keys2_Un inside_def)
  have "len_in N False (case (map_of (ivs a) x, map_of (ivs b) x) of
      (Some i, Some j) \<Rightarrow> iv_widen i j | _ \<Rightarrow> TOP)" for x
    by (rule flat_len_in) (simp split: option.split)
  moreover have "set (nzs (join_facts a b)) \<subseteq> set Q" using a by (auto simp: inside_def join_facts_def)
  moreover have "fst ` set (minlens (join_facts a b)) \<subseteq> set N"
    using m by (auto simp: join_facts_def split: option.splits)
  ultimately show ?thesis using k by (auto simp: inside_def join_facts_def)
qed

lemma inside_flat: "inside N Q False F \<Longrightarrow> inside N Q lens F"
  by (auto simp: inside_def len_in_def)

lemma inside_widen: "inside N Q False b \<Longrightarrow> inside N Q False (widen_facts a b)"
  by (auto simp: inside_def widen_facts_def flat_len_in split: option.splits)

lemma inside_top_all: "inside N Q lens F \<Longrightarrow> inside N Q lens (top_all ks F)"
  by (auto simp: inside_def top_all_def flat_len_in)

lemma inside_while:
  assumes F: "inside N Q lens F" and b: "\<And>G lens. inside N Q lens G \<Longrightarrow> inside N Q lens (body G)"
  shows "inside N Q False (while_inv body F)"
proof -
  have j: "inside N Q False (join_facts G (body G))" if "inside N Q lens' G" for G lens'
    using inside_join that b by blast
  have "inside N Q False G \<Longrightarrow> inside N Q False (verify_rounds n body G)" for n G
    by (induction n arbitrary: G) (simp_all add: Let_def inside_top_all)
  then show ?thesis
    using inside_widen j [OF j [OF F]] by (simp add: while_inv_def Let_def)
qed

lemma prop_inside:
  "simple_block N Q lens d B ss \<Longrightarrow> set (writes True ss @ writes False ss) \<subseteq> set N \<Longrightarrow>
     inside N Q l F \<Longrightarrow> inside N Q l (snd (prop_block d ss F))"
  "simple_list N Q lens d B D ss \<Longrightarrow> set (writes True ss @ writes False ss) \<subseteq> set N \<Longrightarrow>
     inside N Q l F \<Longrightarrow> inside N Q l (snd (prop_list d ss F))"
  "simple_stmt N Q lens d B D s \<Longrightarrow> set (writes1 True s @ writes1 False s) \<subseteq> set N \<Longrightarrow>
     inside N Q l F \<Longrightarrow> inside N Q l (snd (prop_stmt d s F))"
proof (induction N Q lens d B ss and N Q lens d B D ss and N Q lens d B D s arbitrary: F l and F l and F l
    rule: simple_block_simple_list_simple_stmt.induct)
  case (4 N Q lens d B D x t e rp)
  then show ?case by (cases "t = ty_int") (simp_all add: tame_drop [of N lens] inside_write)
next
  case (5 N Q lens d B D x t e rp)
  then show ?case by (cases "t = ty_int") (simp_all add: tame_drop [of N lens] inside_write)
next
  case (8 N Q lens d B D c th el)
  then show ?case
    by (auto simp: Let_def case_prod_beta tame_drop [of N lens] intro!: inside_flat [OF inside_join])
next
  case (9 N Q lens d B D c body)
  then show ?case by (auto simp: Let_def intro!: inside_flat [OF inside_while])
qed (auto simp: tame_drop case_prod_beta)

text \<open>The bodies of the fragment pass the check.\<close>

lemma few_writes_covers:
  assumes "few_writes body" and "simple_block N Q False (d + 1) B body"
  shows "covers (while_inv (\<lambda>G. snd (prop_block (d + 1) body G)) F)
    (snd (prop_block (d + 1) body (while_inv (\<lambda>G. snd (prop_block (d + 1) body G)) F)))"
proof (rule while_covers [OF prop_moves(1) [OF assms(2)]])
  show "set (writes True body) \<inter> set (writes False body) = {}" "card (set (writes True body)) \<le> 4"
    using assms(1) by (auto simp: few_writes_def list_all_iff length_remdups_card_conv)
qed simp

lemma simple_cert:
  "simple_block N Q lens d B ss \<Longrightarrow> set Q \<union> set (writes True ss @ writes False ss) \<subseteq> set N \<Longrightarrow>
     inside N Q lens F \<Longrightarrow> cert_block d B [] ss F"
  "simple_list N Q lens d B D ss \<Longrightarrow> set Q \<union> set (writes True ss @ writes False ss) \<subseteq> set N \<Longrightarrow>
     inside N Q lens F \<Longrightarrow> cert_list d B D ss F"
  "simple_stmt N Q lens d B D s \<Longrightarrow> set Q \<union> set (writes1 True s @ writes1 False s) \<subseteq> set N \<Longrightarrow>
     inside N Q lens F \<Longrightarrow> cert_stmt d B D s F"
proof (induction N Q lens d B ss and N Q lens d B D ss and N Q lens d B D s arbitrary: F and F and F
    rule: simple_block_simple_list_simple_stmt.induct)
  case (3 N Q lens d B D s ss)
  then show ?case using prop_inside(3) [of N Q lens d B D s lens F] by auto
next
  case (4 N Q lens d B D x t e rp)
  then show ?case using tame_calm [of Q N lens F e] by (auto simp: inside_def)
next
  case (5 N Q lens d B D x t e rp)
  then show ?case using tame_calm [of Q N lens F e] by (auto simp: inside_def)
next
  case (8 N Q lens d B D c th el)
  then show ?case using tame_calm [of Q N lens F c] by (auto simp: tame_drop [of N lens])
next
  case (9 N Q lens d B D c body)
  define I where "I = while_inv (\<lambda>G. snd (prop_block (d + 1) body G)) F"
  have s: "tame N False c" "simple_block N Q False (d + 1) (B @ D) body" "few_writes body"
    using 9 by simp_all
  have I: "inside N Q False I"
    unfolding I_def using 9 s(2) prop_inside(1) by (intro inside_while) auto
  have "covers I (snd (prop_block (d + 1) body I))" unfolding I_def by (rule few_writes_covers [OF s(3,2)])
  moreover have "cert_block (d + 1) (B @ D) [] body I" using 9 I s by auto
  moreover have "calm I c" using tame_calm [of Q N False I c] 9 I s by auto
  ultimately show ?case by (simp only: cert_stmt.simps Let_def I_def)
qed (auto intro: tame_calm)

section \<open>The facts of the clause\<close>

lemma inside_refine:
  assumes F: "inside N Q lens F" and x: "x \<in> set N" and h: "\<And>w d. hi = Len w d \<Longrightarrow> lens \<and> w \<in> set N"
    and lo: "\<not> is_len lo"
  shows "inside N Q lens (refine F x lo hi)"
proof -
  have "len_in N lens (iv_of F x)" by (rule inside_iv [OF F])
  then show ?thesis
    unfolding refine_def Let_def if_not_P [OF lo]
    using h by (intro inside_set_iv [OF F x]) (auto simp: len_in_def split: bound.splits)
qed

lemma inside_refine_nz: "inside N Q lens F \<Longrightarrow> x \<in> set Q \<Longrightarrow> x \<in> set N \<Longrightarrow> inside N Q lens (refine_nz F x)"
  using inside_set_iv [of N Q lens F x "iv_of F x"] inside_iv [of N Q lens F x]
  by (auto simp: refine_nz_def Let_def inside_def)

lemma inside_bound_var:
  "inside N Q lens F \<Longrightarrow> x \<in> set Q \<Longrightarrow> set Q \<subseteq> set N \<Longrightarrow> inside N Q lens (bound_var F x op k left)"
  by (auto simp: bound_var_def Let_def is_len_def subset_iff intro!: inside_refine inside_refine_nz split: binop.split)

lemma inside_set_minlen: "inside N Q lens F \<Longrightarrow> w \<in> set N \<Longrightarrow> inside N Q lens (set_minlen F w k)"
  by (auto simp: set_minlen_def inside_def split: option.split dest!: update_in)

lemma owner_named: "len_owner e = ''?'' \<or> len_owner e \<in> set (expr_names e)"
  by (cases e rule: len_owner.cases) auto

lemma inside_seed_bound:
  assumes F: "inside N Q lens F" and Q: "set Q \<subseteq> set N" and n: "set (expr_names l @ expr_names r) \<subseteq> set Q"
    and w: "''?'' \<in> set N" and len: "is_len_call l \<or> is_len_call r \<Longrightarrow> lens"
  shows "inside N Q lens (seed_bound ps op l r F)"
proof -
  have v: "x \<in> set Q" if "int_var l ps = Some x \<or> int_var r ps = Some x" for x
    using that n by (cases l; cases r) (auto simp: int_var_def split: if_splits)
  have o: "len_owner l \<in> set N" "len_owner r \<in> set N" using owner_named [of l] owner_named [of r] n Q w by auto
  have ref: "inside N Q lens (refine F x Unknown (Len (len_owner e) d))"
    if "x \<in> set Q" "is_len_call e" "e = l \<or> e = r" for x e d
    using that Q o len by (intro inside_refine [OF F]) (auto simp: is_len_def)
  have sym: "inside N Q lens (bound_var F x p k b)" if "x \<in> set Q" for x p k b
    by (rule inside_bound_var [OF F that Q])
  show ?thesis
    using v F ref sym unfolding seed_bound_def by (auto split: option.split binop.split)
qed

lemma inside_seed_minlen:
  assumes F: "inside N Q lens F" and "len_owner e \<in> set N"
  shows "inside N Q lens (seed_minlen op e e' F)"
  using assms by (auto simp: seed_minlen_def intro!: inside_set_minlen split: option.split binop.split)

lemma is_len_uses: "is_len_call e \<Longrightarrow> uses_len e"
  by (cases e) auto

lemma inside_seed:
  assumes Q: "set Q \<subseteq> set N" and w: "''?'' \<in> set N"
  shows "inside N Q lens F \<Longrightarrow> set (expr_names q) \<subseteq> set Q \<Longrightarrow> (uses_len q \<Longrightarrow> lens) \<Longrightarrow>
    inside N Q lens (seed_walk q ps F)"
proof (induction q ps F rule: seed_walk.induct)
  case (1 op l r t ov dv ps F)
  show ?case
  proof (cases "op = OpAnd")
    case True
    then show ?thesis using 1 by simp
  next
    case False
    have "inside N Q lens (seed_bound ps op l r F)"
      using 1(3-5) is_len_uses by (intro inside_seed_bound [OF _ Q _ w]) auto
    moreover have "len_owner l \<in> set N" "len_owner r \<in> set N"
      using owner_named [of l] owner_named [of r] 1(4) Q w by auto
    ultimately show ?thesis using False by (simp add: inside_seed_minlen)
  qed
qed simp_all

lemma elidable_cert:
  assumes "elidable q ps body"
  shows "cert_block 0 [] (map fst ps) body (seed_from_requires q ps)"
proof -
  let ?Q = "expr_names q"
  let ?N = "''?'' # ?Q @ writes True body @ writes False body"
  have "inside ?N ?Q (uses_len q) no_facts" by (simp add: inside_def no_facts_def)
  then have "inside ?N ?Q (uses_len q) (seed_from_requires q ps)"
    unfolding seed_from_requires_def by (intro inside_seed) auto
  then have "cert_list 0 [] (map fst ps) body (seed_from_requires q ps)"
    using assms by (intro simple_cert(2) [of ?N ?Q "uses_len q"]) (auto simp: elidable_def)
  then show ?thesis by (simp add: MAX_DEPTH_def)
qed

end
