(* ===== verification/EngineProps.thy ===== *)
theory EngineProps
  imports Run ConstEval PlainBody
begin

text \<open>
  The properties of the interpreter, of the proof engine and of constant evaluation, with the
  concrete programs they are applied to. The theorems that refute an expectation name the shape of
  program on which a verdict of the engine is wrong.
\<close>

section \<open>A concrete context\<close>

text \<open>Some operations on float patterns; no program below computes with floats.\<close>

definition ops0 :: float_ops where
  "ops0 = \<lparr>f_add = (\<lambda>a b. a + b), f_sub = (\<lambda>a b. a - b), f_mul = (\<lambda>a b. a * b), f_div = (\<lambda>a b. a),
     f_mod = (\<lambda>a b. a), f_neg = (\<lambda>a. - a), f_lt = (<), f_eq = (=), f_zero = (\<lambda>a. a = 0)\<rparr>"

definition C0 :: ctx where
  "C0 = \<lparr>fns = Map.empty, structs = Map.empty, contracts = True, elide = False, flops = ops0\<rparr>"

definition state0 :: "scope \<Rightarrow> hobj list \<Rightarrow> ist" where
  "state0 sc hp = \<lparr>env = [sc], heap = hp, out = [], errout = [], rng = 1, frames = []\<rparr>"

abbreviation var :: "name \<Rightarrow> expr" where "var x \<equiv> EIdent x ty_int"

abbreviation bin :: "binop \<Rightarrow> expr \<Rightarrow> expr \<Rightarrow> expr" where
  "bin op l r \<equiv> EBin op l r ty_int False False"

abbreviation cmp :: "binop \<Rightarrow> expr \<Rightarrow> expr \<Rightarrow> expr" where
  "cmp op l r \<equiv> EBin op l r ''bool'' False False"

abbreviation list_len :: "name \<Rightarrow> expr" where
  "list_len xs \<equiv> EMethod (EIdent xs ''[]int'') ''len'' [] (Builtin ''list.len'') False"

section \<open>A function under its contract\<close>

text \<open>\<open>fn at(xs: []int, i: int) requires i >= 0 && i < xs.len()\<close>
  with the body \<open>let y: int = xs[i]; while y > 0 { y = xs[i]; return xs[i] }; return xs[i]\<close>.\<close>

definition at_params :: "param list" where
  "at_params = [(''xs'', ''[]int'', False), (''i'', ty_int, False)]"

definition at_requires :: expr where
  "at_requires = cmp OpAnd (cmp OpGe (var ''i'') (EInt 0)) (cmp OpLt (var ''i'') (list_len ''xs''))"

definition at_body :: "stmt list" where
  "at_body = [SLet ''y'' ty_int (EIndex (EIdent ''xs'' ''[]int'') (var ''i'') False) None,
     SWhile (cmp OpGt (var ''y'') (EInt 0))
       [SAssign (LIdent ''y'' ty_int) (EIndex (EIdent ''xs'' ''[]int'') (var ''i'') False) None,
        stmt.SReturn (Some (EIndex (EIdent ''xs'' ''[]int'') (var ''i'') False))],
     stmt.SReturn (Some (EIndex (EIdent ''xs'' ''[]int'') (var ''i'') False))]"

definition at_state :: ist where
  "at_state = state0 [''xs'' \<mapsto> VRef 0, ''i'' \<mapsto> VInt 1] [HList [VInt 5, VInt 7]]"

lemma at_facts:
  "seed_from_requires at_requires at_params =
   \<lparr>ivs = [(''i'', Iv (Num 0) (Len ''xs'' (-1)))], nzs = [], minlens = []\<rparr>"
  by (simp add: engine_run at_requires_def at_params_def cong: run_cong)

lemma at_elidable: "elidable at_requires at_params at_body"
  by (simp add: elidable_def at_requires_def at_params_def at_body_def few_writes_def MAX_DEPTH_def)

lemma at_run:
  "eval_expr (checked_ctx C0) 9 at_requires at_state = (Inr (VBool True), at_state)"
  by (simp add: run at_requires_def at_state_def state0_def builtin_method_def list_method_def
      strict_bin_def getS_def cong: run_cong)

lemma bind_params_dom: "bind_params ps vs = Some sc \<Longrightarrow> dom sc \<subseteq> set (map fst ps)"
proof -
  have "dom (fold (\<lambda>(p, v) sc. sc(fst p \<mapsto> v)) xs sc0) \<subseteq> dom sc0 \<union> fst ` fst ` set xs"
    for xs :: "(param \<times> val) list" and sc0
    by (induction xs arbitrary: sc0) (force split: if_splits)+
  from this [of "zip ps vs" Map.empty] show "bind_params ps vs = Some sc \<Longrightarrow> dom sc \<subseteq> set (map fst ps)"
    by (force simp: bind_params_def dest: set_zip_leftD split: if_splits)
qed

lemma entry_scope:
  assumes "bind_params ps vs = Some sc" and "env s = [sc]" and "''?'' \<notin> set (map fst ps)"
  shows "scope_ok [] (map fst ps) s \<and> lookup (env s) ''?'' = None"
proof -
  have "dom sc \<subseteq> set (map fst ps)" by (rule bind_params_dom [OF assms(1)])
  then show ?thesis using assms(2,3) by (auto simp: scope_ok_def split: option.split)
qed

text \<open>
  C1. Eliding the checks the engine proves is sound in the fragment \<open>elidable\<close> describes by syntax:
  in the scope of a call in which the \<open>requires\<close> clause, made of literals, parameters, arithmetic,
  comparisons, fields, indices, matches, enum values and lengths, is true, running the annotated body with its proved
  checks left out is running the body with every check in place: same outcome, same state. The fragment
  leaves out \<open>for\<close>, \<open>break\<close> and \<open>continue\<close>, user calls, \<open>push\<close> and \<open>pop\<close>, struct literals,
  refinements, names shadowed by a declaration or a pattern, writes to elements and fields of anything but a
  variable, names a loop writes both at \<open>int\<close> and at another type, names of the clause written at another
  type than \<open>int\<close>, a variable as divisor outside loops where the clause speaks of a length, blocks nested
  deeper than 32, loops that write more than four names at type \<open>int\<close>, and nodes that carry a verdict already.\<close>

theorem checks_elided:
  assumes "pure q" and "elidable q ps body"
    and "bind_params ps vs = Some sc" and "env s = [sc]"
    and "eval_expr C m q s = (Inr v, s')" and "truthy C s' v"
  shows "exec_stmts (elided_ctx C) n (fst (propagate_stmts body (seed_from_requires q ps))) s =
         exec_stmts (checked_ctx C) n body s"
proof -
  have e: "scope_ok [] (map fst ps) s" "lookup (env s) ''?'' = None"
    using entry_scope [OF assms(3,4)] assms(2) by (simp_all add: elidable_def)
  have "facts_ok (seed_from_requires q ps) s"
    unfolding seed_from_requires_def using assms e(2) no_facts_ok by (blast intro: seed_walk_ok)
  then show ?thesis by (rule propagate_elide [OF elidable_cert [OF assms(2)] _ e(1)])
qed

theorem checks_elided_witness:
  "exec_stmts (elided_ctx (checked_ctx C0)) 9
     (fst (propagate_stmts at_body (seed_from_requires at_requires at_params))) at_state =
   exec_stmts (checked_ctx (checked_ctx C0)) 9 at_body at_state"
  by (rule checks_elided [of _ _ _ "[VRef 0, VInt 1]" "[''xs'' \<mapsto> VRef 0, ''i'' \<mapsto> VInt 1]", OF _ at_elidable _ _ at_run])
     (simp_all add: at_requires_def at_params_def bind_params_def at_state_def state0_def truthy_def fun_eq_iff)

section \<open>Intervals and seeding\<close>

lemma at_facts_ok: "facts_ok (seed_from_requires at_requires at_params) at_state"
  unfolding seed_from_requires_def
  by (rule seed_walk_ok [OF no_facts_ok _ _ at_run])
     (simp_all add: at_requires_def at_state_def state0_def truthy_def)

text \<open>
  C16. The interval the engine computes for an expression contains the integer the expression
  evaluates to in every state the facts hold of, and an addition, subtraction or multiplication the
  engine declares overflow-free does not overflow on the values of its operands.\<close>

theorem intervals_sound:
  assumes "facts_ok F s" and "eval_expr C n l s = (Inr (VInt i), s1)"
    and "eval_expr C m r s = (Inr (VInt j), s2)"
  shows "iv_has (len_at_least s) (expr_interval F l) i \<and>
         (bin_overflow_ok F op l r \<longrightarrow> (\<exists>k. arith_result op i j = Inr k))"
  using interval_sound [OF assms(1,2)] interval_sound [OF assms(1,3)] overflow_verdict by blast

definition small_facts :: facts where
  "small_facts = \<lparr>ivs = [(''x'', Iv (Num 0) (Num 10))], nzs = [], minlens = []\<rparr>"

lemma small_facts_ok: "facts_ok small_facts (state0 [''x'' \<mapsto> VInt 4] [])"
  by (simp add: facts_ok_def small_facts_def state0_def iv_of_def iv_has_defs TOP_def)

theorem intervals_sound_witness:
  "iv_has (len_at_least (state0 [''x'' \<mapsto> VInt 4] [])) (expr_interval small_facts (var ''x'')) 4 \<and>
   (\<exists>k. arith_result OpMul 4 2 = Inr k)"
  using intervals_sound [OF small_facts_ok, of C0 2 "var ''x''" 4 "state0 [''x'' \<mapsto> VInt 4] []" 2 "EInt 2" 2
      "state0 [''x'' \<mapsto> VInt 4] []" OpMul]
  by (simp add: run state0_def engine_run small_facts_def)

text \<open>
  C17. Seeding is sound: the facts taken from a \<open>requires\<close> clause hold of every state in which the
  clause evaluates to true.\<close>

theorem seeding_sound:
  assumes "pure q" and "lookup (env s) ''?'' = None"
    and "eval_expr C n q s = (Inr v, s')" and "truthy C s' v"
  shows "facts_ok (seed_from_requires q ps) s"
  unfolding seed_from_requires_def using assms no_facts_ok by (blast intro: seed_walk_ok)

theorem seeding_sound_witness: "facts_ok (seed_from_requires at_requires at_params) at_state"
  by (rule seeding_sound [OF _ _ at_run])
     (simp_all add: at_requires_def at_state_def state0_def truthy_def)

section \<open>The evaluator\<close>

text \<open>\<open>n = 0; while n < 3 { n = n + 1 }; return n\<close>\<close>

definition count_prog :: "stmt list" where
  "count_prog = [SLet ''n'' ty_int (EInt 0) None,
     SWhile (cmp OpLt (var ''n'') (EInt 3))
       [SAssign (LIdent ''n'' ty_int) (bin OpAdd (var ''n'') (EInt 1)) None],
     stmt.SReturn (Some (var ''n''))]"

lemma count_run:
  "exec_stmts C0 9 count_prog (state0 Map.empty []) =
     (Inl (sig.SReturn (VInt 3)), state0 [''n'' \<mapsto> VInt 3] [])"
  by (simp add: run count_prog_def state0_def C0_def strict_bin_def fun_upd_idem cong: run_cong)

text \<open>
  The bound on the nesting depth is only a bound: a program that ends in any outcome but
  running out of it ends in the same outcome and state with every larger bound.\<close>

theorem fuel_irrelevant:
  assumes "exec_stmts C n ss s = (r, s')" and "r \<noteq> Inl SFuel" and "n \<le> m"
  shows "exec_stmts C m ss s = (r, s')"
  using exec_stmts_mono [OF assms(3), of C ss] assms(1,2) by (simp add: ev_le_def)

theorem fuel_irrelevant_witness:
  "exec_stmts C0 1000 count_prog (state0 Map.empty []) =
     (Inl (sig.SReturn (VInt 3)), state0 [''n'' \<mapsto> VInt 3] [])"
  by (rule fuel_irrelevant [OF count_run]) simp_all

text \<open>
  Evaluating an expression leaves every scope as it was, whatever it calls and however it
  ends: the callee's scope and the scopes of match arms are gone when it is over.\<close>

lemma eval_keeps_scopes: "env (snd (eval_expr C n e s)) = env s"
  using eval_keeps_env by (metis prod.collapse)

section \<open>Calls with literal arguments\<close>

lemma map_literals:
  "map literal args = map Some vs \<Longrightarrow> mapS (eval_expr C n) args s = (Inr ws, s') \<Longrightarrow> ws = vs \<and> s' = s"
proof (induction args arbitrary: vs ws)
  case (Cons a as)
  then obtain v vs' where v: "vs = v # vs'" "literal a = Some v" "map literal as = map Some vs'"
    by auto
  obtain w ws' s1 where w: "eval_expr C n a s = (Inr w, s1)" "mapS (eval_expr C n) as s1 = (Inr ws', s')"
    "ws = w # ws'"
    using Cons.prems(2) by (auto simp: bindS_Inr ret_def)
  obtain m where "n = Suc m" using w(1) eval_not_zero by blast
  then have "w = v \<and> s1 = s" using literal_eval [OF v(2), of C m s] w(1) by simp
  then show ?case using Cons.IH v w by blast
qed (simp add: ret_def)

text \<open>A call that returns ran its \<open>requires\<close> clause, in the scope of its parameters, to true.\<close>

lemma call_requires:
  assumes "call_fn C n key vs s = (Inr v, s')" and "fns C key = Some f" and "fn_requires f = Some q"
    and "contracts C"
  shows "\<exists>m sc s1 w s2. bind_params (fn_params f) vs = Some sc \<and> env s1 = [sc] \<and>
           eval_expr C m q s1 = (Inr w, s2) \<and> truthy C s2 w"
proof -
  obtain m where n: "n = Suc m" using assms(1) by (cases n) (auto simp: raise_def)
  obtain sc where sc: "bind_params (fn_params f) vs = Some sc"
    using assms(1,2) by (auto simp: n call_fn.simps(2) raise_def split: option.splits if_splits)
  let ?preds = "\<lambda>p. case map_of (fn_param_preds f) (fst p) of
       Some rf \<Rightarrow> bindS getS (\<lambda>s. check_refine C m rf (case lookup (env s) (fst p) of Some v \<Rightarrow> v | None \<Rightarrow> VNone)
           (''parameter '' @ quoted (fst p) @ '' of '' @ quoted key))
     | None \<Rightarrow> ret ()"
  let ?ps = "if fn_method f then tl (fn_params f) else fn_params f"
  let ?req = "bindS (eval_expr C m q) (\<lambda>v. bindS getS (\<lambda>s. if truthy C s v then ret ()
       else panic (contract_msg ''requires'' (fn_name f) ''precondition'')))"
  have "\<not> fn_extern f"
    using assms(1,2) by (auto simp: n call_fn.simps(2) raise_def)
  note eq = assms(1) [unfolded n call_fn.simps(2) assms(2,3) option.case if_not_P [OF this] sc if_P [OF assms(4)]]
  obtain rest :: "unit \<Rightarrow> call_result ev" and k where "bindS (with_env [sc] (bindS (iterS ?preds ?ps) (\<lambda>_. bindS ?req rest))) k s =
      (Inr v, s')"
    using eq by (rule that)
  then obtain s0 s1 x where pre: "iterS ?preds ?ps s0 = (Inr (), s1)" "env s0 = [sc]"
    and req: "?req s1 = (Inr (), x)"
    by (auto simp: bindS_Inr with_env_def split: prod.splits)
  have "ke.pres (check_refine C m rf w t)" for rf w t
    using refine_keeps_env [of C m rf w t]
    by (auto simp: ke.pres_def keep_env_def) (metis prod.collapse)
  then have "ke.pres (iterS ?preds ?ps)" by (intro ke.pres_rules)
  then have "env s1 = [sc]" using pre ke.presD by (fastforce simp: keep_env_def)
  moreover obtain w s2 where "eval_expr C m q s1 = (Inr w, s2)" "truthy C s2 w"
    using req by (auto simp: bindS_Inr getS_def raise_def split: if_splits)
  ultimately show ?thesis using sc by blast
qed

text \<open>
  A call whose literal arguments the checker finds to falsify the \<open>requires\<close> clause never
  returns a value when contracts are checked: rejecting the program loses nothing.\<close>

theorem refuted_call_never_returns:
  assumes "fns C key = Some f" and "fn_requires f = Some q" and "contracts C" and "pure q"
    and "args_are_const (fn_params f) args = Some cs"
    and "const_eval (flops C) q cs = Some (VBool False)"
  shows "fst (eval_expr C n (ECall g (User key) args) s) \<noteq> Inr v"
proof
  assume v: "fst (eval_expr C n (ECall g (User key) args) s) = Inr v"
  then obtain s' where ev: "eval_expr C n (ECall g (User key) args) s = (Inr v, s')"
    by (metis prod.collapse)
  then obtain m where n: "n = Suc m" using eval_not_zero by blast
  obtain vs where vs: "map literal args = map Some vs" "bind_params (fn_params f) vs = Some cs"
    using args_are_const_bind [OF assms(5)] by blast
  have "bindS (mapS (eval_expr C m) args) (call_fn C m key) s = (Inr v, s')"
    using ev by (simp add: n eval_expr.simps(2))
  then have "call_fn C m key vs s = (Inr v, s')"
    unfolding bindS_Inr using map_literals [OF vs(1)] by blast
  from call_requires [OF this assms(1-3)] vs(2) obtain k s1 w s2 where
    q: "env s1 = [cs]" "eval_expr C k q s1 = (Inr w, s2)" "truthy C s2 w" by auto
  have "w = VBool False" using const_eval_agrees [OF assms(4,6) _ q(2)] q(1) by simp
  then show False using q(3) by (simp add: truthy_def)
qed

text \<open>\<open>fn inv(d: int) -> int requires d != 0 { return 10 / d }\<close>\<close>

definition inv_fn :: fn where
  "inv_fn = \<lparr>fn_name = ''inv'', fn_method = False, fn_params = [(''d'', ty_int, False)],
     fn_body = [stmt.SReturn (Some (bin OpDiv (EInt 10) (var ''d'')))],
     fn_requires = Some (cmp OpNe (var ''d'') (EInt 0)), fn_ensures = None, fn_param_preds = [],
     fn_ret_pred = None, fn_tail_call = False, fn_extern = False\<rparr>"

theorem refuted_call_never_returns_witness:
  "fst (eval_expr (C0\<lparr>fns := [''inv'' \<mapsto> inv_fn]\<rparr>) 9 (ECall ''inv'' (User ''inv'') [EInt 0])
     (state0 Map.empty [])) \<noteq> Inr (VInt 0)"
  by (rule refuted_call_never_returns [of _ _ inv_fn "cmp OpNe (var ''d'') (EInt 0)" _ "[''d'' \<mapsto> VInt 0]"])
     (simp_all add: inv_fn_def C0_def args_are_const_def const_bin_def const_int_bin_def)

section \<open>Where the verdicts are wrong\<close>

text \<open>\<open>let x = 1; while x == 1 { x = 0; if c { break }; x = 1 }; return 10 / x\<close>\<close>

definition break_body :: "stmt list" where
  "break_body =
     [SAssign (LIdent ''x'' ty_int) (EInt 0) None,
      SIf (EIdent ''c'' ''bool'') [stmt.SBreak] [],
      SAssign (LIdent ''x'' ty_int) (EInt 1) None]"

definition break_prog :: "stmt list" where
  "break_prog =
     [SLet ''x'' ty_int (EInt 1) None,
      SWhile (cmp OpEq (var ''x'') (EInt 1)) break_body,
      stmt.SReturn (Some (bin OpDiv (EInt 10) (var ''x'')))]"

definition break_state :: ist where "break_state = state0 [''c'' \<mapsto> VBool True] []"

definition x_is_1 :: facts where
  "x_is_1 = \<lparr>ivs = [(''x'', Iv (Num 1) (Num 1))], nzs = [], minlens = []\<rparr>"

lemma break_body_facts: "prop_list (Suc 0) break_body x_is_1 = (break_body, x_is_1)"
  by (simp add: engine_run break_body_def x_is_1_def cong: run_cong)

lemma break_inv: "while_inv (\<lambda>G. snd (prop_list (Suc 0) break_body G)) x_is_1 = x_is_1"
proof -
  have "join_facts x_is_1 x_is_1 = x_is_1" "widen_facts x_is_1 x_is_1 = x_is_1"
    "grown x_is_1 x_is_1 = []"
    by (simp_all add: engine_run x_is_1_def)
  then show ?thesis by (simp add: while_inv_def break_body_facts MAX_DEPTH_def verify_num Let_def)
qed

lemma break_annotated:
  "fst (propagate_stmts break_prog no_facts) =
     butlast break_prog @ [stmt.SReturn (Some (EBin OpDiv (EInt 10) (var ''x'') ty_int False True))]"
proof -
  have "prop_stmt 0 (SLet ''x'' ty_int (EInt 1) None) no_facts = (SLet ''x'' ty_int (EInt 1) None, x_is_1)"
    by (simp add: engine_run x_is_1_def)
  moreover have "prop_stmt 0 (SWhile (cmp OpEq (var ''x'') (EInt 1)) break_body) x_is_1 =
      (SWhile (cmp OpEq (var ''x'') (EInt 1)) break_body, x_is_1)"
    by (simp add: break_inv break_body_facts MAX_DEPTH_def Let_def)
  moreover have "div_ok x_is_1 (EInt 10) (var ''x'')"
    by (simp add: engine_run x_is_1_def)
  ultimately show ?thesis
    by (simp add: propagate_stmts_def MAX_DEPTH_def break_prog_def)
qed

text \<open>
  The facts at the exit of a loop miss the states in which it is left by \<open>break\<close>: the engine
  declares the division after the loop safe, and the divisor is zero there.\<close>

lemma break_exit_missed:
  "fst (exec_stmts (checked_ctx C0) 20 break_prog break_state) = Inl (SPanic div_zero) \<and>
   fst (exec_stmts (elided_ctx C0) 20 (fst (propagate_stmts break_prog no_facts)) break_state) =
     Inl SUnsafe"
proof
  show "fst (exec_stmts (checked_ctx C0) 20 break_prog break_state) = Inl (SPanic div_zero)"
    by (simp add: run break_prog_def break_body_def break_state_def state0_def C0_def strict_bin_def cong: run_cong)
  show "fst (exec_stmts (elided_ctx C0) 20 (fst (propagate_stmts break_prog no_facts)) break_state) =
     Inl SUnsafe"
    unfolding break_annotated
    by (simp add: run break_prog_def break_body_def break_state_def state0_def C0_def strict_bin_def cong: run_cong)
qed

text \<open>\<open>requires d != 0 && d >= -5 && d < xs.len()\<close>, and \<open>a / d\<close>.\<close>

definition div_requires :: expr where
  "div_requires = cmp OpAnd (cmp OpAnd (cmp OpNe (var ''d'') (EInt 0)) (cmp OpGe (var ''d'') (EInt (-5))))
     (cmp OpLt (var ''d'') (list_len ''xs''))"

definition div_params :: "param list" where
  "div_params = [(''a'', ty_int, False), (''d'', ty_int, False), (''xs'', ''[]int'', False)]"

definition div_state :: ist where
  "div_state = state0 [''a'' \<mapsto> VInt (-9223372036854775808), ''d'' \<mapsto> VInt (-1), ''xs'' \<mapsto> VRef 0] [HList []]"

text \<open>
  \<open>check_div_safe\<close> accepts a divisor that may be -1 when its upper bound is a length: with the
  clause above true, dividing the least integer by -1 is declared safe and overflows.\<close>

lemma div_guard_missed:
  "fst (eval_expr (checked_ctx C0) 9 div_requires div_state) = Inr (VBool True) \<and>
   fst (eval_expr (checked_ctx C0) 9 (bin OpDiv (var ''a'') (var ''d'')) div_state) =
     Inl (SPanic overflow) \<and>
   fst (eval_expr (elided_ctx C0) 9
     (annot (seed_from_requires div_requires div_params) (bin OpDiv (var ''a'') (var ''d''))) div_state) =
     Inl SUnsafe"
proof (intro conjI)
  show "fst (eval_expr (checked_ctx C0) 9 div_requires div_state) = Inr (VBool True)"
    by (simp add: run div_requires_def div_state_def state0_def C0_def strict_bin_def
        builtin_method_def list_method_def cong: run_cong)
  show "fst (eval_expr (checked_ctx C0) 9 (bin OpDiv (var ''a'') (var ''d'')) div_state) =
     Inl (SPanic overflow)"
    by (simp add: run div_state_def state0_def C0_def strict_bin_def cong: run_cong)
  have "seed_from_requires div_requires div_params =
     \<lparr>ivs = [(''d'', Iv (Num (-5)) (Len ''xs'' (-1)))], nzs = [''d''], minlens = []\<rparr>"
    by (simp add: engine_run div_requires_def div_params_def cong: run_cong)
  moreover have "div_ok \<dots> (var ''a'') (var ''d'')"
    by (simp add: engine_run)
  ultimately show "fst (eval_expr (elided_ctx C0) 9
     (annot (seed_from_requires div_requires div_params) (bin OpDiv (var ''a'') (var ''d''))) div_state) =
     Inl SUnsafe"
    by (simp add: run div_state_def state0_def C0_def strict_bin_def cong: run_cong)
qed

text \<open>\<open>xs.pop() + xs[0]\<close> and \<open>match v { V.A(i) => xs[i] }\<close> under facts of the enclosing scope.\<close>

definition pop_expr :: expr where
  "pop_expr = bin OpAdd (EMethod (EIdent ''xs'' ''[]int'') ''pop'' [] (Builtin ''list.pop'') False)
     (EIndex (EIdent ''xs'' ''[]int'') (EInt 0) False)"

definition nonempty_requires :: expr where
  "nonempty_requires = cmp OpGe (list_len ''xs'') (EInt 1)"

definition arm_expr :: expr where
  "arm_expr = EMatch (EIdent ''v'' ''V'')
     [(PVariant ''V'' ''A'' [''i''], EIndex (EIdent ''xs'' ''[]int'') (var ''i'') False)]"

definition pop_state :: ist where
  "pop_state = state0 [''xs'' \<mapsto> VRef 0, ''i'' \<mapsto> VInt 0, ''v'' \<mapsto> VEnum ''V'' ''A'' [VInt 8]] [HList [VInt 7]]"

text \<open>
  The facts are applied to a whole expression at once: an index is declared in bounds although
  a \<open>pop\<close> to its left in the same expression has shortened the list, and inside a match arm although
  the arm rebinds the index variable.\<close>

lemma expression_facts_stale:
  "fst (eval_expr (checked_ctx C0) 9 pop_expr pop_state) = Inl (SPanic (HLPanic out_of_bounds)) \<and>
   fst (eval_expr (elided_ctx C0) 9 (annot (seed_from_requires nonempty_requires at_params) pop_expr)
     pop_state) = Inl SUnsafe \<and>
   fst (eval_expr (checked_ctx C0) 9 arm_expr pop_state) = Inl (SPanic (HLPanic out_of_bounds)) \<and>
   fst (eval_expr (elided_ctx C0) 9 (annot (seed_from_requires at_requires at_params) arm_expr)
     pop_state) = Inl SUnsafe"
proof (intro conjI)
  note run_defs = run pop_state_def state0_def C0_def strict_bin_def builtin_method_def list_method_def
    out_of_bounds_def
  show "fst (eval_expr (checked_ctx C0) 9 pop_expr pop_state) = Inl (SPanic (HLPanic out_of_bounds))"
    by (simp add: run_defs pop_expr_def cong: run_cong)
  have "seed_from_requires nonempty_requires at_params = \<lparr>ivs = [], nzs = [], minlens = [(''xs'', 1)]\<rparr>"
    by (simp add: engine_run nonempty_requires_def at_params_def cong: run_cong)
  then have "annot (seed_from_requires nonempty_requires at_params) pop_expr =
     bin OpAdd (EMethod (EIdent ''xs'' ''[]int'') ''pop'' [] (Builtin ''list.pop'') False)
       (EIndex (EIdent ''xs'' ''[]int'') (EInt 0) True)"
    by (simp add: engine_run pop_expr_def)
  then show "fst (eval_expr (elided_ctx C0) 9
     (annot (seed_from_requires nonempty_requires at_params) pop_expr) pop_state) = Inl SUnsafe"
    by (simp add: run_defs cong: run_cong)
  show "fst (eval_expr (checked_ctx C0) 9 arm_expr pop_state) = Inl (SPanic (HLPanic out_of_bounds))"
    by (simp add: run_defs arm_expr_def cong: run_cong)
  have "annot (seed_from_requires at_requires at_params) arm_expr =
     EMatch (EIdent ''v'' ''V'')
       [(PVariant ''V'' ''A'' [''i''], EIndex (EIdent ''xs'' ''[]int'') (var ''i'') True)]"
    unfolding at_facts by (simp add: engine_run arm_expr_def)
  then show "fst (eval_expr (elided_ctx C0) 9
     (annot (seed_from_requires at_requires at_params) arm_expr) pop_state) = Inl SUnsafe"
    by (simp add: run_defs cong: run_cong)
qed

text \<open>
  Constant evaluation has no 64-bit range check on sums, differences, products and negations:
  it finds \<open>a + 1 > a\<close> true at the greatest integer, where evaluating the clause panics.\<close>

lemma const_overflow_missed:
  "const_eval ops0 (cmp OpGt (bin OpAdd (var ''a'') (EInt 1)) (var ''a'')) [''a'' \<mapsto> VInt INT64_MAX] =
     Some (VBool True) \<and>
   fst (eval_expr C0 9 (cmp OpGt (bin OpAdd (var ''a'') (EInt 1)) (var ''a''))
     (state0 [''a'' \<mapsto> VInt INT64_MAX] [])) = Inl (SPanic overflow)"
  by (simp add: run state0_def C0_def const_bin_def const_int_bin_def strict_bin_def cong: run_cong)

text \<open>\<open>while g == 0 { g = f; f = e; e = d; d = c; c = b; b = a; a = -1 }; return 10 / (g + 1)\<close>, from
  zeros: the value that falsifies the guess \<open>g = 0\<close> needs seven rounds to arrive.\<close>

abbreviation set_var :: "name \<Rightarrow> expr \<Rightarrow> stmt" where "set_var x e \<equiv> SAssign (LIdent x ty_int) e None"

definition chain_body :: "stmt list" where
  "chain_body = [set_var ''g'' (var ''f''), set_var ''f'' (var ''e''), set_var ''e'' (var ''d''),
     set_var ''d'' (var ''c''), set_var ''c'' (var ''b''), set_var ''b'' (var ''a''), set_var ''a'' (EInt (-1))]"

definition chain_prog :: "stmt list" where
  "chain_prog = [SWhile (cmp OpEq (var ''g'') (EInt 0)) chain_body,
     stmt.SReturn (Some (bin OpDiv (EInt 10) (bin OpAdd (var ''g'') (EInt 1))))]"

definition chain_facts :: "interval list \<Rightarrow> facts" where
  "chain_facts is = \<lparr>ivs = zip [''a'', ''b'', ''c'', ''d'', ''e'', ''f'', ''g''] is, nzs = [], minlens = []\<rparr>"

definition chain_state :: ist where
  "chain_state = state0 [''a'' \<mapsto> VInt 0, ''b'' \<mapsto> VInt 0, ''c'' \<mapsto> VInt 0, ''d'' \<mapsto> VInt 0,
     ''e'' \<mapsto> VInt 0, ''f'' \<mapsto> VInt 0, ''g'' \<mapsto> VInt 0] []"

lemma drop_owner_flats: "\<forall>(x, iv) \<in> set L. flat_iv iv \<Longrightarrow>
   drop_owner w \<lparr>ivs = L, nzs = [], minlens = []\<rparr> = \<lparr>ivs = L, nzs = [], minlens = []\<rparr>"
proof -
  assume "\<forall>(x, iv) \<in> set L. flat_iv iv"
  then have "map (\<lambda>(x, iv). (x, case iv_hi iv of
       Len v d \<Rightarrow> if v = w then Iv (numeric_bound (iv_lo iv)) Unknown else iv | _ \<Rightarrow> iv)) L = L"
    by (induction L) (auto simp: flat_iv_def is_len_def split: bound.split_asm bound.split)
  then show ?thesis by (simp add: drop_owner_def)
qed

lemma chain_write:
  assumes "\<forall>(x, iv) \<in> set L. flat_iv iv" and "len_mutators e = []"
  shows "snd (prop_list d (set_var x e # ss) \<lparr>ivs = L, nzs = [], minlens = []\<rparr>) =
    (let G = \<lparr>ivs = L, nzs = [], minlens = []\<rparr> in snd (prop_list d ss (set_iv x (expr_interval (drop_mutated [e] G) e) G)))"
  using assms by (simp add: Let_def case_prod_beta write_var_def drop_mutated_def drop_owner_flats)

lemma chain_step:
  assumes "list_all flat_iv [a, b, c, d, e, f, g]"
  shows "snd (prop_block (Suc 0) chain_body (chain_facts [a, b, c, d, e, f, g])) =
     chain_facts [iv_const (-1), a, b, c, d, e, f]"
  using assms
  by (simp add: chain_body_def chain_facts_def chain_write drop_mutated_def MAX_DEPTH_def
      set_iv_def iv_of_def Let_def iv_const_def del: prop_list.simps(2) prop_stmt.simps)
     (simp add: flat_iv_def is_len_def)?

lemma chain_ops:
  "join_facts (chain_facts [a, b, c, d, e, f, g]) (chain_facts [a', b', c', d', e', f', g']) =
     chain_facts [iv_widen a a', iv_widen b b', iv_widen c c', iv_widen d d', iv_widen e e', iv_widen f f', iv_widen g g']"
  "widen_facts (chain_facts [a, b, c, d, e, f, g]) (chain_facts [a', b', c', d', e', f', g']) =
     chain_facts [widen_growth a a', widen_growth b b', widen_growth c c', widen_growth d d',
       widen_growth e e', widen_growth f f', widen_growth g g']"
  by (simp_all add: chain_facts_def join_facts_def widen_facts_def keys2_def)

lemma chain_grown:
  "grown (chain_facts [a, b, c, d, e, f, g]) (chain_facts [a', b', c', d', e', f', g']) =
     concat [if iv_contains a a' then [] else [''a''], if iv_contains b b' then [] else [''b''],
       if iv_contains c c' then [] else [''c''], if iv_contains d d' then [] else [''d''],
       if iv_contains e e' then [] else [''e''], if iv_contains f f' then [] else [''f''],
       if iv_contains g g' then [] else [''g'']]"
  by (simp add: chain_facts_def grown_def)

lemma chain_top: "top_all [x] (chain_facts [a, b, c, d, e, f, g]) =
   chain_facts (map (\<lambda>(k, v). if k = x then TOP else v)
     (zip [''a'', ''b'', ''c'', ''d'', ''e'', ''f'', ''g''] [a, b, c, d, e, f, g]))"
  by (simp add: chain_facts_def top_all_def)

abbreviation "Z \<equiv> Iv (Num 0) (Num 0)"

lemma chain_inv: "while_inv (\<lambda>G. snd (prop_block (Suc 0) chain_body G)) (chain_facts [Z, Z, Z, Z, Z, Z, Z]) =
   chain_facts [Iv (Num (-1)) (Num 0), Iv Unknown (Num 0), TOP, TOP, TOP, TOP, Z]"
proof -
  have ops: "iv_widen (Iv (Num k) (Num l)) (Iv (Num m) (Num n)) = Iv (Num (min k m)) (Num (max l n))"
    for k l m n by (simp add: iv_widen_def b_op_def numeric_bound_def)
  have fl: "flat_iv (Iv (Num k) (Num l))" "flat_iv (Iv Unknown (Num l))" for k l
    by (simp_all add: flat_iv_def is_len_def)
  have con: "iv_contains (Iv (Num k) (Num l)) (Iv (Num m) (Num n)) \<longleftrightarrow> k \<le> m \<and> n \<le> l"
    "iv_contains (Iv Unknown (Num l)) (Iv (Num m) (Num n)) \<longleftrightarrow> n \<le> l"
    "\<not> iv_contains (Iv (Num k) (Num l)) (Iv Unknown (Num n))"
    "\<not> iv_contains (Iv (Num k) (Num l)) TOP" "\<not> iv_contains (Iv Unknown (Num l)) TOP"
    "iv_contains TOP (Iv (Num m) (Num n))" "iv_contains TOP (Iv Unknown (Num n))"
    "iv_contains (Iv Unknown (Num l)) (Iv Unknown (Num l))" "iv_contains TOP TOP" for k l m n
    by (auto simp: iv_contains_def is_len_def TOP_def)
  have gr: "widen_growth (Iv (Num k) (Num l)) (Iv (Num m) (Num n)) =
      Iv (if k \<le> m then Num k else Unknown) (if n \<le> l then Num l else Unknown)" for k l m n
    by (simp add: widen_growth_def numeric_bound_def)
  define step where "step = (\<lambda>G. snd (prop_block (Suc 0) chain_body G))"
  have st: "step (chain_facts [a, b, c, d, e, f, g]) = chain_facts [iv_const (-1), a, b, c, d, e, f]"
    if "list_all flat_iv [a, b, c, d, e, f, g]" for a b c d e f g
    unfolding step_def by (rule chain_step [OF that])
  note rules = st chain_ops chain_grown chain_top ops fl con gr iv_const_def
  have "while_inv step (chain_facts [Z, Z, Z, Z, Z, Z, Z]) = verify_rounds 4 step
      (chain_facts [Iv (Num (-1)) (Num 0), Iv Unknown (Num 0), Z, Z, Z, Z, Z])"
    by (simp add: while_inv_def Let_def rules)
  also have "\<dots> = verify_rounds 3 step
      (chain_facts [Iv (Num (-1)) (Num 0), Iv Unknown (Num 0), TOP, Z, Z, Z, Z])"
    by (simp add: verify_num Let_def rules)
  also have "\<dots> = verify_rounds 2 step
      (chain_facts [Iv (Num (-1)) (Num 0), Iv Unknown (Num 0), TOP, TOP, Z, Z, Z])"
    by (simp add: verify_num Let_def rules)
  also have "\<dots> = verify_rounds 1 step
      (chain_facts [Iv (Num (-1)) (Num 0), Iv Unknown (Num 0), TOP, TOP, TOP, Z, Z])"
    by (simp add: verify_num Let_def rules)
  also have "\<dots> = chain_facts [Iv (Num (-1)) (Num 0), Iv Unknown (Num 0), TOP, TOP, TOP, TOP, Z]"
    by (simp add: Let_def rules)
  finally show ?thesis unfolding step_def .
qed

lemma chain_annotated:
  "\<exists>b. fst (propagate_stmts chain_prog (chain_facts [Z, Z, Z, Z, Z, Z, Z])) =
     [SWhile (cmp OpEq (var ''g'') (EInt 0)) chain_body,
      stmt.SReturn (Some (EBin OpDiv (EInt 10) (EBin OpAdd (var ''g'') (EInt 1) ty_int b False) ty_int False True))]"
proof -
  let ?I = "chain_facts [Iv (Num (-1)) (Num 0), Iv Unknown (Num 0), TOP, TOP, TOP, TOP, Z]"
  have w: "prop_stmt 0 (SWhile (cmp OpEq (var ''g'') (EInt 0)) chain_body) (chain_facts [Z, Z, Z, Z, Z, Z, Z]) =
     (SWhile (cmp OpEq (var ''g'') (EInt 0)) chain_body, ?I)"
    using chain_inv by (simp add: Let_def case_prod_beta MAX_DEPTH_def) (simp add: chain_body_def case_prod_beta)
  have "div_ok ?I (EInt 10) (bin OpAdd (var ''g'') (EInt 1))"
    by (simp add: engine_run chain_facts_def)
  then show ?thesis
    unfolding propagate_stmts_def chain_prog_def
    by (simp add: w MAX_DEPTH_def del: prop_stmt.simps(1))
qed

text \<open>
  The four rounds spent on confirming a loop's guess may not be enough: in a loop that hands a value
  on from name to name the engine keeps a guess its own pass over the body contradicts, and declares
  a division safe whose divisor is zero when the loop ends. The limit of \<open>elidable\<close> is there for this.\<close>

lemma rounds_run_out:
  "fst (exec_stmts (checked_ctx C0) 20 chain_prog chain_state) = Inl (SPanic div_zero) \<and>
   fst (exec_stmts (elided_ctx C0) 20
     (fst (propagate_stmts chain_prog (chain_facts [Z, Z, Z, Z, Z, Z, Z]))) chain_state) = Inl SUnsafe \<and>
   facts_ok (chain_facts [Z, Z, Z, Z, Z, Z, Z]) chain_state"
proof (intro conjI)
  note run_defs = run chain_prog_def chain_body_def chain_state_def state0_def C0_def
  show "fst (exec_stmts (checked_ctx C0) 20 chain_prog chain_state) = Inl (SPanic div_zero)"
    by (simp add: run_defs cong: run_cong)
  show "fst (exec_stmts (elided_ctx C0) 20
     (fst (propagate_stmts chain_prog (chain_facts [Z, Z, Z, Z, Z, Z, Z]))) chain_state) = Inl SUnsafe"
    using chain_annotated by (auto simp: run_defs cong: run_cong)
  show "facts_ok (chain_facts [Z, Z, Z, Z, Z, Z, Z]) chain_state"
    by (simp add: facts_ok_def chain_facts_def chain_state_def state0_def iv_of_def iv_has_defs)
qed

text \<open>
  C32. Five verdicts of the engine are wrong, and each elides a check that would have panicked or
  accepts a clause that panics: the facts after a loop miss the states in which it is left by
  \<open>break\<close>; a divisor under a symbolic upper bound may still be -1; the facts of a statement are used
  inside an expression that changes what they speak of, or under a pattern that rebinds a name they
  speak of; constant evaluation does not check the 64-bit range of a sum; and the facts at a loop
  head are kept unconfirmed when four rounds have not confirmed them.\<close>

theorem wrong_verdicts:
  "(fst (exec_stmts (checked_ctx C0) 20 break_prog break_state) = Inl (SPanic div_zero) \<and>
   fst (exec_stmts (elided_ctx C0) 20 (fst (propagate_stmts break_prog no_facts)) break_state) =
     Inl SUnsafe) \<and>
   (fst (eval_expr (checked_ctx C0) 9 div_requires div_state) = Inr (VBool True) \<and>
   fst (eval_expr (checked_ctx C0) 9 (bin OpDiv (var ''a'') (var ''d'')) div_state) =
     Inl (SPanic overflow) \<and>
   fst (eval_expr (elided_ctx C0) 9
     (annot (seed_from_requires div_requires div_params) (bin OpDiv (var ''a'') (var ''d''))) div_state) =
     Inl SUnsafe) \<and>
   (fst (eval_expr (checked_ctx C0) 9 pop_expr pop_state) = Inl (SPanic (HLPanic out_of_bounds)) \<and>
   fst (eval_expr (elided_ctx C0) 9 (annot (seed_from_requires nonempty_requires at_params) pop_expr)
     pop_state) = Inl SUnsafe \<and>
   fst (eval_expr (checked_ctx C0) 9 arm_expr pop_state) = Inl (SPanic (HLPanic out_of_bounds)) \<and>
   fst (eval_expr (elided_ctx C0) 9 (annot (seed_from_requires at_requires at_params) arm_expr)
     pop_state) = Inl SUnsafe) \<and>
   (const_eval ops0 (cmp OpGt (bin OpAdd (var ''a'') (EInt 1)) (var ''a'')) [''a'' \<mapsto> VInt INT64_MAX] =
     Some (VBool True) \<and>
   fst (eval_expr C0 9 (cmp OpGt (bin OpAdd (var ''a'') (EInt 1)) (var ''a''))
     (state0 [''a'' \<mapsto> VInt INT64_MAX] [])) = Inl (SPanic overflow)) \<and>
   (fst (exec_stmts (checked_ctx C0) 20 chain_prog chain_state) = Inl (SPanic div_zero) \<and>
   fst (exec_stmts (elided_ctx C0) 20
     (fst (propagate_stmts chain_prog (chain_facts [Z, Z, Z, Z, Z, Z, Z]))) chain_state) = Inl SUnsafe \<and>
   facts_ok (chain_facts [Z, Z, Z, Z, Z, Z, Z]) chain_state)"
  using break_exit_missed div_guard_missed expression_facts_stale const_overflow_missed rounds_run_out
  by blast

end
