(* ===== verification/Hlir.thy ===== *)
theory Hlir
  imports Ast Runtime
begin

text \<open>
  The intermediate representation (src/tools/ir/__init__.py): instructions, blocks, functions, and
  a semantics for them. An instruction is a destination, an opcode and tagged operands; a block is a
  list of instructions and a terminator; control flow names blocks by label.

  The semantics is a machine over the names of a function. Constants, loads, stores and the operators
  on scalars are given here; what every other opcode does to the rest of the program's state is the
  argument \<open>ext\<close>, which sees the opcode, the line, the operands other than values, and the values.
\<close>

section \<open>Instructions\<close>

text \<open>A literal: a Python int, bool, bytes, str, float or None.\<close>

datatype lit = LInt int | LBool bool | LStr bytes | LText string | LFloat "64 word" | LNone

datatype arg =
    ALit lit | AVar string | AName string | AFname string | AOp string
  | ALabel string | AType string | AText string

datatype opcode =
    OP_CONST | OP_BINOP | OP_UNOP | OP_CALL | OP_METHOD | OP_BUILTIN | OP_LOAD | OP_STORE
  | OP_LIST_NEW | OP_LIST_GET | OP_LIST_SET | OP_LIST_LEN | OP_MAP_NEW | OP_MAP_GET | OP_MAP_SET
  | OP_STRUCT_NEW | OP_STRUCT_GET | OP_STRUCT_SET | OP_BRANCH | OP_JUMP | OP_RETURN | OP_PANIC
  | OP_MATCH | OP_QMARK | OP_COMMENT

text \<open>\<open>i_ty\<close> and \<open>i_safe\<close> are the attributes \<open>ty\<close> and \<open>safe_overflow\<close>.\<close>

record instr =
  i_dest :: "string option"
  i_op :: opcode
  i_args :: "arg list"
  i_line :: int
  i_ty :: "string option"
  i_safe :: bool

record block =
  b_name :: string
  b_instrs :: "instr list"
  b_term :: "instr option"

record irfun =
  f_name :: string
  f_params :: "(string \<times> ty) list"
  f_ret :: ty
  f_effects :: "string list"
  f_blocks :: "block list"

abbreviation mk_const :: "instr \<Rightarrow> lit \<Rightarrow> instr" where
  "mk_const ins l \<equiv> \<lparr>i_dest = i_dest ins, i_op = OP_CONST, i_args = [ALit l], i_line = i_line ins,
     i_ty = None, i_safe = False\<rparr>"

section \<open>The machine\<close>

datatype ival = IV lit | IRef nat

type_synonym ienv = "string \<Rightarrow> ival"

definition operand :: "ienv \<Rightarrow> arg \<Rightarrow> ival" where
  "operand E a = (case a of ALit l \<Rightarrow> IV l | AVar x \<Rightarrow> E x | _ \<Rightarrow> IV LNone)"

text \<open>An operand without its value.\<close>

definition erase :: "arg \<Rightarrow> arg" where
  "erase a = (case a of ALit _ \<Rightarrow> AVar [] | AVar _ \<Rightarrow> AVar [] | _ \<Rightarrow> a)"

record 'w sem =
  bop :: "string \<Rightarrow> lit \<Rightarrow> lit \<Rightarrow> panic + lit"
  uop :: "string \<Rightarrow> lit \<Rightarrow> panic + lit"
  ext :: "opcode \<Rightarrow> int \<Rightarrow> arg list \<Rightarrow> ival list \<Rightarrow> 'w \<Rightarrow> (panic + ival) \<times> 'w"

definition set_dest :: "string option \<Rightarrow> ival \<Rightarrow> ienv \<Rightarrow> ienv" where
  "set_dest d v E = (case d of None \<Rightarrow> E | Some x \<Rightarrow> E(x := v))"

definition first_value :: "ienv \<Rightarrow> instr \<Rightarrow> ival" where
  "first_value E ins = (case i_args ins of [] \<Rightarrow> IV LNone | a # _ \<Rightarrow> operand E a)"

text \<open>What a tagged operand is read as.\<close>

definition op_tag :: "arg \<Rightarrow> string option" where
  "op_tag a = (case a of AOp p \<Rightarrow> Some p | _ \<Rightarrow> None)"

definition label_tag :: "arg \<Rightarrow> string option" where
  "label_tag a = (case a of ALabel l \<Rightarrow> Some l | _ \<Rightarrow> None)"

definition text_tag :: "arg \<Rightarrow> string option" where
  "text_tag a = (case a of ALit (LText t) \<Rightarrow> Some t | _ \<Rightarrow> None)"

definition var_tag :: "arg \<Rightarrow> string option" where
  "var_tag a = (case a of AVar x \<Rightarrow> Some x | _ \<Rightarrow> None)"

definition name_tag :: "arg \<Rightarrow> string option" where
  "name_tag a = (case a of AName x \<Rightarrow> Some x | _ \<Rightarrow> None)"

definition scalar :: "ival \<Rightarrow> lit option" where
  "scalar v = (case v of IV l \<Rightarrow> Some l | IRef _ \<Rightarrow> None)"

text \<open>The value of an operator on scalars; \<open>None\<close> when an operand is not one.\<close>

definition op_value :: "'w sem \<Rightarrow> ienv \<Rightarrow> instr \<Rightarrow> (panic + lit) option" where
  "op_value S E ins =
     (if i_op ins = OP_UNOP
      then (case i_args ins of
              t # a # _ \<Rightarrow>
                (case (op_tag t, scalar (operand E a)) of
                   (Some p, Some x) \<Rightarrow> Some (uop S p x) | _ \<Rightarrow> None)
            | _ \<Rightarrow> None)
      else if i_op ins = OP_BINOP
      then (case i_args ins of
              t # a # b # _ \<Rightarrow>
                (case (op_tag t, scalar (operand E a), scalar (operand E b)) of
                   (Some p, Some x, Some y) \<Rightarrow> Some (bop S p x y) | _ \<Rightarrow> None)
            | _ \<Rightarrow> None)
      else None)"

text \<open>The value an instruction computes, and its effect.\<close>

definition instr_value :: "'w sem \<Rightarrow> instr \<Rightarrow> ienv \<Rightarrow> 'w \<Rightarrow> (panic + ival) \<times> 'w" where
  "instr_value S ins E w =
     (if i_op ins \<in> {OP_CONST, OP_LOAD, OP_STORE} then (Inr (first_value E ins), w)
      else case op_value S E ins of
        Some r \<Rightarrow> (map_sum id IV r, w)
      | None \<Rightarrow> ext S (i_op ins) (i_line ins) (map erase (i_args ins))
                  (map (operand E) (i_args ins)) w)"

definition exec_instr :: "'w sem \<Rightarrow> instr \<Rightarrow> ienv \<times> 'w \<Rightarrow> (panic + ienv) \<times> 'w" where
  "exec_instr S ins m =
     (case instr_value S ins (fst m) (snd m) of
        (Inl p, w) \<Rightarrow> (Inl p, w)
      | (Inr v, w) \<Rightarrow> (Inr (set_dest (i_dest ins) v (fst m)), w))"

fun exec_instrs :: "'w sem \<Rightarrow> instr list \<Rightarrow> ienv \<times> 'w \<Rightarrow> (panic + ienv) \<times> 'w" where
  "exec_instrs S [] m = (Inr (fst m), snd m)"
| "exec_instrs S (i # is) m =
     (case exec_instr S i m of (Inl p, w) \<Rightarrow> (Inl p, w) | (Inr E, w) \<Rightarrow> exec_instrs S is (E, w))"

text \<open>How a terminator leaves a block.\<close>

datatype exit = Goto string | Returned "ival option" | Panicked panic | Stuck

definition leave :: "instr option \<Rightarrow> ienv \<Rightarrow> exit" where
  "leave t E =
     (case t of None \<Rightarrow> Stuck
      | Some ins \<Rightarrow>
        (case (i_op ins, i_args ins) of
           (OP_RETURN, []) \<Rightarrow> Returned None
         | (OP_RETURN, [a]) \<Rightarrow> Returned (Some (operand E a))
         | (OP_JUMP, [a]) \<Rightarrow> (case label_tag a of Some l \<Rightarrow> Goto l | None \<Rightarrow> Stuck)
         | (OP_BRANCH, [c, a, b]) \<Rightarrow>
             (case (label_tag a, label_tag b) of
                (Some l1, Some l2) \<Rightarrow> Goto (if operand E c = IV (LBool True) then l1 else l2)
              | _ \<Rightarrow> Stuck)
         | (OP_PANIC, [a]) \<Rightarrow>
             (case text_tag a of Some t \<Rightarrow> Panicked (HLPanic t) | None \<Rightarrow> Stuck)
         | _ \<Rightarrow> Stuck))"

definition find_block :: "irfun \<Rightarrow> string \<Rightarrow> block option" where
  "find_block f l = List.find (\<lambda>b. b_name b = l) (f_blocks f)"

text \<open>Running a function from a block, for at most so many blocks; \<open>None\<close> when they are used up.\<close>

fun run_from :: "'w sem \<Rightarrow> irfun \<Rightarrow> nat \<Rightarrow> string \<Rightarrow> ienv \<times> 'w \<Rightarrow> (exit \<times> 'w) option" where
  "run_from S f 0 l m = None"
| "run_from S f (Suc n) l m =
     (case find_block f l of None \<Rightarrow> Some (Stuck, snd m)
      | Some b \<Rightarrow>
        (case exec_instrs S (b_instrs b) m of
           (Inl p, w) \<Rightarrow> Some (Panicked p, w)
         | (Inr E, w) \<Rightarrow>
             (case leave (b_term b) E of Goto l' \<Rightarrow> run_from S f n l' (E, w) | e \<Rightarrow> Some (e, w))))"

definition map_blocks :: "(block \<Rightarrow> block) \<Rightarrow> irfun \<Rightarrow> irfun" where
  "map_blocks g f = f\<lparr>f_blocks := map g (f_blocks f)\<rparr>"

lemma find_map_blocks:
  assumes "\<And>b. b_name (g b) = b_name b"
  shows "find_block (map_blocks g f) l = map_option g (find_block f l)"
proof -
  have "List.find (\<lambda>b. b_name b = l) (map g bs) = map_option g (List.find (\<lambda>b. b_name b = l) bs)" for bs
    by (induction bs) (auto simp: assms)
  then show ?thesis by (simp add: find_block_def map_blocks_def)
qed

text \<open>A pass that rewrites each block on its own and preserves what a block does preserves the
  function.\<close>

definition same_block :: "'w sem \<Rightarrow> block \<Rightarrow> block \<Rightarrow> bool" where
  "same_block S b b' \<longleftrightarrow>
     (\<forall>m. exec_instrs S (b_instrs b') m = exec_instrs S (b_instrs b) m) \<and>
     (\<forall>m E w. exec_instrs S (b_instrs b) m = (Inr E, w) \<longrightarrow> leave (b_term b') E = leave (b_term b) E)"

lemma find_block_in: "find_block f l = Some b \<Longrightarrow> b \<in> set (f_blocks f)"
  by (auto simp: find_block_def find_Some_iff)

lemma run_map_blocks:
  assumes name: "\<And>b. b_name (g b) = b_name b"
    and same: "\<And>b. b \<in> set (f_blocks f) \<Longrightarrow> same_block S b (g b)"
  shows "run_from S (map_blocks g f) n l m = run_from S f n l m"
proof (induction n arbitrary: l m)
  case (Suc n)
  show ?case
  proof (cases "find_block f l")
    case None
    then show ?thesis by (simp add: find_map_blocks [OF name])
  next
    case (Some b)
    have e: "exec_instrs S (b_instrs (g b)) m = exec_instrs S (b_instrs b) m"
      using same [OF find_block_in [OF Some]] unfolding same_block_def by blast
    obtain r w where r: "exec_instrs S (b_instrs b) m = (r, w)" by fastforce
    have t: "leave (b_term (g b)) E = leave (b_term b) E" if "r = Inr E" for E
      using same [OF find_block_in [OF Some]] r that unfolding same_block_def by blast
    show ?thesis
      by (cases r) (simp_all add: find_map_blocks [OF name] Some e r t Suc.IH cong: exit.case_cong)
  qed
qed simp

end
