(* ===== verification/Optimize.thy ===== *)
theory Optimize
  imports Hlir
begin

text \<open>
  The optimiser of the intermediate representation (src/tools/ir/optimize.py): constant folding,
  copy propagation, dead code elimination, and the annotation of additions and multiplications that
  cannot overflow. Each pass is the source's; the passes update the instructions of a block in place, here a new block is returned.
\<close>

section \<open>Folding an operator\<close>

text \<open>The order of Python on strings, by code points.\<close>

fun text_less :: "string \<Rightarrow> string \<Rightarrow> bool" where
  "text_less [] [] = False"
| "text_less [] (_ # _) = True"
| "text_less (_ # _) [] = False"
| "text_less (a # as) (b # bs) = ((of_char a :: nat) < of_char b \<or> a = b \<and> text_less as bs)"

fun same_hls_type :: "lit \<Rightarrow> lit \<Rightarrow> bool" where
  "same_hls_type (LBool _) (LBool _) = True"
| "same_hls_type (LInt _) (LInt _) = True"
| "same_hls_type (LFloat _) (LFloat _) = True"
| "same_hls_type (LStr _) (LStr _) = True"
| "same_hls_type (LText _) (LText _) = True"
| "same_hls_type LNone LNone = True"
| "same_hls_type _ _ = False"

text \<open>Python's \<open>==\<close> and \<open><\<close> on two values of one type; \<open>None\<close> where it raises.\<close>

fun lit_eq :: "float_ops \<Rightarrow> lit \<Rightarrow> lit \<Rightarrow> bool" where
  "lit_eq fl (LFloat a) (LFloat b) = f_eq fl a b"
| "lit_eq fl a b = (a = b)"

fun lit_less :: "float_ops \<Rightarrow> lit \<Rightarrow> lit \<Rightarrow> bool option" where
  "lit_less fl (LInt a) (LInt b) = Some (a < b)"
| "lit_less fl (LBool a) (LBool b) = Some (\<not> a \<and> b)"
| "lit_less fl (LStr a) (LStr b) = Some (bytes_less a b)"
| "lit_less fl (LText a) (LText b) = Some (text_less a b)"
| "lit_less fl (LFloat a) (LFloat b) = Some (f_lt fl a b)"
| "lit_less fl _ _ = None"

definition in_int64 :: "int \<Rightarrow> bool" where "in_int64 r \<longleftrightarrow> INT64_MIN \<le> r \<and> r \<le> INT64_MAX"

definition fold_int :: "int \<Rightarrow> lit option" where
  "fold_int r = (if in_int64 r then Some (LInt r) else None)"

definition fold_div :: "int \<Rightarrow> int \<Rightarrow> lit option" where
  "fold_div a b =
     (if b = 0 then None else if a = INT64_MIN \<and> b = -1 then None
      else let q = abs a div abs b in Some (LInt (if (a < 0) = (b < 0) then q else - q)))"

definition fold_mod :: "int \<Rightarrow> int \<Rightarrow> lit option" where
  "fold_mod a b =
     (if b = 0 then None else if a = INT64_MIN \<and> b = -1 then None
      else let r = abs a mod abs b in Some (LInt (if a \<ge> 0 then r else - r)))"

definition fold_cmp :: "lit \<Rightarrow> lit \<Rightarrow> bool option \<Rightarrow> lit option" where
  "fold_cmp a b r = (if same_hls_type a b then map_option LBool r else None)"

definition lit_le :: "float_ops \<Rightarrow> lit \<Rightarrow> lit \<Rightarrow> bool option" where
  "lit_le fl a b = map_option (\<lambda>l. l \<or> lit_eq fl a b) (lit_less fl a b)"

definition fold_add :: "lit \<Rightarrow> lit \<Rightarrow> lit option" where
  "fold_add a b =
     (case (a, b) of
        (LInt m, LInt n) \<Rightarrow> fold_int (m + n)
      | (LStr s, LStr t) \<Rightarrow> Some (LStr (s @ t))
      | (LText s, LText t) \<Rightarrow> Some (LText (s @ t))
      | _ \<Rightarrow> None)"

definition fold_ints :: "lit \<Rightarrow> lit \<Rightarrow> (int \<Rightarrow> int \<Rightarrow> lit option) \<Rightarrow> lit option" where
  "fold_ints a b g = (case (a, b) of (LInt m, LInt n) \<Rightarrow> g m n | _ \<Rightarrow> None)"

definition fold_bools :: "lit \<Rightarrow> lit \<Rightarrow> (bool \<Rightarrow> bool \<Rightarrow> bool) \<Rightarrow> lit option" where
  "fold_bools a b g = (case (a, b) of (LBool m, LBool n) \<Rightarrow> Some (LBool (g m n)) | _ \<Rightarrow> None)"

definition fold_binop :: "float_ops \<Rightarrow> string \<Rightarrow> lit \<Rightarrow> lit \<Rightarrow> lit option" where
  "fold_binop fl p a b =
     (if p = ''+'' then fold_add a b
      else if p = ''-'' then fold_ints a b (\<lambda>m n. fold_int (m - n))
      else if p = ''*'' then fold_ints a b (\<lambda>m n. fold_int (m * n))
      else if p = ''/'' then fold_ints a b fold_div
      else if p = ''%'' then fold_ints a b fold_mod
      else if p = ''=='' then fold_cmp a b (Some (lit_eq fl a b))
      else if p = ''!='' then fold_cmp a b (Some (\<not> lit_eq fl a b))
      else if p = ''<'' then fold_cmp a b (lit_less fl a b)
      else if p = ''<='' then fold_cmp a b (lit_le fl a b)
      else if p = ''>'' then fold_cmp a b (lit_less fl b a)
      else if p = ''>='' then fold_cmp a b (lit_le fl b a)
      else if p = ''&&'' then fold_bools a b (\<and>)
      else if p = ''||'' then fold_bools a b (\<or>)
      else None)"

definition fold_unop :: "string \<Rightarrow> lit option \<Rightarrow> lit option" where
  "fold_unop p a =
     (if p = ''-'' then (case a of Some (LInt n) \<Rightarrow> if n \<noteq> INT64_MIN then Some (LInt (- n)) else None | _ \<Rightarrow> None)
      else if p = ''!'' then (case a of Some (LBool b) \<Rightarrow> Some (LBool (\<not> b)) | _ \<Rightarrow> None)
      else None)"

section \<open>Constant folding\<close>

type_synonym known = "string \<rightharpoonup> lit"

text \<open>\<open>_resolve\<close>; a literal \<open>None\<close> is the same as no known value.\<close>

definition resolve :: "arg \<Rightarrow> known \<Rightarrow> lit option" where
  "resolve a cs =
     (case (case a of ALit l \<Rightarrow> Some l | AVar x \<Rightarrow> cs x | _ \<Rightarrow> None) of
        Some LNone \<Rightarrow> None | r \<Rightarrow> r)"

definition note_const :: "string option \<Rightarrow> lit \<Rightarrow> known \<Rightarrow> known" where
  "note_const d l cs = (case d of None \<Rightarrow> cs | Some x \<Rightarrow> cs(x \<mapsto> l))"

definition fold_store :: "arg \<Rightarrow> string \<Rightarrow> known \<Rightarrow> known" where
  "fold_store src nm cs =
     (case (case src of AVar x \<Rightarrow> cs x | ALit l \<Rightarrow> Some l | _ \<Rightarrow> None) of
        Some l \<Rightarrow> cs(''v_'' @ nm \<mapsto> l) | None \<Rightarrow> cs(''v_'' @ nm := None))"

definition folded_value :: "float_ops \<Rightarrow> instr \<Rightarrow> known \<Rightarrow> lit option" where
  "folded_value fl ins cs =
     (case (i_op ins, i_args ins) of
        (OP_BINOP, AOp p # a # b # _) \<Rightarrow>
          (case (resolve a cs, resolve b cs) of (Some x, Some y) \<Rightarrow> fold_binop fl p x y | _ \<Rightarrow> None)
      | (OP_UNOP, AOp p # a # _) \<Rightarrow> fold_unop p (resolve a cs)
      | _ \<Rightarrow> None)"

definition fold_instr :: "float_ops \<Rightarrow> instr \<Rightarrow> known \<Rightarrow> instr \<times> known" where
  "fold_instr fl ins cs =
     (case (i_op ins, i_args ins) of
        (OP_CONST, ALit l # _) \<Rightarrow> (ins, note_const (i_dest ins) l cs)
      | (OP_LOAD, [AVar x]) \<Rightarrow> (ins, case cs x of Some l \<Rightarrow> note_const (i_dest ins) l cs | None \<Rightarrow> cs)
      | (OP_STORE, src # AName nm # _) \<Rightarrow> (ins, fold_store src nm cs)
      | _ \<Rightarrow>
          (case folded_value fl ins cs of
             Some v \<Rightarrow> (mk_const ins v, note_const (i_dest ins) v cs)
           | None \<Rightarrow> (ins, cs)))"

fun fold_instrs :: "float_ops \<Rightarrow> known \<Rightarrow> instr list \<Rightarrow> instr list" where
  "fold_instrs fl cs [] = []"
| "fold_instrs fl cs (i # is) = (case fold_instr fl i cs of (i', cs') \<Rightarrow> i' # fold_instrs fl cs' is)"

definition fold_block :: "float_ops \<Rightarrow> block \<Rightarrow> block" where
  "fold_block fl b = b\<lparr>b_instrs := fold_instrs fl Map.empty (b_instrs b)\<rparr>"

definition constant_fold :: "float_ops \<Rightarrow> irfun \<Rightarrow> irfun" where
  "constant_fold fl = map_blocks (fold_block fl)"

section \<open>Copy propagation\<close>

type_synonym canon = "string \<rightharpoonup> string"

definition rewrite_arg :: "canon \<Rightarrow> arg \<Rightarrow> arg" where
  "rewrite_arg cn a =
     (case a of AVar x \<Rightarrow> (case cn x of Some y \<Rightarrow> AVar y | None \<Rightarrow> a) | _ \<Rightarrow> a)"

definition rewrite_instr :: "canon \<Rightarrow> instr \<Rightarrow> instr" where
  "rewrite_instr cn ins = ins\<lparr>i_args := map (rewrite_arg cn) (i_args ins)\<rparr>"

definition is_temp :: "string \<Rightarrow> bool" where "is_temp x \<longleftrightarrow> take 1 x = ''t''"

text \<open>The map after an instruction whose operands are already rewritten.\<close>

definition copy_step :: "instr \<Rightarrow> canon \<Rightarrow> canon" where
  "copy_step ins cn =
     (if i_op ins = OP_STORE
      then (case i_args ins of
              _ # b # _ \<Rightarrow> (case name_tag b of Some nm \<Rightarrow> cn(''v_'' @ nm := None) | None \<Rightarrow> cn)
            | _ \<Rightarrow> cn)
      else if i_op ins = OP_LOAD
      then (case (i_args ins, i_dest ins) of
              ([a], Some d) \<Rightarrow>
                (case var_tag a of Some x \<Rightarrow> if is_temp x then cn(d \<mapsto> x) else cn | None \<Rightarrow> cn)
            | _ \<Rightarrow> cn)
      else cn)"

fun copy_instrs :: "canon \<Rightarrow> instr list \<Rightarrow> instr list \<times> canon" where
  "copy_instrs cn [] = ([], cn)"
| "copy_instrs cn (i # is) =
     (let i' = rewrite_instr cn i; (is', cn') = copy_instrs (copy_step i' cn) is in (i' # is', cn'))"

definition copy_block :: "block \<Rightarrow> block" where
  "copy_block b =
     (let (is, cn) = copy_instrs Map.empty (b_instrs b)
      in b\<lparr>b_instrs := is, b_term := map_option (rewrite_instr cn) (b_term b)\<rparr>)"

definition copy_propagate :: "irfun \<Rightarrow> irfun" where
  "copy_propagate = map_blocks copy_block"

section \<open>Dead code elimination\<close>

definition arg_vars :: "instr \<Rightarrow> string list" where
  "arg_vars ins = concat (map (\<lambda>a. case a of AVar x \<Rightarrow> [x] | _ \<Rightarrow> []) (i_args ins))"

definition block_vars :: "block \<Rightarrow> string list" where
  "block_vars b = concat (map arg_vars (b_instrs b)) @
     (case b_term b of Some t \<Rightarrow> arg_vars t | None \<Rightarrow> [])"

definition used_vars :: "irfun \<Rightarrow> string list" where
  "used_vars f = concat (map block_vars (f_blocks f))"

definition has_side_effects :: "instr \<Rightarrow> bool" where
  "has_side_effects ins =
     (if i_op ins = OP_UNOP then (case i_args ins of AOp p # _ \<Rightarrow> p \<noteq> ''!'' | _ \<Rightarrow> True)
      else i_op ins \<notin> {OP_CONST, OP_LOAD, OP_LIST_NEW, OP_STRUCT_NEW, OP_STRUCT_GET, OP_MAP_GET, OP_LIST_LEN})"

definition live :: "string list \<Rightarrow> instr \<Rightarrow> bool" where
  "live used ins \<longleftrightarrow>
     has_side_effects ins \<or> (case i_dest ins of Some d \<Rightarrow> d \<in> set used | None \<Rightarrow> False)"

definition dead_code_elim :: "irfun \<Rightarrow> irfun" where
  "dead_code_elim f =
     map_blocks (\<lambda>b. b\<lparr>b_instrs := filter (live (used_vars f)) (b_instrs b)\<rparr>) f"

section \<open>Operations that cannot overflow\<close>

text \<open>Python's \<open>lit == 0\<close> and \<open>lit == 1\<close>, on ints, bools and floats.\<close>

definition lit_is :: "float_ops \<Rightarrow> nat \<Rightarrow> arg \<Rightarrow> bool" where
  "lit_is fl k a =
     (case a of
        ALit (LInt n) \<Rightarrow> n = int k
      | ALit (LBool b) \<Rightarrow> (if b then 1 else 0) = k
      | ALit (LFloat f) \<Rightarrow> if k = 0 then f_zero fl f else f_eq fl f 0x3FF0000000000000
      | _ \<Rightarrow> False)"

definition safe_instr :: "float_ops \<Rightarrow> instr \<Rightarrow> bool" where
  "safe_instr fl ins =
     (case (i_op ins, i_args ins) of
        (OP_BINOP, AOp p # a # b # _) \<Rightarrow>
          p = ''+'' \<and> (lit_is fl 0 a \<or> lit_is fl 0 b) \<or>
          p = ''-'' \<and> lit_is fl 0 b \<or>
          p = ''*'' \<and> (lit_is fl 0 a \<or> lit_is fl 0 b \<or> lit_is fl 1 a \<or> lit_is fl 1 b)
      | _ \<Rightarrow> False)"

definition annotate_safe :: "float_ops \<Rightarrow> irfun \<Rightarrow> irfun" where
  "annotate_safe fl = map_blocks (\<lambda>b. b\<lparr>b_instrs :=
     map (\<lambda>i. if safe_instr fl i then i\<lparr>i_safe := True\<rparr> else i) (b_instrs b)\<rparr>)"

end
