(* ===== verification/OptProps.thy ===== *)
theory OptProps
  imports Optimize
begin

text \<open>
  The passes of the optimiser preserve what a function does. The interface between a pass and the
  machine is a locale: the folder's results are the values the machine's operators give. The
  interpreter's operators satisfy it.
\<close>

section \<open>Well-formed instruction sequences\<close>

text \<open>What the builder guarantees of a block: other than by stores a name is defined once, and
  before it is used; and a store's destination is the binding it names.\<close>

definition store_ok :: "instr \<Rightarrow> bool" where
  "store_ok ins = (i_op ins = OP_STORE \<longrightarrow>
     (case i_args ins of _ # AName nm # _ \<Rightarrow> i_dest ins = Some (''v_'' @ nm) | _ \<Rightarrow> False))"

fun single_defs :: "string set \<Rightarrow> instr list \<Rightarrow> bool" where
  "single_defs seen [] = True"
| "single_defs seen (i # is) =
     (store_ok i \<and> (i_op i = OP_STORE \<or> (case i_dest i of Some d \<Rightarrow> d \<notin> seen | None \<Rightarrow> True)) \<and>
      single_defs (set (arg_vars i) \<union> (case i_dest i of Some d \<Rightarrow> insert d seen | None \<Rightarrow> seen)) is)"

definition wf_block :: "block \<Rightarrow> bool" where "wf_block b = single_defs {} (b_instrs b)"

definition wf_fun :: "irfun \<Rightarrow> bool" where "wf_fun f = list_all wf_block (f_blocks f)"

section \<open>Constant folding\<close>

definition knows :: "known \<Rightarrow> ienv \<Rightarrow> bool" where
  "knows cs E \<longleftrightarrow> (\<forall>x l. cs x = Some l \<longrightarrow> E x = IV l)"

locale scalar_sem =
  fixes fl :: float_ops and S :: "'w sem"
  assumes fold_bop: "fold_binop fl p a b = Some v \<Longrightarrow> a \<noteq> LNone \<Longrightarrow> b \<noteq> LNone \<Longrightarrow> bop S p a b = Inr v"
    and fold_uop: "fold_unop p (Some a) = Some v \<Longrightarrow> uop S p a = Inr v"
begin

lemma resolve_operand: "knows cs E \<Longrightarrow> resolve a cs = Some l \<Longrightarrow> scalar (operand E a) = Some l"
  by (cases a) (auto simp: resolve_def operand_def knows_def scalar_def split: option.splits lit.splits)

lemma resolve_not_None: "resolve a cs = Some l \<Longrightarrow> l \<noteq> LNone"
  by (auto simp: resolve_def split: option.splits lit.splits arg.splits)

lemma folded_cases:
  assumes "folded_value fl ins cs = Some v"
  obtains p a b rest x y where "i_op ins = OP_BINOP" "i_args ins = AOp p # a # b # rest"
      "resolve a cs = Some x" "resolve b cs = Some y" "fold_binop fl p x y = Some v"
    | p a rest x where "i_op ins = OP_UNOP" "i_args ins = AOp p # a # rest"
      "resolve a cs = Some x" "fold_unop p (Some x) = Some v"
  using assms
  by (cases "i_op ins")
     (auto simp: folded_value_def fold_unop_def split: list.splits arg.splits option.splits if_splits)

lemma folded_op:
  assumes "knows cs E" and "folded_value fl ins cs = Some v"
  shows "op_value S E ins = Some (Inr v) \<and> i_op ins \<notin> {OP_CONST, OP_LOAD, OP_STORE}"
  using assms(2)
  by (cases rule: folded_cases)
     (simp_all add: op_value_def op_tag_def fold_bop fold_uop resolve_not_None resolve_operand [OF assms(1)])

lemma exec_folded:
  assumes "knows cs E" and "folded_value fl ins cs = Some v"
  shows "exec_instr S (mk_const ins v) (E, w) = exec_instr S ins (E, w) \<and>
         exec_instr S ins (E, w) = (Inr (set_dest (i_dest ins) (IV v) E), w)"
  using folded_op [OF assms] by (auto simp: exec_instr_def instr_value_def first_value_def operand_def)

end

text \<open>What an instruction leaves behind.\<close>

lemma exec_instr_dest:
  "exec_instr S ins (E, w) = (Inr E', w') \<Longrightarrow> \<exists>v. E' = set_dest (i_dest ins) v E"
  by (auto simp: exec_instr_def split: prod.splits sum.splits)

lemma exec_copy:
  "i_op ins \<in> {OP_CONST, OP_LOAD, OP_STORE} \<Longrightarrow>
   exec_instr S ins (E, w) = (Inr (set_dest (i_dest ins) (first_value E ins) E), w)"
  by (simp add: exec_instr_def instr_value_def)

lemma knows_fresh:
  "knows cs E \<Longrightarrow> (\<And>x. d = Some x \<Longrightarrow> cs x = None) \<Longrightarrow> knows cs (set_dest d v E)"
  by (auto simp: knows_def set_dest_def split: option.splits)

lemma knows_note: "knows cs E \<Longrightarrow> knows (note_const d l cs) (set_dest d (IV l) E)"
  by (auto simp: knows_def set_dest_def note_const_def split: option.splits)

lemma knows_store:
  "knows cs E \<Longrightarrow> knows (fold_store src nm cs) (set_dest (Some (''v_'' @ nm)) (operand E src) E)"
  by (auto simp: knows_def fold_store_def set_dest_def operand_def split: arg.splits option.splits if_splits)

text \<open>One instruction of the folder, with the names already defined.\<close>

definition fresh_dest :: "string set \<Rightarrow> instr \<Rightarrow> bool" where
  "fresh_dest seen ins \<longleftrightarrow>
     i_op ins = OP_STORE \<or> (case i_dest ins of Some d \<Rightarrow> d \<notin> seen | None \<Rightarrow> True)"

definition add_dest :: "string set \<Rightarrow> instr \<Rightarrow> string set" where
  "add_dest seen ins = set (arg_vars ins) \<union> (case i_dest ins of Some d \<Rightarrow> insert d seen | None \<Rightarrow> seen)"

lemma single_defs_Cons:
  "single_defs seen (i # is) \<longleftrightarrow> store_ok i \<and> fresh_dest seen i \<and> single_defs (add_dest seen i) is"
  by (simp add: fresh_dest_def add_dest_def)

lemma note_dom: "dom cs \<subseteq> seen \<Longrightarrow> dom (note_const (i_dest ins) l cs) \<subseteq> add_dest seen ins"
  by (auto simp: note_const_def add_dest_def split: option.splits)

lemma add_dest_mono: "seen \<subseteq> add_dest seen ins"
  by (auto simp: add_dest_def split: option.splits)

lemma store_dom:
  "dom cs \<subseteq> seen \<Longrightarrow> i_dest ins = Some (''v_'' @ nm) \<Longrightarrow> dom (fold_store src nm cs) \<subseteq> add_dest seen ins"
  by (auto simp: fold_store_def add_dest_def split: arg.splits option.splits if_splits)

text \<open>The instructions the folder looks at other than to fold them.\<close>

lemma fold_instr_cases:
  obtains (const) l r where "i_op ins = OP_CONST" "i_args ins = ALit l # r"
      "fold_instr fl ins cs = (ins, note_const (i_dest ins) l cs)"
    | (load) x where "i_op ins = OP_LOAD" "i_args ins = [AVar x]"
      "fold_instr fl ins cs = (ins, case cs x of Some l \<Rightarrow> note_const (i_dest ins) l cs | None \<Rightarrow> cs)"
    | (store) src nm r where "i_op ins = OP_STORE" "i_args ins = src # AName nm # r"
      "fold_instr fl ins cs = (ins, fold_store src nm cs)"
    | (folded) v where "folded_value fl ins cs = Some v" 
      "fold_instr fl ins cs = (mk_const ins v, note_const (i_dest ins) v cs)"
    | (kept) "fold_instr fl ins cs = (ins, cs)" "i_op ins = OP_STORE \<Longrightarrow> \<not> store_ok ins"
proof -
  have other: thesis
    if "fold_instr fl ins cs = (case folded_value fl ins cs of
          Some v \<Rightarrow> (mk_const ins v, note_const (i_dest ins) v cs) | None \<Rightarrow> (ins, cs))"
      "i_op ins = OP_STORE \<Longrightarrow> \<not> store_ok ins"
    using that folded kept by (cases "folded_value fl ins cs") auto
  show thesis
  proof (cases "i_op ins")
    case OP_CONST
    then show thesis
      using const other by (cases "i_args ins"; cases "hd (i_args ins)") (simp_all add: fold_instr_def)
  next
    case OP_LOAD
    then show thesis
      using load other
      by (cases "i_args ins"; cases "hd (i_args ins)"; cases "tl (i_args ins)") (simp_all add: fold_instr_def)
  next
    case OP_STORE
    show thesis
    proof (cases "\<exists>src nm r. i_args ins = src # AName nm # r")
      case True
      then show thesis using OP_STORE store by (auto simp: fold_instr_def)
    next
      case False
      then have "fold_instr fl ins cs = (case folded_value fl ins cs of
          Some v \<Rightarrow> (mk_const ins v, note_const (i_dest ins) v cs) | None \<Rightarrow> (ins, cs))"
        using OP_STORE by (auto simp: fold_instr_def split: list.splits arg.splits)
      moreover have "\<not> store_ok ins"
        using False OP_STORE by (auto simp: store_ok_def split: list.splits arg.splits)
      ultimately show thesis by (rule other)
    qed
  qed (rule other; simp add: fold_instr_def)+
qed

context scalar_sem
begin

lemma fold_instr_step:
  assumes k: "knows cs E" and d: "dom cs \<subseteq> seen" and f: "fresh_dest seen ins" and ok: "store_ok ins"
    and r: "fold_instr fl ins cs = (ins', cs')"
  shows "exec_instr S ins' (E, w) = exec_instr S ins (E, w) \<and> dom cs' \<subseteq> add_dest seen ins \<and>
         (\<forall>E' w'. exec_instr S ins (E, w) = (Inr E', w') \<longrightarrow> knows cs' E')"
proof -
  have fresh: "i_op ins \<noteq> OP_STORE \<Longrightarrow> i_dest ins = Some x \<Longrightarrow> cs x = None" for x
    using f d by (auto simp: fresh_dest_def)
  have mono: "dom cs \<subseteq> add_dest seen ins" using d add_dest_mono [of seen ins] by blast
  show ?thesis
  proof (cases rule: fold_instr_cases [of ins fl cs])
    case (const l a)
    then show ?thesis
      using r k exec_copy [of ins S E w] note_dom [OF d] knows_note [OF k]
      by (auto simp: first_value_def operand_def)
  next
    case (load x)
    show ?thesis
    proof (cases "cs x")
      case None
      then show ?thesis
        using r load mono exec_copy [of ins S E w] knows_fresh [OF k, of "i_dest ins"] fresh by auto
    next
      case (Some l)
      then have "first_value E ins = IV l" using k load by (simp add: first_value_def operand_def knows_def)
      then show ?thesis
        using r load Some exec_copy [of ins S E w] note_dom [OF d] knows_note [OF k] by auto
    qed
  next
    case (store src nm a)
    have ds: "i_dest ins = Some (''v_'' @ nm)" using ok store by (simp add: store_ok_def)
    have "exec_instr S ins (E, w) = (Inr (set_dest (Some (''v_'' @ nm)) (operand E src) E), w)"
      using store exec_copy [of ins S E w] ds by (simp add: first_value_def)
    moreover have "ins' = ins" "cs' = fold_store src nm cs" using r store by simp_all
    ultimately show ?thesis using store_dom [OF d ds] knows_store [OF k] by simp
  next
    case (folded v)
    then show ?thesis
      using r exec_folded [OF k, of ins v w] note_dom [OF d] knows_note [OF k] by auto
  next
    case kept
    then show ?thesis
      using r mono ok exec_instr_dest [of S ins E w] knows_fresh [OF k, of "i_dest ins"] fresh
      by (metis Pair_inject)
  qed
qed

lemma fold_instrs_exec:
  "knows cs E \<Longrightarrow> dom cs \<subseteq> seen \<Longrightarrow> single_defs seen is \<Longrightarrow>
   exec_instrs S (fold_instrs fl cs is) (E, w) = exec_instrs S is (E, w)"
proof (induction "is" arbitrary: cs E w seen)
  case (Cons i "is")
  obtain i' cs' where r: "fold_instr fl i cs = (i', cs')" by fastforce
  note wf = Cons.prems(3) [unfolded single_defs_Cons]
  note step = fold_instr_step [OF Cons.prems(1,2) _ _ r, of w]
  show ?case
    using step wf Cons.IH by (auto simp: r split: prod.splits sum.splits)
qed simp

theorem constant_fold_run:
  "wf_fun f \<Longrightarrow> run_from S (constant_fold fl f) n l m = run_from S f n l m"
  unfolding constant_fold_def
proof (rule run_map_blocks)
  fix b assume "wf_fun f" "b \<in> set (f_blocks f)"
  then have "single_defs {} (b_instrs b)" by (simp add: wf_fun_def wf_block_def list_all_iff)
  then have "exec_instrs S (fold_instrs fl Map.empty (b_instrs b)) (E, w) = exec_instrs S (b_instrs b) (E, w)"
    for E w by (intro fold_instrs_exec) (auto simp: knows_def)
  then show "same_block S b (fold_block fl b)" by (simp add: same_block_def fold_block_def)
qed (simp add: fold_block_def)

end

section \<open>Copy propagation\<close>

definition copies :: "canon \<Rightarrow> string set \<Rightarrow> ienv \<Rightarrow> bool" where
  "copies cn seen E \<longleftrightarrow>
     (\<forall>x y. cn x = Some y \<longrightarrow> E x = E y \<and> is_temp y \<and> x \<in> seen \<and> y \<in> seen)"

lemma rewrite_operand: "copies cn seen E \<Longrightarrow> operand E (rewrite_arg cn a) = operand E a"
  by (cases a) (auto simp: rewrite_arg_def operand_def copies_def split: option.splits)

lemma rewrite_erase [simp]: "erase (rewrite_arg cn a) = erase a"
  by (cases a) (auto simp: rewrite_arg_def erase_def split: option.splits)

lemma rewrite_tags [simp]: "op_tag (rewrite_arg cn a) = op_tag a"
  "label_tag (rewrite_arg cn a) = label_tag a" "name_tag (rewrite_arg cn a) = name_tag a" "text_tag (rewrite_arg cn a) = text_tag a"
  by (cases a; simp add: rewrite_arg_def op_tag_def label_tag_def text_tag_def name_tag_def split: option.split)+

lemma var_tag_Some: "var_tag a = Some x \<longleftrightarrow> a = AVar x"
  by (cases a) (auto simp: var_tag_def)

lemma rewrite_AVar: "rewrite_arg cn a = AVar x \<Longrightarrow> \<exists>y. a = AVar y"
  by (cases a) (auto simp: rewrite_arg_def)

lemma rewrite_sel [simp]: "i_op (rewrite_instr cn i) = i_op i" "i_dest (rewrite_instr cn i) = i_dest i"
  "i_line (rewrite_instr cn i) = i_line i" "i_args (rewrite_instr cn i) = map (rewrite_arg cn) (i_args i)"
  by (simp_all add: rewrite_instr_def)

lemma rewrite_exec:
  assumes c: "copies cn seen E"
  shows "exec_instr S (rewrite_instr cn ins) (E, w) = exec_instr S ins (E, w)"
proof -
  note op = rewrite_operand [OF c]
  have "first_value E (rewrite_instr cn ins) = first_value E ins"
    by (auto simp: first_value_def op split: list.split)
  moreover have "op_value S E (rewrite_instr cn ins) = op_value S E ins"
    by (auto simp: op_value_def op split: list.split option.split)
  moreover have "map (operand E) (i_args (rewrite_instr cn ins)) = map (operand E) (i_args ins)"
    "map erase (i_args (rewrite_instr cn ins)) = map erase (i_args ins)"
    by (simp_all add: op)
  ultimately show ?thesis unfolding exec_instr_def instr_value_def fst_conv snd_conv by (simp only: rewrite_sel)
qed

lemma rewrite_leave:
  assumes c: "copies cn seen E"
  shows "leave (map_option (rewrite_instr cn) t) E = leave t E"
proof (cases t)
  case (Some ins)
  note op = rewrite_operand [OF c]
  show ?thesis
    by (cases "i_op ins") (auto simp: Some leave_def op split: list.split option.split)
qed (simp add: leave_def)

text \<open>The map stays true along a block.\<close>

lemma copies_mono: "copies cn seen E \<Longrightarrow> seen \<subseteq> seen' \<Longrightarrow> copies cn seen' E"
  unfolding copies_def by blast

lemma copies_fresh:
  "copies cn seen E \<Longrightarrow> (\<And>x. d = Some x \<Longrightarrow> x \<notin> seen) \<Longrightarrow> copies cn seen (set_dest d v E)"
  by (fastforce simp: copies_def set_dest_def split: option.splits)

lemma copies_store:
  "copies cn seen E \<Longrightarrow> copies (cn(''v_'' @ nm := None)) seen (set_dest (Some (''v_'' @ nm)) v E)"
  by (fastforce simp: copies_def set_dest_def is_temp_def)

lemma copy_step_ok:
  assumes c: "copies cn seen E" and f: "fresh_dest seen ins" and ok: "store_ok ins"
    and r: "exec_instr S ins (E, w) = (Inr E', w')"
  shows "copies (copy_step (rewrite_instr cn ins) cn) (add_dest seen ins) E'"
proof -
  have sub: "seen \<subseteq> add_dest seen ins" by (rule add_dest_mono)
  show ?thesis
  proof (cases "i_op ins = OP_STORE")
    case True
    then obtain a nm rest where a: "i_args ins = a # AName nm # rest" "i_dest ins = Some (''v_'' @ nm)"
      using ok by (auto simp: store_ok_def split: list.splits arg.splits)
    have "E' = set_dest (Some (''v_'' @ nm)) (first_value E ins) E"
      using r True a exec_copy [of ins S E w] by simp
    moreover have "copy_step (rewrite_instr cn ins) cn = cn(''v_'' @ nm := None)"
      using True a by (simp add: copy_step_def name_tag_def rewrite_arg_def)
    ultimately show ?thesis using copies_store [OF c] copies_mono [OF _ sub] by metis
  next
    case False
    then have fr: "i_dest ins = Some x \<Longrightarrow> x \<notin> seen" for x using f by (simp add: fresh_dest_def)
    have keep: ?thesis if "copy_step (rewrite_instr cn ins) cn = cn"
      using that exec_instr_dest [OF r] copies_fresh [OF c fr] copies_mono [OF _ sub] by metis
    show ?thesis
    proof (cases "\<exists>y d. i_op ins = OP_LOAD \<and> i_args ins = [AVar y] \<and> i_dest ins = Some d")
      case True
      then obtain y d where y: "i_op ins = OP_LOAD" "i_args ins = [AVar y]" "i_dest ins = Some d" by blast
      let ?x = "case cn y of Some x \<Rightarrow> x | None \<Rightarrow> y"
      have rw: "rewrite_arg cn (AVar y) = AVar ?x" by (simp add: rewrite_arg_def split: option.split)
      have E': "E' = E(d := E ?x)"
        using r y exec_copy [of ins S E w] c
        by (auto simp: first_value_def set_dest_def operand_def copies_def split: option.splits)
      have in_seen: "?x \<in> insert y seen" using c by (auto simp: copies_def split: option.splits)
      show ?thesis
      proof (cases "is_temp ?x \<and> ?x \<noteq> d")
        case True
        have "copies (cn(d \<mapsto> ?x)) (insert d (insert y seen)) E'"
          unfolding E' using c True in_seen fr [OF y(3)]
          by (auto simp: copies_def)
        then show ?thesis
          using y True rw by (auto simp: copy_step_def var_tag_def add_dest_def arg_vars_def insert_commute)
      next
        case False
        show ?thesis
        proof (cases "is_temp ?x")
          case True
          then have "?x = d" using False by simp
          then have "E' = E" using E' by simp
          then show ?thesis using c y \<open>?x = d\<close> True rw copies_mono [OF c sub] fr [OF y(3)] in_seen
            by (auto simp: copy_step_def var_tag_def add_dest_def arg_vars_def copies_def)
        qed (use keep y rw in \<open>simp add: copy_step_def var_tag_def\<close>)
      qed
    next
      case nl: False
      have "copy_step (rewrite_instr cn ins) cn = cn"
        using False nl
        by (auto simp: copy_step_def var_tag_Some split: list.splits option.splits dest!: rewrite_AVar)
      then show ?thesis by (rule keep)
    qed
  qed
qed

lemma copy_instrs_exec:
  "copies cn seen E \<Longrightarrow> single_defs seen is \<Longrightarrow> copy_instrs cn is = (is', cn') \<Longrightarrow>
   exec_instrs S is' (E, w) = exec_instrs S is (E, w) \<and>
   (\<forall>E' w'. exec_instrs S is (E, w) = (Inr E', w') \<longrightarrow> (\<exists>seen'. copies cn' seen' E'))"
proof (induction "is" arbitrary: cn seen E w is' cn')
  case (Cons i "is")
  let ?i = "rewrite_instr cn i"
  obtain js cj where js: "copy_instrs (copy_step ?i cn) is = (js, cj)" by fastforce
  then have eq: "is' = ?i # js" "cn' = cj" using Cons.prems(3) by (simp_all add: Let_def)
  have e: "exec_instr S ?i (E, w) = exec_instr S i (E, w)" by (rule rewrite_exec [OF Cons.prems(1)])
  note wf = Cons.prems(2) [unfolded single_defs_Cons]
  show ?case
  proof (cases "exec_instr S i (E, w)")
    case (Pair r w1)
    show ?thesis
    proof (cases r)
      case (Inl p)
      then show ?thesis using e Pair eq by simp
    next
      case (Inr E1)
      have "copies (copy_step ?i cn) (add_dest seen i) E1"
        by (rule copy_step_ok [OF Cons.prems(1)]) (use wf Pair Inr in simp_all)
      from Cons.IH [OF this _ js] wf show ?thesis using e Pair Inr eq by simp
    qed
  qed
qed auto

theorem copy_propagate_run:
  "wf_fun f \<Longrightarrow> run_from S (copy_propagate f) n l m = run_from S f n l m"
  unfolding copy_propagate_def
proof (rule run_map_blocks)
  fix b assume "wf_fun f" "b \<in> set (f_blocks f)"
  then have wf: "single_defs {} (b_instrs b)" by (simp add: wf_fun_def wf_block_def list_all_iff)
  obtain js cn where js: "copy_instrs Map.empty (b_instrs b) = (js, cn)" by fastforce
  have c: "copies Map.empty {} E" for E by (simp add: copies_def)
  show "same_block S b (copy_block b)"
    using copy_instrs_exec [OF c wf js] rewrite_leave
    by (fastforce simp: same_block_def copy_block_def js)
qed (simp add: copy_block_def split: prod.split)

section \<open>Dead code elimination\<close>

definition agree_on :: "string set \<Rightarrow> ienv \<Rightarrow> ienv \<Rightarrow> bool" where
  "agree_on U E E' \<longleftrightarrow> (\<forall>x \<in> U. E x = E' x)"

text \<open>What may be dropped without changing the world: constants, copies, \<open>!\<close>, and reads. The other
  operations the pass calls pure allocate an object.\<close>

definition allocates :: "instr \<Rightarrow> bool" where
  "allocates ins \<longleftrightarrow> i_op ins = OP_LIST_NEW \<or> i_op ins = OP_STRUCT_NEW"

definition no_dead_alloc :: "irfun \<Rightarrow> bool" where
  "no_dead_alloc f = list_all (\<lambda>b. list_all (\<lambda>i. live (used_vars f) i \<or> \<not> allocates i) (b_instrs b)) (f_blocks f)"

lemma arg_in_vars: "a \<in> set (i_args ins) \<Longrightarrow> set (arg_vars ins) \<subseteq> U \<Longrightarrow> agree_on U E E' \<Longrightarrow>
    operand E a = operand E' a"
  by (cases a) (force simp: operand_def arg_vars_def agree_on_def)+

lemma agree_set: "agree_on U E E' \<Longrightarrow> agree_on U (set_dest d v E) (set_dest d v E')"
  by (auto simp: agree_on_def set_dest_def split: option.split)

lemma agree_skip: "agree_on U E E' \<Longrightarrow> (\<And>x. d = Some x \<Longrightarrow> x \<notin> U) \<Longrightarrow> agree_on U (set_dest d v E) E'"
  by (auto simp: agree_on_def set_dest_def split: option.split)

definition agree_result :: "string set \<Rightarrow> (panic + ienv) \<times> 'w \<Rightarrow> (panic + ienv) \<times> 'w \<Rightarrow> bool" where
  "agree_result U r r' \<longleftrightarrow> snd r = snd r' \<and>
     (case (fst r, fst r') of (Inl p, Inl q) \<Rightarrow> p = q | (Inr E, Inr E') \<Rightarrow> agree_on U E E' | _ \<Rightarrow> False)"

lemma exec_agree:
  assumes v: "set (arg_vars ins) \<subseteq> U" and a: "agree_on U E E'"
  shows "agree_result U (exec_instr S ins (E, w)) (exec_instr S ins (E', w))"
proof -
  note op = arg_in_vars [OF _ v a]
  have "first_value E ins = first_value E' ins"
    by (auto simp: first_value_def op split: list.split)
  moreover have "op_value S E ins = op_value S E' ins"
    by (auto simp: op_value_def op split: list.split option.split)
  moreover have "map (operand E) (i_args ins) = map (operand E') (i_args ins)" using op by simp
  ultimately have "instr_value S ins E w = instr_value S ins E' w"
    unfolding instr_value_def by (simp only:)
  then show ?thesis
    by (simp add: exec_instr_def agree_result_def agree_set [OF a] split: prod.split sum.split)
qed

lemma leave_agree:
  assumes "\<And>ins. t = Some ins \<Longrightarrow> set (arg_vars ins) \<subseteq> U" and a: "agree_on U E E'"
  shows "leave t E = leave t E'"
proof (cases t)
  case (Some ins)
  note op = arg_in_vars [OF _ assms(1) [OF Some] a]
  show ?thesis by (cases "i_op ins") (auto simp: Some leave_def op split: list.split option.split)
qed (simp add: leave_def)

locale read_sem =
  fixes S :: "'w sem"
  assumes not_total: "\<exists>v. uop S ''!'' x = Inr v"
    and reads: "\<not> has_side_effects ins \<Longrightarrow> \<not> allocates ins \<Longrightarrow>
      \<exists>v. ext S (i_op ins) (i_line ins) (map erase (i_args ins)) vs w = (Inr v, w)"
begin

lemma exec_dead:
  assumes "\<not> has_side_effects ins" and "\<not> allocates ins"
  shows "\<exists>v. exec_instr S ins (E, w) = (Inr (set_dest (i_dest ins) v E), w)"
proof (cases "i_op ins \<in> {OP_CONST, OP_LOAD, OP_STORE}")
  case True
  then show ?thesis using exec_copy by metis
next
  case False
  show ?thesis
  proof (cases "op_value S E ins")
    case None
    obtain v where "ext S (i_op ins) (i_line ins) (map erase (i_args ins)) (map (operand E) (i_args ins)) w = (Inr v, w)"
      using reads [OF assms] by blast
    then show ?thesis using None False by (auto simp: exec_instr_def instr_value_def)
  next
    case (Some r)
    then have "i_op ins = OP_UNOP \<or> i_op ins = OP_BINOP" by (auto simp: op_value_def split: if_splits)
    moreover have "i_op ins \<noteq> OP_BINOP" using assms(1) by (auto simp: has_side_effects_def)
    ultimately have u: "i_op ins = OP_UNOP" by blast
    then obtain rest where "i_args ins = AOp ''!'' # rest"
      using assms(1) by (auto simp: has_side_effects_def split: list.splits arg.splits)
    then obtain x where "r = uop S ''!'' x"
      using Some u by (auto simp: op_value_def op_tag_def split: list.splits option.splits)
    then obtain v where "r = Inr v" using not_total by blast
    then show ?thesis using Some u by (auto simp: exec_instr_def instr_value_def)
  qed
qed

lemma dce_instrs:
  assumes "list_all (\<lambda>i. live used i \<or> \<not> allocates i) is" and "\<forall>i \<in> set is. set (arg_vars i) \<subseteq> set used"
    and "agree_on (set used) E E'"
  shows "agree_result (set used) (exec_instrs S is (E, w)) (exec_instrs S (filter (live used) is) (E', w))"
  using assms
proof (induction "is" arbitrary: E E' w)
  case (Cons i "is")
  show ?case
  proof (cases "live used i")
    case True
    have a: "agree_result (set used) (exec_instr S i (E, w)) (exec_instr S i (E', w))"
      using exec_agree Cons.prems by auto
    show ?thesis
    proof (cases "fst (exec_instr S i (E, w))")
      case (Inl p)
      then show ?thesis using a True by (auto simp: agree_result_def split: prod.splits sum.splits)
    next
      case (Inr E1)
      then obtain E2 where "exec_instr S i (E, w) = (Inr E1, snd (exec_instr S i (E, w)))"
        "exec_instr S i (E', w) = (Inr E2, snd (exec_instr S i (E, w)))" "agree_on (set used) E1 E2"
        using a by (cases "exec_instr S i (E, w)"; cases "exec_instr S i (E', w)")
          (auto simp: agree_result_def split: sum.splits)
      then obtain w1 where "exec_instr S i (E, w) = (Inr E1, w1)" "exec_instr S i (E', w) = (Inr E2, w1)"
        "agree_on (set used) E1 E2" by blast
      then show ?thesis using Cons True by simp
    qed
  next
    case False
    then obtain v where "exec_instr S i (E, w) = (Inr (set_dest (i_dest i) v E), w)"
      using exec_dead [of i E w] Cons.prems(1) by (auto simp: live_def)
    moreover have "agree_on (set used) (set_dest (i_dest i) v E) E'"
      using False Cons.prems(3) by (intro agree_skip) (auto simp: live_def)
    ultimately show ?thesis using Cons False by simp
  qed
qed (simp add: agree_result_def)

theorem dead_code_run:
  assumes "no_dead_alloc f" and "agree_on (set (used_vars f)) E E'"
  shows "run_from S (dead_code_elim f) n l (E', w) = run_from S f n l (E, w)"
  using assms(2)
proof (induction n arbitrary: l E E' w)
  case (Suc n)
  let ?U = "used_vars f"
  show ?case
  proof (cases "find_block f l")
    case None
    then show ?thesis by (simp add: dead_code_elim_def find_map_blocks)
  next
    case (Some b)
    then have b: "b \<in> set (f_blocks f)" by (rule find_block_in)
    have "\<forall>i \<in> set (b_instrs b). set (arg_vars i) \<subseteq> set ?U"
      using b by (auto simp: used_vars_def block_vars_def)
    then have a: "agree_result (set ?U) (exec_instrs S (b_instrs b) (E, w))
        (exec_instrs S (filter (live ?U) (b_instrs b)) (E', w))"
      using b assms(1) Suc.prems by (intro dce_instrs) (auto simp: no_dead_alloc_def list_all_iff)
    have t: "leave (b_term b) E1 = leave (b_term b) E2" if "agree_on (set ?U) E1 E2" for E1 E2
      using b that by (intro leave_agree [where U = "set ?U"]) (auto simp: used_vars_def block_vars_def)
    obtain r1 w1 r2 w2 where r: "exec_instrs S (b_instrs b) (E, w) = (r1, w1)"
      "exec_instrs S (filter (live ?U) (b_instrs b)) (E', w) = (r2, w2)" by fastforce
    show ?thesis
    proof (cases r1)
      case (Inl p)
      then show ?thesis
        using a r Some by (auto simp: agree_result_def dead_code_elim_def find_map_blocks split: sum.splits)
    next
      case (Inr E1)
      then obtain E2 where "r2 = Inr E2" "w2 = w1" "agree_on (set ?U) E1 E2"
        using a r by (auto simp: agree_result_def split: sum.splits)
      then show ?thesis
        using r Some t Inr Suc.IH
        by (auto simp: dead_code_elim_def find_map_blocks split: exit.split)
    qed
  qed
qed simp

end

end
