(* ===== verification/Licm.thy ===== *)
theory Licm
  imports Optimize
begin

text \<open>
  Loop-invariant code motion (\<open>_licm\<close>, \<open>_is_hoistable\<close> in src/tools/ir/optimize.py): predecessors,
  dominators by iteration, natural loops by a worklist, and the move of invariant instructions to the
  block before the loop. The sets of block names are sets; a worklist is a list, last entry first.
\<close>

section \<open>Control flow\<close>

definition term_labels :: "block \<Rightarrow> string list" where
  "term_labels b =
     (case b_term b of None \<Rightarrow> []
      | Some t \<Rightarrow> if i_op t = OP_JUMP \<or> i_op t = OP_BRANCH
                  then concat (map (\<lambda>a. case a of ALabel l \<Rightarrow> [l] | _ \<Rightarrow> []) (i_args t)) else [])"

definition block_names :: "irfun \<Rightarrow> string list" where "block_names f = map b_name (f_blocks f)"

text \<open>The edges of the graph, in the order the source meets them, and the predecessors of a block.\<close>

definition edges :: "irfun \<Rightarrow> (string \<times> string) list" where
  "edges f = concat (map (\<lambda>b. map (\<lambda>l. (b_name b, l))
     (filter (\<lambda>l. l \<in> set (block_names f)) (term_labels b))) (f_blocks f))"

definition preds :: "(string \<times> string) list \<Rightarrow> string \<Rightarrow> string list" where
  "preds es n = map fst (filter (\<lambda>e. snd e = n) es)"

section \<open>Dominators\<close>

type_synonym doms = "string \<Rightarrow> string set"

definition dom_new :: "string set \<Rightarrow> (string \<times> string) list \<Rightarrow> doms \<Rightarrow> string \<Rightarrow> string set" where
  "dom_new all es D n =
     (if preds es n = [] then all
      else insert n (fold (\<lambda>p acc. acc \<inter> D p) (preds es n) all))"

fun dom_pass :: "string set \<Rightarrow> (string \<times> string) list \<Rightarrow> string \<Rightarrow> string list \<Rightarrow> doms \<times> bool \<Rightarrow> doms \<times> bool" where
  "dom_pass all es entry [] st = st"
| "dom_pass all es entry (n # ns) (D, changed) =
     dom_pass all es entry ns
       (if n = entry then (D, changed)
        else let new = dom_new all es D n
             in if new \<noteq> D n then (D(n := new), True) else (D, changed))"

text \<open>The loop of passes, for at most so many passes: \<open>None\<close> when they do not suffice.\<close>

fun dom_loop :: "nat \<Rightarrow> string set \<Rightarrow> (string \<times> string) list \<Rightarrow> string \<Rightarrow> string list \<Rightarrow> doms \<Rightarrow> doms option" where
  "dom_loop 0 all es entry ns D = None"
| "dom_loop (Suc k) all es entry ns D =
     (case dom_pass all es entry ns (D, False) of
        (D', changed) \<Rightarrow> if changed then dom_loop k all es entry ns D' else Some D')"

definition dom_start :: "string list \<Rightarrow> string \<Rightarrow> doms" where
  "dom_start ns entry = (\<lambda>n. if n = entry then {entry} else set ns)"

definition dominators :: "(string \<times> string) list \<Rightarrow> string list \<Rightarrow> doms option" where
  "dominators es ns =
     (case ns of [] \<Rightarrow> None
      | entry # _ \<Rightarrow>
          dom_loop (Suc (length ns * length ns)) (set ns) es entry ns (dom_start ns entry))"

section \<open>Natural loops\<close>

text \<open>Everything that reaches the worklist without passing what is already in the set.\<close>

function nat_loop :: "(string \<times> string) list \<Rightarrow> string list \<Rightarrow> string set \<Rightarrow> string set" where
  "nat_loop es [] seen = seen"
| "nat_loop es (n # work) seen =
     (if n \<in> seen then nat_loop es work seen
      else nat_loop es (rev (preds es n) @ work) (insert n seen))"
  by pat_completeness auto
termination
proof (relation "measures [\<lambda>(es, work, seen). card ((fst ` set es \<union> set work) - seen),
    \<lambda>(es, work, seen). length work]", goal_cases)
  case (2 es n work seen)
  have "card ((fst ` set es \<union> set work) - seen) \<le> card ((fst ` set es \<union> set (n # work)) - seen)"
    by (rule card_mono) auto
  then show ?case by auto
next
  case (3 es n work seen)
  have "fst ` set es \<union> set (rev (preds es n) @ work) - insert n seen \<subset>
      fst ` set es \<union> set (n # work) - seen"
    using 3 by (auto simp: preds_def)
  then have "card (fst ` set es \<union> set (rev (preds es n) @ work) - insert n seen) <
      card (fst ` set es \<union> set (n # work) - seen)" by (rule psubset_card_mono [rotated]) simp
  then show ?case by simp
qed auto

section \<open>Hoisting\<close>

fun all_digits :: "string \<Rightarrow> bool" where
  "all_digits [] = True"
| "all_digits (c # cs) = (c \<in> set ''0123456789'' \<and> all_digits cs)"

definition strip :: "string \<Rightarrow> string \<Rightarrow> string option" where
  "strip pre s = (if take (length pre) s = pre then Some (drop (length pre) s) else None)"

definition is_cond_name :: "string \<Rightarrow> bool" where
  "is_cond_name s =
     list_ex (\<lambda>pre. case strip pre s of Some d \<Rightarrow> d \<noteq> [] \<and> all_digits d | None \<Rightarrow> False)
       [''while_cond'', ''for_cond'']"

definition is_hoistable :: "string list \<Rightarrow> instr \<Rightarrow> bool" where
  "is_hoistable loop_defined ins \<longleftrightarrow>
     (i_op ins = OP_CONST \<or> i_op ins = OP_LOAD) \<and>
     list_all (\<lambda>x. x \<notin> set loop_defined) (arg_vars ins)"

definition defined_in :: "irfun \<Rightarrow> string set \<Rightarrow> string list" where
  "defined_in f loop = concat (map (\<lambda>b. concat (map (\<lambda>i. case i_dest i of Some d \<Rightarrow> [d] | None \<Rightarrow> [])
     (b_instrs b))) (filter (\<lambda>b. b_name b \<in> loop) (f_blocks f)))"

text \<open>The back edge whose block comes last in the function.\<close>

definition last_block :: "irfun \<Rightarrow> string list \<Rightarrow> string option" where
  "last_block f ns = List.find (\<lambda>n. n \<in> set ns) (rev (block_names f))"

definition move :: "string \<Rightarrow> string \<Rightarrow> string list \<Rightarrow> irfun \<Rightarrow> irfun" where
  "move from_b to_b ld f =
     (let hoisted = (case find_block f from_b of Some b \<Rightarrow> filter (is_hoistable ld) (b_instrs b) | None \<Rightarrow> [])
      in map_blocks (\<lambda>b.
           if b_name b = from_b then b\<lparr>b_instrs := filter (\<lambda>i. \<not> is_hoistable ld i) (b_instrs b)\<rparr>
           else if b_name b = to_b then b\<lparr>b_instrs := b_instrs b @ hoisted\<rparr> else b) f)"

definition licm_header :: "(string \<times> string) list \<Rightarrow> doms \<Rightarrow> string \<Rightarrow> irfun \<Rightarrow> irfun" where
  "licm_header es D h f =
     (let ps = preds es h; back = filter (\<lambda>t. h \<in> D t) ps in
      if \<not> is_cond_name h \<or> back = [] then f
      else let loop = nat_loop es (rev back) {h}; external = filter (\<lambda>p. p \<notin> loop) ps in
        case (external, last_block f back) of
          ([pre], Some body) \<Rightarrow> move body pre (defined_in f loop) f
        | _ \<Rightarrow> f)"

definition licm :: "irfun \<Rightarrow> irfun" where
  "licm f =
     (let es = edges f; ns = block_names f in
      case dominators es ns of None \<Rightarrow> f | Some D \<Rightarrow> fold (licm_header es D) ns f)"

section \<open>The iteration of the dominators\<close>

definition shrunk :: "doms \<Rightarrow> doms \<Rightarrow> bool" where "shrunk D' D \<longleftrightarrow> (\<forall>n. D' n \<subseteq> D n)"

definition settled :: "string set \<Rightarrow> (string \<times> string) list \<Rightarrow> string \<Rightarrow> doms \<Rightarrow> bool" where
  "settled all es entry D \<longleftrightarrow> (\<forall>n \<in> all. n \<noteq> entry \<longrightarrow> dom_new all es D n \<subseteq> D n)"

lemma fold_inter: "fold (\<lambda>p acc. acc \<inter> D p) ps acc = acc \<inter> (\<Inter>p \<in> set ps. D p)"
  by (induction ps arbitrary: acc) auto

lemma dom_new_mono: "shrunk D' D \<Longrightarrow> dom_new all es D' n \<subseteq> dom_new all es D n"
  unfolding dom_new_def fold_inter shrunk_def by auto

lemma shrunk_upd: "settled all es entry D \<Longrightarrow> n \<in> all \<Longrightarrow> n \<noteq> entry \<Longrightarrow>
    shrunk (D(n := dom_new all es D n)) D"
  by (auto simp: shrunk_def settled_def)

lemma settled_upd:
  assumes "settled all es entry D" and "n \<in> all" and "n \<noteq> entry"
  shows "settled all es entry (D(n := dom_new all es D n))"
  using assms dom_new_mono [OF shrunk_upd [OF assms], of all es] unfolding settled_def
  by (metis (no_types, lifting) fun_upd_apply subset_trans)

lemma dom_pass_ok:
  assumes "settled all es entry D" and "set ns \<subseteq> all" and "dom_pass all es entry ns (D, c) = (D', c')"
  shows "settled all es entry D' \<and> shrunk D' D \<and> D' entry = D entry \<and> (c \<longrightarrow> c') \<and>
         (\<not> c' \<longrightarrow> D' = D \<and> (\<forall>n \<in> set ns. n \<noteq> entry \<longrightarrow> dom_new all es D n = D n)) \<and>
         (c' \<longrightarrow> c \<or> (\<exists>n \<in> set ns. D' n \<noteq> D n))"
  using assms
proof (induction ns arbitrary: D c)
  case (Cons n ns)
  show ?case
  proof (cases "n = entry \<or> dom_new all es D n = D n")
    case True
    then have "dom_pass all es entry ns (D, c) = (D', c')"
      using Cons.prems(3) by (cases "n = entry") (simp_all add: Let_def)
    from Cons.IH [OF Cons.prems(1) _ this] show ?thesis using Cons.prems(2) True by auto
  next
    case False
    let ?D = "D(n := dom_new all es D n)"
    have s: "settled all es entry ?D" "shrunk ?D D"
      using Cons.prems False by (auto intro: settled_upd shrunk_upd)
    have "dom_pass all es entry ns (?D, True) = (D', c')" using Cons.prems(3) False by (auto simp: Let_def)
    moreover have "set ns \<subseteq> all" using Cons.prems(2) by simp
    ultimately have ih: "settled all es entry D'" "shrunk D' ?D" "D' entry = ?D entry" "c'"
      using Cons.IH [OF s(1), of True] by blast+
    then have "D' entry = D entry" using False by auto
    note ih = ih(1,2) this ih(4)
    moreover have "D' n \<noteq> D n"
      using ih(2) [unfolded shrunk_def, rule_format, of n] s(2) [unfolded shrunk_def, rule_format, of n] False
      by auto
    moreover have "shrunk D' D" using ih(2) s(2) by (auto simp: shrunk_def)
    ultimately show ?thesis by auto
  qed
qed (auto simp: shrunk_def)

definition total :: "string set \<Rightarrow> doms \<Rightarrow> nat" where "total all D = (\<Sum>n \<in> all. card (D n))"

lemma total_less:
  assumes "finite all" and "\<And>n. n \<in> all \<Longrightarrow> finite (D n)" and "shrunk D' D" and "n \<in> all" "D' n \<noteq> D n"
  shows "total all D' < total all D"
  unfolding total_def
proof (rule sum_strict_mono_ex1)
  show "\<forall>n \<in> all. card (D' n) \<le> card (D n)"
    using assms(2,3) by (simp add: shrunk_def card_mono)
  show "\<exists>n \<in> all. card (D' n) < card (D n)"
    using assms(2) [OF assms(4)] assms(3,4,5) by (intro bexI [of _ n] psubset_card_mono) (auto simp: shrunk_def)
qed (rule assms(1))

lemma dom_loop_ok:
  assumes "finite all" and "set ns = all" and "settled all es entry D" and "\<And>n. n \<in> all \<Longrightarrow> finite (D n)"
    and "total all D < k"
  shows "\<exists>D'. dom_loop k all es entry ns D = Some D' \<and> D' entry = D entry \<and>
    (\<forall>n \<in> all. n \<noteq> entry \<longrightarrow> dom_new all es D' n = D' n)"
  using assms(3-5)
proof (induction k arbitrary: D)
  case (Suc k)
  obtain D' c where p: "dom_pass all es entry ns (D, False) = (D', c)" by fastforce
  note ok = dom_pass_ok [OF Suc.prems(1) _ p]
  show ?case
  proof (cases c)
    case False
    then show ?thesis using ok p assms(2) by auto
  next
    case True
    then obtain n where n: "n \<in> all" "D' n \<noteq> D n" using ok assms(2) by auto
    have s: "settled all es entry D'" "shrunk D' D" using ok assms(2) by auto
    have "total all D' < k" using total_less [OF assms(1) Suc.prems(2) s(2) n] Suc.prems(3) by simp
    moreover have "finite (D' n)" if "n \<in> all" for n
      using s(2) Suc.prems(2) [OF that] by (auto simp: shrunk_def intro: finite_subset)
    ultimately show ?thesis using Suc.IH [OF s(1)] ok True p assms(2) by auto
  qed
qed simp

lemma dominators_ok:
  assumes "ns = entry # rest"
  shows "\<exists>D. dominators es ns = Some D \<and> D entry = {entry} \<and>
    (\<forall>n \<in> set ns. n \<noteq> entry \<longrightarrow> dom_new (set ns) es D n = D n)"
proof -
  let ?D = "dom_start ns entry"
  have "total (set ns) ?D \<le> (\<Sum>n \<in> set ns. length ns)"
    unfolding total_def
  proof (rule sum_mono)
    fix n show "card (?D n) \<le> length ns"
      using card_length [of ns] by (simp add: dom_start_def assms)
  qed
  also have "\<dots> \<le> length ns * length ns" by (simp add: card_length)
  finally have t: "total (set ns) ?D < Suc (length ns * length ns)" by simp
  have "dom_new (set ns) es ?D n \<subseteq> set ns" if "n \<in> set ns" for n
    using that by (auto simp: dom_new_def fold_inter)
  then have "settled (set ns) es entry ?D" by (auto simp: settled_def dom_start_def)
  moreover have "finite (?D n)" for n by (simp add: dom_start_def)
  ultimately have "\<exists>D'. dom_loop (Suc (length ns * length ns)) (set ns) es entry ns ?D = Some D' \<and>
      D' entry = ?D entry \<and> (\<forall>n \<in> set ns. n \<noteq> entry \<longrightarrow> dom_new (set ns) es D' n = D' n)"
    using t by (intro dom_loop_ok) simp_all
  moreover have "dominators es ns = dom_loop (Suc (length ns * length ns)) (set ns) es entry ns ?D"
    unfolding dominators_def assms list.case ..
  ultimately show ?thesis by (simp add: dom_start_def)
qed

text \<open>The paths from the entry, last block first.\<close>

inductive path :: "(string \<times> string) list \<Rightarrow> string \<Rightarrow> string list \<Rightarrow> string \<Rightarrow> bool"
  for es entry where
  path_start: "path es entry [entry] entry"
| path_step: "path es entry vs m \<Longrightarrow> (m, n) \<in> set es \<Longrightarrow> path es entry (n # vs) n"

inductive_cases path_emptyE: "path es entry [] n"

lemma dom_on_path:
  assumes "path es entry vs n" and "D entry = {entry}" and "set (map snd es) \<subseteq> all"
    and "\<forall>n \<in> all. n \<noteq> entry \<longrightarrow> dom_new all es D n = D n" and "d \<in> D n"
  shows "d \<in> set vs"
  using assms(1,5)
proof (induction arbitrary: d)
  case path_start
  then show ?case using assms(2) by simp
next
  case (path_step vs m n)
  show ?case
  proof (cases "n = entry")
    case True
    have "path es entry vs' k \<Longrightarrow> entry \<in> set vs'" for vs' k by (induction rule: path.induct) auto
    then show ?thesis using path_step True assms(2) by auto
  next
    case False
    have "n \<in> all" using path_step(2) assms(3) by force
    then have D: "D n = dom_new all es D n" using assms(4) False by blast
    have "m \<in> set (preds es n)" using path_step(2) by (force simp: preds_def)
    then have "dom_new all es D n \<subseteq> insert n (D m)" by (auto simp: dom_new_def fold_inter)
    then have "d = n \<or> d \<in> D m" using path_step(4) D by auto
    then show ?thesis using path_step.IH by auto
  qed
qed

end
