(* ===== verification/IrProps.thy ===== *)
theory IrProps
  imports OptProps Licm
begin

text \<open>
  The operators of the interpreter as a semantics of the intermediate representation, the
  interpretation of the optimiser's interfaces on it, and the properties of the passes.
\<close>

section \<open>The interpreter's operators\<close>

fun to_val :: "lit \<Rightarrow> val" where
  "to_val (LInt n) = VInt n"
| "to_val (LBool b) = VBool b"
| "to_val (LStr t) = VStr t"
| "to_val (LText t) = VStr (map (\<lambda>c. word_of_nat (of_char c)) t)"
| "to_val (LFloat f) = VFloat f"
| "to_val LNone = VNone"

fun of_val :: "val \<Rightarrow> lit" where
  "of_val (VInt n) = LInt n"
| "of_val (VBool b) = LBool b"
| "of_val (VStr t) = LStr t"
| "of_val (VFloat f) = LFloat f"
| "of_val _ = LNone"

definition operators :: "(string \<times> binop) list" where
  "operators = [(''+'', OpAdd), (''-'', OpSub), (''*'', OpMul), (''/'', OpDiv), (''%'', OpMod),
     (''=='', OpEq), (''!='', OpNe), (''<'', OpLt), (''<='', OpLe), (''>'', OpGt), (''>='', OpGe)]"

definition type_error :: panic where "type_error = HLPanic ''operand types''"

definition no_state :: ist where
  "no_state = \<lparr>env = [], heap = [], out = [], errout = [], rng = 0, frames = []\<rparr>"

definition outcome :: "(sig + val) \<times> ist \<Rightarrow> panic + lit" where
  "outcome r = (case fst r of Inr v \<Rightarrow> Inr (of_val v) | Inl (SPanic p) \<Rightarrow> Inl p | Inl _ \<Rightarrow> Inl type_error)"

abbreviation ictx :: "float_ops \<Rightarrow> ctx" where
  "ictx fl \<equiv> \<lparr>fns = Map.empty, structs = Map.empty, contracts = False, elide = False, flops = fl\<rparr>"

text \<open>The text literals are the messages of panics; an operator on two of them is Python's.\<close>

definition interp_bop :: "float_ops \<Rightarrow> string \<Rightarrow> lit \<Rightarrow> lit \<Rightarrow> panic + lit" where
  "interp_bop fl p a b =
     (case (a, b) of
        (LText _, LText _) \<Rightarrow> (case fold_binop fl p a b of Some v \<Rightarrow> Inr v | None \<Rightarrow> Inl type_error)
      | _ \<Rightarrow>
     (case (a, b, p = ''&&'', p = ''||'') of
        (LBool x, LBool y, True, _) \<Rightarrow> Inr (LBool (x \<and> y))
      | (LBool x, LBool y, _, True) \<Rightarrow> Inr (LBool (x \<or> y))
      | _ \<Rightarrow> (case map_of operators p of
                None \<Rightarrow> Inl type_error
              | Some op \<Rightarrow>
                  outcome (strict_bin (ictx fl) op False False (to_val a) (to_val b) no_state))))"

definition interp_uop :: "float_ops \<Rightarrow> string \<Rightarrow> lit \<Rightarrow> panic + lit" where
  "interp_uop fl p a =
     (if p = ''!'' then outcome (eval_un (ictx fl) OpNot (to_val a) no_state)
      else if p = ''-'' then outcome (eval_un (ictx fl) OpNeg (to_val a) no_state)
      else Inl type_error)"

lemma fold_interp_ints:
  "fold_int (m + n) = Some v \<Longrightarrow> \<exists>k. i64_add m n = Inr k \<and> v = LInt k"
  "fold_int (m - n) = Some v \<Longrightarrow> \<exists>k. i64_sub m n = Inr k \<and> v = LInt k"
  "fold_int (m * n) = Some v \<Longrightarrow> \<exists>k. i64_mul m n = Inr k \<and> v = LInt k"
  "fold_div m n = Some v \<Longrightarrow> \<exists>k. i64_div m n = Inr k \<and> v = LInt k"
  "fold_mod m n = Some v \<Longrightarrow> \<exists>k. i64_mod m n = Inr k \<and> v = LInt k"
  by (auto simp: fold_int_def fold_div_def fold_mod_def in_int64_def i64_op_defs Let_def split: if_splits)

text \<open>The folder, operator by operator.\<close>

definition fold_op :: "float_ops \<Rightarrow> binop \<Rightarrow> lit \<Rightarrow> lit \<Rightarrow> lit option" where
  "fold_op fl op a b =
     (case op of
        OpAdd \<Rightarrow> fold_add a b | OpSub \<Rightarrow> fold_ints a b (\<lambda>m n. fold_int (m - n))
      | OpMul \<Rightarrow> fold_ints a b (\<lambda>m n. fold_int (m * n)) | OpDiv \<Rightarrow> fold_ints a b fold_div
      | OpMod \<Rightarrow> fold_ints a b fold_mod
      | OpEq \<Rightarrow> fold_cmp a b (Some (lit_eq fl a b)) | OpNe \<Rightarrow> fold_cmp a b (Some (\<not> lit_eq fl a b))
      | OpLt \<Rightarrow> fold_cmp a b (lit_less fl a b) | OpLe \<Rightarrow> fold_cmp a b (lit_le fl a b)
      | OpGt \<Rightarrow> fold_cmp a b (lit_less fl b a) | OpGe \<Rightarrow> fold_cmp a b (lit_le fl b a)
      | _ \<Rightarrow> None)"

lemma fold_binop_op: "map_of operators p = Some op \<Longrightarrow> fold_binop fl p a b = fold_op fl op a b"
  by (auto simp: operators_def fold_binop_def fold_op_def split: if_splits)

lemma fold_binop_bool: "fold_binop fl ''&&'' a b = fold_bools a b (\<and>)" "fold_binop fl ''||'' a b = fold_bools a b (\<or>)"
  by (simp_all add: fold_binop_def)

lemma fold_binop_known: "fold_binop fl p a b = Some v \<Longrightarrow> map_of operators p = None \<Longrightarrow> p = ''&&'' \<or> p = ''||''"
  by (auto simp: operators_def fold_binop_def split: if_splits)

lemma operators_bool: "map_of operators ''&&'' = None" "map_of operators ''||'' = None"
  by (simp_all add: operators_def)

lemmas strict_defs = strict_bin_def arith_def checked_def ret_bool_def ret_def raise_def scalar_le_def

lemma fold_op_strict:
  assumes "fold_op fl op a b = Some v" and "a \<noteq> LNone" and "\<And>s. a \<noteq> LText s"
  shows "strict_bin (ictx fl) op False False (to_val a) (to_val b) no_state = (Inr (to_val v), no_state) \<and>
         of_val (to_val v) = v"
  using assms
  by (cases op; cases a; cases b; simp add: fold_op_def fold_add_def fold_ints_def fold_cmp_def lit_le_def;
      auto simp: strict_defs dest: fold_interp_ints)

lemma fold_interp:
  assumes f: "fold_binop fl p a b = Some v" and n: "a \<noteq> LNone" "b \<noteq> LNone"
  shows "interp_bop fl p a b = Inr v"
proof (cases "\<exists>s t. a = LText s \<and> b = LText t")
  case True
  then show ?thesis using f by (auto simp: interp_bop_def)
next
  case False
  show ?thesis
  proof (cases "map_of operators p")
    case None
    then have "p = ''&&'' \<or> p = ''||''" using f fold_binop_known by blast
    then show ?thesis
      using f by (auto simp: fold_binop_bool fold_bools_def interp_bop_def split: lit.splits)
  next
    case (Some op)
    have op: "fold_op fl op a b = Some v" using f fold_binop_op [OF Some] by simp
    have "\<And>s. a \<noteq> LText s"
      using False op by (cases op; cases a; cases b; auto simp: fold_op_def fold_add_def fold_ints_def fold_cmp_def)
    then have "strict_bin (ictx fl) op False False (to_val a) (to_val b) no_state = (Inr (to_val v), no_state)"
      "of_val (to_val v) = v" using fold_op_strict [OF op n(1)] by blast+
    moreover have "p \<noteq> ''&&''" "p \<noteq> ''||''" using Some operators_bool by auto
    ultimately show ?thesis
      using False Some by (cases a; cases b; simp add: interp_bop_def outcome_def)
  qed
qed

lemma fold_interp_un: "fold_unop p (Some a) = Some v \<Longrightarrow> interp_uop fl p a = Inr v"
  by (auto simp: fold_unop_def interp_uop_def eval_un_def outcome_def i64_op_defs bindS_def getS_def
      ret_def truthy_def split: if_splits lit.splits)

section \<open>A semantics over the interpreter's store\<close>

text \<open>Reads of lists and structs; any other opcode is the argument \<open>other\<close>.\<close>

definition to_ival :: "val \<Rightarrow> ival" where
  "to_ival v = (case v of VRef a \<Rightarrow> IRef a | _ \<Rightarrow> IV (of_val v))"

definition read_store :: "opcode \<Rightarrow> arg list \<Rightarrow> ival list \<Rightarrow> hobj list \<Rightarrow> ival" where
  "read_store op as vs hp =
     (case (op, as, vs) of
        (OP_LIST_LEN, _, IRef a # _) \<Rightarrow>
          (if a < length hp then (case hp ! a of HList xs \<Rightarrow> IV (LInt (int (length xs))) | _ \<Rightarrow> IV LNone)
           else IV LNone)
      | (OP_STRUCT_GET, [_, AName f], IRef a # _) \<Rightarrow>
          (if a < length hp
           then (case hp ! a of HStruct fs \<Rightarrow> (case map_of fs f of Some v \<Rightarrow> to_ival v | None \<Rightarrow> IV LNone)
                 | _ \<Rightarrow> IV LNone)
           else IV LNone)
      | _ \<Rightarrow> IV LNone)"

definition interp_sem ::
  "float_ops \<Rightarrow> (opcode \<Rightarrow> int \<Rightarrow> arg list \<Rightarrow> ival list \<Rightarrow> hobj list \<Rightarrow> (panic + ival) \<times> hobj list) \<Rightarrow>
   hobj list sem" where
  "interp_sem fl other =
     \<lparr>bop = interp_bop fl, uop = interp_uop fl,
      ext = (\<lambda>op ln as vs hp.
        if op \<in> {OP_LIST_LEN, OP_STRUCT_GET, OP_MAP_GET, OP_CONST, OP_LOAD, OP_UNOP}
        then (Inr (read_store op as vs hp), hp) else other op ln as vs hp)\<rparr>"

interpretation ir_fold: scalar_sem fl "interp_sem fl other" for fl other
  by unfold_locales (simp_all add: interp_sem_def fold_interp fold_interp_un)

interpretation ir_read: read_sem "interp_sem fl other" for fl other
proof unfold_locales
  show "\<exists>v. uop (interp_sem fl other) ''!'' x = Inr v" for x
    by (auto simp: interp_sem_def interp_uop_def eval_un_def outcome_def bindS_def getS_def ret_def)
next
  fix ins vs and w :: "hobj list"
  assume "\<not> has_side_effects ins" "\<not> allocates ins"
  then have "i_op ins \<in> {OP_LIST_LEN, OP_STRUCT_GET, OP_MAP_GET, OP_CONST, OP_LOAD, OP_UNOP}"
    by (auto simp: has_side_effects_def allocates_def split: if_splits)
  then show "\<exists>v. ext (interp_sem fl other) (i_op ins) (i_line ins) (map erase (i_args ins)) vs w = (Inr v, w)"
    by (simp add: interp_sem_def)
qed

section \<open>An example function\<close>

text \<open>\<open>let k = 5; let i = 0; let s = 0; while i < 3 { let c = k; c = c + 1; s = s + c; i = i + 1 }; return s\<close>,
  as the builder lowers it, the constants of the entry block folded into the copies.\<close>

abbreviation ins :: "string \<Rightarrow> opcode \<Rightarrow> arg list \<Rightarrow> instr" where
  "ins d op as \<equiv> \<lparr>i_dest = Some d, i_op = op, i_args = as, i_line = 0, i_ty = None, i_safe = False\<rparr>"

abbreviation trm :: "opcode \<Rightarrow> arg list \<Rightarrow> instr option" where
  "trm op as \<equiv> Some \<lparr>i_dest = None, i_op = op, i_args = as, i_line = 0, i_ty = None, i_safe = False\<rparr>"

definition loop_fn :: irfun where
  "loop_fn = \<lparr>f_name = ''f'', f_params = [], f_ret = ''int'', f_effects = [], f_blocks =
     [\<lparr>b_name = ''entry'', b_instrs =
         [ins ''t1'' OP_CONST [ALit (LInt 5)], ins ''v_k'' OP_LOAD [AVar ''t1''],
          ins ''t2'' OP_CONST [ALit (LInt 0)], ins ''v_i'' OP_LOAD [AVar ''t2''],
          ins ''t3'' OP_CONST [ALit (LInt 0)], ins ''v_s'' OP_LOAD [AVar ''t3'']],
        b_term = trm OP_JUMP [ALabel ''while_cond1'']\<rparr>,
      \<lparr>b_name = ''while_cond1'', b_instrs =
         [ins ''t4'' OP_CONST [ALit (LInt 3)], ins ''t5'' OP_BINOP [AOp ''<'', AVar ''v_i'', AVar ''t4'']],
        b_term = trm OP_BRANCH [AVar ''t5'', ALabel ''while_body2'', ALabel ''while_end3'']\<rparr>,
      \<lparr>b_name = ''while_body2'', b_instrs =
         [ins ''v_c'' OP_LOAD [AVar ''v_k''],
          ins ''t6'' OP_CONST [ALit (LInt 1)], ins ''t7'' OP_BINOP [AOp ''+'', AVar ''v_c'', AVar ''t6''],
          ins ''v_c'' OP_STORE [AVar ''t7'', AName ''c''],
          ins ''t8'' OP_BINOP [AOp ''+'', AVar ''v_s'', AVar ''v_c''],
          ins ''v_s'' OP_STORE [AVar ''t8'', AName ''s''],
          ins ''t9'' OP_CONST [ALit (LInt 1)], ins ''t10'' OP_BINOP [AOp ''+'', AVar ''v_i'', AVar ''t9''],
          ins ''v_i'' OP_STORE [AVar ''t10'', AName ''i'']],
        b_term = trm OP_JUMP [ALabel ''while_cond1'']\<rparr>,
      \<lparr>b_name = ''while_end3'', b_instrs = [], b_term = trm OP_RETURN [AVar ''v_s'']\<rparr>]\<rparr>"

definition ops1 :: float_ops where
  "ops1 = \<lparr>f_add = (\<lambda>a b. a + b), f_sub = (\<lambda>a b. a - b), f_mul = (\<lambda>a b. a * b), f_div = (\<lambda>a b. a),
     f_mod = (\<lambda>a b. a), f_neg = (\<lambda>a. - a), f_lt = (<), f_eq = (=), f_zero = (\<lambda>a. a = 0)\<rparr>"

definition no_calls :: "opcode \<Rightarrow> int \<Rightarrow> arg list \<Rightarrow> ival list \<Rightarrow> hobj list \<Rightarrow> (panic + ival) \<times> hobj list" where
  "no_calls op ln as vs hp = (Inl type_error, hp)"

abbreviation sem1 :: "hobj list sem" where "sem1 \<equiv> interp_sem ops1 no_calls"

definition start1 :: "ienv \<times> hobj list" where "start1 = ((\<lambda>_. IV LNone), [])"

lemma add_int: "in_int64 (m + n) \<Longrightarrow> bop (interp_sem fl other) ''+'' (LInt m) (LInt n) = Inr (LInt (m + n))"
  by (rule ir_fold.fold_bop) (simp_all add: fold_binop_def fold_add_def fold_int_def)

lemma less_int: "bop (interp_sem fl other) ''<'' (LInt m) (LInt n) = Inr (LBool (m < n))"
  by (rule ir_fold.fold_bop [where fl = fl]) (simp_all add: fold_binop_def fold_cmp_def)

lemmas ir_run = exec_instr_def instr_value_def first_value_def operand_def op_value_def op_tag_def
  scalar_def set_dest_def leave_def label_tag_def find_block_def add_int less_int in_int64_def
  INT64_MIN_def INT64_MAX_def

lemma loop_fn_run: "run_from sem1 loop_fn 20 ''entry'' start1 = Some (Returned (Some (IV (LInt 18))), [])"
  by (simp add: ir_run loop_fn_def start1_def numeral_eq_Suc)

lemma loop_fn_wf: "wf_fun loop_fn"
  by (simp add: loop_fn_def wf_fun_def wf_block_def store_ok_def arg_vars_def)

lemma loop_edges:
  "edges loop_fn = [(''entry'', ''while_cond1''), (''while_cond1'', ''while_body2''),
     (''while_cond1'', ''while_end3''), (''while_body2'', ''while_cond1'')]"
  by (simp add: edges_def loop_fn_def block_names_def term_labels_def)

lemma loop_names: "block_names loop_fn = [''entry'', ''while_cond1'', ''while_body2'', ''while_end3'']"
  by (simp add: loop_fn_def block_names_def)

section \<open>Folding\<close>

text \<open>
  C21. The value the folder gives an operator on two literals is the value the interpreter computes:
  a fold never replaces a run-time panic, an overflow or a division by zero, by a value.\<close>

theorem fold_is_evaluation:
  assumes "map_of operators p = Some op" and "fold_binop fl p a b = Some v"
    and "a \<noteq> LNone" and "\<And>t. a \<noteq> LText t"
  shows "strict_bin (ictx fl) op False False (to_val a) (to_val b) no_state = (Inr (to_val v), no_state)"
  using fold_op_strict assms fold_binop_op by metis

theorem fold_is_evaluation_witness:
  "strict_bin (ictx ops1) OpDiv False False (VInt (-7)) (VInt 2) no_state = (Inr (VInt (-3)), no_state)"
  using fold_is_evaluation [of "''/''" OpDiv ops1 "LInt (-7)" "LInt 2" "LInt (-3)"]
  by (simp add: operators_def fold_binop_def fold_ints_def fold_div_def INT64_MIN_def)

text \<open>
  C8. Constant folding and copy propagation preserve every run: from any block, with any bound on the
  number of blocks, the changed function ends as the function does, in the same store; copy propagation
  whatever the opcodes outside the operators do.\<close>

theorem rewriting_preserves:
  assumes "wf_fun f"
  shows "run_from (interp_sem fl other) (constant_fold fl f) n l m = run_from (interp_sem fl other) f n l m
    \<and> run_from S (copy_propagate f) n l w = run_from S f n l w"
  using ir_fold.constant_fold_run [OF assms] copy_propagate_run [OF assms] by blast

theorem rewriting_preserves_witness:
  "run_from sem1 (constant_fold ops1 loop_fn) 20 ''entry'' start1 = Some (Returned (Some (IV (LInt 18))), [])
   \<and> run_from sem1 (copy_propagate loop_fn) 20 ''entry'' start1 = Some (Returned (Some (IV (LInt 18))), [])"
  using rewriting_preserves [OF loop_fn_wf, of ops1 no_calls 20 "''entry''" start1 sem1 start1] loop_fn_run by simp

text \<open>
  C22. Dead code elimination preserves every run of a function none of whose dead instructions
  allocates an object: no panic, call or store is dropped.\<close>

theorem dead_code_preserves:
  assumes "no_dead_alloc f"
  shows "run_from (interp_sem fl other) (dead_code_elim f) n l m = run_from (interp_sem fl other) f n l m"
  using ir_read.dead_code_run [OF assms, of "fst m" "fst m" fl other n l "snd m"] by (simp add: agree_on_def)

theorem dead_code_preserves_witness:
  "run_from sem1 (dead_code_elim loop_fn) 20 ''entry'' start1 = Some (Returned (Some (IV (LInt 18))), [])"
proof -
  have "list_all (\<lambda>b. list_all (\<lambda>i. \<not> allocates i) (b_instrs b)) (f_blocks loop_fn)"
    by (simp add: loop_fn_def allocates_def)
  then have "no_dead_alloc loop_fn" unfolding no_dead_alloc_def list_all_iff by blast
  then show ?thesis using dead_code_preserves [of loop_fn ops1 no_calls 20] loop_fn_run by simp
qed

section \<open>Loops\<close>

text \<open>
  C33. The iteration for the dominators ends within the square of the number of blocks, and a block
  in the set computed for \<open>n\<close> lies on every path from the entry to \<open>n\<close>.\<close>

theorem dominators_sound:
  assumes "block_names f = entry # rest"
  shows "\<exists>D. dominators (edges f) (block_names f) = Some D \<and>
    (\<forall>vs n d. path (edges f) entry vs n \<and> d \<in> D n \<longrightarrow> d \<in> set vs)"
proof -
  obtain D where D: "dominators (edges f) (block_names f) = Some D" "D entry = {entry}"
    "\<forall>n \<in> set (block_names f). n \<noteq> entry \<longrightarrow> dom_new (set (block_names f)) (edges f) D n = D n"
    using dominators_ok [OF assms] by blast
  have "set (map snd (edges f)) \<subseteq> set (block_names f)" by (auto simp: edges_def)
  then have "d \<in> set vs" if "path (edges f) entry vs n" "d \<in> D n" for vs n d
    by (rule dom_on_path [OF that(1) D(2) _ D(3) that(2)])
  then show ?thesis using D(1) by fast
qed

theorem dominators_sound_witness:
  "\<exists>D. dominators (edges loop_fn) (block_names loop_fn) = Some D \<and>
     D ''while_end3'' \<subseteq> {''while_end3'', ''while_cond1'', ''entry''}"
proof -
  have "path (edges loop_fn) ''entry'' [''while_end3'', ''while_cond1'', ''entry''] ''while_end3''"
    unfolding loop_edges by (rule path_step [OF path_step [OF path_start]]) simp_all
  then show ?thesis using dominators_sound [OF loop_names] by fastforce
qed

lemma loop_dominators:
  "\<exists>D. dominators (edges loop_fn) (block_names loop_fn) = Some D \<and> ''while_cond1'' \<notin> D ''entry'' \<and>
     ''while_cond1'' \<in> D ''while_body2''"
proof -
  obtain D where D: "dominators (edges loop_fn) (block_names loop_fn) = Some D" "D ''entry'' = {''entry''}"
    "\<forall>n \<in> set (block_names loop_fn). n \<noteq> ''entry'' \<longrightarrow>
       dom_new (set (block_names loop_fn)) (edges loop_fn) D n = D n"
    using dominators_ok [OF loop_names, of "edges loop_fn"] by (elim exE conjE) (rule that)
  have "D ''while_cond1'' = dom_new (set (block_names loop_fn)) (edges loop_fn) D ''while_cond1''"
    "D ''while_body2'' = dom_new (set (block_names loop_fn)) (edges loop_fn) D ''while_body2''"
    using D(3) by (simp_all add: loop_names)
  moreover have "''while_cond1'' \<in> dom_new (set (block_names loop_fn)) (edges loop_fn) D ''while_cond1''"
    by (simp add: dom_new_def loop_names)
  moreover have "dom_new (set (block_names loop_fn)) (edges loop_fn) D ''while_body2'' =
      insert ''while_body2'' (set (block_names loop_fn) \<inter> D ''while_cond1'')"
    by (simp add: dom_new_def preds_def loop_edges)
  ultimately have "''while_cond1'' \<in> D ''while_cond1''"
    "D ''while_body2'' = insert ''while_body2'' (set (block_names loop_fn) \<inter> D ''while_cond1'')"
    by (simp_all only:)
  then show ?thesis using D(1,2) by (simp add: loop_names)
qed

text \<open>
  C34. Loop-invariant code motion is not sound: it hoists a copy whose destination the loop stores
  to. On the function above the original returns 18 and the result of the pass returns 21.\<close>

theorem licm_changes_result:
  "run_from sem1 loop_fn 20 ''entry'' start1 = Some (Returned (Some (IV (LInt 18))), []) \<and>
   run_from sem1 (licm loop_fn) 20 ''entry'' start1 = Some (Returned (Some (IV (LInt 21))), [])"
proof
  show "run_from sem1 loop_fn 20 ''entry'' start1 = Some (Returned (Some (IV (LInt 18))), [])"
    by (rule loop_fn_run)
  obtain D where D: "dominators (edges loop_fn) (block_names loop_fn) = Some D"
    "''while_cond1'' \<notin> D ''entry''" "''while_cond1'' \<in> D ''while_body2''"
    using loop_dominators by blast
  have skip: "licm_header es D h f = f" if "\<not> is_cond_name h" for es h f
    using that by (simp add: licm_header_def)
  have names: "\<not> is_cond_name ''entry''" "is_cond_name ''while_cond1''" "\<not> is_cond_name ''while_body2''"
    "\<not> is_cond_name ''while_end3''" by (simp_all add: is_cond_name_def strip_def)
  have "nat_loop (edges loop_fn) [''while_body2''] {''while_cond1''} = {''while_body2'', ''while_cond1''}"
    by (simp add: loop_edges preds_def)
  then have "licm_header (edges loop_fn) D ''while_cond1'' loop_fn =
      move ''while_body2'' ''entry'' (defined_in loop_fn {''while_body2'', ''while_cond1''}) loop_fn"
    using D by (simp add: licm_header_def names loop_edges preds_def last_block_def loop_names)
  moreover have "defined_in loop_fn {''while_body2'', ''while_cond1''} =
      [''t4'', ''t5'', ''v_c'', ''t6'', ''t7'', ''v_c'', ''t8'', ''v_s'', ''t9'', ''t10'', ''v_i'']"
    by (simp add: defined_in_def loop_fn_def)
  ultimately have "licm loop_fn = move ''while_body2'' ''entry''
      [''t4'', ''t5'', ''v_c'', ''t6'', ''t7'', ''v_c'', ''t8'', ''v_s'', ''t9'', ''t10'', ''v_i''] loop_fn"
    using D(1) by (simp add: licm_def loop_names skip names)
  then show "run_from sem1 (licm loop_fn) 20 ''entry'' start1 = Some (Returned (Some (IV (LInt 21))), [])"
    by (simp add: ir_run loop_fn_def start1_def move_def map_blocks_def is_hoistable_def arg_vars_def
        numeral_eq_Suc)
qed

end
