(* ===== verification/PyText.thy ===== *)
theory PyText
  imports Prelude "HOL-Library.Char_ord"
begin

text \<open>
  The operations on Python \<open>str\<close> that the package tools use, on ASCII text: \<open>isdigit\<close>, \<open>int\<close>,
  the \<open>%d\<close> rendering, \<open>strip\<close>, \<open>split\<close> in its three forms (by a character, by whitespace, by a
  longer separator), \<open>join\<close>, and the lemmas that make each pair of them inverse. On text outside
  ASCII \<open>isdigit\<close> and the pattern class for a digit accept more characters; that is not modelled.
\<close>

section \<open>Digits and numerals\<close>

definition code_of :: "char \<Rightarrow> nat" where
  "code_of c = of_char c"

definition dec_char :: "char \<Rightarrow> bool" where
  "dec_char c \<longleftrightarrow> 48 \<le> code_of c \<and> code_of c \<le> 57"

definition isdigit :: "string \<Rightarrow> bool" where
  "isdigit s \<longleftrightarrow> s \<noteq> [] \<and> list_all dec_char s"

definition dec_step :: "nat \<Rightarrow> char \<Rightarrow> nat" where
  "dec_step n c = 10 * n + (code_of c - 48)"

definition int_of :: "string \<Rightarrow> nat" where
  "int_of s = foldl dec_step 0 s"

fun dec :: "nat \<Rightarrow> string" where
  "dec n = (if n < 10 then [char_of (48 + n)] else dec (n div 10) @ [char_of (48 + n mod 10)])"

declare dec.simps [simp del]

lemma code_of_char_of [simp]: "n < 256 \<Longrightarrow> code_of (char_of n) = n"
  by (simp add: code_of_def)

lemma char_of_code_of [simp]: "char_of (code_of c) = c"
  by (simp add: code_of_def)

lemma dec_char_char_of [simp]: "n < (10 :: nat) \<Longrightarrow> dec_char (char_of (48 + n))"
  by (simp add: dec_char_def)

lemma dec_chars: "list_all dec_char (dec n)"
  by (induction n rule: dec.induct) (simp add: dec.simps)

lemma dec_not_Nil [simp]: "dec n \<noteq> []"
  by (simp add: dec.simps)

lemma isdigit_dec [simp]: "isdigit (dec n)"
  by (simp add: isdigit_def dec_chars)

lemma int_of_snoc: "int_of (s @ [c]) = dec_step (int_of s) c"
  by (simp add: int_of_def)

lemma int_of_Nil [simp]: "int_of [] = 0"
  by (simp add: int_of_def)

lemma int_of_dec [simp]: "int_of (dec n) = n"
proof (induction n rule: dec.induct)
  case (1 n)
  show ?case
  proof (cases "n < 10")
    case True
    then show ?thesis by (simp add: dec.simps [of n] int_of_def dec_step_def)
  next
    case False
    then show ?thesis using 1 [OF False] by (simp add: dec.simps [of n] int_of_snoc dec_step_def)
  qed
qed

text \<open>A numeral without leading zeros, and that such numerals are exactly the renderings.\<close>

definition is_num :: "string \<Rightarrow> bool" where
  "is_num s \<longleftrightarrow> isdigit s \<and> (length s = 1 \<or> hd s \<noteq> CHR ''0'')"

lemma char_0: "char_of (48 :: nat) = CHR ''0''"
  by code_simp

lemma hd_dec: "n \<noteq> 0 \<Longrightarrow> hd (dec n) \<noteq> CHR ''0''"
proof (induction n rule: dec.induct)
  case (1 n)
  show ?case
  proof (cases "n < 10")
    case True
    have "code_of (char_of (48 + n)) \<noteq> code_of (char_of (48 :: nat))"
      using True 1(2) by (subst code_of_char_of; simp)+
    then have "char_of (48 + n) \<noteq> CHR ''0''" unfolding char_0 [symmetric] by metis
    then show ?thesis using True by (simp add: dec.simps [of n])
  next
    case False
    then have "n div 10 \<noteq> 0" by auto
    then show ?thesis using 1(1) [OF False] False by (simp add: dec.simps [of n])
  qed
qed

lemma is_num_dec [simp]: "is_num (dec n)"
proof (cases "n < 10")
  case True
  then show ?thesis by (simp add: is_num_def) (simp add: dec.simps)
next
  case False
  then have "n \<noteq> 0" by simp
  then show ?thesis by (simp add: is_num_def hd_dec)
qed

lemma int_of_pos: "s \<noteq> [] \<Longrightarrow> list_all dec_char s \<Longrightarrow> hd s \<noteq> CHR ''0'' \<Longrightarrow> int_of s \<noteq> 0"
proof (induction s rule: rev_induct)
  case (snoc c s)
  show ?case
  proof (cases "s = []")
    case True
    have "code_of c \<noteq> 48"
      using snoc.prems(3) True char_of_code_of [of c] char_0 by (auto simp del: char_of_code_of)
    then have "code_of c - 48 \<noteq> 0" using snoc.prems(2) True by (auto simp: dec_char_def)
    then show ?thesis using True by (simp add: int_of_snoc [of "[]", simplified] dec_step_def)
  next
    case False
    then show ?thesis using snoc by (auto simp: int_of_snoc dec_step_def)
  qed
qed simp

lemma dec_int_of: "is_num s \<Longrightarrow> dec (int_of s) = s"
proof (induction s rule: rev_induct)
  case (snoc c s)
  have d: "dec_char c" and ds: "list_all dec_char s"
    using snoc.prems by (auto simp: is_num_def isdigit_def)
  have c: "code_of c - 48 < 10" "char_of (48 + (code_of c - 48)) = c"
    using d by (auto simp: dec_char_def)
  show ?case
  proof (cases "s = []")
    case True
    have "int_of [c] = code_of c - 48" using int_of_snoc [of "[]" c] by (simp add: dec_step_def)
    then show ?thesis using True c by (simp add: dec.simps)
  next
    case False
    then have hd: "hd s \<noteq> CHR ''0''" using snoc.prems by (auto simp: is_num_def)
    then have s: "dec (int_of s) = s"
      using snoc.IH ds False by (simp add: is_num_def isdigit_def)
    have pos: "int_of s \<noteq> 0" using int_of_pos [OF False ds hd] .
    have "dec (10 * int_of s + (code_of c - 48)) = dec (int_of s) @ [c]"
      using pos c by (subst dec.simps) simp
    then show ?thesis by (simp add: int_of_snoc dec_step_def s)
  qed
qed (simp add: is_num_def isdigit_def)

section \<open>Splitting and joining\<close>

text \<open>\<open>s.split(c)\<close> for a single character and \<open>c.join(parts)\<close>.\<close>

fun split_on :: "char \<Rightarrow> string \<Rightarrow> string list" where
  "split_on c [] = [[]]"
| "split_on c (x # s) =
     (if x = c then [] # split_on c s
      else (case split_on c s of [] \<Rightarrow> [[x]] | p # ps \<Rightarrow> (x # p) # ps))"

fun join_on :: "string \<Rightarrow> string list \<Rightarrow> string" where
  "join_on sep [] = []"
| "join_on sep [p] = p"
| "join_on sep (p # q # ps) = p @ sep @ join_on sep (q # ps)"

lemma split_on_not_Nil [simp]: "split_on c s \<noteq> []"
  by (induction s) (auto split: list.splits)

lemma join_on_Cons: "ps \<noteq> [] \<Longrightarrow> join_on sep (p # ps) = p @ sep @ join_on sep ps"
  by (cases ps) auto

lemma join_split_on: "join_on [c] (split_on c s) = s"
proof (induction s)
  case (Cons x s)
  obtain p ps where p: "split_on c s = p # ps" by (cases "split_on c s") auto
  show ?case
  proof (cases "ps = []")
    case True
    then show ?thesis using p Cons.IH by auto
  next
    case False
    then show ?thesis using p Cons.IH by (auto simp: join_on_Cons)
  qed
qed simp

lemma split_on_free: "c \<notin> set s \<Longrightarrow> split_on c s = [s]"
  by (induction s) auto

lemma split_on_append: "c \<notin> set p \<Longrightarrow> split_on c (p @ c # s) = p # split_on c s"
  by (induction p) auto

lemma split_join_on:
  "ps \<noteq> [] \<Longrightarrow> \<forall>p\<in>set ps. c \<notin> set p \<Longrightarrow> split_on c (join_on [c] ps) = ps"
proof (induction ps)
  case (Cons p ps)
  then show ?case by (cases "ps = []") (auto simp: split_on_free join_on_Cons split_on_append)
qed simp

lemma split_on_parts: "p \<in> set (split_on c s) \<Longrightarrow> c \<notin> set p \<and> set p \<subseteq> set s"
proof (induction s arbitrary: p)
  case (Cons x s)
  obtain q qs where q: "split_on c s = q # qs" by (cases "split_on c s") auto
  show ?case
  proof (cases "p \<in> set (split_on c s)")
    case True
    then show ?thesis using Cons.IH by auto
  next
    case False
    then show ?thesis using Cons.prems Cons.IH [of q] q by (auto split: if_splits)
  qed
qed simp

lemma set_join_on: "set (join_on sep ps) \<subseteq> \<Union> (set ` set ps) \<union> set sep"
proof (induction ps)
  case (Cons p ps)
  then show ?case by (cases "ps = []") (auto simp: join_on_Cons)
qed simp

lemma join_on_eq_Nil: "\<forall>p\<in>set ps. p \<noteq> [] \<Longrightarrow> join_on sep ps = [] \<longleftrightarrow> ps = []"
  by (cases ps rule: remdups_adj.cases) (auto simp: join_on_Cons)

text \<open>\<open>s.split(c, 1)\<close>: the text before the first \<open>c\<close>, and the text after it when there is one.\<close>

definition split_once :: "char \<Rightarrow> string \<Rightarrow> string \<times> string option" where
  "split_once c s =
     (case dropWhile (\<lambda>x. x \<noteq> c) s of
        [] \<Rightarrow> (s, None)
      | _ # t \<Rightarrow> (takeWhile (\<lambda>x. x \<noteq> c) s, Some t))"

text \<open>Whitespace, \<open>strip()\<close> and \<open>split()\<close>.\<close>

definition is_space :: "char \<Rightarrow> bool" where
  "is_space c \<longleftrightarrow> (9 \<le> code_of c \<and> code_of c \<le> 13) \<or> (28 \<le> code_of c \<and> code_of c \<le> 32)"

definition lstrip :: "string \<Rightarrow> string" where
  "lstrip s = dropWhile is_space s"

definition strip :: "string \<Rightarrow> string" where
  "strip s = rev (lstrip (rev (lstrip s)))"

fun split_ws_go :: "string \<Rightarrow> string \<Rightarrow> string list" where
  "split_ws_go cur [] = (if cur = [] then [] else [rev cur])"
| "split_ws_go cur (c # s) =
     (if is_space c then (if cur = [] then [] else [rev cur]) @ split_ws_go [] s
      else split_ws_go (c # cur) s)"

definition split_ws :: "string \<Rightarrow> string list" where
  "split_ws s = split_ws_go [] s"

text \<open>\<open>s.split(None, 1)\<close>: the first word, and the text from the second word on when there is one.\<close>

definition split_ws_once :: "string \<Rightarrow> string list" where
  "split_ws_once s =
     (let t = lstrip s; w = takeWhile (\<lambda>c. \<not> is_space c) t;
          r = lstrip (dropWhile (\<lambda>c. \<not> is_space c) t)
      in (if w = [] then [] else w # (if r = [] then [] else [r])))"

text \<open>\<open>s.split(sep)\<close> for a longer separator, and \<open>sep in s\<close>.\<close>

fun is_prefix :: "string \<Rightarrow> string \<Rightarrow> bool" where
  "is_prefix [] s = True"
| "is_prefix (c # p) [] = False"
| "is_prefix (c # p) (d # s) = (c = d \<and> is_prefix p s)"

fun split_str_go :: "string \<Rightarrow> nat \<Rightarrow> string \<Rightarrow> string \<Rightarrow> string list" where
  "split_str_go sep k cur [] = [rev cur]"
| "split_str_go sep (Suc k) cur (c # s) = split_str_go sep k cur s"
| "split_str_go sep 0 cur (c # s) =
     (if is_prefix sep (c # s) then rev cur # split_str_go sep (length sep - 1) [] s
      else split_str_go sep 0 (c # cur) s)"

definition split_str :: "string \<Rightarrow> string \<Rightarrow> string list" where
  "split_str sep s = split_str_go sep 0 [] s"

fun contains_str :: "string \<Rightarrow> string \<Rightarrow> bool" where
  "contains_str sep [] = (sep = [])"
| "contains_str sep (c # s) = (is_prefix sep (c # s) \<or> contains_str sep s)"

lemma dropWhile_hd: "s \<noteq> [] \<Longrightarrow> \<not> P (hd s) \<Longrightarrow> dropWhile P s = s"
  by (cases s) auto

lemma strip_id:
  assumes "s \<noteq> []" "\<not> is_space (hd s)" "\<not> is_space (last s)"
  shows "strip s = s"
proof -
  have "lstrip s = s" "lstrip (rev s) = rev s"
    using assms by (auto simp: lstrip_def hd_rev intro!: dropWhile_hd)
  then show ?thesis by (simp add: strip_def)
qed

lemma is_prefix_set: "is_prefix p s \<Longrightarrow> set p \<subseteq> set s"
  by (induction p s rule: is_prefix.induct) auto

lemma contains_str_set: "contains_str p s \<Longrightarrow> set p \<subseteq> set s"
  using is_prefix_set by (induction s) fastforce+

lemma takeWhile_run: "list_all P n \<Longrightarrow> r = [] \<or> \<not> P (hd r) \<Longrightarrow> takeWhile P (n @ r) = n"
  by (induction n) (cases r; auto)+

lemma dropWhile_run: "list_all P n \<Longrightarrow> r = [] \<or> \<not> P (hd r) \<Longrightarrow> dropWhile P (n @ r) = r"
  by (induction n) (cases r; auto)+

end
