(* ===== verification/Semver.thy ===== *)
theory Semver
  imports PyText "HOL-Library.Product_Lexorder" "HOL-Library.List_Lexorder"
begin

text \<open>
  Semantic versions and version requirements of the package manager
  (src/tools/hpkg_parts/hpkg_semver.py): the version grammar, the parser and the renderer, the
  precedence key, the requirement dialect (caret, tilde, comparators, partials, wildcards,
  hyphen ranges), satisfaction with the pre-release rule, and the enforcement helpers.

  A \<open>ValueError\<close> is a value of \<open>ver_error\<close>, one constructor per raise with the text it quotes;
  the \<open>what\<close> label that only prefixes the message is left out. The fields \<open>text\<close> of the two
  classes are \<open>vtext\<close> and \<open>rtext\<close>. \<open>version_re\<close> is the compiled pattern with its five groups; it
  is only ever applied to stripped text, where \<open>$\<close> can match at the end alone. Numbers are
  unbounded: the limit of 4300 digits that Python sets on \<open>int\<close> of a text by default (beyond which it raises a
  \<open>ValueError\<close> of its own), which an environment variable changes, is not modelled.
\<close>

section \<open>Versions\<close>

record semver =
  major :: nat
  minor :: nat
  patch :: nat
  prerelease :: "string list"
  build :: "string list"
  vtext :: string

definition SemVer :: "nat \<Rightarrow> nat \<Rightarrow> nat \<Rightarrow> string list \<Rightarrow> semver" where
  "SemVer a b c pre =
     \<lparr>major = a, minor = b, patch = c, prerelease = pre, build = [], vtext = []\<rparr>"

datatype ver_error =
    NotAString
  | EmptyVersion
  | NotCore string
  | BadPrerelease string
  | BadVersion string
  | BadBumpPart string
  | TooManyDots string
  | NotANumber string string
  | LeadingZero string string
  | PartialBound string string string
  | Alternatives string
  | HyphenBounds string
  | NoVersionAfter string
  | BadPreId string
  | WildcardUnder char
  | CorruptPackage
  | NoPackageVersion
  | TagNotSemver string
  | TagUnsatisfied string
  | NoManifestVersion
  | ManifestUnsatisfied string

text \<open>The identifier grammars \<open>_PRE_ID\<close> and \<open>_BUILD_ID\<close>; \<open>_NUM\<close> is \<open>is_num\<close>.\<close>

definition alpha_char :: "char \<Rightarrow> bool" where
  "alpha_char c \<longleftrightarrow>
     (65 \<le> code_of c \<and> code_of c \<le> 90) \<or> (97 \<le> code_of c \<and> code_of c \<le> 122)"

definition id_char :: "char \<Rightarrow> bool" where
  "id_char c \<longleftrightarrow> dec_char c \<or> alpha_char c \<or> c = CHR ''-''"

definition pre_id_ok :: "string \<Rightarrow> bool" where
  "pre_id_ok p \<longleftrightarrow> is_num p \<or> (list_all id_char p \<and> list_ex (\<lambda>c. \<not> dec_char c) p)"

definition build_id_ok :: "string \<Rightarrow> bool" where
  "build_id_ok p \<longleftrightarrow> p \<noteq> [] \<and> list_all id_char p"

text \<open>Matching \<open>_NUM\<close> at the front of a text, then the core \<open>_NUM.\_NUM.\_NUM\<close>, then the optional
  pre-release and build clauses up to the end.\<close>

definition take_num :: "string \<Rightarrow> (string \<times> string) option" where
  "take_num s =
     (case s of
        [] \<Rightarrow> None
      | c # t \<Rightarrow>
          if c = CHR ''0'' then Some ([c], t)
          else if dec_char c then Some (takeWhile dec_char s, dropWhile dec_char s)
          else None)"

fun eat :: "char \<Rightarrow> (string \<times> string) option \<Rightarrow> (string \<times> string) option" where
  "eat d (Some (n, c # t)) = (if c = d then Some (n, t) else None)"
| "eat d _ = None"

definition core_re :: "string \<Rightarrow> (string \<times> string \<times> string \<times> string) option" where
  "core_re s =
     (case eat (CHR ''.'') (take_num s) of
        None \<Rightarrow> None
      | Some (a, r1) \<Rightarrow>
          (case eat (CHR ''.'') (take_num r1) of
             None \<Rightarrow> None
           | Some (b, r2) \<Rightarrow>
               (case take_num r2 of None \<Rightarrow> None | Some (c, r3) \<Rightarrow> Some (a, b, c, r3))))"

definition build_clause :: "string \<Rightarrow> string list option" where
  "build_clause r =
     (case r of
        [] \<Rightarrow> Some []
      | c # t \<Rightarrow>
          if c = CHR ''+'' \<and> list_all build_id_ok (split_on (CHR ''.'') t)
          then Some (split_on (CHR ''.'') t) else None)"

definition pre_clause :: "string \<Rightarrow> (string list \<times> string) option" where
  "pre_clause r =
     (case r of
        [] \<Rightarrow> Some ([], [])
      | c # t \<Rightarrow>
          if c = CHR ''-''
          then (let p = takeWhile (\<lambda>x. x \<noteq> CHR ''+'') t
                in if list_all pre_id_ok (split_on (CHR ''.'') p)
                   then Some (split_on (CHR ''.'') p, dropWhile (\<lambda>x. x \<noteq> CHR ''+'') t) else None)
          else Some ([], r))"

definition version_re ::
  "string \<Rightarrow> (string \<times> string \<times> string \<times> string list \<times> string list) option" where
  "version_re s =
     (case core_re s of
        None \<Rightarrow> None
      | Some (a, b, c, r) \<Rightarrow>
          (case pre_clause r of
             None \<Rightarrow> None
           | Some (pre, r') \<Rightarrow>
               (case build_clause r' of None \<Rightarrow> None | Some bld \<Rightarrow> Some (a, b, c, pre, bld))))"

definition parse_version :: "string \<Rightarrow> ver_error + semver" where
  "parse_version t =
     (let s = strip t
      in if s = [] then Inl EmptyVersion
         else case version_re s of
             Some (a, b, c, pre, bld) \<Rightarrow>
               Inr \<lparr>major = int_of a, minor = int_of b, patch = int_of c,
                    prerelease = pre, build = bld, vtext = s\<rparr>
           | None \<Rightarrow>
               if core_re s = None then Inl (NotCore t)
               else if CHR ''+'' \<in> set s \<and> CHR ''-'' \<in> set (fst (split_once (CHR ''+'') s))
                       \<and> core_re (fst (split_once (CHR ''-'') s)) \<noteq> None
               then Inl (BadPrerelease t)
               else Inl (BadVersion t))"

definition try_parse_version :: "string \<Rightarrow> semver option" where
  "try_parse_version t = (case parse_version t of Inl _ \<Rightarrow> None | Inr v \<Rightarrow> Some v)"

definition core_text :: "nat \<Rightarrow> nat \<Rightarrow> nat \<Rightarrow> string" where
  "core_text a b c = dec a @ ''.'' @ dec b @ ''.'' @ dec c"

definition version_string :: "semver \<Rightarrow> string" where
  "version_string v =
     core_text (major v) (minor v) (patch v)
     @ (if prerelease v \<noteq> [] then ''-'' @ join_on ''.'' (prerelease v) else [])
     @ (if build v \<noteq> [] then ''+'' @ join_on ''.'' (build v) else [])"

section \<open>Precedence\<close>

text \<open>Python's comparison of tuples and strings is lexicographic: the library's orders on
  products, lists and characters.\<close>

definition pre_key :: "semver \<Rightarrow> (nat \<times> nat \<times> string) list" where
  "pre_key v =
     map (\<lambda>p. if isdigit p then (0, int_of p, '''') else (1, 0, p)) (prerelease v)"

definition precedence_key ::
  "semver \<Rightarrow> nat \<times> nat \<times> nat \<times> nat \<times> (nat \<times> nat \<times> string) list" where
  "precedence_key v =
     (major v, minor v, patch v, if prerelease v \<noteq> [] then 0 else 1, pre_key v)"

definition compare_versions :: "semver \<Rightarrow> semver \<Rightarrow> int" where
  "compare_versions a b =
     (let ka = precedence_key a; kb = precedence_key b
      in if ka < kb then -1 else if ka > kb then 1 else 0)"

definition bump_version :: "semver \<Rightarrow> string \<Rightarrow> ver_error + semver" where
  "bump_version v part =
     (if part = ''major''
      then Inr (SemVer (major v + 1) 0 0 []\<lparr>vtext := version_string v\<rparr>)
      else if part = ''minor''
      then Inr (SemVer (major v) (minor v + 1) 0 []\<lparr>vtext := version_string v\<rparr>)
      else if part = ''patch''
      then Inr (SemVer (major v) (minor v) (patch v + 1) []\<lparr>vtext := version_string v\<rparr>)
      else Inl (BadBumpPart part))"

definition tag_version :: "string \<Rightarrow> semver option" where
  "tag_version tag =
     (case tag of
        [] \<Rightarrow> None
      | c # t \<Rightarrow> try_parse_version (if c = CHR ''v'' \<or> c = CHR ''V'' then t else tag))"

section \<open>Requirements\<close>

datatype cmp_op = CGe | CGt | CLe | CLt | CEq

record comparator =
  cop :: cmp_op
  bound :: semver

abbreviation Comparator :: "cmp_op \<Rightarrow> semver \<Rightarrow> comparator" where
  "Comparator p b \<equiv> \<lparr>cop = p, bound = b\<rparr>"

definition holds :: "comparator \<Rightarrow> semver \<Rightarrow> bool" where
  "holds k v =
     (let c = compare_versions v (bound k)
      in case cop k of CGe \<Rightarrow> c \<ge> 0 | CGt \<Rightarrow> c > 0 | CLe \<Rightarrow> c \<le> 0 | CLt \<Rightarrow> c < 0 | CEq \<Rightarrow> c = 0)"

record requirement =
  comparators :: "comparator list"
  any_nonpre :: bool
  rtext :: string

definition op_text :: "cmp_op \<Rightarrow> string" where
  "op_text p =
     (case p of CGe \<Rightarrow> ''>='' | CGt \<Rightarrow> ''>'' | CLe \<Rightarrow> ''<='' | CLt \<Rightarrow> ''<'' | CEq \<Rightarrow> ''='')"

definition requirement_string :: "requirement \<Rightarrow> string" where
  "requirement_string r =
     (let parts = map (\<lambda>k. op_text (cop k) @ version_string (bound k)) (comparators r)
                  @ (if any_nonpre r then [''>=0.0.0 (any non-prerelease)''] else [])
      in if parts = [] then ''*'' else join_on '' '' parts)"

definition is_wild :: "string \<Rightarrow> bool" where
  "is_wild p \<longleftrightarrow> p = ''*'' \<or> p = ''x'' \<or> p = ''X''"

fun partial_go :: "string \<Rightarrow> string list \<Rightarrow> ver_error + (nat list \<times> bool)" where
  "partial_go s [] = Inr ([], False)"
| "partial_go s (p # ps) =
     (if is_wild p then Inr ([], True)
      else if \<not> isdigit p then Inl (NotANumber s p)
      else if length p > 1 \<and> hd p = CHR ''0'' then Inl (LeadingZero s p)
      else bindE (partial_go s ps) (\<lambda>(ns, w). Inr (int_of p # ns, w)))"

definition parse_partial :: "string \<Rightarrow> ver_error + (nat \<times> nat \<times> nat \<times> nat \<times> bool)" where
  "parse_partial s =
     (let parts = split_on (CHR ''.'') s
      in if length parts > 3 then Inl (TooManyDots s)
         else bindE (partial_go s parts)
           (\<lambda>(ns, w). let ms = ns @ replicate (3 - length ns) 0
                      in Inr (ms ! 0, ms ! 1, ms ! 2, length ns, w)))"

text \<open>The pattern that tells a partial bound from garbage, with the backtracking of its two
  optional groups: candidates longest first, the first one a separator follows.\<close>

definition digit_runs :: "string \<Rightarrow> (string \<times> string) list" where
  "digit_runs s =
     map (\<lambda>k. (take k s, drop k s)) (rev [1..<Suc (length (takeWhile dec_char s))])"

definition dot_runs :: "string \<Rightarrow> (string \<times> string) list" where
  "dot_runs s =
     (case s of
        c # t \<Rightarrow> if c = CHR ''.'' then map (\<lambda>(d, r). (c # d, r)) (digit_runs t) else []
      | [] \<Rightarrow> []) @ [([], s)]"

definition partial_core :: "string \<Rightarrow> string option" where
  "partial_core s =
     map_option fst
       (find (\<lambda>(_, r). r \<noteq> [] \<and> hd r \<in> {CHR ''-'', CHR ''.'', CHR ''+''})
          (concat (map (\<lambda>(a, r1). concat (map (\<lambda>(b, r2). map (\<lambda>(c, r3). (a @ b @ c, r3))
             (dot_runs r2)) (dot_runs r1))) (digit_runs (lstrip s)))))"

definition full_version_after :: "cmp_op \<Rightarrow> string \<Rightarrow> ver_error + semver" where
  "full_version_after p rest =
     (case parse_version rest of
        Inr v \<Rightarrow> Inr v
      | Inl e \<Rightarrow>
          (let core = (case partial_core rest of
                         Some c \<Rightarrow> c
                       | None \<Rightarrow> strip (fst (split_once (CHR ''+'')
                                   (fst (split_once (CHR ''-'') rest)))));
               ps = split_on (CHR ''.'') core
           in if core \<noteq> [] \<and> length ps < 3 \<and> list_all isdigit ps
              then Inl (PartialBound (op_text p) rest core) else Inl e))"

definition caret_range :: "nat \<Rightarrow> nat \<Rightarrow> nat \<Rightarrow> nat \<Rightarrow> string list \<Rightarrow> comparator list" where
  "caret_range maj mino pat given pre =
     (let low = SemVer maj mino pat pre;
          high = (if maj > 0 then SemVer (maj + 1) 0 0 []
                  else if given = 1 then SemVer 1 0 0 []
                  else if mino > 0 \<or> given = 2 then SemVer 0 (mino + 1) 0 []
                  else SemVer 0 0 (pat + 1) [])
      in [Comparator CGe low, Comparator CLt high])"

definition tilde_range :: "nat \<Rightarrow> nat \<Rightarrow> nat \<Rightarrow> nat \<Rightarrow> string list \<Rightarrow> comparator list" where
  "tilde_range maj mino pat given pre =
     [Comparator CGe (SemVer maj mino pat pre),
      Comparator CLt (if given \<ge> 2 then SemVer maj (mino + 1) 0 [] else SemVer (maj + 1) 0 0 [])]"

text \<open>The floating part of a \<open>^\<close> or \<open>~\<close> token: the core before the first hyphen, and the
  pre-release identifiers after it.\<close>

definition floor_parts :: "string \<Rightarrow> string \<Rightarrow> ver_error + (string \<times> string list)" where
  "floor_parts tok body =
     (case split_once (CHR ''-'') body of
        (core, None) \<Rightarrow> Inr (core, [])
      | (core, Some pre_part) \<Rightarrow>
          (let pre = (if pre_part = [] then [] else split_on (CHR ''.'') pre_part)
           in if pre = [] \<or> \<not> list_all pre_id_ok pre then Inl (BadPreId tok)
              else Inr (core, pre)))"

definition floating_token :: "char \<Rightarrow> string \<Rightarrow> string \<Rightarrow> ver_error + comparator list" where
  "floating_token f tok body =
     (if body = [] then Inl (NoVersionAfter tok)
      else bindE (floor_parts tok body) (\<lambda>(core, pre).
           bindE (parse_partial core) (\<lambda>(maj, mino, pat, given, wildcard).
             if wildcard then Inl (WildcardUnder f)
             else if f = CHR ''^'' then Inr (caret_range maj mino pat given pre)
             else Inr (tilde_range maj mino pat given pre))))"

definition bare_token :: "string \<Rightarrow> ver_error + comparator list" where
  "bare_token tok =
     bindE (parse_partial tok) (\<lambda>(maj, mino, pat, given, wildcard).
       if wildcard
       then Inr [Comparator CGe (SemVer maj mino pat []),
                 Comparator CLt (if given = 1 then SemVer (maj + 1) 0 0 []
                                 else SemVer maj (mino + 1) 0 [])]
       else if given = 3 then Inr [Comparator CEq (SemVer maj mino pat [])]
       else if given = 2
       then Inr [Comparator CGe (SemVer maj mino 0 []), Comparator CLt (SemVer maj (mino + 1) 0 [])]
       else Inr [Comparator CGe (SemVer maj 0 0 []), Comparator CLt (SemVer (maj + 1) 0 0 [])])"

definition bounded_token :: "cmp_op \<Rightarrow> string \<Rightarrow> ver_error + comparator list" where
  "bounded_token p rest = bindE (full_version_after p rest) (\<lambda>b. Inr [Comparator p b])"

definition parse_token :: "string \<Rightarrow> ver_error + comparator list" where
  "parse_token tok =
     (case tok of
        [] \<Rightarrow> Inr []
      | c # body \<Rightarrow>
          if is_wild tok then Inr []
          else if c = CHR ''^'' \<or> c = CHR ''~'' then floating_token c tok body
          else if take 2 tok = ''>='' then bounded_token CGe (drop 2 tok)
          else if take 2 tok = ''<='' then bounded_token CLe (drop 2 tok)
          else if c = CHR ''<'' then bounded_token CLt body
          else if c = CHR ''>'' then bounded_token CGt body
          else if c = CHR ''='' then bounded_token CEq body
          else bare_token tok)"

definition split_tokens :: "string \<Rightarrow> string list" where
  "split_tokens s = concat (map (\<lambda>ch. split_ws (strip ch)) (split_on (CHR '','') s))"

definition parse_tokens :: "string list \<Rightarrow> ver_error + comparator list" where
  "parse_tokens toks = bindE (mapE parse_token toks) (\<lambda>css. Inr (concat css))"

definition hyphen_high :: "nat \<Rightarrow> nat \<Rightarrow> nat \<Rightarrow> nat \<Rightarrow> comparator" where
  "hyphen_high maj mino pat given =
     (if given = 3 then Comparator CLe (SemVer maj mino pat [])
      else if given = 2 then Comparator CLt (SemVer maj (mino + 1) 0 [])
      else Comparator CLt (SemVer (maj + 1) 0 0 []))"

definition hyphen_range :: "string \<Rightarrow> string \<Rightarrow> ver_error + requirement" where
  "hyphen_range t s =
     (case split_str '' - '' s of
        [p0, p1] \<Rightarrow>
          (let lo_s = strip p0; hi = strip p1;
               (hi_s, extra) = (case split_ws_once hi of
                                  [h, e] \<Rightarrow> (strip h, strip e)
                                | _ \<Rightarrow> (hi, []))
           in bindE (parse_partial lo_s) (\<lambda>(a, b, c, _, _).
              bindE (parse_partial hi_s) (\<lambda>(maj, mino, pat, given, _).
              bindE (if extra = [] then Inr [] else parse_tokens (split_tokens extra)) (\<lambda>cs.
                Inr \<lparr>comparators = [Comparator CGe (SemVer a b c []),
                                    hyphen_high maj mino pat given] @ cs,
                     any_nonpre = False, rtext = t\<rparr>))))
      | _ \<Rightarrow> Inl (HyphenBounds t))"

definition parse_requirement :: "string \<Rightarrow> ver_error + requirement" where
  "parse_requirement t =
     (let s = strip t
      in if contains_str ''||'' s then Inl (Alternatives t)
         else if s = [] \<or> s = ''*'' then Inr \<lparr>comparators = [], any_nonpre = True, rtext = s\<rparr>
         else if contains_str '' - '' s then hyphen_range t s
         else bindE (parse_tokens (split_tokens s)) (\<lambda>cs.
                Inr \<lparr>comparators = cs, any_nonpre = (cs = []), rtext = t\<rparr>))"

definition same_core :: "semver \<Rightarrow> semver \<Rightarrow> bool" where
  "same_core a b \<longleftrightarrow> (major a, minor a, patch a) = (major b, minor b, patch b)"

definition requirement_holds :: "requirement \<Rightarrow> semver \<Rightarrow> bool" where
  "requirement_holds r v =
     (if \<not> list_all (\<lambda>k. holds k v) (comparators r) then False
      else if prerelease v \<noteq> []
              \<and> \<not> list_ex (\<lambda>k. prerelease (bound k) \<noteq> [] \<and> same_core (bound k) v) (comparators r)
      then False
      else if any_nonpre r \<and> comparators r = [] \<and> prerelease v \<noteq> [] then False
      else True)"

section \<open>Enforcement\<close>

text \<open>A manifest value, as far as these helpers look at it; \<open>MNone\<close> is Python's \<open>None\<close>.\<close>

datatype mval = MNone | MStr string | MTable "(string \<times> mval) list" | MOther

definition parse_version_val :: "mval \<Rightarrow> ver_error + semver" where
  "parse_version_val x = (case x of MStr s \<Rightarrow> parse_version s | _ \<Rightarrow> Inl NotAString)"

definition require_package_version ::
  "(string \<times> mval) list \<Rightarrow> bool \<Rightarrow> ver_error + semver option" where
  "require_package_version manifest required =
     (case (case map_of manifest ''package'' of None \<Rightarrow> MTable [] | Some p \<Rightarrow> p) of
        MTable pkg \<Rightarrow>
          (case map_of pkg ''version'' of
             Some x \<Rightarrow>
               if x = MNone then (if required then Inl NoPackageVersion else Inr None)
               else bindE (parse_version_val x) (\<lambda>v. Inr (Some v))
           | None \<Rightarrow> if required then Inl NoPackageVersion else Inr None)
      | _ \<Rightarrow> Inl CorruptPackage)"

definition parse_requirement_val :: "mval \<Rightarrow> ver_error + requirement" where
  "parse_requirement_val x = (case x of MStr s \<Rightarrow> parse_requirement s | _ \<Rightarrow> Inl NotAString)"

fun require_dependency_requirements ::
  "(string \<times> mval) list \<Rightarrow> ver_error + (string \<times> requirement) list" where
  "require_dependency_requirements [] = Inr []"
| "require_dependency_requirements ((name, MTable source) # deps) =
     (case map_of source ''version'' of
        None \<Rightarrow> require_dependency_requirements deps
      | Some x \<Rightarrow>
          if x = MNone then require_dependency_requirements deps
          else bindE (parse_requirement_val x) (\<lambda>r.
               bindE (require_dependency_requirements deps) (\<lambda>rs. Inr ((name, r) # rs))))"
| "require_dependency_requirements (_ # deps) = require_dependency_requirements deps"

text \<open>\<open>tag\<close> is the source's tag (absent or empty: a moving ref), \<open>mv\<close> the version the resolved
  dependency's own manifest declares, if it has one.\<close>

definition enforce_dep_requirement ::
  "requirement \<Rightarrow> string option \<Rightarrow> semver option \<Rightarrow> ver_error + semver" where
  "enforce_dep_requirement r tag mv =
     (case (if tag = Some [] then None else tag) of
        Some t \<Rightarrow>
          (case tag_version t of
             None \<Rightarrow> Inl (TagNotSemver t)
           | Some v \<Rightarrow> if \<not> requirement_holds r v then Inl (TagUnsatisfied t) else Inr v)
      | None \<Rightarrow>
          (case mv of
             None \<Rightarrow> Inl NoManifestVersion
           | Some v \<Rightarrow>
               if \<not> requirement_holds r v then Inl (ManifestUnsatisfied (version_string v))
               else Inr v))"

text \<open>A record of the transparency log, as far as publishing reads it. A line that is blank, does
  not carry the publish marker or is not JSON is \<open>None\<close>.\<close>

record pub_record =
  rec_kind :: string
  rec_name :: string
  rec_version :: string
  rec_sha :: string
  rec_seq :: "int option"

datatype verdict = Unpublished | Identical "int option" | Refuse "int option"

fun check_publish_immutability ::
  "string \<Rightarrow> semver \<Rightarrow> string \<Rightarrow> pub_record option list \<Rightarrow> verdict" where
  "check_publish_immutability name version sha [] = Unpublished"
| "check_publish_immutability name version sha (None # lns) =
     check_publish_immutability name version sha lns"
| "check_publish_immutability name version sha (Some rc # lns) =
     (if rec_name rc \<noteq> name \<or> rec_kind rc \<noteq> ''publish''
      then check_publish_immutability name version sha lns
      else case parse_version (rec_version rc) of
          Inl _ \<Rightarrow> check_publish_immutability name version sha lns
        | Inr rv \<Rightarrow>
            if (major rv, minor rv, patch rv, prerelease rv)
               \<noteq> (major version, minor version, patch version, prerelease version)
            then check_publish_immutability name version sha lns
            else if rec_sha rc = sha then Identical (rec_seq rc) else Refuse (rec_seq rc))"

text \<open>What publishing appends, and publishing as a whole: the check, then the append when the
  version is new. The sequence number counts the lines of the file.\<close>

definition publish_record ::
  "string \<Rightarrow> semver \<Rightarrow> string \<Rightarrow> pub_record option list \<Rightarrow> pub_record option list" where
  "publish_record name version sha log =
     log @ [Some \<lparr>rec_kind = ''publish'', rec_name = name, rec_version = version_string version,
                  rec_sha = sha, rec_seq = Some (int (length log) + 1)\<rparr>]"

definition publish ::
  "string \<Rightarrow> semver \<Rightarrow> string \<Rightarrow> pub_record option list \<Rightarrow> pub_record option list" where
  "publish name version sha log =
     (case check_publish_immutability name version sha log of
        Unpublished \<Rightarrow> publish_record name version sha log
      | _ \<Rightarrow> log)"

end
