(* ===== verification/SemverProps.thy ===== *)
theory SemverProps
  imports Semver
begin

text \<open>
  What the version and requirement code guarantees: the parser accepts exactly the renderings
  of well-formed versions, the comparison is the precedence of the specification (stated here
  on identifiers with their own order), a bump goes strictly up, caret requirements mean
  compatibility, pre-releases stay out unless the text asks for them, and publishing keeps a
  version's content fixed.
\<close>

section \<open>The grammar\<close>

definition starts_nondigit :: "string \<Rightarrow> bool" where
  "starts_nondigit r \<longleftrightarrow> r = [] \<or> \<not> dec_char (hd r)"

lemma not_dec_seps [simp]:
  "\<not> dec_char (CHR ''.'')" "\<not> dec_char (CHR ''-'')" "\<not> dec_char (CHR ''+'')" "dec_char (CHR ''0'')"
  by (simp_all add: dec_char_def code_of_def)

lemma not_alpha_seps [simp]: "\<not> alpha_char (CHR ''.'')" "\<not> alpha_char (CHR ''+'')"
  by (simp_all add: alpha_char_def code_of_def)

lemma take_num_append: "is_num n \<Longrightarrow> starts_nondigit r \<Longrightarrow> take_num (n @ r) = Some (n, r)"
proof (cases n)
  case (Cons c t)
  assume n: "is_num n" and r: "starts_nondigit r"
  then have all: "list_all dec_char (c # t)" by (simp add: is_num_def isdigit_def Cons)
  show ?thesis
  proof (cases "c = CHR ''0''")
    case True
    then show ?thesis using n by (simp add: take_num_def Cons is_num_def)
  next
    case False
    then show ?thesis
      using all r takeWhile_run [OF all, of r] dropWhile_run [OF all, of r]
      by (simp add: take_num_def Cons starts_nondigit_def)
  qed
qed (simp add: is_num_def isdigit_def)

lemma take_num_Some: "take_num s = Some (n, r) \<Longrightarrow> s = n @ r \<and> is_num n"
  by (cases s)
    (auto simp: take_num_def is_num_def isdigit_def list_all_iff takeWhile_dropWhile_id
      split: if_splits dest: set_takeWhileD)

lemma eat_Some [simp]: "eat d x = Some (n, t) \<longleftrightarrow> x = Some (n, d # t)"
  by (cases "(d, x)" rule: eat.cases) auto

lemma core_re_append:
  assumes "is_num a" "is_num b" "is_num c" "starts_nondigit r"
  shows "core_re (a @ ''.'' @ b @ ''.'' @ c @ r) = Some (a, b, c, r)"
  using assms by (simp add: core_re_def take_num_append starts_nondigit_def)

lemma core_re_Some:
  assumes "core_re s = Some (a, b, c, r)"
  shows "s = a @ ''.'' @ b @ ''.'' @ c @ r \<and> is_num a \<and> is_num b \<and> is_num c"
proof -
  obtain r1 r2 where "eat (CHR ''.'') (take_num s) = Some (a, r1)"
    "eat (CHR ''.'') (take_num r1) = Some (b, r2)" "take_num r2 = Some (c, r)"
    using assms by (auto simp: core_re_def split: option.splits)
  then show ?thesis by (auto dest!: take_num_Some)
qed

text \<open>Identifiers contain neither dots nor plus signs, so joining and splitting are inverse.\<close>

lemma id_char_seps [simp]: "\<not> id_char (CHR ''.'')" "\<not> id_char (CHR ''+'')"
  by (simp_all add: id_char_def)

lemma pre_id_chars: "pre_id_ok p \<Longrightarrow> p \<noteq> [] \<and> list_all id_char p"
  by (auto simp: pre_id_ok_def is_num_def isdigit_def list_all_iff id_char_def)

lemma build_id_chars: "build_id_ok p \<Longrightarrow> p \<noteq> [] \<and> list_all id_char p"
  by (simp add: build_id_ok_def)

lemma ids_free:
  assumes "\<forall>p\<in>set ps. list_all id_char p"
  shows "\<forall>p\<in>set ps. CHR ''.'' \<notin> set p" "CHR ''+'' \<notin> set (join_on ''.'' ps)"
proof -
  have no: "CHR ''.'' \<notin> set p \<and> CHR ''+'' \<notin> set p" if "p \<in> set ps" for p
    using assms that id_char_seps by (metis list_all_iff)
  show "\<forall>p\<in>set ps. CHR ''.'' \<notin> set p" using no by blast
  show "CHR ''+'' \<notin> set (join_on ''.'' ps)"
    using no set_join_on [of "''.''" ps] by (auto dest!: subsetD)
qed

definition pre_text :: "string list \<Rightarrow> string" where
  "pre_text ps = (if ps \<noteq> [] then ''-'' @ join_on ''.'' ps else [])"

definition build_text :: "string list \<Rightarrow> string" where
  "build_text ps = (if ps \<noteq> [] then ''+'' @ join_on ''.'' ps else [])"

lemma build_clause_text:
  assumes "list_all build_id_ok ps"
  shows "build_clause (build_text ps) = Some ps"
proof (cases "ps = []")
  case False
  have "\<forall>p\<in>set ps. list_all id_char p"
    using assms build_id_chars by (auto simp: list_all_iff [of build_id_ok])
  from split_join_on [OF False ids_free(1) [OF this]]
  show ?thesis using assms False by (simp add: build_clause_def build_text_def)
qed (simp add: build_clause_def build_text_def)

lemma build_clause_Some:
  "build_clause r = Some ps \<Longrightarrow> r = build_text ps \<and> list_all build_id_ok ps"
  by (auto simp: build_clause_def build_text_def join_split_on split: list.splits if_splits)

lemma pre_clause_text:
  assumes "list_all pre_id_ok ps" "r = [] \<or> hd r = CHR ''+''"
  shows "pre_clause (pre_text ps @ r) = Some (ps, r)"
proof (cases "ps = []")
  case True
  then show ?thesis using assms(2) by (cases r) (auto simp: pre_clause_def pre_text_def)
next
  case False
  have ids: "\<forall>p\<in>set ps. list_all id_char p"
    using assms(1) pre_id_chars by (auto simp: list_all_iff [of pre_id_ok])
  have j: "list_all (\<lambda>x. x \<noteq> CHR ''+'') (join_on ''.'' ps)"
    using ids_free(2) [OF ids] by (auto simp: list_all_iff)
  have "takeWhile (\<lambda>x. x \<noteq> CHR ''+'') (join_on ''.'' ps @ r) = join_on ''.'' ps"
    "dropWhile (\<lambda>x. x \<noteq> CHR ''+'') (join_on ''.'' ps @ r) = r"
    using takeWhile_run [OF j] dropWhile_run [OF j] assms(2) by auto
  then show ?thesis
    using False assms(1) split_join_on [OF False ids_free(1) [OF ids]]
    by (simp add: pre_clause_def pre_text_def Let_def)
qed

lemma pre_clause_Some:
  assumes "pre_clause r = Some (ps, r')"
  shows "r = pre_text ps @ r' \<and> list_all pre_id_ok ps"
proof (cases r)
  case Nil
  then show ?thesis using assms by (simp add: pre_clause_def pre_text_def)
next
  case (Cons c t)
  then show ?thesis
    using assms by (auto simp: pre_clause_def pre_text_def Let_def join_split_on split: if_splits)
qed

definition wf_semver :: "semver \<Rightarrow> bool" where
  "wf_semver v \<longleftrightarrow> list_all pre_id_ok (prerelease v) \<and> list_all build_id_ok (build v)"

lemma version_string_texts:
  "version_string v =
     core_text (major v) (minor v) (patch v) @ pre_text (prerelease v) @ build_text (build v)"
  by (simp add: version_string_def pre_text_def build_text_def)

lemma version_re_text:
  assumes "list_all pre_id_ok pre" "list_all build_id_ok bld" "is_num a" "is_num b" "is_num c"
  shows "version_re (a @ ''.'' @ b @ ''.'' @ c @ pre_text pre @ build_text bld)
         = Some (a, b, c, pre, bld)"
proof -
  have "starts_nondigit (pre_text pre @ build_text bld)"
    by (simp add: starts_nondigit_def pre_text_def build_text_def)
  moreover have "build_text bld = [] \<or> hd (build_text bld) = CHR ''+''"
    by (simp add: build_text_def)
  ultimately show ?thesis
    using assms core_re_append [of a b c] pre_clause_text [of pre "build_text bld"]
    by (simp add: version_re_def build_clause_text)
qed

lemma version_re_Some:
  assumes "version_re s = Some (a, b, c, pre, bld)"
  shows "s = a @ ''.'' @ b @ ''.'' @ c @ pre_text pre @ build_text bld
    \<and> is_num a \<and> is_num b \<and> is_num c \<and> list_all pre_id_ok pre \<and> list_all build_id_ok bld"
proof -
  obtain r r' where "core_re s = Some (a, b, c, r)" "pre_clause r = Some (pre, r')"
    "build_clause r' = Some bld"
    using assms by (auto simp: version_re_def split: option.splits)
  then show ?thesis
    using core_re_Some pre_clause_Some build_clause_Some by (metis append_assoc)
qed

lemma version_string_not_Nil [simp]: "version_string v \<noteq> []"
  by (simp add: version_string_def core_text_def)

lemma parse_version_iff_texts:
  "parse_version t = Inr v \<longleftrightarrow>
     wf_semver v \<and> strip t = version_string v \<and> vtext v = strip t"
proof
  assume p: "parse_version t = Inr v"
  then obtain a b c pre bld where re: "version_re (strip t) = Some (a, b, c, pre, bld)"
    and v: "v = \<lparr>major = int_of a, minor = int_of b, patch = int_of c, prerelease = pre,
                 build = bld, vtext = strip t\<rparr>"
    by (auto simp: parse_version_def Let_def split: if_splits option.splits)
  from version_re_Some [OF re]
  show "wf_semver v \<and> strip t = version_string v \<and> vtext v = strip t"
    by (simp add: v wf_semver_def version_string_texts core_text_def dec_int_of)
next
  assume r: "wf_semver v \<and> strip t = version_string v \<and> vtext v = strip t"
  then have "version_re (strip t)
    = Some (dec (major v), dec (minor v), dec (patch v), prerelease v, build v)"
    using version_re_text [of "prerelease v" "build v"]
    by (simp add: version_string_texts core_text_def wf_semver_def)
  then show "parse_version t = Inr v" using r by (simp add: parse_version_def Let_def)
qed

text \<open>C23. parse_version accepts exactly the renderings of well-formed versions (surrounding
  whitespace aside) and returns the version rendered: parsing then printing gives the stripped
  text back, printing then parsing gives the version back.\<close>

theorem parse_version_iff:
  "parse_version t = Inr v \<longleftrightarrow>
     wf_semver v \<and> strip t = version_string v \<and> vtext v = strip t"
  by (rule parse_version_iff_texts)

section \<open>Precedence\<close>

text \<open>An identifier of the specification, ordered as its section 11.4 says: numbers by value and
  below text, text by its characters' codes. The library's order on lists then ranks identifier
  lists position by position, a proper prefix first.\<close>

datatype ident = Numeric nat | Alnum string

instantiation ident :: linorder
begin

fun less_ident :: "ident \<Rightarrow> ident \<Rightarrow> bool" where
  "less_ident (Numeric m) (Numeric n) = (m < n)"
| "less_ident (Numeric m) (Alnum t) = True"
| "less_ident (Alnum s) (Numeric n) = False"
| "less_ident (Alnum s) (Alnum t) = (s < t)"

definition less_eq_ident :: "ident \<Rightarrow> ident \<Rightarrow> bool" where
  "less_eq_ident x y \<longleftrightarrow> x < y \<or> x = y"

instance
proof
  fix x y z :: ident
  show "x < y \<longleftrightarrow> x \<le> y \<and> \<not> y \<le> x"
    by (cases x; cases y) (auto simp: less_eq_ident_def)
  show "x \<le> x" by (simp add: less_eq_ident_def)
  show "x \<le> y \<Longrightarrow> y \<le> z \<Longrightarrow> x \<le> z"
    by (cases x; cases y; cases z) (auto simp: less_eq_ident_def)
  show "x \<le> y \<Longrightarrow> y \<le> x \<Longrightarrow> x = y"
    by (cases x; cases y) (auto simp: less_eq_ident_def)
  show "x \<le> y \<or> y \<le> x"
    by (cases x; cases y) (auto simp: less_eq_ident_def)
qed

end

definition ident_of :: "string \<Rightarrow> ident" where
  "ident_of p = (if isdigit p then Numeric (int_of p) else Alnum p)"

text \<open>Section 11 of the specification: the core numbers decide first, then a pre-release is below
  its release, then the identifiers decide.\<close>

definition precedes :: "semver \<Rightarrow> semver \<Rightarrow> bool" where
  "precedes a b \<longleftrightarrow>
     (if major a \<noteq> major b then major a < major b
      else if minor a \<noteq> minor b then minor a < minor b
      else if patch a \<noteq> patch b then patch a < patch b
      else if prerelease b = [] then prerelease a \<noteq> []
      else if prerelease a = [] then False
      else map ident_of (prerelease a) < map ident_of (prerelease b))"

definition key_elem :: "string \<Rightarrow> nat \<times> nat \<times> string" where
  "key_elem p = (if isdigit p then (0, int_of p, []) else (1, 0, p))"

lemma pre_key_map: "pre_key v = map key_elem (prerelease v)"
  by (simp add: pre_key_def key_elem_def)

lemma key_elem_ident:
  "key_elem p < key_elem q \<longleftrightarrow> ident_of p < ident_of q"
  "key_elem p = key_elem q \<longleftrightarrow> ident_of p = ident_of q"
  by (auto simp: ident_of_def key_elem_def)

lemma pre_key_less: "map key_elem ps < map key_elem qs \<longleftrightarrow> map ident_of ps < map ident_of qs"
proof (induction ps arbitrary: qs)
  case Nil
  then show ?case by (cases qs) auto
next
  case (Cons p ps)
  then show ?case by (cases qs) (auto simp: key_elem_ident)
qed

lemma precedence_key_less: "precedence_key a < precedence_key b \<longleftrightarrow> precedes a b"
  by (auto simp: precedence_key_def precedes_def pre_key_map pre_key_less)

lemma ident_of_inject:
  assumes "pre_id_ok p" "pre_id_ok q"
  shows "ident_of p = ident_of q \<longleftrightarrow> p = q"
proof -
  have num: "dec (int_of r) = r" if "pre_id_ok r" "isdigit r" for r
    using that by (intro dec_int_of) (auto simp: pre_id_ok_def isdigit_def list_all_iff list_ex_iff)
  show ?thesis
  proof (cases "isdigit p \<and> isdigit q")
    case True
    then have "int_of p = int_of q \<longleftrightarrow> p = q" using num assms by metis
    then show ?thesis using True by (simp add: ident_of_def)
  next
    case False
    then show ?thesis by (cases "isdigit p"; cases "isdigit q") (auto simp: ident_of_def)
  qed
qed

lemma idents_inject:
  "list_all pre_id_ok ps \<Longrightarrow> list_all pre_id_ok qs \<Longrightarrow>
   map ident_of ps = map ident_of qs \<longleftrightarrow> ps = qs"
proof (induction ps arbitrary: qs)
  case (Cons p ps)
  then show ?case by (cases qs) (auto simp: ident_of_inject)
qed auto

lemma compare_versions_cases:
  "compare_versions a b = (if precedes a b then -1 else if precedes b a then 1 else 0)"
  by (simp add: compare_versions_def Let_def precedence_key_less)

lemma precedes_linear:
  "\<not> precedes a a" "precedes a b \<Longrightarrow> \<not> precedes b a"
  "precedes a b \<Longrightarrow> precedes b c \<Longrightarrow> precedes a c"
  unfolding precedence_key_less [symmetric] by (auto intro: less_trans)

lemma precedes_total:
  assumes "list_all pre_id_ok (prerelease a)" "list_all pre_id_ok (prerelease b)"
    "\<not> precedes a b" "\<not> precedes b a"
  shows "same_core a b \<and> prerelease a = prerelease b"
proof -
  have m: "major a = major b" "minor a = minor b" "patch a = patch b"
    using assms(3,4) by (auto simp: precedes_def split: if_splits)
  have "map ident_of (prerelease a) = map ident_of (prerelease b)"
    using assms(3,4) m by (auto simp: precedes_def split: if_splits)
  then show ?thesis using idents_inject [OF assms(1,2)] m by (simp add: same_core_def)
qed

lemma precedes_same:
  "same_core a b \<Longrightarrow> prerelease a = prerelease b \<Longrightarrow> \<not> precedes a b"
  by (auto simp: precedes_def same_core_def)

text \<open>C24. compare_versions is the precedence of the specification: -1 exactly when section 11
  ranks the first version below the second, 1 the other way round, and 0 between well-formed
  versions exactly when they differ at most in their build metadata.\<close>

theorem compare_versions_spec:
  assumes "wf_semver a" "wf_semver b"
  shows "(compare_versions a b = -1 \<longleftrightarrow> precedes a b)
    \<and> (compare_versions a b = 1 \<longleftrightarrow> precedes b a)
    \<and> (compare_versions a b = 0 \<longleftrightarrow> same_core a b \<and> prerelease a = prerelease b)"
proof (intro conjI)
  show "compare_versions a b = -1 \<longleftrightarrow> precedes a b" "compare_versions a b = 1 \<longleftrightarrow> precedes b a"
    using precedes_linear(2) by (auto simp: compare_versions_cases)
  have "compare_versions a b = 0 \<longleftrightarrow> \<not> precedes a b \<and> \<not> precedes b a"
    by (simp add: compare_versions_cases)
  also have "\<dots> \<longleftrightarrow> same_core a b \<and> prerelease a = prerelease b"
    using assms precedes_total [of a b] precedes_same [of a b] precedes_same [of b a]
    by (metis same_core_def wf_semver_def)
  finally show "compare_versions a b = 0 \<longleftrightarrow> same_core a b \<and> prerelease a = prerelease b" .
qed

lemma compare_versions_spec_witness:
  "compare_versions (SemVer 1 0 0 [''alpha'', ''9'']) (SemVer 1 0 0 [''alpha'', ''10'']) = -1
   \<and> compare_versions (SemVer 1 0 0 []) (SemVer 1 0 0 [''rc'']) = 1"
  using compare_versions_spec [of "SemVer 1 0 0 [''alpha'', ''9'']" "SemVer 1 0 0 [''alpha'', ''10'']"]
    compare_versions_spec [of "SemVer 1 0 0 []" "SemVer 1 0 0 [''rc'']"]
  by (simp add: wf_semver_def SemVer_def pre_id_ok_def is_num_def isdigit_def dec_char_def id_char_def
      alpha_char_def code_of_def precedes_def ident_of_def int_of_def dec_step_def)

section \<open>Bumping\<close>

lemma core_re_version_string:
  "core_re (version_string v)
   = Some (dec (major v), dec (minor v), dec (patch v), pre_text (prerelease v) @ build_text (build v))"
proof -
  have "starts_nondigit (pre_text (prerelease v) @ build_text (build v))"
    by (simp add: starts_nondigit_def pre_text_def build_text_def)
  from core_re_append [OF is_num_dec is_num_dec is_num_dec this, of "major v" "minor v" "patch v"]
  show ?thesis by (simp add: version_string_texts core_text_def)
qed

lemma version_string_core:
  assumes "version_string v = version_string w"
  shows "same_core v w"
proof -
  have "dec (major v) = dec (major w)" "dec (minor v) = dec (minor w)"
    "dec (patch v) = dec (patch w)"
    using core_re_version_string [of v] core_re_version_string [of w] assms by auto
  then show ?thesis by (metis int_of_dec same_core_def)
qed

text \<open>bump_version refuses every part but major, minor and patch; otherwise the bumped
  version is a release without build metadata that ranks strictly above the old one, whose lower
  components are zero. Its text field, however, holds the rendering of the old version, never its
  own.\<close>

theorem bump_version_above:
  "case bump_version v part of
     Inl e \<Rightarrow> part \<notin> {''major'', ''minor'', ''patch''} \<and> e = BadBumpPart part
   | Inr w \<Rightarrow>
       compare_versions v w = -1 \<and> prerelease w = [] \<and> build w = []
       \<and> (major w, minor w, patch w)
           \<in> {(major v + 1, 0, 0), (major v, minor v + 1, 0), (major v, minor v, patch v + 1)}
       \<and> vtext w = version_string v \<and> vtext w \<noteq> version_string w"
proof (cases "bump_version v part")
  case (Inl e)
  then show ?thesis by (auto simp: bump_version_def split: if_splits)
next
  case (Inr w)
  then have w: "prerelease w = []" "build w = []" "vtext w = version_string v"
    "(major w, minor w, patch w)
       \<in> {(major v + 1, 0, 0), (major v, minor v + 1, 0), (major v, minor v, patch v + 1)}"
    by (auto simp: bump_version_def SemVer_def split: if_splits)
  then have "precedes v w" "\<not> same_core v w"
    by (auto simp: precedes_def same_core_def)
  then show ?thesis using Inr w version_string_core [of v w] by (auto simp: compare_versions_cases)
qed

section \<open>What a requirement means\<close>

definition meaning :: "string \<Rightarrow> (semver \<Rightarrow> bool) \<Rightarrow> bool" where
  "meaning t P \<longleftrightarrow> (\<exists>r. parse_requirement t = Inr r \<and> (\<forall>v. requirement_holds r v \<longleftrightarrow> P v))"

text \<open>Text that is one token: no whitespace, comma or bar.\<close>

definition token_char :: "char \<Rightarrow> bool" where
  "token_char c \<longleftrightarrow> \<not> is_space c \<and> c \<noteq> CHR '','' \<and> c \<noteq> CHR ''|''"

lemma token_char_simps [simp]:
  "\<not> token_char (CHR '','')" "\<not> token_char (CHR ''|'')" "\<not> token_char (CHR '' '')"
  "token_char (CHR ''^'')" "token_char (CHR ''~'')"
  by (simp_all add: token_char_def is_space_def code_of_def)

lemma split_ws_go_token:
  "list_all (\<lambda>c. \<not> is_space c) s \<Longrightarrow> cur \<noteq> [] \<or> s \<noteq> [] \<Longrightarrow> split_ws_go cur s = [rev cur @ s]"
  by (induction s arbitrary: cur) auto

lemma strip_token: "list_all (\<lambda>c. \<not> is_space c) s \<Longrightarrow> strip s = s"
  by (cases "s = []") (auto simp: list_all_iff strip_id, simp add: strip_def lstrip_def)

lemma parse_requirement_token:
  assumes "list_all token_char t" "t \<noteq> []" "t \<noteq> ''*''"
  shows "parse_requirement t =
    bindE (parse_token t) (\<lambda>cs. Inr \<lparr>comparators = cs, any_nonpre = (cs = []), rtext = t\<rparr>)"
proof -
  have t: "list_all (\<lambda>c. \<not> is_space c) t" "CHR '','' \<notin> set t" "CHR ''|'' \<notin> set t" "CHR '' '' \<notin> set t"
    using assms(1) token_char_simps(1-3) unfolding list_all_iff by (metis token_char_def)+
  have "\<not> contains_str ''||'' t" "\<not> contains_str '' - '' t"
    using t(3,4) contains_str_set [of "''||''" t] contains_str_set [of "'' - ''" t] by auto
  moreover have "split_tokens t = [t]"
    using t assms(2) by (simp add: split_tokens_def split_on_free strip_token split_ws_def split_ws_go_token)
  ultimately show ?thesis
    using assms t(1) by (cases "parse_token t") (simp_all add: parse_requirement_def strip_token parse_tokens_def)
qed

lemma core_text_chars: "list_all (\<lambda>c. dec_char c \<or> c = CHR ''.'') (core_text a b c)"
  using dec_chars by (auto simp: core_text_def list_all_iff)

lemma dec_char_token: "dec_char c \<or> c = CHR ''.'' \<Longrightarrow> token_char c \<and> c \<noteq> CHR ''-''"
  by (auto simp: dec_char_def token_char_def is_space_def code_of_def)

lemma core_text_token: "list_all token_char (core_text a b c)" "CHR ''-'' \<notin> set (core_text a b c)"
  using core_text_chars [of a b c] dec_char_token by (auto simp: list_all_iff)

lemma dec_no_wild: "\<not> is_wild (dec n)"
  using isdigit_dec [of n] by (auto simp: is_wild_def isdigit_def dec_char_def code_of_def)

lemma dec_free: "CHR ''.'' \<notin> set (dec n)"
  using dec_chars [of n] by (auto simp: list_all_iff)

lemma partial_go_dec: "partial_go s (map dec ns) = Inr (ns, False)"
proof (induction ns)
  case (Cons n ns)
  have "\<not> (length (dec n) > 1 \<and> hd (dec n) = CHR ''0'')"
    using is_num_dec [of n] by (auto simp: is_num_def)
  then show ?case using Cons by (simp add: dec_no_wild)
qed simp

lemma parse_partial_core: "parse_partial (core_text a b c) = Inr (a, b, c, 3, False)"
proof -
  have "split_on (CHR ''.'') (core_text a b c) = map dec [a, b, c]"
    by (simp add: core_text_def dec_free split_on_append split_on_free)
  then show ?thesis using partial_go_dec [of _ "[a, b, c]"] by (simp add: parse_partial_def)
qed

lemma core_text_Cons: "\<exists>d t. core_text a b c = d # t \<and> dec_char d"
proof -
  have "list_all dec_char (dec a)" "dec a \<noteq> []" using dec_chars by auto
  then show ?thesis by (cases "dec a") (auto simp: core_text_def)
qed

lemma split_once_free: "d \<notin> set s \<Longrightarrow> split_once d s = (s, None)"
proof -
  assume "d \<notin> set s"
  then have "dropWhile (\<lambda>x. x \<noteq> d) s = []" by auto
  then show ?thesis unfolding split_once_def by (simp del: dropWhile_eq_Nil_conv)
qed

lemma parse_token_floating:
  assumes "f = CHR ''^'' \<or> f = CHR ''~''"
  shows "parse_token (f # core_text a b c) =
    Inr (if f = CHR ''^'' then caret_range a b c 3 [] else tilde_range a b c 3 [])"
proof -
  have s: "split_once (CHR ''-'') (core_text a b c) = (core_text a b c, None)"
    by (rule split_once_free) (rule core_text_token(2))
  have n: "core_text a b c \<noteq> []" by (simp add: core_text_def)
  have w: "\<not> is_wild (f # core_text a b c)" using assms n by (auto simp: is_wild_def)
  show ?thesis
    using assms w n
    by (auto simp: parse_token_def floating_token_def floor_parts_def s parse_partial_core)
qed

lemma parse_token_core:
  "parse_token (core_text a b c) = Inr [Comparator CEq (SemVer a b c [])]"
proof -
  obtain d t where dt: "core_text a b c = d # t" "dec_char d" using core_text_Cons by blast
  have n: "d \<noteq> CHR ''^''" "d \<noteq> CHR ''~''" "d \<noteq> CHR ''<''" "d \<noteq> CHR ''>''" "d \<noteq> CHR ''=''"
    "\<not> is_wild (d # t)"
    using dt(2) by (auto simp: dec_char_def code_of_def is_wild_def)
  have "bare_token (d # t) = Inr [Comparator CEq (SemVer a b c [])]"
    using parse_partial_core [of a b c] dt(1) by (simp add: bare_token_def)
  then show ?thesis using n dt(1) by (simp add: parse_token_def)
qed

lemma holds_precedes:
  "holds (Comparator CGe b) v \<longleftrightarrow> \<not> precedes v b"
  "holds (Comparator CLt b) v \<longleftrightarrow> precedes v b"
  "holds (Comparator CLe b) v \<longleftrightarrow> \<not> precedes b v"
  "holds (Comparator CGt b) v \<longleftrightarrow> precedes b v"
  using precedes_linear(2) by (auto simp: holds_def compare_versions_cases)

text \<open>The caret's compatibility: the first non-zero component of the bound is pinned.\<close>

definition compatible :: "nat \<Rightarrow> nat \<Rightarrow> nat \<Rightarrow> semver \<Rightarrow> bool" where
  "compatible a b c v \<longleftrightarrow>
     (if a \<noteq> 0 then major v = a
      else if b \<noteq> 0 then major v = 0 \<and> minor v = b
      else major v = 0 \<and> minor v = 0 \<and> patch v = c)"

lemma caret_meaning:
  "requirement_holds \<lparr>comparators = caret_range a b c 3 [], any_nonpre = x, rtext = t\<rparr> v \<longleftrightarrow>
     prerelease v = [] \<and> (a, b, c) \<le> (major v, minor v, patch v) \<and> compatible a b c v"
proof (cases "prerelease v = []")
  case True
  then show ?thesis
    by (cases "a = 0"; cases "b = 0")
      (auto simp: requirement_holds_def caret_range_def holds_precedes Let_def SemVer_def precedes_def
        compatible_def split: if_splits)
qed (simp add: requirement_holds_def caret_range_def Let_def SemVer_def)

lemma tilde_meaning:
  "requirement_holds \<lparr>comparators = tilde_range a b c 3 [], any_nonpre = x, rtext = t\<rparr> v \<longleftrightarrow>
     prerelease v = [] \<and> major v = a \<and> minor v = b \<and> c \<le> patch v"
proof (cases "prerelease v = []")
  case True
  then show ?thesis
    by (auto simp: requirement_holds_def tilde_range_def holds_precedes SemVer_def precedes_def
        split: if_splits)
qed (simp add: requirement_holds_def tilde_range_def SemVer_def)

lemma exact_meaning:
  "requirement_holds \<lparr>comparators = [Comparator CEq (SemVer a b c [])], any_nonpre = x, rtext = t\<rparr> v
   \<longleftrightarrow> prerelease v = [] \<and> major v = a \<and> minor v = b \<and> patch v = c"
proof (cases "prerelease v = []")
  case True
  then show ?thesis
    by (auto simp: requirement_holds_def holds_def compare_versions_cases SemVer_def precedes_def
        split: if_splits)
qed (simp add: requirement_holds_def SemVer_def)

text \<open>C35. What a requirement on a full version means, from its text to the versions it admits: a
  caret admits the releases from the bound on that keep its first non-zero component, a tilde
  those that keep major and minor with a patch from the bound's on, and a bare version exactly
  the release with that core. None of them admits a pre-release.\<close>

theorem range_requirements:
  "meaning (CHR ''^'' # core_text a b c)
     (\<lambda>v. prerelease v = [] \<and> (a, b, c) \<le> (major v, minor v, patch v) \<and> compatible a b c v)
   \<and> meaning (CHR ''~'' # core_text a b c)
     (\<lambda>v. prerelease v = [] \<and> major v = a \<and> minor v = b \<and> c \<le> patch v)
   \<and> meaning (core_text a b c)
     (\<lambda>v. prerelease v = [] \<and> major v = a \<and> minor v = b \<and> patch v = c)"
proof -
  have w: "core_text a b c \<noteq> []" "core_text a b c \<noteq> ''*''"
    using core_text_Cons [of a b c] by (auto simp: dec_char_def code_of_def)
  have floating: "parse_requirement (f # core_text a b c) =
      Inr \<lparr>comparators = (if f = CHR ''^'' then caret_range a b c 3 [] else tilde_range a b c 3 []),
           any_nonpre = False, rtext = f # core_text a b c\<rparr>"
    if f: "f = CHR ''^'' \<or> f = CHR ''~''" for f
    using parse_requirement_token [of "f # core_text a b c"] f w(1) core_text_token(1) [of a b c]
    by (auto simp: parse_token_floating caret_range_def tilde_range_def)
  have exact: "parse_requirement (core_text a b c) =
      Inr \<lparr>comparators = [Comparator CEq (SemVer a b c [])], any_nonpre = False,
           rtext = core_text a b c\<rparr>"
    using parse_requirement_token [OF core_text_token(1) w] by (simp add: parse_token_core)
  show ?thesis
    unfolding meaning_def
    by (simp add: floating exact caret_meaning tilde_meaning exact_meaning)
qed

section \<open>Pre-releases\<close>

lemma set_split_ws_go: "w \<in> set (split_ws_go cur s) \<Longrightarrow> set w \<subseteq> set cur \<union> set s"
  by (induction cur s arbitrary: w rule: split_ws_go.induct) (auto split: if_splits; blast)+

lemma set_strip: "set (strip s) \<subseteq> set s"
  unfolding strip_def lstrip_def by (metis order_trans set_dropWhileD set_rev subsetI)

lemma set_split_tokens: "w \<in> set (split_tokens s) \<Longrightarrow> set w \<subseteq> set s"
proof -
  assume "w \<in> set (split_tokens s)"
  then obtain ch where ch: "ch \<in> set (split_on (CHR '','') s)" and "w \<in> set (split_ws (strip ch))"
    by (auto simp: split_tokens_def)
  then have "set w \<subseteq> set (strip ch)" using set_split_ws_go [of w "[]"] by (auto simp: split_ws_def)
  also have "\<dots> \<subseteq> set s" using set_strip [of ch] split_on_parts [OF ch] by blast
  finally show ?thesis .
qed

definition plain_bounds :: "comparator list \<Rightarrow> bool" where
  "plain_bounds cs \<longleftrightarrow> (\<forall>k\<in>set cs. prerelease (bound k) = [])"

lemma plain_bounds_simps [simp]:
  "plain_bounds []" "plain_bounds (k # cs) \<longleftrightarrow> prerelease (bound k) = [] \<and> plain_bounds cs"
  "plain_bounds (cs @ ds) \<longleftrightarrow> plain_bounds cs \<and> plain_bounds ds"
  by (auto simp: plain_bounds_def)

lemma prerelease_SemVer [simp]: "prerelease (SemVer a b c p) = p"
  by (simp add: SemVer_def)

lemma parse_version_plain:
  assumes "parse_version t = Inr v" "CHR ''-'' \<notin> set t"
  shows "prerelease v = []"
proof (rule ccontr)
  assume "prerelease v \<noteq> []"
  moreover obtain a b c pre bld where "version_re (strip t) = Some (a, b, c, pre, bld)"
    "prerelease v = pre"
    using assms(1) by (auto simp: parse_version_def Let_def split: if_splits option.splits)
  ultimately have "CHR ''-'' \<in> set (strip t)"
    using version_re_Some [of "strip t" a b c pre bld] by (auto simp: pre_text_def)
  then show False using assms(2) set_strip [of t] by blast
qed

lemma bounded_token_plain:
  "bounded_token p t = Inr cs \<Longrightarrow> CHR ''-'' \<notin> set t \<Longrightarrow> plain_bounds cs"
  using parse_version_plain [of t]
  by (auto simp: bounded_token_def bindE_eq_Inr full_version_after_def Let_def
      split: sum.splits if_splits)

lemma floating_token_plain:
  assumes "floating_token f tok body = Inr cs" "CHR ''-'' \<notin> set body"
  shows "plain_bounds cs"
proof -
  have "floor_parts tok body = Inr (body, [])"
    by (simp add: floor_parts_def split_once_free [OF assms(2)])
  then show ?thesis
    using assms(1)
    by (auto simp: floating_token_def bindE_eq_Inr caret_range_def tilde_range_def Let_def
        split: if_splits)
qed

lemma parse_token_plain:
  assumes "parse_token tok = Inr cs" "CHR ''-'' \<notin> set tok"
  shows "plain_bounds cs"
proof -
  have "CHR ''-'' \<notin> set (drop 2 tok)" using assms(2) by (auto dest: in_set_dropD)
  then show ?thesis
    using assms floating_token_plain bounded_token_plain
    by (auto simp: parse_token_def bare_token_def bindE_eq_Inr split: list.splits if_splits; blast)
qed

lemma parse_tokens_plain:
  assumes "parse_tokens toks = Inr cs" "\<forall>t\<in>set toks. CHR ''-'' \<notin> set t"
  shows "plain_bounds cs"
proof -
  obtain css where "mapE parse_token toks = Inr css" and cs: "cs = concat css"
    using assms(1) by (auto simp: parse_tokens_def bindE_eq_Inr)
  then have "list_all2 (\<lambda>t c. parse_token t = Inr c) toks css" by (simp add: mapE_Inr_iff)
  then have "\<forall>c\<in>set css. plain_bounds c"
    using assms(2) by (induction rule: list_all2_induct) (auto intro: parse_token_plain)
  then show ?thesis by (auto simp: cs plain_bounds_def)
qed

text \<open>C36. A pre-release is never admitted unasked: a requirement whose text contains no hyphen
  admits releases only, whatever comparators, ranges and wildcards it combines.\<close>

theorem no_unasked_prerelease:
  assumes "parse_requirement t = Inr r" "CHR ''-'' \<notin> set t" "requirement_holds r v"
  shows "prerelease v = []"
proof -
  have s: "CHR ''-'' \<notin> set (strip t)" using assms(2) set_strip by blast
  then have h: "\<not> contains_str '' - '' (strip t)" using contains_str_set by fastforce
  have "plain_bounds (comparators r)"
  proof (cases "strip t = [] \<or> strip t = ''*''")
    case True
    then show ?thesis using assms(1) by (auto simp: parse_requirement_def Let_def split: if_splits)
  next
    case False
    then obtain cs where cs: "parse_tokens (split_tokens (strip t)) = Inr cs" "comparators r = cs"
      using assms(1) h by (auto simp: parse_requirement_def Let_def bindE_eq_Inr split: if_splits)
    have "\<forall>w\<in>set (split_tokens (strip t)). CHR ''-'' \<notin> set w" using s set_split_tokens by blast
    from parse_tokens_plain [OF cs(1) this] show ?thesis using cs(2) by simp
  qed
  then show ?thesis
    using assms(3) by (auto simp: requirement_holds_def plain_bounds_def list_ex_iff split: if_splits)
qed

lemma no_unasked_prerelease_witness:
  "prerelease (SemVer 1 4 2 []) = []"
  by (rule no_unasked_prerelease [of "''^1.2.3''" "\<lparr>comparators = caret_range 1 2 3 3 [],
        any_nonpre = False, rtext = ''^1.2.3''\<rparr>"]) code_simp+

section \<open>Wildcards in ranges\<close>

text \<open>A wildcard as the upper bound of a hyphen range excludes every version, and a wildcard
  for the major version followed by more text pins major and minor to zero, although the wildcard
  alone admits every release.\<close>

lemma wildcard_ranges:
  "meaning ''*'' (\<lambda>v. prerelease v = [])
   \<and> meaning ''1.2.3 - *'' (\<lambda>v. False)
   \<and> meaning ''*.1'' (\<lambda>v. prerelease v = [] \<and> major v = 0 \<and> minor v = 0)"
proof (intro conjI)
  have "parse_requirement ''*'' = Inr \<lparr>comparators = [], any_nonpre = True, rtext = ''*''\<rparr>"
    by code_simp
  then show "meaning ''*'' (\<lambda>v. prerelease v = [])"
    by (simp add: meaning_def requirement_holds_def)
  have "parse_requirement ''1.2.3 - *'' = Inr \<lparr>comparators = [Comparator CGe (SemVer 1 2 3 []),
      Comparator CLt (SemVer 1 0 0 [])], any_nonpre = False, rtext = ''1.2.3 - *''\<rparr>"
    by code_simp
  moreover have "\<not> precedes v (SemVer 1 0 0 [])" if "\<not> precedes v (SemVer 1 2 3 [])" for v
    using that by (auto simp: precedes_def SemVer_def split: if_splits)
  ultimately show "meaning ''1.2.3 - *'' (\<lambda>v. False)"
    by (auto simp: meaning_def requirement_holds_def holds_precedes)
  have "parse_requirement ''*.1'' = Inr \<lparr>comparators = [Comparator CGe (SemVer 0 0 0 []),
      Comparator CLt (SemVer 0 1 0 [])], any_nonpre = False, rtext = ''*.1''\<rparr>"
    by code_simp
  moreover have "\<not> precedes v (SemVer 0 0 0 []) \<and> precedes v (SemVer 0 1 0 []) \<and> prerelease v = []
      \<longleftrightarrow> prerelease v = [] \<and> major v = 0 \<and> minor v = 0" for v
    by (auto simp: precedes_def SemVer_def split: if_splits)
  moreover have "requirement_holds \<lparr>comparators = [Comparator CGe (SemVer 0 0 0 []),
      Comparator CLt (SemVer 0 1 0 [])], any_nonpre = False, rtext = ''*.1''\<rparr> v
      \<longleftrightarrow> \<not> precedes v (SemVer 0 0 0 []) \<and> precedes v (SemVer 0 1 0 []) \<and> prerelease v = []" for v
    by (simp add: requirement_holds_def holds_precedes)
  ultimately show "meaning ''*.1'' (\<lambda>v. prerelease v = [] \<and> major v = 0 \<and> minor v = 0)"
    by (simp add: meaning_def)
qed

section \<open>Publishing\<close>

text \<open>The identity a readable publish record claims: its name and its version without build
  metadata. The ledger is immutable when records of one identity agree on the content.\<close>

definition claims :: "string \<Rightarrow> semver \<Rightarrow> pub_record option \<Rightarrow> bool" where
  "claims name v ln \<longleftrightarrow>
     (\<exists>rc rv. ln = Some rc \<and> rec_kind rc = ''publish'' \<and> rec_name rc = name
        \<and> parse_version (rec_version rc) = Inr rv \<and> same_core rv v \<and> prerelease rv = prerelease v)"

definition immutable :: "pub_record option list \<Rightarrow> bool" where
  "immutable log \<longleftrightarrow>
     (\<forall>name v x y. Some x \<in> set log \<and> Some y \<in> set log \<and> claims name v (Some x)
        \<and> claims name v (Some y) \<longrightarrow> rec_sha x = rec_sha y)"

lemma check_publish_spec:
  "case check_publish_immutability name v sha log of
     Unpublished \<Rightarrow> \<forall>ln\<in>set log. \<not> claims name v ln
   | Identical q \<Rightarrow> \<exists>rc. Some rc \<in> set log \<and> claims name v (Some rc) \<and> rec_sha rc = sha \<and> rec_seq rc = q
   | Refuse q \<Rightarrow> \<exists>rc. Some rc \<in> set log \<and> claims name v (Some rc) \<and> rec_sha rc \<noteq> sha \<and> rec_seq rc = q"
proof (induction name v sha log rule: check_publish_immutability.induct)
  case (2 name v sha lns)
  then show ?case by (auto simp: claims_def split: verdict.splits)
next
  case (3 name v sha rc lns)
  show ?case
  proof (cases "claims name v (Some rc)")
    case True
    then have "check_publish_immutability name v sha (Some rc # lns)
      = (if rec_sha rc = sha then Identical (rec_seq rc) else Refuse (rec_seq rc))"
      by (auto simp: claims_def same_core_def)
    then show ?thesis using True by auto
  next
    case False
    then have "check_publish_immutability name v sha (Some rc # lns)
      = check_publish_immutability name v sha lns"
      by (auto simp: claims_def same_core_def split: sum.splits)
    moreover have "case check_publish_immutability name v sha lns of
        Unpublished \<Rightarrow> \<forall>ln\<in>set lns. \<not> claims name v ln
      | Identical q \<Rightarrow> \<exists>rc. Some rc \<in> set lns \<and> claims name v (Some rc) \<and> rec_sha rc = sha \<and> rec_seq rc = q
      | Refuse q \<Rightarrow> \<exists>rc. Some rc \<in> set lns \<and> claims name v (Some rc) \<and> rec_sha rc \<noteq> sha \<and> rec_seq rc = q"
      using 3 False by (cases "rec_name rc \<noteq> name \<or> rec_kind rc \<noteq> ''publish''"; cases "parse_version (rec_version rc)")
        (auto simp: claims_def same_core_def)
    ultimately show ?thesis using False by (auto split: verdict.splits)
  qed
qed simp

lemma strip_version_string:
  assumes "wf_semver v"
  shows "strip (version_string v) = version_string v"
proof (rule strip_token)
  have no: "\<not> is_space c" if "id_char c \<or> c = CHR ''.'' \<or> c = CHR ''+''" for c
    using that by (auto simp: id_char_def dec_char_def alpha_char_def is_space_def code_of_def)
  have joined: "set (join_on ''.'' ps) \<subseteq> {c. id_char c \<or> c = CHR ''.''}"
    if "\<forall>p\<in>set ps. list_all id_char p" for ps
    using set_join_on [of "''.''" ps] that by (auto simp: list_all_iff)
  have "set (core_text a b c) \<subseteq> {c. id_char c \<or> c = CHR ''.''}" for a b c
    using core_text_chars [of a b c] by (auto simp: list_all_iff id_char_def)
  moreover have "set (join_on ''.'' (prerelease v)) \<subseteq> {c. id_char c \<or> c = CHR ''.''}"
    using assms pre_id_chars by (intro joined) (auto simp: wf_semver_def list_all_iff)
  moreover have "set (join_on ''.'' (build v)) \<subseteq> {c. id_char c \<or> c = CHR ''.''}"
    using assms build_id_chars by (intro joined) (auto simp: wf_semver_def list_all_iff)
  ultimately have "set (version_string v) \<subseteq> {c. id_char c \<or> c = CHR ''.'' \<or> c = CHR ''+''}"
    by (auto simp: version_string_def id_char_def dest: subsetD)
  then show "list_all (\<lambda>c. \<not> is_space c) (version_string v)"
    using no by (auto simp: list_all_iff)
qed

lemma version_string_vtext: "version_string (v\<lparr>vtext := x\<rparr>) = version_string v"
  by (simp add: version_string_def)

lemma parse_version_string:
  "wf_semver v \<Longrightarrow> parse_version (version_string v) = Inr (v\<lparr>vtext := version_string v\<rparr>)"
  using parse_version_iff_texts [of "version_string v" "v\<lparr>vtext := version_string v\<rparr>"]
  by (simp add: strip_version_string wf_semver_def version_string_vtext)

lemma claims_published:
  assumes "wf_semver v" "rec_kind rc = ''publish''" "rec_name rc = name" "rec_version rc = version_string v"
  shows "claims n w (Some rc) \<longleftrightarrow> n = name \<and> same_core v w \<and> prerelease v = prerelease w"
  using assms by (auto simp: claims_def parse_version_string same_core_def)

lemma claims_fun:
  "claims n v ln \<Longrightarrow> claims n w ln \<Longrightarrow> same_core v w \<and> prerelease v = prerelease w"
  by (auto simp: claims_def same_core_def)

lemma claims_same:
  "same_core v w \<Longrightarrow> prerelease v = prerelease w \<Longrightarrow> claims n v ln \<longleftrightarrow> claims n w ln"
  by (auto simp: claims_def same_core_def)

lemma check_unpublished:
  "check_publish_immutability name v sha log = Unpublished \<longleftrightarrow> (\<forall>ln\<in>set log. \<not> claims name v ln)"
  using check_publish_spec [of log name v sha] by (auto split: verdict.splits)

lemma publish_cases:
  "(\<forall>ln\<in>set log. \<not> claims name v ln) \<and> publish name v sha log = publish_record name v sha log
   \<or> (\<exists>ln\<in>set log. claims name v ln) \<and> publish name v sha log = log"
  using check_unpublished [of name v sha log] by (auto simp: publish_def split: verdict.splits)

lemma immutable_record:
  assumes "immutable log" "wf_semver v" "\<forall>ln\<in>set log. \<not> claims name v ln"
  shows "immutable (publish_record name v sha log)"
  unfolding immutable_def
proof (intro allI impI, elim conjE)
  fix n w x y
  assume xy: "Some x \<in> set (publish_record name v sha log)"
    "Some y \<in> set (publish_record name v sha log)" "claims n w (Some x)" "claims n w (Some y)"
  define q where "q = \<lparr>rec_kind = ''publish'', rec_name = name, rec_version = version_string v,
    rec_sha = sha, rec_seq = Some (int (length log) + 1)\<rparr>"
  have q: "claims n w (Some q) \<longleftrightarrow> n = name \<and> same_core v w \<and> prerelease v = prerelease w"
    using claims_published [OF assms(2)] by (simp add: q_def)
  have other: "\<not> claims n w (Some z)" if "Some z \<in> set log" "claims n w (Some q)" for z
    using that q assms(3) claims_same [of v w name "Some z"] by auto
  have "x = q \<and> y = q \<or> Some x \<in> set log \<and> Some y \<in> set log"
    using xy other by (auto simp: publish_record_def q_def [symmetric])
  then show "rec_sha x = rec_sha y"
    using assms(1) xy(3,4) unfolding immutable_def by blast
qed

text \<open>C25. Publishing keeps the ledger immutable. It only appends; afterwards the identity is
  claimed; and publishing the same identity again, with whatever content or build metadata, changes
  nothing: identical content is a no-op and different content is refused.\<close>

theorem publish_immutable:
  assumes "immutable log" "wf_semver v" "same_core v w" "prerelease v = prerelease w"
  shows "immutable (publish name v sha log)
    \<and> (\<exists>new. publish name v sha log = log @ new)
    \<and> (\<exists>ln\<in>set (publish name v sha log). claims name v ln)
    \<and> publish name w sha' (publish name v sha log) = publish name v sha log
    \<and> check_publish_immutability name w sha' (publish name v sha log) \<noteq> Unpublished"
proof -
  have claimed: "\<exists>ln\<in>set (publish name v sha log). claims name v ln"
    using publish_cases [of log name v sha] claims_published [OF assms(2)]
    by (auto simp: publish_record_def same_core_def)
  then have again: "\<exists>ln\<in>set (publish name v sha log). claims name w ln"
    using claims_same [OF assms(3,4)] by blast
  have "publish name w sha' (publish name v sha log) = publish name v sha log"
    using publish_cases [of "publish name v sha log" name w sha'] again by blast
  moreover have "check_publish_immutability name w sha' (publish name v sha log) \<noteq> Unpublished"
    using check_unpublished again by blast
  moreover have "\<exists>new. publish name v sha log = log @ new"
    using publish_cases [of log name v sha] by (auto simp: publish_record_def)
  moreover have "immutable (publish name v sha log)"
    using publish_cases [of log name v sha] immutable_record [OF assms(1,2)] assms(1) by auto
  ultimately show ?thesis using claimed by blast
qed

lemma publish_immutable_witness:
  "immutable (publish ''p'' (SemVer 1 2 3 []) ''aa'' [])"
proof -
  have "immutable []" "wf_semver (SemVer 1 2 3 [])"
    by (simp_all add: immutable_def wf_semver_def SemVer_def)
  from publish_immutable [OF this, of "SemVer 1 2 3 []" "''p''" "''aa''"]
  show ?thesis by (simp add: same_core_def)
qed

text \<open>The publish command as processes: the check reads the ledger, the append happens later under
  a lock that covers the append alone. A state holds the ledger, the requests not yet checked and
  those the check let through.\<close>

record pub_request =
  req_name :: string
  req_version :: semver
  req_sha :: string

type_synonym pub_state = "pub_record option list \<times> pub_request list \<times> pub_request list"

inductive pub_step :: "pub_state \<Rightarrow> pub_state \<Rightarrow> bool" where
  check: "check_publish_immutability (req_name q) (req_version q) (req_sha q) log = Unpublished \<Longrightarrow>
    pub_step (log, ws @ q # ws', ok) (log, ws @ ws', q # ok)"
| stop: "check_publish_immutability (req_name q) (req_version q) (req_sha q) log \<noteq> Unpublished \<Longrightarrow>
    pub_step (log, ws @ q # ws', ok) (log, ws @ ws', ok)"
| append: "pub_step (log, ws, ok @ q # ok')
    (publish_record (req_name q) (req_version q) (req_sha q) log, ws, ok @ ok')"

text \<open>Because the check is made before the lock is taken, two publishes of one version with
  different content can both pass it and both append: from an empty ledger the interleaved command
  reaches a ledger that is not immutable.\<close>

theorem publish_race:
  "\<exists>log. pub_step\<^sup>*\<^sup>*
      ([], [\<lparr>req_name = ''p'', req_version = SemVer 1 0 0 [], req_sha = ''aa''\<rparr>,
            \<lparr>req_name = ''p'', req_version = SemVer 1 0 0 [], req_sha = ''bb''\<rparr>], [])
      (log, [], [])
    \<and> \<not> immutable log"
proof -
  let ?v = "SemVer 1 0 0 []"
  let ?a = "\<lparr>req_name = ''p'', req_version = ?v, req_sha = ''aa''\<rparr>"
  let ?b = "\<lparr>req_name = ''p'', req_version = ?v, req_sha = ''bb''\<rparr>"
  let ?l1 = "publish_record ''p'' ?v ''aa'' []"
  let ?l2 = "publish_record ''p'' ?v ''bb'' ?l1"
  have "pub_step ([], [?a, ?b], []) ([], [?b], [?a])"
    using pub_step.check [of ?a "[]" "[]" "[?b]" "[]"] by simp
  moreover have "pub_step ([], [?b], [?a]) ([], [], [?b, ?a])"
    using pub_step.check [of ?b "[]" "[]" "[]" "[?a]"] by simp
  moreover have "pub_step ([], [], [?b, ?a]) (?l1, [], [?b])"
    using pub_step.append [of "[]" "[]" "[?b]" ?a "[]"] by simp
  moreover have "pub_step (?l1, [], [?b]) (?l2, [], [])"
    using pub_step.append [of ?l1 "[]" "[]" ?b "[]"] by simp
  ultimately have r: "pub_step\<^sup>*\<^sup>* ([], [?a, ?b], []) (?l2, [], [])"
    by (meson converse_rtranclp_into_rtranclp rtranclp.rtrancl_refl)
  have wf: "wf_semver ?v" by (simp add: wf_semver_def SemVer_def)
  have "\<not> immutable ?l2"
  proof
    assume im: "immutable ?l2"
    let ?x = "\<lambda>s n. \<lparr>rec_kind = ''publish'', rec_name = ''p'', rec_version = version_string ?v,
                     rec_sha = s, rec_seq = Some n\<rparr>"
    have m: "Some (?x ''aa'' 1) \<in> set ?l2" "Some (?x ''bb'' 2) \<in> set ?l2"
      by (simp_all add: publish_record_def)
    have c: "claims ''p'' ?v (Some (?x s n))" for s n
      using claims_published [OF wf, of "?x s n"] by (simp add: same_core_def)
    have "rec_sha (?x ''aa'' 1) = rec_sha (?x ''bb'' 2)"
      using im m c unfolding immutable_def by blast
    then show False by simp
  qed
  then show ?thesis using r by blast
qed

end
