(* ===== verification/Tlog.thy ===== *)
theory Tlog
  imports Prelude "HOL-Library.Char_ord" "HOL-Library.Product_Lexorder" "HOL-Library.List_Lexorder"
begin

text \<open>
  The transparency log: the chained append of the package tools
  (src/tools/hpkg_parts/hpkg_log.py), the replay of a log, the comparison of views of several
  sources, inclusion proofs (src/tools/hltlog_parts/hltlog_chain.py, hltlog_common.py) and
  witnesses (hltlog_witness.py).

  A record is the JSON object after the shape check: its mandatory fields, its optional kind and,
  in \<open>tl_rest\<close>, the canonical text of every other field. \<open>H prev b\<close> is the parameter that stands
  for the SHA-256 digest of \<open>prev\<close> followed by the canonical JSON of the body \<open>b\<close>; nothing is
  assumed of it. Error messages are the constructors of \<open>break\<close>.
\<close>

section \<open>Records and the chain hash\<close>

record tl_body =
  tl_seq :: int
  tl_time :: int
  tl_prev :: string
  tl_kind :: "string option"
  tl_rest :: string

record tl_rec =
  tl_body :: tl_body
  tl_chain :: string

type_synonym digest = "string \<Rightarrow> tl_body \<Rightarrow> string"

abbreviation seq_of :: "tl_rec \<Rightarrow> int" where "seq_of r \<equiv> tl_seq (tl_body r)"
abbreviation prev_of :: "tl_rec \<Rightarrow> string" where "prev_of r \<equiv> tl_prev (tl_body r)"

definition GENESIS :: string where "GENESIS = replicate 64 (CHR ''0'')"

definition chain_of :: "digest \<Rightarrow> string \<Rightarrow> tl_rec \<Rightarrow> string" where
  "chain_of H p r = H p (tl_body r)"

definition is_hex64 :: "string \<Rightarrow> bool" where
  "is_hex64 s \<longleftrightarrow> length s = 64 \<and> list_all (\<lambda>c. c \<in> set ''0123456789abcdef'') s"

datatype shape = EmptyKind | BadSeq | BadTimestamp | BadPrevHash | BadChainHash

definition shape_error :: "tl_rec \<Rightarrow> shape + unit" where
  "shape_error r =
     (if tl_kind (tl_body r) = Some [] then Inl EmptyKind
      else if seq_of r < 1 then Inl BadSeq
      else if tl_time (tl_body r) < 0 then Inl BadTimestamp
      else if \<not> is_hex64 (prev_of r) then Inl BadPrevHash
      else if \<not> is_hex64 (tl_chain r) then Inl BadChainHash
      else Inr ())"

text \<open>\<open>records[-1]["chain_hash"] if records else GENESIS\<close>.\<close>

definition head_of :: "tl_rec list \<Rightarrow> string" where
  "head_of rs = (if rs = [] then GENESIS else tl_chain (last rs))"

section \<open>Appending\<close>

definition build_chained_record ::
  "digest \<Rightarrow> int \<Rightarrow> int \<Rightarrow> string option \<Rightarrow> string \<Rightarrow> string \<Rightarrow> tl_rec" where
  "build_chained_record H sq now kind rest p =
     (let b = \<lparr>tl_seq = sq, tl_time = now, tl_prev = p, tl_kind = kind, tl_rest = rest\<rparr>
      in \<lparr>tl_body = b, tl_chain = H p b\<rparr>)"

definition transparency_log_append ::
  "digest \<Rightarrow> int \<Rightarrow> string option \<Rightarrow> string \<Rightarrow> tl_rec list \<Rightarrow> tl_rec list" where
  "transparency_log_append H now kind rest log =
     log @ [build_chained_record H (int (length log) + 1) now kind rest (head_of log)]"

section \<open>Replaying\<close>

datatype break = SeqOutOfOrder nat int int | PrevBroken nat | HashBroken nat

definition replay_breaks :: "digest \<Rightarrow> nat \<Rightarrow> int \<Rightarrow> string \<Rightarrow> tl_rec \<Rightarrow> break list" where
  "replay_breaks H i expect p r =
     (if seq_of r \<noteq> expect then [SeqOutOfOrder i (seq_of r) expect] else [])
     @ (if prev_of r \<noteq> p then [PrevBroken i] else [])
     @ (if tl_chain r \<noteq> chain_of H (prev_of r) r then [HashBroken i] else [])"

text \<open>\<open>verify_chain\<close>: the expected number is the record's own number plus one after every
  record, whether it matched or was re-synchronised.\<close>

fun verify_from :: "digest \<Rightarrow> nat \<Rightarrow> int \<Rightarrow> string \<Rightarrow> tl_rec list \<Rightarrow> string \<times> break list" where
  "verify_from H i expect p [] = (p, [])"
| "verify_from H i expect p (r # rs) =
     (case verify_from H (i + 1)
             ((if seq_of r \<noteq> expect then seq_of r else expect) + 1) (tl_chain r) rs of
        (h, es) \<Rightarrow> (h, replay_breaks H (i + 1) expect p r @ es))"

definition verify_chain :: "digest \<Rightarrow> tl_rec list \<Rightarrow> string \<times> break list" where
  "verify_chain H rs = verify_from H 0 1 GENESIS rs"

text \<open>\<open>transparency_log_verify_chain\<close>, the package tools' own replay: it hashes onto the running
  digest and never re-synchronises the number.\<close>

fun log_verify_from :: "digest \<Rightarrow> nat \<Rightarrow> int \<Rightarrow> string \<Rightarrow> tl_rec list \<Rightarrow> break list" where
  "log_verify_from H i expect p [] = []"
| "log_verify_from H i expect p (r # rs) =
     (if prev_of r \<noteq> p then [PrevBroken (i + 1)] else [])
     @ (if seq_of r \<noteq> expect then [SeqOutOfOrder (i + 1) (seq_of r) expect] else [])
     @ (if tl_chain r \<noteq> chain_of H p r then [HashBroken (i + 1)] else [])
     @ log_verify_from H (i + 1) (expect + 1) (tl_chain r) rs"

definition transparency_log_verify_chain :: "digest \<Rightarrow> tl_rec list \<Rightarrow> break list" where
  "transparency_log_verify_chain H rs = log_verify_from H 0 1 GENESIS rs"

section \<open>Views and gossip\<close>

record view =
  v_source :: string
  v_length :: int
  v_head :: string

definition compute_view :: "string \<Rightarrow> tl_rec list \<Rightarrow> view" where
  "compute_view src rs = \<lparr>v_source = src, v_length = int (length rs), v_head = head_of rs\<rparr>"

type_synonym heads = "(int \<times> string) list"

definition heads_of :: "tl_rec list \<Rightarrow> heads" where
  "heads_of rs = foldl (\<lambda>h r. AList.update (seq_of r) (tl_chain r) h) [] rs"

datatype relation = AGREE | LAG | FORK | DIVERGED

definition classify_ordered :: "view \<Rightarrow> view \<Rightarrow> heads \<Rightarrow> relation" where
  "classify_ordered s l hs =
     (if v_length s = v_length l then (if v_head s = v_head l then AGREE else FORK)
      else if map_of hs (v_length s) = Some (v_head s) then LAG
      else if v_head s \<in> set (map snd hs) then FORK
      else DIVERGED)"

record pair_entry =
  pe_a :: string
  pe_b :: string
  pe_class :: relation
  pe_lag :: int

definition compare_pair :: "view \<times> heads \<Rightarrow> view \<times> heads \<Rightarrow> pair_entry" where
  "compare_pair A B =
     (case (A, B) of ((a, ha), (b, hb)) \<Rightarrow>
        let (cls, d) =
              (if v_length a \<le> v_length b
               then (classify_ordered a b hb, v_length b - v_length a)
               else (classify_ordered b a ha, v_length a - v_length b))
        in \<lparr>pe_a = v_source a, pe_b = v_source b, pe_class = cls,
            pe_lag = (if cls = LAG then d else 0)\<rparr>)"

fun all_pairs :: "'a list \<Rightarrow> ('a \<times> 'a) list" where
  "all_pairs [] = []"
| "all_pairs (x # xs) = map (\<lambda>y. (x, y)) xs @ all_pairs xs"

definition worse :: "relation \<Rightarrow> relation \<Rightarrow> relation" where
  "worse w c =
     (if c = FORK \<or> c = DIVERGED then FORK else if c = LAG \<and> w = AGREE then LAG else w)"

datatype gossip = Insufficient | Consensus | ForkFound

definition longest :: "view list \<Rightarrow> view option" where
  "longest vs =
     (case vs of
        [] \<Rightarrow> None
      | v # ws \<Rightarrow>
          Some (foldl (\<lambda>m w. if (v_length m, v_head m) < (v_length w, v_head w) then w else m) v ws))"

record gossip_result =
  g_verdict :: gossip
  g_head :: string
  g_max_lag :: int
  g_pairs :: "pair_entry list"

definition gossip_verdict :: "(view \<times> heads) list \<Rightarrow> gossip_result" where
  "gossip_verdict vs =
     (let ps = map (\<lambda>(a, b). compare_pair a b) (all_pairs vs);
          worst = foldl worse AGREE (map pe_class ps)
      in \<lparr>g_verdict = (if length vs < 2 then Insufficient
                        else if worst = AGREE \<or> worst = LAG then Consensus else ForkFound),
          g_head = (case longest (map fst vs) of Some v \<Rightarrow> v_head v | None \<Rightarrow> GENESIS),
          g_max_lag = foldl max 0 (map pe_lag ps),
          g_pairs = ps\<rparr>)"

section \<open>Inclusion proofs\<close>

record tl_proof =
  p_seq :: int
  p_record :: tl_rec
  p_tail :: "tl_rec list"
  p_length :: int
  p_head :: string

definition build_proof :: "tl_rec list \<Rightarrow> nat \<Rightarrow> tl_proof" where
  "build_proof rs i =
     \<lparr>p_seq = seq_of (rs ! i), p_record = rs ! i, p_tail = drop (i + 1) rs,
      p_length = int (length rs), p_head = head_of rs\<rparr>"

datatype proof_break =
  RecordHash | TailHash nat | HeadMismatch | LengthMismatch | SeqGone | RecordDiffers | HeadRewritten

text \<open>The replay of the tail; a non-empty digest is the case of every record the shape check let
  through.\<close>

fun tail_breaks :: "digest \<Rightarrow> nat \<Rightarrow> string \<Rightarrow> tl_rec list \<Rightarrow> string \<times> proof_break list" where
  "tail_breaks H k p [] = (p, [])"
| "tail_breaks H k p (t # ts) =
     (case tail_breaks H (k + 1) (tl_chain t) ts of
        (h, es) \<Rightarrow>
          (h, (if p \<noteq> [] \<and> tl_chain t \<noteq> chain_of H p t then [TailHash (k + 1)] else []) @ es))"

definition verify_proof_offline :: "digest \<Rightarrow> tl_proof \<Rightarrow> proof_break list" where
  "verify_proof_offline H pf =
     (let r = p_record pf; (h, es) = tail_breaks H 0 (tl_chain r) (p_tail pf)
      in (if tl_chain r \<noteq> chain_of H (prev_of r) r then [RecordHash] else [])
         @ es
         @ (if p_head pf \<noteq> (if h \<noteq> [] then h else GENESIS) then [HeadMismatch] else [])
         @ (if p_length pf \<noteq> p_seq pf + int (length (p_tail pf)) then [LengthMismatch] else []))"

definition verify_proof_live :: "digest \<Rightarrow> tl_proof \<Rightarrow> tl_rec list \<Rightarrow> proof_break list" where
  "verify_proof_live H pf rs =
     (let errors = verify_proof_offline H pf
      in if errors \<noteq> [] then errors
         else case find (\<lambda>r. seq_of r = p_seq pf) rs of
             None \<Rightarrow> [SeqGone]
           | Some live \<Rightarrow>
               if live \<noteq> p_record pf then [RecordDiffers]
               else if map_of (heads_of rs) (p_length pf) \<noteq> Some (p_head pf) then [HeadRewritten]
               else [])"

section \<open>Witnesses\<close>

datatype held = Held | ByteIdentical | Rewritten | Rollback

text \<open>\<open>wsum\<close> is the digest of the witnessed log's bytes, \<open>cur\<close> that of the current ones, when it
  is known.\<close>

definition check_against_log ::
  "int \<Rightarrow> string \<Rightarrow> string \<Rightarrow> tl_rec list \<Rightarrow> string option \<Rightarrow> held" where
  "check_against_log w_len w_head wsum rs cur =
     (if int (length rs) < w_len then Rollback
      else case find (\<lambda>r. seq_of r = w_len) rs of
          None \<Rightarrow> Rewritten
        | Some r \<Rightarrow>
            if tl_chain r \<noteq> w_head then Rewritten
            else if int (length rs) = w_len \<and> cur = Some wsum then ByteIdentical
            else Held)"

end
