(* ===== verification/TlogProps.thy ===== *)
theory TlogProps
  imports Tlog
begin

text \<open>
  What the transparency log's tools guarantee: the replay accepts exactly the sound logs and both
  replays agree, appending keeps a log sound, the classification of two views is the prefix
  relation of the logs behind them, witnesses detect what they promise to, and proofs of sound logs
  stay valid while the log grows. Where a guarantee rests on the digest, its conclusion is that the
  property holds or that two records of the logs collide under it.
\<close>

section \<open>Sound logs\<close>

definition sound :: "digest \<Rightarrow> tl_rec list \<Rightarrow> bool" where
  "sound H rs \<longleftrightarrow>
     (\<forall>i<length rs. seq_of (rs ! i) = int i + 1
        \<and> prev_of (rs ! i) = (if i = 0 then GENESIS else tl_chain (rs ! (i - 1)))
        \<and> tl_chain (rs ! i) = H (prev_of (rs ! i)) (tl_body (rs ! i)))"

text \<open>The same with a running number and digest, for the replays.\<close>

fun sound_from :: "digest \<Rightarrow> int \<Rightarrow> string \<Rightarrow> tl_rec list \<Rightarrow> bool" where
  "sound_from H n p [] = True"
| "sound_from H n p (r # rs) =
     (seq_of r = n \<and> prev_of r = p \<and> tl_chain r = H p (tl_body r)
      \<and> sound_from H (n + 1) (tl_chain r) rs)"

lemma all_less_Suc_shift: "(\<forall>i<Suc n. P i) \<longleftrightarrow> P 0 \<and> (\<forall>i<n. P (Suc i))"
  using less_Suc_eq_0_disj by auto

lemma sound_from_nth:
  "sound_from H n p rs \<longleftrightarrow>
     (\<forall>i<length rs. seq_of (rs ! i) = n + int i
        \<and> prev_of (rs ! i) = (if i = 0 then p else tl_chain (rs ! (i - 1)))
        \<and> tl_chain (rs ! i) = H (prev_of (rs ! i)) (tl_body (rs ! i)))"
proof (induction rs arbitrary: n p)
  case (Cons r rs)
  have "(if i = 0 then tl_chain r else tl_chain (rs ! (i - 1))) = tl_chain ((r # rs) ! i)" for i
    by (cases i) auto
  then show ?case
    by (simp add: Cons all_less_Suc_shift [of "length rs"] algebra_simps) auto
qed simp

lemma sound_iff: "sound H rs \<longleftrightarrow> sound_from H 1 GENESIS rs"
  by (simp add: sound_def sound_from_nth add.commute)

lemma sound_from_append:
  "sound_from H n p (rs @ ts) \<longleftrightarrow>
     sound_from H n p rs
     \<and> sound_from H (n + int (length rs)) (if rs = [] then p else tl_chain (last rs)) ts"
  by (induction rs arbitrary: n p) (auto simp: algebra_simps)

lemma verify_from_spec:
  "snd (verify_from H i n p rs) = [] \<longleftrightarrow> sound_from H n p rs"
proof (induction rs arbitrary: i n p)
  case (Cons r rs)
  show ?case
    by (cases "seq_of r = n"; cases "prev_of r = p")
      (auto simp: Cons.IH replay_breaks_def chain_of_def case_prod_beta)
qed simp

lemma verify_from_head:
  "fst (verify_from H i n p rs) = (if rs = [] then p else tl_chain (last rs))"
  by (induction rs arbitrary: i n p) (auto split: prod.splits simp: prod_eq_iff)

lemma log_verify_from_spec: "log_verify_from H i n p rs = [] \<longleftrightarrow> sound_from H n p rs"
  by (induction rs arbitrary: i n p) (auto simp: chain_of_def)

text \<open>C28. The replay reports no break exactly for the sound logs: numbers count from one without
  gaps, every record links to the digest before it, and every digest is that of its record. It
  returns the head whatever it finds, and the package tools' own replay agrees with it on
  soundness for every log.\<close>

theorem verify_chain_sound:
  "(snd (verify_chain H rs) = [] \<longleftrightarrow> sound H rs)
   \<and> fst (verify_chain H rs) = head_of rs
   \<and> (transparency_log_verify_chain H rs = [] \<longleftrightarrow> snd (verify_chain H rs) = [])"
  by (simp add: verify_chain_def transparency_log_verify_chain_def verify_from_spec
      verify_from_head log_verify_from_spec sound_iff head_of_def)

lemma append_sound: "sound H rs \<Longrightarrow> sound H (transparency_log_append H now kind rest rs)"
  by (simp add: sound_iff transparency_log_append_def sound_from_append build_chained_record_def
      Let_def head_of_def)

lemma appends_sound:
  "sound H rs \<Longrightarrow>
   sound H (foldl (\<lambda>l (now, kind, rest). transparency_log_append H now kind rest l) rs es)"
  by (induction es arbitrary: rs) (auto simp: append_sound)

text \<open>C37. Every log built by appending is sound, so both replays accept it, and appending changes
  no earlier record.\<close>

theorem append_keeps_sound:
  assumes "snd (verify_chain H rs) = []"
  shows "snd (verify_chain H (transparency_log_append H now kind rest rs)) = []
    \<and> take (length rs) (transparency_log_append H now kind rest rs) = rs
    \<and> seq_of (last (transparency_log_append H now kind rest rs)) = int (length rs) + 1"
proof -
  have "sound H rs" using assms by (simp add: verify_chain_def verify_from_spec sound_iff)
  from append_sound [OF this, of now kind rest]
  show ?thesis
    by (simp add: verify_chain_def verify_from_spec sound_iff)
      (simp add: transparency_log_append_def build_chained_record_def Let_def)
qed

lemma append_keeps_sound_witness:
  "snd (verify_chain (\<lambda>p b. ''aa'') (transparency_log_append (\<lambda>p b. ''aa'') 7 None ''x'' [])) = []"
  using append_keeps_sound [of "\<lambda>p b. ''aa''" "[]" 7 None "''x''"]
  by (simp add: verify_chain_def)

section \<open>Prefixes\<close>

definition collision :: "digest \<Rightarrow> tl_rec list \<Rightarrow> bool" where
  "collision H rs \<longleftrightarrow>
     (\<exists>r\<in>set rs. \<exists>r'\<in>set rs. tl_body r \<noteq> tl_body r'
        \<and> H (prev_of r) (tl_body r) = H (prev_of r') (tl_body r'))"

lemma tl_rec_eqI: "tl_body r = tl_body r' \<Longrightarrow> tl_chain r = tl_chain r' \<Longrightarrow> (r :: tl_rec) = r'"
  by simp

lemma sound_links:
  assumes "sound H as" "sound H bs" "\<not> collision H (as @ bs)"
    "i < length as" "j < length bs" "tl_chain (as ! i) = tl_chain (bs ! j)"
  shows "i = j \<and> take (Suc i) as = take (Suc i) bs"
  using assms(4-6)
proof (induction i arbitrary: j rule: less_induct)
  case (less i)
  have "H (prev_of (as ! i)) (tl_body (as ! i)) = H (prev_of (bs ! j)) (tl_body (bs ! j))"
    using assms(1,2) less.prems by (simp add: sound_def)
  moreover have "as ! i \<in> set (as @ bs)" "bs ! j \<in> set (as @ bs)" using less.prems by auto
  ultimately have b: "tl_body (as ! i) = tl_body (bs ! j)"
    using assms(3) unfolding collision_def by blast
  then have r: "as ! i = bs ! j" using less.prems(3) by (rule tl_rec_eqI)
  have s: "seq_of (as ! i) = int i + 1" "seq_of (bs ! j) = int j + 1"
    using assms(1,2) less.prems(1,2) by (auto simp: sound_def)
  then have ij: "i = j" using b by simp
  show ?case
  proof (cases i)
    case 0
    then show ?thesis using ij r less.prems by (simp add: take_Suc_conv_app_nth)
  next
    case (Suc k)
    have "tl_chain (as ! k) = prev_of (as ! i)" "tl_chain (bs ! k) = prev_of (bs ! j)"
      using assms(1,2) less.prems(1,2) Suc ij by (auto simp: sound_def)
    then have "take (Suc k) as = take (Suc k) bs"
      using less.IH [of k k] Suc ij b less.prems by simp
    moreover have "take (Suc i) as = take i as @ [as ! i]" "take (Suc i) bs = take i bs @ [bs ! i]"
      using less.prems(1,2) ij by (simp_all add: take_Suc_conv_app_nth)
    ultimately show ?thesis using ij r Suc by simp
  qed
qed

lemma update_new: "k \<notin> fst ` set h \<Longrightarrow> AList.update k v h = h @ [(k, v)]"
  by (induction h) auto

lemma heads_of_distinct:
  "distinct (map fst h @ map seq_of rs) \<Longrightarrow>
   foldl (\<lambda>h r. AList.update (seq_of r) (tl_chain r) h) h rs
   = h @ map (\<lambda>r. (seq_of r, tl_chain r)) rs"
  by (induction rs arbitrary: h) (auto simp: update_new image_iff)

lemma heads_of_sound:
  assumes "sound H rs"
  shows "heads_of rs = map (\<lambda>r. (seq_of r, tl_chain r)) rs"
proof -
  have "distinct (map seq_of rs)"
    using assms by (auto simp: distinct_conv_nth sound_def)
  then show ?thesis using heads_of_distinct [of "[]" rs] by (simp add: heads_of_def)
qed

lemma heads_of_lookup:
  assumes "sound H rs"
  shows "map_of (heads_of rs) n = Some c \<longleftrightarrow>
    1 \<le> n \<and> n \<le> int (length rs) \<and> c = tl_chain (rs ! nat (n - 1))"
proof -
  have d: "distinct (map fst (heads_of rs))"
    using assms by (auto simp: heads_of_sound [OF assms] comp_def distinct_conv_nth sound_def)
  have "map_of (heads_of rs) n = Some c \<longleftrightarrow> (n, c) \<in> set (heads_of rs)"
    using map_of_eq_Some_iff [OF d] .
  also have "\<dots> \<longleftrightarrow> (\<exists>i<length rs. seq_of (rs ! i) = n \<and> tl_chain (rs ! i) = c)"
    unfolding heads_of_sound [OF assms] in_set_conv_nth by auto
  also have "\<dots> \<longleftrightarrow> (\<exists>i<length rs. n = int i + 1 \<and> c = tl_chain (rs ! i))"
    using assms unfolding sound_def by (intro ex_cong1) auto
  also have "\<dots> \<longleftrightarrow> 1 \<le> n \<and> n \<le> int (length rs) \<and> c = tl_chain (rs ! nat (n - 1))"
  proof
    assume "1 \<le> n \<and> n \<le> int (length rs) \<and> c = tl_chain (rs ! nat (n - 1))"
    then show "\<exists>i<length rs. n = int i + 1 \<and> c = tl_chain (rs ! i)"
      by (intro exI [of _ "nat (n - 1)"]) auto
  qed auto
  finally show ?thesis .
qed

section \<open>Gossip\<close>

lemma sound_prefix_head:
  assumes "sound H as" "sound H bs" "\<not> collision H (as @ bs)" "as \<noteq> []" "length as \<le> length bs"
  shows "tl_chain (last as) = tl_chain (bs ! (length as - 1)) \<longleftrightarrow> take (length as) bs = as"
proof
  assume h: "tl_chain (last as) = tl_chain (bs ! (length as - 1))"
  have "0 < length as" using assms(4) by simp
  then have "length as - 1 < length as" "length as - 1 < length bs"
    using assms(5) by linarith+
  with h have "take (Suc (length as - 1)) as = take (Suc (length as - 1)) bs"
    using sound_links [OF assms(1-3), of "length as - 1" "length as - 1"] assms(4)
    by (simp add: last_conv_nth)
  then show "take (length as) bs = as" using assms(4) by simp
next
  assume t: "take (length as) bs = as"
  then have "take (length as) bs ! (length as - 1) = last as"
    using assms(4) by (simp add: last_conv_nth)
  then show "tl_chain (last as) = tl_chain (bs ! (length as - 1))" using assms(4,5) by simp
qed

lemma classify_nonempty:
  assumes "sound H as" "sound H bs" "\<not> collision H (as @ bs)" "as \<noteq> []" "length as \<le> length bs"
  shows "classify_ordered (compute_view s as) (compute_view t bs) (heads_of bs) =
      (if as = bs then AGREE
       else if take (length as) bs = as then LAG
       else if length as = length bs then FORK
       else DIVERGED)"
proof -
  have bs: "bs \<noteq> []" using assms(4,5) by auto
  note pre = sound_prefix_head [OF assms(1-3) assms(4,5)]
  show "classify_ordered (compute_view s as) (compute_view t bs) (heads_of bs) =
      (if as = bs then AGREE
       else if take (length as) bs = as then LAG
       else if length as = length bs then FORK
       else DIVERGED)"
  proof (cases "length as = length bs")
    case True
    then have "tl_chain (last as) = tl_chain (last bs) \<longleftrightarrow> as = bs"
      using pre bs by (simp add: last_conv_nth eq_commute)
    moreover have "take (length as) bs = as \<longleftrightarrow> as = bs" using True by auto
    ultimately show ?thesis
      using True assms(4) bs by (simp add: classify_ordered_def compute_view_def head_of_def)
  next
    case False
    have lag: "map_of (heads_of bs) (int (length as)) = Some (head_of as) \<longleftrightarrow> take (length as) bs = as"
    proof -
      have "nat (int (length as) - 1) = length as - 1" "1 \<le> int (length as)"
        using assms(4) by (simp_all add: Suc_le_eq nat_diff_distrib)
      then show ?thesis
        using pre assms(4,5) heads_of_lookup [OF assms(2), of "int (length as)"]
        by (simp add: head_of_def)
    qed
    have "head_of as \<notin> set (map snd (heads_of bs))" if "take (length as) bs \<noteq> as"
    proof
      assume "head_of as \<in> set (map snd (heads_of bs))"
      then obtain j where j: "j < length bs" "tl_chain (as ! (length as - 1)) = tl_chain (bs ! j)"
        using assms(4) by (auto simp: heads_of_sound [OF assms(2)] head_of_def last_conv_nth in_set_conv_nth)
      have "length as - 1 < length as" using assms(4) by simp
      from sound_links [OF assms(1-3) this j] that assms(4) show False by simp
    qed
    then show ?thesis
      using False lag by (auto simp: classify_ordered_def compute_view_def)
  qed
qed

text \<open>The view of an empty log: length 0 is no record's number.\<close>

lemma classify_empty:
  assumes "sound H bs" "bs \<noteq> []"
  shows "classify_ordered (compute_view s []) (compute_view t bs) (heads_of bs) =
    (if GENESIS \<in> tl_chain ` set bs then FORK else DIVERGED)"
proof -
  have "map_of (heads_of bs) 0 \<noteq> Some x" for x using heads_of_lookup [OF assms(1), of 0] by simp
  moreover have "set (map snd (heads_of bs)) = tl_chain ` set bs"
    by (simp add: heads_of_sound [OF assms(1)] image_image)
  ultimately show ?thesis using assms(2) by (simp add: classify_ordered_def compute_view_def head_of_def)
qed

text \<open>C26. The classification of the views of two sound logs is the prefix relation of the logs,
  unless two of their records collide under the digest: equal heads at equal length are equal
  logs, a lagging view is a proper prefix that is not empty, and a renumbered history cannot occur.
  The view of an empty log never lags: beside any other log it is diverged, or a fork when a record
  has the genesis hash.\<close>

theorem classify_is_prefix:
  assumes "sound H as" "sound H bs" "length as \<le> length bs"
  shows "classify_ordered (compute_view s as) (compute_view t bs) (heads_of bs) =
      (if as = bs then AGREE
       else if as = [] then (if GENESIS \<in> tl_chain ` set bs then FORK else DIVERGED)
       else if take (length as) bs = as then LAG
       else if length as = length bs then FORK
       else DIVERGED)
    \<or> collision H (as @ bs)"
proof (cases "as = []")
  case True
  then show ?thesis
    using classify_empty [OF assms(2)]
    by (cases "bs = []") (simp_all add: classify_ordered_def compute_view_def)
next
  case False
  then show ?thesis using classify_nonempty [OF assms(1,2) _ False assms(3)] by auto
qed

definition demo_digest :: digest where
  "demo_digest p b = (if tl_seq b = 1 then ''first'' else ''second'')"

definition demo_log :: "tl_rec list" where
  "demo_log = transparency_log_append demo_digest 8 None ''b''
     (transparency_log_append demo_digest 7 None ''a'' [])"

lemma demo_sound: "sound demo_digest demo_log" "sound demo_digest (take 1 demo_log)"
  using append_sound [of demo_digest "[]" 7 None "''a''"]
    append_sound [of demo_digest "transparency_log_append demo_digest 7 None ''a'' []" 8 None "''b''"]
  by (simp_all add: sound_def demo_log_def transparency_log_append_def)

lemma classify_is_prefix_witness:
  "classify_ordered (compute_view ''m'' (take 1 demo_log)) (compute_view ''o'' demo_log) (heads_of demo_log)
     = LAG"
proof -
  have len: "length demo_log = 2" by (simp add: demo_log_def transparency_log_append_def)
  have "\<not> collision demo_digest (take 1 demo_log @ demo_log)"
    by (simp add: collision_def demo_log_def transparency_log_append_def build_chained_record_def
        demo_digest_def Let_def)
  moreover have "take 1 demo_log \<noteq> []" "take 1 demo_log \<noteq> demo_log" "length (take 1 demo_log) \<le> length demo_log"
    using len by (auto dest: arg_cong [of _ _ length])
  ultimately show ?thesis
    using classify_is_prefix [OF demo_sound(2,1), of "''m''" "''o''"] len by simp
qed

text \<open>The verdict over any number of sources.\<close>

definition comparable :: "tl_rec list \<Rightarrow> tl_rec list \<Rightarrow> bool" where
  "comparable as bs \<longleftrightarrow> take (length as) bs = as \<or> take (length bs) as = bs"

definition answered :: "string \<times> tl_rec list \<Rightarrow> view \<times> heads" where
  "answered = (\<lambda>(s, rs). (compute_view s rs, heads_of rs))"

definition no_conflict :: "relation \<Rightarrow> bool" where
  "no_conflict c \<longleftrightarrow> c = AGREE \<or> c = LAG"

lemma worse_no_conflict: "no_conflict (foldl worse w cs) \<longleftrightarrow> no_conflict w \<and> list_all no_conflict cs"
proof (induction cs arbitrary: w)
  case (Cons c cs)
  have "no_conflict (worse w c) \<longleftrightarrow> no_conflict w \<and> no_conflict c"
    by (cases c) (auto simp: worse_def no_conflict_def)
  then show ?case using Cons by auto
qed simp

lemma all_pairs_map: "all_pairs (map f xs) = map (\<lambda>(a, b). (f a, f b)) (all_pairs xs)"
  by (induction xs) (auto simp: comp_def)

lemma set_all_pairs: "set (all_pairs xs) \<subseteq> set xs \<times> set xs"
  by (induction xs) auto

lemma all_pairs_ex:
  "a \<in> set xs \<Longrightarrow> b \<in> set xs \<Longrightarrow> a = b \<or> (a, b) \<in> set (all_pairs xs) \<or> (b, a) \<in> set (all_pairs xs)"
  by (induction xs) auto

lemma collision_mono: "collision H xs \<Longrightarrow> set xs \<subseteq> set ys \<Longrightarrow> collision H ys"
  unfolding collision_def by blast

lemma classify_no_conflict:
  assumes "sound H as" "sound H bs" "length as \<le> length bs" "\<not> collision H (as @ bs)"
  shows "no_conflict (classify_ordered (compute_view s as) (compute_view t bs) (heads_of bs))
    \<longleftrightarrow> take (length as) bs = as \<and> (as = [] \<longrightarrow> bs = [])"
proof (cases "as = []")
  case True
  then show ?thesis using classify_empty [OF assms(2)]
    by (cases "bs = []") (simp_all add: no_conflict_def classify_ordered_def compute_view_def)
next
  case False
  then show ?thesis
    using classify_nonempty [OF assms(1,2,4) False assms(3)] by (auto simp: no_conflict_def)
qed

text \<open>An empty log is in step with empty logs only: its length 0 is in no map of heads.\<close>

definition in_step :: "tl_rec list \<Rightarrow> tl_rec list \<Rightarrow> bool" where
  "in_step as bs \<longleftrightarrow> comparable as bs \<and> (as = [] \<longleftrightarrow> bs = [])"

lemma pair_no_conflict:
  assumes "sound H as" "sound H bs" "\<not> collision H (as @ bs)"
  shows "no_conflict (pe_class (compare_pair (answered (s, as)) (answered (t, bs))))
    \<longleftrightarrow> in_step as bs"
proof (cases "length as \<le> length bs")
  case True
  then have "in_step as bs \<longleftrightarrow> take (length as) bs = as \<and> (as = [] \<longrightarrow> bs = [])"
    by (auto simp: in_step_def comparable_def)
  then show ?thesis
    using True classify_no_conflict [OF assms(1,2) True assms(3), of s t]
    by (simp add: compare_pair_def answered_def Let_def) (simp add: compute_view_def)
next
  case False
  then have le: "length bs \<le> length as" by simp
  have "\<not> collision H (bs @ as)" using assms(3) collision_mono [of H "bs @ as" "as @ bs"] by auto
  moreover have "in_step as bs \<longleftrightarrow> take (length bs) as = bs \<and> (bs = [] \<longrightarrow> as = [])"
    using le by (auto simp: in_step_def comparable_def)
  ultimately show ?thesis
    using False classify_no_conflict [OF assms(2,1) le, of t s]
    by (simp add: compare_pair_def answered_def Let_def) (simp add: compute_view_def)
qed

text \<open>C27. Over any number of sources with sound logs whose records do not collide, the gossip verdict
  is insufficient with fewer than two sources; otherwise it is consensus exactly when every two logs are
  in step, that is, one is a prefix of the other and neither or both are empty, and a fork else. So
  a source with an empty log, which every log extends, makes the verdict a fork.\<close>

theorem gossip_consensus:
  assumes "\<forall>(s, rs)\<in>set logs. sound H rs" "\<not> collision H (concat (map snd logs))"
  shows "g_verdict (gossip_verdict (map answered logs)) =
    (if length logs < 2 then Insufficient
     else if \<forall>a\<in>set logs. \<forall>b\<in>set logs. in_step (snd a) (snd b) then Consensus else ForkFound)"
proof -
  have pair: "no_conflict (pe_class (compare_pair (answered a) (answered b)))
      \<longleftrightarrow> in_step (snd a) (snd b)" if "a \<in> set logs" "b \<in> set logs" for a b
  proof -
    have "set (snd a @ snd b) \<subseteq> set (concat (map snd logs))" using that by auto
    then have "\<not> collision H (snd a @ snd b)" using assms(2) collision_mono by blast
    then show ?thesis
      using pair_no_conflict [of H "snd a" "snd b" "fst a" "fst b"] assms(1) that by fastforce
  qed
  have ps: "all_pairs (map answered logs) = map (\<lambda>(a, b). (answered a, answered b)) (all_pairs logs)"
    by (rule all_pairs_map)
  have "no_conflict (foldl worse AGREE
      (map pe_class (map (\<lambda>(a, b). compare_pair a b) (all_pairs (map answered logs)))))
    \<longleftrightarrow> (\<forall>(a, b)\<in>set (all_pairs logs). in_step (snd a) (snd b))"
  proof -
    have "no_conflict AGREE" by (simp add: no_conflict_def)
    then have "no_conflict (foldl worse AGREE
        (map pe_class (map (\<lambda>(a, b). compare_pair a b) (all_pairs (map answered logs)))))
      \<longleftrightarrow> (\<forall>q\<in>set (all_pairs logs).
            no_conflict (pe_class (compare_pair (answered (fst q)) (answered (snd q)))))"
      unfolding worse_no_conflict ps by (simp add: list_all_iff case_prod_beta)
    also have "\<dots> \<longleftrightarrow> (\<forall>(a, b)\<in>set (all_pairs logs). in_step (snd a) (snd b))"
      using pair set_all_pairs [of logs] by (intro ball_cong) (auto simp: case_prod_beta)
    finally show ?thesis .
  qed
  also have "\<dots> \<longleftrightarrow> (\<forall>a\<in>set logs. \<forall>b\<in>set logs. in_step (snd a) (snd b))"
  proof (intro iffI ballI)
    fix a b
    assume h: "\<forall>(a, b)\<in>set (all_pairs logs). in_step (snd a) (snd b)" "a \<in> set logs" "b \<in> set logs"
    from all_pairs_ex [OF h(2,3)] h(1) show "in_step (snd a) (snd b)"
      by (auto simp: in_step_def comparable_def)
  next
    fix q
    assume "\<forall>a\<in>set logs. \<forall>b\<in>set logs. in_step (snd a) (snd b)" "q \<in> set (all_pairs logs)"
    then show "case q of (a, b) \<Rightarrow> in_step (snd a) (snd b)"
      using set_all_pairs [of logs] by (cases q) blast
  qed
  finally show ?thesis
    by (simp add: gossip_verdict_def Let_def no_conflict_def)
qed

lemma gossip_consensus_witness:
  "g_verdict (gossip_verdict [answered (''o'', demo_log), answered (''m'', take 1 demo_log)]) = Consensus"
proof -
  let ?logs = "[(''o'', demo_log), (''m'', take 1 demo_log)]"
  have len: "demo_log \<noteq> []" by (simp add: demo_log_def transparency_log_append_def)
  have "\<not> collision demo_digest (concat (map snd ?logs))"
    by (simp add: collision_def demo_log_def transparency_log_append_def build_chained_record_def
        demo_digest_def Let_def)
  from gossip_consensus [OF _ this] demo_sound len
  show ?thesis by (simp add: in_step_def comparable_def min_def)
qed

text \<open>An empty log is sound and a prefix of every log, but a source that serves one (a mirror
  that has just started) is never classified as lagging: with any other sound log the verdict is a
  fork, and a witness signed over the empty log is reported as rewritten once the log has grown.\<close>

lemma empty_mirror_forks:
  assumes "sound H rs" "rs \<noteq> []"
  shows "sound H [] \<and> comparable [] rs
    \<and> g_verdict (gossip_verdict [answered (s, []), answered (t, rs)]) = ForkFound
    \<and> check_against_log (int (length [])) (head_of []) wsum rs cur = Rewritten"
proof -
  have "map_of (heads_of rs) 0 \<noteq> Some x" for x using heads_of_lookup [OF assms(1), of 0] by simp
  then have "classify_ordered (compute_view s []) (compute_view t rs) (heads_of rs) \<in> {FORK, DIVERGED}"
    using assms(2) by (simp add: classify_ordered_def compute_view_def head_of_def)
  then have "g_verdict (gossip_verdict [answered (s, []), answered (t, rs)]) = ForkFound"
    by (auto simp: gossip_verdict_def Let_def compare_pair_def answered_def worse_def compute_view_def)
  moreover have "find (\<lambda>r. seq_of r = 0) rs = None"
    using assms(1) by (auto simp: find_None_iff sound_def in_set_conv_nth)
  ultimately show ?thesis
    by (simp add: sound_def comparable_def check_against_log_def)
qed

lemma empty_mirror_forks_witness:
  "g_verdict (gossip_verdict [answered (''new'', []), answered (''o'', demo_log)]) = ForkFound"
proof -
  have "demo_log \<noteq> []" by (simp add: demo_log_def transparency_log_append_def)
  from empty_mirror_forks [OF demo_sound(1) this] show ?thesis by blast
qed

section \<open>Witnesses\<close>

lemma find_seq:
  assumes "sound H rs"
  shows "find (\<lambda>r. seq_of r = n) rs =
    (if 1 \<le> n \<and> n \<le> int (length rs) then Some (rs ! nat (n - 1)) else None)"
proof (cases "1 \<le> n \<and> n \<le> int (length rs)")
  case True
  then have i: "nat (n - 1) < length rs" by linarith
  have "\<forall>j<nat (n - 1). seq_of (rs ! j) \<noteq> n" "seq_of (rs ! nat (n - 1)) = n"
    using assms True i by (auto simp: sound_def)
  then show ?thesis using True i by (auto simp: find_Some_iff)
next
  case False
  then have "\<forall>r\<in>set rs. seq_of r \<noteq> n" using assms by (auto simp: sound_def in_set_conv_nth)
  then show ?thesis using False by (auto simp: find_None_iff)
qed

text \<open>What a signed view detects: against a sound log, a witness over a sound non-empty log
  reports a rollback exactly when the log has become shorter, and otherwise, unless two records
  collide, that it holds exactly when the witnessed log is a prefix of the present one.\<close>

theorem witness_detects:
  assumes "sound H as" "sound H bs" "as \<noteq> []"
  shows "(check_against_log (int (length as)) (head_of as) wsum bs cur = Rollback
        \<longleftrightarrow> length bs < length as)
    \<and> ((check_against_log (int (length as)) (head_of as) wsum bs cur \<in> {Held, ByteIdentical}
        \<longleftrightarrow> take (length as) bs = as) \<or> collision H (as @ bs))"
proof (cases "length bs < length as")
  case True
  then have "take (length as) bs \<noteq> as" by (auto dest: arg_cong [of _ _ length])
  then show ?thesis using True by (simp add: check_against_log_def)
next
  case False
  then have le: "length as \<le> length bs" by simp
  have n: "1 \<le> int (length as)" "nat (int (length as) - 1) = length as - 1"
    using assms(3) by (simp_all add: Suc_le_eq nat_diff_distrib)
  have "check_against_log (int (length as)) (head_of as) wsum bs cur \<in> {Held, ByteIdentical}
      \<longleftrightarrow> tl_chain (last as) = tl_chain (bs ! (length as - 1))"
    using False le n assms(3) find_seq [OF assms(2), of "int (length as)"]
    by (auto simp: check_against_log_def head_of_def)
  moreover have "check_against_log (int (length as)) (head_of as) wsum bs cur \<noteq> Rollback"
    using False n le find_seq [OF assms(2), of "int (length as)"] by (simp add: check_against_log_def)
  ultimately show ?thesis
    using False sound_prefix_head [OF assms(1,2) _ assms(3) le] by blast
qed

lemma witness_detects_witness:
  "check_against_log 1 (head_of (take 1 demo_log)) ''d'' demo_log None \<in> {Held, ByteIdentical}"
proof -
  have len: "length demo_log = 2" by (simp add: demo_log_def transparency_log_append_def)
  then have "take 1 demo_log \<noteq> []" by auto
  moreover have "\<not> collision demo_digest (take 1 demo_log @ demo_log)"
    by (simp add: collision_def demo_log_def transparency_log_append_def build_chained_record_def
        demo_digest_def Let_def)
  ultimately show ?thesis
    using witness_detects [OF demo_sound(2,1), of "''d''" None] len by simp
qed

section \<open>Inclusion proofs\<close>

lemma tail_breaks_sound:
  "sound_from H n p ts \<Longrightarrow>
   tail_breaks H k p ts = (if ts = [] then p else tl_chain (last ts), [])"
  by (induction ts arbitrary: n p k) (auto simp: chain_of_def)

lemma proof_offline_ok:
  assumes "sound H rs" "i < length rs" "\<forall>r\<in>set rs. tl_chain r \<noteq> []"
  shows "verify_proof_offline H (build_proof rs i) = []"
proof -
  have split: "rs = take (Suc i) rs @ drop (Suc i) rs" by simp
  have hd: "last (take (Suc i) rs) = rs ! i" "take (Suc i) rs \<noteq> []"
    using assms(2) by (auto simp: take_Suc_conv_app_nth)
  have "sound_from H 1 GENESIS (take (Suc i) rs @ drop (Suc i) rs)"
    using assms(1) by (simp add: sound_iff)
  then have "sound_from H (1 + int (length (take (Suc i) rs))) (tl_chain (rs ! i)) (drop (Suc i) rs)"
    unfolding sound_from_append using hd by simp
  from tail_breaks_sound [OF this, of 0]
  have tail: "tail_breaks H 0 (tl_chain (rs ! i)) (drop (Suc i) rs) =
      (if drop (Suc i) rs = [] then tl_chain (rs ! i) else tl_chain (last (drop (Suc i) rs)), [])" .
  have last: "(if drop (Suc i) rs = [] then rs ! i else last (drop (Suc i) rs)) = last rs"
    using assms(2) hd(1) by (cases "drop (Suc i) rs = []") (auto simp: last_drop)
  have h: "fst (tail_breaks H 0 (tl_chain (rs ! i)) (drop (Suc i) rs)) = tl_chain (last rs)"
    unfolding tail using last by (auto split: if_splits)
  have ne: "rs \<noteq> []" using assms(2) by auto
  have "tl_chain (last rs) \<noteq> []" using assms(3) ne by auto
  then show ?thesis
    using assms(1,2) h ne tail
    by (simp add: verify_proof_offline_def build_proof_def Let_def case_prod_beta chain_of_def
        head_of_def sound_def)
qed

lemma shape_chain:
  assumes "shape_error r = Inr ()"
  shows "tl_chain r \<noteq> []"
proof -
  have "is_hex64 (tl_chain r)" using assms by (simp add: shape_error_def split: if_splits)
  then show ?thesis by (auto simp: is_hex64_def)
qed

text \<open>A proof built from a sound log verifies against every sound log that extends it. What
  the live check accepts is in the log: the record stands at the sequence number the proof claims
  and the head is the digest at the length it claims. Offline, however, nothing ties the claimed
  number to the record: a proof verifies with its number and length shifted by any amount.\<close>

theorem proofs_of_sound_logs:
  assumes "sound H (rs @ ts)" "i < length rs" "\<forall>r\<in>set (rs @ ts). shape_error r = Inr ()"
  shows "verify_proof_live H (build_proof rs i) (rs @ ts) = []
    \<and> verify_proof_offline H (build_proof rs i\<lparr>p_seq := seq_of (rs ! i) + d,
        p_length := int (length rs) + d\<rparr>) = []
    \<and> (verify_proof_live H pf (rs @ ts) = [] \<longrightarrow>
        1 \<le> p_seq pf \<and> p_seq pf \<le> int (length (rs @ ts))
        \<and> p_record pf = (rs @ ts) ! nat (p_seq pf - 1)
        \<and> p_head pf = tl_chain ((rs @ ts) ! nat (p_length pf - 1)))"
proof (intro conjI impI)
  have ne: "\<forall>r\<in>set (rs @ ts). tl_chain r \<noteq> []"
    using assms(3) shape_chain by blast
  have rs: "sound H rs" using assms(1) by (simp add: sound_iff sound_from_append)
  have off: "verify_proof_offline H (build_proof rs i) = []"
    using proof_offline_ok [OF rs assms(2)] ne by simp
  then show "verify_proof_offline H (build_proof rs i\<lparr>p_seq := seq_of (rs ! i) + d,
        p_length := int (length rs) + d\<rparr>) = []"
    by (simp add: verify_proof_offline_def build_proof_def Let_def case_prod_beta)
  have s: "seq_of (rs ! i) = int i + 1" using rs assms(2) by (simp add: sound_def)
  have f: "find (\<lambda>r. seq_of r = int i + 1) (rs @ ts) = Some (rs ! i)"
    using find_seq [OF assms(1), of "int i + 1"] assms(2) by (simp add: nth_append)
  have "map_of (heads_of (rs @ ts)) (int (length rs)) = Some (head_of rs)"
  proof -
    have "rs \<noteq> []" "nat (int (length rs) - 1) = length rs - 1" "1 \<le> int (length rs)"
      using assms(2) by (auto simp: Suc_le_eq nat_diff_distrib)
    then show ?thesis
      using heads_of_lookup [OF assms(1), of "int (length rs)"]
      by (simp add: head_of_def last_conv_nth nth_append)
  qed
  then show "verify_proof_live H (build_proof rs i) (rs @ ts) = []"
    using off s f by (simp add: verify_proof_live_def build_proof_def)
next
  assume live: "verify_proof_live H pf (rs @ ts) = []"
  have found: "find (\<lambda>r. seq_of r = p_seq pf) (rs @ ts) = Some (p_record pf)"
    "map_of (heads_of (rs @ ts)) (p_length pf) = Some (p_head pf)"
    using live by (auto simp: verify_proof_live_def Let_def split: if_splits option.splits)
  show "1 \<le> p_seq pf" "p_seq pf \<le> int (length (rs @ ts))"
    "p_record pf = (rs @ ts) ! nat (p_seq pf - 1)"
    using found(1) unfolding find_seq [OF assms(1)] by (auto split: if_splits)
  show "p_head pf = tl_chain ((rs @ ts) ! nat (p_length pf - 1))"
    using found(2) unfolding heads_of_lookup [OF assms(1)] by simp
qed

lemma proofs_of_sound_logs_witness:
  "verify_proof_live (\<lambda>p b. GENESIS) (build_proof
     (transparency_log_append (\<lambda>p b. GENESIS) 7 None ''a'' []) 0)
     (transparency_log_append (\<lambda>p b. GENESIS) 7 None ''a'' [] @ []) = []"
proof -
  let ?l = "transparency_log_append (\<lambda>p b. GENESIS) 7 None ''a'' []"
  have "sound (\<lambda>p b. GENESIS) (?l @ [])"
    using append_sound [of "\<lambda>p b. GENESIS" "[]" 7 None "''a''"] by (simp add: sound_def)
  moreover have "0 < length ?l" by (simp add: transparency_log_append_def)
  moreover have "is_hex64 GENESIS" by (simp add: is_hex64_def GENESIS_def list_all_iff)
  then have "\<forall>r\<in>set (?l @ []). shape_error r = Inr ()"
    by (simp add: transparency_log_append_def build_chained_record_def Let_def shape_error_def head_of_def)
  ultimately show ?thesis using proofs_of_sound_logs by blast
qed

end
