(* ===== verification/Lexer.thy ===== *)
theory Lexer
  imports PyText
begin

text \<open>
  The lexer (src/tools/hlinterp/lexer.py). Source text is a byte string; the index into it is the
  suffix still to be read, with the line and column of its first byte. One iteration of the main
  loop is \<open>lex_step\<close>, one function per class of lexeme; \<open>tokenize\<close> repeats it.

  \<open>fl\<close> stands for Python's \<open>float(text)\<close> on a literal: the bits of the value, \<open>None\<close> when it
  overflows to infinity. An error carries its message as a constructor of \<open>lex_msg\<close> and its place.
\<close>

section \<open>Tokens and errors\<close>

datatype tokval =
    TKw string
  | TIdent string
  | TInt nat bytes
  | TFloat "64 word" bytes
  | TStr bytes
  | TSym string
  | TEof

record token =
  t_val :: tokval
  t_line :: nat
  t_col :: nat

abbreviation tok :: "tokval \<Rightarrow> nat \<Rightarrow> nat \<Rightarrow> token" where
  "tok v l c \<equiv> \<lparr>t_val = v, t_line = l, t_col = c\<rparr>"

datatype lex_msg =
    BadLiteral string
  | FloatOverflow string
  | IntTooLong nat
  | IntOutOfRange string
  | UnterminatedString
  | BadEscape "8 word"
  | ControlChar
  | InvalidChar "8 word"

type_synonym lex_error = "lex_msg \<times> nat \<times> nat"

text \<open>The suffix to read and its place.\<close>

type_synonym lex_state = "bytes \<times> nat \<times> nat"

definition KEYWORDS :: "string list" where
  "KEYWORDS = [''fn'', ''let'', ''mut'', ''return'', ''if'', ''else'', ''while'', ''for'', ''in'',
     ''break'', ''continue'', ''struct'', ''impl'', ''import'', ''uses'', ''true'', ''false'',
     ''enum'', ''match'', ''pure'', ''extern'', ''requires'', ''ensures'', ''asm'', ''where'']"

definition TWO_CHAR :: "string list" where
  "TWO_CHAR = [''->'', ''=='', ''!='', ''<='', ''>='', ''&&'', ''||'', ''=>'']"

definition ONE_CHAR :: string where
  "ONE_CHAR = ''(){}[],:.<>+-*/%!=?''"

definition is_ident_start :: "8 word \<Rightarrow> bool" where
  "is_ident_start c \<longleftrightarrow> (65 \<le> c \<and> c \<le> 90) \<or> (97 \<le> c \<and> c \<le> 122) \<or> c = 95"

definition is_dec :: "8 word \<Rightarrow> bool" where
  "is_dec c \<longleftrightarrow> 48 \<le> c \<and> c \<le> 57"

definition is_ident_char :: "8 word \<Rightarrow> bool" where
  "is_ident_char c \<longleftrightarrow> is_ident_start c \<or> is_dec c"

definition decode :: "bytes \<Rightarrow> string" where
  "decode bs = map (\<lambda>b. char_of (unat b)) bs"

section \<open>The classes of lexemes\<close>

definition is_blank :: "8 word \<Rightarrow> bool" where
  "is_blank c \<longleftrightarrow> c = 32 \<or> c = 9 \<or> c = 13 \<or> c = 10"

definition lex_space :: "8 word \<Rightarrow> bytes \<Rightarrow> nat \<Rightarrow> nat \<Rightarrow> lex_state" where
  "lex_space c s line col =
     (if c = 10 then (s, line + 1, 1)
      else if c = 13
      then (if s \<noteq> [] \<and> hd s = 10 then (s, line, col + 1) else (s, line + 1, 1))
      else (s, line, col + 1))"

text \<open>After \<open>#\<close>: an attribute opener gives its symbols, anything else is a comment up to the end
  of the line.\<close>

definition lex_hash :: "bytes \<Rightarrow> nat \<Rightarrow> nat \<Rightarrow> token list \<times> lex_state" where
  "lex_hash s line col =
     (if take 1 s = [91] then ([tok (TSym ''#'') line col], s, line, col + 1)
      else if take 2 s = [33, 91]
      then ([tok (TSym ''#'') line col, tok (TSym ''!'') line (col + 1)], drop 1 s, line, col + 2)
      else (let body = takeWhile (\<lambda>c. c \<noteq> 10 \<and> c \<noteq> 13) s
            in ([], drop (length body) s, line, col + 1 + length body)))"

definition lex_word :: "bytes \<Rightarrow> nat \<Rightarrow> nat \<Rightarrow> token \<times> lex_state" where
  "lex_word s line col =
     (let w = takeWhile is_ident_char s; word = decode w
      in (tok (if word \<in> set KEYWORDS then TKw word else TIdent word) line col,
          drop (length w) s, line, col + length w))"

text \<open>The extent of a number: the integer part, the fraction, the exponent.\<close>

definition num_char :: "8 word \<Rightarrow> bool" where
  "num_char c \<longleftrightarrow> is_dec c \<or> c = 95"

definition digits_next :: "bytes \<Rightarrow> bool" where
  "digits_next s \<longleftrightarrow> s \<noteq> [] \<and> is_dec (hd s)"

definition scan_fraction :: "bytes \<Rightarrow> bytes" where
  "scan_fraction s =
     (if take 1 s = [46] \<and> digits_next (drop 1 s) then 46 # takeWhile num_char (drop 1 s) else [])"

definition scan_exponent :: "bytes \<Rightarrow> bytes" where
  "scan_exponent s =
     (if take 1 s = [101] \<or> take 1 s = [69]
      then (let sg = (if take 1 (drop 1 s) = [43] \<or> take 1 (drop 1 s) = [45]
                      then take 1 (drop 1 s) else []);
                ds = drop (1 + length sg) s
            in if digits_next ds then take 1 s @ sg @ takeWhile num_char ds else [])
      else [])"

definition scan_number :: "bytes \<Rightarrow> bytes \<times> bool" where
  "scan_number s =
     (let a = takeWhile num_char s;
          b = scan_fraction (drop (length a) s);
          c = scan_exponent (drop (length (a @ b)) s)
      in (a @ b @ c, b \<noteq> [] \<or> c \<noteq> []))"

definition number_value ::
  "(string \<Rightarrow> 64 word option) \<Rightarrow> bytes \<Rightarrow> bool \<Rightarrow> lex_msg + tokval" where
  "number_value fl raw is_float =
     (let text = decode (filter (\<lambda>c. c \<noteq> 95) raw)
      in if is_float
         then (case fl text of
                 None \<Rightarrow> Inl (FloatOverflow (decode raw))
               | Some v \<Rightarrow> Inr (TFloat v raw))
         else if length text > 4300 then Inl (IntTooLong (length text))
         else if int_of text > 9223372036854775808 then Inl (IntOutOfRange (decode raw))
         else Inr (TInt (int_of text) raw))"

definition lex_number ::
  "(string \<Rightarrow> 64 word option) \<Rightarrow> bytes \<Rightarrow> nat \<Rightarrow> nat \<Rightarrow> lex_error + token \<times> lex_state" where
  "lex_number fl s line col =
     (case scan_number s of (raw, is_float) \<Rightarrow>
        let r = drop (length raw) s
        in if r \<noteq> [] \<and> is_ident_start (hd r)
           then Inl (BadLiteral (decode (raw @ takeWhile is_ident_char r)), line, col)
           else case number_value fl raw is_float of
               Inl e \<Rightarrow> Inl (e, line, col)
             | Inr v \<Rightarrow> Inr (tok v line col, r, line, col + length raw))"

definition unescape :: "8 word \<Rightarrow> 8 word option" where
  "unescape e =
     (if e = 110 then Some 10 else if e = 116 then Some 9
      else if e = 92 then Some 92 else if e = 34 then Some 34 else None)"

definition consE :: "'a \<Rightarrow> 'e + 'a list \<times> 'b \<Rightarrow> 'e + 'a list \<times> 'b" where
  "consE b r = bindE r (\<lambda>(bs, st). Inr (b # bs, st))"

text \<open>The body of a string after its opening quote; \<open>ln\<close> and \<open>cl\<close> are the quote's place.\<close>

fun lex_string ::
  "nat \<Rightarrow> nat \<Rightarrow> bytes \<Rightarrow> nat \<Rightarrow> nat \<Rightarrow> lex_error + bytes \<times> lex_state" where
  "lex_string ln cl [] line col = Inl (UnterminatedString, ln, cl)"
| "lex_string ln cl [ch] line col =
     (if ch = 34 then Inr ([], [], line, col + 1)
      else if ch = 92 then Inl (UnterminatedString, ln, cl)
      else if ch < 32 then Inl (ControlChar, line, col)
      else consE ch (lex_string ln cl [] line (col + 1)))"
| "lex_string ln cl (ch # e # s) line col =
     (if ch = 34 then Inr ([], e # s, line, col + 1)
      else if ch = 92
      then (case unescape e of
              None \<Rightarrow> Inl (BadEscape e, line, col)
            | Some b \<Rightarrow> consE b (lex_string ln cl s line (col + 2)))
      else if ch < 32 then Inl (ControlChar, line, col)
      else consE ch (lex_string ln cl (e # s) line (col + 1)))"

definition lex_symbol :: "bytes \<Rightarrow> nat \<Rightarrow> nat \<Rightarrow> lex_error + token \<times> lex_state" where
  "lex_symbol s line col =
     (let two = decode (take 2 s); one = decode (take 1 s)
      in if two \<in> set TWO_CHAR then Inr (tok (TSym two) line col, drop 2 s, line, col + 2)
         else if hd one \<in> set ONE_CHAR
         then Inr (tok (TSym one) line col, drop 1 s, line, col + 1)
         else Inl (InvalidChar (hd s), line, col))"

section \<open>The loop\<close>

definition lex_step ::
  "(string \<Rightarrow> 64 word option) \<Rightarrow> 8 word \<Rightarrow> bytes \<Rightarrow> nat \<Rightarrow> nat \<Rightarrow> lex_error + token list \<times> lex_state"
where
  "lex_step fl c s line col =
     (if is_blank c then Inr ([], lex_space c s line col)
      else if c = 35 then Inr (lex_hash s line col)
      else if is_ident_start c then (case lex_word (c # s) line col of (t, st) \<Rightarrow> Inr ([t], st))
      else if is_dec c then bindE (lex_number fl (c # s) line col) (\<lambda>(t, st). Inr ([t], st))
      else if c = 34
      then bindE (lex_string line col s line (col + 1))
             (\<lambda>(bs, st). Inr ([tok (TStr bs) line col], st))
      else bindE (lex_symbol (c # s) line col) (\<lambda>(t, st). Inr ([t], st)))"

lemma is_ident_start_char: "is_ident_start c \<Longrightarrow> is_ident_char c"
  by (simp add: is_ident_char_def)

lemma consE_Inr: "consE b r = Inr (cs, st) \<longleftrightarrow> (\<exists>bs. cs = b # bs \<and> r = Inr (bs, st))"
  by (cases r) (auto simp: consE_def)

lemma lex_string_shorter:
  "lex_string ln cl s line col = Inr (bs, s', l', c') \<Longrightarrow> length s' < length s"
  by (induction ln cl s line col arbitrary: bs rule: lex_string.induct)
    (auto simp: consE_Inr split: if_splits option.splits intro: less_SucI)

lemma scan_number_not_Nil: "is_dec c \<Longrightarrow> fst (scan_number (c # s)) \<noteq> []"
  by (simp add: scan_number_def num_char_def Let_def)

lemma lex_step_shorter:
  assumes "lex_step fl c s line col = Inr (ts, s', l', c')"
  shows "length s' \<le> length s"
proof -
  consider "is_blank c \<or> c = 35"
    | "\<not> is_blank c" "c \<noteq> 35" "is_ident_start c"
    | "\<not> is_blank c" "c \<noteq> 35" "\<not> is_ident_start c" "is_dec c"
    | "\<not> is_blank c" "c \<noteq> 35" "\<not> is_ident_start c" "\<not> is_dec c" "c = 34"
    | "\<not> is_blank c" "c \<noteq> 35" "\<not> is_ident_start c" "\<not> is_dec c" "c \<noteq> 34"
    by blast
  then show ?thesis
  proof cases
    case 1
    then show ?thesis
      using assms by (auto simp: lex_step_def lex_space_def lex_hash_def Let_def split: if_splits)
  next
    case 2
    then show ?thesis
      using assms is_ident_start_char [of c] by (auto simp: lex_step_def lex_word_def Let_def)
  next
    case 3
    then obtain raw f where "scan_number (c # s) = (raw, f)" "raw \<noteq> []" "s' = drop (length raw) (c # s)"
      using assms scan_number_not_Nil [of c s]
      by (auto simp: lex_step_def lex_number_def bindE_eq_Inr Let_def split: prod.splits if_splits sum.splits)
    then show ?thesis by (cases raw) auto
  next
    case 4
    then show ?thesis
      using assms lex_string_shorter by (fastforce simp: lex_step_def bindE_eq_Inr is_blank_def)
  next
    case 5
    then show ?thesis
      using assms by (auto simp: lex_step_def bindE_eq_Inr lex_symbol_def Let_def split: if_splits)
  qed
qed

function (sequential) lex_go ::
  "(string \<Rightarrow> 64 word option) \<Rightarrow> bytes \<Rightarrow> nat \<Rightarrow> nat \<Rightarrow> lex_error + token list" where
  "lex_go fl [] line col = Inr [tok TEof line col]"
| "lex_go fl (c # s) line col =
     (case lex_step fl c s line col of
        Inl e \<Rightarrow> Inl e
      | Inr (ts, s', l', c') \<Rightarrow> bindE (lex_go fl s' l' c') (\<lambda>us. Inr (ts @ us)))"
  by pat_completeness auto
termination
  by (relation "measure (\<lambda>(fl, s, l, c). length s)") (auto dest: lex_step_shorter)

definition tokenize :: "(string \<Rightarrow> 64 word option) \<Rightarrow> bytes \<Rightarrow> lex_error + token list" where
  "tokenize fl src = lex_go fl src 1 1"

end
