(* ===== verification/LexerProps.thy ===== *)
theory LexerProps
  imports Lexer
begin

text \<open>
  What the lexer guarantees: it always returns (its loop is a total function), every token it
  produces has the shape its kind promises, and printing the tokens' source text separated by
  blanks and lexing it again gives the same tokens back.
\<close>

section \<open>Text and bytes\<close>

definition encode :: "string \<Rightarrow> bytes" where
  "encode s = map (\<lambda>c. word_of_nat (code_of c)) s"

lemma code_of_less [simp]: "code_of c < 256"
  using nat_of_char_less_256 by (simp add: code_of_def)

lemma decode_encode [simp]: "decode (encode s) = s"
  by (induction s) (simp_all add: decode_def encode_def unat_of_nat take_bit_nat_eq_self)

lemma encode_decode [simp]: "encode (decode b) = b"
proof (induction b)
  case (Cons x b)
  have "unat x < 256" using unsigned_less [of x] by simp
  then show ?case using Cons by (simp add: decode_def encode_def)
qed (simp add: decode_def encode_def)

lemma encode_simps [simp]: "encode [] = []" "encode (c # s) = word_of_nat (code_of c) # encode s"
  by (simp_all add: encode_def)

lemma length_encode [simp]: "length (encode s) = length s"
  by (simp add: encode_def)

lemma encode_eq_Nil [simp]: "encode s = [] \<longleftrightarrow> s = []"
  by (simp add: encode_def)

lemma length_decode [simp]: "length (decode s) = length s"
  by (simp add: decode_def)

lemma decode_append: "decode (a @ b) = decode a @ decode b"
  by (simp add: decode_def)

section \<open>Scanning a number twice\<close>

definition stops :: "(8 word \<Rightarrow> bool) \<Rightarrow> bytes \<Rightarrow> bool" where
  "stops P r \<longleftrightarrow> r = [] \<or> \<not> P (hd r)"

lemma takeWhile_stops: "list_all P a \<Longrightarrow> stops P r \<Longrightarrow> takeWhile P (a @ r) = a"
  by (auto simp: stops_def intro: takeWhile_run)

lemma takeWhile_all: "list_all P (takeWhile P s)"
  by (induction s) auto

definition fraction :: "bytes \<Rightarrow> bool" where
  "fraction b \<longleftrightarrow> (\<exists>d ds. b = 46 # d # ds \<and> is_dec d \<and> list_all num_char ds)"

definition exponent :: "bytes \<Rightarrow> bool" where
  "exponent c \<longleftrightarrow> (\<exists>e sg d ds. c = e # sg @ d # ds \<and> (e = 101 \<or> e = 69)
     \<and> (sg = [] \<or> sg = [43] \<or> sg = [45]) \<and> is_dec d \<and> list_all num_char ds)"

lemma word_facts [simp]:
  "\<not> num_char 46" "\<not> num_char 101" "\<not> num_char 69" "\<not> num_char 32" "\<not> num_char 34" "\<not> num_char 35"
  "\<not> is_dec 43" "\<not> is_dec 45" "\<not> is_dec 32" "\<not> is_dec 34" "\<not> is_dec 35"
  "\<not> is_ident_start 32" "\<not> is_ident_char 32" "\<not> is_ident_start 34" "\<not> is_ident_start 35"
  by (simp_all add: num_char_def is_dec_def is_ident_start_def is_ident_char_def)

lemma is_dec_num: "is_dec d \<Longrightarrow> num_char d"
  by (simp add: num_char_def)

lemma digits_nextE: "digits_next s \<Longrightarrow> \<exists>d ds. takeWhile num_char s = d # ds \<and> is_dec d \<and> list_all num_char ds"
  using takeWhile_all by (cases s) (auto simp: digits_next_def is_dec_num)

lemma scan_fraction_shape: "scan_fraction s = [] \<or> fraction (scan_fraction s)"
  using digits_nextE [of "drop 1 s"] by (auto simp: scan_fraction_def fraction_def)

lemma scan_exponent_shape: "scan_exponent s = [] \<or> exponent (scan_exponent s)"
proof (cases "scan_exponent s = []")
  case False
  define sg where "sg = (if take 1 (drop 1 s) = [43] \<or> take 1 (drop 1 s) = [45]
    then take 1 (drop 1 s) else [])"
  have e: "take 1 s = [101] \<or> take 1 s = [69]" "digits_next (drop (1 + length sg) s)"
    "scan_exponent s = take 1 s @ sg @ takeWhile num_char (drop (1 + length sg) s)"
    using False unfolding scan_exponent_def sg_def [symmetric]
    by (auto simp: Let_def split: if_splits)
  from digits_nextE [OF e(2)] obtain d ds
    where d: "takeWhile num_char (drop (1 + length sg) s) = d # ds" "is_dec d" "list_all num_char ds"
    by blast
  have "sg = [] \<or> sg = [43] \<or> sg = [45]" by (auto simp: sg_def)
  then show ?thesis using e(1,3) d unfolding exponent_def by (metis append_Cons append_Nil)
qed simp

lemma scan_fraction_again:
  "fraction b \<Longrightarrow> stops num_char r \<Longrightarrow> scan_fraction (b @ r) = b"
  using takeWhile_stops [of num_char _ r]
  by (auto simp: fraction_def scan_fraction_def digits_next_def is_dec_num)

lemma scan_exponent_again:
  assumes "exponent c" "stops num_char r"
  shows "scan_exponent (c @ r) = c"
proof -
  obtain e sg d ds where c: "c = e # sg @ d # ds" "e = 101 \<or> e = 69" "sg = [] \<or> sg = [43] \<or> sg = [45]"
    "is_dec d" "list_all num_char ds"
    using assms(1) unfolding exponent_def by blast
  have "d \<noteq> 43" "d \<noteq> 45" using c(4) word_facts by metis+
  moreover have "takeWhile num_char (ds @ r) = ds" by (rule takeWhile_stops [OF c(5) assms(2)])
  ultimately show ?thesis
    using c by (auto simp: scan_exponent_def Let_def digits_next_def is_dec_num)
qed

lemma scan_fraction_other: "x \<noteq> 46 \<Longrightarrow> scan_fraction (x # s) = []"
  by (simp add: scan_fraction_def)

lemma scan_number_again:
  assumes "scan_number s = (raw, f)"
  shows "scan_number (raw @ 32 # t) = (raw, f)"
proof -
  define a where "a = takeWhile num_char s"
  define b where "b = scan_fraction (drop (length a) s)"
  define c where "c = scan_exponent (drop (length (a @ b)) s)"
  have raw: "raw = a @ b @ c" "f \<longleftrightarrow> b \<noteq> [] \<or> c \<noteq> []"
    using assms by (auto simp: scan_number_def a_def b_def c_def Let_def)
  have b: "b = [] \<or> fraction b" unfolding b_def by (rule scan_fraction_shape)
  have c: "c = [] \<or> exponent c" unfolding c_def by (rule scan_exponent_shape)
  have sc: "stops num_char (c @ 32 # t)" using c by (auto simp: stops_def exponent_def)
  have sb: "stops num_char (b @ c @ 32 # t)" using b sc by (auto simp: stops_def fraction_def)
  have 1: "takeWhile num_char (a @ b @ c @ 32 # t) = a"
    by (rule takeWhile_stops [OF _ sb]) (simp add: a_def takeWhile_all)
  have 2: "scan_fraction (b @ c @ 32 # t) = b"
    using b scan_fraction_again [OF _ sc] c
    by (auto simp: scan_fraction_other exponent_def)
  have 3: "scan_exponent (c @ 32 # t) = c"
    using c scan_exponent_again [of c "32 # t"] by (auto simp: stops_def scan_exponent_def [of "32 # t"])
  show ?thesis using 1 2 3 raw by (simp add: scan_number_def Let_def)
qed

section \<open>Tokens that can be printed\<close>

definition escape :: "8 word \<Rightarrow> bytes" where
  "escape b =
     (if b = 10 then [92, 110] else if b = 9 then [92, 116]
      else if b = 92 then [92, 92] else if b = 34 then [92, 34] else [b])"

fun render :: "tokval \<Rightarrow> bytes" where
  "render (TKw w) = encode w"
| "render (TIdent w) = encode w"
| "render (TInt n raw) = raw"
| "render (TFloat v raw) = raw"
| "render (TStr bs) = 34 # concat (map escape bs) @ [34]"
| "render (TSym s) = encode s"
| "render TEof = []"

definition word_shape :: "string \<Rightarrow> bool" where
  "word_shape w \<longleftrightarrow> w \<noteq> [] \<and> is_ident_start (hd (encode w)) \<and> list_all is_ident_char (encode w)"

text \<open>What the kind of a token promises of its value.\<close>

fun tok_ok :: "(string \<Rightarrow> 64 word option) \<Rightarrow> tokval \<Rightarrow> bool" where
  "tok_ok fl (TKw w) = (w \<in> set KEYWORDS \<and> word_shape w)"
| "tok_ok fl (TIdent w) = (w \<notin> set KEYWORDS \<and> word_shape w)"
| "tok_ok fl (TInt n raw) =
     (n \<le> 2 ^ 63 \<and> digits_next raw \<and> (\<exists>s. scan_number s = (raw, False)) \<and> number_value fl raw False = Inr (TInt n raw))"
| "tok_ok fl (TFloat v raw) =
     (digits_next raw \<and> (\<exists>s. scan_number s = (raw, True)) \<and> number_value fl raw True = Inr (TFloat v raw))"
| "tok_ok fl (TStr bs) = list_all (\<lambda>b. 32 \<le> b \<or> b = 10 \<or> b = 9) bs"
| "tok_ok fl (TSym s) = (s \<in> set TWO_CHAR \<or> s = ''#'' \<or> (\<exists>x\<in>set ONE_CHAR. s = [x]))"
| "tok_ok fl TEof = True"

lemma lex_string_chars:
  "lex_string ln cl s line col = Inr (bs, st) \<Longrightarrow> list_all (\<lambda>b. 32 \<le> b \<or> b = 10 \<or> b = 9) bs"
  by (induction ln cl s line col arbitrary: bs rule: lex_string.induct)
    (auto simp: consE_Inr unescape_def not_less split: if_splits option.splits)

lemma scan_number_starts:
  assumes "is_dec c" "scan_number (c # s) = (raw, f)"
  shows "digits_next raw"
  using assms by (auto simp: scan_number_def Let_def digits_next_def is_dec_num)

lemma number_value_ok:
  "digits_next raw \<Longrightarrow> scan_number s = (raw, f) \<Longrightarrow> number_value fl raw f = Inr v \<Longrightarrow>
   tok_ok fl v \<and> v \<noteq> TEof"
  by (cases f) (auto simp: number_value_def Let_def not_less split: option.splits if_splits)

lemma lex_number_ok:
  assumes "is_dec c" "lex_number fl (c # s) line col = Inr (t, st)"
  shows "tok_ok fl (t_val t) \<and> t_val t \<noteq> TEof"
proof -
  obtain raw f where n: "scan_number (c # s) = (raw, f)" "number_value fl raw f = Inr (t_val t)"
    using assms(2)
    by (auto simp: lex_number_def Let_def split: prod.splits if_splits sum.splits)
  show ?thesis by (rule number_value_ok [OF scan_number_starts [OF assms(1) n(1)] n])
qed

lemma lex_word_ok:
  assumes "is_ident_start c"
  shows "tok_ok fl (t_val (fst (lex_word (c # s) line col))) \<and> t_val (fst (lex_word (c # s) line col)) \<noteq> TEof"
proof -
  have "word_shape (decode (takeWhile is_ident_char (c # s)))"
    using assms is_ident_start_char [OF assms] takeWhile_all [of is_ident_char "c # s"]
    by (simp add: word_shape_def) (simp add: decode_def)
  then show ?thesis by (simp add: lex_word_def Let_def)
qed

lemma lex_step_ok:
  assumes "lex_step fl c s line col = Inr (ts, st)"
  shows "\<forall>t\<in>set ts. tok_ok fl (t_val t) \<and> t_val t \<noteq> TEof"
proof -
  have sym: "tok_ok fl (t_val t) \<and> t_val t \<noteq> TEof" if "lex_symbol (c # s) line col = Inr (t, st)" for t
    using that by (auto simp: lex_symbol_def decode_def Let_def split: if_splits)
  show ?thesis
    using assms sym lex_number_ok lex_word_ok [of c fl s line col] lex_string_chars
    by (auto simp: lex_step_def lex_hash_def bindE_eq_Inr Let_def ONE_CHAR_def split: if_splits prod.splits)
qed

lemma lex_go_ok:
  "lex_go fl s line col = Inr ts \<Longrightarrow>
   \<exists>us l c. ts = us @ [tok TEof l c] \<and> (\<forall>t\<in>set us. tok_ok fl (t_val t) \<and> t_val t \<noteq> TEof)"
proof (induction fl s line col arbitrary: ts rule: lex_go.induct)
  case (2 fl c s line col)
  then obtain vs s' l' c' ws where v: "lex_step fl c s line col = Inr (vs, s', l', c')"
    "lex_go fl s' l' c' = Inr ws" "ts = vs @ ws"
    by (auto simp: bindE_eq_Inr split: sum.splits)
  from "2.IH" [OF v(1) refl refl refl v(2)] lex_step_ok [OF v(1)]
  show ?case unfolding v(3) by (metis Un_iff append_assoc set_append)
qed simp

section \<open>Printing and lexing again\<close>

lemma ident_start_facts: "is_ident_start c \<Longrightarrow> \<not> is_blank c \<and> c \<noteq> 35"
  by (auto simp: is_blank_def is_ident_start_def)

lemma dec_facts: "is_dec c \<Longrightarrow> \<not> is_blank c \<and> c \<noteq> 35 \<and> \<not> is_ident_start c"
  by (auto simp: is_blank_def is_ident_start_def is_dec_def word_le_nat_alt)

lemma relex_word:
  assumes "word_shape w" "v = (if w \<in> set KEYWORDS then TKw w else TIdent w)"
  shows "\<exists>c s. encode w = c # s \<and>
    lex_step fl c (s @ 32 # rest) line col = Inr ([tok v line col], 32 # rest, line, col + length w)"
proof -
  obtain c s where w: "encode w = c # s" "is_ident_start c" "list_all is_ident_char (c # s)"
    using assms(1) by (cases "encode w") (auto simp: word_shape_def)
  have "takeWhile is_ident_char ((c # s) @ 32 # rest) = c # s"
    by (rule takeWhile_stops [OF w(3)]) (simp add: stops_def)
  moreover have "decode (c # s) = w" "length (c # s) = length w"
    using w(1) decode_encode [of w] length_encode [of w] by simp_all
  moreover from this have "drop (length w) (c # s @ 32 # rest) = 32 # rest" by (cases w) auto
  ultimately have "lex_word (c # s @ 32 # rest) line col = (tok v line col, 32 # rest, line, col + length w)"
    using assms(2) by (simp add: lex_word_def Let_def)
  then show ?thesis using w ident_start_facts [OF w(2)] by (simp add: lex_step_def)
qed

lemma relex_number:
  assumes "digits_next raw" "scan_number s = (raw, f)" "number_value fl raw f = Inr v"
  shows "\<exists>c s. raw = c # s \<and>
    lex_step fl c (s @ 32 # rest) line col = Inr ([tok v line col], 32 # rest, line, col + length raw)"
proof -
  obtain c s where r: "raw = c # s" "is_dec c"
    using assms(1) by (cases raw) (auto simp: digits_next_def)
  have "scan_number (c # s @ 32 # rest) = (raw, f)"
    using scan_number_again [OF assms(2), of rest] r(1) by simp
  then have "lex_number fl (c # s @ 32 # rest) line col = Inr (tok v line col, 32 # rest, line, col + length raw)"
    using assms(3) r(1) by (simp add: lex_number_def)
  then show ?thesis using r dec_facts [OF r(2)] by (simp add: lex_step_def)
qed

lemma lex_string_Cons:
  "ch \<noteq> 34 \<Longrightarrow> ch \<noteq> 92 \<Longrightarrow> \<not> ch < 32 \<Longrightarrow>
   lex_string ln cl (ch # s) line col = consE ch (lex_string ln cl s line (col + 1))"
  by (cases s) auto

lemma lex_string_quote: "lex_string ln cl (34 # s) line col = Inr ([], s, line, col + 1)"
  by (cases s) auto

lemma lex_string_escape:
  "unescape e = Some b \<Longrightarrow>
   lex_string ln cl (92 # e # s) line col = consE b (lex_string ln cl s line (col + 2))"
  by simp

lemma consE_ok [simp]: "consE b (Inr (bs, st)) = Inr (b # bs, st)"
  by (simp add: consE_def)

lemma relex_string:
  "list_all (\<lambda>b. 32 \<le> b \<or> b = 10 \<or> b = 9) bs \<Longrightarrow>
   lex_string ln cl (concat (map escape bs) @ 34 # rest) line col
   = Inr (bs, rest, line, col + length (concat (map escape bs)) + 1)"
proof (induction bs arbitrary: col)
  case (Cons b bs)
  consider "b = 10" | "b = 9" | "b = 92" | "b = 34" | "32 \<le> b" "b \<noteq> 92" "b \<noteq> 34" "b \<noteq> 10" "b \<noteq> 9"
    using Cons.prems by auto
  then show ?case
    using Cons
    by cases (simp_all add: escape_def lex_string_Cons lex_string_escape unescape_def not_less
        del: lex_string.simps)
qed (simp add: lex_string_quote del: lex_string.simps)

lemma relex_two:
  assumes "s \<in> set TWO_CHAR"
  shows "\<exists>c t. encode s = c # t \<and>
    lex_step fl c (t @ 32 # rest) line col = Inr ([tok (TSym s) line col], 32 # rest, line, col + 2)"
proof -
  have l: "length s = 2" using assms by (auto simp: TWO_CHAR_def)
  obtain c t where e: "encode s = c # t" using l by (cases "encode s") (auto simp flip: length_0_conv)
  have c: "\<not> is_blank c \<and> c \<noteq> 35 \<and> \<not> is_ident_start c \<and> \<not> is_dec c \<and> c \<noteq> 34"
    using assms e
    by (auto simp: TWO_CHAR_def code_of_def is_blank_def is_ident_start_def is_dec_def)
  have "length (c # t) = 2" using l e length_encode [of s] by simp
  then have "take 2 (c # t @ 32 # rest) = c # t" "drop 2 (c # t @ 32 # rest) = 32 # rest"
    by (auto simp: numeral_2_eq_2)
  moreover have "decode (c # t) = s" using e decode_encode [of s] by simp
  ultimately have "lex_symbol (c # t @ 32 # rest) line col = Inr (tok (TSym s) line col, 32 # rest, line, col + 2)"
    using assms by (simp add: lex_symbol_def Let_def)
  then show ?thesis using c e by (simp add: lex_step_def)
qed

lemma relex_one:
  assumes "x \<in> set ONE_CHAR"
  shows "\<exists>c. encode [x] = [c] \<and>
    lex_step fl c (32 # rest) line col = Inr ([tok (TSym [x]) line col], 32 # rest, line, col + 1)"
proof -
  let ?c = "word_of_nat (code_of x) :: 8 word"
  have c: "\<not> is_blank ?c \<and> ?c \<noteq> 35 \<and> \<not> is_ident_start ?c \<and> \<not> is_dec ?c \<and> ?c \<noteq> 34"
    using assms by (auto simp: ONE_CHAR_def code_of_def is_blank_def is_ident_start_def is_dec_def)
  have d: "decode [?c] = [x]" "decode [?c, 32] = [x, CHR '' '']"
    using decode_encode [of "[x]"] decode_encode [of "[x, CHR '' '']"] by (simp_all add: code_of_def)
  moreover have "[x, CHR '' ''] \<notin> set TWO_CHAR" by (auto simp: TWO_CHAR_def)
  ultimately have "lex_symbol (?c # 32 # rest) line col = Inr (tok (TSym [x]) line col, 32 # rest, line, col + 1)"
    using assms by (simp add: lex_symbol_def Let_def numeral_2_eq_2)
  then show ?thesis using c by (simp add: lex_step_def)
qed

lemma relex_step:
  assumes "tok_ok fl v" "v \<noteq> TEof" "v \<noteq> TSym ''#''"
  shows "\<exists>c s. render v = c # s \<and>
    lex_step fl c (s @ 32 # rest) line col
    = Inr ([tok v line col], 32 # rest, line, col + length (render v))"
proof (cases v)
  case (TStr bs)
  then have "lex_step fl 34 (concat (map escape bs) @ 34 # 32 # rest) line col
      = Inr ([tok v line col], 32 # rest, line, col + length (render v))"
    using assms(1) relex_string [of bs line col "32 # rest" line "col + 1"]
    by (simp add: lex_step_def is_blank_def is_dec_def)
  then show ?thesis using TStr by simp
next
  case (TSym s)
  then consider "s \<in> set TWO_CHAR" | x where "x \<in> set ONE_CHAR" "s = [x]" using assms(1,3) by auto
  then show ?thesis
  proof cases
    case 1
    then have "length s = 2" by (auto simp: TWO_CHAR_def)
    then show ?thesis using relex_two [OF 1, of fl rest line col] TSym by auto
  next
    case 2
    then show ?thesis using relex_one [OF 2(1), of fl rest line col] TSym by auto
  qed
next
  case (TKw w)
  then show ?thesis using assms(1) relex_word [of w v fl rest line col] by auto
next
  case (TIdent w)
  then show ?thesis using assms(1) relex_word [of w v fl rest line col] by auto
next
  case (TInt n raw)
  then show ?thesis using assms(1) relex_number [of raw _ False fl v rest line col] by auto
next
  case (TFloat n raw)
  then show ?thesis using assms(1) relex_number [of raw _ True fl v rest line col] by auto
next
  case TEof
  then show ?thesis using assms(2) by simp
qed

definition print_toks :: "tokval list \<Rightarrow> bytes" where
  "print_toks vs = concat (map (\<lambda>v. render v @ [32]) vs)"

text \<open>The tokens with the columns at which the printed text has them.\<close>

fun placed :: "nat \<Rightarrow> tokval list \<Rightarrow> token list" where
  "placed col [] = [tok TEof 1 col]"
| "placed col (v # vs) = tok v 1 col # placed (col + length (render v) + 1) vs"

lemma relex_go:
  "\<forall>v\<in>set vs. tok_ok fl v \<and> v \<noteq> TEof \<and> v \<noteq> TSym ''#'' \<Longrightarrow>
   lex_go fl (print_toks vs) 1 col = Inr (placed col vs)"
proof (induction vs arbitrary: col)
  case (Cons v vs)
  from relex_step [of fl v "print_toks vs" 1 col] Cons.prems
  obtain c s where c: "render v = c # s" "lex_step fl c (s @ 32 # print_toks vs) 1 col
      = Inr ([tok v 1 col], 32 # print_toks vs, 1, col + length (render v))"
    by auto
  have "lex_step fl 32 (print_toks vs) 1 (col + length (render v))
      = Inr ([], print_toks vs, 1, col + length (render v) + 1)"
    by (simp add: lex_step_def is_blank_def lex_space_def)
  then show ?case using c Cons by (simp add: print_toks_def)
qed (simp add: print_toks_def)

text \<open>C18. Lexing succeeds or fails on every input, and a successful run ends in the one
  end-of-file token after tokens of their kinds' shapes (integers up to 2^63, identifiers that are
  not keywords, string bytes that can be written). Printing those tokens' source text, each
  followed by a blank, and lexing it again gives the same tokens, at the columns where the print
  has them; only the attribute opener, which must touch what follows, is excluded.\<close>

theorem lexing_printed_tokens:
  assumes "tokenize fl src = Inr ts" "\<forall>t\<in>set ts. t_val t \<noteq> TSym ''#''"
  shows "t_val (last ts) = TEof \<and> (\<forall>t\<in>set (butlast ts). t_val t \<noteq> TEof \<and> tok_ok fl (t_val t))
    \<and> tokenize fl (print_toks (map t_val (butlast ts))) = Inr (placed 1 (map t_val (butlast ts)))"
proof -
  obtain us l c where ts: "ts = us @ [tok TEof l c]" "\<forall>t\<in>set us. tok_ok fl (t_val t) \<and> t_val t \<noteq> TEof"
    using assms(1) lex_go_ok unfolding tokenize_def by blast
  then have "lex_go fl (print_toks (map t_val us)) 1 1 = Inr (placed 1 (map t_val us))"
    using assms(2) by (intro relex_go) auto
  then show ?thesis using ts by (simp add: tokenize_def)
qed

lemma lexing_printed_tokens_witness:
  "tokenize (\<lambda>_. None) (print_toks [TKw ''let'', TIdent ''x'', TSym ''='', TStr [10, 65]])
   = Inr (placed 1 [TKw ''let'', TIdent ''x'', TSym ''='', TStr [10, 65]])"
proof -
  let ?vs = "[TKw ''let'', TIdent ''x'', TSym ''='', TStr [10, 65]]"
  have "\<forall>v\<in>set ?vs. tok_ok (\<lambda>_. None) v \<and> v \<noteq> TEof \<and> v \<noteq> TSym ''#''"
    by (simp add: word_shape_def KEYWORDS_def ONE_CHAR_def code_of_def is_ident_start_def is_ident_char_def)
  then have "tokenize (\<lambda>_. None) (print_toks ?vs) = Inr (placed 1 ?vs)"
    unfolding tokenize_def by (rule relex_go)
  from lexing_printed_tokens [OF this] show ?thesis by simp
qed

end
