(* ===== verification/TypeStr.thy ===== *)
theory TypeStr
  imports PyText
begin

text \<open>
  The type checker's helpers on types (src/tools/hlinterp/checking/helpers.py). A type is a text such
  as \<open>map[str, list[T]]\<close>; the wrappers' predicates and selectors, the splitting of an argument
  list, the instantiation of type parameters and the matching of a parameter type against an
  argument type work on the text itself. A dict of bindings is a map that is returned updated.
\<close>

section \<open>Wrappers\<close>

text \<open>\<open>t[k:-1]\<close>.\<close>

definition inner :: "nat \<Rightarrow> string \<Rightarrow> string" where
  "inner k t = butlast (drop k t)"

definition is_taint :: "string \<Rightarrow> bool" where "is_taint t = is_prefix ''tainted['' t"

definition taint_inner :: "string \<Rightarrow> string" where
  "taint_inner t = (if is_taint t then strip (inner 8 t) else t)"

definition is_list :: "string \<Rightarrow> bool" where "is_list t = is_prefix ''list['' t"

definition list_elem :: "string \<Rightarrow> string" where "list_elem t = inner 5 t"

definition is_map :: "string \<Rightarrow> bool" where "is_map t = is_prefix ''map[str, '' t"

definition map_val :: "string \<Rightarrow> string" where "map_val t = inner 9 t"

definition is_cap :: "string \<Rightarrow> bool" where "is_cap t = is_prefix ''Cap['' t"

definition cap_inner :: "string \<Rightarrow> string" where "cap_inner t = strip (inner 4 t)"

definition CAP_EFFECTS :: "string list" where
  "CAP_EFFECTS = [''IO'', ''Fs'', ''Clock'', ''Args'', ''Exit'', ''Net'', ''Rand'', ''Proc'', ''Conc'']"

definition is_effect_name :: "string \<Rightarrow> bool" where
  "is_effect_name e \<longleftrightarrow> e \<in> set CAP_EFFECTS"

definition cap_family_add :: "string list \<Rightarrow> string \<Rightarrow> string list" where
  "cap_family_add xs e =
     foldl (\<lambda>acc x. if x \<in> set acc then acc else acc @ [x]) xs
       (if e = ''IO'' then [''IO'', ''Fs'', ''Clock'', ''Args'', ''Exit''] else [e])"

definition is_chan :: "string \<Rightarrow> bool" where "is_chan t = is_prefix ''Chan['' t"

definition chan_inner :: "string \<Rightarrow> string" where "chan_inner t = inner 5 t"

definition is_task :: "string \<Rightarrow> bool" where "is_task t = is_prefix ''Task['' t"

definition task_inner :: "string \<Rightarrow> string" where "task_inner t = inner 5 t"

definition is_future :: "string \<Rightarrow> bool" where "is_future t = is_prefix ''Future['' t"

definition future_inner :: "string \<Rightarrow> string" where "future_inner t = inner 7 t"

definition is_stream :: "string \<Rightarrow> bool" where "is_stream t = is_prefix ''Stream['' t"

definition stream_inner :: "string \<Rightarrow> string" where "stream_inner t = inner 7 t"

section \<open>Bases and arguments\<close>

text \<open>The scan of \<open>split_type_args\<close>: the bracket depth and the current part, reversed.\<close>

fun split_scan :: "int \<Rightarrow> string \<Rightarrow> string \<Rightarrow> string list" where
  "split_scan d cur [] = [strip (rev cur)]"
| "split_scan d cur (c # s) =
     (if c = CHR ''['' then split_scan (d + 1) (c # cur) s
      else if c = CHR '']'' then split_scan (d - 1) (c # cur) s
      else if c = CHR '','' \<and> d = 0 then strip (rev cur) # split_scan d [] s
      else split_scan d (c # cur) s)"

definition split_type_args :: "string \<Rightarrow> string list" where
  "split_type_args s = (if s = [] then [] else split_scan 0 [] s)"

definition type_base :: "string \<Rightarrow> string" where
  "type_base t = takeWhile (\<lambda>c. c \<noteq> CHR ''['') t"

definition type_args :: "string \<Rightarrow> string list" where
  "type_args t =
     (if CHR ''['' \<notin> set t then [] else split_type_args (inner (length (type_base t) + 1) t))"

section \<open>Instantiation\<close>

text \<open>\<open>_instantiate_type\<close> at depth \<open>17 - k\<close>: the recursion stops where the source's safety cap
  does.\<close>

fun inst_at :: "nat \<Rightarrow> string \<Rightarrow> (string \<rightharpoonup> string) \<Rightarrow> string" where
  "inst_at 0 t m = t"
| "inst_at (Suc k) t m =
     (case m t of
        Some u \<Rightarrow> inst_at k u m
      | None \<Rightarrow>
          if t \<in> {''int'', ''float'', ''bool'', ''str'', ''void''} then t
          else if is_list t then ''list['' @ inst_at k (list_elem t) m @ '']''
          else if is_map t then ''map[str, '' @ inst_at k (map_val t) m @ '']''
          else if is_taint t then ''tainted['' @ inst_at k (taint_inner t) m @ '']''
          else if CHR ''['' \<in> set t \<and> last t = CHR '']''
          then type_base t @ ''['' @ join_on '', '' (map (\<lambda>a. inst_at k a m) (type_args t)) @ '']''
          else t)"

definition instantiate_type :: "string \<Rightarrow> (string \<rightharpoonup> string) \<Rightarrow> string" where
  "instantiate_type t m = inst_at 17 t m"

section \<open>Matching\<close>

definition ident_set :: string where
  "ident_set = ''abcdefghijklmnopqrstuvwxyzABCDEFGHIJKLMNOPQRSTUVWXYZ0123456789_''"

text \<open>The search for \<open>tp\<close> as a whole identifier: \<open>prev\<close> is the character before the suffix.\<close>

fun mentions_from :: "string \<Rightarrow> char option \<Rightarrow> string \<Rightarrow> bool" where
  "mentions_from tp prev [] = (tp = [] \<and> (case prev of None \<Rightarrow> True | Some c \<Rightarrow> c \<notin> set ident_set))"
| "mentions_from tp prev (c # s) =
     (is_prefix tp (c # s)
        \<and> (case prev of None \<Rightarrow> True | Some p \<Rightarrow> p \<notin> set ident_set)
        \<and> (case drop (length tp) (c # s) of [] \<Rightarrow> True | k # _ \<Rightarrow> k \<notin> set ident_set)
      \<or> mentions_from tp (Some c) s)"

definition type_mentions_typeparam :: "string \<Rightarrow> string list \<Rightarrow> bool" where
  "type_mentions_typeparam pt tps = list_ex (\<lambda>tp. mentions_from tp None pt) tps"

lemma strip_length: "length (strip s) \<le> length s"
  unfolding strip_def lstrip_def by (metis length_dropWhile_le length_rev order_trans)

lemma split_scan_length: "p \<in> set (split_scan d cur s) \<Longrightarrow> length p \<le> length cur + length s"
proof (induction d cur s arbitrary: p rule: split_scan.induct)
  case (1 d cur)
  then show ?case using strip_length [of "rev cur"] by simp
next
  case (2 d cur c s)
  then show ?case using strip_length [of "rev cur"] by (fastforce split: if_splits)
qed

lemma type_args_shorter: "a \<in> set (type_args t) \<Longrightarrow> length a < length t"
proof -
  assume a: "a \<in> set (type_args t)"
  then have "CHR ''['' \<in> set t" by (simp add: type_args_def split: if_splits)
  then have "t \<noteq> []" by auto
  moreover have "length a \<le> length (inner (length (type_base t) + 1) t)"
    using a split_scan_length [of a 0 "[]"]
    by (auto simp: type_args_def split_type_args_def split: if_splits)
  ultimately show ?thesis by (cases t) (auto simp: inner_def)
qed

lemma inner_shorter: "t \<noteq> [] \<Longrightarrow> 0 < k \<Longrightarrow> length (inner k t) < length t"
  by (cases t) (auto simp: inner_def)

lemma prefix_not_Nil: "is_prefix (c # p) t \<Longrightarrow> t \<noteq> []"
  by (cases t) auto

lemma taint_inner_shorter: "is_taint t \<Longrightarrow> length (taint_inner t) < length t"
  using strip_length [of "inner 8 t"] inner_shorter [of t 8] prefix_not_Nil
  by (fastforce simp: taint_inner_def is_taint_def)

text \<open>\<open>unify\<close>; the loop over the arguments goes on after a failure and keeps its bindings.\<close>

function unify :: "string \<Rightarrow> string \<Rightarrow> string list \<Rightarrow> (string \<rightharpoonup> string) \<Rightarrow> bool \<times> (string \<rightharpoonup> string)" where
  "unify pt at tps m =
     (if pt \<in> set tps
      then (if m pt \<noteq> None \<and> m pt \<noteq> Some at then (False, m) else (True, m(pt \<mapsto> at)))
      else if is_list pt \<and> is_list at then unify (list_elem pt) (list_elem at) tps m
      else if is_map pt \<and> is_map at then unify (map_val pt) (map_val at) tps m
      else if is_taint pt \<and> is_taint at then unify (taint_inner pt) (taint_inner at) tps m
      else if CHR ''['' \<in> set pt \<and> CHR ''['' \<in> set at \<and> type_base pt = type_base at
      then (if length (type_args pt) \<noteq> length (type_args at) then (False, m)
            else fold (\<lambda>(p, a) (ok, m'). case unify p a tps m' of (r, m'') \<Rightarrow> (ok \<and> r, m''))
                   (zip (type_args pt) (type_args at)) (True, m))
      else (pt = at, m))"
  by pat_completeness auto
termination
  using type_args_shorter taint_inner_shorter
  by (relation "measure (\<lambda>(pt, at, tps, m). length pt)")
    (auto simp: list_elem_def map_val_def is_list_def is_map_def intro!: inner_shorter
      dest: prefix_not_Nil set_zip_leftD)

declare unify.simps [simp del]

end
