(* ===== verification/TypeProps.thy ===== *)
theory TypeProps
  imports TypeStr
begin

text \<open>
  The type helpers against types as trees: their texts split, instantiate and match as the trees
  do. \<open>substT\<close> and \<open>matchT\<close> are the abstract operations; a match is found exactly when some
  substitution makes the parameter type equal to the argument type, and instantiating the parameter
  type with the bindings found gives the argument type back.
\<close>

section \<open>Types as trees and their texts\<close>

datatype ty = TName string | TApp string "ty list"

fun show_ty :: "ty \<Rightarrow> string" where
  "show_ty (TName n) = n"
| "show_ty (TApp b ts) = b @ ''['' @ join_on '', '' (map show_ty ts) @ '']''"

fun height :: "ty \<Rightarrow> nat" where
  "height (TName n) = 0"
| "height (TApp b ts) = Suc (fold max (map height ts) 0)"

text \<open>A name has neither brackets, commas nor blanks; the wrappers have the arguments the parser
  gives them.\<close>

definition ok_name :: "string \<Rightarrow> bool" where
  "ok_name n \<longleftrightarrow> n \<noteq> [] \<and> list_all (\<lambda>c. c \<notin> set ''[],'' \<and> \<not> is_space c) n"

fun wf_ty :: "ty \<Rightarrow> bool" where
  "wf_ty (TName n) = ok_name n"
| "wf_ty (TApp b ts) =
     (ok_name b \<and> ts \<noteq> [] \<and> list_all wf_ty ts
      \<and> (b = ''list'' \<or> b = ''tainted'' \<longrightarrow> length ts = 1) \<and> (b = ''map'' \<longrightarrow> length ts = 2))"

lemma ok_nameD:
  assumes "ok_name n"
  shows "n \<noteq> []" "CHR ''['' \<notin> set n" "CHR '']'' \<notin> set n" "CHR '','' \<notin> set n" "\<forall>c\<in>set n. \<not> is_space c"
  using assms by (auto simp: ok_name_def list_all_iff)

lemma bracket_not_space [simp]: "\<not> is_space (CHR '']'')" "is_space (CHR '' '')"
  by (simp_all add: is_space_def code_of_def)

lemma show_ty_shape:
  assumes "wf_ty t"
  shows "show_ty t \<noteq> [] \<and> \<not> is_space (hd (show_ty t)) \<and> \<not> is_space (last (show_ty t))"
proof (cases t)
  case (TName n)
  then show ?thesis using assms ok_nameD [of n] by simp
next
  case (TApp b ts)
  then have "b \<noteq> []" "\<forall>c\<in>set b. \<not> is_space c" using assms ok_nameD [of b] by simp_all
  then show ?thesis using TApp by (cases b) auto
qed

lemma strip_show: "wf_ty t \<Longrightarrow> strip (show_ty t) = show_ty t"
  using show_ty_shape strip_id by blast

section \<open>Splitting argument lists\<close>

lemma scan_plain:
  "list_all (\<lambda>c. c \<notin> set ''[],'') n \<Longrightarrow> split_scan d cur (n @ s) = split_scan d (rev n @ cur) s"
  by (induction n arbitrary: cur) auto

lemma scan_show:
  "wf_ty t \<Longrightarrow> 0 \<le> d \<Longrightarrow> split_scan d cur (show_ty t @ s) = split_scan d (rev (show_ty t) @ cur) s"
proof (induction t arbitrary: d cur s)
  case (TName n)
  have "list_all (\<lambda>c. c \<notin> set ''[],'') n" using TName.prems(1) by (simp add: ok_name_def list_all_iff)
  then show ?case by (simp add: scan_plain)
next
  case (TApp b ts)
  have b: "list_all (\<lambda>c. c \<notin> set ''[],'') b" using TApp.prems(1) by (simp add: ok_name_def list_all_iff)
  have args: "list_all wf_ty ts \<Longrightarrow> (\<And>t d cur s. t \<in> set ts \<Longrightarrow> wf_ty t \<Longrightarrow> 0 \<le> d \<Longrightarrow>
        split_scan d cur (show_ty t @ s) = split_scan d (rev (show_ty t) @ cur) s) \<Longrightarrow>
      split_scan (d + 1) cur (join_on '', '' (map show_ty ts) @ s)
      = split_scan (d + 1) (rev (join_on '', '' (map show_ty ts)) @ cur) s" for cur s
    using TApp.prems(2)
  proof (induction ts arbitrary: cur)
    case (Cons t ts)
    then show ?case
      by (cases "ts = []") (simp_all add: join_on_Cons)
  qed simp
  show ?case
    using TApp.prems TApp.IH by (simp add: scan_plain [OF b] args)
qed

lemma strip_space: "strip (CHR '' '' # s) = strip s"
  by (simp add: strip_def lstrip_def)

lemma split_show_from:
  "ts \<noteq> [] \<Longrightarrow> list_all wf_ty ts \<Longrightarrow> cur = [] \<or> cur = '' '' \<Longrightarrow>
   split_scan 0 cur (join_on '', '' (map show_ty ts)) = map show_ty ts"
proof (induction ts arbitrary: cur)
  case (Cons t ts)
  have t: "split_scan 0 cur (show_ty t @ s) = split_scan 0 (rev (show_ty t) @ cur) s"
    "strip (rev (rev (show_ty t) @ cur)) = show_ty t" for s
    using Cons.prems(2,3) scan_show [of t 0 cur s] strip_show [of t] by (auto simp: strip_space)
  show ?case
  proof (cases "ts = []")
    case True
    then show ?thesis using t(1) [of "[]"] t(2) by simp
  next
    case False
    then have "split_scan 0 '' '' (join_on '', '' (map show_ty ts)) = map show_ty ts"
      using Cons.IH [of "'' ''"] Cons.prems(2) by simp
    then show ?thesis using False t by (simp add: join_on_Cons)
  qed
qed simp

lemma split_show:
  "ts \<noteq> [] \<Longrightarrow> list_all wf_ty ts \<Longrightarrow>
   split_type_args (join_on '', '' (map show_ty ts)) = map show_ty ts"
proof -
  assume ts: "ts \<noteq> []" "list_all wf_ty ts"
  then have "join_on '', '' (map show_ty ts) \<noteq> []"
    using show_ty_shape by (cases ts; cases "tl ts") auto
  then show ?thesis using split_show_from [OF ts, of "[]"] by (simp add: split_type_args_def)
qed

section \<open>Selectors on the texts\<close>

lemma is_prefix_iff: "is_prefix p s \<longleftrightarrow> take (length p) s = p"
  by (induction p s rule: is_prefix.induct) auto

lemma is_prefix_append: "is_prefix (p @ q) (p @ s) \<longleftrightarrow> is_prefix q s"
  by (induction p) auto

lemma bracket_prefix:
  assumes "CHR ''['' \<notin> set b" "wf_ty t"
  shows "is_prefix (b @ ''['') (show_ty t) \<longleftrightarrow> (\<exists>ts. t = TApp b ts)"
proof (cases t)
  case (TName n)
  then show ?thesis
    using assms ok_nameD(2) [of n] is_prefix_set [of "b @ ''[''" n] by auto
next
  case (TApp c ts)
  have c: "CHR ''['' \<notin> set c" using assms(2) TApp ok_nameD(2) [of c] by simp
  have "is_prefix (b @ ''['') (c @ ''['' @ r) \<longleftrightarrow> b = c" for r
    using assms(1) c
  proof (induction b arbitrary: c)
    case Nil
    then show ?case by (cases c) auto
  next
    case (Cons x b)
    then show ?case by (cases c) auto
  qed
  then show ?thesis using TApp by auto
qed

lemma is_prefix_trans: "is_prefix (p @ q) s \<Longrightarrow> is_prefix p s"
  by (induction p s rule: is_prefix.induct) auto

lemma type_base_show: "wf_ty (TApp b ts) \<Longrightarrow> type_base (show_ty (TApp b ts)) = b"
proof -
  assume "wf_ty (TApp b ts)"
  then have "list_all (\<lambda>c. c \<noteq> CHR ''['') b" using ok_nameD(2) [of b] by (auto simp: list_all_iff)
  from takeWhile_run [OF this, of "''['' @ x" for x] show ?thesis by (simp add: type_base_def)
qed

lemma type_args_show:
  assumes "wf_ty (TApp b ts)"
  shows "type_args (show_ty (TApp b ts)) = map show_ty ts"
proof -
  have "inner (length b + 1) (show_ty (TApp b ts)) = join_on '', '' (map show_ty ts)"
    by (simp add: inner_def)
  then show ?thesis
    using assms split_show [of ts] type_base_show [OF assms] by (simp add: type_args_def)
qed

lemma inner_show1:
  "inner (Suc (length b)) (show_ty (TApp b [t])) = show_ty t"
  by (simp add: inner_def)

lemma is_list_show: "wf_ty t \<Longrightarrow> is_list (show_ty t) \<longleftrightarrow> (\<exists>ts. t = TApp ''list'' ts)"
  using bracket_prefix [of "''list''" t] by (simp add: is_list_def)

lemma is_taint_show: "wf_ty t \<Longrightarrow> is_taint (show_ty t) \<longleftrightarrow> (\<exists>ts. t = TApp ''tainted'' ts)"
  using bracket_prefix [of "''tainted''" t] by (simp add: is_taint_def)

lemma str_prefix:
  assumes "wf_ty k"
  shows "is_prefix ''str, '' (show_ty k @ '', '' @ r) \<longleftrightarrow> k = TName ''str''"
proof -
  have comma: "is_prefix (b @ [CHR '','']) (c @ x # r) \<longleftrightarrow> b = c \<and> x = CHR '',''"
    if "CHR '','' \<notin> set b" "CHR '','' \<notin> set c" "x \<notin> set b" for b c x r
    using that
  proof (induction b arbitrary: c)
    case Nil
    then show ?case by (cases c) auto
  next
    case (Cons y b)
    then show ?case by (cases c) auto
  qed
  have pre: "is_prefix ''str,'' s" if "is_prefix ''str, '' s" for s
    using is_prefix_trans [of "''str,''" "'' ''" s] that by simp
  show ?thesis
  proof (cases k)
    case (TName n)
    then have n: "CHR '','' \<notin> set n" using assms ok_nameD(4) [of n] by simp
    have "is_prefix ''str, '' (''str'' @ '', '' @ r)" by simp
    then show ?thesis
      using TName pre [of "n @ '', '' @ r"] comma [of "''str''" n "CHR '',''" "'' '' @ r"] n by auto
  next
    case (TApp b ts)
    then have b: "CHR '','' \<notin> set b" using assms ok_nameD(4) [of b] by simp
    show ?thesis
      using TApp pre [of "show_ty k @ '', '' @ r"]
        comma [of "''str''" b "CHR ''[''" "join_on '', '' (map show_ty ts) @ '']'' @ '', '' @ r"] b
      by auto
  qed
qed

lemma is_map_show:
  assumes "wf_ty t"
  shows "is_map (show_ty t) \<longleftrightarrow> (\<exists>v. t = TApp ''map'' [TName ''str'', v])"
proof -
  have pre: "is_map s \<Longrightarrow> is_prefix ''map['' s" for s
    using is_prefix_trans [of "''map[''" "''str, ''" s] by (simp add: is_map_def)
  show ?thesis
  proof (cases "\<exists>ts. t = TApp ''map'' ts")
    case False
    then show ?thesis using pre [of "show_ty t"] bracket_prefix [of "''map''" t] assms by auto
  next
    case True
    then obtain k v where t: "t = TApp ''map'' [k, v]" and k: "wf_ty k"
      using assms by (auto simp: length_Suc_conv numeral_2_eq_2)
    have "is_map (show_ty t) \<longleftrightarrow> is_prefix ''str, '' (show_ty k @ '', '' @ show_ty v @ '']'')"
      using is_prefix_append [of "''map[''" "''str, ''"] by (simp add: t is_map_def)
    then show ?thesis using str_prefix [OF k, of "show_ty v @ '']''"] t by auto
  qed
qed

lemma list_elem_show [simp]: "list_elem (show_ty (TApp ''list'' [t])) = show_ty t"
  by (simp add: list_elem_def inner_def)

lemma map_val_show [simp]: "map_val (show_ty (TApp ''map'' [TName ''str'', t])) = show_ty t"
  by (simp add: map_val_def inner_def)

lemma taint_inner_show:
  "wf_ty t \<Longrightarrow> taint_inner (show_ty (TApp ''tainted'' [t])) = show_ty t"
  by (simp add: taint_inner_def is_taint_def inner_def strip_show)

lemma bracket_show: "wf_ty t \<Longrightarrow> CHR ''['' \<in> set (show_ty t) \<longleftrightarrow> (\<exists>b ts. t = TApp b ts)"
  using ok_nameD(2) by (cases t) auto

lemma show_inject: "wf_ty t \<Longrightarrow> wf_ty u \<Longrightarrow> show_ty t = show_ty u \<longleftrightarrow> t = u"
proof (induction t arbitrary: u)
  case (TName n)
  then show ?case using bracket_show [of u] bracket_show [of "TName n"] by (cases u) auto
next
  case (TApp b ts)
  show ?case
  proof (cases u)
    case (TName n)
    then show ?thesis using TApp.prems bracket_show [of u] bracket_show [of "TApp b ts"] by auto
  next
    case u: (TApp c us)
    have "ts = us" if "map show_ty ts = map show_ty us"
    proof (rule nth_equalityI)
      show l: "length ts = length us" using that map_eq_imp_length_eq by blast
      fix i
      assume i: "i < length ts"
      then have "show_ty (ts ! i) = show_ty (us ! i)" using that l by (metis nth_map)
      then show "ts ! i = us ! i"
        using TApp.IH [of "ts ! i" "us ! i"] TApp.prems i l u by (auto simp: list_all_iff)
    qed
    moreover have "show_ty (TApp b ts) = show_ty u \<Longrightarrow> b = c \<and> map show_ty ts = map show_ty us"
      using type_base_show [of b ts] type_base_show [of c us] type_args_show [of b ts]
        type_args_show [of c us] TApp.prems u by metis
    ultimately have "show_ty (TApp b ts) = show_ty u \<Longrightarrow> TApp b ts = u" using u by blast
    then show ?thesis by blast
  qed
qed

section \<open>Instantiation is substitution\<close>

fun substT :: "(string \<rightharpoonup> ty) \<Rightarrow> ty \<Rightarrow> ty" where
  "substT \<sigma> (TName n) = (case \<sigma> n of Some t \<Rightarrow> t | None \<Rightarrow> TName n)"
| "substT \<sigma> (TApp b ts) = TApp b (map (substT \<sigma>) ts)"

fun names :: "ty \<Rightarrow> string set" where
  "names (TName n) = {n}"
| "names (TApp b ts) = \<Union> (names ` set ts)"

abbreviation texts :: "(string \<rightharpoonup> ty) \<Rightarrow> (string \<rightharpoonup> string)" where
  "texts \<sigma> \<equiv> \<lambda>n. map_option show_ty (\<sigma> n)"

text \<open>Bindings of plain names other than the key type of maps, to well-formed types.\<close>

definition ok_subst :: "(string \<rightharpoonup> ty) \<Rightarrow> bool" where
  "ok_subst \<sigma> \<longleftrightarrow> \<sigma> ''str'' = None \<and> (\<forall>n t. \<sigma> n = Some t \<longrightarrow> ok_name n \<and> wf_ty t)"

lemma subst_lookup_app: "ok_subst \<sigma> \<Longrightarrow> \<sigma> (show_ty (TApp b ts)) = None"
proof (rule ccontr)
  assume \<sigma>: "ok_subst \<sigma>" "\<sigma> (show_ty (TApp b ts)) \<noteq> None"
  then have "CHR ''['' \<notin> set (show_ty (TApp b ts))"
    using ok_nameD(2) by (auto simp: ok_subst_def simp del: show_ty.simps)
  then show False by simp
qed

lemma last_show_app: "last (show_ty (TApp b ts)) = CHR '']''"
  by simp

lemma show_not_builtin:
  "show_ty (TApp b ts) \<notin> {''int'', ''float'', ''bool'', ''str'', ''void''}"
proof -
  have "\<forall>w\<in>{''int'', ''float'', ''bool'', ''str'', ''void''}. CHR ''['' \<notin> set w" by simp
  moreover have "CHR ''['' \<in> set (show_ty (TApp b ts))" by simp
  ultimately show ?thesis by metis
qed

lemma inst_app:
  assumes "wf_ty (TApp b ts)" "texts \<sigma> (show_ty (TApp b ts)) = None"
    "\<And>t. t \<in> set ts \<Longrightarrow> inst_at k (show_ty t) (texts \<sigma>) = show_ty (f t)"
    "b = ''map'' \<Longrightarrow> hd ts = TName ''str'' \<Longrightarrow> f (hd ts) = TName ''str''"
  shows "inst_at (Suc k) (show_ty (TApp b ts)) (texts \<sigma>) = show_ty (TApp b (map f ts))"
proof -
  define s where s: "s = show_ty (TApp b ts)"
  note ne = show_not_builtin [of b ts, folded s]
  have base: "type_base s = b" "type_args s = map show_ty ts" "CHR ''['' \<in> set s" "last s = CHR '']''"
    using type_base_show [OF assms(1)] type_args_show [OF assms(1)] by (auto simp: s)
  have wraps: "is_list s \<longleftrightarrow> (\<exists>us. TApp b ts = TApp ''list'' us)"
    "is_map s \<longleftrightarrow> (\<exists>v. TApp b ts = TApp ''map'' [TName ''str'', v])"
    "is_taint s \<longleftrightarrow> (\<exists>us. TApp b ts = TApp ''tainted'' us)"
    using is_list_show [OF assms(1)] is_map_show [OF assms(1)] is_taint_show [OF assms(1)]
    by (simp_all only: s)
  note step = inst_at.simps(2) [of k s "texts \<sigma>"]
  have none: "texts \<sigma> s = None" using assms(2) by (simp only: s)
  consider t where "b = ''list''" "ts = [t]"
    | t where "b = ''tainted''" "ts = [t]"
    | v where "b = ''map''" "ts = [TName ''str'', v]"
    | "\<not> is_list s" "\<not> is_map s" "\<not> is_taint s"
    using assms(1) unfolding wraps by (auto simp: length_Suc_conv)
  then have "inst_at (Suc k) s (texts \<sigma>) = show_ty (TApp b (map f ts))"
  proof cases
    case 1
    then have "list_elem s = show_ty t" by (simp only: s list_elem_show)
    then show ?thesis using 1 step ne none wraps assms(3) [of t] by simp
  next
    case 2
    then have "taint_inner s = show_ty t" using taint_inner_show [of t] assms(1) by (simp only: s) simp
    then show ?thesis using 2 step ne none wraps assms(3) [of t] by simp
  next
    case 3
    then have "map_val s = show_ty v" by (simp only: s map_val_show)
    then show ?thesis using 3 step ne none wraps assms(3) [of v] assms(4) by simp
  next
    case 4
    have "map (\<lambda>a. inst_at k a (texts \<sigma>)) (type_args s) = map show_ty (map f ts)"
      using assms(3) by (simp add: base)
    then show ?thesis using 4 step ne none base(1,3,4) by simp
  qed
  then show ?thesis by (simp only: s)
qed

lemma inst_name:
  assumes "ok_name n" "texts \<sigma> n = None"
  shows "inst_at k n (texts \<sigma>) = n"
proof (cases k)
  case (Suc k')
  have "wf_ty (TName n)" using assms(1) by simp
  then have "\<not> is_list n" "\<not> is_map n" "\<not> is_taint n" "CHR ''['' \<notin> set n"
    using is_list_show [of "TName n"] is_map_show [of "TName n"] is_taint_show [of "TName n"]
      bracket_show [of "TName n"] by auto
  then show ?thesis using assms(2) Suc by simp
qed simp

lemma inst_free:
  "wf_ty t \<Longrightarrow> ok_subst \<sigma> \<Longrightarrow> names t \<inter> dom \<sigma> = {} \<Longrightarrow> inst_at k (show_ty t) (texts \<sigma>) = show_ty t"
proof (induction t arbitrary: k)
  case (TName n)
  then show ?case using inst_name [of n \<sigma> k] by (auto simp: dom_def)
next
  case (TApp b ts)
  show ?case
  proof (cases k)
    case (Suc k')
    have "inst_at (Suc k') (show_ty (TApp b ts)) (texts \<sigma>) = show_ty (TApp b (map (\<lambda>t. t) ts))"
    proof (rule inst_app [OF TApp.prems(1)])
      show "texts \<sigma> (show_ty (TApp b ts)) = None"
        using subst_lookup_app [OF TApp.prems(2)] by (simp only: option.map)
      fix t
      assume t: "t \<in> set ts"
      then have "wf_ty t" "names t \<inter> dom \<sigma> = {}" using TApp.prems(1,3) by (auto simp: list_all_iff)
      then show "inst_at k' (show_ty t) (texts \<sigma>) = show_ty t" using TApp.IH t TApp.prems(2) by blast
    qed simp
    then show ?thesis using Suc by (simp only: list.map_ident)
  qed simp
qed

lemma le_fold_max: "x \<in> set xs \<Longrightarrow> x \<le> fold max xs (a :: nat)"
proof -
  have a: "a \<le> fold max xs a" for xs :: "nat list" and a
    by (induction xs arbitrary: a) (auto intro: order_trans [OF max.cobounded2])
  show "x \<in> set xs \<Longrightarrow> x \<le> fold max xs a"
  proof (induction xs arbitrary: a)
    case (Cons y xs)
    then show ?case using a [of "max y a" xs] by auto
  qed simp
qed

lemma inst_subst:
  "wf_ty t \<Longrightarrow> ok_subst \<sigma> \<Longrightarrow> \<forall>n u. \<sigma> n = Some u \<longrightarrow> names u \<inter> dom \<sigma> = {} \<Longrightarrow> height t < k \<Longrightarrow>
   inst_at k (show_ty t) (texts \<sigma>) = show_ty (substT \<sigma> t)"
proof (induction t arbitrary: k)
  case (TName n)
  then obtain k' where k: "k = Suc k'" by (cases k) auto
  show ?case
  proof (cases "\<sigma> n")
    case None
    then show ?thesis using inst_name [of n \<sigma> k] TName.prems(1) by simp
  next
    case (Some u)
    then have "wf_ty u" "names u \<inter> dom \<sigma> = {}" using TName.prems(2,3) by (auto simp: ok_subst_def)
    from inst_free [OF this(1) TName.prems(2) this(2), of k'] show ?thesis using Some k by simp
  qed
next
  case (TApp b ts)
  then obtain k' where k: "k = Suc k'" by (cases k) auto
  have "inst_at (Suc k') (show_ty (TApp b ts)) (texts \<sigma>) = show_ty (TApp b (map (substT \<sigma>) ts))"
  proof (rule inst_app [OF TApp.prems(1)])
    show "texts \<sigma> (show_ty (TApp b ts)) = None"
      using subst_lookup_app [OF TApp.prems(2)] by (simp only: option.map)
    fix t
    assume t: "t \<in> set ts"
    then have "wf_ty t" using TApp.prems(1) by (simp add: list_all_iff)
    moreover have "height t < k'"
      using TApp.prems(4) k t le_fold_max [of "height t" "map height ts" 0] by auto
    ultimately show "inst_at k' (show_ty t) (texts \<sigma>) = show_ty (substT \<sigma> t)"
      using TApp.IH [OF t] TApp.prems(2,3) by blast
  next
    assume "hd ts = TName ''str''"
    then show "substT \<sigma> (hd ts) = TName ''str''" using TApp.prems(2) by (simp add: ok_subst_def)
  qed
  then show ?case by (simp only: k substT.simps)
qed

text \<open>C20. Instantiating the text of a type is the substitution of its parameters, for bindings of
  plain names to types that mention no bound name and for types nested up to sixteen levels. The
  safety cap of the recursion counts nesting levels as well, so one level more leaves a parameter
  in place.\<close>

theorem instantiate_is_substitution:
  assumes "wf_ty t" "ok_subst \<sigma>" "\<forall>n u. \<sigma> n = Some u \<longrightarrow> names u \<inter> dom \<sigma> = {}" "height t \<le> 16"
  shows "instantiate_type (show_ty t) (texts \<sigma>) = show_ty (substT \<sigma> t)
    \<and> (let deep = ((\<lambda>u. TApp ''list'' [u]) ^^ 17) (TName ''T'')
        in instantiate_type (show_ty deep) [''T'' \<mapsto> ''int''] = show_ty deep)"
proof
  show "instantiate_type (show_ty t) (texts \<sigma>) = show_ty (substT \<sigma> t)"
    unfolding instantiate_type_def using inst_subst [OF assms(1-3)] assms(4) by simp
  have lists: "inst_at k (show_ty (((\<lambda>u. TApp ''list'' [u]) ^^ k) (TName ''T''))) m
      = show_ty (((\<lambda>u. TApp ''list'' [u]) ^^ k) (TName ''T''))"
    if "dom m = {''T''}" for k and m :: "string \<rightharpoonup> string"
  proof (induction k)
    case (Suc k)
    let ?u = "((\<lambda>u. TApp ''list'' [u]) ^^ k) (TName ''T'')"
    have wf: "wf_ty (((\<lambda>u. TApp ''list'' [u]) ^^ j) (TName ''T''))" for j
      by (induction j) (auto simp: ok_name_def is_space_def code_of_def)
    define s where s: "s = show_ty (TApp ''list'' [?u])"
    have "m s = None"
    proof (rule ccontr)
      assume "m s \<noteq> None"
      then have "s = ''T''" using that by auto
      then show False by (simp add: s)
    qed
    moreover have "is_list s" "list_elem s = show_ty ?u"
      using is_list_show [OF wf [of "Suc k"]] by (simp_all only: s list_elem_show) auto
    moreover have "s \<notin> {''int'', ''float'', ''bool'', ''str'', ''void''}"
      unfolding s by (rule show_not_builtin)
    ultimately have "inst_at (Suc k) s m = s" using Suc by (simp add: s)
    then show ?case by (simp add: s)
  qed simp
  show "let deep = ((\<lambda>u. TApp ''list'' [u]) ^^ 17) (TName ''T'')
      in instantiate_type (show_ty deep) [''T'' \<mapsto> ''int''] = show_ty deep"
    unfolding instantiate_type_def Let_def by (rule lists) simp
qed

lemma instantiate_is_substitution_witness:
  "instantiate_type ''map[str, list[T]]'' (texts [''T'' \<mapsto> TName ''int'']) = ''map[str, list[int]]''"
proof -
  let ?t = "TApp ''map'' [TName ''str'', TApp ''list'' [TName ''T'']]"
  have "wf_ty ?t" "ok_subst [''T'' \<mapsto> TName ''int'']" "height ?t \<le> 16"
    "\<forall>n u. [''T'' \<mapsto> TName ''int''] n = Some u \<longrightarrow> names u \<inter> dom [''T'' \<mapsto> TName ''int''] = {}"
    by (simp_all add: ok_name_def is_space_def code_of_def ok_subst_def)
  from instantiate_is_substitution [OF this(1,2,4,3)] show ?thesis by simp
qed

section \<open>Matching on trees\<close>

fun matchT :: "string list \<Rightarrow> ty \<Rightarrow> ty \<Rightarrow> (string \<rightharpoonup> ty) \<Rightarrow> bool \<times> (string \<rightharpoonup> ty)"
and matchTs :: "string list \<Rightarrow> ty list \<Rightarrow> ty list \<Rightarrow> (string \<rightharpoonup> ty) \<Rightarrow> bool \<times> (string \<rightharpoonup> ty)" where
  "matchT tps (TName n) at \<sigma> =
     (if n \<in> set tps
      then (if \<sigma> n \<noteq> None \<and> \<sigma> n \<noteq> Some at then (False, \<sigma>) else (True, \<sigma>(n \<mapsto> at)))
      else (TName n = at, \<sigma>))"
| "matchT tps (TApp b ps) (TName n) \<sigma> = (False, \<sigma>)"
| "matchT tps (TApp b ps) (TApp c as) \<sigma> =
     (if b = c \<and> length ps = length as then matchTs tps ps as \<sigma> else (False, \<sigma>))"
| "matchTs tps (p # ps) (a # as) \<sigma> =
     (case matchT tps p a \<sigma> of (r, \<sigma>1) \<Rightarrow> (case matchTs tps ps as \<sigma>1 of (rs, \<sigma>2) \<Rightarrow> (r \<and> rs, \<sigma>2)))"
| "matchTs tps _ _ \<sigma> = (True, \<sigma>)"

text \<open>A match only adds bindings, of type parameters, to types that occur in the argument type.\<close>

lemma matchTs_Cons:
  assumes "matchT tps p a \<sigma> = (r, \<sigma>1)" "matchTs tps ps as \<sigma>1 = (rs, \<sigma>2)"
  shows "matchTs tps (p # ps) (a # as) \<sigma> = (r \<and> rs, \<sigma>2)"
  using assms by simp

lemma matchT_grows:
  "\<sigma> \<subseteq>\<^sub>m snd (matchT tps p a \<sigma>) \<and> dom (snd (matchT tps p a \<sigma>)) \<subseteq> dom \<sigma> \<union> set tps"
  "\<sigma> \<subseteq>\<^sub>m snd (matchTs tps ps as \<sigma>) \<and> dom (snd (matchTs tps ps as \<sigma>)) \<subseteq> dom \<sigma> \<union> set tps"
proof (induction tps p a \<sigma> and tps ps as \<sigma> rule: matchT_matchTs.induct)
  case (1 tps n at \<sigma>)
  then show ?case by (auto simp: map_le_def)
next
  case (4 tps p ps a as \<sigma>)
  obtain r \<sigma>1 where m1: "matchT tps p a \<sigma> = (r, \<sigma>1)" by fastforce
  obtain rs \<sigma>2 where m2: "matchTs tps ps as \<sigma>1 = (rs, \<sigma>2)" by fastforce
  have "\<sigma> \<subseteq>\<^sub>m \<sigma>1 \<and> dom \<sigma>1 \<subseteq> dom \<sigma> \<union> set tps" using 4(1) m1 by simp
  moreover have "\<sigma>1 \<subseteq>\<^sub>m \<sigma>2 \<and> dom \<sigma>2 \<subseteq> dom \<sigma>1 \<union> set tps" using 4(2) [OF m1 [symmetric]] m2 by simp
  ultimately have "\<sigma> \<subseteq>\<^sub>m \<sigma>2 \<and> dom \<sigma>2 \<subseteq> dom \<sigma> \<union> set tps"
    using map_le_trans [of \<sigma> \<sigma>1 \<sigma>2] by blast
  then show ?case unfolding matchTs_Cons [OF m1 m2] by simp
qed auto

text \<open>A property of every bound type is kept when the types of the argument have it.\<close>

definition all_bound :: "(string \<Rightarrow> ty \<Rightarrow> bool) \<Rightarrow> (string \<rightharpoonup> ty) \<Rightarrow> bool" where
  "all_bound P \<sigma> \<longleftrightarrow> (\<forall>n t. \<sigma> n = Some t \<longrightarrow> P n t)"

lemma matchT_bound:
  assumes "\<And>c as a n. P n (TApp c as) \<Longrightarrow> a \<in> set as \<Longrightarrow> P n a"
  shows "(\<And>n. n \<in> set tps \<Longrightarrow> P n a) \<Longrightarrow> all_bound P \<sigma> \<Longrightarrow> all_bound P (snd (matchT tps p a \<sigma>))"
    and "(\<And>n a. n \<in> set tps \<Longrightarrow> a \<in> set as \<Longrightarrow> P n a) \<Longrightarrow> all_bound P \<sigma> \<Longrightarrow>
      all_bound P (snd (matchTs tps ps as \<sigma>))"
proof (induction tps p a \<sigma> and tps ps as \<sigma> rule: matchT_matchTs.induct)
  case (1 tps n at \<sigma>)
  then show ?case by (auto simp: all_bound_def)
next
  case (3 tps b ps c as \<sigma>)
  have "P n a" if "n \<in> set tps" "a \<in> set as" for n a using assms 3(2) that by blast
  then show ?case using 3 by simp
next
  case (4 tps p ps a as \<sigma>)
  obtain r \<sigma>1 where m1: "matchT tps p a \<sigma> = (r, \<sigma>1)" by fastforce
  obtain rs \<sigma>2 where m2: "matchTs tps ps as \<sigma>1 = (rs, \<sigma>2)" by fastforce
  have "all_bound P \<sigma>1" using 4(1) 4(3,4) m1 by simp
  then have "all_bound P \<sigma>2" using 4(2) [OF m1 [symmetric]] 4(3) m2 by simp
  then show ?case unfolding matchTs_Cons [OF m1 m2] by simp
qed auto

lemma matchT_wf:
  assumes "wf_ty a" "ok_subst \<sigma>" "\<forall>n\<in>set tps. ok_name n \<and> n \<noteq> ''str''"
  shows "ok_subst (snd (matchT tps p a \<sigma>))"
proof -
  have ok: "ok_subst \<tau> \<longleftrightarrow> all_bound (\<lambda>n t. n \<noteq> ''str'' \<and> ok_name n \<and> wf_ty t) \<tau>" for \<tau>
  proof
    assume "all_bound (\<lambda>n t. n \<noteq> ''str'' \<and> ok_name n \<and> wf_ty t) \<tau>"
    then show "ok_subst \<tau>" by (cases "\<tau> ''str''") (auto simp: ok_subst_def all_bound_def)
  qed (auto simp: ok_subst_def all_bound_def)
  show ?thesis
    unfolding ok
  proof (rule matchT_bound(1))
    show "all_bound (\<lambda>n t. n \<noteq> ''str'' \<and> ok_name n \<and> wf_ty t) \<sigma>" using assms(2) unfolding ok .
  qed (use assms in \<open>auto simp: list_all_iff\<close>)
qed

lemma matchT_names:
  assumes "names a \<inter> X = {}"
  shows "all_bound (\<lambda>n t. names t \<inter> X = {}) (snd (matchT tps p a Map.empty))"
  by (rule matchT_bound(1)) (use assms in \<open>auto simp: all_bound_def\<close>)

lemma substT_mono:
  "names p \<inter> T \<subseteq> dom \<sigma> \<Longrightarrow> \<sigma> \<subseteq>\<^sub>m \<tau> \<Longrightarrow> dom \<tau> \<subseteq> T \<Longrightarrow> substT \<tau> p = substT \<sigma> p"
proof (induction p)
  case (TName n)
  have "\<tau> n = \<sigma> n"
  proof (cases "n \<in> dom \<sigma>")
    case True
    then show ?thesis using TName.prems(2) by (simp add: map_le_def)
  next
    case False
    then have "n \<notin> dom \<tau>" using TName.prems(1,3) by auto
    then show ?thesis using False by (simp add: dom_def)
  qed
  then show ?case by simp
next
  case (TApp b ps)
  have "\<forall>p\<in>set ps. substT \<tau> p = substT \<sigma> p"
  proof
    fix p
    assume p: "p \<in> set ps"
    then have "names p \<inter> T \<subseteq> dom \<sigma>" using TApp.prems(1) by auto
    from TApp.IH [OF p this TApp.prems(2,3)] show "substT \<tau> p = substT \<sigma> p" .
  qed
  then show ?case by simp
qed

lemma matchT_sound:
  "fst (matchT tps p a \<sigma>) \<Longrightarrow> dom \<sigma> \<subseteq> set tps \<Longrightarrow>
   substT (snd (matchT tps p a \<sigma>)) p = a \<and> names p \<inter> set tps \<subseteq> dom (snd (matchT tps p a \<sigma>))"
  "fst (matchTs tps ps as \<sigma>) \<Longrightarrow> dom \<sigma> \<subseteq> set tps \<Longrightarrow> length ps = length as \<Longrightarrow>
   map (substT (snd (matchTs tps ps as \<sigma>))) ps = as
   \<and> (\<Union>p\<in>set ps. names p) \<inter> set tps \<subseteq> dom (snd (matchTs tps ps as \<sigma>))"
proof (induction tps p a \<sigma> and tps ps as \<sigma> rule: matchT_matchTs.induct)
  case (1 tps n at \<sigma>)
  then show ?case by (auto split: if_splits option.splits dest: subsetD)
next
  case (4 tps p ps a as \<sigma>)
  obtain r \<sigma>1 where m1: "matchT tps p a \<sigma> = (r, \<sigma>1)" by fastforce
  obtain rs \<sigma>2 where m2: "matchTs tps ps as \<sigma>1 = (rs, \<sigma>2)" by fastforce
  have r: "r" "rs" using 4(3) m1 m2 by auto
  have d1: "dom \<sigma>1 \<subseteq> set tps"
  proof -
    have "dom \<sigma>1 \<subseteq> dom \<sigma> \<union> set tps" using matchT_grows(1) [of \<sigma> tps p a] m1 by simp
    then show ?thesis using 4(4) by blast
  qed
  have g2: "\<sigma>1 \<subseteq>\<^sub>m \<sigma>2" "dom \<sigma>2 \<subseteq> set tps"
  proof -
    have "\<sigma>1 \<subseteq>\<^sub>m \<sigma>2 \<and> dom \<sigma>2 \<subseteq> dom \<sigma>1 \<union> set tps" using matchT_grows(2) [of \<sigma>1 tps ps as] m2 by simp
    then show "\<sigma>1 \<subseteq>\<^sub>m \<sigma>2" "dom \<sigma>2 \<subseteq> set tps" using d1 by blast+
  qed
  have 1: "substT \<sigma>1 p = a" "names p \<inter> set tps \<subseteq> dom \<sigma>1"
    using 4(1) 4(4) m1 r by auto
  have 2: "map (substT \<sigma>2) ps = as" "(\<Union>p\<in>set ps. names p) \<inter> set tps \<subseteq> dom \<sigma>2"
    using 4(2) [OF m1 [symmetric]] m2 r d1 4(5) by auto
  have "substT \<sigma>2 p = a" using substT_mono [OF 1(2) g2] 1(1) by simp
  moreover have "dom \<sigma>1 \<subseteq> dom \<sigma>2" using g2(1) by (rule map_le_implies_dom_le)
  ultimately have "map (substT \<sigma>2) (p # ps) = a # as
    \<and> (\<Union>q\<in>set (p # ps). names q) \<inter> set tps \<subseteq> dom \<sigma>2"
    using 1(2) 2 by (simp add: Int_Un_distrib2)
  then show ?case unfolding matchTs_Cons [OF m1 m2] by simp
qed (auto split: if_splits)

text \<open>Bindings made so far agree with a substitution.\<close>

definition agrees :: "(string \<rightharpoonup> ty) \<Rightarrow> (string \<rightharpoonup> ty) \<Rightarrow> bool" where
  "agrees \<sigma> \<rho> \<longleftrightarrow> (\<forall>n t. \<sigma> n = Some t \<longrightarrow> substT \<rho> (TName n) = t)"

lemma matchT_complete:
  "dom \<rho> \<subseteq> set tps \<Longrightarrow> agrees \<sigma> \<rho> \<Longrightarrow> substT \<rho> p = a \<Longrightarrow>
   fst (matchT tps p a \<sigma>) \<and> agrees (snd (matchT tps p a \<sigma>)) \<rho>"
  "dom \<rho> \<subseteq> set tps \<Longrightarrow> agrees \<sigma> \<rho> \<Longrightarrow> map (substT \<rho>) ps = as \<Longrightarrow>
   fst (matchTs tps ps as \<sigma>) \<and> agrees (snd (matchTs tps ps as \<sigma>)) \<rho>"
proof (induction tps p a \<sigma> and tps ps as \<sigma> rule: matchT_matchTs.induct)
  case (1 tps n at \<sigma>)
  have "\<sigma> n = Some t \<Longrightarrow> t = at" for t using 1(2,3) by (auto simp: agrees_def)
  then have "\<not> (\<sigma> n \<noteq> None \<and> \<sigma> n \<noteq> Some at)" by (cases "\<sigma> n") auto
  moreover have "\<rho> n = None" if "n \<notin> set tps" using 1(1) that by auto
  ultimately show ?case using 1(2,3) by (auto simp: agrees_def)
next
  case (4 tps p ps a as \<sigma>)
  then show ?case by (auto split: prod.splits)
qed auto

section \<open>unify on texts is matching on trees\<close>

lemma unify_fold:
  assumes "length ps = length as" "list_all wf_ty ps" "list_all wf_ty as" "ok_subst \<sigma>"
    "\<forall>n\<in>set tps. ok_name n \<and> n \<noteq> ''str''"
    "\<And>p a \<sigma>. p \<in> set ps \<Longrightarrow> wf_ty a \<Longrightarrow> ok_subst \<sigma> \<Longrightarrow>
      unify (show_ty p) (show_ty a) tps (texts \<sigma>) = (case matchT tps p a \<sigma> of (r, \<sigma>') \<Rightarrow> (r, texts \<sigma>'))"
  shows "fold (\<lambda>(p, a) (ok, m'). case unify p a tps m' of (r, m'') \<Rightarrow> (ok \<and> r, m''))
      (zip (map show_ty ps) (map show_ty as)) (ok, texts \<sigma>)
    = (case matchTs tps ps as \<sigma> of (r, \<sigma>') \<Rightarrow> (ok \<and> r, texts \<sigma>'))"
  using assms
proof (induction ps as arbitrary: ok \<sigma> rule: list_induct2)
  case (Cons p ps a as)
  obtain r \<sigma>1 where m: "matchT tps p a \<sigma> = (r, \<sigma>1)" by fastforce
  have "ok_subst \<sigma>1" using matchT_wf [of a \<sigma> tps p] Cons.prems m by simp
  then have "fold (\<lambda>(p, a) (ok, m'). case unify p a tps m' of (r, m'') \<Rightarrow> (ok \<and> r, m''))
      (zip (map show_ty ps) (map show_ty as)) (ok \<and> r, texts \<sigma>1)
    = (case matchTs tps ps as \<sigma>1 of (rs, \<sigma>') \<Rightarrow> ((ok \<and> r) \<and> rs, texts \<sigma>'))"
    using Cons.IH [of \<sigma>1 "ok \<and> r"] Cons.prems by simp
  moreover have "unify (show_ty p) (show_ty a) tps (texts \<sigma>) = (r, texts \<sigma>1)"
    using Cons.prems(5) [of p a \<sigma>] Cons.prems m by simp
  ultimately show ?case using m by (simp split: prod.splits)
qed simp

lemma unify_names:
  assumes "ok_name n" "n \<in> set tps"
  shows "unify n at tps m = (if m n \<noteq> None \<and> m n \<noteq> Some at then (False, m) else (True, m(n \<mapsto> at)))"
  using assms(2) by (subst unify.simps) simp

lemma unify_refines:
  "wf_ty p \<Longrightarrow> wf_ty a \<Longrightarrow> ok_subst \<sigma> \<Longrightarrow> \<forall>n\<in>set tps. ok_name n \<and> n \<noteq> ''str'' \<Longrightarrow>
   unify (show_ty p) (show_ty a) tps (texts \<sigma>) = (case matchT tps p a \<sigma> of (r, \<sigma>') \<Rightarrow> (r, texts \<sigma>'))"
proof (induction p arbitrary: a \<sigma>)
  case (TName n)
  show ?case
  proof (cases "n \<in> set tps")
    case True
    have inj: "show_ty u = show_ty a \<longleftrightarrow> u = a" if "\<sigma> n = Some u" for u
      using show_inject that TName.prems(2,3) by (auto simp: ok_subst_def)
    have "texts (\<sigma>(n \<mapsto> a)) = (texts \<sigma>)(n \<mapsto> show_ty a)" by auto
    then show ?thesis using True inj by (subst unify.simps) (auto split: option.splits)
  next
    case False
    then have "\<not> is_list n" "\<not> is_map n" "\<not> is_taint n" "CHR ''['' \<notin> set n"
      using is_list_show [OF TName.prems(1)] is_map_show [OF TName.prems(1)]
        is_taint_show [OF TName.prems(1)] bracket_show [OF TName.prems(1)] by auto
    moreover have "n = show_ty a \<longleftrightarrow> TName n = a" using show_inject [OF TName.prems(1,2)] by simp
    ultimately show ?thesis using False by (subst unify.simps) simp
  qed
next
  case (TApp b ps)
  define s where s: "s = show_ty (TApp b ps)"
  define t where t: "t = show_ty a"
  have nt: "s \<notin> set tps"
  proof
    assume "s \<in> set tps"
    then have "CHR ''['' \<notin> set s" using TApp.prems(4) ok_nameD(2) by blast
    then show False by (simp add: s)
  qed
  have ws: "is_list s \<longleftrightarrow> (\<exists>us. TApp b ps = TApp ''list'' us)"
    "is_map s \<longleftrightarrow> (\<exists>v. TApp b ps = TApp ''map'' [TName ''str'', v])"
    "is_taint s \<longleftrightarrow> (\<exists>us. TApp b ps = TApp ''tainted'' us)" "CHR ''['' \<in> set s"
    "type_base s = b" "type_args s = map show_ty ps"
    using is_list_show [OF TApp.prems(1)] is_map_show [OF TApp.prems(1)]
      is_taint_show [OF TApp.prems(1)] type_base_show [OF TApp.prems(1)] type_args_show [OF TApp.prems(1)]
    by (simp_all only: s) simp
  have wt: "is_list t \<longleftrightarrow> (\<exists>us. a = TApp ''list'' us)"
    "is_map t \<longleftrightarrow> (\<exists>v. a = TApp ''map'' [TName ''str'', v])"
    "is_taint t \<longleftrightarrow> (\<exists>us. a = TApp ''tainted'' us)"
    "CHR ''['' \<in> set t \<longleftrightarrow> (\<exists>c us. a = TApp c us)"
    using is_list_show [OF TApp.prems(2)] is_map_show [OF TApp.prems(2)]
      is_taint_show [OF TApp.prems(2)] bracket_show [OF TApp.prems(2)]
    by (simp_all only: t)
  have eq: "s = t \<longleftrightarrow> TApp b ps = a" using show_inject [OF TApp.prems(1,2)] by (simp only: s t)
  note step = unify.simps [of s t tps "texts \<sigma>"]
  have "unify s t tps (texts \<sigma>) = (case matchT tps (TApp b ps) a \<sigma> of (r, \<sigma>') \<Rightarrow> (r, texts \<sigma>'))"
  proof (cases a)
    case (TName n)
    then show ?thesis using step nt wt eq by simp
  next
    case a: (TApp c as)
    have IH: "unify (show_ty p) (show_ty x) tps (texts \<sigma>) = (case matchT tps p x \<sigma> of (r, \<sigma>') \<Rightarrow> (r, texts \<sigma>'))"
      if "p \<in> set ps" "wf_ty x" "ok_subst \<sigma>" for p x \<sigma>
      using TApp.IH [OF that(1)] that TApp.prems(1,4) by (auto simp: list_all_iff)
    have ta: "type_base t = c" "type_args t = map show_ty as"
      using type_base_show [of c as] type_args_show [of c as] TApp.prems(2) by (simp_all only: t a)
    have arity: "b = ''list'' \<or> b = ''tainted'' \<Longrightarrow> \<exists>p. ps = [p]"
      "c = ''list'' \<or> c = ''tainted'' \<Longrightarrow> \<exists>x. as = [x]"
      using TApp.prems(1,2) by (auto simp: a length_Suc_conv)
    consider "b \<noteq> c" | "b = c" "b = ''list''" | "b = c" "b = ''tainted''"
      | "b = c" "is_map s" "is_map t"
      | "b = c" "b \<noteq> ''list''" "b \<noteq> ''tainted''" "\<not> (is_map s \<and> is_map t)"
      by blast
    then show ?thesis
    proof cases
      case 1
      then show ?thesis using step nt ws wt ta eq a by auto
    next
      case 2
      then obtain p x where 2: "b = ''list''" "c = ''list''" "ps = [p]" "as = [x]" using arity by blast
      then have "list_elem s = show_ty p" "list_elem t = show_ty x" by (simp_all only: s t a list_elem_show)
      then show ?thesis using 2 step nt ws wt IH [of p x \<sigma>] TApp.prems a by (simp split: prod.splits)
    next
      case 3
      then obtain p x where 3: "b = ''tainted''" "c = ''tainted''" "ps = [p]" "as = [x]" using arity by blast
      then have "taint_inner s = show_ty p" "taint_inner t = show_ty x"
        using taint_inner_show [of p] taint_inner_show [of x] TApp.prems(1,2) a by (simp_all only: s t) simp_all
      then show ?thesis using 3 step nt ws wt IH [of p x \<sigma>] TApp.prems a by (simp split: prod.splits)
    next
      case 4
      then obtain p x where 4: "b = ''map''" "c = ''map''" "ps = [TName ''str'', p]" "as = [TName ''str'', x]"
        unfolding ws wt a by blast
      then have "map_val s = show_ty p" "map_val t = show_ty x" by (simp_all only: s t a map_val_show)
      moreover have "''str'' \<notin> set tps" using TApp.prems(4) by blast
      ultimately show ?thesis using 4 step nt ws wt IH [of p x \<sigma>] TApp.prems a by (simp split: prod.splits)
    next
      case 5
      then have nl: "\<not> is_list s" "\<not> is_taint s" using ws(1,3) by auto
      from 5 have "unify s t tps (texts \<sigma>) =
          (if length ps \<noteq> length as then (False, texts \<sigma>)
           else fold (\<lambda>(p, a) (ok, m'). case unify p a tps m' of (r, m'') \<Rightarrow> (ok \<and> r, m''))
             (zip (map show_ty ps) (map show_ty as)) (True, texts \<sigma>))"
        using nl step nt ws(4-6) wt(4) ta a by auto
      moreover have "list_all wf_ty ps" "list_all wf_ty as" using TApp.prems(1,2) a by auto
      ultimately show ?thesis
        using 5 a unify_fold [of ps as \<sigma> tps True] TApp.prems(3,4) IH by simp
    qed
  qed
  then show ?case by (simp only: s t)
qed

text \<open>C19. unify succeeds exactly when the argument type is an instance of the parameter type, and
  then its bindings are such an instance: instantiating the parameter type with them gives the
  argument type back (when that mentions no type parameter and the nesting is within the cap).\<close>

theorem unify_matches:
  assumes "wf_ty p" "wf_ty a" "\<forall>n\<in>set tps. ok_name n \<and> n \<noteq> ''str''"
  shows "(fst (unify (show_ty p) (show_ty a) tps Map.empty)
        \<longleftrightarrow> (\<exists>\<rho>. dom \<rho> \<subseteq> set tps \<and> substT \<rho> p = a))
    \<and> (fst (unify (show_ty p) (show_ty a) tps Map.empty) \<and> names a \<inter> set tps = {} \<and> height p \<le> 16
        \<longrightarrow> instantiate_type (show_ty p) (snd (unify (show_ty p) (show_ty a) tps Map.empty)) = show_ty a)"
proof -
  obtain r \<sigma> where m: "matchT tps p a Map.empty = (r, \<sigma>)" by fastforce
  have e: "ok_subst Map.empty" by (simp add: ok_subst_def)
  have u: "unify (show_ty p) (show_ty a) tps Map.empty = (r, texts \<sigma>)"
    using unify_refines [OF assms(1,2) e assms(3)] m by simp
  have d: "dom \<sigma> \<subseteq> set tps" using matchT_grows(1) [of Map.empty tps p a] m by simp
  have s: "substT \<sigma> p = a" if r using matchT_sound(1) [of tps p a Map.empty] m that by simp
  have c: "r" if "dom \<rho> \<subseteq> set tps" "substT \<rho> p = a" for \<rho>
    using matchT_complete(1) [OF that(1) _ that(2), of Map.empty] m by (simp add: agrees_def)
  have i: "instantiate_type (show_ty p) (texts \<sigma>) = show_ty a"
    if "r" "names a \<inter> set tps = {}" "height p \<le> 16"
  proof -
    have "ok_subst \<sigma>" using matchT_wf [OF assms(2) e assms(3), of p] m by simp
    moreover have "\<forall>n u. \<sigma> n = Some u \<longrightarrow> names u \<inter> dom \<sigma> = {}"
      using matchT_names [OF that(2), of tps p] m d unfolding all_bound_def by fastforce
    ultimately show ?thesis
      unfolding instantiate_type_def using inst_subst [OF assms(1)] that(3) s [OF that(1)] by simp
  qed
  show ?thesis using u s c i d by auto
qed

lemma unify_matches_witness:
  "fst (unify ''map[str, list[T]]'' ''map[str, list[int]]'' [''T''] Map.empty)"
proof -
  let ?p = "TApp ''map'' [TName ''str'', TApp ''list'' [TName ''T'']]"
  let ?a = "TApp ''map'' [TName ''str'', TApp ''list'' [TName ''int'']]"
  have "wf_ty ?p" "wf_ty ?a" "\<forall>n\<in>set [''T'']. ok_name n \<and> n \<noteq> ''str''"
    by (simp_all add: ok_name_def is_space_def code_of_def)
  moreover have "dom [''T'' \<mapsto> TName ''int''] \<subseteq> set [''T''] \<and> substT [''T'' \<mapsto> TName ''int''] ?p = ?a" by simp
  ultimately have "fst (unify (show_ty ?p) (show_ty ?a) [''T''] Map.empty)"
    using unify_matches [of ?p ?a "[''T'']"] by blast
  then show ?thesis by simp
qed

end
