(* ===== verification/Bpf.thy ===== *)
theory Bpf
  imports PyText
begin

unbundle bit_operations_syntax

text \<open>
  The seccomp-bpf filter assembler, src/tools/sandbox_parts/sbx_bpf.py: instructions with their
  range checks and their byte encoding, the label assembler \<open>Asm\<close> (emission, fix-up list, the
  resolution of \<open>finish\<close>) and the machine the instructions are written for. The machine is the
  kernel's: the locale \<open>seccomp_kernel\<close> states of it what the comments of the source document
  (the meaning of the four instructions emitted, jump offsets relative to the next instruction, the
  layout of \<open>struct seccomp_data\<close>), and is interpreted by an executable machine.

  A label is its Python name; a \<open>ValueError\<close> is a constructor of \<open>asm_error\<close>.
\<close>

section \<open>Constants\<close>

definition BPF_LD_W_ABS :: int where "BPF_LD_W_ABS = 0x20"
definition BPF_JEQ_K :: int where "BPF_JEQ_K = 0x15"
definition BPF_JSET_K :: int where "BPF_JSET_K = 0x45"
definition BPF_RET_K :: int where "BPF_RET_K = 0x06"

definition OFF_NR :: int where "OFF_NR = 0"
definition OFF_ARCH :: int where "OFF_ARCH = 4"

definition SECCOMP_RET_KILL_PROCESS :: int where "SECCOMP_RET_KILL_PROCESS = 0x80000000"
definition SECCOMP_RET_TRAP :: int where "SECCOMP_RET_TRAP = 0x00030000"
definition SECCOMP_RET_ERRNO :: int where "SECCOMP_RET_ERRNO = 0x00050000"
definition SECCOMP_RET_LOG :: int where "SECCOMP_RET_LOG = 0x7FFC0000"
definition SECCOMP_RET_ALLOW :: int where "SECCOMP_RET_ALLOW = 0x7FFF0000"
definition EPERM :: int where "EPERM = 1"

definition AUDIT_ARCH_X86_64 :: int where "AUDIT_ARCH_X86_64 = 0xC000003E"
definition AUDIT_ARCH_AARCH64 :: int where "AUDIT_ARCH_AARCH64 = 0xC00000B7"
definition AUDIT_ARCH_RISCV64 :: int where "AUDIT_ARCH_RISCV64 = 0xC00000F3"

definition BPF_MAXINSNS :: nat where "BPF_MAXINSNS = 4096"

lemmas opcode_defs = BPF_LD_W_ABS_def BPF_JEQ_K_def BPF_JSET_K_def BPF_RET_K_def

datatype asm_error =
    ArgIndex int | ErrnoRange int | JumpField int int | KRange int
  | LabelTwice string | NoTarget | NoSuchLabel "string option" | BackwardJump string
  | JumpTooFar string int | TooManyInsns

definition off_arg_low :: "int \<Rightarrow> asm_error + int" where
  "off_arg_low arg_index =
     (if \<not> (0 \<le> arg_index \<and> arg_index \<le> 5) then Inl (ArgIndex arg_index)
      else Inr (16 + 8 * arg_index))"

definition ret_errno :: "int \<Rightarrow> asm_error + int" where
  "ret_errno err =
     (if \<not> (0 < err \<and> err \<le> 0xFFFF) then Inl (ErrnoRange err)
      else Inr (SECCOMP_RET_ERRNO OR err))"

section \<open>Instructions\<close>

record bpf_instr =
  i_code :: int
  i_jt :: int
  i_jf :: int
  i_k :: int

definition mk_instr :: "int \<Rightarrow> int \<Rightarrow> int \<Rightarrow> int \<Rightarrow> asm_error + bpf_instr" where
  "mk_instr code jt jf k =
     (if \<not> (0 \<le> jt \<and> jt \<le> 0xFF) \<or> \<not> (0 \<le> jf \<and> jf \<le> 0xFF) then Inl (JumpField jt jf)
      else if \<not> (0 \<le> k \<and> k \<le> 0xFFFFFFFF) then Inl (KRange k)
      else Inr \<lparr>i_code = code, i_jt = jt, i_jf = jf, i_k = k\<rparr>)"

text \<open>\<open>struct.pack("<HBBI", ...)\<close>: little-endian, two bytes, one, one, four.\<close>

fun le_bytes :: "nat \<Rightarrow> int \<Rightarrow> int list" where
  "le_bytes 0 v = []"
| "le_bytes (Suc n) v = v mod 256 # le_bytes n (v div 256)"

definition words :: "bpf_instr \<Rightarrow> int list" where
  "words i = le_bytes 2 (i_code i) @ le_bytes 1 (i_jt i) @ le_bytes 1 (i_jf i) @ le_bytes 4 (i_k i)"

definition program_bytes :: "bpf_instr list \<Rightarrow> int list" where
  "program_bytes prog = concat (map words prog)"

section \<open>The label assembler\<close>

datatype jump_field = Jt | Jf

record asm =
  a_instrs :: "bpf_instr list"
  a_labels :: "string \<rightharpoonup> nat"
  a_fixups :: "(nat \<times> jump_field \<times> string option) list"

definition asm_new :: asm where
  "asm_new = \<lparr>a_instrs = [], a_labels = Map.empty, a_fixups = []\<rparr>"

definition here :: "asm \<Rightarrow> nat" where
  "here a = length (a_instrs a)"

definition asm_label :: "string \<Rightarrow> asm \<Rightarrow> asm_error + asm" where
  "asm_label name a =
     (if a_labels a name \<noteq> None then Inl (LabelTwice name)
      else Inr (a\<lparr>a_labels := (a_labels a)(name \<mapsto> length (a_instrs a))\<rparr>))"

definition asm_load :: "int \<Rightarrow> asm \<Rightarrow> asm_error + asm" where
  "asm_load offset a =
     bindE (mk_instr BPF_LD_W_ABS 0 0 offset) (\<lambda>i. Inr (a\<lparr>a_instrs := a_instrs a @ [i]\<rparr>))"

text \<open>Both fix-ups record \<open>jt_label\<close>, as the source does.\<close>

definition asm_jump :: "int \<Rightarrow> int \<Rightarrow> string option \<Rightarrow> string option \<Rightarrow> asm \<Rightarrow> asm_error + asm" where
  "asm_jump code k jt_label jf_label a =
     (if jt_label = None \<and> jf_label = None then Inl NoTarget
      else
        let idx = length (a_instrs a) in
        bindE (mk_instr code 0 0 k) (\<lambda>i.
          Inr (a\<lparr>a_instrs := a_instrs a @ [i],
                 a_fixups := a_fixups a
                   @ (if jt_label \<noteq> None then [(idx, Jt, jt_label)] else [])
                   @ (if jf_label \<noteq> None then [(idx, Jf, jt_label)] else [])\<rparr>)))"

definition asm_jeq :: "int \<Rightarrow> string option \<Rightarrow> string option \<Rightarrow> asm \<Rightarrow> asm_error + asm" where
  "asm_jeq k jt_label jf_label a = asm_jump BPF_JEQ_K k jt_label jf_label a"

definition asm_jset :: "int \<Rightarrow> string option \<Rightarrow> string option \<Rightarrow> asm \<Rightarrow> asm_error + asm" where
  "asm_jset k jt_label jf_label a = asm_jump BPF_JSET_K k jt_label jf_label a"

definition asm_ret :: "int \<Rightarrow> asm \<Rightarrow> asm_error + asm" where
  "asm_ret k a =
     bindE (mk_instr BPF_RET_K 0 0 k) (\<lambda>i. Inr (a\<lparr>a_instrs := a_instrs a @ [i]\<rparr>))"

text \<open>One turn of the fix-up loop of \<open>finish\<close>, the loop, and \<open>finish\<close>.\<close>

definition resolve_one ::
  "(string \<rightharpoonup> nat) \<Rightarrow> nat \<times> jump_field \<times> string option \<Rightarrow> bpf_instr list \<Rightarrow> asm_error + bpf_instr list" where
  "resolve_one labels fx ins =
     (case fx of (idx, fld, label) \<Rightarrow>
        (case label of
           None \<Rightarrow> Inl (NoSuchLabel None)
         | Some l \<Rightarrow>
             (case labels l of
                None \<Rightarrow> Inl (NoSuchLabel (Some l))
              | Some target \<Rightarrow>
                  let rel = int target - int idx - 1; i = ins ! idx in
                  if rel < 0 then Inl (BackwardJump l)
                  else if rel > 0xFF then Inl (JumpTooFar l rel)
                  else bindE (if fld = Jt then mk_instr (i_code i) rel (i_jf i) (i_k i)
                              else mk_instr (i_code i) (i_jt i) rel (i_k i))
                         (\<lambda>i'. Inr (ins[idx := i'])))))"

fun foldE :: "('a \<Rightarrow> 's \<Rightarrow> 'e + 's) \<Rightarrow> 'a list \<Rightarrow> 's \<Rightarrow> 'e + 's" where
  "foldE f [] s = Inr s"
| "foldE f (x # xs) s = bindE (f x s) (foldE f xs)"

definition finish :: "asm \<Rightarrow> asm_error + bpf_instr list" where
  "finish a =
     bindE (foldE (resolve_one (a_labels a)) (a_fixups a) (a_instrs a)) (\<lambda>ins.
       if length ins > BPF_MAXINSNS then Inl TooManyInsns else Inr ins)"

section \<open>The machine\<close>

text \<open>The words of \<open>struct seccomp_data\<close> by their offset.\<close>

record seccomp_data =
  sd_nr :: "32 word"
  sd_arch :: "32 word"
  sd_ip :: "64 word"
  sd_args :: "64 word list"

definition arg_of :: "seccomp_data \<Rightarrow> nat \<Rightarrow> 64 word" where
  "arg_of d i = (if i < length (sd_args d) then sd_args d ! i else 0)"

definition arg_low :: "seccomp_data \<Rightarrow> int \<Rightarrow> int" where
  "arg_low d i = uint (arg_of d (nat i)) mod 2 ^ 32"

definition data_word :: "seccomp_data \<Rightarrow> int \<Rightarrow> int" where
  "data_word d off =
     (if off = 0 then uint (sd_nr d)
      else if off = 4 then uint (sd_arch d)
      else if off = 8 then uint (sd_ip d) mod 2 ^ 32
      else if off = 12 then uint (sd_ip d) div 2 ^ 32
      else if (off - 16) mod 8 = 0 then arg_low d ((off - 16) div 8)
      else uint (arg_of d (nat ((off - 20) div 8))) div 2 ^ 32)"

text \<open>\<open>K is d acc\<close> is the verdict of the kernel on the instructions \<open>is\<close> that follow, with the
  accumulator \<open>acc\<close>: the laws are the comments beside the four opcodes.\<close>

locale seccomp_kernel =
  fixes K :: "bpf_instr list \<Rightarrow> seccomp_data \<Rightarrow> int \<Rightarrow> int option"
  assumes K_ld: "i_code i = BPF_LD_W_ABS \<Longrightarrow> K (i # is) d acc = K is d (data_word d (i_k i))"
    and K_jeq: "i_code i = BPF_JEQ_K \<Longrightarrow>
      K (i # is) d acc = K (drop (nat (if acc = i_k i then i_jt i else i_jf i)) is) d acc"
    and K_jset: "i_code i = BPF_JSET_K \<Longrightarrow>
      K (i # is) d acc = K (drop (nat (if acc AND i_k i \<noteq> 0 then i_jt i else i_jf i)) is) d acc"
    and K_ret: "i_code i = BPF_RET_K \<Longrightarrow> K (i # is) d acc = Some (i_k i)"

function bpf_run :: "bpf_instr list \<Rightarrow> seccomp_data \<Rightarrow> int \<Rightarrow> int option" where
  "bpf_run [] d acc = None"
| "bpf_run (i # is) d acc =
     (if i_code i = BPF_LD_W_ABS then bpf_run is d (data_word d (i_k i))
      else if i_code i = BPF_JEQ_K then
        bpf_run (drop (nat (if acc = i_k i then i_jt i else i_jf i)) is) d acc
      else if i_code i = BPF_JSET_K then
        bpf_run (drop (nat (if acc AND i_k i \<noteq> 0 then i_jt i else i_jf i)) is) d acc
      else if i_code i = BPF_RET_K then Some (i_k i)
      else None)"
  by pat_completeness auto

termination bpf_run
  by (relation "measure (\<lambda>(is, d, acc). length is)") (auto simp: less_Suc_eq_le)

interpretation bpf: seccomp_kernel bpf_run
  by unfold_locales (simp_all add: opcode_defs)

section \<open>What the assembler emits\<close>

text \<open>An instruction's fields fit their C types; the assembler's own bookkeeping: one fix-up at
  most for an instruction, and every label at a position of the program so far or its end.\<close>

definition instr_ok :: "bpf_instr \<Rightarrow> bool" where
  "instr_ok i \<longleftrightarrow> 0 \<le> i_jt i \<and> i_jt i \<le> 0xFF \<and> 0 \<le> i_jf i \<and> i_jf i \<le> 0xFF
     \<and> 0 \<le> i_k i \<and> i_k i \<le> 0xFFFFFFFF"

definition asm_ok :: "asm \<Rightarrow> bool" where
  "asm_ok a \<longleftrightarrow> distinct (map fst (a_fixups a))
     \<and> (\<forall>(p, f, l) \<in> set (a_fixups a). p < here a \<and> f = Jt)
     \<and> (\<forall>i \<in> set (a_instrs a). instr_ok i)"

definition emitted :: "asm \<Rightarrow> nat \<Rightarrow> bpf_instr \<Rightarrow> string option \<Rightarrow> bool" where
  "emitted a p i l \<longleftrightarrow> p < here a \<and> a_instrs a ! p = i
     \<and> (case l of None \<Rightarrow> p \<notin> fst ` set (a_fixups a) | Some x \<Rightarrow> (p, Jt, Some x) \<in> set (a_fixups a))"

definition extends :: "asm \<Rightarrow> asm \<Rightarrow> bool" where
  "extends a b \<longleftrightarrow> (\<exists>xs fs. a_instrs b = a_instrs a @ xs \<and> a_fixups b = a_fixups a @ fs
     \<and> (\<forall>(p, _) \<in> set fs. here a \<le> p)) \<and> a_labels a \<subseteq>\<^sub>m a_labels b"

abbreviation plain :: "int \<Rightarrow> int \<Rightarrow> bpf_instr" where
  "plain code k \<equiv> \<lparr>i_code = code, i_jt = 0, i_jf = 0, i_k = k\<rparr>"

lemma set_jt: "i\<lparr>i_jt := t\<rparr> = \<lparr>i_code = i_code i, i_jt = t, i_jf = i_jf i, i_k = i_k i\<rparr>"
  by (cases i) simp

lemma mk_instr_Inr: "mk_instr c t f k = Inr i \<longleftrightarrow>
    i = \<lparr>i_code = c, i_jt = t, i_jf = f, i_k = k\<rparr> \<and> instr_ok i"
  by (auto simp: mk_instr_def instr_ok_def)

lemma extends_refl [simp, intro]: "extends a a"
  by (simp add: extends_def)

lemma extends_here: "extends a b \<Longrightarrow> here a \<le> here b"
  by (auto simp: extends_def here_def)

lemma extends_trans [trans]:
  assumes "extends a b" "extends b c"
  shows "extends a c"
  using assms extends_here [OF assms(1)]
  by (auto simp: extends_def ball_Un intro: map_le_trans) fastforce

lemma extends_label: "extends a b \<Longrightarrow> a_labels a l = Some p \<Longrightarrow> a_labels b l = Some p"
  by (auto simp: extends_def map_le_def dom_def)

lemma extends_emitted: "extends a b \<Longrightarrow> emitted a p i l \<Longrightarrow> emitted b p i l"
  by (fastforce simp: extends_def emitted_def here_def nth_append split: option.splits)

lemma asm_new_ok [simp]: "asm_ok asm_new"
  by (simp add: asm_new_def asm_ok_def)

lemma here_new [simp]: "here asm_new = 0"
  by (simp add: asm_new_def here_def)

definition pushed :: "asm \<Rightarrow> asm \<Rightarrow> bpf_instr \<Rightarrow> string option \<Rightarrow> bool" where
  "pushed a b i l \<longleftrightarrow> asm_ok b \<and> extends a b \<and> emitted b (here a) i l \<and> here b = Suc (here a)
     \<and> a_labels b = a_labels a"

lemma pushI:
  assumes "asm_ok a" "instr_ok i"
    "b = a\<lparr>a_instrs := a_instrs a @ [i],
           a_fixups := a_fixups a @ (case l of None \<Rightarrow> [] | Some x \<Rightarrow> [(here a, Jt, Some x)])\<rparr>"
  shows "pushed a b i l"
  using assms
  by (auto simp: pushed_def asm_ok_def extends_def emitted_def here_def split: option.splits)

lemma asm_load_Inr: "asm_load k a = Inr b \<Longrightarrow> asm_ok a \<Longrightarrow> pushed a b (plain BPF_LD_W_ABS k) None"
  by (auto simp: asm_load_def bindE_eq_Inr mk_instr_Inr intro!: pushI)

lemma asm_ret_Inr: "asm_ret k a = Inr b \<Longrightarrow> asm_ok a \<Longrightarrow> pushed a b (plain BPF_RET_K k) None"
  by (auto simp: asm_ret_def bindE_eq_Inr mk_instr_Inr intro!: pushI)

lemma asm_jump_Inr:
  "asm_jump c k (Some l) None a = Inr b \<Longrightarrow> asm_ok a \<Longrightarrow> pushed a b (plain c k) (Some l)"
  by (auto simp: asm_jump_def bindE_eq_Inr mk_instr_Inr Let_def here_def intro!: pushI)

lemmas asm_jeq_Inr = asm_jump_Inr [of BPF_JEQ_K, folded asm_jeq_def]
lemmas asm_jset_Inr = asm_jump_Inr [of BPF_JSET_K, folded asm_jset_def]

lemma asm_label_Inr:
  assumes "asm_label l a = Inr b" "asm_ok a"
  shows "asm_ok b" "extends a b" "a_labels b l = Some (here a)" "here b = here a"
    "a_labels b = (a_labels a)(l \<mapsto> here a)"
  using assms by (auto simp: asm_label_def here_def asm_ok_def extends_def map_le_def split: if_splits)

lemma pushedD:
  assumes "pushed a b i l"
  shows "asm_ok b" "extends a b" "emitted b (here a) i l" "here b = Suc (here a)"
    "a_labels b = a_labels a"
  using assms by (simp_all add: pushed_def)

section \<open>Resolution\<close>

lemma resolve_one_Inr:
  assumes "resolve_one L (p, Jt, l) ins = Inr ins'"
  obtains x t where "l = Some x" "L x = Some t" "p < t" "t \<le> p + 256"
    "ins' = ins[p := (ins ! p)\<lparr>i_jt := int t - int p - 1\<rparr>]"
  using assms
  by (force simp: resolve_one_def Let_def bindE_eq_Inr mk_instr_Inr set_jt
      split: option.splits if_splits)

lemma resolve_all:
  assumes "foldE (resolve_one L) fs ins = Inr ins'" "distinct (map fst fs)"
    "\<And>p f l. (p, f, l) \<in> set fs \<Longrightarrow> p < length ins \<and> f = Jt"
  shows "length ins' = length ins
     \<and> (\<forall>p. p \<notin> fst ` set fs \<longrightarrow> ins' ! p = ins ! p)
     \<and> (\<forall>p l. (p, Jt, Some l) \<in> set fs \<longrightarrow>
          (\<exists>t. L l = Some t \<and> p < t \<and> ins' ! p = (ins ! p)\<lparr>i_jt := int t - int p - 1\<rparr>))"
  using assms
proof (induction fs arbitrary: ins)
  case Nil
  then show ?case by simp
next
  case (Cons fx fs)
  obtain p f l where fx: "fx = (p, f, l)" by (cases fx)
  with Cons.prems(3) [of p f l] have p: "p < length ins" "f = Jt" by simp_all
  from Cons.prems(1) obtain ins1 where 1: "resolve_one L (p, Jt, l) ins = Inr ins1"
    and 2: "foldE (resolve_one L) fs ins1 = Inr ins'"
    by (auto simp: fx p bindE_eq_Inr)
  from 1 obtain x t where x: "l = Some x" "L x = Some t" "p < t"
    "ins1 = ins[p := (ins ! p)\<lparr>i_jt := int t - int p - 1\<rparr>]"
    by (rule resolve_one_Inr)
  have len: "length ins1 = length ins" using x by simp
  have IH: "length ins' = length ins1
     \<and> (\<forall>p. p \<notin> fst ` set fs \<longrightarrow> ins' ! p = ins1 ! p)
     \<and> (\<forall>p l. (p, Jt, Some l) \<in> set fs \<longrightarrow>
          (\<exists>t. L l = Some t \<and> p < t \<and> ins' ! p = (ins1 ! p)\<lparr>i_jt := int t - int p - 1\<rparr>))"
    using Cons.prems(2,3) len by (intro Cons.IH [OF 2]) auto
  from Cons.prems(2) have notin: "p \<notin> fst ` set fs" by (simp add: fx)
  have other: "q \<noteq> p" if "(q, Jt, Some y) \<in> set fs" for q y using that notin by force
  have "ins1 ! q = ins ! q" if "(q, Jt, Some y) \<in> set fs" for q y
    using other [OF that] by (simp add: x(4))
  then show ?case using IH x notin p by (auto simp: fx)
qed

lemma resolve_total:
  assumes "\<And>p f l. (p, f, l) \<in> set fs \<Longrightarrow>
      p < length ins \<and> f = Jt \<and> (\<exists>x t. l = Some x \<and> L x = Some t \<and> p < t \<and> t \<le> p + 256)"
    "\<And>i. i \<in> set ins \<Longrightarrow> instr_ok i"
  shows "\<exists>ins'. foldE (resolve_one L) fs ins = Inr ins'"
  using assms
proof (induction fs arbitrary: ins)
  case Nil
  then show ?case by simp
next
  case (Cons fx fs)
  obtain p f l where fx: "fx = (p, f, l)" by (cases fx)
  with Cons.prems(1) [of p f l] obtain x t where
    x: "p < length ins" "f = Jt" "l = Some x" "L x = Some t" "p < t" "t \<le> p + 256" by auto
  define i where "i = (ins ! p)\<lparr>i_jt := int t - int p - 1\<rparr>"
  have "instr_ok (ins ! p)" using Cons.prems(2) x(1) by simp
  then have ok: "instr_ok i" using x by (simp add: i_def instr_ok_def)
  then have 1: "resolve_one L fx ins = Inr (ins[p := i])"
    using x by (simp add: fx resolve_one_def Let_def bindE_eq_Inr mk_instr_Inr i_def set_jt)
  have "\<exists>ins'. foldE (resolve_one L) fs (ins[p := i]) = Inr ins'"
  proof (rule Cons.IH)
    fix q g m
    assume "(q, g, m) \<in> set fs"
    then show "q < length (ins[p := i]) \<and> g = Jt
        \<and> (\<exists>x t. m = Some x \<and> L x = Some t \<and> q < t \<and> t \<le> q + 256)"
      using Cons.prems(1) [of q g m] by simp
  next
    fix j
    assume "j \<in> set (ins[p := i])"
    then show "instr_ok j" using ok Cons.prems(2) set_update_subset_insert [of ins p i] by blast
  qed
  with 1 show ?case by simp
qed

lemma finish_emitted:
  assumes "finish a = Inr prog" "asm_ok a"
  shows "length prog = here a"
    and "emitted a p i None \<Longrightarrow> prog ! p = i"
    and "emitted a p i (Some l) \<Longrightarrow>
      \<exists>t. a_labels a l = Some t \<and> p < t \<and> prog ! p = i\<lparr>i_jt := int t - int p - 1\<rparr>"
proof -
  from assms(1) have "foldE (resolve_one (a_labels a)) (a_fixups a) (a_instrs a) = Inr prog"
    by (auto simp: finish_def bindE_eq_Inr split: if_splits)
  note R = resolve_all [OF this]
  have *: "length prog = length (a_instrs a)
     \<and> (\<forall>p. p \<notin> fst ` set (a_fixups a) \<longrightarrow> prog ! p = a_instrs a ! p)
     \<and> (\<forall>p l. (p, Jt, Some l) \<in> set (a_fixups a) \<longrightarrow> (\<exists>t. a_labels a l = Some t \<and> p < t
          \<and> prog ! p = (a_instrs a ! p)\<lparr>i_jt := int t - int p - 1\<rparr>))"
    by (rule R) (use assms(2) in \<open>auto simp: asm_ok_def here_def\<close>)
  from * show "length prog = here a" by (simp add: here_def)
  from * show "prog ! p = i" if "emitted a p i None" using that by (simp add: emitted_def)
  from * show "\<exists>t. a_labels a l = Some t \<and> p < t \<and> prog ! p = i\<lparr>i_jt := int t - int p - 1\<rparr>"
    if "emitted a p i (Some l)" using that by (auto simp: emitted_def)
qed

text \<open>The program runs as it was emitted, with jumps to the positions of their labels.\<close>

context seccomp_kernel
begin

lemma drop_here: "finish a = Inr prog \<Longrightarrow> asm_ok a \<Longrightarrow> emitted a p i l \<Longrightarrow>
    drop p prog = prog ! p # drop (Suc p) prog"
  by (metis Cons_nth_drop_Suc emitted_def finish_emitted(1))

lemma run_ld:
  assumes "finish a = Inr prog" "asm_ok a" "emitted a p (plain BPF_LD_W_ABS k) None"
  shows "K (drop p prog) d acc = K (drop (Suc p) prog) d (data_word d k)"
  by (simp add: drop_here [OF assms] finish_emitted(2) [OF assms] K_ld)

lemma run_ret:
  assumes "finish a = Inr prog" "asm_ok a" "emitted a p (plain BPF_RET_K k) None"
  shows "K (drop p prog) d acc = Some k"
  by (simp add: drop_here [OF assms] finish_emitted(2) [OF assms] K_ret)

lemma jump_target:
  assumes "finish a = Inr prog" "asm_ok a" "emitted a p (plain c k) (Some l)" "a_labels a l = Some t"
  shows "drop p prog = \<lparr>i_code = c, i_jt = int t - int p - 1, i_jf = 0, i_k = k\<rparr> # drop (Suc p) prog"
    and "drop (nat (int t - int p - 1)) (drop (Suc p) prog) = drop t prog"
proof -
  from finish_emitted(3) [OF assms(1,2,3)] assms(4)
  have "p < t" "prog ! p = (plain c k)\<lparr>i_jt := int t - int p - 1\<rparr>" by auto
  moreover from this(1) have "Suc (nat (int t - int p - 1) + p) = t" by linarith
  ultimately show "drop p prog = \<lparr>i_code = c, i_jt = int t - int p - 1, i_jf = 0, i_k = k\<rparr> # drop (Suc p) prog"
    "drop (nat (int t - int p - 1)) (drop (Suc p) prog) = drop t prog"
    by (simp_all add: drop_here [OF assms(1-3)])
qed

lemma run_jeq:
  assumes "finish a = Inr prog" "asm_ok a" "emitted a p (plain BPF_JEQ_K k) (Some l)"
    "a_labels a l = Some t"
  shows "K (drop p prog) d acc = K (drop (if acc = k then t else Suc p) prog) d acc"
  using jump_target [OF assms] by (simp add: K_jeq)

lemma run_jset:
  assumes "finish a = Inr prog" "asm_ok a" "emitted a p (plain BPF_JSET_K k) (Some l)"
    "a_labels a l = Some t"
  shows "K (drop p prog) d acc = K (drop (if acc AND k \<noteq> 0 then t else Suc p) prog) d acc"
  using jump_target [OF assms] by (simp add: K_jset)

lemmas run_rules = run_ld run_ret run_jeq run_jset

end

end
