(* ===== verification/Policy.thy ===== *)
theory Policy
  imports Bpf "HOL-Library.List_Lexorder" "HOL-Library.Product_Lexorder"
begin

text \<open>
  The sandbox policy, src/tools/sandbox_parts/sbx_policy.py: the syscall tables of the three
  architectures, the baselines and effect layers, \<open>Rule.merge\<close>, the checks of
  \<open>Profile.__init__\<close>, the allowlist \<open>Profile.rules\<close>, the filter \<open>Profile.program\<close>, the
  derivation of the profile from the checker's call graph and the manifest's \<open>[sandbox]\<close> section.

  The checker's results (\<open>computed_effects\<close>, \<open>edges\<close>, the effects of the extern blocks) are
  arguments. A \<open>PolicyError\<close> is a constructor of \<open>sbx_error\<close>.
\<close>

section \<open>Tables\<close>

datatype arch = X86_64 | Aarch64 | Riscv64

type_synonym syscall_row = "int option \<times> int option \<times> int option \<times> string option"

definition SYSCALLS :: "(string \<times> syscall_row) list" where
  "SYSCALLS =
    [
     (''exit'', Some 60, Some 93, Some 93, None),
     (''exit_group'', Some 231, Some 94, Some 94, None),
     (''brk'', Some 12, Some 214, Some 214, None),
     (''execve'', Some 59, Some 221, Some 221, None),
     (''mmap'', Some 9, Some 222, Some 222, None),
     (''munmap'', Some 11, Some 215, Some 215, None),
     (''mprotect'', Some 10, Some 226, Some 226, None),
     (''mremap'', Some 25, Some 216, Some 216, None),
     (''madvise'', Some 28, Some 233, Some 233, None),
     (''read'', Some 0, Some 63, Some 63, None),
     (''write'', Some 1, Some 64, Some 64, None),
     (''readv'', Some 19, Some 65, Some 65, None),
     (''writev'', Some 20, Some 66, Some 66, None),
     (''ioctl'', Some 16, Some 29, Some 29, None),
     (''pread64'', Some 17, Some 67, Some 67, None),
     (''close'', Some 3, Some 57, Some 57, None),
     (''open'', Some 2, None, None, Some ''x86_64 only; asm-generic opens through openat''),
     (''openat'', Some 257, Some 56, Some 56, None),
     (''stat'', Some 4, None, None, Some ''x86_64 only; asm-generic answers via newfstatat''),
     (''fstat'', Some 5, Some 80, Some 80, None),
     (''lseek'', Some 8, Some 62, Some 62, None),
     (''newfstatat'', Some 262, Some 79, Some 79, None),
     (''statx'', Some 332, Some 291, Some 291, None),
     (''access'', Some 21, None, None, Some ''x86_64 only; asm-generic answers via faccessat''),
     (''faccessat'', Some 269, Some 48, Some 48, None),
     (''getdents64'', Some 217, Some 61, Some 61, None),
     (''readlink'', Some 89, None, None, Some ''x86_64 only; asm-generic answers via readlinkat''),
     (''readlinkat'', Some 267, Some 78, Some 78, None),
     (''unlink'', Some 87, None, None, Some ''x86_64 only; asm-generic answers via unlinkat''),
     (''unlinkat'', Some 263, Some 35, Some 35, None),
     (''rename'', Some 82, None, None, Some ''x86_64 only; asm-generic answers via renameat''),
     (''renameat'', Some 264, Some 38, Some 38, None),
     (''renameat2'', Some 316, Some 276, Some 276, None),
     (''mkdir'', Some 83, None, None, Some ''x86_64 only; asm-generic answers via mkdirat''),
     (''mkdirat'', Some 258, Some 34, Some 34, None),
     (''rmdir'', Some 84, None, None, Some ''x86_64 only; asm-generic answers via unlinkat''),
     (''chmod'', Some 90, None, None, Some ''x86_64 only; asm-generic answers via fchmodat''),
     (''fchmod'', Some 91, Some 52, Some 52, None),
     (''fchmodat'', Some 268, Some 53, Some 53, None),
     (''uname'', Some 63, Some 160, Some 160, None),
     (''arch_prctl'', Some 158, None, None, Some ''x86_64 only (TLS base); asm-generic uses nothing''),
     (''set_tid_address'', Some 218, Some 96, Some 96, None),
     (''set_robust_list'', Some 273, Some 99, Some 99, None),
     (''rseq'', Some 334, Some 293, Some 293, None),
     (''prlimit64'', Some 302, Some 261, Some 261, None),
     (''getrandom'', Some 318, Some 278, Some 278, None),
     (''futex'', Some 202, Some 98, Some 98, None),
     (''sched_yield'', Some 24, Some 124, Some 124, None),
     (''gettid'', Some 186, Some 178, Some 178, None),
     (''tgkill'', Some 234, Some 131, Some 131, None),
     (''getpid'', Some 39, Some 172, Some 172, None),
     (''rt_sigaction'', Some 13, Some 134, Some 134, None),
     (''rt_sigprocmask'', Some 14, Some 135, Some 135, None),
     (''clock_gettime'', Some 228, Some 113, Some 113, None),
     (''clock_getres'', Some 229, Some 114, Some 114, None),
     (''clock_nanosleep'', Some 230, Some 115, Some 115, None),
     (''nanosleep'', Some 35, Some 101, Some 101, None),
     (''gettimeofday'', Some 96, Some 169, Some 169, None),
     (''socket'', Some 41, Some 198, Some 198, None),
     (''connect'', Some 42, Some 203, Some 203, None),
     (''bind'', Some 49, Some 200, Some 200, None),
     (''listen'', Some 50, Some 201, Some 201, None),
     (''accept'', Some 43, Some 202, Some 202, None),
     (''accept4'', Some 288, Some 242, Some 242, None),
     (''shutdown'', Some 48, Some 210, Some 210, None),
     (''sendto'', Some 44, Some 206, Some 206, None),
     (''recvfrom'', Some 45, Some 207, Some 207, None),
     (''sendmsg'', Some 46, Some 211, Some 211, None),
     (''recvmsg'', Some 47, Some 212, Some 212, None),
     (''getsockname'', Some 51, Some 204, Some 204, None),
     (''getpeername'', Some 52, Some 205, Some 205, None),
     (''setsockopt'', Some 54, Some 208, Some 208, None),
     (''getsockopt'', Some 55, Some 209, Some 209, None),
     (''clone'', Some 56, Some 220, Some 220, None),
     (''clone3'', Some 435, Some 435, Some 435, None),
     (''fork'', Some 57, None, None, Some ''x86_64 only; asm-generic forks via clone''),
     (''vfork'', Some 58, None, None, Some ''x86_64 only; asm-generic vforks via clone''),
     (''wait4'', Some 61, Some 260, Some 260, None),
     (''waitid'', Some 247, Some 95, Some 95, None),
     (''pipe'', Some 22, None, None, Some ''x86_64 only; asm-generic answers via pipe2''),
     (''pipe2'', Some 293, Some 59, Some 59, None),
     (''dup'', Some 32, Some 23, Some 23, None),
     (''dup2'', Some 33, None, None, Some ''x86_64 only; asm-generic answers via dup3''),
     (''dup3'', Some 292, Some 24, Some 24, None),
     (''kill'', Some 62, Some 129, Some 129, None),
     (''getcwd'', Some 79, Some 17, Some 17, None),
     (''chdir'', Some 80, Some 49, Some 49, None),
     (''fchdir'', Some 81, Some 50, Some 50, None),
     (''execveat'', Some 322, Some 281, Some 281, None),
     (''prctl'', Some 157, Some 167, Some 167, None),
     (''seccomp'', Some 317, Some 277, Some 277, None)]"

definition ALL_EFFECTS :: "string list" where
  "ALL_EFFECTS = [''Args'', ''Clock'', ''Conc'', ''Exit'', ''Fs'', ''IO'', ''Net'', ''Proc'', ''Rand'']"

definition AUDIT_ARCH :: "arch \<Rightarrow> int" where
  "AUDIT_ARCH a = (case a of X86_64 \<Rightarrow> AUDIT_ARCH_X86_64 | Aarch64 \<Rightarrow> AUDIT_ARCH_AARCH64
                   | Riscv64 \<Rightarrow> AUDIT_ARCH_RISCV64)"

definition OPEN_WRITE_MASK :: int where "OPEN_WRITE_MASK = 0x410643"

definition OPEN_FLAGS_ARG :: "(string \<times> int) list" where
  "OPEN_FLAGS_ARG = [(''open'', 1), (''openat'', 2)]"

definition BASELINE_MINIMAL :: "string list" where
  "BASELINE_MINIMAL =
    [''exit'', ''exit_group'', ''brk'', ''execve'', ''mmap'', ''munmap'', ''mprotect'',
     ''arch_prctl'', ''set_tid_address'', ''set_robust_list'', ''rseq'', ''prlimit64'']"

definition BASELINE_HOSTED :: "string list" where
  "BASELINE_HOSTED = BASELINE_MINIMAL @
    [''read'', ''write'', ''writev'', ''ioctl'', ''pread64'', ''close'', ''open'', ''openat'',
     ''stat'', ''fstat'', ''newfstatat'', ''statx'', ''access'', ''faccessat'', ''lseek'',
     ''getdents64'', ''readlink'', ''readlinkat'', ''mprotect'', ''mremap'', ''madvise'',
     ''uname'', ''arch_prctl'', ''set_tid_address'', ''set_robust_list'', ''rseq'',
     ''prlimit64'', ''getrandom'', ''futex'', ''sched_yield'', ''gettid'', ''tgkill'',
     ''getpid'', ''rt_sigaction'', ''rt_sigprocmask'']"

text \<open>A layer entry: a syscall name, or the pair \<open>OPENAT_RO\<close>.\<close>

datatype layer_entry = Sys string | Ro string string

definition FS_WRITE_LAYER :: "string list" where
  "FS_WRITE_LAYER =
    [''openat'', ''open'', ''unlink'', ''unlinkat'', ''rename'', ''renameat'', ''renameat2'',
     ''mkdir'', ''mkdirat'', ''rmdir'', ''chmod'', ''fchmod'', ''fchmodat'']"

definition LAYERS :: "(string \<times> layer_entry list) list" where
  "LAYERS =
    [(''IO'',
       [Sys ''read'', Sys ''write'', Sys ''writev'', Sys ''ioctl'']),
     (''Fs'',
       [Ro ''openat'' ''ro'', Sys ''close'', Sys ''stat'', Sys ''fstat'', Sys ''newfstatat'',
        Sys ''statx'', Sys ''access'', Sys ''faccessat'', Sys ''lseek'',
        Sys ''pread64'', Sys ''getdents64'']),
     (''FsWrite'', map Sys FS_WRITE_LAYER),
     (''Net'',
       [Sys ''socket'', Sys ''connect'', Sys ''bind'', Sys ''listen'', Sys ''accept'',
        Sys ''accept4'', Sys ''shutdown'', Sys ''sendto'', Sys ''recvfrom'',
        Sys ''sendmsg'', Sys ''recvmsg'', Sys ''getsockname'', Sys ''getpeername'',
        Sys ''setsockopt'', Sys ''getsockopt'', Ro ''openat'' ''ro'', Sys ''close'',
        Sys ''read'', Sys ''stat'', Sys ''fstat'', Sys ''newfstatat'', Sys ''statx'',
        Sys ''access'', Sys ''faccessat'', Sys ''mmap'', Sys ''mprotect'',
        Sys ''munmap'', Sys ''madvise'', Sys ''readlink'', Sys ''readlinkat'',
        Sys ''futex'']),
     (''Proc'',
       [Sys ''clone'', Sys ''clone3'', Sys ''fork'', Sys ''vfork'', Sys ''execve'',
        Sys ''execveat'', Sys ''wait4'', Sys ''waitid'', Sys ''pipe'', Sys ''pipe2'',
        Sys ''dup'', Sys ''dup2'', Sys ''dup3'', Sys ''kill'', Sys ''getcwd'',
        Sys ''chdir'', Sys ''fchdir'', Sys ''getpid'', Sys ''uname'', Sys ''gettid'',
        Sys ''tgkill'', Sys ''rt_sigaction'', Sys ''rt_sigprocmask'']),
     (''Conc'',
       [Sys ''clone'', Sys ''clone3'', Sys ''futex'', Sys ''mmap'', Sys ''munmap'',
        Sys ''mprotect'', Sys ''mremap'', Sys ''madvise'', Sys ''rseq'',
        Sys ''set_robust_list'', Sys ''gettid'', Sys ''tgkill'', Sys ''sched_yield'',
        Sys ''rt_sigaction'', Sys ''rt_sigprocmask'']),
     (''Clock'',
       [Sys ''clock_gettime'', Sys ''clock_getres'', Sys ''clock_nanosleep'', Sys ''nanosleep'',
        Sys ''gettimeofday'']),
     (''Rand'',
       [Sys ''getrandom'']),
     (''Args'', []),
     (''Exit'', [])]"

definition FS_READ_BUILTINS :: "string list" where
  "FS_READ_BUILTINS =
    [''read_file'', ''read_file_tainted'', ''file_exists'', ''fs_read_dir'', ''fs_size'',
     ''fs_is_dir'']"

definition FS_WRITE_BUILTINS :: "string list" where
  "FS_WRITE_BUILTINS = [''write_file'', ''fs_set_perms'']"

definition DEFAULT_ACTIONS :: "string list" where
  "DEFAULT_ACTIONS = [''errno'', ''kill'', ''trap'', ''log'']"

definition UNDENIABLE :: "string list" where
  "UNDENIABLE = [''exit'', ''exit_group'', ''brk'']"

section \<open>Numbers of system calls\<close>

datatype sbx_error =
    UnknownSyscall string | NoNumber string arch | NotOnArch string arch "string option"
  | NotOpenFamily string | UnknownEffect string | UnknownAction string | UnknownBaseline string
  | UnknownFsMode string | DenyRefused string | KeyError string | Assembly asm_error
  | SectionShape | BadKnob string

definition row_nr :: "arch \<Rightarrow> syscall_row \<Rightarrow> int option" where
  "row_nr a row = (case row of (x, g, r, _) \<Rightarrow> (case a of X86_64 \<Rightarrow> x | Aarch64 \<Rightarrow> g | Riscv64 \<Rightarrow> r))"

definition row_note :: "syscall_row \<Rightarrow> string option" where
  "row_note row = (case row of (_, _, _, n) \<Rightarrow> n)"

definition nr_of :: "string \<Rightarrow> arch \<Rightarrow> sbx_error + int option \<times> string option" where
  "nr_of name a =
     (case map_of SYSCALLS name of
        None \<Rightarrow> Inl (UnknownSyscall name)
      | Some row \<Rightarrow>
          if row_nr a row = None \<and> row_note row = None then Inl (NoNumber name a)
          else Inr (row_nr a row, row_note row))"

definition ro_constraint :: "string \<Rightarrow> sbx_error + int \<times> int" where
  "ro_constraint name =
     (case map_of OPEN_FLAGS_ARG name of
        None \<Rightarrow> Inl (NotOpenFamily name)
      | Some i \<Rightarrow> Inr (i, OPEN_WRITE_MASK))"

section \<open>Rules and profiles\<close>

record sys_rule =
  r_name :: string
  r_nr :: int
  r_constraints :: "(int \<times> int) set"
  r_origins :: "string list"
  r_uncond :: bool

definition new_rule :: "string \<Rightarrow> int \<Rightarrow> sys_rule" where
  "new_rule name nr =
     \<lparr>r_name = name, r_nr = nr, r_constraints = {}, r_origins = [], r_uncond = False\<rparr>"

definition merge_rule :: "(int \<times> int) list \<Rightarrow> string \<Rightarrow> sys_rule \<Rightarrow> sys_rule" where
  "merge_rule constraints origin r =
     (let r1 = (if constraints = [] then r\<lparr>r_uncond := True, r_constraints := {}\<rparr>
                else if \<not> r_uncond r
                then r\<lparr>r_constraints := r_constraints r \<union> set constraints\<rparr> else r)
      in if origin \<notin> set (r_origins r1) then r1\<lparr>r_origins := r_origins r1 @ [origin]\<rparr> else r1)"

text \<open>Where the file-system mode comes from: the texts of \<open>_derive_fs\<close>, and the command line.\<close>

datatype fs_origin =
    NoFsEffect | ExternFs | WriteCensus "string list" | ReadCensus "string list" | NoFsBuiltin
  | FsFlag | ManifestFs "string option" | NoFsStated

record profile =
  p_effects :: "string list"
  p_fs_mode :: "string option"
  p_fs_origin :: fs_origin
  p_default :: string
  p_baseline :: string
  p_allow :: "string list"
  p_deny :: "string list"
  p_notes :: "string list"

definition check_all :: "('a \<Rightarrow> bool) \<Rightarrow> ('a \<Rightarrow> 'e) \<Rightarrow> 'a list \<Rightarrow> 'e + unit" where
  "check_all ok err xs = (case List.find (\<lambda>x. \<not> ok x) xs of None \<Rightarrow> Inr () | Some x \<Rightarrow> Inl (err x))"

definition new_profile ::
  "string list \<Rightarrow> string option \<Rightarrow> fs_origin \<Rightarrow> string \<Rightarrow> string \<Rightarrow> string list \<Rightarrow> string list
   \<Rightarrow> string list \<Rightarrow> sbx_error + profile" where
  "new_profile effects fs_mode fs_origin default_action baseline extra_allow deny notes =
     bindE (check_all (\<lambda>e. e \<in> set ALL_EFFECTS) UnknownEffect (sort (remdups effects))) (\<lambda>_.
     if default_action \<notin> set DEFAULT_ACTIONS then Inl (UnknownAction default_action)
     else if baseline \<notin> {''minimal'', ''hosted''} then Inl (UnknownBaseline baseline)
     else if fs_mode \<notin> {None, Some ''ro'', Some ''rw''} then Inl (UnknownFsMode (the fs_mode))
     else bindE (check_all (\<lambda>n. n \<notin> set UNDENIABLE) DenyRefused deny) (\<lambda>_.
       Inr \<lparr>p_effects = sort (remdups effects), p_fs_mode = fs_mode, p_fs_origin = fs_origin,
            p_default = default_action, p_baseline = baseline, p_allow = extra_allow,
            p_deny = deny, p_notes = notes\<rparr>))"

section \<open>The allowlist\<close>

text \<open>The dict \<open>out\<close> and the profile's notes, both of which \<open>add\<close> updates.\<close>

type_synonym ruleset = "(int \<times> sys_rule) list"

definition add_rule ::
  "profile \<Rightarrow> arch \<Rightarrow> string \<Rightarrow> (int \<times> int) list \<Rightarrow> string \<Rightarrow> bool
   \<Rightarrow> ruleset \<times> string list \<Rightarrow> sbx_error + ruleset \<times> string list" where
  "add_rule p a name constraints origin strict s =
     (case s of (out, notes) \<Rightarrow>
        bindE (nr_of name a) (\<lambda>(nr, note).
          case nr of
            None \<Rightarrow>
              if strict then Inl (NotOnArch name a note)
              else (case note of
                      None \<Rightarrow> Inr (out, notes)
                    | Some n \<Rightarrow>
                        if n \<noteq> [] \<and> n \<notin> set notes then Inr (out, notes @ [n]) else Inr (out, notes))
          | Some n \<Rightarrow>
              if name \<in> set (p_deny p) then Inr (out, notes)
              else
                let r = (case map_of out n of None \<Rightarrow> new_rule name n | Some r \<Rightarrow> r) in
                Inr (AList.update n (merge_rule constraints origin r) out, notes)))"

definition add_base ::
  "profile \<Rightarrow> arch \<Rightarrow> string \<Rightarrow> ruleset \<times> string list \<Rightarrow> sbx_error + ruleset \<times> string list" where
  "add_base p a name s =
     (let origin = ''baseline('' @ p_baseline p @ '')'' in
      if map_of OPEN_FLAGS_ARG name \<noteq> None
      then bindE (ro_constraint name) (\<lambda>c. add_rule p a name [c] origin False s)
      else add_rule p a name [] origin False s)"

definition add_entry ::
  "profile \<Rightarrow> arch \<Rightarrow> string \<Rightarrow> layer_entry \<Rightarrow> ruleset \<times> string list
   \<Rightarrow> sbx_error + ruleset \<times> string list" where
  "add_entry p a eff entry s =
     (let origin = ''layer('' @ eff @ '')'' in
      case entry of
        Ro name mode \<Rightarrow> bindE (ro_constraint name) (\<lambda>c. add_rule p a name [c] origin True s)
      | Sys name \<Rightarrow> add_rule p a name [] origin True s)"

definition add_effect ::
  "profile \<Rightarrow> arch \<Rightarrow> string \<Rightarrow> ruleset \<times> string list \<Rightarrow> sbx_error + ruleset \<times> string list" where
  "add_effect p a eff s =
     (case map_of LAYERS eff of
        None \<Rightarrow> Inl (KeyError eff)
      | Some entries \<Rightarrow>
          bindE (foldE (add_entry p a eff) entries s) (\<lambda>s.
            if eff = ''Fs'' \<and> p_fs_mode p = Some ''rw''
            then foldE (\<lambda>name. add_rule p a name [] ''layer(Fs,rw)'' True) FS_WRITE_LAYER s
            else Inr s))"

definition rules :: "profile \<Rightarrow> arch \<Rightarrow> sbx_error + ruleset \<times> profile" where
  "rules p a =
     bindE (foldE (add_base p a)
              (if p_baseline p = ''minimal'' then BASELINE_MINIMAL else BASELINE_HOSTED)
              ([], p_notes p)) (\<lambda>s.
     bindE (foldE (add_effect p a) (p_effects p) s) (\<lambda>s.
     bindE (foldE (\<lambda>name. add_rule p a name [] ''override(allow)'' True) (p_allow p) s)
       (\<lambda>(out, notes). Inr (sort_key fst out, p\<lparr>p_notes := notes\<rparr>))))"

section \<open>The filter program\<close>

definition default_ret :: "profile \<Rightarrow> asm_error + int" where
  "default_ret p =
     (if p_default p = ''errno'' then ret_errno EPERM
      else if p_default p = ''kill'' then Inr SECCOMP_RET_KILL_PROCESS
      else if p_default p = ''trap'' then Inr SECCOMP_RET_TRAP
      else Inr SECCOMP_RET_LOG)"

definition block_label :: "int \<Rightarrow> string" where "block_label nr = ''b'' @ dec (nat nr)"
definition deny_label :: "int \<Rightarrow> string" where "deny_label nr = ''d'' @ dec (nat nr)"

definition emit_dispatch :: "int \<times> sys_rule \<Rightarrow> asm \<Rightarrow> asm_error + asm" where
  "emit_dispatch x a = asm_jeq (fst x) (Some (block_label (fst x))) None a"

definition emit_check :: "int \<Rightarrow> int \<times> int \<Rightarrow> asm \<Rightarrow> asm_error + asm" where
  "emit_check nr c a =
     bindE (off_arg_low (fst c)) (\<lambda>off.
     bindE (asm_load off a) (asm_jset (snd c) (Some (deny_label nr)) None))"

definition emit_block :: "int \<Rightarrow> int \<times> sys_rule \<Rightarrow> asm \<Rightarrow> asm_error + asm" where
  "emit_block dflt x a =
     bindE (asm_label (block_label (fst x)) a) (\<lambda>a.
       if r_uncond (snd x) then asm_ret SECCOMP_RET_ALLOW a
       else
         bindE (foldE (emit_check (fst x)) (sorted_list_of_set (r_constraints (snd x))) a) (\<lambda>a.
         bindE (asm_ret SECCOMP_RET_ALLOW a) (\<lambda>a.
         bindE (asm_label (deny_label (fst x)) a) (asm_ret dflt))))"

definition assemble :: "int \<Rightarrow> int \<Rightarrow> ruleset \<Rightarrow> asm_error + bpf_instr list" where
  "assemble audit dflt rs =
     bindE (asm_load OFF_ARCH asm_new) (\<lambda>a.
     bindE (asm_jeq audit (Some ''nr'') None a) (\<lambda>a.
     bindE (asm_ret dflt a) (\<lambda>a.
     bindE (asm_label ''nr'' a) (\<lambda>a.
     bindE (asm_load OFF_NR a) (\<lambda>a.
     bindE (foldE emit_dispatch rs a) (\<lambda>a.
     bindE (asm_label ''default'' a) (\<lambda>a.
     bindE (asm_ret dflt a) (\<lambda>a.
     bindE (foldE (emit_block dflt) rs a) finish))))))))"

definition lift_asm :: "asm_error + 'a \<Rightarrow> sbx_error + 'a" where
  "lift_asm x = (case x of Inl e \<Rightarrow> Inl (Assembly e) | Inr v \<Rightarrow> Inr v)"

definition filter_program :: "profile \<Rightarrow> arch \<Rightarrow> sbx_error + bpf_instr list" where
  "filter_program p a =
     bindE (rules p a) (\<lambda>(rs, _).
     lift_asm (bindE (default_ret p) (\<lambda>dflt. assemble (AUDIT_ARCH a) dflt rs)))"

section \<open>The derivation from the call graph\<close>

text \<open>The \<open>while stack\<close> loop of \<open>derive_source\<close>. The top of the stack is the head of the list; a
  callee named \<open>b:...\<close> is a builtin. \<open>edges k\<close> lists the callees of \<open>k\<close>.\<close>

type_synonym call_graph = "(string \<times> string list) list"

definition callees :: "call_graph \<Rightarrow> string \<Rightarrow> string list" where
  "callees E k = (case map_of E k of None \<Rightarrow> [] | Some cs \<Rightarrow> cs)"

definition is_builtin_key :: "string \<Rightarrow> bool" where
  "is_builtin_key c = is_prefix ''b:'' c"

definition fn_callees :: "call_graph \<Rightarrow> string \<Rightarrow> string list" where
  "fn_callees E k = filter (\<lambda>c. \<not> is_builtin_key c) (callees E k)"

definition builtin_callees :: "call_graph \<Rightarrow> string \<Rightarrow> string list" where
  "builtin_callees E k = map (drop 2) (filter is_builtin_key (callees E k))"

definition all_callees :: "call_graph \<Rightarrow> string set" where
  "all_callees E = set (concat (map snd E))"

lemma callees_subset: "set (callees E k) \<subseteq> all_callees E"
  by (cases "map_of E k") (auto simp: callees_def all_callees_def dest!: map_of_SomeD)

function walk_calls ::
  "call_graph \<Rightarrow> string list \<Rightarrow> string list \<Rightarrow> string list \<Rightarrow> string list \<times> string list" where
  "walk_calls E [] reach builtins = (reach, builtins)"
| "walk_calls E (k # stack) reach builtins =
     (if k \<in> set reach then walk_calls E stack reach builtins
      else walk_calls E (rev (fn_callees E k) @ stack) (k # reach)
             (builtin_callees E k @ builtins))"
  by pat_completeness auto

termination walk_calls
proof (relation "(\<lambda>(E, stack, reach, _). card ((set stack \<union> all_callees E) - set reach))
    <*mlex*> measure (\<lambda>(E, stack, _). length stack)")
  show "wf ((\<lambda>(E, stack, reach, _). card ((set stack \<union> all_callees E) - set reach))
      <*mlex*> measure (\<lambda>(E, stack, _). length stack))"
    by (intro wf_mlex wf_measure)
next
  fix E :: call_graph and k stack reach and builtins :: "string list"
  have fin: "finite ((set xs \<union> all_callees E) - set reach)" for xs by (simp add: all_callees_def)
  { assume "k \<in> set reach"
    then have "(set (k # stack) \<union> all_callees E) - set reach = (set stack \<union> all_callees E) - set reach"
      by auto
    then show "((E, stack, reach, builtins), (E, k # stack, reach, builtins)) \<in>
        (\<lambda>(E, stack, reach, _). card ((set stack \<union> all_callees E) - set reach))
          <*mlex*> measure (\<lambda>(E, stack, _). length stack)"
      by (simp add: mlex_prod_def) }
  { assume "k \<notin> set reach"
    moreover have "set (fn_callees E k) \<subseteq> all_callees E"
      using callees_subset [of E k] by (auto simp: fn_callees_def)
    ultimately have "(set (rev (fn_callees E k) @ stack) \<union> all_callees E) - set (k # reach)
        \<subset> (set (k # stack) \<union> all_callees E) - set reach" by auto
    from psubset_card_mono [OF fin this]
    show "((E, rev (fn_callees E k) @ stack, k # reach, builtin_callees E k @ builtins),
        (E, k # stack, reach, builtins)) \<in>
        (\<lambda>(E, stack, reach, _). card ((set stack \<union> all_callees E) - set reach))
          <*mlex*> measure (\<lambda>(E, stack, _). length stack)"
      by (simp add: mlex_prod_def) }
qed

text \<open>\<open>_derive_fs\<close> and the derivation: the arguments are the
  checker's \<open>computed_effects\<close> and \<open>edges\<close> and the effects its extern blocks declare.\<close>

definition derive_fs :: "string set \<Rightarrow> string set \<Rightarrow> string set \<Rightarrow> string option \<times> fs_origin" where
  "derive_fs effects builtins extern_fx =
     (if ''Fs'' \<notin> effects then (None, NoFsEffect)
      else if ''Fs'' \<in> extern_fx then (Some ''rw'', ExternFs)
      else if builtins \<inter> set FS_WRITE_BUILTINS \<noteq> {}
      then (Some ''rw'', WriteCensus (sorted_list_of_set (builtins \<inter> set FS_WRITE_BUILTINS)))
      else if builtins \<inter> set FS_READ_BUILTINS \<noteq> {}
      then (Some ''ro'', ReadCensus (sorted_list_of_set (builtins \<inter> set FS_READ_BUILTINS)))
      else (Some ''ro'', NoFsBuiltin))"

record derivation =
  d_main :: bool
  d_effects :: "string list"
  d_builtins :: "string list"
  d_extern :: "string list"
  d_fs :: "string option"
  d_fs_origin :: fs_origin

definition derive_source ::
  "(string \<times> string list) list \<Rightarrow> call_graph \<Rightarrow> string list \<Rightarrow> derivation" where
  "derive_source computed E extern_fx =
     (let has_main = ''main'' \<in> set (map fst computed) \<or> ''main'' \<in> set (map fst E);
          roots = (if has_main then [''main'']
                   else filter (\<lambda>k. \<not> is_builtin_key k) (map fst computed));
          (reach, builtins) = walk_calls E (rev roots) [] [];
          effects = concat (map (callees computed) reach);
          (mode, origin) = derive_fs (set effects) (set builtins) (set extern_fx)
      in \<lparr>d_main = has_main, d_effects = sort (remdups effects),
          d_builtins = sort (remdups builtins), d_extern = sort (remdups extern_fx),
          d_fs = mode, d_fs_origin = origin\<rparr>)"

text \<open>The source mode of \<open>build_profile\<close> (hls-sandbox.py): the command line's posture, the derived
  effects, and the derived file-system mode unless \<open>--fs\<close> states one.\<close>

definition source_profile ::
  "derivation \<Rightarrow> bool \<Rightarrow> string option \<Rightarrow> string option \<Rightarrow> string \<Rightarrow> string list \<Rightarrow> string list
   \<Rightarrow> sbx_error + profile" where
  "source_profile d strict dflt fs baseline allow deny =
     (let action = (if strict then ''kill'' else case dflt of None \<Rightarrow> ''errno'' | Some x \<Rightarrow> x);
          mode = (case fs of None \<Rightarrow> d_fs d | Some x \<Rightarrow> Some x)
      in new_profile (d_effects d) mode (if fs \<noteq> None then FsFlag else d_fs_origin d) action baseline
           allow deny [])"

section \<open>The manifest's section\<close>

text \<open>A value of the parsed manifest, as far as \<open>parse_sandbox_section\<close> distinguishes them, and the
  section: \<open>None\<close> when the manifest has none, \<open>Some None\<close> when it is not a table.\<close>

datatype toml_value = TStr string | TArr "toml_value list" | TOther

record sandbox_section =
  sb_default :: "string option"
  sb_fs :: "string option"
  sb_allow :: "string list"
  sb_deny :: "string list"

definition toml_strings :: "toml_value list \<Rightarrow> string list option" where
  "toml_strings vs =
     (if list_all (\<lambda>v. case v of TStr _ \<Rightarrow> True | _ \<Rightarrow> False) vs
      then Some (map (\<lambda>v. case v of TStr s \<Rightarrow> s | _ \<Rightarrow> []) vs) else None)"

definition parse_choice ::
  "string \<Rightarrow> string list \<Rightarrow> (string \<times> toml_value) list \<Rightarrow> sbx_error + string option" where
  "parse_choice key ok sec =
     (case map_of sec key of
        None \<Rightarrow> Inr None
      | Some (TStr s) \<Rightarrow> if s \<in> set ok then Inr (Some s) else Inl (BadKnob key)
      | Some _ \<Rightarrow> Inl (BadKnob key))"

definition parse_names :: "string \<Rightarrow> (string \<times> toml_value) list \<Rightarrow> sbx_error + string list" where
  "parse_names key sec =
     (case map_of sec key of
        None \<Rightarrow> Inr []
      | Some (TArr vs) \<Rightarrow>
          (case toml_strings vs of
             None \<Rightarrow> Inl (BadKnob key)
           | Some ns \<Rightarrow>
               bindE (check_all (\<lambda>n. map_of SYSCALLS n \<noteq> None) UnknownSyscall ns) (\<lambda>_.
               Inr (sort (remdups ns))))
      | Some _ \<Rightarrow> Inl (BadKnob key))"

definition parse_sandbox_section ::
  "(string \<times> toml_value) list option option \<Rightarrow> sbx_error + sandbox_section" where
  "parse_sandbox_section s =
     (case s of
        None \<Rightarrow> Inr \<lparr>sb_default = None, sb_fs = None, sb_allow = [], sb_deny = []\<rparr>
      | Some None \<Rightarrow> Inl SectionShape
      | Some (Some sec) \<Rightarrow>
          bindE (parse_choice ''default'' DEFAULT_ACTIONS sec) (\<lambda>d.
          bindE (parse_choice ''fs'' [''ro'', ''rw''] sec) (\<lambda>f.
          bindE (parse_names ''allow'' sec) (\<lambda>al.
          bindE (parse_names ''deny'' sec) (\<lambda>de.
          bindE (check_all (\<lambda>n. n \<notin> set UNDENIABLE) DenyRefused de) (\<lambda>_.
          Inr \<lparr>sb_default = d, sb_fs = f, sb_allow = al, sb_deny = de\<rparr>))))))"

section \<open>The package and ad-hoc modes\<close>

text \<open>The package mode of \<open>build_profile\<close>, after the audit gate, with the section the manifest has; the
  flags for allowed and denied calls replace the section's lists.\<close>

definition package_profile ::
  "derivation \<Rightarrow> sandbox_section \<Rightarrow> bool \<Rightarrow> string option \<Rightarrow> string option \<Rightarrow> string \<Rightarrow> string list
   \<Rightarrow> string list \<Rightarrow> sbx_error + profile" where
  "package_profile d sec strict dflt fs baseline allow deny =
     (let action = (if strict then ''kill'' else case dflt of None \<Rightarrow> ''errno'' | Some x \<Rightarrow> x);
          mode = (case fs of Some x \<Rightarrow> Some x
                  | None \<Rightarrow> (case sb_fs sec of Some x \<Rightarrow> Some x | None \<Rightarrow> d_fs d));
          origin = (if fs \<noteq> None then FsFlag
                    else if sb_fs sec \<noteq> None \<and> sb_fs sec \<noteq> d_fs d then ManifestFs (d_fs d)
                    else d_fs_origin d);
          da = (case sb_default sec of Some x \<Rightarrow> x | None \<Rightarrow> action)
      in new_profile (d_effects d) mode origin da baseline
           (if allow \<noteq> [] then allow else sb_allow sec) (if deny \<noteq> [] then deny else sb_deny sec) [])"

text \<open>The ad-hoc mode: the effects are stated.\<close>

definition adhoc_profile ::
  "string list \<Rightarrow> bool \<Rightarrow> string option \<Rightarrow> string option \<Rightarrow> string \<Rightarrow> string list \<Rightarrow> string list
   \<Rightarrow> sbx_error + profile" where
  "adhoc_profile effects strict dflt fs baseline allow deny =
     (let action = (if strict then ''kill'' else case dflt of None \<Rightarrow> ''errno'' | Some x \<Rightarrow> x);
          mode = (if fs = None \<and> ''Fs'' \<in> set effects then Some ''rw'' else fs)
      in new_profile effects mode (if mode \<noteq> None then FsFlag else NoFsStated) action baseline allow deny [])"

end
