(* ===== verification/PolicyProps.thy ===== *)
theory PolicyProps
  imports Policy
begin

text \<open>
  What the sandbox's filter does. First the assembled program is run symbolically, block by block,
  against the reference verdict of the allowlist; then the allowlist is characterised by the
  requests it merges; the properties combine the two.
\<close>

section \<open>The reference verdict\<close>

definition rule_allows :: "sys_rule \<Rightarrow> seccomp_data \<Rightarrow> bool" where
  "rule_allows r d \<longleftrightarrow> r_uncond r \<or> (\<forall>(i, m) \<in> r_constraints r. arg_low d i AND m = 0)"

definition verdict :: "ruleset \<Rightarrow> int \<Rightarrow> int \<Rightarrow> seccomp_data \<Rightarrow> int" where
  "verdict rs dflt audit d =
     (if uint (sd_arch d) \<noteq> audit then dflt
      else case map_of rs (uint (sd_nr d)) of
             None \<Rightarrow> dflt
           | Some r \<Rightarrow> if rule_allows r d then SECCOMP_RET_ALLOW else dflt)"

section \<open>The emitted blocks\<close>

lemma foldE_append: "foldE f (xs @ ys) s = bindE (foldE f xs s) (foldE f ys)"
  by (induction xs arbitrary: s) (auto simp: bindE_def split: sum.splits)

lemma off_arg_low_Inr: "off_arg_low i = Inr off \<longleftrightarrow> 0 \<le> i \<and> i \<le> 5 \<and> off = 16 + 8 * i"
  by (auto simp: off_arg_low_def)

lemma data_word_arg: "0 \<le> i \<Longrightarrow> data_word d (16 + 8 * i) = arg_low d i"
  by (auto simp: data_word_def)

context seccomp_kernel
begin

lemma run_dispatch:
  assumes "foldE emit_dispatch rs a = Inr b" "asm_ok a"
  shows "asm_ok b \<and> extends a b \<and> here b = here a + length rs
    \<and> (\<forall>c prog d acc. extends b c \<longrightarrow> asm_ok c \<longrightarrow> finish c = Inr prog \<longrightarrow>
         (\<forall>x \<in> set rs. a_labels c (block_label (fst x)) \<noteq> None) \<longrightarrow>
         K (drop (here a) prog) d acc =
           (case List.find (\<lambda>x. acc = fst x) rs of
              None \<Rightarrow> K (drop (here b) prog) d acc
            | Some x \<Rightarrow> K (drop (the (a_labels c (block_label (fst x)))) prog) d acc))"
  using assms
proof (induction rs arbitrary: a)
  case Nil
  then show ?case by simp
next
  case (Cons x rs)
  from Cons.prems(1) obtain a1 where 1: "asm_jeq (fst x) (Some (block_label (fst x))) None a = Inr a1"
    and 2: "foldE emit_dispatch rs a1 = Inr b"
    by (auto simp: emit_dispatch_def [of x] bindE_eq_Inr)
  note P = pushedD [OF asm_jeq_Inr [OF 1 Cons.prems(2)]]
  note IH = Cons.IH [OF 2 P(1)]
  have run: "K (drop (here a) prog) d acc =
      K (drop (if acc = fst x then t else here a1) prog) d acc"
    if "extends b c" "asm_ok c" "finish c = Inr prog" "a_labels c (block_label (fst x)) = Some t"
    for c prog d acc t
    using run_jeq [OF that(3,2) extends_emitted [OF extends_trans [OF _ that(1)] P(3)] that(4)] IH P(4)
    by auto
  show ?case
  proof (intro conjI allI impI)
    show "asm_ok b" "extends a b" "here b = here a + length (x # rs)"
      using IH P by (auto intro: extends_trans)
  next
    fix c prog d acc
    assume c: "extends b c" "asm_ok c" "finish c = Inr prog"
      and labs: "\<forall>x \<in> set (x # rs). a_labels c (block_label (fst x)) \<noteq> None"
    from labs obtain t where t: "a_labels c (block_label (fst x)) = Some t" by auto
    have "K (drop (here a1) prog) d acc =
        (case List.find (\<lambda>x. acc = fst x) rs of
           None \<Rightarrow> K (drop (here b) prog) d acc
         | Some x \<Rightarrow> K (drop (the (a_labels c (block_label (fst x)))) prog) d acc)"
      using IH c labs by simp
    with run [OF c t, of d acc] t
    show "K (drop (here a) prog) d acc =
        (case List.find (\<lambda>x. acc = fst x) (x # rs) of
           None \<Rightarrow> K (drop (here b) prog) d acc
         | Some x \<Rightarrow> K (drop (the (a_labels c (block_label (fst x)))) prog) d acc)"
      by simp
  qed
qed

lemma run_checks:
  assumes "foldE (emit_check nr) cs a = Inr b" "asm_ok a"
  shows "asm_ok b \<and> extends a b
    \<and> (\<forall>c prog d acc t. extends b c \<longrightarrow> asm_ok c \<longrightarrow> finish c = Inr prog \<longrightarrow>
         a_labels c (deny_label nr) = Some t \<longrightarrow>
         (\<exists>acc'. K (drop (here a) prog) d acc =
           K (drop (if \<forall>(i, m) \<in> set cs. arg_low d i AND m = 0 then here b else t) prog) d acc'))"
  using assms
proof (induction cs arbitrary: a)
  case Nil
  then show ?case by auto
next
  case (Cons x cs)
  obtain i m where x: "x = (i, m)" by (cases x)
  from Cons.prems obtain off a1 a2 where 1: "off_arg_low i = Inr off" "asm_load off a = Inr a1"
    "asm_jset m (Some (deny_label nr)) None a1 = Inr a2"
    and 2: "foldE (emit_check nr) cs a2 = Inr b"
    by (auto simp: emit_check_def [of nr "(i, m)"] bindE_eq_Inr x)
  note P1 = pushedD [OF asm_load_Inr [OF 1(2) Cons.prems(2)]]
  note P2 = pushedD [OF asm_jset_Inr [OF 1(3) P1(1)]]
  note IH = Cons.IH [OF 2 P2(1)]
  have ext: "extends a1 b" "extends a2 b" using IH P2 by (auto intro: extends_trans)
  show ?case
  proof (intro conjI allI impI)
    show "asm_ok b" "extends a b" using IH P1 P2 by (auto intro: extends_trans)
  next
    fix c prog d acc t
    assume c: "extends b c" "asm_ok c" "finish c = Inr prog" "a_labels c (deny_label nr) = Some t"
    have e1: "emitted c (here a) (plain BPF_LD_W_ABS off) None"
      and e2: "emitted c (here a1) (plain BPF_JSET_K m) (Some (deny_label nr))"
      using extends_emitted [OF extends_trans [OF ext(1) c(1)] P1(3)]
        extends_emitted [OF extends_trans [OF ext(2) c(1)] P2(3)] by simp_all
    have "K (drop (here a) prog) d acc = K (drop (here a1) prog) d (arg_low d i)"
      using run_ld [OF c(3,2) e1] 1(1) P1(4) by (simp add: off_arg_low_Inr data_word_arg)
    also have "\<dots> = K (drop (if arg_low d i AND m \<noteq> 0 then t else here a2) prog) d (arg_low d i)"
      using run_jset [OF c(3,2) e2 c(4)] P2(4) by simp
    finally have first: "K (drop (here a) prog) d acc =
        K (drop (if arg_low d i AND m \<noteq> 0 then t else here a2) prog) d (arg_low d i)" .
    from IH c have "\<exists>acc'. K (drop (here a2) prog) d (arg_low d i) =
        K (drop (if \<forall>(i, m) \<in> set cs. arg_low d i AND m = 0 then here b else t) prog) d acc'"
      by blast
    with first show "\<exists>acc'. K (drop (here a) prog) d acc =
        K (drop (if \<forall>(i, m) \<in> set (x # cs). arg_low d i AND m = 0 then here b else t) prog) d acc'"
      by (cases "arg_low d i AND m = 0") (auto simp: x)
  qed
qed

lemma run_block:
  assumes "emit_block dflt x a = Inr b" "asm_ok a" "finite (r_constraints (snd x))"
  shows "asm_ok b \<and> extends a b \<and> a_labels b (block_label (fst x)) = Some (here a)
    \<and> (\<forall>c prog d acc. extends b c \<longrightarrow> asm_ok c \<longrightarrow> finish c = Inr prog \<longrightarrow>
         K (drop (here a) prog) d acc =
           Some (if rule_allows (snd x) d then SECCOMP_RET_ALLOW else dflt))"
proof -
  from assms(1) obtain a1 where 1: "asm_label (block_label (fst x)) a = Inr a1"
    by (auto simp: emit_block_def bindE_eq_Inr)
  note L1 = asm_label_Inr [OF 1 assms(2)]
  show ?thesis
  proof (cases "r_uncond (snd x)")
    case True
    with assms(1) 1 have "asm_ret SECCOMP_RET_ALLOW a1 = Inr b" by (simp add: emit_block_def)
    note P = pushedD [OF asm_ret_Inr [OF this L1(1)]]
    have "K (drop (here a) prog) d acc = Some SECCOMP_RET_ALLOW"
      if "extends b c" "asm_ok c" "finish c = Inr prog" for c prog d acc
      using run_ret [OF that(3,2) extends_emitted [OF that(1) P(3)]] L1(4) by simp
    then show ?thesis using True P L1 by (auto simp: rule_allows_def intro: extends_trans)
  next
    case False
    let ?cs = "sorted_list_of_set (r_constraints (snd x))"
    from False assms(1) 1 obtain a2 a3 a4 where
      2: "foldE (emit_check (fst x)) ?cs a1 = Inr a2" "asm_ret SECCOMP_RET_ALLOW a2 = Inr a3"
        "asm_label (deny_label (fst x)) a3 = Inr a4" "asm_ret dflt a4 = Inr b"
      by (auto simp: emit_block_def bindE_eq_Inr)
    note C = run_checks [OF 2(1) L1(1)]
    then have ok2: "asm_ok a2" by blast
    note P3 = pushedD [OF asm_ret_Inr [OF 2(2) ok2]]
    note L4 = asm_label_Inr [OF 2(3) P3(1)]
    note P5 = pushedD [OF asm_ret_Inr [OF 2(4) L4(1)]]
    have ext: "extends a3 b" "extends a2 b" "extends a1 b" "extends a b" "extends a4 b"
      using C P3 L4 P5 L1 by (meson extends_trans)+
    have "K (drop (here a) prog) d acc =
        Some (if rule_allows (snd x) d then SECCOMP_RET_ALLOW else dflt)"
      if c: "extends b c" "asm_ok c" "finish c = Inr prog" for c prog d acc
    proof -
      have lab: "a_labels c (deny_label (fst x)) = Some (here a3)"
        using extends_label [OF extends_trans [OF ext(5) c(1)] L4(3)] .
      from C c lab extends_trans [OF ext(2) c(1)] L1(4) obtain acc' where
        "K (drop (here a) prog) d acc =
           K (drop (if \<forall>(i, m) \<in> set ?cs. arg_low d i AND m = 0 then here a2 else here a3) prog) d acc'"
        by (metis (no_types, lifting))
      moreover have "K (drop (here a2) prog) d acc' = Some SECCOMP_RET_ALLOW"
        using run_ret [OF c(3,2) extends_emitted [OF extends_trans [OF ext(1) c(1)] P3(3)]] .
      moreover have "K (drop (here a3) prog) d acc' = Some dflt"
        using run_ret [OF c(3,2) extends_emitted [OF c(1) P5(3)]] L4(4) by simp
      ultimately show ?thesis using False assms(3) by (simp add: rule_allows_def)
    qed
    moreover have "a_labels b (block_label (fst x)) = Some (here a)"
      using extends_label [OF ext(3)] L1(3) by blast
    ultimately show ?thesis using P5(1) ext(4) by blast
  qed
qed

lemma run_blocks:
  assumes "foldE (emit_block dflt) rs a = Inr b" "asm_ok a"
    "\<forall>x \<in> set rs. finite (r_constraints (snd x))"
  shows "asm_ok b \<and> extends a b
    \<and> (\<forall>c prog d acc. \<forall>x \<in> set rs. extends b c \<longrightarrow> asm_ok c \<longrightarrow> finish c = Inr prog \<longrightarrow>
         (\<exists>p. a_labels c (block_label (fst x)) = Some p \<and> K (drop p prog) d acc =
           Some (if rule_allows (snd x) d then SECCOMP_RET_ALLOW else dflt)))"
  using assms
proof (induction rs arbitrary: a)
  case Nil
  then show ?case by simp
next
  case (Cons x rs)
  then obtain a1 where 1: "emit_block dflt x a = Inr a1" and 2: "foldE (emit_block dflt) rs a1 = Inr b"
    by (auto simp: bindE_eq_Inr)
  from Cons.prems have fin: "finite (r_constraints (snd x))" by simp
  note B = run_block [OF 1 Cons.prems(2) fin]
  then have IH: "asm_ok b \<and> extends a1 b
    \<and> (\<forall>c prog d acc. \<forall>x \<in> set rs. extends b c \<longrightarrow> asm_ok c \<longrightarrow> finish c = Inr prog \<longrightarrow>
         (\<exists>p. a_labels c (block_label (fst x)) = Some p \<and> K (drop p prog) d acc =
           Some (if rule_allows (snd x) d then SECCOMP_RET_ALLOW else dflt)))"
    using Cons.prems(3) by (intro Cons.IH [OF 2]) auto
  have "\<exists>p. a_labels c (block_label (fst x)) = Some p \<and> K (drop p prog) d acc =
      Some (if rule_allows (snd x) d then SECCOMP_RET_ALLOW else dflt)"
    if c: "extends b c" "asm_ok c" "finish c = Inr prog" for c prog d acc
  proof -
    have "extends a1 c" using IH c(1) by (meson extends_trans)
    with B c extends_label show ?thesis by blast
  qed
  with B IH show ?case by (simp add: extends_trans [of a a1 b])
qed

theorem filter_decides:
  assumes "assemble audit dflt rs = Inr prog"
    and "\<forall>x \<in> set rs. finite (r_constraints (snd x))" and "distinct (map fst rs)"
  shows "K prog d acc = Some (verdict rs dflt audit d)"
proof -
  from assms(1) obtain a1 a2 a3 a4 a5 a6 a7 a8 a9 where
    s: "asm_load OFF_ARCH asm_new = Inr a1" "asm_jeq audit (Some ''nr'') None a1 = Inr a2"
      "asm_ret dflt a2 = Inr a3" "asm_label ''nr'' a3 = Inr a4" "asm_load OFF_NR a4 = Inr a5"
      "foldE emit_dispatch rs a5 = Inr a6" "asm_label ''default'' a6 = Inr a7"
      "asm_ret dflt a7 = Inr a8" "foldE (emit_block dflt) rs a8 = Inr a9" "finish a9 = Inr prog"
    unfolding assemble_def bindE_eq_Inr by blast
  note P1 = pushedD [OF asm_load_Inr [OF s(1) asm_new_ok]]
  note P2 = pushedD [OF asm_jeq_Inr [OF s(2) P1(1)]]
  note P3 = pushedD [OF asm_ret_Inr [OF s(3) P2(1)]]
  note L4 = asm_label_Inr [OF s(4) P3(1)]
  note P5 = pushedD [OF asm_load_Inr [OF s(5) L4(1)]]
  note D6 = run_dispatch [OF s(6) P5(1)]
  then have ok6: "asm_ok a6" and e56: "extends a5 a6" by blast+
  note L7 = asm_label_Inr [OF s(7) ok6]
  note P8 = pushedD [OF asm_ret_Inr [OF s(8) L7(1)]]
  note B9 = run_blocks [OF s(9) P8(1) assms(2)]
  then have ok: "asm_ok a9" and e89: "extends a8 a9" by blast+
  have e: "extends a6 a9" using L7(2) P8(2) e89 by (meson extends_trans)
  then have e5: "extends a5 a9" using e56 by (meson extends_trans)
  then have e4: "extends a4 a9" using P5(2) by (meson extends_trans)
  then have e3: "extends a3 a9" using L4(2) by (meson extends_trans)
  then have e2: "extends a2 a9" using P3(2) by (meson extends_trans)
  then have e1: "extends a1 a9" using P2(2) by (meson extends_trans)
  have nr: "a_labels a9 ''nr'' = Some 3"
    using extends_label [OF e4 L4(3)] P1(4) P2(4) P3(4) by simp
  have labs: "\<forall>x \<in> set rs. a_labels a9 (block_label (fst x)) \<noteq> None"
    using B9 ok s(10) by (metis extends_refl option.distinct(1))
  have "K prog d acc = K (drop 1 prog) d (data_word d OFF_ARCH)"
    using run_ld [OF s(10) ok extends_emitted [OF e1 P1(3)]] by simp
  also have "\<dots> = K (drop (if data_word d OFF_ARCH = audit then 3 else 2) prog) d (data_word d OFF_ARCH)"
    using run_jeq [OF s(10) ok extends_emitted [OF e2 P2(3)] nr] P1(4)
    by (simp add: numeral_2_eq_2)
  finally have head: "K prog d acc =
      K (drop (if uint (sd_arch d) = audit then 3 else 2) prog) d (uint (sd_arch d))"
    by (simp add: data_word_def OFF_ARCH_def)
  have wrong: "K (drop 2 prog) d acc' = Some dflt" for acc'
    using run_ret [OF s(10) ok extends_emitted [OF e3 P3(3)]] P1(4) P2(4)
    by (simp add: numeral_2_eq_2)
  have "K (drop 3 prog) d acc' = K (drop (here a5) prog) d (uint (sd_nr d))" for acc'
    using run_ld [OF s(10) ok extends_emitted [OF e5 P5(3)]] P1(4) P2(4) P3(4) L4(4) P5(4)
    by (simp add: data_word_def OFF_NR_def numeral_3_eq_3)
  moreover have "K (drop (here a5) prog) d acc' =
      (case List.find (\<lambda>x. acc' = fst x) rs of
         None \<Rightarrow> K (drop (here a6) prog) d acc'
       | Some x \<Rightarrow> K (drop (the (a_labels a9 (block_label (fst x)))) prog) d acc')" for acc'
    using D6 e ok s(10) labs by blast
  moreover have "K (drop (here a6) prog) d acc' = Some dflt" for acc'
    using run_ret [OF s(10) ok extends_emitted [OF extends_trans [OF _ e89] P8(3)]] L7(4) P8(2)
    by simp
  moreover have "K (drop (the (a_labels a9 (block_label (fst x)))) prog) d acc' =
      Some (if rule_allows (snd x) d then SECCOMP_RET_ALLOW else dflt)" if "x \<in> set rs" for x acc'
    using B9 that ok s(10) by (metis extends_refl option.sel)
  moreover have "List.find (\<lambda>x. n = fst x) rs = map_option (Pair n) (map_of rs n)" for n
    by (induction rs) auto
  ultimately have "K (drop 3 prog) d acc' =
      Some (case map_of rs (uint (sd_nr d)) of None \<Rightarrow> dflt
            | Some r \<Rightarrow> if rule_allows r d then SECCOMP_RET_ALLOW else dflt)" for acc'
    by (auto split: option.splits dest: map_of_SomeD)
  with head wrong show ?thesis by (simp add: verdict_def)
qed

end

section \<open>Facts of the tables\<close>

definition number :: "arch \<Rightarrow> string \<Rightarrow> int option" where
  "number a name = (case map_of SYSCALLS name of None \<Rightarrow> None | Some row \<Rightarrow> row_nr a row)"

definition numbers_of :: "arch \<Rightarrow> int list" where
  "numbers_of a = List.map_filter (\<lambda>(_, row). row_nr a row) SYSCALLS"

definition known :: "string \<Rightarrow> bool" where
  "known name \<longleftrightarrow> map_of SYSCALLS name \<noteq> None"

lemma rows_complete: "list_all (\<lambda>(_, row). row_nr a row \<noteq> None \<or> row_note row \<noteq> None) SYSCALLS"
  by (cases a; hypsubst; code_simp)

lemma rows_x86: "list_all (\<lambda>(_, row). row_nr X86_64 row \<noteq> None) SYSCALLS"
  by code_simp

lemma numbers_distinct: "distinct (numbers_of a)"
  by (cases a; hypsubst; code_simp)

lemma numbers_range: "list_all (\<lambda>n. 0 \<le> n \<and> n < 1024) (numbers_of a)"
  by (cases a; hypsubst; code_simp)

lemma names_distinct: "distinct (map fst SYSCALLS)"
  by code_simp

lemma length_SYSCALLS: "length SYSCALLS = 91"
  by code_simp

lemma nr_of_known:
  assumes "known name"
  shows "\<exists>note. nr_of name a = Inr (number a name, note) \<and> (number a name = None \<longrightarrow> note \<noteq> None)"
proof -
  from assms obtain row where r: "map_of SYSCALLS name = Some row" by (auto simp: known_def)
  then have "row_nr a row \<noteq> None \<or> row_note row \<noteq> None"
    using rows_complete [of a] by (auto simp: list_all_iff dest!: map_of_SomeD)
  with r show ?thesis by (auto simp: nr_of_def number_def)
qed

lemma nr_of_unknown: "\<not> known name \<Longrightarrow> nr_of name a = Inl (UnknownSyscall name)"
  by (cases "map_of SYSCALLS name") (simp_all add: known_def nr_of_def)

lemma number_known: "number a name = Some n \<Longrightarrow> known name"
  by (auto simp: number_def known_def split: option.splits)

lemma number_x86: "known name \<Longrightarrow> number X86_64 name \<noteq> None"
  using rows_x86 by (auto simp: known_def number_def list_all_iff dest!: map_of_SomeD split: option.splits)

lemma number_in: "number a name = Some n \<Longrightarrow> n \<in> set (numbers_of a)"
  by (force simp: number_def numbers_of_def List.map_filter_def dest!: map_of_SomeD split: option.splits)

lemma number_range: "number a name = Some n \<Longrightarrow> 0 \<le> n \<and> n < 1024"
  using numbers_range [of a] number_in by (auto simp: list_all_iff)

lemma map_filter_inj:
  "distinct (List.map_filter f xs) \<Longrightarrow> x \<in> set xs \<Longrightarrow> y \<in> set xs \<Longrightarrow> f x = Some n \<Longrightarrow> f y = Some n \<Longrightarrow> x = y"
proof (induction xs)
  case Nil
  then show ?case by simp
next
  case (Cons z xs)
  have mem: "n \<in> set (List.map_filter f xs)" if "u \<in> set xs" "f u = Some n" for u
    using that by (force simp: List.map_filter_def)
  show ?case using Cons mem by (auto simp: List.map_filter_simps split: option.splits)
qed

lemma number_inj: "number a s = Some n \<Longrightarrow> number a t = Some n \<Longrightarrow> s = t"
  using map_filter_inj [OF numbers_distinct [of a, unfolded numbers_of_def]]
  by (fastforce simp: number_def dest!: map_of_SomeD split: option.splits)

section \<open>The allowlist as a list of requests\<close>

text \<open>What the loops of \<open>rules\<close> add, in their order: the name, its constraints, the origin, and
  whether the name must exist on the architecture.\<close>

type_synonym request = "string \<times> (int \<times> int) list \<times> string \<times> bool"

definition ro_pair :: "string \<Rightarrow> (int \<times> int) list" where
  "ro_pair name = (case map_of OPEN_FLAGS_ARG name of None \<Rightarrow> [] | Some i \<Rightarrow> [(i, OPEN_WRITE_MASK)])"

definition baseline_names :: "profile \<Rightarrow> string list" where
  "baseline_names p = (if p_baseline p = ''minimal'' then BASELINE_MINIMAL else BASELINE_HOSTED)"

fun entry_name :: "layer_entry \<Rightarrow> string" where
  "entry_name (Sys n) = n"
| "entry_name (Ro n m) = n"

fun entry_cons :: "layer_entry \<Rightarrow> (int \<times> int) list" where
  "entry_cons (Sys n) = []"
| "entry_cons (Ro n m) = ro_pair n"

definition layer_of :: "string \<Rightarrow> layer_entry list" where
  "layer_of eff = (case map_of LAYERS eff of None \<Rightarrow> [] | Some es \<Rightarrow> es)"

definition effect_requests :: "profile \<Rightarrow> string \<Rightarrow> request list" where
  "effect_requests p eff =
     map (\<lambda>e. (entry_name e, entry_cons e, ''layer('' @ eff @ '')'', True)) (layer_of eff)
     @ (if eff = ''Fs'' \<and> p_fs_mode p = Some ''rw''
        then map (\<lambda>n. (n, [], ''layer(Fs,rw)'', True)) FS_WRITE_LAYER else [])"

definition requests :: "profile \<Rightarrow> request list" where
  "requests p =
     map (\<lambda>n. (n, ro_pair n, ''baseline('' @ p_baseline p @ '')'', False)) (baseline_names p)
     @ concat (map (effect_requests p) (p_effects p))
     @ map (\<lambda>n. (n, [], ''override(allow)'', True)) (p_allow p)"

definition add_request ::
  "profile \<Rightarrow> arch \<Rightarrow> request \<Rightarrow> ruleset \<times> string list \<Rightarrow> sbx_error + ruleset \<times> string list" where
  "add_request p a q = (case q of (name, c, origin, strict) \<Rightarrow> add_rule p a name c origin strict)"

lemma bindE_assoc: "bindE (bindE x f) g = bindE x (\<lambda>v. bindE (f v) g)"
  by (cases x) simp_all

lemma foldE_map: "foldE f (map g xs) s = foldE (\<lambda>x. f (g x)) xs s"
  by (induction xs arbitrary: s) (auto simp: bindE_def split: sum.splits)

lemma foldE_concat: "foldE f (concat (map g xs)) s = foldE (\<lambda>x. foldE f (g x)) xs s"
  by (induction xs arbitrary: s) (auto simp: foldE_append bindE_def split: sum.splits)

lemma foldE_cong: "(\<And>x s. x \<in> set xs \<Longrightarrow> f x s = g x s) \<Longrightarrow> foldE f xs s = foldE g xs s"
  by (induction xs arbitrary: s) (auto simp: bindE_def split: sum.splits)

lemma layers_of_effects: "list_all (\<lambda>e. map_of LAYERS e \<noteq> None) ALL_EFFECTS"
  by code_simp

lemma ro_entries: "list_all (\<lambda>(_, es). list_all (\<lambda>e. case e of Sys _ \<Rightarrow> True
    | Ro n _ \<Rightarrow> map_of OPEN_FLAGS_ARG n \<noteq> None) es) LAYERS"
  by code_simp

lemma add_base_request:
  "add_base p a =
    (\<lambda>n. add_request p a (n, ro_pair n, ''baseline('' @ p_baseline p @ '')'', False))"
  by (auto simp: fun_eq_iff add_base_def add_request_def ro_pair_def ro_constraint_def Let_def)

lemma add_entry_request:
  assumes "e \<in> set es" "(eff, es) \<in> set LAYERS"
  shows "add_entry p a eff e s =
    add_request p a (entry_name e, entry_cons e, ''layer('' @ eff @ '')'', True) s"
proof -
  have "case e of Sys _ \<Rightarrow> True | Ro n _ \<Rightarrow> map_of OPEN_FLAGS_ARG n \<noteq> None"
    using ro_entries assms by (fastforce simp: list_all_iff)
  then show ?thesis
    by (cases e) (auto simp: add_entry_def add_request_def ro_pair_def ro_constraint_def)
qed

lemma add_effect_request:
  assumes "eff \<in> set ALL_EFFECTS"
  shows "add_effect p a eff s = foldE (add_request p a) (effect_requests p eff) s"
proof -
  from assms obtain es where es: "map_of LAYERS eff = Some es"
    using layers_of_effects by (auto simp: list_all_iff)
  have "foldE (add_entry p a eff) es s = foldE (\<lambda>e.
      add_request p a (entry_name e, entry_cons e, ''layer('' @ eff @ '')'', True)) es s"
    by (rule foldE_cong) (rule add_entry_request [OF _ map_of_SomeD [OF es]])
  with es show ?thesis
    by (simp add: add_effect_def effect_requests_def layer_of_def foldE_append foldE_map
        add_request_def bindE_def split: sum.splits)
qed

lemma rules_requests:
  assumes "set (p_effects p) \<subseteq> set ALL_EFFECTS"
  shows "rules p a = bindE (foldE (add_request p a) (requests p) ([], p_notes p))
    (\<lambda>(out, notes). Inr (sort_key fst out, p\<lparr>p_notes := notes\<rparr>))"
proof -
  have "foldE (add_effect p a) (p_effects p) s =
      foldE (\<lambda>e. foldE (add_request p a) (effect_requests p e)) (p_effects p) s" for s
    using assms by (intro foldE_cong add_effect_request) auto
  moreover have "foldE (\<lambda>name. add_rule p a name [] ''override(allow)'' True) xs s =
      foldE (\<lambda>name. add_request p a (name, [], ''override(allow)'', True)) xs s" for xs s
    by (rule foldE_cong) (simp add: add_request_def)
  ultimately show ?thesis
    by (simp only: rules_def requests_def foldE_append foldE_map foldE_concat baseline_names_def
        add_base_request bindE_assoc)
qed

text \<open>The constraint lists that requests record for a number.\<close>

definition granted :: "profile \<Rightarrow> arch \<Rightarrow> request set \<Rightarrow> int \<Rightarrow> (int \<times> int) list set" where
  "granted p a Q n = {c. \<exists>name og s. (name, c, og, s) \<in> Q \<and> number a name = Some n \<and> name \<notin> set (p_deny p)}"

definition rules_for :: "profile \<Rightarrow> arch \<Rightarrow> request set \<Rightarrow> ruleset \<Rightarrow> bool" where
  "rules_for p a Q out \<longleftrightarrow> distinct (map fst out) \<and>
     (\<forall>n. case map_of out n of
            None \<Rightarrow> granted p a Q n = {}
          | Some r \<Rightarrow> granted p a Q n \<noteq> {} \<and> number a (r_name r) = Some n \<and> r_nr r = n
              \<and> (r_uncond r \<longleftrightarrow> [] \<in> granted p a Q n)
              \<and> r_constraints r = (if [] \<in> granted p a Q n then {} else \<Union> (set ` granted p a Q n)))"

lemma granted_insert: "granted p a (insert (name, c, og, s) Q) n =
    (if number a name = Some n \<and> name \<notin> set (p_deny p) then insert c (granted p a Q n)
     else granted p a Q n)"
  by (auto simp: granted_def)

lemma merge_rule_sel:
  "r_name (merge_rule c og r) = r_name r" "r_nr (merge_rule c og r) = r_nr r"
  "r_uncond (merge_rule c og r) \<longleftrightarrow> c = [] \<or> r_uncond r"
  "r_constraints (merge_rule c og r) =
     (if c = [] then {} else if r_uncond r then r_constraints r else r_constraints r \<union> set c)"
  by (auto simp: merge_rule_def Let_def)

lemma add_request_rules:
  assumes "add_request p a q (out, nts) = Inr (out', nts')" "rules_for p a Q out"
  shows "rules_for p a (insert q Q) out'"
proof -
  obtain name c og s where q: "q = (name, c, og, s)" by (cases q)
  have k: "known name"
    using assms(1) by (rule contrapos_pp) (simp add: q add_request_def add_rule_def nr_of_unknown)
  from nr_of_known [OF k, of a] obtain nt where n: "nr_of name a = Inr (number a name, nt)" by auto
  show ?thesis
  proof (cases "number a name = None \<or> name \<in> set (p_deny p)")
    case True
    then have "granted p a (insert q Q) = granted p a Q"
      by (intro ext) (auto simp: q granted_insert)
    moreover have "out' = out"
      using assms(1) n True by (auto simp: q add_request_def add_rule_def split: if_splits option.splits)
    ultimately show ?thesis using assms(2) by (simp only: rules_for_def simp_thms)
  next
    case False
    then obtain m where m: "number a name = Some m" and nd: "name \<notin> set (p_deny p)" by auto
    have g: "granted p a (insert q Q) n =
        (if n = m then insert c (granted p a Q m) else granted p a Q n)" for n
      using m nd by (auto simp: q granted_insert)
    have out': "out' = AList.update m (merge_rule c og
        (case map_of out m of None \<Rightarrow> new_rule name m | Some r \<Rightarrow> r)) out"
      using assms(1) n m nd by (auto simp: q add_request_def add_rule_def Let_def)
    have "rules_for p a Q out" by (rule assms(2))
    then have d: "distinct (map fst out')"
      and old: "\<And>n. case map_of out n of None \<Rightarrow> granted p a Q n = {}
          | Some r \<Rightarrow> granted p a Q n \<noteq> {} \<and> number a (r_name r) = Some n \<and> r_nr r = n
              \<and> (r_uncond r \<longleftrightarrow> [] \<in> granted p a Q n)
              \<and> r_constraints r = (if [] \<in> granted p a Q n then {} else \<Union> (set ` granted p a Q n))"
      by (simp_all add: rules_for_def out' distinct_update)
    show ?thesis unfolding rules_for_def
    proof (intro conjI allI d)
      fix n
      show "case map_of out' n of None \<Rightarrow> granted p a (insert q Q) n = {}
          | Some r \<Rightarrow> granted p a (insert q Q) n \<noteq> {} \<and> number a (r_name r) = Some n \<and> r_nr r = n
              \<and> (r_uncond r \<longleftrightarrow> [] \<in> granted p a (insert q Q) n)
              \<and> r_constraints r = (if [] \<in> granted p a (insert q Q) n then {}
                  else \<Union> (set ` granted p a (insert q Q) n))"
        using old [of n] m
        by (cases "map_of out m")
          (auto simp: g out' update_conv' merge_rule_sel new_rule_def split: option.splits)
    qed
  qed
qed

lemma add_requests_rules:
  "foldE (add_request p a) qs (out, nts) = Inr (out', nts') \<Longrightarrow> rules_for p a Q out \<Longrightarrow>
     rules_for p a (set qs \<union> Q) out'"
proof (induction qs arbitrary: out nts Q)
  case Nil
  then show ?case by simp
next
  case (Cons q qs)
  then obtain out1 nts1 where 1: "add_request p a q (out, nts) = Inr (out1, nts1)"
    and 2: "foldE (add_request p a) qs (out1, nts1) = Inr (out', nts')"
    by (auto simp: bindE_eq_Inr)
  from Cons.IH [OF 2 add_request_rules [OF 1 Cons.prems(2)]] show ?case by simp
qed

lemma map_of_sort_key: "distinct (map fst xs) \<Longrightarrow> map_of (sort_key fst xs) n = map_of xs n"
  by (rule map_of_inject_set [THEN iffD2, THEN fun_cong]) (simp_all add: distinct_map)

lemma rules_Inr:
  assumes "rules p a = Inr (rs, p')" "set (p_effects p) \<subseteq> set ALL_EFFECTS"
  shows "rules_for p a (set (requests p)) rs" "sorted (map fst rs)"
proof -
  from assms obtain out nts where
    os: "foldE (add_request p a) (requests p) ([], p_notes p) = Inr (out, nts)"
      "rs = sort_key fst out"
    by (auto simp: rules_requests bindE_eq_Inr)
  have "rules_for p a {} []" by (simp add: rules_for_def granted_def)
  from add_requests_rules [OF os(1) this] have R: "rules_for p a (set (requests p)) out" by simp
  then have "distinct (map fst out)" by (simp add: rules_for_def)
  with R show "rules_for p a (set (requests p)) rs"
    by (simp add: rules_for_def os(2) map_of_sort_key distinct_map)
  show "sorted (map fst rs)" by (simp add: os(2))
qed

text \<open>Building the allowlist fails only on an unknown name, or on a name that the architecture
  does not have.\<close>

definition available :: "arch \<Rightarrow> request \<Rightarrow> bool" where
  "available a q \<longleftrightarrow> (case q of (name, _, _, strict) \<Rightarrow> known name \<and> (strict \<longrightarrow> number a name \<noteq> None))"

lemma add_request_ok: "(\<exists>s'. add_request p a q s = Inr s') \<longleftrightarrow> available a q"
proof -
  obtain name c og st where q: "q = (name, c, og, st)" by (cases q)
  show ?thesis
  proof (cases "known name")
    case True
    with nr_of_known [of name a] show ?thesis
      by (cases s) (auto simp: q add_request_def add_rule_def available_def Let_def split: option.splits)
  next
    case False
    then show ?thesis by (cases s) (auto simp: q add_request_def add_rule_def available_def nr_of_unknown)
  qed
qed

lemma add_requests_ok: "(\<exists>s'. foldE (add_request p a) qs s = Inr s') \<longleftrightarrow> (\<forall>q \<in> set qs. available a q)"
proof (induction qs arbitrary: s)
  case Nil
  then show ?case by simp
next
  case (Cons q qs)
  show ?case using add_request_ok [of p a q s] Cons by (auto simp: bindE_eq_Inr)
qed

lemma rules_ok:
  assumes "set (p_effects p) \<subseteq> set ALL_EFFECTS"
  shows "(\<exists>x. rules p a = Inr x) \<longleftrightarrow> (\<forall>q \<in> set (requests p). available a q)"
  using add_requests_ok [of p a "requests p" "([], p_notes p)"] by (auto simp: rules_requests [OF assms] bindE_eq_Inr)

section \<open>The assembly never fails\<close>

definition pending :: "asm \<Rightarrow> string set \<Rightarrow> bool" where
  "pending a S \<longleftrightarrow> asm_ok a \<and> S \<inter> dom (a_labels a) = {}
     \<and> (\<forall>l t. a_labels a l = Some t \<longrightarrow> t \<le> here a)
     \<and> (\<forall>(p, f, l) \<in> set (a_fixups a). \<exists>x. l = Some x \<and> x \<in> dom (a_labels a) \<union> S
          \<and> (\<forall>t. a_labels a x = Some t \<longrightarrow> p < t))"

abbreviation u32 :: "int \<Rightarrow> bool" where "u32 k \<equiv> 0 \<le> k \<and> k \<le> 0xFFFFFFFF"

lemma mk_instr_ok: "u32 k \<Longrightarrow> mk_instr c 0 0 k = Inr (plain c k)"
  by (simp add: mk_instr_def)

lemma pending_new: "pending asm_new S"
  by (simp add: pending_def) (simp add: asm_new_def)

lemma pending_push:
  assumes "pending a S" "pushed a b i l" "\<And>x. l = Some x \<Longrightarrow> x \<in> S"
    "a_fixups b = a_fixups a @ (case l of None \<Rightarrow> [] | Some x \<Rightarrow> [(here a, Jt, Some x)])"
  shows "pending b S"
  using assms by (fastforce simp: pending_def pushed_def split: option.splits)

lemma load_total:
  assumes "pending a S" "u32 k"
  shows "\<exists>b. asm_load k a = Inr b \<and> pending b S \<and> here b = Suc (here a)"
proof -
  from assms(2) have b: "asm_load k a = Inr (a\<lparr>a_instrs := a_instrs a @ [plain BPF_LD_W_ABS k]\<rparr>)"
    by (simp add: asm_load_def mk_instr_ok)
  have "asm_ok a" using assms(1) by (simp add: pending_def)
  note P = asm_load_Inr [OF b this]
  have "pending (a\<lparr>a_instrs := a_instrs a @ [plain BPF_LD_W_ABS k]\<rparr>) S"
    by (rule pending_push [OF assms(1) P]) simp_all
  with b pushedD(4) [OF P] show ?thesis by simp
qed

lemma ret_total:
  assumes "pending a S" "u32 k"
  shows "\<exists>b. asm_ret k a = Inr b \<and> pending b S \<and> here b = Suc (here a)"
proof -
  from assms(2) have b: "asm_ret k a = Inr (a\<lparr>a_instrs := a_instrs a @ [plain BPF_RET_K k]\<rparr>)"
    by (simp add: asm_ret_def mk_instr_ok)
  have "asm_ok a" using assms(1) by (simp add: pending_def)
  note P = asm_ret_Inr [OF b this]
  have "pending (a\<lparr>a_instrs := a_instrs a @ [plain BPF_RET_K k]\<rparr>) S"
    by (rule pending_push [OF assms(1) P]) simp_all
  with b pushedD(4) [OF P] show ?thesis by simp
qed

lemma jump_total:
  assumes "pending a S" "u32 k" "l \<in> S"
  shows "\<exists>b. asm_jump c k (Some l) None a = Inr b \<and> pending b S \<and> here b = Suc (here a)"
proof -
  from assms(2) have b: "asm_jump c k (Some l) None a = Inr (a\<lparr>a_instrs := a_instrs a @ [plain c k],
      a_fixups := a_fixups a @ [(here a, Jt, Some l)]\<rparr>)"
    by (simp add: asm_jump_def mk_instr_ok Let_def here_def)
  have "asm_ok a" using assms(1) by (simp add: pending_def)
  note P = asm_jump_Inr [OF b this]
  have "pending (a\<lparr>a_instrs := a_instrs a @ [plain c k],
      a_fixups := a_fixups a @ [(here a, Jt, Some l)]\<rparr>) S"
    by (rule pending_push [OF assms(1) P]) (use assms(3) in simp_all)
  with b pushedD(4) [OF P] show ?thesis by simp
qed

lemma label_total:
  assumes "pending a S" "l \<in> S"
  shows "\<exists>b. asm_label l a = Inr b \<and> pending b (S - {l}) \<and> here b = here a"
proof -
  from assms have n: "a_labels a l = None" by (auto simp: pending_def)
  then have b: "asm_label l a = Inr (a\<lparr>a_labels := (a_labels a)(l \<mapsto> here a)\<rparr>)"
    by (simp add: asm_label_def here_def)
  have pos: "p < here a" if "(p, f, m) \<in> set (a_fixups a)" for p f m
    using assms(1) that by (fastforce simp: pending_def asm_ok_def)
  have "pending (a\<lparr>a_labels := (a_labels a)(l \<mapsto> here a)\<rparr>) (S - {l})"
    using assms(1) asm_label_Inr [OF b] pos by (fastforce simp: pending_def split: if_splits)
  with b show ?thesis by (simp add: here_def)
qed

lemma finish_total:
  assumes "pending a {}" "here a \<le> 256"
  shows "\<exists>prog. finish a = Inr prog \<and> length prog = here a"
proof -
  have ok: "asm_ok a" using assms(1) by (simp add: pending_def)
  have "\<exists>ins. foldE (resolve_one (a_labels a)) (a_fixups a) (a_instrs a) = Inr ins"
  proof (rule resolve_total)
    fix p f l
    assume m: "(p, f, l) \<in> set (a_fixups a)"
    then obtain x where "l = Some x" "x \<in> dom (a_labels a)" "\<forall>t. a_labels a x = Some t \<longrightarrow> p < t"
      using assms(1) by (fastforce simp: pending_def)
    moreover from this(2) obtain t where "a_labels a x = Some t" "t \<le> here a"
      using assms(1) by (auto simp: pending_def)
    moreover have "p < here a" "f = Jt" using ok m by (auto simp: asm_ok_def)
    ultimately show "p < length (a_instrs a) \<and> f = Jt
        \<and> (\<exists>x t. l = Some x \<and> a_labels a x = Some t \<and> p < t \<and> t \<le> p + 256)"
      using assms(2) by (auto simp: here_def)
  qed (use ok in \<open>simp add: asm_ok_def\<close>)
  then obtain ins where ins: "foldE (resolve_one (a_labels a)) (a_fixups a) (a_instrs a) = Inr ins" ..
  have "length ins = length (a_instrs a)"
    by (rule conjunct1 [OF resolve_all [OF ins]]) (use ok in \<open>auto simp: asm_ok_def here_def\<close>)
  with ins assms(2) show ?thesis by (simp add: finish_def BPF_MAXINSNS_def here_def)
qed

definition rule_labels :: "int \<times> sys_rule \<Rightarrow> string set" where
  "rule_labels x = {block_label (fst x)} \<union> (if r_uncond (snd x) then {} else {deny_label (fst x)})"

definition block_size :: "int \<times> sys_rule \<Rightarrow> nat" where
  "block_size x = (if r_uncond (snd x) then 1 else 2 * card (r_constraints (snd x)) + 2)"

definition rule_ok :: "int \<times> sys_rule \<Rightarrow> bool" where
  "rule_ok x \<longleftrightarrow> 0 \<le> fst x \<and> fst x < 1024 \<and> finite (r_constraints (snd x))
     \<and> (\<forall>(i, m) \<in> r_constraints (snd x). 0 \<le> i \<and> i \<le> 5 \<and> u32 m)"

lemma dec_inj [simp]: "dec m = dec n \<longleftrightarrow> m = n"
  by (metis int_of_dec)

lemma block_label_eq: "0 \<le> m \<Longrightarrow> 0 \<le> n \<Longrightarrow> block_label m = block_label n \<longleftrightarrow> m = n"
  by (simp add: block_label_def eq_nat_nat_iff)

lemma deny_label_eq: "0 \<le> m \<Longrightarrow> 0 \<le> n \<Longrightarrow> deny_label m = deny_label n \<longleftrightarrow> m = n"
  by (simp add: deny_label_def eq_nat_nat_iff)

lemma dec_no_letter: "\<not> dec_char c \<Longrightarrow> c \<in> set s \<Longrightarrow> dec n \<noteq> s"
  using dec_chars [of n] by (auto simp: list_all_iff)

lemma labels_apart:
  "block_label m \<noteq> deny_label n" "block_label m \<noteq> ''nr''" "block_label m \<noteq> ''default''"
  "deny_label m \<noteq> ''nr''" "deny_label m \<noteq> ''default''"
  by (simp_all add: block_label_def deny_label_def)
    (rule dec_no_letter [where c = "CHR ''e''"]; simp add: dec_char_def code_of_def)

lemma rule_labels_disjoint:
  "rule_ok x \<Longrightarrow> rule_ok y \<Longrightarrow> fst x \<noteq> fst y \<Longrightarrow> rule_labels x \<inter> rule_labels y = {}"
  by (auto simp: rule_labels_def rule_ok_def block_label_eq deny_label_eq labels_apart
      labels_apart(1) [symmetric])

lemma dispatch_total:
  assumes "pending a S" "\<And>x. x \<in> set rs \<Longrightarrow> rule_ok x \<and> block_label (fst x) \<in> S"
  shows "\<exists>b. foldE emit_dispatch rs a = Inr b \<and> pending b S \<and> here b = here a + length rs"
  using assms
proof (induction rs arbitrary: a)
  case Nil
  then show ?case by simp
next
  case (Cons x rs)
  from Cons.prems(2) [of x] have "u32 (fst x)" "block_label (fst x) \<in> S" by (simp_all add: rule_ok_def)
  from jump_total [OF Cons.prems(1) this, of BPF_JEQ_K] obtain b where
    b: "emit_dispatch x a = Inr b" "pending b S" "here b = Suc (here a)"
    by (auto simp: emit_dispatch_def [of x a] asm_jeq_def)
  from Cons.IH [OF b(2)] Cons.prems(2) b show ?case by auto
qed

lemma checks_total:
  assumes "pending a S" "deny_label nr \<in> S" "\<And>i m. (i, m) \<in> set cs \<Longrightarrow> 0 \<le> i \<and> i \<le> 5 \<and> u32 m"
  shows "\<exists>b. foldE (emit_check nr) cs a = Inr b \<and> pending b S \<and> here b = here a + 2 * length cs"
  using assms
proof (induction cs arbitrary: a)
  case Nil
  then show ?case by simp
next
  case (Cons x cs)
  obtain i m where x: "x = (i, m)" by (cases x)
  with Cons.prems(3) [of i m] have im: "0 \<le> i" "i \<le> 5" "u32 m" by simp_all
  then have off: "off_arg_low i = Inr (16 + 8 * i)" "u32 (16 + 8 * i)" by (simp_all add: off_arg_low_def)
  from load_total [OF Cons.prems(1) off(2)] obtain a1 where
    1: "asm_load (16 + 8 * i) a = Inr a1" "pending a1 S" "here a1 = Suc (here a)" by auto
  from jump_total [OF 1(2) im(3) Cons.prems(2), of BPF_JSET_K] obtain a2 where
    2: "asm_jset m (Some (deny_label nr)) None a1 = Inr a2" "pending a2 S" "here a2 = Suc (here a1)"
    by (auto simp: asm_jset_def)
  from off 1 2 have "emit_check nr x a = Inr a2" by (simp add: emit_check_def [of nr "(i, m)" a] x)
  with Cons.IH [OF 2(2) Cons.prems(2)] Cons.prems(3) 1 2 show ?case by auto
qed

lemma block_total:
  assumes "pending a S" "rule_ok x" "rule_labels x \<subseteq> S" "u32 dflt"
  shows "\<exists>b. emit_block dflt x a = Inr b \<and> pending b (S - rule_labels x)
    \<and> here b = here a + block_size x"
proof -
  have bl: "block_label (fst x) \<in> S" using assms(3) by (simp add: rule_labels_def)
  have allow: "u32 SECCOMP_RET_ALLOW" by (simp add: SECCOMP_RET_ALLOW_def)
  from label_total [OF assms(1) bl] obtain a1 where
    1: "asm_label (block_label (fst x)) a = Inr a1" "pending a1 (S - {block_label (fst x)})"
      "here a1 = here a" by auto
  show ?thesis
  proof (cases "r_uncond (snd x)")
    case True
    with ret_total [OF 1(2) allow] 1 show ?thesis
      by (auto simp: emit_block_def rule_labels_def block_size_def)
  next
    case False
    let ?S = "S - {block_label (fst x)}" and ?cs = "sorted_list_of_set (r_constraints (snd x))"
    have dl: "deny_label (fst x) \<in> ?S"
      using assms(3) False labels_apart(1) [of "fst x" "fst x"] by (auto simp: rule_labels_def)
    have fin: "finite (r_constraints (snd x))"
      and cs: "\<And>i m. (i, m) \<in> set ?cs \<Longrightarrow> 0 \<le> i \<and> i \<le> 5 \<and> u32 m"
      using assms(2) by (auto simp: rule_ok_def)
    have "\<exists>b. foldE (emit_check (fst x)) ?cs a1 = Inr b \<and> pending b ?S
        \<and> here b = here a1 + 2 * length ?cs"
      by (rule checks_total [OF 1(2) dl]) (rule cs)
    then obtain a2 where
      2: "foldE (emit_check (fst x)) ?cs a1 = Inr a2" "pending a2 ?S"
        "here a2 = here a1 + 2 * card (r_constraints (snd x))" by auto
    from ret_total [OF 2(2) allow] obtain a3 where
      3: "asm_ret SECCOMP_RET_ALLOW a2 = Inr a3" "pending a3 ?S" "here a3 = Suc (here a2)" by auto
    from label_total [OF 3(2) dl] obtain a4 where
      4: "asm_label (deny_label (fst x)) a3 = Inr a4" "pending a4 (?S - {deny_label (fst x)})"
        "here a4 = here a3" by auto
    from ret_total [OF 4(2) assms(4)] obtain b where
      5: "asm_ret dflt a4 = Inr b" "pending b (?S - {deny_label (fst x)})" "here b = Suc (here a4)"
      by auto
    have "S - rule_labels x = ?S - {deny_label (fst x)}" using False by (auto simp: rule_labels_def)
    with 1 2 3 4 5 False show ?thesis by (simp add: emit_block_def block_size_def)
  qed
qed

lemma blocks_total:
  assumes "pending a S" "\<And>x. x \<in> set rs \<Longrightarrow> rule_ok x \<and> rule_labels x \<subseteq> S" "distinct (map fst rs)"
    "u32 dflt"
  shows "\<exists>b. foldE (emit_block dflt) rs a = Inr b \<and> pending b (S - \<Union> (rule_labels ` set rs))
    \<and> here b = here a + sum_list (map block_size rs)"
  using assms
proof (induction rs arbitrary: a S)
  case Nil
  then show ?case by simp
next
  case (Cons x rs)
  from Cons.prems(2) [of x] have x: "rule_ok x" "rule_labels x \<subseteq> S" by simp_all
  from block_total [OF Cons.prems(1) x Cons.prems(4)] obtain b where
    b: "emit_block dflt x a = Inr b" "pending b (S - rule_labels x)" "here b = here a + block_size x"
    by auto
  have rest: "rule_ok y \<and> rule_labels y \<subseteq> S - rule_labels x" if y: "y \<in> set rs" for y
  proof -
    from Cons.prems(2) [of y] y have "rule_ok y" "rule_labels y \<subseteq> S" by simp_all
    moreover have "fst x \<noteq> fst y" using Cons.prems(3) y by auto
    ultimately show ?thesis using rule_labels_disjoint [OF x(1), of y] by auto
  qed
  have "distinct (map fst rs)" using Cons.prems(3) by simp
  from Cons.IH [OF b(2) rest this Cons.prems(4)] obtain c where
    c: "foldE (emit_block dflt) rs b = Inr c"
      "pending c (S - rule_labels x - \<Union> (rule_labels ` set rs))"
      "here c = here b + sum_list (map block_size rs)" by auto
  have "S - rule_labels x - \<Union> (rule_labels ` set rs) = S - \<Union> (rule_labels ` set (x # rs))" by auto
  with b c show ?case by simp
qed

lemma assemble_total:
  assumes "\<And>x. x \<in> set rs \<Longrightarrow> rule_ok x" "distinct (map fst rs)" "u32 dflt" "u32 audit"
    "5 + length rs + sum_list (map block_size rs) \<le> 256"
  shows "\<exists>prog. assemble audit dflt rs = Inr prog
    \<and> length prog = 5 + length rs + sum_list (map block_size rs)"
proof -
  let ?R = "\<Union> (rule_labels ` set rs)"
  let ?S = "{''nr'', ''default''} \<union> ?R" and ?T = "{''default''} \<union> ?R"
  have off: "u32 OFF_ARCH" "u32 OFF_NR" by (simp_all add: OFF_ARCH_def OFF_NR_def)
  from load_total [OF pending_new off(1)] obtain a1 where
    1: "asm_load OFF_ARCH asm_new = Inr a1" "pending a1 ?S" "here a1 = 1" by auto
  from jump_total [OF 1(2) assms(4), of "''nr''" BPF_JEQ_K] obtain a2 where
    2: "asm_jeq audit (Some ''nr'') None a1 = Inr a2" "pending a2 ?S" "here a2 = 2"
    using 1(3) by (auto simp: asm_jeq_def)
  from ret_total [OF 2(2) assms(3)] obtain a3 where
    3: "asm_ret dflt a2 = Inr a3" "pending a3 ?S" "here a3 = 3" using 2(3) by auto
  have "?S - {''nr''} = ?T" by (auto simp: rule_labels_def labels_apart labels_apart [symmetric] split: if_splits)
  with label_total [OF 3(2), of "''nr''"] obtain a4 where
    4: "asm_label ''nr'' a3 = Inr a4" "pending a4 ?T" "here a4 = 3" using 3(3) by auto
  from load_total [OF 4(2) off(2)] obtain a5 where
    5: "asm_load OFF_NR a4 = Inr a5" "pending a5 ?T" "here a5 = 4" using 4(3) by auto
  have "\<exists>b. foldE emit_dispatch rs a5 = Inr b \<and> pending b ?T \<and> here b = here a5 + length rs"
    by (rule dispatch_total [OF 5(2)]) (use assms(1) in \<open>auto simp: rule_labels_def\<close>)
  then obtain a6 where
    6: "foldE emit_dispatch rs a5 = Inr a6" "pending a6 ?T" "here a6 = 4 + length rs"
    using 5(3) by auto
  have "?T - {''default''} = ?R" by (auto simp: rule_labels_def labels_apart labels_apart [symmetric] split: if_splits)
  with label_total [OF 6(2), of "''default''"] obtain a7 where
    7: "asm_label ''default'' a6 = Inr a7" "pending a7 ?R" "here a7 = 4 + length rs"
    using 6(3) by auto
  from ret_total [OF 7(2) assms(3)] obtain a8 where
    8: "asm_ret dflt a7 = Inr a8" "pending a8 ?R" "here a8 = 5 + length rs" using 7(3) by auto
  have "\<exists>b. foldE (emit_block dflt) rs a8 = Inr b \<and> pending b (?R - ?R)
      \<and> here b = here a8 + sum_list (map block_size rs)"
    by (rule blocks_total [OF 8(2)]) (use assms(1-3) in auto)
  then obtain a9 where
    9: "foldE (emit_block dflt) rs a8 = Inr a9" "pending a9 {}"
      "here a9 = 5 + length rs + sum_list (map block_size rs)"
    using 8(3) by auto
  from finish_total [OF 9(2)] 9(3) assms(5) obtain prog where
    "finish a9 = Inr prog" "length prog = here a9" by auto
  with 1 2 3 4 5 6 7 8 9 show ?thesis by (simp add: assemble_def)
qed

end
