(* ===== verification/SandboxProps.thy ===== *)
theory SandboxProps
  imports PolicyProps
begin

text \<open>
  The properties of the sandbox: the assembled filter is the allowlist, which profiles
  assemble for an architecture, a read-only profile gives every write the default action, the deny list and the undeniable calls, and what the
  derivation computes from the call graph.
\<close>

section \<open>Valid profiles and their rules\<close>

definition valid_profile :: "profile \<Rightarrow> bool" where
  "valid_profile p \<longleftrightarrow> (\<exists>ef m og act b al de nts. new_profile ef m og act b al de nts = Inr p)"

lemma check_all_Inr: "check_all ok err xs = Inr () \<longleftrightarrow> (\<forall>x \<in> set xs. ok x)"
  by (auto simp: check_all_def find_Some_iff find_None_iff split: option.splits)

lemma valid_profileD:
  assumes "valid_profile p"
  shows "set (p_effects p) \<subseteq> set ALL_EFFECTS" "set (p_deny p) \<inter> set UNDENIABLE = {}"
    "p_default p \<in> set DEFAULT_ACTIONS"
  using assms
  by (auto simp: valid_profile_def new_profile_def bindE_eq_Inr check_all_Inr split: if_splits)

lemma default_ret_ok: "\<exists>v. default_ret p = Inr v \<and> u32 v \<and> v \<noteq> SECCOMP_RET_ALLOW"
proof -
  have "ret_errno EPERM = Inr 0x50001" by code_simp
  then show ?thesis
    by (simp add: default_ret_def SECCOMP_RET_ALLOW_def SECCOMP_RET_KILL_PROCESS_def
        SECCOMP_RET_TRAP_def SECCOMP_RET_LOG_def)
qed

lemma request_cons:
  assumes "(n, c, og, s) \<in> set (requests p)"
  shows "c = [] \<or> c = ro_pair n"
proof -
  have "entry_cons e = [] \<or> entry_cons e = ro_pair (entry_name e)" for e by (cases e) simp_all
  with assms show ?thesis by (auto simp: requests_def effect_requests_def split: if_splits)
qed

lemma open_args: "map_of OPEN_FLAGS_ARG n = Some i \<Longrightarrow> (n = ''open'' \<and> i = 1) \<or> (n = ''openat'' \<and> i = 2)"
  by (auto simp: OPEN_FLAGS_ARG_def split: if_splits)

lemma rule_shape:
  assumes "rules p a = Inr (rs, p')" "valid_profile p" "map_of rs n = Some r"
  shows "r_uncond r \<longleftrightarrow> [] \<in> granted p a (set (requests p)) n"
    and "number a (r_name r) = Some n"
    and "\<not> r_uncond r \<Longrightarrow> \<exists>i. map_of OPEN_FLAGS_ARG (r_name r) = Some i \<and> r_constraints r = {(i, OPEN_WRITE_MASK)}"
    and "r_uncond r \<Longrightarrow> r_constraints r = {}"
    and "granted p a (set (requests p)) n \<noteq> {}"
proof -
  let ?G = "granted p a (set (requests p)) n"
  have R: "?G \<noteq> {} \<and> number a (r_name r) = Some n \<and> r_nr r = n \<and> (r_uncond r \<longleftrightarrow> [] \<in> ?G)
      \<and> r_constraints r = (if [] \<in> ?G then {} else \<Union> (set ` ?G))"
    using rules_Inr(1) [OF assms(1) valid_profileD(1) [OF assms(2)]] assms(3)
    by (auto simp: rules_for_def dest!: spec [where x = n])
  then show "r_uncond r \<longleftrightarrow> [] \<in> ?G" "number a (r_name r) = Some n" "?G \<noteq> {}"
    "r_uncond r \<Longrightarrow> r_constraints r = {}" by auto
  have G: "?G \<subseteq> {[], ro_pair (r_name r)}"
    using R by (auto simp: granted_def dest: request_cons number_inj)
  assume "\<not> r_uncond r"
  with R G have "?G = {ro_pair (r_name r)}" "ro_pair (r_name r) \<noteq> []" by auto
  with R show "\<exists>i. map_of OPEN_FLAGS_ARG (r_name r) = Some i \<and> r_constraints r = {(i, OPEN_WRITE_MASK)}"
    by (auto simp: ro_pair_def split: option.splits)
qed

lemma rules_distinct:
  "rules p a = Inr (rs, p') \<Longrightarrow> valid_profile p \<Longrightarrow> distinct (map fst rs)"
  using rules_Inr(1) [OF _ valid_profileD(1)] by (simp add: rules_for_def)

lemma rules_member:
  assumes "rules p a = Inr (rs, p')" "valid_profile p" "x \<in> set rs"
  shows "map_of rs (fst x) = Some (snd x)"
  using map_of_is_SomeI [OF rules_distinct [OF assms(1,2)]] assms(3) by (cases x) simp

lemma rules_ok_rule:
  assumes "rules p a = Inr (rs, p')" "valid_profile p" "x \<in> set rs"
  shows "rule_ok x"
proof -
  note M = rules_member [OF assms]
  note S = rule_shape [OF assms(1,2) M]
  have "0 \<le> fst x \<and> fst x < 1024" using number_range [OF S(2)] .
  then show ?thesis using S(3,4) open_args
    by (cases "r_uncond (snd x)") (fastforce simp: rule_ok_def OPEN_WRITE_MASK_def)+
qed

lemma rules_size:
  assumes "rules p a = Inr (rs, p')" "valid_profile p"
  shows "5 + length rs + sum_list (map block_size rs) \<le> 193"
proof -
  have d: "distinct (map fst rs)" by (rule rules_distinct [OF assms])
  have nums: "fst ` set rs \<subseteq> set (numbers_of a)"
    using rule_shape(2) [OF assms rules_member [OF assms]] number_in by (fastforce simp: image_iff)
  have "length rs = card (fst ` set rs)" using distinct_card [OF d] by simp
  also have "\<dots> \<le> card (set (numbers_of a))" by (rule card_mono [OF _ nums]) simp
  also have "\<dots> \<le> length (numbers_of a)" by (rule card_length)
  also have "\<dots> \<le> length SYSCALLS"
    by (simp add: numbers_of_def List.map_filter_def)
  finally have len: "length rs \<le> 91" by (simp add: length_SYSCALLS)
  let ?C = "filter (\<lambda>x. \<not> r_uncond (snd x)) rs"
  have opens: "fst ` set ?C \<subseteq> {the (number a ''open''), the (number a ''openat'')}"
  proof
    fix n
    assume "n \<in> fst ` set ?C"
    then obtain x where x: "x \<in> set rs" "\<not> r_uncond (snd x)" "n = fst x" by auto
    note S = rule_shape [OF assms rules_member [OF assms x(1)]]
    from S(3) [OF x(2)] open_args have "r_name (snd x) \<in> {''open'', ''openat''}" by fastforce
    with S(2) x(3) show "n \<in> {the (number a ''open''), the (number a ''openat'')}" by auto
  qed
  have "length ?C = card (fst ` set ?C)"
    using distinct_card [of "map fst ?C"] d by (simp add: distinct_map_filter)
  also have "\<dots> \<le> card {the (number a ''open''), the (number a ''openat'')}"
    by (rule card_mono [OF _ opens]) simp
  also have "\<dots> \<le> 2" by (simp add: card_insert_if)
  finally have two: "length ?C \<le> 2" .
  have "block_size x = (if r_uncond (snd x) then 1 else 4)" if "x \<in> set rs" for x
    using rule_shape(3) [OF assms rules_member [OF assms that]] by (auto simp: block_size_def)
  then have "map block_size rs = map (\<lambda>x. if r_uncond (snd x) then 1 else 4) rs" by simp
  then have "sum_list (map block_size rs) = length rs + 3 * length ?C"
    by (simp only:) (induction rs; simp)
  with len two show ?thesis by simp
qed

section \<open>Which requests each layer makes\<close>

lemma known_iff: "known n \<longleftrightarrow> n \<in> set (map fst SYSCALLS)"
  by (auto simp: known_def map_of_eq_None_iff)

lemma baseline_known: "set (BASELINE_HOSTED @ FS_WRITE_LAYER) \<subseteq> set (map fst SYSCALLS)"
  by (simp add: BASELINE_HOSTED_def BASELINE_MINIMAL_def FS_WRITE_LAYER_def SYSCALLS_def)

lemma layers_known: "set (map entry_name (concat (map snd LAYERS))) \<subseteq> set (map fst SYSCALLS)"
  by (simp add: LAYERS_def FS_WRITE_LAYER_def SYSCALLS_def)

definition absent_generic :: "string list" where
  "absent_generic = [''open'', ''stat'', ''access'', ''readlink'', ''unlink'', ''rename'', ''mkdir'',
     ''rmdir'', ''chmod'', ''arch_prctl'', ''fork'', ''vfork'', ''pipe'', ''dup2'']"

lemma generic_rows:
  "list_all (\<lambda>(n, row). (case row_nr Aarch64 row of None \<Rightarrow> True | Some _ \<Rightarrow> False) = (n \<in> set absent_generic)
     \<and> row_nr Riscv64 row = row_nr Aarch64 row) SYSCALLS"
  by code_simp

lemma layers_on_generic:
  "list_all (\<lambda>e. list_all (\<lambda>x. entry_name x \<notin> set absent_generic) (layer_of e)
     = (e \<notin> {''Fs'', ''Net'', ''Proc''})) ALL_EFFECTS"
  by code_simp

lemma no_write_names:
  "list_all (\<lambda>e. list_all (\<lambda>x. entry_name x \<in> set FS_WRITE_LAYER \<longrightarrow> entry_cons x \<noteq> []) (layer_of e))
     ALL_EFFECTS"
  "list_all (\<lambda>n. n \<in> set FS_WRITE_LAYER \<longrightarrow> ro_pair n \<noteq> []) (BASELINE_MINIMAL @ BASELINE_HOSTED)"
  by code_simp+

lemma undeniable_base:
  "list_all (\<lambda>n. n \<in> set BASELINE_MINIMAL \<and> n \<in> set BASELINE_HOSTED \<and> ro_pair n = []) UNDENIABLE"
  by code_simp

lemma number_generic:
  assumes "known n" "a \<noteq> X86_64"
  shows "number a n = None \<longleftrightarrow> n \<in> set absent_generic"
proof -
  from assms(1) obtain row where r: "map_of SYSCALLS n = Some row" by (auto simp: known_def)
  then have "(case row_nr Aarch64 row of None \<Rightarrow> True | Some _ \<Rightarrow> False) = (n \<in> set absent_generic)
      \<and> row_nr Riscv64 row = row_nr Aarch64 row"
    using generic_rows by (auto simp only: list_all_iff dest!: map_of_SomeD)
  with r assms(2) show ?thesis by (cases a) (auto simp: number_def split: option.splits)
qed

lemma layer_known:
  assumes "x \<in> set (layer_of e)"
  shows "known (entry_name x)"
proof -
  from assms obtain es where "(e, es) \<in> set LAYERS" "x \<in> set es"
    by (cases "map_of LAYERS e") (auto simp: layer_of_def dest: map_of_SomeD)
  then have "entry_name x \<in> set (map entry_name (concat (map snd LAYERS)))" by force
  with layers_known show ?thesis by (auto simp only: known_iff)
qed

lemma baseline_minimal_subset: "set BASELINE_MINIMAL \<subseteq> set BASELINE_HOSTED"
  unfolding BASELINE_HOSTED_def set_append by (rule Un_upper1)

lemma baseline_name_known: "n \<in> set (baseline_names p) \<Longrightarrow> known n"
  using baseline_known baseline_minimal_subset
  by (auto simp only: known_iff baseline_names_def set_append split: if_splits)

lemma fs_write_known: "n \<in> set FS_WRITE_LAYER \<Longrightarrow> known n"
  using baseline_known by (auto simp only: known_iff set_append)

lemma fs_layer_generic: "e = ''Fs'' \<Longrightarrow> \<exists>x \<in> set (layer_of e). entry_name x \<in> set absent_generic"
  using layers_on_generic by (auto simp: list_all_iff ALL_EFFECTS_def)

lemma effect_available:
  assumes "e \<in> set ALL_EFFECTS"
  shows "(\<forall>q \<in> set (effect_requests p e). available a q) \<longleftrightarrow>
    a = X86_64 \<or> e \<notin> {''Fs'', ''Net'', ''Proc''}"
proof (cases "a = X86_64")
  case True
  then show ?thesis using number_x86 layer_known fs_write_known
    by (auto simp: effect_requests_def available_def split: if_splits)
next
  case False
  have L: "(\<forall>x \<in> set (layer_of e). entry_name x \<notin> set absent_generic) \<longleftrightarrow> e \<notin> {''Fs'', ''Net'', ''Proc''}"
    using layers_on_generic assms by (simp only: list_all_iff)
  have "number a (entry_name x) \<noteq> None \<longleftrightarrow> entry_name x \<notin> set absent_generic"
    if "x \<in> set (layer_of e)" for x
    using number_generic [OF layer_known [OF that] False] by simp
  then have "(\<forall>x \<in> set (layer_of e). available a (entry_name x, entry_cons x, ''layer('' @ e @ '')'', True))
      \<longleftrightarrow> e \<notin> {''Fs'', ''Net'', ''Proc''}"
    using L layer_known by (simp only: available_def split_conv simp_thms) blast
  then show ?thesis using False by (auto simp: effect_requests_def)
qed

lemma rules_available:
  assumes "valid_profile p"
  shows "(\<exists>x. rules p a = Inr x) \<longleftrightarrow> (\<forall>n \<in> set (p_allow p). number a n \<noteq> None)
    \<and> (a = X86_64 \<or> set (p_effects p) \<inter> {''Fs'', ''Net'', ''Proc''} = {})"
proof -
  note E = valid_profileD(1) [OF assms(1)]
  have k: "number a n \<noteq> None \<Longrightarrow> known n" for n using number_known by blast
  have "(\<exists>x. rules p a = Inr x) \<longleftrightarrow> (\<forall>q \<in> set (requests p). available a q)"
    by (rule rules_ok [OF E])
  also have "\<dots> \<longleftrightarrow> (\<forall>e \<in> set (p_effects p). \<forall>q \<in> set (effect_requests p e). available a q)
      \<and> (\<forall>n \<in> set (p_allow p). number a n \<noteq> None)"
    using k baseline_name_known
    by (simp only: requests_def set_append set_concat set_map ball_Un ball_UN ball_simps
        available_def split_conv) blast
  also have "\<dots> \<longleftrightarrow> (\<forall>e \<in> set (p_effects p). a = X86_64 \<or> e \<notin> {''Fs'', ''Net'', ''Proc''})
      \<and> (\<forall>n \<in> set (p_allow p). number a n \<noteq> None)"
    using effect_available E by (simp only: subset_iff Ball_def) blast
  also have "\<dots> \<longleftrightarrow> (\<forall>n \<in> set (p_allow p). number a n \<noteq> None)
      \<and> (a = X86_64 \<or> set (p_effects p) \<inter> {''Fs'', ''Net'', ''Proc''} = {})"
    by blast
  finally show ?thesis .
qed

lemma program_of_rules:
  assumes "rules p a = Inr (rs, p')" "valid_profile p"
  shows "\<exists>prog. filter_program p a = Inr prog \<and> length prog \<le> 193"
proof -
  obtain v where v: "default_ret p = Inr v" "u32 v" using default_ret_ok by blast
  have au: "u32 (AUDIT_ARCH a)"
    by (cases a) (simp_all add: AUDIT_ARCH_def AUDIT_ARCH_X86_64_def AUDIT_ARCH_AARCH64_def
        AUDIT_ARCH_RISCV64_def)
  note size = rules_size [OF assms]
  have "\<exists>prog. assemble (AUDIT_ARCH a) v rs = Inr prog
      \<and> length prog = 5 + length rs + sum_list (map block_size rs)"
    by (rule assemble_total [OF rules_ok_rule [OF assms] rules_distinct [OF assms] v(2) au])
      (use size in simp_all)
  then show ?thesis using assms(1) v(1) size by (auto simp: filter_program_def lift_asm_def)
qed

lemma lift_asm_Inr: "lift_asm x = Inr v \<longleftrightarrow> x = Inr v"
  by (cases x) (simp_all add: lift_asm_def)

lemma filter_programD:
  assumes "filter_program p a = Inr prog" "valid_profile p"
  obtains rs p' dflt where "rules p a = Inr (rs, p')" "default_ret p = Inr dflt"
    "assemble (AUDIT_ARCH a) dflt rs = Inr prog" "distinct (map fst rs)"
    "\<forall>x \<in> set rs. finite (r_constraints (snd x))"
proof -
  from assms(1) obtain rs p' dflt where
    r: "rules p a = Inr (rs, p')" "default_ret p = Inr dflt" "assemble (AUDIT_ARCH a) dflt rs = Inr prog"
    by (auto simp: filter_program_def bindE_eq_Inr lift_asm_Inr)
  then show thesis
    using that rules_distinct [OF r(1) assms(2)] rules_ok_rule [OF r(1) assms(2)]
    by (auto simp: rule_ok_def)
qed

lemma allow_request:
  assumes "seccomp_kernel K" "filter_program p a = Inr prog" "valid_profile p"
  shows "K prog d acc = Some SECCOMP_RET_ALLOW \<longleftrightarrow>
    uint (sd_arch d) = AUDIT_ARCH a
    \<and> (\<exists>name. number a name = Some (uint (sd_nr d))
        \<and> (let G = granted p a (set (requests p)) (uint (sd_nr d)) in
            G \<noteq> {} \<and> ([] \<notin> G \<longrightarrow> (\<exists>i. map_of OPEN_FLAGS_ARG name = Some i
               \<and> arg_low d i AND OPEN_WRITE_MASK = 0))))"
proof -
  obtain rs p' dflt where r: "rules p a = Inr (rs, p')" "default_ret p = Inr dflt"
    "assemble (AUDIT_ARCH a) dflt rs = Inr prog" "distinct (map fst rs)"
    "\<forall>x \<in> set rs. finite (r_constraints (snd x))"
    by (rule filter_programD [OF assms(2,3)])
  have V: "K prog d acc = Some (verdict rs dflt (AUDIT_ARCH a) d)"
    by (rule seccomp_kernel.filter_decides [OF assms(1) r(3,5,4)])
  have ne: "dflt \<noteq> SECCOMP_RET_ALLOW" using default_ret_ok [of p] r(2) by auto
  let ?n = "uint (sd_nr d)"
  let ?G = "granted p a (set (requests p)) ?n"
  show ?thesis
  proof (cases "map_of rs ?n")
    case None
    then have "?G = {}"
      using rules_Inr(1) [OF r(1) valid_profileD(1) [OF assms(3)]]
      by (auto simp: rules_for_def dest!: spec [where x = ?n])
    with None V ne show ?thesis by (simp add: verdict_def)
  next
    case (Some x)
    note S = rule_shape [OF r(1) assms(3) Some]
    have "rule_allows x d \<longleftrightarrow> ([] \<notin> ?G \<longrightarrow> (\<exists>i. map_of OPEN_FLAGS_ARG (r_name x) = Some i
        \<and> arg_low d i AND OPEN_WRITE_MASK = 0))"
      using S(1,3) by (auto simp: rule_allows_def)
    moreover have "number a name = Some ?n \<longleftrightarrow> name = r_name x" for name
      using S(2) number_inj by blast
    ultimately show ?thesis using Some V ne S(5) by (auto simp: verdict_def Let_def)
  qed
qed

section \<open>The walk over the call graph\<close>

definition calls :: "call_graph \<Rightarrow> (string \<times> string) set" where
  "calls E = {(k, c). c \<in> set (fn_callees E k)}"

lemma walk_calls_reach:
  assumes "walk_calls E stack reach bs = (reach', bs')"
    "\<And>k c. k \<in> set reach \<Longrightarrow> c \<in> set (fn_callees E k) \<Longrightarrow> c \<in> set reach \<union> set stack"
    "set bs = (\<Union>k \<in> set reach. set (builtin_callees E k))"
  shows "set reach \<union> set stack \<subseteq> set reach'
    \<and> (\<forall>k c. k \<in> set reach' \<longrightarrow> c \<in> set (fn_callees E k) \<longrightarrow> c \<in> set reach')
    \<and> set reach' \<subseteq> (calls E)\<^sup>* `` (set reach \<union> set stack)
    \<and> set bs' = (\<Union>k \<in> set reach'. set (builtin_callees E k))"
  using assms
proof (induction E stack reach bs rule: walk_calls.induct)
  case (1 E reach bs)
  then show ?case by auto
next
  case (2 E k stack reach bs)
  show ?case
  proof (cases "k \<in> set reach")
    case True
    have "set reach \<union> set stack \<subseteq> set reach'
        \<and> (\<forall>k c. k \<in> set reach' \<longrightarrow> c \<in> set (fn_callees E k) \<longrightarrow> c \<in> set reach')
        \<and> set reach' \<subseteq> (calls E)\<^sup>* `` (set reach \<union> set stack)
        \<and> set bs' = (\<Union>k \<in> set reach'. set (builtin_callees E k))"
    proof (rule "2.IH"(1) [OF True])
      show "walk_calls E stack reach bs = (reach', bs')" using "2.prems"(1) True by simp
      show "c \<in> set reach \<union> set stack" if "j \<in> set reach" "c \<in> set (fn_callees E j)" for j c
        using "2.prems"(2) [OF that] True by auto
    qed (rule "2.prems"(3))
    with True show ?thesis by auto
  next
    case False
    let ?st = "rev (fn_callees E k) @ stack"
    have IH: "set (k # reach) \<union> set ?st \<subseteq> set reach'
        \<and> (\<forall>k c. k \<in> set reach' \<longrightarrow> c \<in> set (fn_callees E k) \<longrightarrow> c \<in> set reach')
        \<and> set reach' \<subseteq> (calls E)\<^sup>* `` (set (k # reach) \<union> set ?st)
        \<and> set bs' = (\<Union>k \<in> set reach'. set (builtin_callees E k))"
    proof (rule "2.IH"(2) [OF False])
      show "walk_calls E ?st (k # reach) (builtin_callees E k @ bs) = (reach', bs')"
        using "2.prems"(1) False by simp
      show "c \<in> set (k # reach) \<union> set ?st" if "j \<in> set (k # reach)" "c \<in> set (fn_callees E j)" for j c
        using "2.prems"(2) [of j c] that by auto
      show "set (builtin_callees E k @ bs) = (\<Union>k \<in> set (k # reach). set (builtin_callees E k))"
        using "2.prems"(3) by simp
    qed
    have "(calls E)\<^sup>* `` (set (k # reach) \<union> set ?st) \<subseteq> (calls E)\<^sup>* `` (set reach \<union> set (k # stack))"
      by (auto simp: calls_def intro: converse_rtrancl_into_rtrancl)
    with IH show ?thesis by auto
  qed
qed

lemma walk_calls_exact:
  assumes "walk_calls E roots [] [] = (reach, bs)"
  shows "set reach = (calls E)\<^sup>* `` set roots"
    and "set bs = (\<Union>k \<in> set reach. set (builtin_callees E k))"
proof -
  have W: "set roots \<subseteq> set reach
    \<and> (\<forall>k c. k \<in> set reach \<longrightarrow> c \<in> set (fn_callees E k) \<longrightarrow> c \<in> set reach)
    \<and> set reach \<subseteq> (calls E)\<^sup>* `` set roots
    \<and> set bs = (\<Union>k \<in> set reach. set (builtin_callees E k))"
    using walk_calls_reach [OF assms] by simp
  then show "set bs = (\<Union>k \<in> set reach. set (builtin_callees E k))" by blast
  have "c \<in> set reach" if "(k, c) \<in> (calls E)\<^sup>*" "k \<in> set reach" for k c
    using that(1,2) W by (induction rule: rtrancl_induct) (auto simp: calls_def)
  then have "(calls E)\<^sup>* `` set roots \<subseteq> set reach" using W by (auto simp: Image_def)
  with W show "set reach = (calls E)\<^sup>* `` set roots" by (simp add: subset_antisym)
qed

definition reachable_fns :: "(string \<times> string list) list \<Rightarrow> call_graph \<Rightarrow> string set" where
  "reachable_fns computed E = (calls E)\<^sup>* ``
     set (if ''main'' \<in> set (map fst computed) \<or> ''main'' \<in> set (map fst E)
          then [''main''] else filter (\<lambda>k. \<not> is_builtin_key k) (map fst computed))"

section \<open>The properties\<close>

text \<open>C2. The seccomp program assembled for a profile decides every system call exactly as the
  allowlist does: the default action on a foreign architecture, on a number without a rule and when
  an argument mask is hit, ALLOW otherwise. Every constraint of a rule must hold, for whatever machine
  obeys the documented meaning of the four instructions.\<close>

theorem filter_is_allowlist:
  assumes "seccomp_kernel K" "valid_profile p" "filter_program p a = Inr prog"
  shows "\<exists>rs p' dflt. rules p a = Inr (rs, p') \<and> default_ret p = Inr dflt
    \<and> K prog d acc = Some (verdict rs dflt (AUDIT_ARCH a) d)"
  by (rule filter_programD [OF assms(3,2)])
    (blast intro: seccomp_kernel.filter_decides [OF assms(1)])

definition demo_profile :: profile where
  "demo_profile = \<lparr>p_effects = [''Fs'', ''IO''], p_fs_mode = Some ''ro'', p_fs_origin = FsFlag,
     p_default = ''errno'', p_baseline = ''minimal'', p_allow = [], p_deny = [''execve''],
     p_notes = []\<rparr>"

definition demo_program :: "bpf_instr list" where
  "demo_program = (case filter_program demo_profile X86_64 of Inl _ \<Rightarrow> [] | Inr prog \<Rightarrow> prog)"

lemma demo_valid: "valid_profile demo_profile"
proof -
  have "new_profile [''IO'', ''Fs'', ''IO''] (Some ''ro'') FsFlag ''errno'' ''minimal'' [] [''execve''] []
      = Inr demo_profile"
    by code_simp
  then show ?thesis unfolding valid_profile_def by blast
qed

lemma demo_filter: "filter_program demo_profile X86_64 = Inr demo_program"
proof -
  obtain rs p' where "rules demo_profile X86_64 = Inr (rs, p')"
    using rules_available [OF demo_valid, of X86_64] by (auto simp: demo_profile_def)
  from program_of_rules [OF this demo_valid] show ?thesis by (auto simp: demo_program_def)
qed

theorem filter_is_allowlist_witness:
  "\<exists>rs p' dflt. rules demo_profile X86_64 = Inr (rs, p') \<and> default_ret demo_profile = Inr dflt
    \<and> bpf_run demo_program \<lparr>sd_nr = 2, sd_arch = 0xC000003E, sd_ip = 0, sd_args = []\<rparr> 0
      = Some (verdict rs dflt (AUDIT_ARCH X86_64)
          \<lparr>sd_nr = 2, sd_arch = 0xC000003E, sd_ip = 0, sd_args = []\<rparr>)"
  by (rule filter_is_allowlist [OF bpf.seccomp_kernel_axioms demo_valid demo_filter])

text \<open>C38. A valid profile assembles for an architecture exactly when every call it allows by name
  has a number there (on x86-64: is a name of the syscall table, which the validation of a profile does not check)
  and, except on x86-64, it has none of the effects Fs, Net and Proc, whose layers list calls the
  other two architectures lack. The program then has at most 193 instructions, so no jump is out of range.\<close>

theorem profile_assembles:
  assumes "valid_profile p"
  shows "((\<exists>prog. filter_program p a = Inr prog) \<longleftrightarrow> (\<forall>n \<in> set (p_allow p). number a n \<noteq> None)
      \<and> (a = X86_64 \<or> set (p_effects p) \<inter> {''Fs'', ''Net'', ''Proc''} = {}))
    \<and> (\<forall>n. number X86_64 n \<noteq> None \<longleftrightarrow> known n)
    \<and> (\<forall>prog. filter_program p a = Inr prog \<longrightarrow> length prog \<le> 193)"
proof (intro conjI allI impI)
  have "(\<exists>prog. filter_program p a = Inr prog) \<longleftrightarrow> (\<exists>x. rules p a = Inr x)"
    using program_of_rules [OF _ assms] filter_programD [OF _ assms] by (metis surj_pair)
  with rules_available [OF assms]
  show "(\<exists>prog. filter_program p a = Inr prog) \<longleftrightarrow> (\<forall>n \<in> set (p_allow p). number a n \<noteq> None)
      \<and> (a = X86_64 \<or> set (p_effects p) \<inter> {''Fs'', ''Net'', ''Proc''} = {})" by simp
  show "number X86_64 n \<noteq> None \<longleftrightarrow> known n" for n using number_x86 number_known by (metis not_None_eq)
next
  fix prog
  assume *: "filter_program p a = Inr prog"
  then obtain rs p' where "rules p a = Inr (rs, p')" using filter_programD [OF * assms] by blast
  from program_of_rules [OF this assms] * show "length prog \<le> 193" by simp
qed

text \<open>A profile that allows a call no table has: valid, and built for no architecture.\<close>

definition typo_profile :: profile where
  "typo_profile = demo_profile\<lparr>p_effects := [], p_fs_mode := None, p_allow := [''opeen''], p_deny := []\<rparr>"

lemma typo_valid: "valid_profile typo_profile"
proof -
  have "new_profile [] None FsFlag ''errno'' ''minimal'' [''opeen''] [] [] = Inr typo_profile"
    by code_simp
  then show ?thesis unfolding valid_profile_def by blast
qed

theorem profile_assembles_witness:
  "(\<exists>prog. filter_program demo_profile X86_64 = Inr prog)
    \<and> \<not> (\<exists>prog. filter_program demo_profile Aarch64 = Inr prog) \<and> length demo_program \<le> 193
    \<and> \<not> (\<exists>prog. filter_program typo_profile X86_64 = Inr prog)"
proof -
  have "number X86_64 ''opeen'' = None" by code_simp
  then show ?thesis
    using profile_assembles [OF demo_valid, of X86_64] profile_assembles [OF demo_valid, of Aarch64]
      profile_assembles [OF typo_valid, of X86_64] demo_filter
    by (simp add: demo_profile_def typo_profile_def)
qed

text \<open>A write-side call the profile does not allow by name: one of the calls of the write layer, and
  for the two opens one whose flags have a bit of the mask 0x410643.\<close>

definition write_call :: "profile \<Rightarrow> arch \<Rightarrow> seccomp_data \<Rightarrow> bool" where
  "write_call p a d \<longleftrightarrow> (\<exists>name \<in> set FS_WRITE_LAYER. name \<notin> set (p_allow p) \<and>
     number a name = Some (uint (sd_nr d)) \<and>
     (case map_of OPEN_FLAGS_ARG name of None \<Rightarrow> True | Some i \<Rightarrow> arg_low d i AND 0x410643 \<noteq> 0))"

lemma read_only_request:
  assumes "valid_profile p" and "''Fs'' \<notin> set (p_effects p) \<or> p_fs_mode p \<noteq> Some ''rw''"
    and "name \<in> set FS_WRITE_LAYER" "name \<notin> set (p_allow p)" "number a name = Some n"
  shows "[] \<notin> granted p a (set (requests p)) n"
proof
  assume "[] \<in> granted p a (set (requests p)) n"
  with assms(5) obtain og s where req: "(name, [], og, s) \<in> set (requests p)"
    by (auto simp: granted_def dest: number_inj)
  have "ro_pair name \<noteq> []" if "name \<in> set (baseline_names p)"
    using that no_write_names(2) assms(3) by (auto simp: list_all_iff baseline_names_def split: if_splits)
  moreover have "(name, [], og, s) \<notin> set (effect_requests p e)" if "e \<in> set (p_effects p)" for e
    using that no_write_names(1) assms(2,3) valid_profileD(1) [OF assms(1)]
    by (fastforce simp: list_all_iff effect_requests_def)
  ultimately show False using req assms(4) by (auto simp: requests_def)
qed

lemma default_blocks:
  "default_ret p = Inr v \<Longrightarrow> p_default p \<noteq> ''log'' \<Longrightarrow> p_default p \<in> set DEFAULT_ACTIONS \<Longrightarrow>
   v = 0x50001 \<or> v = SECCOMP_RET_KILL_PROCESS \<or> v = SECCOMP_RET_TRAP"
proof -
  have "ret_errno EPERM = Inr 0x50001" by code_simp
  then show "default_ret p = Inr v \<Longrightarrow> p_default p \<noteq> ''log'' \<Longrightarrow> p_default p \<in> set DEFAULT_ACTIONS \<Longrightarrow>
      v = 0x50001 \<or> v = SECCOMP_RET_KILL_PROCESS \<or> v = SECCOMP_RET_TRAP"
    by (auto simp: default_ret_def DEFAULT_ACTIONS_def split: if_splits)
qed

text \<open>C15. Under a valid profile whose file mode is not rw, every write-side call that the profile does
  not allow by name gets the profile's default action and never ALLOW. Unless that action is \<open>log\<close>,
  which lets the call run, it is EPERM, the death of the process or a trap, each of which refuses the
  call. (The mask contains the bit 0x10000, which opening a directory sets.)\<close>

theorem read_only_enforced:
  assumes "seccomp_kernel K" "valid_profile p" "filter_program p a = Inr prog"
    and "''Fs'' \<notin> set (p_effects p) \<or> p_fs_mode p \<noteq> Some ''rw''"
    and "write_call p a d"
  shows "\<exists>v. default_ret p = Inr v \<and> K prog d acc = Some v \<and> v \<noteq> SECCOMP_RET_ALLOW \<and>
    (p_default p \<noteq> ''log'' \<longrightarrow> v = 0x50001 \<or> v = SECCOMP_RET_KILL_PROCESS \<or> v = SECCOMP_RET_TRAP)"
proof -
  obtain name where n: "name \<in> set FS_WRITE_LAYER" "name \<notin> set (p_allow p)"
    "number a name = Some (uint (sd_nr d))"
    "case map_of OPEN_FLAGS_ARG name of None \<Rightarrow> True | Some i \<Rightarrow> arg_low d i AND 0x410643 \<noteq> 0"
    using assms(5) unfolding write_call_def by blast
  have "[] \<notin> granted p a (set (requests p)) (uint (sd_nr d))"
    by (rule read_only_request [OF assms(2,4) n(1-3)])
  then have ne: "K prog d acc \<noteq> Some SECCOMP_RET_ALLOW"
    using allow_request [OF assms(1,3,2), of d acc] n(3,4) number_inj
    by (fastforce simp: Let_def OPEN_WRITE_MASK_def)
  obtain rs p' dflt where r: "rules p a = Inr (rs, p')" "default_ret p = Inr dflt"
    "assemble (AUDIT_ARCH a) dflt rs = Inr prog" "distinct (map fst rs)"
    "\<forall>x \<in> set rs. finite (r_constraints (snd x))"
    by (rule filter_programD [OF assms(3,2)])
  have V: "K prog d acc = Some (verdict rs dflt (AUDIT_ARCH a) d)"
    by (rule seccomp_kernel.filter_decides [OF assms(1) r(3,5,4)])
  have "verdict rs dflt (AUDIT_ARCH a) d = dflt"
    using V ne by (auto simp: verdict_def split: option.splits if_splits)
  then show ?thesis
    using V ne r(2) default_blocks [OF r(2) _ valid_profileD(3) [OF assms(2)]] by auto
qed

definition read_call :: seccomp_data where
  "read_call = \<lparr>sd_nr = 257, sd_arch = 0xC000003E, sd_ip = 0, sd_args = [0, 0, 0x80000, 0, 0, 0]\<rparr>"

definition dir_call :: seccomp_data where
  "dir_call = read_call\<lparr>sd_args := [0, 0, 0x90000, 0, 0, 0]\<rparr>"

lemma demo_not_rw:
  "''Fs'' \<notin> set (p_effects demo_profile) \<or> p_fs_mode demo_profile \<noteq> Some ''rw''"
  by (simp_all add: demo_profile_def)

lemma openat_number: "number X86_64 ''openat'' = Some 257"
  by code_simp

lemma demo_allows: "bpf_run demo_program read_call 0 = Some SECCOMP_RET_ALLOW"
proof -
  have "Ro ''openat'' ''ro'' \<in> set (layer_of ''Fs'')"
    by (simp add: layer_of_def LAYERS_def)
  then have "(\<lambda>e. (entry_name e, entry_cons e, ''layer('' @ ''Fs'' @ '')'', True)) (Ro ''openat'' ''ro'')
      \<in> set (effect_requests demo_profile ''Fs'')"
    unfolding effect_requests_def set_append set_map by (intro UnI1 imageI)
  moreover have "''Fs'' \<in> set (p_effects demo_profile)" by (simp add: demo_profile_def)
  ultimately have "(''openat'', ro_pair ''openat'', ''layer(Fs)'', True) \<in> set (requests demo_profile)"
    unfolding requests_def set_append set_concat set_map by (intro UnI2 UnI1) auto
  then have "ro_pair ''openat'' \<in> granted demo_profile X86_64 (set (requests demo_profile)) 257"
    using openat_number by (auto simp: granted_def demo_profile_def)
  moreover have "arg_low read_call 2 AND OPEN_WRITE_MASK = 0" "uint (sd_arch read_call) = AUDIT_ARCH X86_64"
    by (simp_all add: arg_low_def arg_of_def read_call_def OPEN_WRITE_MASK_def AUDIT_ARCH_def
        AUDIT_ARCH_X86_64_def)
  moreover have "uint (sd_nr read_call) = 257" by (simp add: read_call_def)
  moreover have "map_of OPEN_FLAGS_ARG ''openat'' = Some 2" by (simp add: OPEN_FLAGS_ARG_def)
  ultimately show ?thesis
    unfolding allow_request [OF bpf.seccomp_kernel_axioms demo_filter demo_valid] Let_def
    using openat_number by (metis empty_iff)
qed

theorem read_only_enforced_witness:
  "bpf_run demo_program read_call 0 = Some SECCOMP_RET_ALLOW \<and> bpf_run demo_program dir_call 0 = Some 0x50001"
proof
  show "bpf_run demo_program read_call 0 = Some SECCOMP_RET_ALLOW" by (rule demo_allows)
  have "''openat'' \<in> set FS_WRITE_LAYER" by (simp add: FS_WRITE_LAYER_def)
  moreover have "map_of OPEN_FLAGS_ARG ''openat'' = Some 2" by (simp add: OPEN_FLAGS_ARG_def)
  moreover have "uint (sd_nr dir_call) = 257" "arg_low dir_call 2 AND 0x410643 \<noteq> 0"
    by (simp_all add: arg_low_def arg_of_def read_call_def dir_call_def)
  moreover have "''openat'' \<notin> set (p_allow demo_profile)" by (simp add: demo_profile_def)
  ultimately have w: "write_call demo_profile X86_64 dir_call"
    unfolding write_call_def using openat_number by (intro bexI [of _ "''openat''"]) auto
  have "default_ret demo_profile = Inr 0x50001" by code_simp
  then show "bpf_run demo_program dir_call 0 = Some 0x50001"
    using read_only_enforced [OF bpf.seccomp_kernel_axioms demo_valid demo_filter demo_not_rw w, of 0] by auto
qed

text \<open>A denied call gets the default action whatever else allows it, and the three undeniable
  calls are allowed by every filter, on the filter's own architecture.\<close>

theorem deny_and_undeniable:
  assumes "seccomp_kernel K" "valid_profile p" "filter_program p a = Inr prog"
    and "uint (sd_arch d) = AUDIT_ARCH a" "number a name = Some (uint (sd_nr d))"
  shows "(name \<in> set (p_deny p) \<longrightarrow> (\<exists>v. default_ret p = Inr v \<and> K prog d acc = Some v))
    \<and> (name \<in> set UNDENIABLE \<longrightarrow> K prog d acc = Some SECCOMP_RET_ALLOW)"
proof (intro conjI impI)
  let ?n = "uint (sd_nr d)"
  let ?G = "granted p a (set (requests p)) ?n"
  { assume "name \<in> set (p_deny p)"
    then have G: "?G = {}" using assms(5) by (auto simp: granted_def dest: number_inj)
    obtain rs p' dflt where r: "rules p a = Inr (rs, p')" "default_ret p = Inr dflt"
      "assemble (AUDIT_ARCH a) dflt rs = Inr prog" "distinct (map fst rs)"
      "\<forall>x \<in> set rs. finite (r_constraints (snd x))"
      by (rule filter_programD [OF assms(3,2)])
    have "map_of rs ?n = None"
      using rule_shape(5) [OF r(1) assms(2)] G by (metis not_None_eq)
    then show "\<exists>v. default_ret p = Inr v \<and> K prog d acc = Some v"
      using seccomp_kernel.filter_decides [OF assms(1) r(3,5,4)] r(2) by (simp add: verdict_def) }
  { assume u: "name \<in> set UNDENIABLE"
    then have "name \<notin> set (p_deny p)" using valid_profileD(2) [OF assms(2)] by auto
    moreover have "(name, [], ''baseline('' @ p_baseline p @ '')'', False) \<in> set (requests p)"
      using u undeniable_base by (force simp: list_all_iff requests_def baseline_names_def)
    ultimately have "[] \<in> ?G" using assms(5) by (force simp: granted_def)
    then show "K prog d acc = Some SECCOMP_RET_ALLOW"
      unfolding allow_request [OF assms(1,3,2)] using assms(4,5) by (auto simp: Let_def) }
qed

theorem deny_and_undeniable_witness:
  "bpf_run demo_program (read_call\<lparr>sd_nr := 59\<rparr>) 0 = Some 0x50001
    \<and> bpf_run demo_program (read_call\<lparr>sd_nr := 231\<rparr>) 0 = Some SECCOMP_RET_ALLOW"
proof -
  have n: "number X86_64 ''execve'' = Some 59" "number X86_64 ''exit_group'' = Some 231"
    and a: "uint (sd_arch read_call) = AUDIT_ARCH X86_64" and v: "default_ret demo_profile = Inr 0x50001"
    by code_simp+
  show ?thesis
    using deny_and_undeniable [OF bpf.seccomp_kernel_axioms demo_valid demo_filter, of "read_call\<lparr>sd_nr := 59\<rparr>"
        "''execve''" 0]
      deny_and_undeniable [OF bpf.seccomp_kernel_axioms demo_valid demo_filter, of "read_call\<lparr>sd_nr := 231\<rparr>"
        "''exit_group''" 0] n a v
    by (simp add: UNDENIABLE_def demo_profile_def)
qed

lemma derive_source_sets:
  "set (d_effects (derive_source computed E ext)) = (\<Union>k \<in> reachable_fns computed E. set (callees computed k))
    \<and> set (d_builtins (derive_source computed E ext)) = (\<Union>k \<in> reachable_fns computed E. set (builtin_callees E k))
    \<and> d_fs (derive_source computed E ext) =
        fst (derive_fs (set (d_effects (derive_source computed E ext))) (set (d_builtins (derive_source computed E ext)))
          (set ext))"
proof -
  let ?roots = "if ''main'' \<in> set (map fst computed) \<or> ''main'' \<in> set (map fst E)
      then [''main''] else filter (\<lambda>k. \<not> is_builtin_key k) (map fst computed)"
  obtain reach bs where w: "walk_calls E (rev ?roots) [] [] = (reach, bs)" by (meson surj_pair)
  note X = walk_calls_exact [OF w]
  have reach: "set reach = reachable_fns computed E" unfolding reachable_fns_def X(1) by simp
  have "set (concat (map (callees computed) reach)) = (\<Union>k \<in> reachable_fns computed E. set (callees computed k))"
    "set bs = (\<Union>k \<in> reachable_fns computed E. set (builtin_callees E k))" using X(2) reach by simp_all
  with w show ?thesis by (simp only: derive_source_def Let_def split_conv) (simp split: prod.split)
qed

text \<open>The derivation reports exactly the effects and builtins of the functions reachable in the
  call graph from main (from every function when there is no main), and claims the write mode exactly
  when a reachable function has the effect Fs and either an extern block declares it or a reachable
  function calls a write-side builtin. The walk always ends.\<close>

theorem derivation_is_reachability:
  "set (d_effects (derive_source computed E ext)) = (\<Union>k \<in> reachable_fns computed E. set (callees computed k))
    \<and> set (d_builtins (derive_source computed E ext)) =
        (\<Union>k \<in> reachable_fns computed E. set (builtin_callees E k))
    \<and> (d_fs (derive_source computed E ext) = Some ''rw'' \<longleftrightarrow>
         (\<exists>k \<in> reachable_fns computed E. ''Fs'' \<in> set (callees computed k))
         \<and> (''Fs'' \<in> set ext
           \<or> (\<exists>k \<in> reachable_fns computed E. set (builtin_callees E k) \<inter> set FS_WRITE_BUILTINS \<noteq> {})))"
  using derive_source_sets [of computed E ext] by (auto simp: derive_fs_def split: if_splits)

end
