(* ===== verification/ParseExpr.thy ===== *)
theory ParseExpr
  imports Int64 Lexer TypeStr
begin

text \<open>
  The parser (src/tools/hlinterp/parser.py), first part: the token cursor, types and expressions.

  The cursor \<open>self.pos\<close> into \<open>self.toks\<close> is the list of the tokens not yet consumed; reading past its
  end is Python's \<open>IndexError\<close>, the error \<open>PIndex\<close>. A loop or a recursion takes fuel, and running out
  of it is \<open>PFuel\<close>; the properties show that neither error occurs on the lexer's output. A node is the
  dict the source builds, without its line; an error is the token it names and the head of its message.
\<close>

section \<open>Results and the cursor\<close>

datatype pmsg =
    Expected string tokval       \<comment> \<open>"expected ... but got ..."\<close>
  | Reserved string              \<comment> \<open>"... is a reserved identifier"\<close>
  | Refused string               \<comment> \<open>any other message, by its head\<close>

datatype perr = PErr pmsg nat nat | PIndex | PFuel

type_synonym 'a pres = "perr + 'a \<times> token list"

definition fail_at :: "token \<Rightarrow> pmsg \<Rightarrow> perr + 'a" where
  "fail_at t m = Inl (PErr m (t_line t) (t_col t))"

definition peek :: "token list \<Rightarrow> perr + token" where
  "peek ts = (case ts of [] \<Rightarrow> Inl PIndex | t # _ \<Rightarrow> Inr t)"

definition refuse :: "string \<Rightarrow> token list \<Rightarrow> perr + 'a" where
  "refuse msg ts = bindE (peek ts) (\<lambda>t. fail_at t (Refused msg))"

definition expected :: "string \<Rightarrow> token list \<Rightarrow> perr + 'a" where
  "expected what ts = bindE (peek ts) (\<lambda>t. fail_at t (Expected what (t_val t)))"

text \<open>\<open>if self.at_...(v): self.next(); yes  else: no\<close>.\<close>

definition if_tok ::
  "(tokval \<Rightarrow> bool) \<Rightarrow> (token list \<Rightarrow> perr + 'a) \<Rightarrow> (token list \<Rightarrow> perr + 'a) \<Rightarrow> token list \<Rightarrow> perr + 'a" where
  "if_tok p yes no ts =
     (case ts of [] \<Rightarrow> Inl PIndex | t # r \<Rightarrow> if p (t_val t) then yes r else no ts)"

abbreviation if_sym :: "string \<Rightarrow> (token list \<Rightarrow> perr + 'a) \<Rightarrow> (token list \<Rightarrow> perr + 'a) \<Rightarrow> token list \<Rightarrow> perr + 'a" where
  "if_sym v \<equiv> if_tok (\<lambda>x. x = TSym v)"

abbreviation if_kw :: "string \<Rightarrow> (token list \<Rightarrow> perr + 'a) \<Rightarrow> (token list \<Rightarrow> perr + 'a) \<Rightarrow> token list \<Rightarrow> perr + 'a" where
  "if_kw v \<equiv> if_tok (\<lambda>x. x = TKw v)"

abbreviation if_ident :: "string \<Rightarrow> (token list \<Rightarrow> perr + 'a) \<Rightarrow> (token list \<Rightarrow> perr + 'a) \<Rightarrow> token list \<Rightarrow> perr + 'a" where
  "if_ident v \<equiv> if_tok (\<lambda>x. x = TIdent v)"

definition eat_sym :: "string \<Rightarrow> token list \<Rightarrow> perr + token list" where
  "eat_sym v ts = if_sym v Inr (expected v) ts"

definition eat_kw :: "string \<Rightarrow> token list \<Rightarrow> perr + token list" where
  "eat_kw v ts = if_kw v Inr (expected v) ts"

definition RESERVED_IDENTIFIERS :: "string list" where
  "RESERVED_IDENTIFIERS = [''secure'', ''trait'']"

definition eat_ident :: "token list \<Rightarrow> string pres" where
  "eat_ident ts =
     (case ts of
        [] \<Rightarrow> Inl PIndex
      | t # r \<Rightarrow>
          (case t_val t of
             TIdent v \<Rightarrow> if v \<in> set RESERVED_IDENTIFIERS then fail_at t (Reserved v) else Inr (v, r)
           | x \<Rightarrow> fail_at t (Expected ''identifier'' x)))"

text \<open>After an item of a list: a comma, or the closing symbol still to come.\<close>

definition comma_sep :: "string \<Rightarrow> token list \<Rightarrow> perr + token list" where
  "comma_sep close ts =
     if_sym '','' Inr (if_sym close (\<lambda>_. Inr ts) (refuse ''expected a comma or the closing symbol'')) ts"

text \<open>The loop \<open>while not at_sym(close)\<close> over items separated by commas, up to and including the
  closing symbol; a trailing comma is allowed.\<close>

fun comma_list :: "(token list \<Rightarrow> 'a pres) \<Rightarrow> string \<Rightarrow> nat \<Rightarrow> token list \<Rightarrow> 'a list pres" where
  "comma_list item close 0 ts = Inl PFuel"
| "comma_list item close (Suc n) ts =
     if_sym close (\<lambda>r. Inr ([], r)) (\<lambda>ts.
       bindE (item ts) (\<lambda>(x, ts1).
       bindE (comma_sep close ts1) (\<lambda>ts2.
       bindE (comma_list item close n ts2) (\<lambda>(xs, ts3). Inr (x # xs, ts3))))) ts"

section \<open>Types\<close>

definition PRIM_TYPES :: "string list" where
  "PRIM_TYPES = [''int'', ''float'', ''bool'', ''str'', ''void'']"

definition REFINE_PRIMS :: "string list" where
  "REFINE_PRIMS = [''int'', ''float'', ''bool'', ''str'']"

definition reject_refinement :: "token list \<Rightarrow> perr + token list" where
  "reject_refinement ts =
     if_kw ''where'' (\<lambda>_. refuse ''refinements are not supported in this position'' ts) Inr ts"

text \<open>A type that must not be followed by \<open>where\<close>.\<close>

definition unrefined :: "(token list \<Rightarrow> string pres) \<Rightarrow> token list \<Rightarrow> string pres" where
  "unrefined p ts = bindE (p ts) (\<lambda>(x, ts1). bindE (reject_refinement ts1) (\<lambda>ts2. Inr (x, ts2)))"

definition wrap_type :: "string \<Rightarrow> string \<Rightarrow> string" where
  "wrap_type base arg = base @ ''['' @ arg @ '']''"

text \<open>The body of \<open>parse_type\<close>, with \<open>p\<close> for the recursive calls.\<close>

definition type_body :: "(bool \<Rightarrow> token list \<Rightarrow> string pres) \<Rightarrow> nat \<Rightarrow> bool \<Rightarrow> token list \<Rightarrow> string pres" where
  "type_body p f allow_void ts =
     (case ts of
        [] \<Rightarrow> Inl PIndex
      | t # r \<Rightarrow>
          (case t_val t of
             TIdent base \<Rightarrow>
               if base = ''list'' then
                 bindE (eat_sym ''['' r) (\<lambda>ts1.
                 bindE (unrefined (p False) ts1) (\<lambda>(inner, ts2).
                 bindE (eat_sym '']'' ts2) (\<lambda>ts3. Inr (wrap_type ''list'' inner, ts3))))
               else if base = ''map'' then
                 bindE (eat_sym ''['' r) (\<lambda>ts1.
                 bindE (eat_ident ts1) (\<lambda>(kt, ts2).
                 if kt \<noteq> ''str'' then refuse ''map key in v0.3 must be str'' ts1
                 else
                   bindE (eat_sym '','' ts2) (\<lambda>ts3.
                   bindE (unrefined (p False) ts3) (\<lambda>(vt, ts4).
                   bindE (eat_sym '']'' ts4) (\<lambda>ts5. Inr (wrap_type ''map'' (''str, '' @ vt), ts5))))))
               else if base \<in> {''tainted'', ''Task''} then
                 bindE (eat_sym ''['' r) (\<lambda>ts1.
                 bindE (p (base = ''Task'') ts1) (\<lambda>(inner, ts2).
                 bindE (eat_sym '']'' ts2) (\<lambda>ts3. Inr (wrap_type base inner, ts3))))
               else if base \<in> {''Chan'', ''Future'', ''Stream''} then
                 bindE (eat_sym ''['' r) (\<lambda>ts1.
                 bindE (p False ts1) (\<lambda>(inner, ts2).
                 bindE (eat_sym '']'' ts2) (\<lambda>ts3.
                 if inner = ''void'' then fail_at t (Refused ''element type cannot be void'')
                 else Inr (wrap_type base inner, ts3))))
               else if base = ''Cap'' then
                 bindE (eat_sym ''['' r) (\<lambda>ts1.
                 bindE (eat_ident ts1) (\<lambda>(eff, ts2).
                 if \<not> is_effect_name eff then fail_at t (Refused ''unknown capability'')
                 else bindE (eat_sym '']'' ts2) (\<lambda>ts3. Inr (wrap_type ''Cap'' eff, ts3))))
               else if base \<in> set PRIM_TYPES then
                 if base = ''void'' \<and> \<not> allow_void
                 then fail_at t (Refused ''void can only be used as a return type'')
                 else Inr (base, r)
               else
                 if_sym ''['' (\<lambda>ts1.
                   bindE (comma_list (unrefined (p False)) '']'' f ts1) (\<lambda>(args, ts2).
                   Inr (wrap_type base (join_on '', '' args), ts2)))
                 (\<lambda>ts1. Inr (base, ts1)) r
           | x \<Rightarrow> fail_at t (Expected ''type'' x)))"

primrec parse_type :: "nat \<Rightarrow> bool \<Rightarrow> token list \<Rightarrow> string pres" where
  "parse_type 0 = (\<lambda>allow_void ts. Inl PFuel)"
| "parse_type (Suc f) = type_body (parse_type f) f"

section \<open>Expressions\<close>

datatype pattern = Wildcard | VariantPat string string "string list" bool

datatype node =
    NInt int
  | NFloat "64 word"
  | NStr bytes
  | NBool bool
  | NIdent string
  | NBin string node node
  | NUn string node
  | NCall string "node list"
  | NField node string
  | NFieldCall node string "node list"
  | NIndex node node
  | NQmark node
  | NList "node list"
  | NStruct string "(string \<times> node) list"
  | NMatch node "(pattern \<times> node) list"

definition BIN_LEVELS :: "string list list" where
  "BIN_LEVELS = [[''||''], [''&&''], [''=='', ''!=''], [''<'', ''<='', ''>'', ''>=''], [''+'', ''-''],
     [''*'', ''/'', ''%'']]"

text \<open>The kinds of node that \<open>[\<close> can index.\<close>

fun indexable :: "node \<Rightarrow> bool" where
  "indexable (NIdent _) = True"
| "indexable (NField _ _) = True"
| "indexable (NIndex _ _) = True"
| "indexable (NCall _ _) = True"
| "indexable (NFieldCall _ _ _) = True"
| "indexable (NQmark _) = True"
| "indexable (NList _) = True"
| "indexable (NMatch _ _) = True"
| "indexable _ = False"

definition parse_binding :: "token list \<Rightarrow> string pres" where
  "parse_binding ts = if_ident ''_'' (\<lambda>r. Inr (''_'', r)) eat_ident ts"

definition parse_bindings ::
  "nat \<Rightarrow> string \<Rightarrow> string \<Rightarrow> token list \<Rightarrow> pattern pres" where
  "parse_bindings f ename vname ts =
     if_sym ''('' (\<lambda>r. bindE (comma_list parse_binding '')'' f r) (\<lambda>(bs, ts1).
         Inr (VariantPat ename vname bs True, ts1)))
       (\<lambda>ts. Inr (VariantPat ename vname [] False, ts)) ts"

definition parse_pattern :: "nat \<Rightarrow> token list \<Rightarrow> pattern pres" where
  "parse_pattern f ts =
     if_ident ''_'' (\<lambda>r. Inr (Wildcard, r)) (\<lambda>ts.
       bindE (eat_ident ts) (\<lambda>(ename, ts1).
       if_sym ''.'' (\<lambda>r. bindE (eat_ident r) (\<lambda>(vname, ts2). parse_bindings f ename vname ts2))
         (parse_bindings f '''' ename) ts1)) ts"

definition fold_minus :: "string \<Rightarrow> node \<Rightarrow> node" where
  "fold_minus op e = (if op = ''-'' \<and> e = NInt (2 ^ 63) then NInt INT64_MIN else NUn op e)"

text \<open>The nine mutually recursive routines. \<open>parsers f\<close> holds them for the fuel \<open>f\<close>; each routine is given by
  its body over those of one unit less.\<close>

record routines =
  p_binary :: "nat \<Rightarrow> bool \<Rightarrow> token list \<Rightarrow> node pres"
  p_bin_loop :: "nat \<Rightarrow> bool \<Rightarrow> node \<Rightarrow> token list \<Rightarrow> node pres"
  p_unary :: "bool \<Rightarrow> token list \<Rightarrow> node pres"
  p_postfix :: "bool \<Rightarrow> token list \<Rightarrow> node pres"
  p_post_loop :: "node \<Rightarrow> token list \<Rightarrow> node pres"
  p_primary :: "bool \<Rightarrow> token list \<Rightarrow> node pres"
  p_match :: "token list \<Rightarrow> node pres"
  p_arm :: "token list \<Rightarrow> (pattern \<times> node) pres"
  p_field_init :: "token list \<Rightarrow> (string \<times> node) pres"

definition parse_binary_step :: "routines \<Rightarrow> nat \<Rightarrow> nat \<Rightarrow> bool \<Rightarrow> token list \<Rightarrow> node pres" where
  "parse_binary_step P f level allow_struct ts =
     (if level \<ge> length BIN_LEVELS then p_unary P allow_struct ts
      else bindE (p_binary P (level + 1) allow_struct ts) (\<lambda>(left, ts1).
             p_bin_loop P level allow_struct left ts1))"

definition bin_loop_step :: "routines \<Rightarrow> nat \<Rightarrow> nat \<Rightarrow> bool \<Rightarrow> node \<Rightarrow> token list \<Rightarrow> node pres" where
  "bin_loop_step P f level allow_struct left ts =
     (case ts of
        [] \<Rightarrow> Inl PIndex
      | t # r \<Rightarrow>
          (case t_val t of
             TSym op \<Rightarrow>
               if op \<in> set (BIN_LEVELS ! level)
               then bindE (p_binary P (level + 1) allow_struct r) (\<lambda>(right, ts1).
                      p_bin_loop P level allow_struct (NBin op left right) ts1)
               else Inr (left, ts)
           | _ \<Rightarrow> Inr (left, ts)))"

definition parse_unary_step :: "routines \<Rightarrow> nat \<Rightarrow> bool \<Rightarrow> token list \<Rightarrow> node pres" where
  "parse_unary_step P f allow_struct ts =
     (case ts of
        [] \<Rightarrow> Inl PIndex
      | t # r \<Rightarrow>
          (case t_val t of
             TSym op \<Rightarrow>
               if op \<in> {''!'', ''-''}
               then bindE (p_unary P allow_struct r) (\<lambda>(e, ts1). Inr (fold_minus op e, ts1))
               else p_postfix P allow_struct ts
           | _ \<Rightarrow> p_postfix P allow_struct ts))"

definition parse_postfix_step :: "routines \<Rightarrow> nat \<Rightarrow> bool \<Rightarrow> token list \<Rightarrow> node pres" where
  "parse_postfix_step P f allow_struct ts =
     bindE (p_primary P allow_struct ts) (\<lambda>(e, ts1). p_post_loop P e ts1)"

definition post_loop_step :: "routines \<Rightarrow> nat \<Rightarrow> node \<Rightarrow> token list \<Rightarrow> node pres" where
  "post_loop_step P f e ts =
     (case ts of
        [] \<Rightarrow> Inl PIndex
      | t # r \<Rightarrow>
          if t_val t = TSym ''.'' then
            bindE (eat_ident r) (\<lambda>(name, ts1).
            if_sym ''('' (\<lambda>ts2. bindE (comma_list (p_binary P 0 True) '')'' f ts2) (\<lambda>(args, ts3).
                p_post_loop P (NFieldCall e name args) ts3))
              (\<lambda>ts2. p_post_loop P (NField e name) ts2) ts1)
          else if t_val t = TSym ''['' \<and> indexable e then
            bindE (p_binary P 0 True r) (\<lambda>(idx, ts1).
            bindE (eat_sym '']'' ts1) (\<lambda>ts2. p_post_loop P (NIndex e idx) ts2))
          else
            (case e of
               NIdent name \<Rightarrow>
                 if t_val t = TSym ''('' then
                   bindE (comma_list (p_binary P 0 True) '')'' f r) (\<lambda>(args, ts1).
                   p_post_loop P (NCall name args) ts1)
                 else if t_val t = TSym ''?'' then p_post_loop P (NQmark e) r
                 else Inr (e, ts)
             | _ \<Rightarrow> if t_val t = TSym ''?'' then p_post_loop P (NQmark e) r else Inr (e, ts)))"

definition parse_primary_step :: "routines \<Rightarrow> nat \<Rightarrow> bool \<Rightarrow> token list \<Rightarrow> node pres" where
  "parse_primary_step P f allow_struct ts =
     (case ts of
        [] \<Rightarrow> Inl PIndex
      | t # r \<Rightarrow>
          (case t_val t of
             TInt v _ \<Rightarrow>
               if int v > 2 ^ 63 then fail_at t (Refused ''integer literal too large (exceeds int64)'')
               else Inr (NInt (int v), r)
           | TFloat w _ \<Rightarrow> Inr (NFloat w, r)
           | TStr s \<Rightarrow> Inr (NStr s, r)
           | TKw k \<Rightarrow>
               if k \<in> {''true'', ''false''} then Inr (NBool (k = ''true''), r)
               else if k = ''match'' then p_match P ts
               else expected ''expression'' ts
           | TIdent name \<Rightarrow>
               (case r of
                  [] \<Rightarrow> Inr (NIdent name, r)
                | nxt # r1 \<Rightarrow>
                    if allow_struct \<and> t_val nxt = TSym ''{''
                    then bindE (comma_list (p_field_init P) ''}'' f r1) (\<lambda>(fs, ts1).
                           Inr (NStruct name fs, ts1))
                    else Inr (NIdent name, r))
           | TSym v \<Rightarrow>
               if v = ''('' then
                 bindE (p_binary P 0 True r) (\<lambda>(e, ts1).
                 bindE (eat_sym '')'' ts1) (\<lambda>ts2. Inr (e, ts2)))
               else if v = ''['' then
                 bindE (comma_list (p_binary P 0 True) '']'' f r) (\<lambda>(items, ts1).
                 Inr (NList items, ts1))
               else expected ''expression'' ts
           | TEof \<Rightarrow> expected ''expression'' ts))"

definition parse_match_step :: "routines \<Rightarrow> nat \<Rightarrow> token list \<Rightarrow> node pres" where
  "parse_match_step P f ts =
     bindE (eat_kw ''match'' ts) (\<lambda>ts1.
     bindE (p_binary P 0 False ts1) (\<lambda>(scrut, ts2).
     bindE (eat_sym ''{'' ts2) (\<lambda>ts3.
     bindE (comma_list (p_arm P) ''}'' f ts3) (\<lambda>(arms, ts4).
     Inr (NMatch scrut arms, ts4)))))"

definition parse_arm_step :: "routines \<Rightarrow> nat \<Rightarrow> token list \<Rightarrow> (pattern \<times> node) pres" where
  "parse_arm_step P f ts =
     bindE (parse_pattern f ts) (\<lambda>(pt, ts1).
     bindE (eat_sym ''=>'' ts1) (\<lambda>ts2.
     bindE (p_binary P 0 True ts2) (\<lambda>(body, ts3). Inr ((pt, body), ts3))))"

definition parse_field_init_step :: "routines \<Rightarrow> nat \<Rightarrow> token list \<Rightarrow> (string \<times> node) pres" where
  "parse_field_init_step P f ts =
     bindE (eat_ident ts) (\<lambda>(name, ts1).
     bindE (eat_sym '':'' ts1) (\<lambda>ts2.
     bindE (p_binary P 0 True ts2) (\<lambda>(e, ts3). Inr ((name, e), ts3))))"

primrec parsers :: "nat \<Rightarrow> routines" where
  "parsers 0 = \<lparr>p_binary = (\<lambda>_ _ _. Inl PFuel),
     p_bin_loop = (\<lambda>_ _ _ _. Inl PFuel),
     p_unary = (\<lambda>_ _. Inl PFuel),
     p_postfix = (\<lambda>_ _. Inl PFuel),
     p_post_loop = (\<lambda>_ _. Inl PFuel),
     p_primary = (\<lambda>_ _. Inl PFuel),
     p_match = (\<lambda>_. Inl PFuel),
     p_arm = (\<lambda>_. Inl PFuel),
     p_field_init = (\<lambda>_. Inl PFuel)\<rparr>"
| "parsers (Suc f) = (let P = parsers f in \<lparr>p_binary = parse_binary_step P f,
     p_bin_loop = bin_loop_step P f,
     p_unary = parse_unary_step P f,
     p_postfix = parse_postfix_step P f,
     p_post_loop = post_loop_step P f,
     p_primary = parse_primary_step P f,
     p_match = parse_match_step P f,
     p_arm = parse_arm_step P f,
     p_field_init = parse_field_init_step P f\<rparr>)"

abbreviation parse_binary :: "nat \<Rightarrow> nat \<Rightarrow> bool \<Rightarrow> token list \<Rightarrow> node pres" where
  "parse_binary f \<equiv> p_binary (parsers f)"

abbreviation bin_loop :: "nat \<Rightarrow> nat \<Rightarrow> bool \<Rightarrow> node \<Rightarrow> token list \<Rightarrow> node pres" where
  "bin_loop f \<equiv> p_bin_loop (parsers f)"

abbreviation parse_unary :: "nat \<Rightarrow> bool \<Rightarrow> token list \<Rightarrow> node pres" where
  "parse_unary f \<equiv> p_unary (parsers f)"

abbreviation parse_postfix :: "nat \<Rightarrow> bool \<Rightarrow> token list \<Rightarrow> node pres" where
  "parse_postfix f \<equiv> p_postfix (parsers f)"

abbreviation post_loop :: "nat \<Rightarrow> node \<Rightarrow> token list \<Rightarrow> node pres" where
  "post_loop f \<equiv> p_post_loop (parsers f)"

abbreviation parse_primary :: "nat \<Rightarrow> bool \<Rightarrow> token list \<Rightarrow> node pres" where
  "parse_primary f \<equiv> p_primary (parsers f)"

abbreviation parse_match :: "nat \<Rightarrow> token list \<Rightarrow> node pres" where
  "parse_match f \<equiv> p_match (parsers f)"

abbreviation parse_arm :: "nat \<Rightarrow> token list \<Rightarrow> (pattern \<times> node) pres" where
  "parse_arm f \<equiv> p_arm (parsers f)"

abbreviation parse_field_init :: "nat \<Rightarrow> token list \<Rightarrow> (string \<times> node) pres" where
  "parse_field_init f \<equiv> p_field_init (parsers f)"

lemma parsers_Suc [simp]:
  "parse_binary (Suc f) = parse_binary_step (parsers f) f"
  "bin_loop (Suc f) = bin_loop_step (parsers f) f"
  "parse_unary (Suc f) = parse_unary_step (parsers f) f"
  "parse_postfix (Suc f) = parse_postfix_step (parsers f) f"
  "post_loop (Suc f) = post_loop_step (parsers f) f"
  "parse_primary (Suc f) = parse_primary_step (parsers f) f"
  "parse_match (Suc f) = parse_match_step (parsers f) f"
  "parse_arm (Suc f) = parse_arm_step (parsers f) f"
  "parse_field_init (Suc f) = parse_field_init_step (parsers f) f"
  by (simp_all add: Let_def)

declare parsers.simps [simp del] comma_list.simps [simp del] parse_type.simps [simp del]

lemmas parser_steps = parse_binary_step_def
  bin_loop_step_def
  parse_unary_step_def
  parse_postfix_step_def
  post_loop_step_def
  parse_primary_step_def
  parse_match_step_def
  parse_arm_step_def
  parse_field_init_step_def

text \<open>Fuel for a token list: sixteen units for each token are enough.\<close>

definition fuel_for :: "token list \<Rightarrow> nat" where
  "fuel_for ts = 16 * length ts + 16"

definition parse_expr :: "bool \<Rightarrow> token list \<Rightarrow> node pres" where
  "parse_expr allow_struct ts = parse_binary (fuel_for ts) 0 allow_struct ts"

end
