(* ===== verification/ParseSafe.thy ===== *)
theory ParseSafe
  imports ParseExpr
begin

text \<open>
  The cursor discipline of the parser: on a token list that ends with the end-of-file token, as the
  lexer's does, every routine returns either an error at a token or a well-formed result with a
  strictly shorter rest that again ends with the end-of-file token, within sixteen units of fuel for
  each token. The rules below are the shape of the routines, one for each combinator.
\<close>

section \<open>Token lists and results\<close>

definition good :: "token list \<Rightarrow> bool" where
  "good ts \<longleftrightarrow> ts \<noteq> [] \<and> t_val (last ts) = TEof \<and> (\<forall>t \<in> set ts. t_val t \<noteq> TIdent [])"

lemma good_not_Nil [simp]: "\<not> good []"
  by (simp add: good_def)

lemma good_tail: "good (t # r) \<Longrightarrow> t_val t \<noteq> TEof \<Longrightarrow> good r"
  by (auto simp: good_def split: if_splits)

lemma good_ident: "good (t # r) \<Longrightarrow> t_val t \<noteq> TIdent []"
  by (simp add: good_def)

definition is_perr :: "perr \<Rightarrow> bool" where
  "is_perr e \<longleftrightarrow> e \<noteq> PIndex \<and> e \<noteq> PFuel"

definition ok :: "nat \<Rightarrow> ('a \<Rightarrow> bool) \<Rightarrow> 'a pres \<Rightarrow> bool" where
  "ok n Q r \<longleftrightarrow> (case r of Inl e \<Rightarrow> is_perr e | Inr (x, ts) \<Rightarrow> Q x \<and> good ts \<and> length ts < n)"

definition okt :: "nat \<Rightarrow> perr + token list \<Rightarrow> bool" where
  "okt n r \<longleftrightarrow> (case r of Inl e \<Rightarrow> is_perr e | Inr ts \<Rightarrow> good ts \<and> length ts < n)"

named_theorems ok_rules \<open>introduction of \<open>ok\<close> and \<open>okt\<close>\<close>

lemma ok_Inr [ok_rules]: "Q x \<Longrightarrow> good ts \<Longrightarrow> length ts < n \<Longrightarrow> ok n Q (Inr (x, ts))"
  by (simp add: ok_def)

lemma okt_Inr [ok_rules]: "good ts \<Longrightarrow> length ts < n \<Longrightarrow> okt n (Inr ts)"
  by (simp add: okt_def)

lemma ok_fail [ok_rules]: "ok n Q (fail_at t m)" "okt n (fail_at t m)"
  by (simp_all add: ok_def okt_def fail_at_def is_perr_def)

lemma ok_refuse [ok_rules]: "good ts \<Longrightarrow> ok n Q (refuse m ts)" "good ts \<Longrightarrow> okt n (refuse m ts)"
  by (cases ts; simp add: refuse_def peek_def ok_fail)+

lemma ok_expected [ok_rules]: "good ts \<Longrightarrow> ok n Q (expected m ts)" "good ts \<Longrightarrow> okt n (expected m ts)"
  by (cases ts; simp add: expected_def peek_def ok_fail)+

lemma ok_mono: "ok n Q r \<Longrightarrow> n \<le> m \<Longrightarrow> (\<And>x. Q x \<Longrightarrow> R x) \<Longrightarrow> ok m R r"
  by (auto simp: ok_def split: sum.splits)

lemma ok_bind [ok_rules]:
  assumes "ok n Q r" "\<And>x ts. Q x \<Longrightarrow> good ts \<Longrightarrow> length ts < n \<Longrightarrow> ok m R (g x ts)"
  shows "ok m R (bindE r (\<lambda>(x, ts). g x ts))"
  using assms by (cases r) (auto simp: ok_def)

lemma okt_bind [ok_rules]:
  assumes "okt n r" "\<And>ts. good ts \<Longrightarrow> length ts < n \<Longrightarrow> ok m R (f ts)"
  shows "ok m R (bindE r f)"
  using assms by (cases r) (auto simp: ok_def okt_def)

lemma ok_if_tok [ok_rules]:
  assumes "good ts" "\<And>t. p t \<Longrightarrow> t \<noteq> TEof"
    "\<And>t r. ts = t # r \<Longrightarrow> p (t_val t) \<Longrightarrow> good r \<Longrightarrow> length r < length ts \<Longrightarrow> ok n Q (yes r)"
    "ok n Q (no ts)"
  shows "ok n Q (if_tok p yes no ts)"
  using assms good_tail by (cases ts) (auto simp: if_tok_def)

lemma okt_if_tok [ok_rules]:
  assumes "good ts" "\<And>t. p t \<Longrightarrow> t \<noteq> TEof"
    "\<And>t r. ts = t # r \<Longrightarrow> p (t_val t) \<Longrightarrow> good r \<Longrightarrow> length r < length ts \<Longrightarrow> okt n (yes r)"
    "okt n (no ts)"
  shows "okt n (if_tok p yes no ts)"
  using assms good_tail by (cases ts) (auto simp: if_tok_def)

lemma ok_If [ok_rules]: "(c \<Longrightarrow> ok n Q x) \<Longrightarrow> (\<not> c \<Longrightarrow> ok n Q y) \<Longrightarrow> ok n Q (if c then x else y)"
  by simp

lemma ok_eat_sym [ok_rules]: "good ts \<Longrightarrow> okt (length ts) (eat_sym v ts)"
  unfolding eat_sym_def by (rule okt_if_tok) (auto intro: ok_rules)

lemma ok_eat_kw [ok_rules]: "good ts \<Longrightarrow> okt (length ts) (eat_kw v ts)"
  unfolding eat_kw_def by (rule okt_if_tok) (auto intro: ok_rules)

definition name_ok :: "string \<Rightarrow> bool" where
  "name_ok s \<longleftrightarrow> s \<noteq> [] \<and> s \<notin> set RESERVED_IDENTIFIERS"

lemma ok_eat_ident [ok_rules]: "good ts \<Longrightarrow> ok (length ts) name_ok (eat_ident ts)"
  using good_tail good_ident
  by (cases ts) (auto simp: eat_ident_def name_ok_def split: tokval.split intro!: ok_rules)

lemma ok_comma_sep [ok_rules]: "good ts \<Longrightarrow> okt (Suc (length ts)) (comma_sep close ts)"
  unfolding comma_sep_def by (rule ok_rules | (simp; fail))+

lemma ok_comma_list:
  assumes "\<And>ts. good ts \<Longrightarrow> length ts \<le> k \<Longrightarrow> ok (length ts) Q (item ts)"
    "good ts" "length ts \<le> k" "length ts < n"
  shows "ok (length ts) (\<lambda>xs. \<forall>x \<in> set xs. Q x) (comma_list item close n ts)"
  using assms(2-)
proof (induction n arbitrary: ts)
  case 0
  then show ?case by simp
next
  case (Suc n)
  have IH: "ok (length us) (\<lambda>xs. \<forall>x \<in> set xs. Q x) (comma_list item close n us)"
    if "good us" "length us < length ts" for us
    using Suc.IH [OF that(1)] that(2) Suc.prems(2,3) by simp
  show ?case unfolding comma_list.simps
    using Suc.prems by - (rule ok_rules assms(1) IH | (simp; fail))+
qed

section \<open>Types\<close>

lemma ok_reject [ok_rules]: "good ts \<Longrightarrow> okt (Suc (length ts)) (reject_refinement ts)"
  unfolding reject_refinement_def by (rule ok_rules | (simp; fail))+

lemma ok_unrefined:
  assumes "ok n Q (p ts)"
  shows "ok n Q (unrefined p ts)"
  unfolding unrefined_def by (rule ok_rules assms | (simp; fail))+

lemma ok_type_body:
  assumes p: "\<And>a ts. good ts \<Longrightarrow> length ts < k \<Longrightarrow> ok (length ts) (\<lambda>_. True) (p a ts)"
    and "good ts" "length ts \<le> k" "k \<le> f"
  shows "ok (length ts) (\<lambda>_. True) (type_body p f a ts)"
proof -
  from assms(2) obtain t r where ts: "ts = t # r" by (cases ts) auto
  have c: "ok (length us) (\<lambda>xs. \<forall>x \<in> set xs. True) (comma_list (unrefined (p False)) '']'' f us)"
    if "good us" "length us < length ts" for us
    using that assms(3,4) by (intro ok_comma_list [where k = "length us"] ok_unrefined p) auto
  show ?thesis
  proof (cases "t_val t")
    case (TIdent base)
    with assms(2) have r: "good r" by (auto simp: ts intro: good_tail)
    show ?thesis
      unfolding type_body_def ts TIdent list.case tokval.case
      using r assms(3) by - (rule ok_rules p c ok_unrefined | (simp add: ts; fail))+
  qed (use assms(2) in \<open>auto simp: ts type_body_def intro: ok_rules\<close>)
qed

lemma ok_parse_type:
  "good ts \<Longrightarrow> length ts < f \<Longrightarrow> ok (length ts) (\<lambda>_. True) (parse_type f a ts)"
proof (induction f arbitrary: ts a)
  case 0
  then show ?case by simp
next
  case (Suc f)
  show ?case unfolding parse_type.simps
    by (rule ok_type_body [where k = f]) (use Suc in auto)
qed

section \<open>Expressions\<close>

definition wf_pattern :: "pattern \<Rightarrow> bool" where
  "wf_pattern pt = (case pt of
      Wildcard \<Rightarrow> True
    | VariantPat ename vname bs paren \<Rightarrow>
        (ename = [] \<or> name_ok ename) \<and> name_ok vname \<and> (ename = [] \<longrightarrow> vname \<noteq> ''_'') \<and> ename \<noteq> ''_''
        \<and> (\<forall>b \<in> set bs. name_ok b) \<and> (paren \<or> bs = []))"

text \<open>The nodes the parser builds.\<close>

fun wf_node :: "node \<Rightarrow> bool" where
  "wf_node (NInt v) \<longleftrightarrow> (0 \<le> v \<and> v \<le> 2 ^ 63) \<or> v = INT64_MIN"
| "wf_node (NFloat _) \<longleftrightarrow> True"
| "wf_node (NStr _) \<longleftrightarrow> True"
| "wf_node (NBool _) \<longleftrightarrow> True"
| "wf_node (NIdent x) \<longleftrightarrow> x \<noteq> []"
| "wf_node (NBin op l r) \<longleftrightarrow> (\<exists>ops \<in> set BIN_LEVELS. op \<in> set ops) \<and> wf_node l \<and> wf_node r"
| "wf_node (NUn op e) \<longleftrightarrow> op \<in> {''!'', ''-''} \<and> (op = ''-'' \<longrightarrow> e \<noteq> NInt (2 ^ 63)) \<and> wf_node e"
| "wf_node (NCall x as) \<longleftrightarrow> x \<noteq> [] \<and> (\<forall>a \<in> set as. wf_node a)"
| "wf_node (NField e x) \<longleftrightarrow> name_ok x \<and> wf_node e"
| "wf_node (NFieldCall e x as) \<longleftrightarrow> name_ok x \<and> wf_node e \<and> (\<forall>a \<in> set as. wf_node a)"
| "wf_node (NIndex e i) \<longleftrightarrow> indexable e \<and> wf_node e \<and> wf_node i"
| "wf_node (NQmark e) \<longleftrightarrow> wf_node e"
| "wf_node (NList es) \<longleftrightarrow> (\<forall>e \<in> set es. wf_node e)"
| "wf_node (NStruct x fs) \<longleftrightarrow> x \<noteq> [] \<and> (\<forall>(n, e) \<in> set fs. name_ok n \<and> wf_node e)"
| "wf_node (NMatch e arms) \<longleftrightarrow> wf_node e \<and> (\<forall>(pt, b) \<in> set arms. wf_pattern pt \<and> wf_node b)"

lemma wf_fold_minus: "op \<in> {''!'', ''-''} \<Longrightarrow> wf_node e \<Longrightarrow> wf_node (fold_minus op e)"
  by (auto simp: fold_minus_def)

lemma ok_list_case:
  assumes "good ts" "\<And>t r. ts = t # r \<Longrightarrow> ok n Q (b t r)"
  shows "ok n Q (case ts of [] \<Rightarrow> x | t # r \<Rightarrow> b t r)"
  using assms by (cases ts) auto

lemma ok_parse_binding [ok_rules]: "good ts \<Longrightarrow> ok (length ts) name_ok (parse_binding ts)"
  unfolding parse_binding_def
  by (rule ok_rules | (simp add: name_ok_def RESERVED_IDENTIFIERS_def; fail))+

lemma ok_parse_bindings:
  assumes "good ts" "length ts < f" "ename = [] \<or> name_ok ename" "name_ok vname"
    "ename = [] \<longrightarrow> vname \<noteq> ''_''" "ename \<noteq> ''_''"
  shows "ok (Suc (length ts)) wf_pattern (parse_bindings f ename vname ts)"
proof -
  have c: "ok (length us) (\<lambda>bs. \<forall>b \<in> set bs. name_ok b) (comma_list parse_binding '')'' f us)"
    if "good us" "length us < length ts" for us
    using that assms(2) by (intro ok_comma_list [where k = "length us"] ok_rules) auto
  show ?thesis
    unfolding parse_bindings_def using assms
    by - (rule ok_rules c | (simp add: wf_pattern_def; fail))+
qed

lemma ok_parse_pattern:
  assumes "good ts" "length ts < f"
  shows "ok (length ts) wf_pattern (parse_pattern f ts)"
proof -
  have e: "ok (length ts) (\<lambda>v. name_ok v \<and> v \<noteq> ''_'') (eat_ident ts)"
    if "ts = t # r" "t_val t \<noteq> TIdent ''_''" for t r
    using that assms(1) good_tail good_ident
    by (auto simp: eat_ident_def name_ok_def split: tokval.split intro!: ok_rules)
  have b: "ok (length us) wf_pattern (parse_bindings f en vn ts2)"
    if "good ts2" "length ts2 < length us" "length us \<le> length ts" "en = [] \<or> name_ok en" "name_ok vn"
      "en = [] \<longrightarrow> vn \<noteq> ''_''" "en \<noteq> ''_''" for us ts2 en vn
    by (rule ok_mono [OF ok_parse_bindings]) (use that assms(2) in auto)
  obtain t r where ts: "ts = t # r" using assms(1) by (cases ts) auto
  show ?thesis
  proof (cases "t_val t = TIdent ''_''")
    case True
    then show ?thesis using assms(1) good_tail
      by (auto simp: parse_pattern_def if_tok_def ts wf_pattern_def intro!: ok_rules)
  next
    case False
    then have p: "parse_pattern f ts = bindE (eat_ident ts) (\<lambda>(ename, ts1).
       if_sym ''.'' (\<lambda>r. bindE (eat_ident r) (\<lambda>(vname, ts2). parse_bindings f ename vname ts2))
         (parse_bindings f '''' ename) ts1)"
      by (simp add: parse_pattern_def if_tok_def ts)
    note e' = e [OF ts False]
    show ?thesis unfolding p
    proof (rule ok_bind [OF e'])
      fix en ts1
      assume 1: "name_ok en \<and> en \<noteq> ''_''" "good ts1" "length ts1 < length ts"
      show "ok (length ts) wf_pattern (if_sym ''.'' (\<lambda>r. bindE (eat_ident r) (\<lambda>(vname, ts2).
          parse_bindings f en vname ts2)) (parse_bindings f '''' en) ts1)"
        using 1 by - (rule ok_rules b [of _ ts] | (simp; fail) | (simp add: name_ok_def; fail))+
    qed
  qed
qed

text \<open>The nine routines at fuel \<open>f\<close>.\<close>

definition safe :: "nat \<Rightarrow> bool" where
  "safe f \<longleftrightarrow>
     (\<forall>ts. good ts \<longrightarrow>
        (\<forall>l a. l \<le> 6 \<longrightarrow> 16 * length ts + 11 \<le> f + l \<longrightarrow> ok (length ts) wf_node (parse_binary f l a ts))
        \<and> (\<forall>l a x. l < 6 \<longrightarrow> 16 * length ts + 12 \<le> f \<longrightarrow> wf_node x \<longrightarrow>
             ok (Suc (length ts)) wf_node (bin_loop f l a x ts))
        \<and> (\<forall>a. 16 * length ts + 4 \<le> f \<longrightarrow> ok (length ts) wf_node (parse_unary f a ts))
        \<and> (\<forall>a. 16 * length ts + 3 \<le> f \<longrightarrow> ok (length ts) wf_node (parse_postfix f a ts))
        \<and> (\<forall>x. 16 * length ts + 12 \<le> f \<longrightarrow> wf_node x \<longrightarrow> ok (Suc (length ts)) wf_node (post_loop f x ts))
        \<and> (\<forall>a. 16 * length ts + 2 \<le> f \<longrightarrow> ok (length ts) wf_node (parse_primary f a ts))
        \<and> (16 * length ts + 1 \<le> f \<longrightarrow> ok (length ts) wf_node (parse_match f ts))
        \<and> (16 * length ts + 12 \<le> f \<longrightarrow>
             ok (length ts) (\<lambda>(pt, b). wf_pattern pt \<and> wf_node b) (parse_arm f ts))
        \<and> (16 * length ts + 12 \<le> f \<longrightarrow>
             ok (length ts) (\<lambda>(n, e). name_ok n \<and> wf_node e) (parse_field_init f ts)))"

lemma safeD:
  assumes "safe f" "good ts"
  shows "l \<le> 6 \<Longrightarrow> 16 * length ts + 11 \<le> f + l \<Longrightarrow> ok (length ts) wf_node (parse_binary f l a ts)"
    and "l < 6 \<Longrightarrow> 16 * length ts + 12 \<le> f \<Longrightarrow> wf_node x \<Longrightarrow>
      ok (Suc (length ts)) wf_node (bin_loop f l a x ts)"
    and "16 * length ts + 4 \<le> f \<Longrightarrow> ok (length ts) wf_node (parse_unary f a ts)"
    and "16 * length ts + 3 \<le> f \<Longrightarrow> ok (length ts) wf_node (parse_postfix f a ts)"
    and "16 * length ts + 12 \<le> f \<Longrightarrow> wf_node x \<Longrightarrow> ok (Suc (length ts)) wf_node (post_loop f x ts)"
    and "16 * length ts + 2 \<le> f \<Longrightarrow> ok (length ts) wf_node (parse_primary f a ts)"
    and "16 * length ts + 1 \<le> f \<Longrightarrow> ok (length ts) wf_node (parse_match f ts)"
    and "16 * length ts + 12 \<le> f \<Longrightarrow>
      ok (length ts) (\<lambda>(pt, b). wf_pattern pt \<and> wf_node b) (parse_arm f ts)"
    and "16 * length ts + 12 \<le> f \<Longrightarrow>
      ok (length ts) (\<lambda>(n, e). name_ok n \<and> wf_node e) (parse_field_init f ts)"
  using assms unfolding safe_def by blast+

lemma length_BIN_LEVELS [simp]: "length BIN_LEVELS = 6"
  by (simp add: BIN_LEVELS_def)

text \<open>The same rules with the bound as a premise, to apply them inside a routine.\<close>

lemma safe_args:
  assumes "safe f" "good ts" "16 * length ts + 11 \<le> f"
  shows "ok (length ts) (\<lambda>es. \<forall>e \<in> set es. wf_node e) (comma_list (parse_binary f 0 True) close f ts)"
  by (rule ok_comma_list [where k = "length ts"]) (use assms in \<open>auto intro!: safeD(1)\<close>)

lemma safe_arms:
  assumes "safe f" "good ts" "16 * length ts + 12 \<le> f"
  shows "ok (length ts) (\<lambda>xs. \<forall>x \<in> set xs. case x of (pt, b) \<Rightarrow> wf_pattern pt \<and> wf_node b)
    (comma_list (parse_arm f) close f ts)"
  by (rule ok_comma_list [where k = "length ts"]) (use assms in \<open>auto intro!: safeD(8)\<close>)

lemma safe_inits:
  assumes "safe f" "good ts" "16 * length ts + 12 \<le> f"
  shows "ok (length ts) (\<lambda>xs. \<forall>x \<in> set xs. case x of (n, e) \<Rightarrow> name_ok n \<and> wf_node e)
    (comma_list (parse_field_init f) close f ts)"
  by (rule ok_comma_list [where k = "length ts"]) (use assms in \<open>auto intro!: safeD(9)\<close>)

lemma safe_binary:
  assumes "safe f" "good ts" "l \<le> 6" "16 * length ts + 11 \<le> Suc f + l"
  shows "ok (length ts) wf_node (parse_binary (Suc f) l a ts)"
  unfolding parsers_Suc parse_binary_step_def length_BIN_LEVELS using assms
  by - (rule ok_rules safeD [OF assms(1)] ok_mono [OF safeD(2) [OF assms(1)]] | (simp; fail))+

lemma safe_arm:
  assumes "safe f" "good ts" "16 * length ts + 12 \<le> Suc f"
  shows "ok (length ts) (\<lambda>(pt, b). wf_pattern pt \<and> wf_node b) (parse_arm (Suc f) ts)"
  unfolding parsers_Suc parse_arm_step_def using assms
  by - (rule ok_rules ok_parse_pattern safeD(1) [OF assms(1)] | (simp; fail))+

lemma safe_init:
  assumes "safe f" "good ts" "16 * length ts + 12 \<le> Suc f"
  shows "ok (length ts) (\<lambda>(n, e). name_ok n \<and> wf_node e) (parse_field_init (Suc f) ts)"
  unfolding parsers_Suc parse_field_init_step_def using assms
  by - (rule ok_rules safeD(1) [OF assms(1)] | (simp; fail))+

lemma safe_match:
  assumes "safe f" "good ts" "16 * length ts + 1 \<le> Suc f"
  shows "ok (length ts) wf_node (parse_match (Suc f) ts)"
  unfolding parsers_Suc parse_match_step_def using assms
  by - (rule ok_rules safeD(1) [OF assms(1)] safe_arms [OF assms(1)] | (simp; fail))+

lemma ok_tokcase_sym:
  assumes "\<And>op. v = TSym op \<Longrightarrow> ok n Q (g op)" "ok n Q d"
  shows "ok n Q (case v of TSym op \<Rightarrow> g op | _ \<Rightarrow> d)"
  using assms by (cases v) auto

lemma safe_loop:
  assumes "safe f" "good ts" "l < 6" "16 * length ts + 12 \<le> Suc f" "wf_node x"
  shows "ok (Suc (length ts)) wf_node (bin_loop (Suc f) l a x ts)"
  unfolding parsers_Suc bin_loop_step_def
proof (rule ok_list_case [OF assms(2)], rule ok_tokcase_sym)
  fix t r op
  assume ts: "ts = t # r" and op: "t_val t = TSym op"
  then have r: "good r" using assms(2) good_tail by auto
  have w: "wf_node (NBin op x y)" if "op \<in> set (BIN_LEVELS ! l)" "wf_node y" for y
    using that assms(3,5) by (auto intro!: bexI [of _ "BIN_LEVELS ! l"])
  show "ok (Suc (length ts)) wf_node
      (if op \<in> set (BIN_LEVELS ! l)
       then bindE (parse_binary f (l + 1) a r) (\<lambda>(right, ts1). bin_loop f l a (NBin op x right) ts1)
       else Inr (x, ts))"
    using r assms(2-) ts
    by - (rule ok_rules safeD(1) [OF assms(1)] ok_mono [OF safeD(2) [OF assms(1)]] w | (simp; fail))+
qed (use assms in \<open>auto intro!: ok_rules\<close>)

lemma safe_unary:
  assumes "safe f" "good ts" "16 * length ts + 4 \<le> Suc f"
  shows "ok (length ts) wf_node (parse_unary (Suc f) a ts)"
  unfolding parsers_Suc parse_unary_step_def
proof (rule ok_list_case [OF assms(2)], rule ok_tokcase_sym)
  fix t r op
  assume ts: "ts = t # r" and op: "t_val t = TSym op"
  then have r: "good r" using assms(2) good_tail by auto
  show "ok (length ts) wf_node (if op \<in> {''!'', ''-''}
      then bindE (parse_unary f a r) (\<lambda>(e, ts1). Inr (fold_minus op e, ts1)) else parse_postfix f a ts)"
    using r assms(2-) ts
    by - (rule ok_rules safeD(3,4) [OF assms(1)] wf_fold_minus | (simp; fail))+
qed (rule safeD(4) [OF assms(1,2)], use assms(3) in simp)

lemma safe_postfix:
  assumes "safe f" "good ts" "16 * length ts + 3 \<le> Suc f"
  shows "ok (length ts) wf_node (parse_postfix (Suc f) a ts)"
  unfolding parsers_Suc parse_postfix_step_def using assms
  by - (rule ok_rules safeD(6) [OF assms(1)] ok_mono [OF safeD(5) [OF assms(1)]] | (simp; fail))+

lemma ok_node_ident:
  assumes "\<And>x. e = NIdent x \<Longrightarrow> ok n Q (g x)" "ok n Q d"
  shows "ok n Q (case e of NIdent x \<Rightarrow> g x | _ \<Rightarrow> d)"
  using assms by (cases e) auto

lemma safe_post_loop:
  assumes "safe f" "good ts" "16 * length ts + 12 \<le> Suc f" "wf_node e"
  shows "ok (Suc (length ts)) wf_node (post_loop (Suc f) e ts)"
  unfolding parsers_Suc post_loop_step_def
proof (rule ok_list_case [OF assms(2)])
  fix t r
  assume ts: "ts = t # r"
  have r: "good r" if "t_val t = TSym v" for v
    using that assms(2) good_tail by (auto simp: ts)
  have loop: "ok (Suc (length ts)) wf_node (post_loop f x us)"
    if "good us" "length us < length ts" "wf_node x" for us x
    by (rule ok_mono [OF safeD(5) [OF assms(1)]]) (use that assms(3) in auto)
  note L = ok_rules safeD(1) [OF assms(1)] loop safe_args [OF assms(1)]
  have q: "ok (Suc (length ts)) wf_node (if t_val t = TSym ''?'' then post_loop f (NQmark e) r else Inr (e, ts))"
    using r assms(2,4) by - (rule L | (simp add: ts; fail))+
  show "ok (Suc (length ts)) wf_node
     (if t_val t = TSym ''.'' then
        bindE (eat_ident r) (\<lambda>(name, ts1).
        if_sym ''('' (\<lambda>ts2. bindE (comma_list (parse_binary f 0 True) '')'' f ts2) (\<lambda>(args, ts3).
            post_loop f (NFieldCall e name args) ts3))
          (\<lambda>ts2. post_loop f (NField e name) ts2) ts1)
      else if t_val t = TSym ''['' \<and> indexable e then
        bindE (parse_binary f 0 True r) (\<lambda>(idx, ts1).
        bindE (eat_sym '']'' ts1) (\<lambda>ts2. post_loop f (NIndex e idx) ts2))
      else
        (case e of
           NIdent name \<Rightarrow>
             if t_val t = TSym ''('' then
               bindE (comma_list (parse_binary f 0 True) '')'' f r) (\<lambda>(args, ts1).
               post_loop f (NCall name args) ts1)
             else if t_val t = TSym ''?'' then post_loop f (NQmark e) r
             else Inr (e, ts)
         | _ \<Rightarrow> if t_val t = TSym ''?'' then post_loop f (NQmark e) r else Inr (e, ts)))"
    using r assms(2-)
    by - (rule q L ok_node_ident | (simp add: ts; fail))+
qed

lemma safe_primary:
  assumes "safe f" "good ts" "16 * length ts + 2 \<le> Suc f"
  shows "ok (length ts) wf_node (parse_primary (Suc f) a ts)"
  unfolding parsers_Suc parse_primary_step_def
proof (rule ok_list_case [OF assms(2)])
  fix t r
  assume ts: "ts = t # r"
  have r: "good r" if "t_val t \<noteq> TEof" using that assms(2) good_tail by (auto simp: ts)
  have len: "length ts = Suc (length r)" by (simp add: ts)
  note L = ok_rules safeD(1,7) [OF assms(1)] safe_args [OF assms(1)] safe_inits [OF assms(1)]
  show "ok (length ts) wf_node
      (case t_val t of
         TInt v _ \<Rightarrow>
           if int v > 2 ^ 63 then fail_at t (Refused ''integer literal too large (exceeds int64)'')
           else Inr (NInt (int v), r)
       | TFloat w _ \<Rightarrow> Inr (NFloat w, r)
       | TStr s \<Rightarrow> Inr (NStr s, r)
       | TKw k \<Rightarrow>
           if k \<in> {''true'', ''false''} then Inr (NBool (k = ''true''), r)
           else if k = ''match'' then parse_match f ts
           else expected ''expression'' ts
       | TIdent name \<Rightarrow>
           (case r of
              [] \<Rightarrow> Inr (NIdent name, r)
            | nxt # r1 \<Rightarrow>
                if a \<and> t_val nxt = TSym ''{''
                then bindE (comma_list (parse_field_init f) ''}'' f r1) (\<lambda>(fs, ts1).
                       Inr (NStruct name fs, ts1))
                else Inr (NIdent name, r))
       | TSym v \<Rightarrow>
           if v = ''('' then
             bindE (parse_binary f 0 True r) (\<lambda>(e, ts1).
             bindE (eat_sym '')'' ts1) (\<lambda>ts2. Inr (e, ts2)))
           else if v = ''['' then
             bindE (comma_list (parse_binary f 0 True) '']'' f r) (\<lambda>(items, ts1).
             Inr (NList items, ts1))
           else expected ''expression'' ts
       | TEof \<Rightarrow> expected ''expression'' ts)"
  proof (cases "t_val t")
    case (TIdent name)
    with r have g: "good r" by simp
    then obtain nxt r1 where r1: "r = nxt # r1" by (cases r) auto
    have n: "name \<noteq> []" using assms(2) TIdent by (auto simp: ts good_def)
    have g1: "good r1" if "t_val nxt = TSym ''{''" using g that good_tail by (auto simp: r1)
    show ?thesis unfolding TIdent tokval.case r1 list.case
      using g n g1 assms(3) by - (rule L | (simp add: ts r1; fail))+
  next
    case (TKw k)
    with r have "good r" by simp
    then show ?thesis unfolding TKw tokval.case
      using assms(2,3) by - (rule L | (simp add: len; fail))+
  next
    case (TInt v raw)
    with r have "good r" by simp
    then show ?thesis unfolding TInt tokval.case
      using assms(2,3) by - (rule L | (simp add: len; fail))+
  next
    case (TFloat w raw)
    with r have "good r" by simp
    then show ?thesis unfolding TFloat tokval.case
      using assms(2,3) by - (rule L | (simp add: len; fail))+
  next
    case (TStr s)
    with r have "good r" by simp
    then show ?thesis unfolding TStr tokval.case
      using assms(2,3) by - (rule L | (simp add: len; fail))+
  next
    case (TSym v)
    with r have "good r" by simp
    then show ?thesis unfolding TSym tokval.case
      using assms(2,3) by - (rule L | (simp add: len; fail))+
  next
    case TEof
    show ?thesis unfolding TEof tokval.case using assms(2) by (rule ok_rules)
  qed
qed

lemma safe_all: "safe f"
proof (induction f)
  case 0
  show ?case by (auto simp: safe_def)
next
  case (Suc f)
  show ?case unfolding safe_def
    by (intro allI impI conjI safe_binary safe_loop safe_unary safe_postfix safe_post_loop safe_primary
        safe_match safe_arm safe_init Suc) assumption+
qed

end
