(* ===== verification/ParseRound.thy ===== *)
theory ParseRound
  imports ParseSafe
begin

text \<open>
  Printing an expression and parsing it back. First more fuel never changes a result other than
  running out, so a result is a property of the tokens; then each routine is run on the tokens of a
  printed node, followed by any rest that cannot continue it.
\<close>

section \<open>Fuel\<close>

definition le_res :: "perr + 'a \<Rightarrow> perr + 'a \<Rightarrow> bool" where
  "le_res r s \<longleftrightarrow> r = Inl PFuel \<or> r = s"

named_theorems le_rules \<open>monotonicity in the fuel\<close>

lemma le_refl [le_rules]: "le_res r r"
  by (simp add: le_res_def)

lemma le_fuel [le_rules]: "le_res (Inl PFuel) r"
  by (simp add: le_res_def)

lemma le_bind [le_rules]:
  assumes "le_res r s" "\<And>x. le_res (f x) (g x)"
  shows "le_res (bindE r f) (bindE s g)"
proof (cases "r = s")
  case True
  then show ?thesis using assms(2) by (cases s) (auto simp: le_refl)
next
  case False
  then show ?thesis using assms(1) by (simp add: le_res_def)
qed

lemma le_prod [le_rules]:
  "(\<And>x y. le_res (f x y) (g x y)) \<Longrightarrow> le_res (case p of (x, y) \<Rightarrow> f x y) (case p of (x, y) \<Rightarrow> g x y)"
  by (cases p) simp

lemma le_if_tok [le_rules]:
  "(\<And>r. le_res (y1 r) (y2 r)) \<Longrightarrow> (\<And>r. le_res (n1 r) (n2 r)) \<Longrightarrow>
     le_res (if_tok p y1 n1 ts) (if_tok p y2 n2 ts)"
  by (cases ts) (simp_all add: if_tok_def le_refl)

lemma le_if [le_rules]:
  "le_res x1 x2 \<Longrightarrow> le_res y1 y2 \<Longrightarrow> le_res (if c then x1 else y1) (if c then x2 else y2)"
  by simp

lemma le_list [le_rules]:
  "le_res x y \<Longrightarrow> (\<And>t r. le_res (f t r) (g t r)) \<Longrightarrow>
     le_res (case ts of [] \<Rightarrow> x | t # r \<Rightarrow> f t r) (case ts of [] \<Rightarrow> y | t # r \<Rightarrow> g t r)"
  by (cases ts) simp_all

lemma le_tok [le_rules]:
  "(\<And>x. le_res (a1 x) (a2 x)) \<Longrightarrow> (\<And>x. le_res (b1 x) (b2 x)) \<Longrightarrow> (\<And>x y. le_res (c1 x y) (c2 x y)) \<Longrightarrow>
   (\<And>x y. le_res (d1 x y) (d2 x y)) \<Longrightarrow> (\<And>x. le_res (e1 x) (e2 x)) \<Longrightarrow> (\<And>x. le_res (f1 x) (f2 x)) \<Longrightarrow>
   le_res g1 g2 \<Longrightarrow> le_res (case_tokval a1 b1 c1 d1 e1 f1 g1 v) (case_tokval a2 b2 c2 d2 e2 f2 g2 v)"
  by (cases v) simp_all

lemma le_node [le_rules]:
  "(\<And>x. le_res (g1 x) (g2 x)) \<Longrightarrow> le_res d1 d2 \<Longrightarrow>
   le_res (case e of NIdent x \<Rightarrow> g1 x | _ \<Rightarrow> d1) (case e of NIdent x \<Rightarrow> g2 x | _ \<Rightarrow> d2)"
  by (cases e) simp_all

lemma le_comma_list:
  assumes "\<And>ts. le_res (item1 ts) (item2 ts)" "n \<le> m"
  shows "le_res (comma_list item1 close n ts) (comma_list item2 close m ts)"
  using assms(2)
proof (induction n arbitrary: m ts)
  case 0
  then show ?case by (simp add: comma_list.simps le_fuel)
next
  case (Suc n)
  then obtain k where m: "m = Suc k" "n \<le> k" by (cases m) auto
  show ?case unfolding m(1) comma_list.simps
    by (rule le_rules assms(1) Suc.IH [OF m(2)])+
qed

lemma le_parse_bindings: "f \<le> g \<Longrightarrow> le_res (parse_bindings f e v ts) (parse_bindings g e v ts)"
  unfolding parse_bindings_def by (rule le_rules le_comma_list | assumption)+

lemma le_parse_pattern: "f \<le> g \<Longrightarrow> le_res (parse_pattern f ts) (parse_pattern g ts)"
  unfolding parse_pattern_def by (rule le_rules le_parse_bindings | assumption)+

definition le_routines :: "routines \<Rightarrow> routines \<Rightarrow> bool" where
  "le_routines P Q \<longleftrightarrow>
     (\<forall>l a ts. le_res (p_binary P l a ts) (p_binary Q l a ts))
     \<and> (\<forall>l a x ts. le_res (p_bin_loop P l a x ts) (p_bin_loop Q l a x ts))
     \<and> (\<forall>a ts. le_res (p_unary P a ts) (p_unary Q a ts))
     \<and> (\<forall>a ts. le_res (p_postfix P a ts) (p_postfix Q a ts))
     \<and> (\<forall>x ts. le_res (p_post_loop P x ts) (p_post_loop Q x ts))
     \<and> (\<forall>a ts. le_res (p_primary P a ts) (p_primary Q a ts))
     \<and> (\<forall>ts. le_res (p_match P ts) (p_match Q ts))
     \<and> (\<forall>ts. le_res (p_arm P ts) (p_arm Q ts))
     \<and> (\<forall>ts. le_res (p_field_init P ts) (p_field_init Q ts))"

lemma le_routinesD:
  assumes "le_routines P Q"
  shows "le_res (p_binary P l a ts) (p_binary Q l a ts)"
    "le_res (p_bin_loop P l a x ts) (p_bin_loop Q l a x ts)"
    "le_res (p_unary P a ts) (p_unary Q a ts)"
    "le_res (p_postfix P a ts) (p_postfix Q a ts)"
    "le_res (p_post_loop P x ts) (p_post_loop Q x ts)"
    "le_res (p_primary P a ts) (p_primary Q a ts)"
    "le_res (p_match P ts) (p_match Q ts)"
    "le_res (p_arm P ts) (p_arm Q ts)"
    "le_res (p_field_init P ts) (p_field_init Q ts)"
  using assms unfolding le_routines_def by blast+

lemma le_parsers: "f \<le> g \<Longrightarrow> le_routines (parsers f) (parsers g)"
proof (induction f arbitrary: g)
  case 0
  then show ?case by (simp add: le_routines_def parsers.simps le_fuel)
next
  case (Suc f)
  then obtain h where g: "g = Suc h" "f \<le> h" by (cases g) auto
  note R = le_rules le_routinesD [OF Suc.IH [OF g(2)]] le_parse_pattern [OF g(2)]
  show ?case unfolding le_routines_def g(1) parsers_Suc parser_steps
    by (intro conjI allI) (rule R le_comma_list [OF _ g(2)] | assumption)+
qed

text \<open>The result for all fuel from some point on.\<close>

definition ev :: "(nat \<Rightarrow> 'a) \<Rightarrow> 'a \<Rightarrow> bool" where
  "ev P r \<longleftrightarrow> (\<exists>n. \<forall>f \<ge> n. P f = r)"

lemma ev_const [simp]: "ev (\<lambda>_. r) r"
  by (simp add: ev_def)

lemma ev_Suc: "ev (\<lambda>f. P (Suc f)) r \<Longrightarrow> ev P r"
proof -
  assume "ev (\<lambda>f. P (Suc f)) r"
  then obtain n where n: "\<forall>f \<ge> n. P (Suc f) = r" by (auto simp: ev_def)
  have "P f = r" if "Suc n \<le> f" for f using n that by (cases f) auto
  then show ?thesis by (auto simp: ev_def)
qed

lemma ev_bind:
  assumes "ev P (Inr x)" "ev (\<lambda>f. Q f x) r"
  shows "ev (\<lambda>f. bindE (P f) (Q f)) r"
proof -
  from assms obtain n m where "\<forall>f \<ge> n. P f = Inr x" "\<forall>f \<ge> m. Q f x = r" by (auto simp: ev_def)
  then have "\<forall>f \<ge> max n m. bindE (P f) (Q f) = r" by simp
  then show ?thesis unfolding ev_def by blast
qed

lemma ev_parse_expr:
  assumes "ev (\<lambda>f. parse_binary f 0 a ts) r" "good ts"
  shows "parse_expr a ts = r"
proof -
  from assms(1) obtain n where n: "\<forall>f \<ge> n. parse_binary f 0 a ts = r" by (auto simp: ev_def)
  let ?g = "max n (fuel_for ts)"
  have "le_res (parse_expr a ts) (parse_binary ?g 0 a ts)"
    unfolding parse_expr_def by (rule le_routinesD(1) [OF le_parsers]) simp
  moreover have "ok (length ts) wf_node (parse_expr a ts)"
    unfolding parse_expr_def by (rule safeD(1) [OF safe_all assms(2)]) (simp_all add: fuel_for_def)
  then have "parse_expr a ts \<noteq> Inl PFuel" by (auto simp: ok_def is_perr_def)
  ultimately show ?thesis using n by (auto simp: le_res_def)
qed

section \<open>Printing\<close>

text \<open>Commas between the parts; the level of an operator and of a node (6 for a prefix operator and
  the least integer, 7 for what may be followed by a postfix operator).\<close>

fun commas :: "tokval list list \<Rightarrow> tokval list" where
  "commas [] = []"
| "commas [p] = p"
| "commas (p # ps) = p @ TSym '','' # commas ps"

definition op_level :: "string \<Rightarrow> nat" where
  "op_level op = length (takeWhile (\<lambda>ops. op \<notin> set ops) BIN_LEVELS)"

fun node_level :: "node \<Rightarrow> nat" where
  "node_level (NBin op l r) = op_level op"
| "node_level (NUn op e) = 6"
| "node_level (NInt v) = (if v < 0 then 6 else 7)"
| "node_level _ = 7"

fun is_struct :: "node \<Rightarrow> bool" where
  "is_struct (NStruct _ _) = True"
| "is_struct _ = False"

definition show_pattern :: "pattern \<Rightarrow> tokval list" where
  "show_pattern pt = (case pt of
      Wildcard \<Rightarrow> [TIdent ''_'']
    | VariantPat ename vname bs paren \<Rightarrow>
        (if ename = [] then [TIdent vname] else [TIdent ename, TSym ''.'', TIdent vname])
        @ (if paren then TSym ''('' # commas (map (\<lambda>b. [TIdent b]) bs) @ [TSym '')''] else []))"

text \<open>\<open>body a e\<close> prints \<open>e\<close> where a struct literal is allowed or not (\<open>a\<close>), \<open>show_node l a e\<close> puts it in
  parentheses when its level is below \<open>l\<close>.\<close>

definition parens :: "bool \<Rightarrow> (bool \<Rightarrow> tokval list) \<Rightarrow> bool \<Rightarrow> tokval list" where
  "parens c p a = (if c then TSym ''('' # p True @ [TSym '')''] else p a)"

fun body :: "bool \<Rightarrow> node \<Rightarrow> tokval list" where
  "body a (NInt v) = (if v < 0 then [TSym ''-'', TInt (nat (- v)) []] else [TInt (nat v) []])"
| "body a (NFloat w) = [TFloat w []]"
| "body a (NStr s) = [TStr s]"
| "body a (NBool b) = [TKw (if b then ''true'' else ''false'')]"
| "body a (NIdent x) = [TIdent x]"
| "body a (NBin op l r) =
     parens (node_level l < op_level op \<or> is_struct l \<and> \<not> a) (\<lambda>a. body a l) a @ TSym op #
     parens (node_level r < Suc (op_level op) \<or> is_struct r \<and> \<not> a) (\<lambda>a. body a r) a"
| "body a (NUn op e) = TSym op # parens (node_level e < 6 \<or> is_struct e \<and> \<not> a) (\<lambda>a. body a e) a"
| "body a (NCall x as) = TIdent x # TSym ''('' # commas (map (body True) as) @ [TSym '')'']"
| "body a (NField e x) =
     parens (node_level e < 7 \<or> is_struct e \<and> \<not> a) (\<lambda>a. body a e) a @ [TSym ''.'', TIdent x]"
| "body a (NFieldCall e x as) =
     parens (node_level e < 7 \<or> is_struct e \<and> \<not> a) (\<lambda>a. body a e) a
     @ TSym ''.'' # TIdent x # TSym ''('' # commas (map (body True) as) @ [TSym '')'']"
| "body a (NIndex e i) =
     parens (node_level e < 7 \<or> is_struct e \<and> \<not> a) (\<lambda>a. body a e) a @ TSym ''['' # body True i @ [TSym '']'']"
| "body a (NQmark e) = parens (node_level e < 7 \<or> is_struct e \<and> \<not> a) (\<lambda>a. body a e) a @ [TSym ''?'']"
| "body a (NList es) = TSym ''['' # commas (map (body True) es) @ [TSym '']'']"
| "body a (NStruct x fs) =
     TIdent x # TSym ''{'' # commas (map (\<lambda>(n, e). TIdent n # TSym '':'' # body True e) fs) @ [TSym ''}'']"
| "body a (NMatch e arms) =
     TKw ''match'' # parens (is_struct e) (\<lambda>a. body a e) False @ TSym ''{'' #
     commas (map (\<lambda>(pt, b). show_pattern pt @ TSym ''=>'' # body True b) arms) @ [TSym ''}'']"

definition show_node :: "nat \<Rightarrow> bool \<Rightarrow> node \<Rightarrow> tokval list" where
  "show_node l a e = parens (node_level e < l \<or> is_struct e \<and> \<not> a) (\<lambda>a. body a e) a"

lemma show_folds [simp]:
  "parens (node_level e < l \<or> is_struct e \<and> \<not> a) (\<lambda>a. body a e) a = show_node l a e"
  "parens (is_struct e) (\<lambda>a. body a e) False = show_node 0 False e"
  "body True e = show_node 0 True e"
  by (simp_all add: show_node_def parens_def)

text \<open>The value of a token without the spelling of its number.\<close>

definition tval :: "token \<Rightarrow> tokval" where
  "tval t = (case t_val t of TInt n _ \<Rightarrow> TInt n [] | TFloat w _ \<Rightarrow> TFloat w [] | v \<Rightarrow> v)"

lemma tval_simps [simp]:
  "tval t = TSym s \<longleftrightarrow> t_val t = TSym s" "tval t = TIdent s \<longleftrightarrow> t_val t = TIdent s"
  "tval t = TKw s \<longleftrightarrow> t_val t = TKw s" "tval t = TStr b \<longleftrightarrow> t_val t = TStr b"
  "tval t = TInt n [] \<longleftrightarrow> (\<exists>r. t_val t = TInt n r)" "tval t = TFloat w [] \<longleftrightarrow> (\<exists>r. t_val t = TFloat w r)"
  by (auto simp: tval_def split: tokval.splits)

text \<open>What the next token must not be, for a node read at level \<open>k\<close> to end before it.\<close>

definition postfix_syms :: "tokval set" where
  "postfix_syms = {TSym ''.'', TSym ''['', TSym ''('', TSym ''?''}"

definition stop :: "nat \<Rightarrow> bool \<Rightarrow> token list \<Rightarrow> bool" where
  "stop k a ts \<longleftrightarrow> (case ts of [] \<Rightarrow> False | t # _ \<Rightarrow>
     t_val t \<notin> postfix_syms \<and> (a \<longrightarrow> t_val t \<noteq> TSym ''{'')
     \<and> (\<forall>op. t_val t = TSym op \<longrightarrow> op_level op < k \<or> op_level op = 6))"

definition no_brace :: "bool \<Rightarrow> token list \<Rightarrow> bool" where
  "no_brace a ts \<longleftrightarrow> ts \<noteq> [] \<and> t_val (hd ts) \<noteq> TSym ''('' \<and> (a \<longrightarrow> t_val (hd ts) \<noteq> TSym ''{'')"

lemma stop_mono: "stop k a ts \<Longrightarrow> k \<le> m \<Longrightarrow> stop m a ts"
  by (auto simp: stop_def split: list.splits)

lemma stop_no_brace: "stop k a ts \<Longrightarrow> no_brace a ts"
  by (auto simp: stop_def no_brace_def postfix_syms_def split: list.splits)

lemma no_level: "op_level '','' = 6" "op_level '')'' = 6" "op_level '']'' = 6" "op_level ''}'' = 6"
  "op_level ''{'' = 6" "op_level ''=>'' = 6"
  by code_simp+

lemma stop_sym:
  "t_val t = TSym op \<Longrightarrow> op_level op = 6 \<Longrightarrow> TSym op \<notin> postfix_syms \<Longrightarrow> op \<noteq> ''{'' \<or> \<not> a \<Longrightarrow> stop k a (t # ts)"
  by (auto simp: stop_def)

lemma stop_closing:
  "t_val t = TSym '','' \<Longrightarrow> stop k a (t # ts)" "t_val t = TSym '')'' \<Longrightarrow> stop k a (t # ts)"
  "t_val t = TSym '']'' \<Longrightarrow> stop k a (t # ts)" "t_val t = TSym ''}'' \<Longrightarrow> stop k a (t # ts)"
  "t_val t = TSym ''{'' \<Longrightarrow> stop k False (t # ts)"
  by (erule stop_sym; simp add: no_level postfix_syms_def)+

section \<open>Operators\<close>

lemma takeWhile_index:
  assumes "l < length xs" "\<not> P (xs ! l)" "\<And>j. j < l \<Longrightarrow> P (xs ! j)"
  shows "length (takeWhile P xs) = l"
  using assms
proof (induction xs arbitrary: l)
  case Nil
  then show ?case by simp
next
  case (Cons x xs)
  show ?case
  proof (cases l)
    case 0
    then show ?thesis using Cons.prems by simp
  next
    case (Suc k)
    have "P x" using Cons.prems(3) [of 0] Suc by simp
    moreover have "P (xs ! j)" if "j < k" for j using Cons.prems(3) [of "Suc j"] that Suc by simp
    then have "length (takeWhile P xs) = k"
      using Cons.prems(1,2) Suc by (intro Cons.IH) simp_all
    ultimately show ?thesis using Suc by simp
  qed
qed

lemma levels_disjoint:
  "list_all (\<lambda>i. list_all (\<lambda>j. i = j \<or> list_all (\<lambda>x. x \<notin> set (BIN_LEVELS ! j)) (BIN_LEVELS ! i)) [0..<6]) [0..<6]"
  by code_simp

lemma level_member:
  assumes "l < 6"
  shows "op \<in> set (BIN_LEVELS ! l) \<longleftrightarrow> op_level op = l"
proof
  assume op: "op \<in> set (BIN_LEVELS ! l)"
  have "op \<notin> set (BIN_LEVELS ! j)" if "j < l" for j
  proof -
    have "l \<in> set [0..<6]" "j \<in> set [0..<6]" "l \<noteq> j" using that assms by auto
    then show ?thesis using levels_disjoint op unfolding list_all_iff by blast
  qed
  with op assms show "op_level op = l"
    unfolding op_level_def by (intro takeWhile_index) simp_all
next
  assume "op_level op = l"
  with assms show "op \<in> set (BIN_LEVELS ! l)"
    unfolding op_level_def using nth_length_takeWhile [of "\<lambda>ops. op \<notin> set ops" BIN_LEVELS] by simp
qed

lemma length_takeWhile_less_iff: "length (takeWhile P xs) < length xs \<longleftrightarrow> (\<exists>x \<in> set xs. \<not> P x)"
  by (induction xs) auto

lemma op_level_bound: "(\<exists>ops \<in> set BIN_LEVELS. op \<in> set ops) \<Longrightarrow> op_level op < 6"
  using length_takeWhile_less_iff [of "\<lambda>ops. op \<notin> set ops" BIN_LEVELS] by (simp add: op_level_def)

lemma postfix_level: "TSym op \<in> postfix_syms \<Longrightarrow> op_level op = 6"
  by (auto simp: postfix_syms_def op_level_def BIN_LEVELS_def)

lemma stop_op: "t_val t = TSym op \<Longrightarrow> op_level op < 6 \<Longrightarrow> op_level op < k \<Longrightarrow> stop k a (t # ts)"
  using postfix_level [of op] no_level(5) by (auto simp: stop_def)

section \<open>Runs of the routines\<close>

lemma map_tval_append: "map tval us = xs @ ys \<longleftrightarrow>
    (\<exists>as bs. us = as @ bs \<and> map tval as = xs \<and> map tval bs = ys)"
  by (auto simp: map_eq_append_conv)

lemma map_tval_Cons: "map tval us = x # ys \<longleftrightarrow> (\<exists>t r. us = t # r \<and> tval t = x \<and> map tval r = ys)"
  by (auto simp: map_eq_Cons_conv)

lemmas split_toks = map_tval_append map_tval_Cons

lemma ev_Inr_bind:
  "ev P (Inr (x, ts)) \<Longrightarrow> ev (\<lambda>f. Q f x ts) r \<Longrightarrow> ev (\<lambda>f. bindE (P f) (\<lambda>(x, ts). Q f x ts)) r"
  by (drule ev_bind [where Q = "\<lambda>f (x, ts). Q f x ts"]) simp_all

lemma eat_sym_hit [simp]: "t_val t = TSym v \<Longrightarrow> eat_sym v (t # r) = Inr r"
  by (simp add: eat_sym_def if_tok_def)

lemma eat_kw_hit [simp]: "t_val t = TKw v \<Longrightarrow> eat_kw v (t # r) = Inr r"
  by (simp add: eat_kw_def if_tok_def)

lemma eat_ident_hit [simp]: "t_val t = TIdent v \<Longrightarrow> name_ok v \<Longrightarrow> eat_ident (t # r) = Inr (v, r)"
  by (simp add: eat_ident_def name_ok_def)

lemma if_tok_hit [simp]: "p (t_val t) \<Longrightarrow> if_tok p yes no (t # r) = yes r"
  by (simp add: if_tok_def)

lemma if_tok_miss [simp]: "\<not> p (t_val t) \<Longrightarrow> if_tok p yes no (t # r) = no (t # r)"
  by (simp add: if_tok_def)

lemma run_down:
  assumes "l < 6" "ev (\<lambda>f. parse_binary f (Suc l) a ts) (Inr (x, ts1))" "ev (\<lambda>f. bin_loop f l a x ts1) r"
  shows "ev (\<lambda>f. parse_binary f l a ts) r"
  by (rule ev_Suc) (use assms in \<open>simp add: parse_binary_step_def ev_Inr_bind\<close>)

lemma run_unary: "ev (\<lambda>f. parse_unary f a ts) r \<Longrightarrow> ev (\<lambda>f. parse_binary f 6 a ts) r"
  by (rule ev_Suc) (simp add: parse_binary_step_def)

lemma bin_loop_stop:
  assumes "l < 6" "stop l a rest"
  shows "ev (\<lambda>f. bin_loop f l a x rest) (Inr (x, rest))"
proof (rule ev_Suc)
  obtain t r where rest: "rest = t # r" using assms(2) by (cases rest) (simp_all add: stop_def)
  have "op \<notin> set (BIN_LEVELS ! l)" if "t_val t = TSym op" for op
    using assms that by (auto simp: rest stop_def level_member)
  then have "bin_loop_step P f l a x rest = Inr (x, rest)" for P f
    by (cases "t_val t") (simp_all add: bin_loop_step_def rest)
  then show "ev (\<lambda>f. bin_loop (Suc f) l a x rest) (Inr (x, rest))" by simp
qed

lemma bin_loop_op:
  assumes "l < 6" "t_val t = TSym op" "op_level op = l"
    "ev (\<lambda>f. parse_binary f (Suc l) a ts) (Inr (y, rest))" "ev (\<lambda>f. bin_loop f l a (NBin op x y) rest) r"
  shows "ev (\<lambda>f. bin_loop f l a x (t # ts)) r"
  by (rule ev_Suc) (use assms in \<open>simp add: bin_loop_step_def level_member ev_Inr_bind\<close>)

lemma post_loop_stop:
  assumes "stop k a rest"
  shows "ev (\<lambda>f. post_loop f e rest) (Inr (e, rest))"
proof (rule ev_Suc)
  obtain t r where rest: "rest = t # r" using assms by (cases rest) (simp_all add: stop_def)
  have "t_val t \<noteq> TSym ''.''" "t_val t \<noteq> TSym ''[''" "t_val t \<noteq> TSym ''(''" "t_val t \<noteq> TSym ''?''"
    using assms by (auto simp: rest stop_def postfix_syms_def)
  then have "post_loop_step P f e rest = Inr (e, rest)" for P f
    by (cases e) (simp_all add: post_loop_step_def rest)
  then show "ev (\<lambda>f. post_loop (Suc f) e rest) (Inr (e, rest))" by simp
qed

lemma run_levels:
  assumes "ev (\<lambda>f. parse_binary f k a ts) (Inr (e, rest))" "k \<le> 6" "l \<le> k" "stop l a rest"
  shows "ev (\<lambda>f. parse_binary f l a ts) (Inr (e, rest))"
  using assms(3,4)
proof (induction l rule: inc_induct)
  case base
  show ?case by (rule assms(1))
next
  case (step l)
  have "stop (Suc l) a rest" using step.prems by (rule stop_mono) simp
  then show ?case
    using step assms(2) by (intro run_down [of l, OF _ step.IH] bin_loop_stop) simp_all
qed

text \<open>Reading a printed node at each of the three kinds of level.\<close>

definition reads :: "node \<Rightarrow> bool" where
  "reads e \<longleftrightarrow> (\<forall>a us rest.
     (\<forall>r. map tval us = show_node 7 a e \<longrightarrow> no_brace a rest \<longrightarrow> ev (\<lambda>f. post_loop f e rest) r \<longrightarrow>
        ev (\<lambda>f. parse_postfix f a (us @ rest)) r)
     \<and> (map tval us = show_node 6 a e \<longrightarrow> stop 6 a rest \<longrightarrow>
        ev (\<lambda>f. parse_unary f a (us @ rest)) (Inr (e, rest)))
     \<and> (\<forall>l r. l < 6 \<longrightarrow> map tval us = show_node l a e \<longrightarrow> stop (Suc l) a rest \<longrightarrow>
        ev (\<lambda>f. bin_loop f l a e rest) r \<longrightarrow> ev (\<lambda>f. parse_binary f l a (us @ rest)) r))"

lemma readsD:
  assumes "reads e"
  shows "map tval us = show_node 7 a e \<Longrightarrow> no_brace a rest \<Longrightarrow> ev (\<lambda>f. post_loop f e rest) r \<Longrightarrow>
      ev (\<lambda>f. parse_postfix f a (us @ rest)) r"
    and "map tval us = show_node 6 a e \<Longrightarrow> stop 6 a rest \<Longrightarrow>
      ev (\<lambda>f. parse_unary f a (us @ rest)) (Inr (e, rest))"
    and "l < 6 \<Longrightarrow> map tval us = show_node l a e \<Longrightarrow> stop (Suc l) a rest \<Longrightarrow>
      ev (\<lambda>f. bin_loop f l a e rest) s \<Longrightarrow> ev (\<lambda>f. parse_binary f l a (us @ rest)) s"
  using assms unfolding reads_def by blast+

lemma reads_at:
  assumes "reads e" "l \<le> 6" "map tval us = show_node l a e" "stop l a rest"
  shows "ev (\<lambda>f. parse_binary f l a (us @ rest)) (Inr (e, rest))"
proof (cases "l = 6")
  case True
  then show ?thesis using readsD(2) [OF assms(1)] assms(3,4) run_unary by blast
next
  case False
  then have l: "l < 6" using assms(2) by simp
  show ?thesis
    by (rule readsD(3) [OF assms(1) l assms(3)])
      (use assms(4) l stop_mono bin_loop_stop in \<open>auto intro: le_SucI\<close>)
qed

text \<open>The first token of a printed node.\<close>

definition opener :: "bool \<Rightarrow> tokval \<Rightarrow> bool" where
  "opener prefix v \<longleftrightarrow> (case v of TSym s \<Rightarrow> s \<in> {''('', ''[''} \<or> prefix \<and> s \<in> {''!'', ''-''} | TEof \<Rightarrow> False | _ \<Rightarrow> True)"

definition opens :: "bool \<Rightarrow> tokval list \<Rightarrow> bool" where
  "opens prefix vs \<longleftrightarrow> vs \<noteq> [] \<and> opener prefix (hd vs)"

lemma opens_mono: "opens p vs \<Longrightarrow> p \<le> q \<Longrightarrow> opens q vs"
  by (auto simp: opens_def opener_def split: tokval.splits)

lemma opens_append: "opens p vs \<Longrightarrow> opens p (vs @ ws)"
  by (simp add: opens_def)

lemma opens_parens: "(\<not> c \<Longrightarrow> opens q (p a)) \<Longrightarrow> opens q (parens c p a)"
  by (cases c) (auto simp: parens_def opens_def opener_def)

lemmas opens_rules = opens_append opens_parens

lemma body_opens: "wf_node e \<Longrightarrow> opens (node_level e < 7) (body a e)"
proof (induction e arbitrary: a)
  case (NBin op l r)
  have "op_level op < 6" using NBin.prems by (intro op_level_bound) simp
  moreover have "opens True (body b l)" for b
    by (rule opens_mono [OF NBin.IH(1)]) (use NBin.prems in auto)
  ultimately show ?case by (simp del: show_folds) (intro opens_rules)
next
  case (NField e x)
  then show ?case by (simp del: show_folds) (intro opens_rules, auto elim: opens_mono)
next
  case (NFieldCall e x as)
  then show ?case by (simp del: show_folds) (intro opens_rules, auto elim: opens_mono)
next
  case (NIndex e x)
  then show ?case by (simp del: show_folds) (intro opens_rules, auto elim: opens_mono)
next
  case (NQmark e)
  then show ?case by (simp del: show_folds) (intro opens_rules, auto elim: opens_mono)
qed (auto simp: opens_def opener_def)

lemma show_opens:
  assumes "wf_node e"
  shows "opens (l < 7) (show_node l a e)"
  unfolding show_node_def by (intro opens_parens opens_mono [OF body_opens [OF assms]]) auto

section \<open>Items between commas\<close>

definition ev_item :: "(nat \<Rightarrow> token list \<Rightarrow> 'a pres) \<Rightarrow> string \<Rightarrow> tokval list \<Rightarrow> 'a \<Rightarrow> bool" where
  "ev_item item close p x \<longleftrightarrow> p \<noteq> [] \<and> hd p \<noteq> TSym close \<and>
     (\<forall>us t r. map tval us = p \<longrightarrow> t_val t \<in> {TSym '','', TSym close} \<longrightarrow>
        ev (\<lambda>f. item f (us @ t # r)) (Inr (x, t # r)))"

lemma ev_itemD:
  "ev_item item close p x \<Longrightarrow> map tval us = p \<Longrightarrow> t_val t = TSym '','' \<or> t_val t = TSym close \<Longrightarrow>
     ev (\<lambda>f. item f (us @ t # r)) (Inr (x, t # r))"
  unfolding ev_item_def by blast

lemma comma_end: "t_val t = TSym close \<Longrightarrow> 0 < n \<Longrightarrow> comma_list item close n (t # r) = Inr ([], r)"
  by (cases n) (simp_all add: comma_list.simps)

lemma comma_step:
  assumes "t_val v \<noteq> TSym close" "item (v # vs) = Inr (x, c # r)" "t_val c = TSym '',''"
    "comma_list item close n r = Inr (xs, rest)"
  shows "comma_list item close (Suc n) (v # vs) = Inr (x # xs, rest)"
  using assms by (simp add: comma_list.simps comma_sep_def)

lemma comma_last:
  assumes "t_val v \<noteq> TSym close" "item (v # vs) = Inr (x, c # r)" "t_val c = TSym close"
    "close \<noteq> '',''" "0 < n"
  shows "comma_list item close (Suc n) (v # vs) = Inr ([x], r)"
  using assms by (simp add: comma_list.simps comma_sep_def comma_end)

lemma commas_Cons: "commas (p # ps) = p @ (if ps = [] then [] else TSym '','' # commas ps)"
  by (cases ps) simp_all

lemma comma_list_runs:
  assumes "list_all2 (ev_item item close) ps xs" "close \<noteq> '',''" "t_val t = TSym close"
    "map tval us = commas ps"
  shows "\<exists>N. \<forall>n \<ge> N. \<forall>m \<ge> N. comma_list (item m) close n (us @ t # rest) = Inr (xs, rest)"
  using assms(1,4)
proof (induction arbitrary: us rule: list_all2_induct)
  case Nil
  then have "comma_list (item m) close n (us @ t # rest) = Inr ([], rest)" if "1 \<le> n" for n m
    using that assms(3) by (simp add: comma_end)
  then show ?case by blast
next
  case (Cons p ps x xs)
  from Cons.prems obtain vs ws where us: "us = vs @ ws" "map tval vs = p"
    "map tval ws = (if ps = [] then [] else TSym '','' # commas ps)"
    by (auto simp: commas_Cons map_tval_append)
  from Cons.hyps(1) us(2) obtain v vs' where v: "vs = v # vs'" "t_val v \<noteq> TSym close"
    by (cases vs) (auto simp: ev_item_def)
  show ?case
  proof (cases "ps = []")
    case True
    then have ws: "ws = []" and xs: "xs = []" using us(3) Cons.hyps(2) by auto
    obtain N where N: "\<forall>f \<ge> N. item f (vs @ t # rest) = Inr (x, t # rest)"
      using ev_itemD [OF Cons.hyps(1) us(2)] assms(3) unfolding ev_def by blast
    have "comma_list (item m) close n (us @ t # rest) = Inr ([x], rest)" if n: "N + 2 \<le> n" and m: "N + 2 \<le> m" for n m
    proof -
      obtain k where "n = Suc k" "0 < k" using n by (cases n) auto
      moreover have "item m (v # vs' @ t # rest) = Inr (x, t # rest)" using N m v(1) by simp
      ultimately show ?thesis using assms(2,3) v us(1) ws by (simp add: comma_last)
    qed
    then show ?thesis unfolding xs by blast
  next
    case False
    then obtain c ws' where ws: "ws = c # ws'" "t_val c = TSym '',''" "map tval ws' = commas ps"
      using us(3) by (auto simp: map_tval_Cons)
    obtain N where N: "\<forall>f \<ge> N. item f (vs @ c # ws' @ t # rest) = Inr (x, c # ws' @ t # rest)"
      using ev_itemD [OF Cons.hyps(1) us(2)] ws(2) unfolding ev_def by blast
    obtain M where M: "\<forall>n \<ge> M. \<forall>m \<ge> M. comma_list (item m) close n (ws' @ t # rest) = Inr (xs, rest)"
      using Cons.IH [OF ws(3)] by blast
    have "comma_list (item m) close n (us @ t # rest) = Inr (x # xs, rest)"
      if n: "N + M + 1 \<le> n" and m: "N + M + 1 \<le> m" for n m
    proof -
      obtain k where "n = Suc k" "M \<le> k" using n by (cases n) auto
      moreover have "item m (v # vs' @ c # ws' @ t # rest) = Inr (x, c # ws' @ t # rest)"
        using N m v(1) by simp
      ultimately show ?thesis using M m v us(1) ws(1,2) by (simp add: comma_step)
    qed
    then show ?thesis by blast
  qed
qed

lemma ev_comma_list:
  assumes "list_all2 (ev_item item close) ps xs" "close \<noteq> '',''" "t_val t = TSym close"
    "map tval us = commas ps"
  shows "ev (\<lambda>f. comma_list (item f) close f (us @ t # rest)) (Inr (xs, rest))"
  using comma_list_runs [OF assms] unfolding ev_def by blast

section \<open>Every node is read back\<close>

text \<open>A node printed without parentheses, at its own level.\<close>

definition core :: "node \<Rightarrow> bool" where
  "core e \<longleftrightarrow> (\<forall>a us rest r. map tval us = body a e \<longrightarrow> (is_struct e \<longrightarrow> a) \<longrightarrow>
     (node_level e = 7 \<longrightarrow> no_brace a rest \<longrightarrow> ev (\<lambda>f. post_loop f e rest) r \<longrightarrow>
        ev (\<lambda>f. parse_postfix f a (us @ rest)) r)
     \<and> (node_level e = 6 \<longrightarrow> stop 6 a rest \<longrightarrow> ev (\<lambda>f. parse_unary f a (us @ rest)) (Inr (e, rest)))
     \<and> (node_level e < 6 \<longrightarrow> stop (Suc (node_level e)) a rest \<longrightarrow>
        ev (\<lambda>f. bin_loop f (node_level e) a e rest) r \<longrightarrow>
        ev (\<lambda>f. parse_binary f (node_level e) a (us @ rest)) r))"

lemma coreD:
  assumes "core e" "map tval us = body a e" "is_struct e \<longrightarrow> a"
  shows "node_level e = 7 \<Longrightarrow> no_brace a rest \<Longrightarrow> ev (\<lambda>f. post_loop f e rest) r \<Longrightarrow>
      ev (\<lambda>f. parse_postfix f a (us @ rest)) r"
    and "node_level e = 6 \<Longrightarrow> stop 6 a rest \<Longrightarrow> ev (\<lambda>f. parse_unary f a (us @ rest)) (Inr (e, rest))"
    and "node_level e < 6 \<Longrightarrow> stop (Suc (node_level e)) a rest \<Longrightarrow>
        ev (\<lambda>f. bin_loop f (node_level e) a e rest) s \<Longrightarrow>
        ev (\<lambda>f. parse_binary f (node_level e) a (us @ rest)) s"
  using assms unfolding core_def by blast+

lemma core7I:
  assumes "node_level e = 7"
    "\<And>a us rest r. map tval us = body a e \<Longrightarrow> (is_struct e \<Longrightarrow> a) \<Longrightarrow> no_brace a rest \<Longrightarrow>
       ev (\<lambda>f. post_loop f e rest) r \<Longrightarrow> ev (\<lambda>f. parse_postfix f a (us @ rest)) r"
  shows "core e"
  using assms unfolding core_def by simp

lemma core6I:
  assumes "node_level e = 6" "\<not> is_struct e"
    "\<And>a us rest. map tval us = body a e \<Longrightarrow> stop 6 a rest \<Longrightarrow>
       ev (\<lambda>f. parse_unary f a (us @ rest)) (Inr (e, rest))"
  shows "core e"
  using assms unfolding core_def by simp

text \<open>From a routine to those above it.\<close>

lemma unary_postfix:
  assumes "opens False (map tval us)" "ev (\<lambda>f. parse_postfix f a (us @ rest)) r"
  shows "ev (\<lambda>f. parse_unary f a (us @ rest)) r"
proof (rule ev_Suc)
  obtain t us' where us: "us = t # us'" using assms(1) by (cases us) (simp_all add: opens_def)
  have "op \<notin> {''!'', ''-''}" if "t_val t = TSym op" for op
    using assms(1) that by (auto simp: us opens_def opener_def tval_def)
  then have "parse_unary_step P f a (us @ rest) = p_postfix P a (us @ rest)" for P f
    by (cases "t_val t") (simp_all add: parse_unary_step_def us)
  then show "ev (\<lambda>f. parse_unary (Suc f) a (us @ rest)) r" using assms(2) by simp
qed

lemma postfix_reads:
  assumes "opens False (map tval us)"
    "\<And>rest r. no_brace a rest \<Longrightarrow> ev (\<lambda>f. post_loop f e rest) r \<Longrightarrow> ev (\<lambda>f. parse_postfix f a (us @ rest)) r"
  shows "stop 6 a rest \<Longrightarrow> ev (\<lambda>f. parse_unary f a (us @ rest)) (Inr (e, rest))"
    and "l < 6 \<Longrightarrow> stop (Suc l) a rest \<Longrightarrow> ev (\<lambda>f. bin_loop f l a e rest) s \<Longrightarrow>
      ev (\<lambda>f. parse_binary f l a (us @ rest)) s"
proof -
  have u: "ev (\<lambda>f. parse_unary f a (us @ rest)) (Inr (e, rest))" if "stop k a rest" for k rest
    by (intro unary_postfix assms stop_no_brace [OF that] post_loop_stop [OF that])
  then show "stop 6 a rest \<Longrightarrow> ev (\<lambda>f. parse_unary f a (us @ rest)) (Inr (e, rest))" .
  show "ev (\<lambda>f. parse_binary f l a (us @ rest)) s"
    if "l < 6" "stop (Suc l) a rest" "ev (\<lambda>f. bin_loop f l a e rest) s"
    by (rule run_down [OF that(1) run_levels [OF run_unary [OF u [OF that(2)]]] that(3)])
      (use that in simp_all)
qed

lemma postfix_primary:
  "ev (\<lambda>f. parse_primary f a ts) (Inr (e, rest)) \<Longrightarrow> ev (\<lambda>f. post_loop f e rest) r \<Longrightarrow>
     ev (\<lambda>f. parse_postfix f a ts) r"
  by (rule ev_Suc) (simp add: parse_postfix_step_def ev_Inr_bind)

lemma primary_paren:
  assumes "ev (\<lambda>f. parse_binary f 0 True (us @ c # rest)) (Inr (e, c # rest))"
    "t_val t = TSym ''(''" "t_val c = TSym '')''" "ev (\<lambda>f. post_loop f e rest) r"
  shows "ev (\<lambda>f. parse_postfix f a (t # us @ c # rest)) r"
proof -
  have "ev (\<lambda>f. parse_primary f a (t # us @ c # rest)) (Inr (e, rest))"
    by (rule ev_Suc, simp add: parse_primary_step_def assms(2), rule ev_Inr_bind [OF assms(1)])
      (simp add: assms(3))
  then show ?thesis using assms(4) by (rule postfix_primary)
qed

lemma node_level_le: "wf_node e \<Longrightarrow> node_level e \<le> 7"
  using op_level_bound by (cases e) (fastforce intro: less_imp_le)+

lemma core_at:
  assumes "core e" "wf_node e" "map tval us = body a e" "is_struct e \<longrightarrow> a"
    "l \<le> node_level e" "l < 6" "stop (Suc l) a rest" "ev (\<lambda>f. bin_loop f l a e rest) r"
  shows "ev (\<lambda>f. parse_binary f l a (us @ rest)) r"
proof -
  note C = coreD [OF assms(1,3,4)]
  consider "node_level e = 7" | "node_level e = 6" | "node_level e < 6"
    using node_level_le [OF assms(2)] by linarith
  then show ?thesis
  proof cases
    case 1
    have "opens False (map tval us)" using body_opens [OF assms(2), of a] 1 assms(3) by simp
    from postfix_reads(2) [OF this C(1) [OF 1] assms(6,7,8)] show ?thesis .
  next
    case 2
    have "stop 6 a rest" by (rule stop_mono [OF assms(7)]) (use assms(6) in simp)
    from run_levels [OF run_unary [OF C(2) [OF 2 this]] _ _ assms(7)] assms(6,8)
    show ?thesis by (intro run_down [OF assms(6)]) simp_all
  next
    case 3
    show ?thesis
    proof (cases "node_level e = l")
      case True
      then show ?thesis using C(3) [OF 3] assms(7,8) by simp
    next
      case False
      with assms(5) have l: "Suc l \<le> node_level e" by simp
      have s: "stop k a rest" if "Suc l \<le> k" for k using assms(7) that by (rule stop_mono)
      have "ev (\<lambda>f. parse_binary f (node_level e) a (us @ rest)) (Inr (e, rest))"
        by (rule C(3) [OF 3 s bin_loop_stop [OF 3 s]]) (use l in simp_all)
      from run_levels [OF this _ l s] 3 assms(6,8) show ?thesis
        by (intro run_down [OF assms(6)]) simp_all
    qed
  qed
qed

lemma show_cases:
  assumes "vs = show_node l a e"
  obtains "vs = TSym ''('' # body True e @ [TSym '')'']"
    | "vs = body a e" "l \<le> node_level e" "is_struct e \<longrightarrow> a"
  using assms by (auto simp: show_node_def parens_def simp del: show_folds split: if_splits)

lemma core_reads:
  assumes "core e" "wf_node e"
  shows "reads e"
proof -
  have opens7: "opens False (map tval us)" if "map tval us = body a e" "node_level e = 7" for us a
    using body_opens [OF assms(2), of a] that by simp
  have paren: "ev (\<lambda>f. parse_postfix f a (us @ rest)) r"
    if us: "map tval us = TSym ''('' # body True e @ [TSym '')'']" and "ev (\<lambda>f. post_loop f e rest) r"
    for us a rest r
  proof -
    from us obtain t vs c where vs: "us = t # vs @ [c]" "t_val t = TSym ''(''" "map tval vs = body True e"
      "t_val c = TSym '')''"
      by (auto simp: split_toks simp del: show_folds)
    have "ev (\<lambda>f. parse_binary f 0 True (vs @ c # rest)) (Inr (e, c # rest))"
      using vs(4) by (intro core_at [OF assms vs(3)] bin_loop_stop stop_closing(2)) simp_all
    from primary_paren [OF this vs(2,4) that(2)] show ?thesis by (simp add: vs(1))
  qed
  have opensp: "opens False (map tval us)" if "map tval us = TSym ''('' # body True e @ [TSym '')'']" for us
    unfolding that by (simp add: opens_def opener_def)
  show ?thesis unfolding reads_def
  proof (intro allI conjI impI)
    fix a us rest r
    assume a: "map tval us = show_node 7 a e" "no_brace a rest" "ev (\<lambda>f. post_loop f e rest) r"
    from show_cases [OF a(1)] show "ev (\<lambda>f. parse_postfix f a (us @ rest)) r"
    proof cases
      case 1
      then show ?thesis using a(3) by (intro paren)
    next
      case 2
      then have "node_level e = 7" using node_level_le [OF assms(2)] by simp
      with 2 show ?thesis using a(2,3) by (intro coreD(1) [OF assms(1)]) simp_all
    qed
  next
    fix a us rest
    assume a: "map tval us = show_node 6 a e" "stop 6 a rest"
    show "ev (\<lambda>f. parse_unary f a (us @ rest)) (Inr (e, rest))"
      using show_cases [OF a(1)]
    proof cases
      case 1
      then show ?thesis using a(2) by (intro postfix_reads(1) opensp paren)
    next
      case 2
      show ?thesis
      proof (cases "node_level e = 7")
        case True
        with 2 a(2) show ?thesis by (intro postfix_reads(1) opens7 coreD(1) [OF assms(1)]) simp_all
      next
        case False
        with 2 a(2) node_level_le [OF assms(2)] show ?thesis by (intro coreD(2) [OF assms(1)]) simp_all
      qed
    qed
  next
    fix a us rest l r
    assume a: "l < 6" "map tval us = show_node l a e" "stop (Suc l) a rest" "ev (\<lambda>f. bin_loop f l a e rest) r"
    from show_cases [OF a(2)] show "ev (\<lambda>f. parse_binary f l a (us @ rest)) r"
    proof cases
      case 1
      show ?thesis by (intro postfix_reads(2) [OF opensp [OF 1] paren [OF 1] a(1,3,4)])
    next
      case 2
      with a show ?thesis by (intro core_at [OF assms]) simp_all
    qed
  qed
qed

text \<open>The loop of the postfix operators.\<close>

lemma post_field:
  assumes "t_val t = TSym ''.''" "t_val u = TIdent x" "name_ok x" "no_brace a rest"
    "ev (\<lambda>f. post_loop f (NField e x) rest) r"
  shows "ev (\<lambda>f. post_loop f e (t # u # rest)) r"
proof -
  obtain v vs where "rest = v # vs" "t_val v \<noteq> TSym ''(''"
    using assms(4) by (cases rest) (auto simp: no_brace_def)
  then show ?thesis using assms(1,2,3,5) by (intro ev_Suc [of "\<lambda>f. post_loop f e _"]) (simp add: post_loop_step_def)
qed

lemma post_field_call:
  assumes "t_val t = TSym ''.''" "t_val u = TIdent x" "name_ok x" "t_val v = TSym ''(''"
    "ev (\<lambda>f. comma_list (parse_binary f 0 True) '')'' f ts) (Inr (as, rest))"
    "ev (\<lambda>f. post_loop f (NFieldCall e x as) rest) r"
  shows "ev (\<lambda>f. post_loop f e (t # u # v # ts)) r"
  by (rule ev_Suc) (use assms in \<open>simp add: post_loop_step_def ev_Inr_bind\<close>)

lemma post_call:
  assumes "t_val v = TSym ''(''" "ev (\<lambda>f. comma_list (parse_binary f 0 True) '')'' f ts) (Inr (as, rest))"
    "ev (\<lambda>f. post_loop f (NCall x as) rest) r"
  shows "ev (\<lambda>f. post_loop f (NIdent x) (v # ts)) r"
  by (rule ev_Suc) (use assms in \<open>simp add: post_loop_step_def ev_Inr_bind\<close>)

lemma post_index:
  assumes "t_val t = TSym ''[''" "indexable e" "ev (\<lambda>f. parse_binary f 0 True ts) (Inr (i, c # rest))"
    "t_val c = TSym '']''" "ev (\<lambda>f. post_loop f (NIndex e i) rest) r"
  shows "ev (\<lambda>f. post_loop f e (t # ts)) r"
  by (rule ev_Suc, simp add: post_loop_step_def assms(1,2), rule ev_Inr_bind [OF assms(3)])
    (simp add: assms(4,5))

lemma post_qmark:
  assumes "t_val t = TSym ''?''" "ev (\<lambda>f. post_loop f (NQmark e) rest) r"
  shows "ev (\<lambda>f. post_loop f e (t # rest)) r"
  by (rule ev_Suc) (use assms in \<open>cases e; simp add: post_loop_step_def\<close>)

text \<open>Items.\<close>

lemma item_node:
  assumes "reads e" "wf_node e" "close \<in> {'')'', '']''}"
  shows "ev_item (\<lambda>f. parse_binary f 0 True) close (body True e) e"
proof -
  have "opens True (body True e)" using show_opens [OF assms(2), of 0 True] by simp
  then have "body True e \<noteq> [] \<and> hd (body True e) \<noteq> TSym close"
    using assms(3) by (auto simp: opens_def opener_def simp del: show_folds)
  moreover have "ev (\<lambda>f. parse_binary f 0 True (us @ t # r)) (Inr (e, t # r))"
    if "map tval us = body True e" "t_val t \<in> {TSym '','', TSym close}" for us t r
    using that assms(3) by (intro reads_at [OF assms(1)]) (auto intro: stop_closing)
  ultimately show ?thesis unfolding ev_item_def by blast
qed

lemma items_nodes:
  assumes "\<forall>e \<in> set es. reads e \<and> wf_node e" "close \<in> {'')'', '']''}" "t_val t = TSym close"
    "map tval us = commas (map (body True) es)"
  shows "ev (\<lambda>f. comma_list (parse_binary f 0 True) close f (us @ t # rest)) (Inr (es, rest))"
proof (rule ev_comma_list [OF _ _ assms(3,4)])
  show "list_all2 (ev_item (\<lambda>f. parse_binary f 0 True) close) (map (body True) es) es"
    using item_node [OF _ _ assms(2)] assms(1)
    by (auto simp: list_all2_map1 list_all2_same simp del: show_folds)
qed (use assms(2) in auto)

lemma item_field:
  assumes "reads e" "name_ok n"
  shows "ev_item parse_field_init ''}'' (TIdent n # TSym '':'' # body True e) (n, e)"
proof -
  have "ev (\<lambda>f. parse_field_init f (us @ t # r)) (Inr ((n, e), t # r))"
    if us: "map tval us = TIdent n # TSym '':'' # body True e" and t: "t_val t \<in> {TSym '','', TSym ''}''}"
    for us t r
  proof -
    from us obtain u c vs where vs: "us = u # c # vs" "t_val u = TIdent n" "t_val c = TSym '':''"
      "map tval vs = show_node 0 True e"
      by (auto simp: split_toks)
    have "ev (\<lambda>f. parse_binary f 0 True (vs @ t # r)) (Inr (e, t # r))"
      using t by (intro reads_at [OF assms(1) _ vs(4)]) (auto intro: stop_closing)
    then show ?thesis
      by (intro ev_Suc [of "\<lambda>f. parse_field_init f _"])
        (simp add: vs parse_field_init_step_def assms(2) ev_Inr_bind)
  qed
  then show ?thesis by (simp add: ev_item_def)
qed

lemma binding_runs:
  assumes "name_ok b" "t_val t = TIdent b"
  shows "parse_binding (t # r) = Inr (b, r)"
  using assms by (cases "b = ''_''") (simp_all add: parse_binding_def)

lemma pattern_runs:
  assumes "wf_pattern pt" "map tval us = show_pattern pt" "t_val t = TSym ''=>''"
  shows "ev (\<lambda>f. parse_pattern f (us @ t # r)) (Inr (pt, t # r))"
proof (cases pt)
  case Wildcard
  with assms show ?thesis by (auto simp: show_pattern_def split_toks parse_pattern_def)
next
  case (VariantPat en vn bs paren)
  have b: "ev (\<lambda>f. parse_bindings f en vn (ws @ t # r)) (Inr (pt, t # r))"
    if "map tval ws = (if paren then TSym ''('' # commas (map (\<lambda>b. [TIdent b]) bs) @ [TSym '')''] else [])" for ws
  proof (cases paren)
    case True
    with that obtain o1 vs c where ws: "ws = o1 # vs @ [c]" "t_val o1 = TSym ''(''" "t_val c = TSym '')''"
      "map tval vs = commas (map (\<lambda>b. [TIdent b]) bs)"
      by (auto simp: split_toks)
    have "ev_item (\<lambda>f. parse_binding) '')'' [TIdent b] b" if "b \<in> set bs" for b
      using that assms(1) VariantPat binding_runs [of b]
      by (auto simp: ev_item_def wf_pattern_def split_toks)
    then have "list_all2 (ev_item (\<lambda>f. parse_binding) '')'') (map (\<lambda>b. [TIdent b]) bs) bs"
      by (simp add: list_all2_map1 list_all2_same)
    from ev_comma_list [OF this _ ws(3,4)]
    have "ev (\<lambda>f. comma_list parse_binding '')'' f (vs @ c # t # r)) (Inr (bs, t # r))" by simp
    then show ?thesis using True ws(2) by (simp add: ws(1) parse_bindings_def ev_Inr_bind VariantPat)
  next
    case False
    with that assms(1,3) show ?thesis
      by (simp add: parse_bindings_def VariantPat wf_pattern_def)
  qed
  show ?thesis
  proof (cases "en = []")
    case True
    with assms(2) VariantPat obtain u ws where u: "us = u # ws" "t_val u = TIdent vn"
      "map tval ws = (if paren then TSym ''('' # commas (map (\<lambda>b. [TIdent b]) bs) @ [TSym '')''] else [])"
      by (auto simp: show_pattern_def split_toks)
    have n: "name_ok vn" "vn \<noteq> ''_''" using assms(1) VariantPat True by (auto simp: wf_pattern_def)
    obtain v vs where v: "ws @ t # r = v # vs" "t_val v \<noteq> TSym ''.''"
      using u(3) assms(3) by (cases ws) (auto split: if_splits)
    show ?thesis using b [OF u(3)] n u(2) v(2) True
      by (simp add: u(1) parse_pattern_def v(1))
  next
    case False
    with assms(2) VariantPat obtain u d w ws where u: "us = u # d # w # ws" "t_val u = TIdent en"
      "t_val d = TSym ''.''" "t_val w = TIdent vn"
      "map tval ws = (if paren then TSym ''('' # commas (map (\<lambda>b. [TIdent b]) bs) @ [TSym '')''] else [])"
      by (auto simp: show_pattern_def split_toks)
    have n: "name_ok vn" "name_ok en" "en \<noteq> ''_''" using assms(1) VariantPat False by (auto simp: wf_pattern_def)
    show ?thesis using b [OF u(5)] n u(2,3,4) by (simp add: u(1) parse_pattern_def)
  qed
qed

lemma item_arm:
  assumes "reads b" "wf_pattern pt"
  shows "ev_item parse_arm ''}'' (show_pattern pt @ TSym ''=>'' # body True b) (pt, b)"
proof -
  have "ev (\<lambda>f. parse_arm f (us @ t # r)) (Inr ((pt, b), t # r))"
    if us: "map tval us = show_pattern pt @ TSym ''=>'' # body True b"
      and t: "t_val t \<in> {TSym '','', TSym ''}''}" for us t r
  proof -
    from us obtain ps c vs where vs: "us = ps @ c # vs" "map tval ps = show_pattern pt" "t_val c = TSym ''=>''"
      "map tval vs = show_node 0 True b"
      by (auto simp: split_toks)
    have "ev (\<lambda>f. parse_binary f 0 True (vs @ t # r)) (Inr (b, t # r))"
      using t by (intro reads_at [OF assms(1) _ vs(4)]) (auto intro: stop_closing)
    then have "ev (\<lambda>f. bindE (parse_binary f 0 True (vs @ t # r)) (\<lambda>(e, ts). Inr ((pt, e), ts)))
        (Inr ((pt, b), t # r))"
      by (rule ev_Inr_bind) simp
    then show ?thesis
      by (intro ev_Suc [of "\<lambda>f. parse_arm f _"], simp only: parsers_Suc parse_arm_step_def vs(1) append_assoc append_Cons)
        (rule ev_Inr_bind [OF pattern_runs [OF assms(2) vs(2,3)]], simp add: vs(3))
  qed
  moreover have "show_pattern pt \<noteq> []" "hd (show_pattern pt) \<noteq> TSym ''}''"
    by (auto simp: show_pattern_def split: pattern.split)
  ultimately show ?thesis by (simp add: ev_item_def)
qed

text \<open>Each constructor, from its parts.\<close>

lemma core_atom:
  assumes "node_level e = 7" "\<And>a. body a e = [v]"
    "\<And>a t rest. tval t = v \<Longrightarrow> no_brace a rest \<Longrightarrow> ev (\<lambda>f. parse_primary f a (t # rest)) (Inr (e, rest))"
  shows "core e"
  using assms(1)
proof (rule core7I)
  fix a us rest r
  assume "map tval us = body a e" "no_brace a rest" "ev (\<lambda>f. post_loop f e rest) r"
  then show "ev (\<lambda>f. parse_postfix f a (us @ rest)) r"
    using postfix_primary [OF assms(3)] by (auto simp: assms(2) map_tval_Cons simp del: show_folds)
qed

lemma primary_int: "tval t = TInt n [] \<Longrightarrow> int n \<le> 2 ^ 63 \<Longrightarrow>
    ev (\<lambda>f. parse_primary f a (t # rest)) (Inr (NInt (int n), rest))"
  by (rule ev_Suc) (auto simp: parse_primary_step_def)

lemma core_int:
  assumes "0 \<le> v" "v \<le> 2 ^ 63"
  shows "core (NInt v)"
  by (rule core_atom) (use assms primary_int [of _ "nat v"] in auto)

lemma unary_run:
  assumes "t_val t = TSym op" "op \<in> {''!'', ''-''}" "ev (\<lambda>f. parse_unary f a ts) (Inr (e, rest))"
  shows "ev (\<lambda>f. parse_unary f a (t # ts)) (Inr (fold_minus op e, rest))"
  by (rule ev_Suc) (use assms in \<open>auto simp: parse_unary_step_def intro: ev_Inr_bind\<close>)

lemma core_min: "core (NInt INT64_MIN)"
proof (rule core6I)
  fix a us rest
  assume "map tval us = body a (NInt INT64_MIN)" "stop 6 a rest"
  then obtain t u where us: "us = [t, u]" "t_val t = TSym ''-''" "map tval [u] = show_node 6 a (NInt (2 ^ 63))"
    by (auto simp: INT64_MIN_def show_node_def parens_def split_toks)
  have "reads (NInt (2 ^ 63))" by (rule core_reads [OF core_int]) simp_all
  from readsD(2) [OF this us(3)] \<open>stop 6 a rest\<close>
  have "ev (\<lambda>f. parse_unary f a (u # rest)) (Inr (NInt (2 ^ 63), rest))" by simp
  from unary_run [OF us(2) _ this] show "ev (\<lambda>f. parse_unary f a (us @ rest)) (Inr (NInt INT64_MIN, rest))"
    by (simp add: us(1) fold_minus_def)
qed (simp_all add: INT64_MIN_def)

lemma core_un:
  assumes "reads e" "op \<in> {''!'', ''-''}" "op = ''-'' \<longrightarrow> e \<noteq> NInt (2 ^ 63)"
  shows "core (NUn op e)"
proof (rule core6I)
  fix a us rest
  assume "map tval us = body a (NUn op e)" "stop 6 a rest"
  then obtain t vs where us: "us = t # vs" "t_val t = TSym op" "map tval vs = show_node 6 a e"
    by (auto simp: split_toks)
  have "fold_minus op e = NUn op e" using assms(3) by (auto simp: fold_minus_def)
  with unary_run [OF us(2) assms(2) readsD(2) [OF assms(1) us(3) \<open>stop 6 a rest\<close>]]
  show "ev (\<lambda>f. parse_unary f a (us @ rest)) (Inr (NUn op e, rest))"
    by (simp add: us(1))
qed simp_all

lemma core_bin:
  assumes "reads l" "reads r" "\<exists>ops \<in> set BIN_LEVELS. op \<in> set ops"
  shows "core (NBin op l r)"
proof -
  have k: "op_level op < 6" using assms(3) by (rule op_level_bound)
  have "ev (\<lambda>f. parse_binary f (op_level op) a (us @ rest)) s"
    if us: "map tval us = body a (NBin op l r)" and st: "stop (Suc (op_level op)) a rest"
      and c: "ev (\<lambda>f. bin_loop f (op_level op) a (NBin op l r) rest) s" for a us rest s
  proof -
    from us obtain vs t ws where us: "us = vs @ t # ws" "map tval vs = show_node (op_level op) a l"
      "t_val t = TSym op" "map tval ws = show_node (Suc (op_level op)) a r"
      by (auto simp: split_toks)
    have "ev (\<lambda>f. parse_binary f (Suc (op_level op)) a (ws @ rest)) (Inr (r, rest))"
      using k by (intro reads_at [OF assms(2) _ us(4) st]) simp
    from bin_loop_op [OF k us(3) refl this c]
    have "ev (\<lambda>f. bin_loop f (op_level op) a l (t # ws @ rest)) s" .
    from readsD(3) [OF assms(1) k us(2) stop_op [OF us(3) k] this]
    show ?thesis by (simp add: us(1))
  qed
  then show ?thesis using k by (simp add: core_def)
qed

lemma core_call:
  assumes "\<forall>e \<in> set as. reads e \<and> wf_node e"
  shows "core (NCall x as)"
proof (rule core7I)
  fix a us rest r
  assume us: "map tval us = body a (NCall x as)" and c: "ev (\<lambda>f. post_loop f (NCall x as) rest) r"
  from us obtain t u vs w where us: "us = t # u # vs @ [w]" "t_val t = TIdent x" "t_val u = TSym ''(''"
    "map tval vs = commas (map (body True) as)" "t_val w = TSym '')''"
    by (auto simp: split_toks simp del: show_folds)
  have "ev (\<lambda>f. parse_primary f a (t # u # vs @ w # rest)) (Inr (NIdent x, u # vs @ w # rest))"
    by (rule ev_Suc) (simp add: parse_primary_step_def us)
  from postfix_primary [OF this post_call [OF us(3) items_nodes [OF assms _ us(5,4)] c]]
  show "ev (\<lambda>f. parse_postfix f a (us @ rest)) r" by (simp add: us(1))
qed simp

lemma core_field:
  assumes "reads e" "name_ok x"
  shows "core (NField e x)"
proof (rule core7I)
  fix a us rest r
  assume us: "map tval us = body a (NField e x)" and b: "no_brace a rest"
    and c: "ev (\<lambda>f. post_loop f (NField e x) rest) r"
  from us obtain vs t u where us: "us = vs @ [t, u]" "map tval vs = show_node 7 a e" "t_val t = TSym ''.''"
    "t_val u = TIdent x"
    by (auto simp: split_toks)
  from readsD(1) [OF assms(1) us(2) _ post_field [OF us(3,4) assms(2) b c]]
  show "ev (\<lambda>f. parse_postfix f a (us @ rest)) r" by (simp add: us(1,3) no_brace_def)
qed simp

lemma core_field_call:
  assumes "reads e" "name_ok x" "\<forall>e \<in> set as. reads e \<and> wf_node e"
  shows "core (NFieldCall e x as)"
proof (rule core7I)
  fix a us rest r
  assume us: "map tval us = body a (NFieldCall e x as)" and c: "ev (\<lambda>f. post_loop f (NFieldCall e x as) rest) r"
  from us obtain vs t u v ws w where us: "us = vs @ t # u # v # ws @ [w]"
    "map tval vs = parens (node_level e < 7 \<or> is_struct e \<and> \<not> a) (\<lambda>a. body a e) a" "t_val t = TSym ''.''"
    "t_val u = TIdent x" "t_val v = TSym ''(''" "map tval ws = commas (map (body True) as)" "t_val w = TSym '')''"
    by (auto simp: split_toks simp del: show_folds)
  note e = us(2) [unfolded show_folds(1)]
  from readsD(1) [OF assms(1) e _ post_field_call [OF us(3,4) assms(2) us(5) items_nodes [OF assms(3) _ us(7,6)] c]]
  show "ev (\<lambda>f. parse_postfix f a (us @ rest)) r" by (simp add: us(1,3) no_brace_def)
qed simp

lemma core_index:
  assumes "reads e" "reads i" "indexable e"
  shows "core (NIndex e i)"
proof (rule core7I)
  fix a us rest r
  assume us: "map tval us = body a (NIndex e i)" and c: "ev (\<lambda>f. post_loop f (NIndex e i) rest) r"
  from us obtain vs t ws w where us: "us = vs @ t # ws @ [w]" "map tval vs = show_node 7 a e"
    "t_val t = TSym ''[''" "map tval ws = show_node 0 True i" "t_val w = TSym '']''"
    by (auto simp: split_toks)
  have "ev (\<lambda>f. parse_binary f 0 True (ws @ w # rest)) (Inr (i, w # rest))"
    using us(5) by (intro reads_at [OF assms(2) _ us(4)]) (auto intro: stop_closing)
  from readsD(1) [OF assms(1) us(2) _ post_index [OF us(3) assms(3) this us(5) c]]
  show "ev (\<lambda>f. parse_postfix f a (us @ rest)) r" by (simp add: us(1,3) no_brace_def)
qed simp

lemma core_qmark:
  assumes "reads e"
  shows "core (NQmark e)"
proof (rule core7I)
  fix a us rest r
  assume us: "map tval us = body a (NQmark e)" and c: "ev (\<lambda>f. post_loop f (NQmark e) rest) r"
  from us obtain vs t where us: "us = vs @ [t]" "map tval vs = show_node 7 a e" "t_val t = TSym ''?''"
    by (auto simp: split_toks)
  from readsD(1) [OF assms us(2) _ post_qmark [OF us(3) c]]
  show "ev (\<lambda>f. parse_postfix f a (us @ rest)) r" by (simp add: us(1,3) no_brace_def)
qed simp

lemma core_list:
  assumes "\<forall>e \<in> set es. reads e \<and> wf_node e"
  shows "core (NList es)"
proof (rule core7I)
  fix a us rest r
  assume us: "map tval us = body a (NList es)" and c: "ev (\<lambda>f. post_loop f (NList es) rest) r"
  from us obtain t vs w where us: "us = t # vs @ [w]" "t_val t = TSym ''[''"
    "map tval vs = commas (map (body True) es)" "t_val w = TSym '']''"
    by (auto simp: split_toks simp del: show_folds)
  have "ev (\<lambda>f. parse_primary f a (t # vs @ w # rest)) (Inr (NList es, rest))"
    by (rule ev_Suc, simp add: parse_primary_step_def us(2), rule ev_Inr_bind [OF items_nodes [OF assms _ us(4,3)]])
      simp_all
  from postfix_primary [OF this c] show "ev (\<lambda>f. parse_postfix f a (us @ rest)) r" by (simp add: us(1))
qed simp

lemma core_struct:
  assumes "\<forall>(n, e) \<in> set fs. name_ok n \<and> reads e"
  shows "core (NStruct x fs)"
proof (rule core7I)
  fix a us rest r
  assume us: "map tval us = body a (NStruct x fs)" and a: "is_struct (NStruct x fs) \<Longrightarrow> a"
    and c: "ev (\<lambda>f. post_loop f (NStruct x fs) rest) r"
  let ?show = "\<lambda>(n, e). TIdent n # TSym '':'' # body True e"
  from us obtain t u vs w where us: "us = t # u # vs @ [w]" "t_val t = TIdent x" "t_val u = TSym ''{''"
    "map tval vs = commas (map ?show fs)" "t_val w = TSym ''}''"
    by (auto simp: split_toks simp del: show_folds)
  have "list_all2 (ev_item parse_field_init ''}'') (map ?show fs) fs"
    using assms item_field by (auto simp: list_all2_map1 list_all2_same simp del: show_folds)
  from ev_comma_list [OF this _ us(5,4)]
  have "ev (\<lambda>f. comma_list (parse_field_init f) ''}'' f (vs @ w # rest)) (Inr (fs, rest))" by simp
  then have "ev (\<lambda>f. parse_primary f a (t # u # vs @ w # rest)) (Inr (NStruct x fs, rest))"
    by (intro ev_Suc [of "\<lambda>f. parse_primary f a _"]) (use a in \<open>simp add: parse_primary_step_def us(2,3) ev_Inr_bind\<close>)
  from postfix_primary [OF this c] show "ev (\<lambda>f. parse_postfix f a (us @ rest)) r" by (simp add: us(1))
qed simp

lemma core_match:
  assumes "reads e" "\<forall>(pt, b) \<in> set arms. wf_pattern pt \<and> reads b"
  shows "core (NMatch e arms)"
proof (rule core7I)
  fix a us rest r
  assume us: "map tval us = body a (NMatch e arms)" and c: "ev (\<lambda>f. post_loop f (NMatch e arms) rest) r"
  let ?show = "\<lambda>(pt, b). show_pattern pt @ TSym ''=>'' # body True b"
  from us obtain t ss u vs w where us: "us = t # ss @ u # vs @ [w]" "t_val t = TKw ''match''"
    "map tval ss = parens (is_struct e) (\<lambda>a. body a e) False" "t_val u = TSym ''{''"
    "map tval vs = commas (map ?show arms)" "t_val w = TSym ''}''"
    by (auto simp: split_toks simp del: show_folds)
  have "list_all2 (ev_item parse_arm ''}'') (map ?show arms) arms"
    using assms(2) item_arm by (auto simp: list_all2_map1 list_all2_same simp del: show_folds)
  from ev_comma_list [OF this _ us(6,5)]
  have arms: "ev (\<lambda>f. comma_list (parse_arm f) ''}'' f (vs @ w # rest)) (Inr (arms, rest))" by simp
  have scrut: "ev (\<lambda>f. parse_binary f 0 False (ss @ u # vs @ w # rest)) (Inr (e, u # vs @ w # rest))"
    by (rule reads_at [OF assms(1) _ us(3) [unfolded show_folds(2)] stop_closing(5) [OF us(4)]]) simp
  have "ev (\<lambda>f. parse_match f (t # ss @ u # vs @ w # rest)) (Inr (NMatch e arms, rest))"
    by (rule ev_Suc, simp add: parse_match_step_def us(2), rule ev_Inr_bind [OF scrut])
      (simp add: us(4), rule ev_Inr_bind [OF arms], simp)
  then have "ev (\<lambda>f. parse_primary f a (t # ss @ u # vs @ w # rest)) (Inr (NMatch e arms, rest))"
    by (intro ev_Suc [of "\<lambda>f. parse_primary f a _"]) (simp add: parse_primary_step_def us(2))
  from postfix_primary [OF this c] show "ev (\<lambda>f. parse_postfix f a (us @ rest)) r" by (simp add: us(1))
qed simp

lemma wf_core: "wf_node e \<Longrightarrow> core e \<and> reads e"
proof (induction e)
  case (NInt v)
  then have "core (NInt v)" using core_int core_min by auto
  then show ?case using NInt core_reads by blast
next
  case (NIdent x)
  have "ev (\<lambda>f. parse_primary f a (t # rest)) (Inr (NIdent x, rest))"
    if "tval t = TIdent x" "no_brace a rest" for a t rest
    by (rule ev_Suc) (use that in \<open>cases rest; auto simp: parse_primary_step_def no_brace_def\<close>)
  then have "core (NIdent x)" by (intro core_atom [where v = "TIdent x"]) simp_all
  then show ?case using NIdent core_reads by blast
next
  case (NStruct x fs)
  have "name_ok n \<and> reads e" if "(n, e) \<in> set fs" for n e
    using NStruct.IH [OF that] NStruct.prems that by fastforce
  then have "core (NStruct x fs)" by (intro core_struct) auto
  then show ?case using NStruct.prems core_reads by blast
next
  case (NMatch e arms)
  have "wf_pattern pt \<and> reads b" if "(pt, b) \<in> set arms" for pt b
    using NMatch.IH(2) [OF that] NMatch.prems that by fastforce
  then have "core (NMatch e arms)" using NMatch by (intro core_match) auto
  then show ?case using NMatch.prems core_reads by blast
next
  case (NCall x as)
  then have "core (NCall x as)" by (intro core_call) auto
  then show ?case using NCall.prems core_reads by blast
next
  case (NFieldCall e x as)
  then have "core (NFieldCall e x as)" by (intro core_field_call) auto
  then show ?case using NFieldCall.prems core_reads by blast
next
  case (NList es)
  then have "core (NList es)" by (intro core_list) auto
  then show ?case using NList.prems core_reads by blast
next
  case (NFloat w)
  have "core (NFloat w)" by (rule core_atom [where v = "TFloat w []"]) (auto simp: parse_primary_step_def intro!: ev_Suc [of "\<lambda>f. parse_primary f _ _"])
  then show ?case using core_reads by simp
next
  case (NStr w)
  have "core (NStr w)" by (rule core_atom [where v = "TStr w"]) (auto simp: parse_primary_step_def intro!: ev_Suc [of "\<lambda>f. parse_primary f _ _"])
  then show ?case using core_reads by simp
next
  case (NBool b)
  have "core (NBool b)"
    by (rule core_atom [where v = "TKw (if b then ''true'' else ''false'')"]) (auto simp: parse_primary_step_def intro!: ev_Suc [of "\<lambda>f. parse_primary f _ _"])
  then show ?case using core_reads by simp
next
  case (NBin op l r)
  then have "core (NBin op l r)" by (intro core_bin) auto
  then show ?case using NBin.prems core_reads by blast
next
  case (NUn op e)
  then have "core (NUn op e)" by (intro core_un) auto
  then show ?case using NUn.prems core_reads by blast
next
  case (NField e x)
  then have "core (NField e x)" by (intro core_field) auto
  then show ?case using NField.prems core_reads by blast
next
  case (NIndex e i)
  then have "core (NIndex e i)" by (intro core_index) auto
  then show ?case using NIndex.prems core_reads by blast
next
  case (NQmark e)
  then have "core (NQmark e)" by (intro core_qmark) auto
  then show ?case using NQmark.prems core_reads by blast
qed

lemma parse_shown:
  assumes "wf_node e" "map tval us = show_node 0 a e" "stop 0 a rest" "good (us @ rest)"
  shows "parse_expr a (us @ rest) = Inr (e, rest)"
  by (rule ev_parse_expr [OF reads_at [OF _ _ assms(2,3)] assms(4)]) (use wf_core [OF assms(1)] in simp_all)

end
