(* ===== verification/ParseStmt.thy ===== *)
theory ParseStmt
  imports ParseExpr
begin

text \<open>
  The parser (src/tools/hlinterp/parser.py), second part: refinement clauses, blocks and statements.

  \<open>src\<close> is the source text the tokens came from, used only for the text of a refinement. Python's
  \<open>decode\<close> and \<open>split\<close> on that text are those of ASCII text. A statement is the dict the source
  builds, without its line.
\<close>

section \<open>Loops over items\<close>

text \<open>\<open>while not at_sym(close): item\<close>, without separators, up to and including the closing symbol.\<close>

fun many :: "(token list \<Rightarrow> 'a pres) \<Rightarrow> string \<Rightarrow> nat \<Rightarrow> token list \<Rightarrow> 'a list pres" where
  "many item close 0 ts = Inl PFuel"
| "many item close (Suc n) ts =
     if_sym close (\<lambda>r. Inr ([], r)) (\<lambda>ts.
       bindE (item ts) (\<lambda>(x, ts1).
       bindE (many item close n ts1) (\<lambda>(xs, ts2). Inr (x # xs, ts2)))) ts"

text \<open>The same two loops when an item changes a state that the next one reads.\<close>

fun many_st :: "('s \<Rightarrow> token list \<Rightarrow> 's pres) \<Rightarrow> string \<Rightarrow> nat \<Rightarrow> 's \<Rightarrow> token list \<Rightarrow> 's pres" where
  "many_st item close 0 s ts = Inl PFuel"
| "many_st item close (Suc n) s ts =
     if_sym close (\<lambda>r. Inr (s, r)) (\<lambda>ts.
       bindE (item s ts) (\<lambda>(s1, ts1). many_st item close n s1 ts1)) ts"

definition with_comma :: "('s \<Rightarrow> token list \<Rightarrow> 's pres) \<Rightarrow> string \<Rightarrow> 's \<Rightarrow> token list \<Rightarrow> 's pres" where
  "with_comma item close s ts =
     bindE (item s ts) (\<lambda>(s1, ts1). bindE (comma_sep close ts1) (\<lambda>ts2. Inr (s1, ts2)))"

text \<open>Reading a token of one kind, refused with a message when it is of another.\<close>

definition eat_str :: "string \<Rightarrow> token list \<Rightarrow> bytes pres" where
  "eat_str msg ts =
     (case ts of
        [] \<Rightarrow> Inl PIndex
      | t # r \<Rightarrow> (case t_val t of TStr s \<Rightarrow> Inr (s, r) | _ \<Rightarrow> fail_at t (Refused msg)))"

section \<open>Refinements\<close>

record refine_node =
  r_text :: string
  r_ast :: node
  r_base :: string
  r_where :: token

definition line_offs :: "bytes \<Rightarrow> nat list" where
  "line_offs src = 0 # map Suc (filter (\<lambda>i. src ! i = 10) [0..<length src])"

definition src_off :: "bytes \<Rightarrow> nat \<Rightarrow> nat \<Rightarrow> nat" where
  "src_off src line col =
     (let offs = line_offs src in offs ! (min (max line 1) (length offs) - 1) + (col - 1))"

definition src_text_between :: "bytes \<Rightarrow> token \<Rightarrow> token \<Rightarrow> string" where
  "src_text_between src start stop =
     (let a = src_off src (t_line start) (t_col start); b = src_off src (t_line stop) (t_col stop)
      in decode (drop a (take b src)))"

definition parse_refinement :: "bytes \<Rightarrow> string \<Rightarrow> token list \<Rightarrow> refine_node option pres" where
  "parse_refinement src base ts =
     (case ts of
        [] \<Rightarrow> Inl PIndex
      | wt # r \<Rightarrow>
          if t_val wt \<noteq> TKw ''where'' then Inr (None, ts)
          else
            bindE (peek r) (\<lambda>start.
            bindE (parse_expr False r) (\<lambda>(pred, ts1).
            bindE (peek ts1) (\<lambda>stop.
            if base \<notin> set REFINE_PRIMS
            then fail_at wt (Refused ''refinements are only supported on primitive types'')
            else Inr (Some \<lparr>r_text = join_on '' '' (split_ws (src_text_between src start stop)),
                            r_ast = pred, r_base = base, r_where = wt\<rparr>, ts1)))))"

section \<open>Statements\<close>

record asm_operand =
  ao_dir :: string
  ao_constraint :: bytes
  ao_is_str :: bool
  ao_var :: string
  ao_kind :: string
  ao_expr :: node

record asm_parts =
  ap_operands :: "asm_operand list"
  ap_options :: "string list"
  ap_clobbers :: "bytes list"
  ap_saw_clobber :: bool

datatype pstmt =
    XLet string string bool node bool bool "refine_node option"
      \<comment> \<open>name, type, mut, value, stack, boxed, rpred\<close>
  | XAsm bytes asm_parts
  | XReturn "node option"
  | XIf node "pstmt list" "pstmt list option"
  | XWhile node "pstmt list"
  | XFor string string node "pstmt list"
  | XBreak
  | XContinue
  | XExpr node
  | XAssign node node

subsection \<open>Let\<close>

text \<open>A type, with enough fuel; \<open>parse_let\<close> with the layout flags that \<open>parse_stmt\<close> sets afterwards.\<close>

definition parse_ty :: "bool \<Rightarrow> token list \<Rightarrow> string pres" where
  "parse_ty allow_void ts = parse_type (Suc (length ts)) allow_void ts"

definition parse_let :: "bytes \<Rightarrow> bool \<times> bool \<Rightarrow> token list \<Rightarrow> pstmt pres" where
  "parse_let src flags ts =
     bindE (eat_kw ''let'' ts) (\<lambda>ts1.
     bindE (if_kw ''mut'' (\<lambda>r. Inr (True, r)) (\<lambda>r. Inr (False, r)) ts1) (\<lambda>(is_mut, ts2).
     bindE (eat_ident ts2) (\<lambda>(name, ts3).
     bindE (eat_sym '':'' ts3) (\<lambda>ts4.
     bindE (parse_ty False ts4) (\<lambda>(ty, ts5).
     bindE (parse_refinement src ty ts5) (\<lambda>(lref, ts6).
     bindE (eat_sym ''='' ts6) (\<lambda>ts7.
     bindE (parse_expr True ts7) (\<lambda>(val, ts8).
     Inr (XLet name ty is_mut val (fst flags) (snd flags) lref, ts8)))))))))"

text \<open>The flags \<open>stack\<close> and \<open>boxed\<close> of the attribute lists before a let; \<open>t0\<close> is the list's hash.\<close>

definition let_attr :: "token \<Rightarrow> bool \<times> bool \<Rightarrow> token list \<Rightarrow> (bool \<times> bool) pres" where
  "let_attr t0 flags ts =
     bindE (eat_ident ts) (\<lambda>(name, ts1).
       if name = ''stack'' then
         if snd flags then fail_at t0 (Refused ''mutually exclusive'') else Inr ((True, snd flags), ts1)
       else if name = ''boxed'' then
         if fst flags then fail_at t0 (Refused ''mutually exclusive'') else Inr ((fst flags, True), ts1)
       else if name = ''tail_call'' then fail_at t0 (Refused ''tail_call is a function attribute'')
       else fail_at t0 (Refused ''unknown let-binding attribute''))"

fun parse_let_attrs :: "nat \<Rightarrow> bool \<times> bool \<Rightarrow> token list \<Rightarrow> (bool \<times> bool) pres" where
  "parse_let_attrs 0 flags ts = Inl PFuel"
| "parse_let_attrs (Suc n) flags ts =
     (case ts of
        [] \<Rightarrow> Inl PIndex
      | t0 # r \<Rightarrow>
          if t_val t0 = TSym ''#'' then
            bindE (eat_sym ''['' r) (\<lambda>ts1.
            bindE (many_st (with_comma (let_attr t0) '']'') '']'' n flags ts1) (\<lambda>(flags1, ts2).
            parse_let_attrs n flags1 ts2))
          else Inr (flags, ts))"

subsection \<open>Inline assembly\<close>

definition ASM_OPTIONS :: "string list" where
  "ASM_OPTIONS = [''pure'', ''nomem'', ''noreturn'', ''preserves_flags'', ''nostack'', ''attsyntax'']"

definition asm_option :: "token list \<Rightarrow> string pres" where
  "asm_option ts =
     (let check = (\<lambda>t r opt. if opt \<in> set ASM_OPTIONS then Inr (opt, r)
                            else fail_at t (Refused ''unknown asm! option''))
      in case ts of
           [] \<Rightarrow> Inl PIndex
         | t # r \<Rightarrow>
             (case t_val t of
                TIdent opt \<Rightarrow> check t r opt
              | TKw opt \<Rightarrow> check t r opt
              | x \<Rightarrow> fail_at t (Expected ''an option name'' x)))"

text \<open>The direction of an operand; \<open>in\<close> is a keyword, the others are identifiers.\<close>

definition asm_direction :: "token list \<Rightarrow> string pres" where
  "asm_direction ts =
     if_kw ''in'' (\<lambda>r. Inr (''in'', r))
       (if_ident ''out'' (\<lambda>r. Inr (''out'', r))
         (if_ident ''inout'' (\<lambda>r. Inr (''inout'', r))
           (if_ident ''late_out'' (\<lambda>r. Inr (''late_out'', r)) (expected ''asm! operand direction'')))) ts"

text \<open>A constraint: a string, or a register class by its name.\<close>

definition asm_constraint :: "token list \<Rightarrow> (bytes \<times> bool) pres" where
  "asm_constraint ts =
     (case ts of
        [] \<Rightarrow> Inl PIndex
      | t # r \<Rightarrow>
          (case t_val t of
             TStr s \<Rightarrow> Inr ((s, True), r)
           | TIdent v \<Rightarrow> Inr ((map (\<lambda>c. of_nat (of_char c)) v, False), r)
           | x \<Rightarrow> fail_at t (Expected ''asm! constraint'' x)))"

text \<open>\<open>op_var\<close> and \<open>op_var_kind\<close>; None when the expression cannot be assigned to.\<close>

definition asm_lvalue :: "string \<Rightarrow> node \<Rightarrow> (string \<times> string) option" where
  "asm_lvalue direction e =
     (if direction = ''in'' then Some ('''', '''')
      else case e of
             NIdent x \<Rightarrow> Some (x, ''ident'')
           | NField _ x \<Rightarrow> Some (x, ''field'')
           | NIndex _ _ \<Rightarrow> Some ('''', ''index'')
           | _ \<Rightarrow> None)"

definition parse_operand :: "token list \<Rightarrow> asm_operand pres" where
  "parse_operand ts =
     bindE (asm_direction ts) (\<lambda>(d, ts1).
     bindE (eat_sym ''('' ts1) (\<lambda>ts2.
     bindE (asm_constraint ts2) (\<lambda>(c, ts3).
     bindE (eat_sym '')'' ts3) (\<lambda>ts4.
     bindE (parse_expr True ts4) (\<lambda>(e, ts5).
     case asm_lvalue d e of
       None \<Rightarrow> refuse ''asm! operand must be an lvalue'' ts5
     | Some (x, k) \<Rightarrow>
         Inr (\<lparr>ao_dir = d, ao_constraint = fst c, ao_is_str = snd c, ao_var = x, ao_kind = k,
              ao_expr = e\<rparr>, ts5))))))"

definition asm_clause :: "nat \<Rightarrow> asm_parts \<Rightarrow> token list \<Rightarrow> asm_parts pres" where
  "asm_clause f p ts =
     if_ident ''options'' (\<lambda>r.
       bindE (eat_sym ''('' r) (\<lambda>ts1.
       bindE (comma_list asm_option '')'' f ts1) (\<lambda>(opts, ts2).
       Inr (p\<lparr>ap_options := ap_options p @ opts\<rparr>, ts2))))
     (if_ident ''clobber'' (\<lambda>r.
       if ap_saw_clobber p then refuse ''asm! clobber list appears more than once'' r
       else
         bindE (eat_sym ''('' r) (\<lambda>ts1.
         bindE (comma_list (eat_str ''asm! clobber names must be string literals'') '')'' f ts1) (\<lambda>(cs, ts2).
         Inr (p\<lparr>ap_clobbers := ap_clobbers p @ cs, ap_saw_clobber := True\<rparr>, ts2))))
     (\<lambda>ts.
       bindE (parse_operand ts) (\<lambda>(opd, ts1).
       Inr (p\<lparr>ap_operands := ap_operands p @ [opd]\<rparr>, ts1)))) ts"

fun asm_clauses :: "nat \<Rightarrow> asm_parts \<Rightarrow> token list \<Rightarrow> asm_parts pres" where
  "asm_clauses 0 p ts = Inl PFuel"
| "asm_clauses (Suc n) p ts =
     if_sym '','' (\<lambda>r. bindE (asm_clause n p r) (\<lambda>(p1, ts1). asm_clauses n p1 ts1)) (\<lambda>ts. Inr (p, ts)) ts"

definition no_parts :: asm_parts where
  "no_parts = \<lparr>ap_operands = [], ap_options = [], ap_clobbers = [], ap_saw_clobber = False\<rparr>"

definition parse_asm_stmt :: "nat \<Rightarrow> token list \<Rightarrow> pstmt pres" where
  "parse_asm_stmt f ts =
     bindE (eat_kw ''asm'' ts) (\<lambda>ts1.
     bindE (eat_sym ''!'' ts1) (\<lambda>ts2.
     bindE (eat_sym ''('' ts2) (\<lambda>ts3.
     bindE (eat_str ''asm! template must be a string literal'' ts3) (\<lambda>(template, ts4).
     bindE (asm_clauses f no_parts ts4) (\<lambda>(p, ts5).
     bindE (eat_sym '')'' ts5) (\<lambda>ts6. Inr (XAsm template p, ts6)))))))"

subsection \<open>Blocks and statements\<close>

fun assignable :: "node \<Rightarrow> bool" where
  "assignable (NIdent _) = True"
| "assignable (NField _ _) = True"
| "assignable (NIndex _ _) = True"
| "assignable _ = False"

text \<open>\<open>_require_ident_root\<close>.\<close>

fun ident_root :: "node \<Rightarrow> bool" where
  "ident_root (NField e _) = ident_root e"
| "ident_root (NIndex e _) = ident_root e"
| "ident_root (NIdent _) = True"
| "ident_root _ = False"

text \<open>The kinds of expression that are statements.\<close>

fun callable :: "node \<Rightarrow> bool" where
  "callable (NCall _ _) = True"
| "callable (NFieldCall _ _ _) = True"
| "callable (NMatch _ _) = True"
| "callable (NQmark _) = True"
| "callable _ = False"

text \<open>The expression or assignment at the end of \<open>parse_stmt\<close>.\<close>

definition expr_stmt :: "token list \<Rightarrow> pstmt pres" where
  "expr_stmt ts =
     bindE (parse_expr True ts) (\<lambda>(e, ts1).
     case ts1 of
       [] \<Rightarrow> Inl PIndex
     | eq # r \<Rightarrow>
         if t_val eq = TSym ''='' then
           if \<not> assignable e then fail_at eq (Refused ''left side of assignment must be variable/field/index'')
           else if \<not> ident_root e then refuse ''left side of assignment must start from a variable'' r
           else bindE (parse_expr True r) (\<lambda>(val, ts2). Inr (XAssign e val, ts2))
         else if \<not> callable e then refuse ''expression as statement must be a function/method call'' ts1
         else Inr (XExpr e, ts1))"

text \<open>\<open>parse_match\<close> of a match in statement position.\<close>

definition match_stmt :: "token list \<Rightarrow> pstmt pres" where
  "match_stmt ts = bindE (parse_match (fuel_for ts) ts) (\<lambda>(e, ts1). Inr (XExpr e, ts1))"

definition return_stmt :: "token list \<Rightarrow> pstmt pres" where
  "return_stmt ts =
     if_sym ''}'' (\<lambda>_. Inr (XReturn None, ts))
       (\<lambda>ts. bindE (parse_expr True ts) (\<lambda>(e, ts1). Inr (XReturn (Some e), ts1))) ts"

text \<open>The bodies of the mutually recursive routines: \<open>ps\<close> stands for \<open>parse_stmt\<close>, \<open>pi\<close> for \<open>parse_if\<close>.\<close>

definition parse_block :: "(token list \<Rightarrow> pstmt pres) \<Rightarrow> nat \<Rightarrow> token list \<Rightarrow> pstmt list pres" where
  "parse_block ps f ts = bindE (eat_sym ''{'' ts) (\<lambda>ts1. many ps ''}'' f ts1)"

definition parse_if_step ::
  "(token list \<Rightarrow> pstmt pres) \<Rightarrow> (token list \<Rightarrow> pstmt pres) \<Rightarrow> nat \<Rightarrow> token list \<Rightarrow> pstmt pres" where
  "parse_if_step ps pi f ts =
     bindE (eat_kw ''if'' ts) (\<lambda>ts1.
     bindE (parse_expr False ts1) (\<lambda>(cond, ts2).
     bindE (parse_block ps f ts2) (\<lambda>(thn, ts3).
     if_kw ''else'' (\<lambda>r.
         if_kw ''if'' (\<lambda>_. bindE (pi r) (\<lambda>(s, ts4). Inr (XIf cond thn (Some [s]), ts4)))
           (\<lambda>r. bindE (parse_block ps f r) (\<lambda>(els, ts4). Inr (XIf cond thn (Some els), ts4))) r)
       (\<lambda>ts3. Inr (XIf cond thn None, ts3)) ts3)))"

definition while_stmt :: "(token list \<Rightarrow> pstmt pres) \<Rightarrow> nat \<Rightarrow> token list \<Rightarrow> pstmt pres" where
  "while_stmt ps f ts =
     bindE (parse_expr False ts) (\<lambda>(cond, ts1).
     bindE (parse_block ps f ts1) (\<lambda>(body, ts2). Inr (XWhile cond body, ts2)))"

definition for_stmt :: "(token list \<Rightarrow> pstmt pres) \<Rightarrow> nat \<Rightarrow> token list \<Rightarrow> pstmt pres" where
  "for_stmt ps f ts =
     bindE (eat_ident ts) (\<lambda>(var, ts1).
     bindE (eat_sym '':'' ts1) (\<lambda>ts2.
     bindE (parse_ty False ts2) (\<lambda>(ty, ts3).
     bindE (reject_refinement ts3) (\<lambda>ts4.
     bindE (eat_kw ''in'' ts4) (\<lambda>ts5.
     bindE (parse_expr False ts5) (\<lambda>(it, ts6).
     bindE (parse_block ps f ts6) (\<lambda>(body, ts7). Inr (XFor var ty it body, ts7))))))))"

definition parse_stmt_step ::
  "bytes \<Rightarrow> (token list \<Rightarrow> pstmt pres) \<Rightarrow> (token list \<Rightarrow> pstmt pres) \<Rightarrow> nat \<Rightarrow> token list \<Rightarrow> pstmt pres" where
  "parse_stmt_step src ps pi f ts =
     (case ts of
        [] \<Rightarrow> Inl PIndex
      | t # r \<Rightarrow>
          if t_val t = TSym ''#'' then
            bindE (parse_let_attrs f (False, False) ts) (\<lambda>(flags, ts1).
            if_kw ''let'' (\<lambda>_. parse_let src flags ts1)
              (\<lambda>_. fail_at t (Refused ''#[stack]/#[boxed] attributes apply to a let binding'')) ts1)
          else
            (case t_val t of
               TKw v \<Rightarrow>
                 if v = ''let'' then parse_let src (False, False) ts
                 else if v = ''asm'' then parse_asm_stmt f ts
                 else if v = ''return'' then return_stmt r
                 else if v = ''if'' then pi ts
                 else if v = ''while'' then while_stmt ps f r
                 else if v = ''for'' then for_stmt ps f r
                 else if v = ''break'' then Inr (XBreak, r)
                 else if v = ''continue'' then Inr (XContinue, r)
                 else if v = ''match'' then match_stmt ts
                 else if v \<in> {''struct'', ''impl'', ''enum'', ''fn''}
                 then refuse ''declaration only allowed at top level'' ts
                 else refuse ''keyword cannot start a statement'' ts
             | _ \<Rightarrow> expr_stmt ts))"

text \<open>\<open>parse_stmt\<close> and \<open>parse_if\<close> for the fuel \<open>f\<close>.\<close>

primrec stmt_parsers :: "bytes \<Rightarrow> nat \<Rightarrow> (token list \<Rightarrow> pstmt pres) \<times> (token list \<Rightarrow> pstmt pres)" where
  "stmt_parsers src 0 = ((\<lambda>_. Inl PFuel), (\<lambda>_. Inl PFuel))"
| "stmt_parsers src (Suc f) =
     (let P = stmt_parsers src f in
      (parse_stmt_step src (fst P) (snd P) f, parse_if_step (fst P) (snd P) f))"

abbreviation parse_stmt :: "bytes \<Rightarrow> nat \<Rightarrow> token list \<Rightarrow> pstmt pres" where
  "parse_stmt src f \<equiv> fst (stmt_parsers src f)"

abbreviation parse_if :: "bytes \<Rightarrow> nat \<Rightarrow> token list \<Rightarrow> pstmt pres" where
  "parse_if src f \<equiv> snd (stmt_parsers src f)"

lemma stmt_parsers_Suc [simp]:
  "parse_stmt src (Suc f) = parse_stmt_step src (parse_stmt src f) (parse_if src f) f"
  "parse_if src (Suc f) = parse_if_step (parse_stmt src f) (parse_if src f) f"
  by (simp_all add: Let_def)

declare stmt_parsers.simps [simp del] many.simps [simp del] many_st.simps [simp del]
  parse_let_attrs.simps [simp del] asm_clauses.simps [simp del]

text \<open>The block of a function, with two units of fuel for each token.\<close>

definition stmt_fuel :: "token list \<Rightarrow> nat" where
  "stmt_fuel ts = 2 * length ts + 4"

definition parse_body :: "bytes \<Rightarrow> token list \<Rightarrow> pstmt list pres" where
  "parse_body src ts = parse_block (parse_stmt src (stmt_fuel ts)) (stmt_fuel ts) ts"

end
