(* ===== verification/ParseDecl.thy ===== *)
theory ParseDecl
  imports ParseStmt "HOL-Library.AList"
begin

text \<open>
  The parser (src/tools/hlinterp/parser.py), third part: attributes, declarations and the program.

  A dict is an association list in insertion order. The attribute cache \<open>cur_attrs\<close> is passed from one
  declaration to the next. The texts of string literals are read as ASCII.
\<close>

unbundle bit_operations_syntax

section \<open>Attributes\<close>

definition MAX_SECTION_NAME :: nat where "MAX_SECTION_NAME = 64"

definition MAX_SECTION_ALIGN :: int where "MAX_SECTION_ALIGN = 65536"

definition RESERVED_SECTIONS :: "string list" where
  "RESERVED_SECTIONS = [''.text'', ''.rodata'', ''.data'', ''.bss'', ''.halis.metadata'', ''.halis.sections'']"

definition is_alpha :: "char \<Rightarrow> bool" where
  "is_alpha c \<longleftrightarrow> (code_of CHR ''a'' \<le> code_of c \<and> code_of c \<le> code_of CHR ''z'')
     \<or> (code_of CHR ''A'' \<le> code_of c \<and> code_of c \<le> code_of CHR ''Z'')"

definition section_char :: "char \<Rightarrow> bool" where
  "section_char ch \<longleftrightarrow> ch = CHR ''.'' \<or> ch = CHR ''_'' \<or> ch = CHR ''$'' \<or> is_alpha ch \<or> dec_char ch"

text \<open>The reason a name or an alignment is refused, by the head of its message.\<close>

definition check_section_name :: "string \<Rightarrow> string option" where
  "check_section_name name =
     (if name = [] then Some ''section name is empty''
      else if length name > MAX_SECTION_NAME then Some ''section name is too long''
      else if \<not> (hd name = CHR ''.'' \<or> hd name = CHR ''_'' \<or> is_alpha (hd name))
      then Some ''section name must start with a dot, an underscore or a letter''
      else if \<not> list_all section_char name then Some ''section name may only contain''
      else if contains_str ''..'' name then Some ''section name must not contain two dots''
      else if name \<in> set RESERVED_SECTIONS then Some ''compiler-owned output section''
      else None)"

definition check_section_align :: "int \<Rightarrow> string option" where
  "check_section_align n =
     (if n < 1 then Some ''align must be positive''
      else if n > MAX_SECTION_ALIGN then Some ''align is too large''
      else if n AND (n - 1) \<noteq> 0 then Some ''align must be a power of two''
      else None)"

record fn_attrs =
  at_stack_size :: int
  at_no_red_zone :: bool
  at_irq_handler :: bool
  at_irq_vector :: int
  at_inline :: string
  at_hot :: bool
  at_cold :: bool
  at_tail_call :: bool
  at_panic_handler :: bool
  at_section :: string
  at_align :: int
  at_secrets :: "string list"
  at_ct :: bool
  at_deprecated :: "string option"
  at_taint_source :: bool
  at_taint_sinks :: "string list"

definition reset_cur_attrs :: fn_attrs where
  "reset_cur_attrs = \<lparr>at_stack_size = -1, at_no_red_zone = False, at_irq_handler = False,
     at_irq_vector = -1, at_inline = '''', at_hot = False, at_cold = False, at_tail_call = False,
     at_panic_handler = False, at_section = '''', at_align = -1, at_secrets = [], at_ct = False,
     at_deprecated = None, at_taint_source = False, at_taint_sinks = []\<rparr>"

definition eat_int :: "string \<Rightarrow> token list \<Rightarrow> nat pres" where
  "eat_int msg ts =
     (case ts of
        [] \<Rightarrow> Inl PIndex
      | t # r \<Rightarrow> (case t_val t of TInt n _ \<Rightarrow> Inr (n, r) | x \<Rightarrow> fail_at t (Expected msg x)))"

text \<open>A value in parentheses.\<close>

definition in_parens :: "(token list \<Rightarrow> 'a pres) \<Rightarrow> token list \<Rightarrow> 'a pres" where
  "in_parens p ts =
     bindE (eat_sym ''('' ts) (\<lambda>ts1.
     bindE (p ts1) (\<lambda>(x, ts2).
     bindE (eat_sym '')'' ts2) (\<lambda>ts3. Inr (x, ts3))))"

text \<open>The name list of \<open>secrets\<close> and \<open>taint_sink\<close>: not empty, of identifiers (reserved ones too), without
  repetition.\<close>

definition listed_name :: "string list \<Rightarrow> token list \<Rightarrow> string list pres" where
  "listed_name names ts =
     (case ts of
        [] \<Rightarrow> Inl PIndex
      | t # r \<Rightarrow>
          (case t_val t of
             TIdent n \<Rightarrow>
               if n \<in> set names then fail_at t (Refused ''parameter appears more than once'')
               else Inr (names @ [n], r)
           | x \<Rightarrow> fail_at t (Expected ''parameter names'' x)))"

definition name_list :: "token \<Rightarrow> nat \<Rightarrow> token list \<Rightarrow> string list pres" where
  "name_list t0 f ts =
     bindE (eat_sym ''('' ts) (\<lambda>ts1.
     if_sym '')'' (\<lambda>_. fail_at t0 (Refused ''needs at least one parameter name''))
       (many_st (with_comma listed_name '')'') '')'' f []) ts1)"

definition inline_attr :: "token \<Rightarrow> fn_attrs \<Rightarrow> token list \<Rightarrow> fn_attrs pres" where
  "inline_attr t0 A ts =
     bindE (in_parens eat_ident ts) (\<lambda>(mode, ts1).
       if mode \<notin> {''always'', ''never''} then fail_at t0 (Refused ''unknown inline mode'')
       else if at_inline A \<noteq> '''' \<and> at_inline A \<noteq> mode
       then fail_at t0 (Refused ''conflicting inline attributes'')
       else if mode = ''always'' \<and> at_tail_call A
       then fail_at t0 (Refused ''tail_call and inline(always) are mutually exclusive'')
       else if mode = ''always'' \<and> at_section A \<noteq> ''''
       then fail_at t0 (Refused ''section and inline(always) are mutually exclusive'')
       else Inr (A\<lparr>at_inline := mode\<rparr>, ts1))"

text \<open>The vector of \<open>irq_handler(N)\<close>; errors are reported at the number.\<close>

definition irq_vector_attr :: "fn_attrs \<Rightarrow> token list \<Rightarrow> fn_attrs pres" where
  "irq_vector_attr A ts =
     bindE (peek ts) (\<lambda>vt.
     bindE (eat_int ''an integer interrupt vector'' ts) (\<lambda>(n, ts1).
       if int n < 0 \<or> int n > 255 then fail_at vt (Refused ''interrupt vector is out of range'')
       else
         bindE (eat_sym '')'' ts1) (\<lambda>ts2.
         if at_irq_vector A \<ge> 0 then fail_at vt (Refused ''interrupt vector appears more than once'')
         else Inr (A\<lparr>at_irq_vector := int n\<rparr>, ts2))))"

definition irq_attr :: "token \<Rightarrow> fn_attrs \<Rightarrow> token list \<Rightarrow> fn_attrs pres" where
  "irq_attr t0 A ts =
     bindE (if_sym ''('' (irq_vector_attr A) (\<lambda>ts. Inr (A, ts)) ts) (\<lambda>(A1, ts1).
       if at_tail_call A1 then fail_at t0 (Refused ''tail_call and irq_handler are mutually exclusive'')
       else if at_panic_handler A1
       then fail_at t0 (Refused ''panic_handler and irq_handler are mutually exclusive'')
       else Inr (A1\<lparr>at_irq_handler := True\<rparr>, ts1))"

definition stack_size_attr :: "fn_attrs \<Rightarrow> token list \<Rightarrow> fn_attrs pres" where
  "stack_size_attr A ts =
     bindE (eat_sym ''('' ts) (\<lambda>ts1.
     bindE (peek ts1) (\<lambda>nt.
     bindE (eat_int ''an integer byte count'' ts1) (\<lambda>(n, ts2).
     if int n < 0 then fail_at nt (Refused ''stack_size must be non-negative'')
     else bindE (eat_sym '')'' ts2) (\<lambda>ts3. Inr (A\<lparr>at_stack_size := int n\<rparr>, ts3)))))"

definition section_attr :: "token \<Rightarrow> fn_attrs \<Rightarrow> token list \<Rightarrow> fn_attrs pres" where
  "section_attr t0 A ts =
     (if at_section A \<noteq> '''' then fail_at t0 (Refused ''section attribute appears more than once'')
      else
        bindE (eat_sym ''('' ts) (\<lambda>ts1.
        bindE (peek ts1) (\<lambda>st.
        bindE (eat_str ''section expects a string literal'' ts1) (\<lambda>(s, ts2).
        bindE (eat_sym '')'' ts2) (\<lambda>ts3.
        case check_section_name (decode s) of
          Some why \<Rightarrow> fail_at st (Refused why)
        | None \<Rightarrow>
            if at_inline A = ''always''
            then fail_at t0 (Refused ''section and inline(always) are mutually exclusive'')
            else Inr (A\<lparr>at_section := decode s\<rparr>, ts3))))))"

definition align_attr :: "token \<Rightarrow> fn_attrs \<Rightarrow> token list \<Rightarrow> fn_attrs pres" where
  "align_attr t0 A ts =
     (if at_align A \<ge> 0 then fail_at t0 (Refused ''align attribute appears more than once'')
      else
        bindE (eat_sym ''('' ts) (\<lambda>ts1.
        bindE (peek ts1) (\<lambda>nt.
        bindE (eat_int ''an integer byte count'' ts1) (\<lambda>(n, ts2).
        bindE (eat_sym '')'' ts2) (\<lambda>ts3.
        case check_section_align (int n) of
          Some why \<Rightarrow> fail_at nt (Refused why)
        | None \<Rightarrow> Inr (A\<lparr>at_align := int n\<rparr>, ts3))))))"

definition deprecated_attr :: "token \<Rightarrow> fn_attrs \<Rightarrow> token list \<Rightarrow> fn_attrs pres" where
  "deprecated_attr t0 A ts =
     (if at_deprecated A \<noteq> None then fail_at t0 (Refused ''deprecated attribute appears more than once'')
      else
        if_sym ''('' (\<lambda>r.
            bindE (eat_str ''deprecated expects a string literal message'' r) (\<lambda>(s, ts1).
            bindE (eat_sym '')'' ts1) (\<lambda>ts2. Inr (A\<lparr>at_deprecated := Some (decode s)\<rparr>, ts2))))
          (\<lambda>ts. Inr (A\<lparr>at_deprecated := Some ''''\<rparr>, ts)) ts)"

text \<open>One attribute of a list before a function; \<open>t0\<close> is the list's hash.\<close>

definition fn_attr :: "token \<Rightarrow> nat \<Rightarrow> fn_attrs \<Rightarrow> token list \<Rightarrow> fn_attrs pres" where
  "fn_attr t0 f A ts =
     bindE (eat_ident ts) (\<lambda>(name, r).
       if name = ''inline'' then inline_attr t0 A r
       else if name = ''hot'' then
         if at_cold A then fail_at t0 (Refused ''hot and cold are mutually exclusive'')
         else Inr (A\<lparr>at_hot := True\<rparr>, r)
       else if name = ''cold'' then
         if at_hot A then fail_at t0 (Refused ''hot and cold are mutually exclusive'')
         else Inr (A\<lparr>at_cold := True\<rparr>, r)
       else if name = ''no_red_zone'' then Inr (A\<lparr>at_no_red_zone := True\<rparr>, r)
       else if name = ''irq_handler'' then irq_attr t0 A r
       else if name = ''panic_handler'' then
         if at_irq_handler A
         then fail_at t0 (Refused ''panic_handler and irq_handler are mutually exclusive'')
         else Inr (A\<lparr>at_panic_handler := True\<rparr>, r)
       else if name = ''tail_call'' then
         if at_irq_handler A then fail_at t0 (Refused ''tail_call and irq_handler are mutually exclusive'')
         else if at_inline A = ''always''
         then fail_at t0 (Refused ''tail_call and inline(always) are mutually exclusive'')
         else Inr (A\<lparr>at_tail_call := True\<rparr>, r)
       else if name = ''stack_size'' then stack_size_attr A r
       else if name = ''section'' then section_attr t0 A r
       else if name = ''align'' then align_attr t0 A r
       else if name = ''secrets'' then
         if at_secrets A \<noteq> [] then fail_at t0 (Refused ''secrets attribute appears more than once'')
         else bindE (name_list t0 f r) (\<lambda>(names, ts1). Inr (A\<lparr>at_secrets := names\<rparr>, ts1))
       else if name = ''ct'' then
         if at_ct A then fail_at t0 (Refused ''ct attribute appears more than once'')
         else Inr (A\<lparr>at_ct := True\<rparr>, r)
       else if name = ''deprecated'' then deprecated_attr t0 A r
       else if name \<in> {''taint_source'', ''taint_sink''}
       then fail_at t0 (Refused ''an extern-block attribute'')
       else if name \<in> {''stack'', ''boxed''} then fail_at t0 (Refused ''a let-binding attribute'')
       else fail_at t0 (Refused ''unknown attribute''))"

text \<open>\<open>while at_sym(hash)\<close>: a bracketed, comma-separated list of attributes.\<close>

fun attr_lists ::
  "(token \<Rightarrow> nat \<Rightarrow> fn_attrs \<Rightarrow> token list \<Rightarrow> fn_attrs pres) \<Rightarrow> nat \<Rightarrow> fn_attrs \<Rightarrow> token list \<Rightarrow> fn_attrs pres" where
  "attr_lists attr 0 A ts = Inl PFuel"
| "attr_lists attr (Suc n) A ts =
     (case ts of
        [] \<Rightarrow> Inl PIndex
      | t0 # r \<Rightarrow>
          if t_val t0 = TSym ''#'' then
            bindE (eat_sym ''['' r) (\<lambda>ts1.
            bindE (many_st (with_comma (attr t0 n) '']'') '']'' n A ts1) (\<lambda>(A1, ts2).
            attr_lists attr n A1 ts2))
          else Inr (A, ts))"

definition parse_attributes :: "nat \<Rightarrow> fn_attrs \<Rightarrow> token list \<Rightarrow> fn_attrs pres" where
  "parse_attributes = attr_lists fn_attr"

text \<open>The two attributes allowed inside an extern block.\<close>

definition extern_attr :: "token \<Rightarrow> nat \<Rightarrow> fn_attrs \<Rightarrow> token list \<Rightarrow> fn_attrs pres" where
  "extern_attr t0 f A ts =
     bindE (eat_ident ts) (\<lambda>(name, r).
       if name = ''taint_source'' then
         if at_taint_source A then fail_at t0 (Refused ''taint_source attribute appears more than once'')
         else Inr (A\<lparr>at_taint_source := True\<rparr>, r)
       else if name = ''taint_sink'' then
         if at_taint_sinks A \<noteq> [] then fail_at t0 (Refused ''taint_sink attribute appears more than once'')
         else bindE (name_list t0 f r) (\<lambda>(names, ts1). Inr (A\<lparr>at_taint_sinks := names\<rparr>, ts1))
       else fail_at t0 (Refused ''unknown extern-block attribute''))"

section \<open>Crate attributes\<close>

datatype crate_value = CNone | CSize nat | CPath string | CProtocol string

definition CRATE_ATTRS :: "string list" where
  "CRATE_ATTRS = [''freestanding'', ''no_std'', ''stack_size'', ''link_script'', ''boot_header'']"

definition BOOT_PROTOCOLS :: "string list" where
  "BOOT_PROTOCOLS = [''multiboot2'', ''limine'']"

definition protocol_name :: "token list \<Rightarrow> string pres" where
  "protocol_name ts =
     (case ts of
        [] \<Rightarrow> Inl PIndex
      | t # r \<Rightarrow>
          (case t_val t of
             TIdent v \<Rightarrow>
               if v \<in> set BOOT_PROTOCOLS then Inr (v, r) else fail_at t (Refused ''unknown boot protocol'')
           | x \<Rightarrow> fail_at t (Expected ''a protocol name'' x)))"

definition crate_size :: "token list \<Rightarrow> nat pres" where
  "crate_size ts =
     bindE (peek ts) (\<lambda>nt.
     bindE (eat_int ''an integer byte count'' ts) (\<lambda>(n, ts1).
     if n = 0 then fail_at nt (Refused ''stack_size must be positive'') else Inr (n, ts1)))"

definition crate_path :: "token list \<Rightarrow> string pres" where
  "crate_path ts =
     bindE (peek ts) (\<lambda>pt.
     bindE (eat_str ''link_script expects a string path'' ts) (\<lambda>(s, ts1).
     if s = [] then fail_at pt (Refused ''link_script path is empty'') else Inr (decode s, ts1)))"

definition crate_argument :: "token \<Rightarrow> string list \<Rightarrow> string \<Rightarrow> token list \<Rightarrow> crate_value pres" where
  "crate_argument t0 seen name ts =
     (if name = ''stack_size'' then bindE (in_parens crate_size ts) (\<lambda>(n, ts1). Inr (CSize n, ts1))
      else if name = ''link_script'' then bindE (in_parens crate_path ts) (\<lambda>(s, ts1). Inr (CPath s, ts1))
      else if name = ''boot_header'' then
        if seen \<noteq> [] then fail_at t0 (Refused ''duplicate crate attribute'')
        else bindE (in_parens protocol_name ts) (\<lambda>(p, ts1). Inr (CProtocol p, ts1))
      else Inr (CNone, ts))"

text \<open>\<open>seen\<close> is \<open>_seen_boot_headers\<close>; the name of an attribute may be a reserved identifier.\<close>

definition parse_crate_attr :: "string list \<Rightarrow> token list \<Rightarrow> (string \<times> crate_value) pres" where
  "parse_crate_attr seen ts =
     bindE (peek ts) (\<lambda>t0.
     bindE (eat_sym ''#'' ts) (\<lambda>ts1.
     bindE (eat_sym ''!'' ts1) (\<lambda>ts2.
     bindE (eat_sym ''['' ts2) (\<lambda>ts3.
     case ts3 of
       [] \<Rightarrow> Inl PIndex
     | nt # r \<Rightarrow>
         (case t_val nt of
            TIdent name \<Rightarrow>
              if name \<notin> set CRATE_ATTRS then fail_at nt (Refused ''unknown crate attribute'')
              else
                bindE (crate_argument t0 seen name r) (\<lambda>(v, ts4).
                bindE (eat_sym '']'' ts4) (\<lambda>ts5. Inr ((name, v), ts5)))
          | x \<Rightarrow> fail_at nt (Expected ''a crate attribute name'' x))))))"

section \<open>Declarations\<close>

definition SHADOWING_NAMES :: "string list" where
  "SHADOWING_NAMES = [''int'', ''float'', ''bool'', ''str'', ''void'', ''list'', ''map'', ''tainted'', ''Chan'',
     ''Task'', ''Option'', ''Result'', ''Cap'']"

definition typeparam :: "token list \<Rightarrow> string pres" where
  "typeparam ts =
     bindE (peek ts) (\<lambda>t.
     bindE (eat_ident ts) (\<lambda>(name, ts1).
     if name \<in> set SHADOWING_NAMES then fail_at t (Refused ''type parameter cannot be named'')
     else Inr (name, ts1)))"

definition parse_typeparams :: "token list \<Rightarrow> string list pres" where
  "parse_typeparams ts =
     if_sym ''['' (comma_list typeparam '']'' (length ts)) (\<lambda>ts. Inr ([], ts)) ts"

record struct_decl =
  sd_name :: string
  sd_typeparams :: "string list"
  sd_fields :: "(string \<times> string \<times> node option) list"
  sd_preds :: "(string \<times> refine_node) list"

text \<open>The fields read so far and their refinements; \<open>seen_fields\<close> is the set of their names.\<close>

type_synonym field_state = "(string \<times> string \<times> node option) list \<times> (string \<times> refine_node) list"

definition struct_field :: "bytes \<Rightarrow> field_state \<Rightarrow> token list \<Rightarrow> field_state pres" where
  "struct_field src st ts =
     (let (fs, preds) = st in
      bindE (peek ts) (\<lambda>ft.
      bindE (eat_ident ts) (\<lambda>(name, ts1).
      if name \<in> fst ` set fs then fail_at ft (Refused ''duplicate field name in struct'')
      else
        bindE (eat_sym '':'' ts1) (\<lambda>ts2.
        bindE (parse_ty False ts2) (\<lambda>(ty, ts3).
        bindE (parse_refinement src ty ts3) (\<lambda>(fref, ts4).
        bindE (if_sym ''='' (\<lambda>r. bindE (parse_expr True r) (\<lambda>(e, ts5). Inr (Some e, ts5)))
                 (\<lambda>ts5. Inr (None, ts5)) ts4) (\<lambda>(dflt, ts5).
        Inr ((fs @ [(name, ty, dflt)],
              (case fref of None \<Rightarrow> preds | Some p \<Rightarrow> AList.update name p preds)), ts5))))))))"

text \<open>Defaulted fields come last.\<close>

fun defaults_last :: "bool \<Rightarrow> (string \<times> string \<times> node option) list \<Rightarrow> bool" where
  "defaults_last seen [] = True"
| "defaults_last seen ((n, ty, Some e) # fs) = defaults_last True fs"
| "defaults_last seen ((n, ty, None) # fs) = (\<not> seen \<and> defaults_last seen fs)"

definition parse_struct :: "bytes \<Rightarrow> token list \<Rightarrow> struct_decl pres" where
  "parse_struct src ts =
     bindE (peek ts) (\<lambda>t0.
     bindE (eat_kw ''struct'' ts) (\<lambda>ts1.
     bindE (eat_ident ts1) (\<lambda>(name, ts2).
     bindE (parse_typeparams ts2) (\<lambda>(tps, ts3).
     bindE (eat_sym ''{'' ts3) (\<lambda>ts4.
     bindE (many_st (with_comma (struct_field src) ''}'') ''}'' (Suc (length ts4)) ([], []) ts4)
       (\<lambda>((fs, preds), ts5).
     if fs = [] then fail_at t0 (Refused ''struct must have at least one field'')
     else if \<not> defaults_last False fs
     then fail_at t0 (Refused ''struct field without default cannot follow a defaulted field'')
     else Inr (\<lparr>sd_name = name, sd_typeparams = tps, sd_fields = fs, sd_preds = preds\<rparr>, ts5)))))))"

record enum_decl =
  ed_name :: string
  ed_typeparams :: "string list"
  ed_variants :: "(string \<times> string list) list"

definition payload_type :: "token list \<Rightarrow> string pres" where
  "payload_type = unrefined (parse_ty False)"

definition enum_variant :: "(string \<times> string list) list \<Rightarrow> token list \<Rightarrow> (string \<times> string list) list pres" where
  "enum_variant vs ts =
     bindE (peek ts) (\<lambda>vt.
     bindE (eat_ident ts) (\<lambda>(name, ts1).
     if name \<in> fst ` set vs then fail_at vt (Refused ''duplicate variant name in enum'')
     else
       bindE (if_sym ''('' (comma_list payload_type '')'' (length ts1)) (\<lambda>ts2. Inr ([], ts2)) ts1)
         (\<lambda>(tys, ts2). Inr (vs @ [(name, tys)], ts2))))"

definition parse_enum :: "token list \<Rightarrow> enum_decl pres" where
  "parse_enum ts =
     bindE (peek ts) (\<lambda>t0.
     bindE (eat_kw ''enum'' ts) (\<lambda>ts1.
     bindE (eat_ident ts1) (\<lambda>(name, ts2).
     bindE (parse_typeparams ts2) (\<lambda>(tps, ts3).
     bindE (eat_sym ''{'' ts3) (\<lambda>ts4.
     bindE (many_st (with_comma enum_variant ''}'') ''}'' (Suc (length ts4)) [] ts4) (\<lambda>(vs, ts5).
     if vs = [] then fail_at t0 (Refused ''enum must have at least one variant'')
     else Inr (\<lparr>ed_name = name, ed_typeparams = tps, ed_variants = vs\<rparr>, ts5)))))))"

definition parse_import :: "token list \<Rightarrow> string pres" where
  "parse_import ts =
     bindE (eat_kw ''import'' ts) (\<lambda>ts1.
     bindE (eat_str ''import expects a string path'' ts1) (\<lambda>(s, ts2). Inr (decode s, ts2)))"

section \<open>Functions\<close>

definition KNOWN_EFFECTS :: "string set" where
  "KNOWN_EFFECTS = {''IO'', ''Fs'', ''Clock'', ''Args'', ''Exit'', ''Net'', ''Rand'', ''Proc'', ''Conc''}"

definition IO_FAMILY :: "string set" where
  "IO_FAMILY = {''IO'', ''Fs'', ''Clock'', ''Args'', ''Exit''}"

record fn_decl =
  fd_name :: string
  fd_typeparams :: "string list"
  fd_params :: "(string \<times> string \<times> bool) list"
  fd_ret :: string
  fd_effects :: "string set"
  fd_pure :: bool
  fd_body :: "pstmt list"
  fd_struct :: "string option"
  fd_extern :: bool
  fd_requires :: "node option"
  fd_ensures :: "node option"
  fd_param_preds :: "(string \<times> refine_node) list"
  fd_ret_pred :: "refine_node option"
  fd_attrs :: fn_attrs

type_synonym param_state = "(string \<times> string \<times> bool) list \<times> (string \<times> refine_node) list"

definition fn_param :: "bytes \<Rightarrow> bool \<Rightarrow> param_state \<Rightarrow> token list \<Rightarrow> param_state pres" where
  "fn_param src extern st ts =
     (let (ps, preds) = st in
      bindE (if_kw ''mut'' (\<lambda>r. Inr (True, r)) (\<lambda>r. Inr (False, r)) ts) (\<lambda>(is_mut, ts1).
      bindE (eat_ident ts1) (\<lambda>(name, ts2).
      bindE (eat_sym '':'' ts2) (\<lambda>ts3.
      bindE (parse_ty False ts3) (\<lambda>(ty, ts4).
      bindE (if extern then bindE (reject_refinement ts4) (\<lambda>ts5. Inr (None, ts5))
             else parse_refinement src ty ts4) (\<lambda>(ref, ts5).
      Inr ((ps @ [(name, ty, is_mut)],
            (case ref of None \<Rightarrow> preds | Some p \<Rightarrow> AList.update name p preds)), ts5)))))))"

text \<open>The return type and its refinement.\<close>

definition fn_ret :: "bytes \<Rightarrow> bool \<Rightarrow> string list \<Rightarrow> token list \<Rightarrow> (string \<times> refine_node option) pres" where
  "fn_ret src extern tps ts =
     if_sym ''->'' (\<lambda>r.
       bindE (parse_ty True r) (\<lambda>(ret, ts1).
       if extern then bindE (reject_refinement ts1) (\<lambda>ts2. Inr ((ret, None), ts2))
       else if ret = ''void'' then Inr ((ret, None), ts1)
       else
         bindE (parse_refinement src ret ts1) (\<lambda>(p, ts2).
         case p of
           None \<Rightarrow> Inr ((ret, None), ts2)
         | Some q \<Rightarrow>
             if tps \<noteq> [] then fail_at (r_where q) (Refused ''refinements on a generic return type'')
             else Inr ((ret, Some q), ts2))))
     (\<lambda>ts. Inr ((''void'', None), ts)) ts"

text \<open>The names after \<open>uses\<close>: \<open>explicit_effects\<close> and the expanded \<open>effects\<close>.\<close>

fun fn_uses :: "nat \<Rightarrow> string set \<Rightarrow> string set \<Rightarrow> token list \<Rightarrow> string set pres" where
  "fn_uses 0 expl effs ts = Inl PFuel"
| "fn_uses (Suc n) expl effs ts =
     bindE (peek ts) (\<lambda>t.
     bindE (eat_ident ts) (\<lambda>(eff, ts1).
     if eff \<notin> KNOWN_EFFECTS then fail_at t (Refused ''unknown effect'')
     else if eff \<in> expl then fail_at t (Refused ''duplicate effect declaration'')
     else
       (let effs1 = insert eff effs \<union> (if eff = ''IO'' then IO_FAMILY else {})
        in if_sym '','' (fn_uses n (insert eff expl) effs1) (\<lambda>ts2. Inr (effs1, ts2)) ts1)))"

definition conj_all :: "node list \<Rightarrow> node option" where
  "conj_all es = (case es of [] \<Rightarrow> None | e # rest \<Rightarrow> Some (foldl (NBin ''&&'') e rest))"

fun contract_clauses :: "nat \<Rightarrow> node list \<Rightarrow> node list \<Rightarrow> token list \<Rightarrow> (node list \<times> node list) pres" where
  "contract_clauses 0 reqs enss ts = Inl PFuel"
| "contract_clauses (Suc n) reqs enss ts =
     (case ts of
        [] \<Rightarrow> Inl PIndex
      | t # r \<Rightarrow>
          if t_val t = TKw ''requires'' \<and> enss = [] then
            bindE (parse_expr False r) (\<lambda>(e, ts1). contract_clauses n (reqs @ [e]) enss ts1)
          else if t_val t = TKw ''ensures'' then
            bindE (parse_expr False r) (\<lambda>(e, ts1). contract_clauses n reqs (enss @ [e]) ts1)
          else Inr ((reqs, enss), ts))"

definition parse_contracts :: "token list \<Rightarrow> (node option \<times> node option) pres" where
  "parse_contracts ts =
     bindE (contract_clauses (Suc (length ts)) [] [] ts) (\<lambda>((reqs, enss), ts1).
     Inr ((conj_all reqs, conj_all enss), ts1))"

text \<open>\<open>parse_fn\<close>; \<open>A\<close> is the attribute cache.\<close>

definition fn_effects :: "token \<Rightarrow> bool \<Rightarrow> token list \<Rightarrow> string set pres" where
  "fn_effects t0 is_pure ts =
     if_kw ''uses'' (\<lambda>r.
         if is_pure then fail_at t0 (Refused ''pure and uses are mutually exclusive'')
         else fn_uses (Suc (length r)) {} {} r)
       (\<lambda>ts. Inr ({}, ts)) ts"

definition parse_fn :: "bytes \<Rightarrow> fn_attrs \<Rightarrow> string option \<Rightarrow> bool \<Rightarrow> token list \<Rightarrow> fn_decl pres" where
  "parse_fn src A impl_struct extern ts =
     bindE (peek ts) (\<lambda>t0.
     bindE (eat_kw ''fn'' ts) (\<lambda>ts1.
     bindE (eat_ident ts1) (\<lambda>(name, ts2).
     bindE (parse_typeparams ts2) (\<lambda>(tps, ts3).
     bindE (eat_sym ''('' ts3) (\<lambda>ts4.
     bindE (many_st (with_comma (fn_param src extern) '')'') '')'' (Suc (length ts4)) ([], []) ts4)
       (\<lambda>((params, preds), ts5).
     bindE (fn_ret src extern tps ts5) (\<lambda>((ret, rpred), ts6).
     bindE (if_kw ''pure'' (\<lambda>r. Inr (True, r)) (\<lambda>r. Inr (False, r)) ts6) (\<lambda>(is_pure, ts7).
     bindE (fn_effects t0 is_pure ts7) (\<lambda>(effects, ts8).
     bindE (parse_contracts ts8) (\<lambda>((req, ens), ts9).
     bindE (if extern then Inr ([], ts9) else parse_body src ts9) (\<lambda>(body, ts10).
     Inr (\<lparr>fd_name = name, fd_typeparams = tps, fd_params = params, fd_ret = ret,
           fd_effects = effects, fd_pure = is_pure, fd_body = body, fd_struct = impl_struct,
           fd_extern = extern, fd_requires = req, fd_ensures = ens,
           fd_param_preds = (if extern then [] else preds),
           fd_ret_pred = (if extern then None else rpred),
           fd_attrs = (if extern
                       then reset_cur_attrs\<lparr>at_taint_source := at_taint_source A,
                              at_taint_sinks := at_taint_sinks A\<rparr>
                       else A)\<rparr>, ts10))))))))))))"

section \<open>The program\<close>

definition RESERVED_TYPE_NAMES :: "string list" where
  "RESERVED_TYPE_NAMES = [''int'', ''float'', ''bool'', ''str'', ''void'', ''list'', ''map'', ''tainted'',
     ''true'', ''false'', ''Chan'', ''Task'', ''Future'', ''Stream'']"

type_synonym fn_table = "(string \<times> fn_decl) list"

text \<open>One member of an impl block, with the table and the attribute cache before it.\<close>

definition impl_item ::
  "bytes \<Rightarrow> token \<Rightarrow> string \<Rightarrow> nat \<Rightarrow> fn_table \<times> fn_attrs \<Rightarrow> token list \<Rightarrow> (fn_table \<times> fn_attrs) pres" where
  "impl_item src t0 sname f st ts =
     (case ts of
        [] \<Rightarrow> Inl PIndex
      | t # r \<Rightarrow>
          if t_val t = TSym ''#'' then
            bindE (parse_attributes f (snd st) ts) (\<lambda>(A, ts1). Inr ((fst st, A), ts1))
          else if t_val t = TKw ''fn'' then
            bindE (parse_fn src (snd st) (Some sname) False ts) (\<lambda>(fd, ts1).
            let key = sname @ ''.'' @ fd_name fd in
            if key \<in> fst ` set (fst st) then fail_at t0 (Refused ''duplicate method name'')
            else Inr ((AList.update key fd (fst st), reset_cur_attrs), ts1))
          else refuse ''only fn definitions allowed inside impl'' ts)"

definition parse_impl :: "bytes \<Rightarrow> fn_table \<Rightarrow> token list \<Rightarrow> fn_table pres" where
  "parse_impl src fns ts =
     bindE (peek ts) (\<lambda>t0.
     bindE (eat_kw ''impl'' ts) (\<lambda>ts1.
     bindE (eat_ident ts1) (\<lambda>(sname, ts2).
     bindE (eat_sym ''{'' ts2) (\<lambda>ts3.
     bindE (many_st (impl_item src t0 sname (length ts)) ''}'' (Suc (length ts3)) (fns, reset_cur_attrs) ts3)
       (\<lambda>((fns1, A), ts4). Inr (fns1, ts4))))))"

text \<open>One declaration of an extern block, with its taint marking.\<close>

definition extern_decl :: "bytes \<Rightarrow> token \<Rightarrow> nat \<Rightarrow> fn_decl list \<Rightarrow> token list \<Rightarrow> fn_decl list pres" where
  "extern_decl src t0 f decls ts =
     bindE (attr_lists extern_attr f reset_cur_attrs ts) (\<lambda>(A, ts1).
     if_kw ''fn'' (\<lambda>_.
         bindE (parse_fn src A None True ts1) (\<lambda>(fd, ts2).
         if fd_effects fd = {} \<and> \<not> fd_pure fd then fail_at t0 (Refused ''extern fn must declare uses IO (or pure)'')
         else Inr (decls @ [fd], ts2)))
       (refuse ''extern block can only contain fn declarations'') ts1)"

definition parse_extern_block :: "bytes \<Rightarrow> token list \<Rightarrow> (string \<times> fn_decl list) pres" where
  "parse_extern_block src ts =
     bindE (peek ts) (\<lambda>t0.
     bindE (eat_kw ''extern'' ts) (\<lambda>ts1.
     bindE (peek ts1) (\<lambda>abi_tok.
     bindE (eat_str ''expected ABI string'' ts1) (\<lambda>(abi, ts2).
     if decode abi \<notin> {''C'', ''js''} then fail_at abi_tok (Refused ''unsupported ABI'')
     else
       bindE (eat_sym ''{'' ts2) (\<lambda>ts3.
       bindE (many_st (extern_decl src t0 (length ts)) ''}'' (Suc (length ts3)) [] ts3) (\<lambda>(decls, ts4).
       Inr ((decode abi, decls), ts4)))))))"

text \<open>The local variables of \<open>parse_program\<close>; \<open>crate_seen\<close> is the set of the names in \<open>crate_attrs\<close>, and
  \<open>_seen_boot_headers\<close> the protocols in it.\<close>

record program =
  pg_structs :: "(string \<times> struct_decl) list"
  pg_enums :: "(string \<times> enum_decl) list"
  pg_fns :: fn_table
  pg_imports :: "string list"
  pg_externs :: "(string \<times> fn_decl list) list"
  pg_crate_attrs :: "(string \<times> crate_value) list"
  pg_seen_item :: bool
  pg_attrs :: fn_attrs

definition no_program :: program where
  "no_program = \<lparr>pg_structs = [], pg_enums = [], pg_fns = [], pg_imports = [], pg_externs = [],
     pg_crate_attrs = [], pg_seen_item = False, pg_attrs = reset_cur_attrs\<rparr>"

definition boot_headers :: "program \<Rightarrow> string list" where
  "boot_headers p = concat (map (\<lambda>(n, v). case v of CProtocol q \<Rightarrow> [q] | _ \<Rightarrow> []) (pg_crate_attrs p))"

definition crate_item :: "program \<Rightarrow> token list \<Rightarrow> program pres" where
  "crate_item p ts =
     (if pg_seen_item p then refuse ''crate-level attribute must appear before any item'' ts
      else
        bindE (parse_crate_attr (boot_headers p) ts) (\<lambda>((name, v), ts1).
        if name \<in> fst ` set (pg_crate_attrs p) then refuse ''duplicate crate attribute'' ts1
        else Inr (p\<lparr>pg_crate_attrs := pg_crate_attrs p @ [(name, v)]\<rparr>, ts1)))"

text \<open>After an item: the attribute cache is reset and crate attributes are no longer allowed.\<close>

definition item_done :: "program \<Rightarrow> program" where
  "item_done p = p\<lparr>pg_attrs := reset_cur_attrs, pg_seen_item := True\<rparr>"

definition check_type_name :: "string \<Rightarrow> program \<Rightarrow> token list \<Rightarrow> perr + token list" where
  "check_type_name name p ts =
     (if name \<in> set RESERVED_TYPE_NAMES then refuse ''type name is reserved'' ts
      else if name \<in> fst ` set (pg_structs p) \<or> name \<in> fst ` set (pg_enums p)
      then refuse ''duplicate type name'' ts
      else Inr ts)"

fun add_fns :: "fn_decl list \<Rightarrow> fn_table \<Rightarrow> token list \<Rightarrow> perr + fn_table" where
  "add_fns [] fns ts = Inr fns"
| "add_fns (fd # fds) fns ts =
     (if fd_name fd \<in> fst ` set fns then refuse ''duplicate function name'' ts
      else add_fns fds (AList.update (fd_name fd) fd fns) ts)"

definition program_item :: "bytes \<Rightarrow> program \<Rightarrow> token \<Rightarrow> token list \<Rightarrow> program pres" where
  "program_item src p t ts =
     (if t_val t = TKw ''struct'' then
        bindE (parse_struct src ts) (\<lambda>(sd, ts1).
        bindE (check_type_name (sd_name sd) p ts1) (\<lambda>ts2.
        Inr (item_done (p\<lparr>pg_structs := AList.update (sd_name sd) sd (pg_structs p)\<rparr>), ts2)))
      else if t_val t = TKw ''enum'' then
        bindE (parse_enum ts) (\<lambda>(ed, ts1).
        bindE (check_type_name (ed_name ed) p ts1) (\<lambda>ts2.
        Inr (item_done (p\<lparr>pg_enums := AList.update (ed_name ed) ed (pg_enums p)\<rparr>), ts2)))
      else if t_val t = TKw ''impl'' then
        bindE (parse_impl src (pg_fns p) ts) (\<lambda>(fns, ts1). Inr (item_done (p\<lparr>pg_fns := fns\<rparr>), ts1))
      else if t_val t = TKw ''fn'' then
        bindE (parse_fn src (pg_attrs p) None False ts) (\<lambda>(fd, ts1).
        bindE (add_fns [fd] (pg_fns p) ts1) (\<lambda>fns. Inr (item_done (p\<lparr>pg_fns := fns\<rparr>), ts1)))
      else if t_val t = TKw ''import'' then
        bindE (parse_import ts) (\<lambda>(path, ts1).
        Inr (item_done (p\<lparr>pg_imports := pg_imports p @ [path]\<rparr>), ts1))
      else if t_val t = TKw ''extern'' then
        bindE (parse_extern_block src ts) (\<lambda>((abi, decls), ts1).
        bindE (add_fns decls (pg_fns p) ts1) (\<lambda>fns.
        Inr (item_done (p\<lparr>pg_fns := fns, pg_externs := pg_externs p @ [(abi, decls)]\<rparr>), ts1)))
      else refuse ''only struct/enum/impl/fn/import/extern declarations allowed at top level'' ts)"

fun program_loop :: "bytes \<Rightarrow> nat \<Rightarrow> program \<Rightarrow> token list \<Rightarrow> program pres" where
  "program_loop src 0 p ts = Inl PFuel"
| "program_loop src (Suc n) p ts =
     (case ts of
        [] \<Rightarrow> Inl PIndex
      | t # r \<Rightarrow>
          if t_val t = TEof then Inr (p, ts)
          else if t_val t = TSym ''#'' then
            bindE (peek r) (\<lambda>nxt.
            if t_val nxt = TSym ''!'' then
              bindE (crate_item p ts) (\<lambda>(p1, ts1). program_loop src n p1 ts1)
            else
              bindE (parse_attributes n (pg_attrs p) ts) (\<lambda>(A, ts1).
              program_loop src n (p\<lparr>pg_attrs := A\<rparr>) ts1))
          else bindE (program_item src p t ts) (\<lambda>(p1, ts1). program_loop src n p1 ts1))"

definition parse_program :: "bytes \<Rightarrow> token list \<Rightarrow> perr + program" where
  "parse_program src ts = bindE (program_loop src (Suc (length ts)) no_program ts) (\<lambda>(p, ts1). Inr p)"

declare attr_lists.simps [simp del] fn_uses.simps [simp del] contract_clauses.simps [simp del]
  program_loop.simps [simp del]

end
