(* ===== verification/ParseWf.thy ===== *)
theory ParseWf
  imports ParseSafe ParseDecl
begin

unbundle bit_operations_syntax

text \<open>
  The cursor discipline of the parser's statements and declarations, with what their results satisfy:
  on a token list that ends with the end-of-file token every routine returns an error at a token or a
  well-formed result with a shorter rest.
\<close>

section \<open>Loops and tokens\<close>

lemma ok_many:
  assumes "\<And>ts. good ts \<Longrightarrow> length ts \<le> k \<Longrightarrow> ok (length ts) Q (item ts)"
    "good ts" "length ts \<le> k" "length ts < n"
  shows "ok (length ts) (\<lambda>xs. \<forall>x \<in> set xs. Q x) (many item close n ts)"
  using assms(2-)
proof (induction n arbitrary: ts)
  case 0
  then show ?case by simp
next
  case (Suc n)
  have IH: "ok (length us) (\<lambda>xs. \<forall>x \<in> set xs. Q x) (many item close n us)"
    if "good us" "length us < length ts" for us
    using Suc.IH [OF that(1)] that(2) Suc.prems(2,3) by simp
  show ?case unfolding many.simps
    using Suc.prems by - (rule ok_rules assms(1) IH | (simp; fail))+
qed

lemma ok_many_st:
  assumes "\<And>s ts. I s \<Longrightarrow> good ts \<Longrightarrow> length ts \<le> k \<Longrightarrow> ok (length ts) I (item s ts)"
    "I s" "good ts" "length ts \<le> k" "length ts < n"
  shows "ok (length ts) I (many_st item close n s ts)"
  using assms(2-)
proof (induction n arbitrary: s ts)
  case 0
  then show ?case by simp
next
  case (Suc n)
  have IH: "ok (length ts) I (many_st item close n s1 us)"
    if "I s1" "good us" "length us < length ts" for s1 us
    by (rule ok_mono [OF Suc.IH [OF that(1,2)]]) (use that Suc.prems in auto)
  show ?case unfolding many_st.simps
    using Suc.prems by - (rule ok_rules assms(1) IH | (simp; fail))+
qed

lemma ok_with_comma:
  assumes "ok (length ts) I (item s ts)"
  shows "ok (length ts) I (with_comma item close s ts)"
  unfolding with_comma_def by (rule ok_rules assms | (simp; fail))+

lemma ok_eat_str [ok_rules]: "good ts \<Longrightarrow> ok (length ts) (\<lambda>_. True) (eat_str msg ts)"
  using good_tail by (cases ts) (auto simp: eat_str_def split: tokval.split intro!: ok_rules)

lemma ok_eat_int [ok_rules]: "good ts \<Longrightarrow> ok (length ts) (\<lambda>_. True) (eat_int msg ts)"
  using good_tail by (cases ts) (auto simp: eat_int_def split: tokval.split intro!: ok_rules)

lemma ok_peek [ok_rules]:
  assumes "good ts" "\<And>t. ok n Q (g t)"
  shows "ok n Q (bindE (peek ts) g)"
  using assms by (cases ts) (simp_all add: peek_def)

lemma ok_parse_expr [ok_rules]: "good ts \<Longrightarrow> ok (length ts) wf_node (parse_expr a ts)"
  unfolding parse_expr_def by (rule safeD(1) [OF safe_all]) (simp_all add: fuel_for_def)

lemma ok_parse_ty [ok_rules]: "good ts \<Longrightarrow> ok (length ts) (\<lambda>_. True) (parse_ty a ts)"
  unfolding parse_ty_def by (rule ok_parse_type) simp_all

lemma ok_prod [ok_rules]: "(\<And>x y. s = (x, y) \<Longrightarrow> ok n Q (f x y)) \<Longrightarrow> ok n Q (case s of (x, y) \<Rightarrow> f x y)"
  by (cases s) simp

lemma ok_prod_app [ok_rules]:
  "(\<And>x y. s = (x, y) \<Longrightarrow> ok n Q (f x y t)) \<Longrightarrow> ok n Q ((case s of (x, y) \<Rightarrow> f x y) t)"
  by (cases s) simp

lemma ok_option [ok_rules]:
  "(v = None \<Longrightarrow> ok n Q a) \<Longrightarrow> (\<And>x. v = Some x \<Longrightarrow> ok n Q (b x)) \<Longrightarrow>
     ok n Q (case v of None \<Rightarrow> a | Some x \<Rightarrow> b x)"
  by (cases v) simp_all

text \<open>An optional keyword.\<close>

lemma ok_flag:
  assumes "good ts"
  shows "ok (Suc (length ts)) (\<lambda>_. True) (if_kw k (\<lambda>r. Inr (True, r)) (\<lambda>r. Inr (False, r)) ts)"
  using assms by - (rule ok_rules | (simp; fail))+

section \<open>Refinements and statements\<close>

definition wf_ref :: "string \<Rightarrow> refine_node \<Rightarrow> bool" where
  "wf_ref base r \<longleftrightarrow> wf_node (r_ast r) \<and> r_base r = base \<and> base \<in> set REFINE_PRIMS"

lemma ok_parse_refinement [ok_rules]:
  assumes "good ts"
  shows "ok (Suc (length ts)) (\<lambda>p. \<forall>r. p = Some r \<longrightarrow> wf_ref base r) (parse_refinement src base ts)"
  unfolding parse_refinement_def
proof (rule ok_list_case [OF assms])
  fix wt r
  assume ts: "ts = wt # r"
  have "good r" if "t_val wt = TKw ''where''" using assms that good_tail by (auto simp: ts)
  then show "ok (Suc (length ts)) (\<lambda>p. \<forall>r. p = Some r \<longrightarrow> wf_ref base r)
     (if t_val wt \<noteq> TKw ''where'' then Inr (None, ts)
      else bindE (peek r) (\<lambda>start. bindE (parse_expr False r) (\<lambda>(pred, ts1). bindE (peek ts1) (\<lambda>stop.
        if base \<notin> set REFINE_PRIMS
        then fail_at wt (Refused ''refinements are only supported on primitive types'')
        else Inr (Some \<lparr>r_text = join_on '' '' (split_ws (src_text_between src start stop)),
                        r_ast = pred, r_base = base, r_where = wt\<rparr>, ts1)))))"
    using assms by - (rule ok_rules | (simp add: ts wf_ref_def; fail))+
qed

definition wf_operand :: "asm_operand \<Rightarrow> bool" where
  "wf_operand q \<longleftrightarrow> wf_node (ao_expr q) \<and> (ao_dir q \<noteq> ''in'' \<longrightarrow> assignable (ao_expr q))"

definition wf_parts :: "asm_parts \<Rightarrow> bool" where
  "wf_parts p \<longleftrightarrow> (\<forall>q \<in> set (ap_operands p). wf_operand q) \<and> set (ap_options p) \<subseteq> set ASM_OPTIONS"

text \<open>The statements the parser builds.\<close>

fun wf_stmt :: "pstmt \<Rightarrow> bool" where
  "wf_stmt (XLet x ty m e stack boxed p) \<longleftrightarrow>
     name_ok x \<and> wf_node e \<and> \<not> (stack \<and> boxed) \<and> (\<forall>r. p = Some r \<longrightarrow> wf_ref ty r)"
| "wf_stmt (XAsm s p) \<longleftrightarrow> wf_parts p"
| "wf_stmt (XReturn e) \<longleftrightarrow> (\<forall>x. e = Some x \<longrightarrow> wf_node x)"
| "wf_stmt (XIf c thn els) \<longleftrightarrow> wf_node c \<and> list_all wf_stmt thn \<and> (case els of None \<Rightarrow> True | Some b \<Rightarrow> list_all wf_stmt b)"
| "wf_stmt (XWhile c b) \<longleftrightarrow> wf_node c \<and> list_all wf_stmt b"
| "wf_stmt (XFor x ty e b) \<longleftrightarrow> name_ok x \<and> wf_node e \<and> list_all wf_stmt b"
| "wf_stmt XBreak \<longleftrightarrow> True"
| "wf_stmt XContinue \<longleftrightarrow> True"
| "wf_stmt (XExpr e) \<longleftrightarrow> wf_node e \<and> callable e"
| "wf_stmt (XAssign l e) \<longleftrightarrow> wf_node l \<and> wf_node e \<and> assignable l \<and> ident_root l"

lemma ok_parse_let:
  assumes "good ts" "\<not> (fst flags \<and> snd flags)"
  shows "ok (length ts) wf_stmt (parse_let src flags ts)"
  unfolding parse_let_def using assms
  by - (rule ok_flag ok_rules | (simp; fail))+

lemma ok_let_attr:
  assumes "\<not> (fst fl \<and> snd fl)" "good ts"
  shows "ok (length ts) (\<lambda>fl. \<not> (fst fl \<and> snd fl)) (let_attr t0 fl ts)"
  unfolding let_attr_def using assms by - (rule ok_rules | (simp; fail))+

lemma ok_let_attrs:
  assumes "\<not> (fst fl \<and> snd fl)" "good ts" "length ts \<le> n"
  shows "ok (Suc (length ts)) (\<lambda>fl. \<not> (fst fl \<and> snd fl)) (parse_let_attrs n fl ts)"
  using assms
proof (induction n arbitrary: fl ts)
  case 0
  then show ?case by simp
next
  case (Suc n)
  have IH: "ok (Suc (length ts)) (\<lambda>fl. \<not> (fst fl \<and> snd fl)) (parse_let_attrs n fl' us)"
    if "\<not> (fst fl' \<and> snd fl')" "good us" "length us < length ts" for fl' us
    by (rule ok_mono [OF Suc.IH [OF that(1,2)]]) (use that Suc.prems in auto)
  have items: "ok (length us) (\<lambda>fl. \<not> (fst fl \<and> snd fl)) (many_st (with_comma (let_attr t0 ) '']'') '']'' n fl us)"
    if "good us" "Suc (length us) < length ts" for us t0
    by (rule ok_many_st [where k = "length us"])
      (use that Suc.prems in \<open>auto intro!: ok_with_comma ok_let_attr simp del: de_Morgan_conj\<close>)
  show ?case unfolding parse_let_attrs.simps
  proof (rule ok_list_case [OF Suc.prems(2)])
    fix t0 r
    assume ts: "ts = t0 # r"
    have "good r" if "t_val t0 = TSym ''#''" using Suc.prems(2) that good_tail by (auto simp: ts)
    then show "ok (Suc (length ts)) (\<lambda>fl. \<not> (fst fl \<and> snd fl))
       (if t_val t0 = TSym ''#'' then bindE (eat_sym ''['' r) (\<lambda>ts1.
            bindE (many_st (with_comma (let_attr t0) '']'') '']'' n fl ts1) (\<lambda>(fl1, ts2).
            parse_let_attrs n fl1 ts2))
        else Inr (fl, ts))"
      using Suc.prems by - (rule ok_rules items IH | (simp add: ts; fail) | assumption)+
  qed
qed

subsection \<open>Inline assembly\<close>

lemma ok_asm_option:
  "good ts \<Longrightarrow> ok (length ts) (\<lambda>x. x \<in> set ASM_OPTIONS) (asm_option ts)"
  using good_tail by (cases ts) (auto simp: asm_option_def Let_def split: tokval.split intro!: ok_rules)

lemma ok_asm_direction [ok_rules]: "good ts \<Longrightarrow> ok (length ts) (\<lambda>_. True) (asm_direction ts)"
  unfolding asm_direction_def by - (rule ok_rules | (simp; fail))+

lemma ok_asm_constraint [ok_rules]: "good ts \<Longrightarrow> ok (length ts) (\<lambda>_. True) (asm_constraint ts)"
  using good_tail by (cases ts) (auto simp: asm_constraint_def split: tokval.split intro!: ok_rules)

lemma asm_lvalue_assignable: "asm_lvalue d e = Some p \<Longrightarrow> d = ''in'' \<or> assignable e"
  by (cases e) (auto simp: asm_lvalue_def split: if_splits)

lemma ok_parse_operand [ok_rules]: "good ts \<Longrightarrow> ok (length ts) wf_operand (parse_operand ts)"
  unfolding parse_operand_def
  by - (rule ok_rules | (simp; fail) | (use asm_lvalue_assignable in \<open>auto simp: wf_operand_def; fail\<close>))+

lemma ok_asm_clause:
  assumes "wf_parts p" "good ts" "length ts \<le> f"
  shows "ok (length ts) wf_parts (asm_clause f p ts)"
proof -
  have opts: "ok (length us) (\<lambda>xs. \<forall>x \<in> set xs. x \<in> set ASM_OPTIONS) (comma_list asm_option '')'' f us)"
    if "good us" "length us < length ts" for us
    by (rule ok_comma_list [where k = "length us"]) (use that assms(3) in \<open>auto intro: ok_asm_option\<close>)
  have strs: "ok (length us) (\<lambda>xs. \<forall>x \<in> set xs. True) (comma_list (eat_str m) '')'' f us)"
    if "good us" "length us < length ts" for us m
    by (rule ok_comma_list [where k = "length us"]) (use that assms(3) in \<open>auto intro: ok_rules\<close>)
  show ?thesis unfolding asm_clause_def
    using assms by - (rule ok_rules opts strs | (simp; fail) | (auto simp: wf_parts_def; fail))+
qed

lemma ok_asm_clauses:
  assumes "wf_parts p" "good ts" "length ts \<le> n"
  shows "ok (Suc (length ts)) wf_parts (asm_clauses n p ts)"
  using assms
proof (induction n arbitrary: p ts)
  case 0
  then show ?case by simp
next
  case (Suc n)
  have IH: "ok (Suc (length ts)) wf_parts (asm_clauses n q us)"
    if "wf_parts q" "good us" "length us < length ts" for q us
    by (rule ok_mono [OF Suc.IH [OF that(1,2)]]) (use that Suc.prems in auto)
  show ?case unfolding asm_clauses.simps
    using Suc.prems by - (rule ok_rules ok_asm_clause IH | (simp; fail))+
qed

lemma ok_parse_asm:
  assumes "good ts" "length ts \<le> f"
  shows "ok (length ts) wf_stmt (parse_asm_stmt f ts)"
  unfolding parse_asm_stmt_def
  using assms by - (rule ok_rules ok_asm_clauses | (simp add: no_parts_def wf_parts_def; fail))+

subsection \<open>Blocks and statements\<close>

lemma ok_head:
  assumes "good ts" "\<And>t r. ts = t # r \<Longrightarrow> good ts \<Longrightarrow> (t_val t \<noteq> TEof \<Longrightarrow> good r) \<Longrightarrow> ok n Q (b t r)"
  shows "ok n Q (case ts of [] \<Rightarrow> x | t # r \<Rightarrow> b t r)"
  using assms good_tail by (cases ts) auto

lemma ok_expr_stmt: 
  assumes "good ts"
  shows "ok (length ts) wf_stmt (expr_stmt ts)"
  unfolding expr_stmt_def
proof (rule ok_bind [OF ok_parse_expr [OF assms]], erule ok_head)
  fix e ts1 eq r
  assume ts1: "ts1 = eq # r" "good ts1" "wf_node e" "length ts1 < length ts" and g: "t_val eq \<noteq> TEof \<Longrightarrow> good r"
  then have "good r" if "t_val eq = TSym ''=''" using that by simp
  then show "ok (length ts) wf_stmt
       (if t_val eq = TSym ''='' then
           if \<not> assignable e then fail_at eq (Refused ''left side of assignment must be variable/field/index'')
           else if \<not> ident_root e then refuse ''left side of assignment must start from a variable'' r
           else bindE (parse_expr True r) (\<lambda>(val, ts2). Inr (XAssign e val, ts2))
         else if \<not> callable e then refuse ''expression as statement must be a function/method call'' ts1
         else Inr (XExpr e, ts1))"
    using ts1 by - (rule ok_rules | (simp; fail))+
qed

lemma ok_parse_match:
  assumes "good ts"
  shows "ok (length ts) wf_node (parse_match (fuel_for ts) ts)"
  by (rule safeD(7) [OF safe_all assms]) (simp add: fuel_for_def)

lemma ok_match_stmt:
  assumes "good ts"
  shows "ok (length ts) wf_stmt (match_stmt ts)"
proof -
  have "is_perr x" if "parse_match (fuel_for ts) ts = Inl x" for x
    using ok_parse_match [OF assms] that by (simp add: ok_def)
  moreover have "\<exists>s arms. e = NMatch s arms" if "parse_match (fuel_for ts) ts = Inr (e, us)" for e us
    using that by (cases "fuel_for ts")
      (auto simp: parsers.simps(1) parse_match_step_def bindE_eq_Inr split: prod.splits)
  ultimately show ?thesis
    using ok_parse_match [OF assms] unfolding match_stmt_def ok_def bindE_def
    by (fastforce split: sum.splits)
qed

lemma ok_return_stmt:
  "good ts \<Longrightarrow> ok (Suc (length ts)) wf_stmt (return_stmt ts)"
  unfolding return_stmt_def by - (rule ok_rules | (simp; fail))+

lemma ok_parse_block:
  assumes "\<And>us. good us \<Longrightarrow> length us \<le> k \<Longrightarrow> ok (length us) wf_stmt (ps us)"
    "good ts" "length ts \<le> Suc k" "length ts \<le> f"
  shows "ok (length ts) (list_all wf_stmt) (parse_block ps f ts)"
proof -
  have "ok (length us) (\<lambda>xs. \<forall>x \<in> set xs. wf_stmt x) (many ps ''}'' f us)"
    if "good us" "length us < length ts" for us
    by (rule ok_many [where k = "length us"]) (use that assms in auto)
  then have "ok (length ts) (list_all wf_stmt) (many ps ''}'' f us)" if "good us" "length us < length ts" for us
    by (rule ok_mono) (use that in \<open>auto simp: list_all_iff\<close>)
  then show ?thesis
    unfolding parse_block_def using assms(2) by - (rule ok_rules | (simp; fail) | assumption)+
qed

text \<open>\<open>parse_stmt\<close> needs two units of fuel for each token and two more, \<open>parse_if\<close> one less.\<close>

lemma ok_stmt_parsers:
  "(good ts \<longrightarrow> 2 * length ts + 2 \<le> f \<longrightarrow> ok (length ts) wf_stmt (parse_stmt src f ts))
   \<and> (good ts \<longrightarrow> 2 * length ts + 1 \<le> f \<longrightarrow> ok (length ts) wf_stmt (parse_if src f ts))"
proof (induction f arbitrary: ts)
  case 0
  show ?case by simp
next
  case (Suc f)
  let ?ps = "parse_stmt src f" and ?pi = "parse_if src f"
  have block: "ok (length us) (list_all wf_stmt) (parse_block ?ps f us)"
    if "good us" "2 * length us \<le> f" for us
  proof (cases us)
    case Nil
    with that show ?thesis by simp
  next
    case (Cons u vs)
    then show ?thesis
      using that Suc.IH by (intro ok_parse_block [where k = "length vs"]) auto
  qed
  have pi: "ok (length us) wf_stmt (?pi us)" if "good us" "2 * length us + 1 \<le> f" for us
    using Suc.IH that by blast
  have if_ok: "ok (length ts) wf_stmt (parse_if_step ?ps ?pi f ts)"
    if "good ts" "2 * length ts \<le> f"
    unfolding parse_if_step_def using that
    by - (rule ok_rules block pi | (simp; fail))+
  have while_ok: "ok (length us) wf_stmt (while_stmt ?ps f us)" if "good us" "2 * length us \<le> f" for us
    unfolding while_stmt_def using that by - (rule ok_rules block | (simp; fail))+
  have for_ok: "ok (length us) wf_stmt (for_stmt ?ps f us)" if "good us" "2 * length us \<le> f" for us
    unfolding for_stmt_def using that by - (rule ok_rules block | (simp; fail))+
  have stmt_ok: "ok (length ts) wf_stmt (parse_stmt_step src ?ps ?pi f ts)"
    if "good ts" "2 * length ts + 1 \<le> f"
    unfolding parse_stmt_step_def
  proof (rule ok_head [OF that(1)])
    fix t r
    assume ts: "ts = t # r" "good ts" and g: "t_val t \<noteq> TEof \<Longrightarrow> good r"
    have let_ok: "ok (length ts) wf_stmt (bindE (parse_let_attrs f (False, False) ts) (\<lambda>(flags, ts1).
            if_kw ''let'' (\<lambda>_. parse_let src flags ts1)
              (\<lambda>_. fail_at t (Refused ''#[stack]/#[boxed] attributes apply to a let binding'')) ts1))"
    proof -
      have l: "ok (length ts) wf_stmt (parse_let src fl us)"
        if "good us" "length us \<le> length ts" "\<not> (fst fl \<and> snd fl)" for us fl
        by (rule ok_mono [OF ok_parse_let]) (use that in auto)
      show ?thesis using that
        by - (rule ok_rules ok_let_attrs l | (simp; fail))+
    qed
    show "ok (length ts) wf_stmt
       (if t_val t = TSym ''#'' then
            bindE (parse_let_attrs f (False, False) ts) (\<lambda>(flags, ts1).
            if_kw ''let'' (\<lambda>_. parse_let src flags ts1)
              (\<lambda>_. fail_at t (Refused ''#[stack]/#[boxed] attributes apply to a let binding'')) ts1)
          else
            (case t_val t of
               TKw v \<Rightarrow>
                 if v = ''let'' then parse_let src (False, False) ts
                 else if v = ''asm'' then parse_asm_stmt f ts
                 else if v = ''return'' then return_stmt r
                 else if v = ''if'' then ?pi ts
                 else if v = ''while'' then while_stmt ?ps f r
                 else if v = ''for'' then for_stmt ?ps f r
                 else if v = ''break'' then Inr (XBreak, r)
                 else if v = ''continue'' then Inr (XContinue, r)
                 else if v = ''match'' then match_stmt ts
                 else if v \<in> {''struct'', ''impl'', ''enum'', ''fn''}
                 then refuse ''declaration only allowed at top level'' ts
                 else refuse ''keyword cannot start a statement'' ts
             | _ \<Rightarrow> expr_stmt ts))"
    proof (cases "\<exists>v. t_val t = TKw v")
      case True
      then obtain v where v: "t_val t = TKw v" by blast
      with g have r: "good r" by simp
      have loops: "ok (length ts) wf_stmt (while_stmt ?ps f r)" "ok (length ts) wf_stmt (for_stmt ?ps f r)"
        by (rule ok_mono [OF while_ok [OF r]] ok_mono [OF for_ok [OF r]]; use that in \<open>simp add: ts\<close>)+
      have ret: "ok (length ts) wf_stmt (return_stmt r)"
        by (rule ok_mono [OF ok_return_stmt [OF r]]) (simp_all add: ts)
      show ?thesis unfolding v tokval.case
        using r that ts(1)
        by - (rule ret loops ok_rules ok_parse_let ok_parse_asm pi ok_match_stmt | (simp; fail))+
    next
      case False
      then show ?thesis using let_ok ok_expr_stmt [OF ts(2)] by (cases "t_val t") auto
    qed
  qed
  show ?case using if_ok stmt_ok by simp
qed

lemma ok_parse_body [ok_rules]:
  assumes "good ts"
  shows "ok (length ts) (list_all wf_stmt) (parse_body src ts)"
  unfolding parse_body_def stmt_fuel_def
  by (rule ok_parse_block [where k = "length ts", OF _ assms]) (use ok_stmt_parsers in auto)

section \<open>Attributes\<close>

definition power_of_two :: "int \<Rightarrow> bool" where
  "power_of_two n \<longleftrightarrow> (\<exists>k \<le> 16. n = 2 ^ k)"

lemma and_pred_power: "0 < n \<Longrightarrow> n AND (n - 1) = 0 \<Longrightarrow> \<exists>k. n = 2 ^ k" for n :: int
proof (induction "nat n" arbitrary: n rule: less_induct)
  case less
  have rec: "n AND (n - 1) = of_bool (odd n \<and> odd (n - 1)) + 2 * ((n div 2) AND ((n - 1) div 2))"
    by (rule and_int_rec)
  show ?case
  proof (cases "even n")
    case True
    then obtain m where m: "n = 2 * m" by blast
    have "(2 * m - 1) div 2 = m - 1" by simp
    with rec less.prems(2) have "m AND (m - 1) = 0" by (simp add: m)
    moreover have "0 < m" "nat m < nat n" using less.prems(1) m by auto
    ultimately obtain k where "m = 2 ^ k" using less.hyps by blast
    then show ?thesis by (intro exI [of _ "Suc k"]) (simp add: m)
  next
    case False
    then have "n div 2 = (n - 1) div 2" by presburger
    then have "(n - 1) div 2 = 0" using rec less.prems(2) False by simp
    then have "n = 1" using less.prems(1) False by presburger
    then show ?thesis by (intro exI [of _ 0]) simp
  qed
qed

lemma check_section_align_iff: "check_section_align n = None \<longleftrightarrow> power_of_two n"
proof
  assume c: "check_section_align n = None"
  then obtain k where k: "n = 2 ^ k"
    using and_pred_power [of n] by (auto simp: check_section_align_def split: if_splits)
  have "(2 :: int) ^ k \<le> 2 ^ 16"
    using c by (auto simp: check_section_align_def MAX_SECTION_ALIGN_def k split: if_splits)
  then have "k \<le> 16" by (rule power_le_imp_le_exp [rotated]) simp
  with k show "power_of_two n" by (auto simp: power_of_two_def)
next
  assume "power_of_two n"
  then obtain k where k: "k \<le> 16" "n = 2 ^ k" by (auto simp: power_of_two_def)
  have "n AND (n - 1) = 0"
    by (simp add: k(2) take_bit_of_exp flip: mask_eq_exp_minus_1 take_bit_eq_mask)
  moreover have "(2 :: int) ^ k \<le> 2 ^ 16" using k(1) by (rule power_increasing) simp
  moreover have "\<not> (2 :: int) ^ k < 1" by (simp add: not_less)
  ultimately show "check_section_align n = None"
    by (simp add: check_section_align_def MAX_SECTION_ALIGN_def k(2))
qed

text \<open>What a function's attributes satisfy: the exclusions and the ranges.\<close>

definition attrs_ok :: "fn_attrs \<Rightarrow> bool" where
  "attrs_ok A \<longleftrightarrow>
     \<not> (at_hot A \<and> at_cold A)
     \<and> \<not> (at_irq_handler A \<and> (at_panic_handler A \<or> at_tail_call A))
     \<and> \<not> (at_inline A = ''always'' \<and> (at_tail_call A \<or> at_section A \<noteq> ''''))
     \<and> at_inline A \<in> {'''', ''always'', ''never''}
     \<and> -1 \<le> at_irq_vector A \<and> at_irq_vector A \<le> 255 \<and> (0 \<le> at_irq_vector A \<longrightarrow> at_irq_handler A)
     \<and> -1 \<le> at_stack_size A
     \<and> (at_section A = '''' \<or> check_section_name (at_section A) = None)
     \<and> (at_align A = -1 \<or> power_of_two (at_align A))
     \<and> distinct (at_secrets A)
     \<and> distinct (at_taint_sinks A)"

definition untainted :: "fn_attrs \<Rightarrow> bool" where
  "untainted A \<longleftrightarrow> \<not> at_taint_source A \<and> at_taint_sinks A = []"

definition fn_attrs_ok :: "fn_attrs \<Rightarrow> bool" where
  "fn_attrs_ok A \<longleftrightarrow> attrs_ok A \<and> untainted A"

lemma attrs_ok_reset [simp]: "fn_attrs_ok reset_cur_attrs" "attrs_ok reset_cur_attrs" "untainted reset_cur_attrs"
  by (simp_all add: attrs_ok_def untainted_def fn_attrs_ok_def reset_cur_attrs_def)

lemma ok_in_parens [ok_rules]:
  assumes "good ts" "\<And>us. good us \<Longrightarrow> ok (length us) Q (p us)"
  shows "ok (length ts) Q (in_parens p ts)"
  unfolding in_parens_def using assms(1) by - (rule ok_rules assms(2) | (simp; fail))+

lemma ok_listed_name:
  "distinct names \<Longrightarrow> good ts \<Longrightarrow> ok (length ts) distinct (listed_name names ts)"
  using good_tail by (cases ts) (auto simp: listed_name_def split: tokval.split intro!: ok_rules)

lemma ok_name_list [ok_rules]:
  assumes "good ts" "length ts \<le> f"
  shows "ok (length ts) distinct (name_list t0 f ts)"
proof -
  have l: "ok (length ts) distinct (many_st (with_comma listed_name '')'') '')'' f [] us)"
    if "good us" "length us < length ts" for us
    by (rule ok_mono [OF ok_many_st [where I = distinct and k = "length us"]])
      (use that assms(2) in \<open>auto intro: ok_with_comma ok_listed_name\<close>)
  show ?thesis unfolding name_list_def using assms by - (rule ok_rules l | (simp; fail))+
qed

text \<open>The rule for an attribute routine: every successful branch keeps the invariant.\<close>

lemmas attrs_defs = fn_attrs_ok_def attrs_ok_def untainted_def

lemma ok_inline_attr:
  assumes "fn_attrs_ok A" "good ts"
  shows "ok (length ts) fn_attrs_ok (inline_attr t0 A ts)"
  unfolding inline_attr_def using assms
  by - (rule ok_rules | (simp; fail) | (auto simp: attrs_defs; fail))+

lemma ok_irq_attr:
  assumes "fn_attrs_ok A" "good ts"
  shows "ok (Suc (length ts)) fn_attrs_ok (irq_attr t0 A ts)"
proof -
  let ?pre = "\<lambda>B. \<exists>n. B = A\<lparr>at_irq_vector := n\<rparr> \<and> -1 \<le> n \<and> n \<le> 255"
  have A: "?pre A" using assms(1) by (auto simp: attrs_defs intro!: exI [of _ "at_irq_vector A"])
  have v: "ok (length us) ?pre (irq_vector_attr A us)" if "good us" for us
    unfolding irq_vector_attr_def using that
    by - (rule ok_rules | (simp; fail) | (intro exI conjI, rule refl, simp, simp))+
  have "ok (Suc (length ts)) ?pre (if_sym ''('' (irq_vector_attr A) (\<lambda>ts. Inr (A, ts)) ts)"
    using assms(2) A by - (rule ok_rules ok_mono [OF v] | (simp; fail))+
  then show ?thesis unfolding irq_attr_def
    by (rule ok_bind) (use assms in \<open>auto simp: attrs_defs intro!: ok_rules\<close>)
qed

lemma ok_stack_size_attr:
  assumes "fn_attrs_ok A" "good ts"
  shows "ok (length ts) fn_attrs_ok (stack_size_attr A ts)"
  unfolding stack_size_attr_def using assms
  by - (rule ok_rules | (simp; fail) | (auto simp: attrs_defs; fail))+

lemma ok_section_attr:
  assumes "fn_attrs_ok A" "good ts"
  shows "ok (length ts) fn_attrs_ok (section_attr t0 A ts)"
  unfolding section_attr_def using assms
  by - (rule ok_rules | (simp; fail) | (auto simp: attrs_defs; fail))+

lemma ok_align_attr:
  assumes "fn_attrs_ok A" "good ts"
  shows "ok (length ts) fn_attrs_ok (align_attr t0 A ts)"
  unfolding align_attr_def using assms
  by - (rule ok_rules | (simp; fail) | (auto simp: attrs_defs check_section_align_iff; fail))+

lemma ok_deprecated_attr:
  assumes "fn_attrs_ok A" "good ts"
  shows "ok (Suc (length ts)) fn_attrs_ok (deprecated_attr t0 A ts)"
  unfolding deprecated_attr_def using assms
  by - (rule ok_rules | (simp; fail) | (auto simp: attrs_defs; fail))+

lemma ok_fn_attr:
  assumes "fn_attrs_ok A" "good ts" "length ts \<le> f"
  shows "ok (length ts) fn_attrs_ok (fn_attr t0 f A ts)"
proof -
  have w: "ok (length ts) fn_attrs_ok p" if "ok (length us) fn_attrs_ok p" "length us < length ts" for us p
    by (rule ok_mono [OF that(1)]) (use that(2) in auto)
  have w': "ok (length ts) fn_attrs_ok p" if "ok (Suc (length us)) fn_attrs_ok p" "length us < length ts" for us p
    by (rule ok_mono [OF that(1)]) (use that(2) in auto)
  show ?thesis unfolding fn_attr_def
  proof (rule ok_bind [OF ok_eat_ident [OF assms(2)]])
    fix name r
    assume r: "good r" "length r < length ts"
    note R = w [OF ok_inline_attr] w' [OF ok_irq_attr] w [OF ok_stack_size_attr] w [OF ok_section_attr]
      w [OF ok_align_attr] w' [OF ok_deprecated_attr]
    show "ok (length ts) fn_attrs_ok
      (if name = ''inline'' then inline_attr t0 A r
       else if name = ''hot'' then
         if at_cold A then fail_at t0 (Refused ''hot and cold are mutually exclusive'')
         else Inr (A\<lparr>at_hot := True\<rparr>, r)
       else if name = ''cold'' then
         if at_hot A then fail_at t0 (Refused ''hot and cold are mutually exclusive'')
         else Inr (A\<lparr>at_cold := True\<rparr>, r)
       else if name = ''no_red_zone'' then Inr (A\<lparr>at_no_red_zone := True\<rparr>, r)
       else if name = ''irq_handler'' then irq_attr t0 A r
       else if name = ''panic_handler'' then
         if at_irq_handler A
         then fail_at t0 (Refused ''panic_handler and irq_handler are mutually exclusive'')
         else Inr (A\<lparr>at_panic_handler := True\<rparr>, r)
       else if name = ''tail_call'' then
         if at_irq_handler A then fail_at t0 (Refused ''tail_call and irq_handler are mutually exclusive'')
         else if at_inline A = ''always''
         then fail_at t0 (Refused ''tail_call and inline(always) are mutually exclusive'')
         else Inr (A\<lparr>at_tail_call := True\<rparr>, r)
       else if name = ''stack_size'' then stack_size_attr A r
       else if name = ''section'' then section_attr t0 A r
       else if name = ''align'' then align_attr t0 A r
       else if name = ''secrets'' then
         if at_secrets A \<noteq> [] then fail_at t0 (Refused ''secrets attribute appears more than once'')
         else bindE (name_list t0 f r) (\<lambda>(names, ts1). Inr (A\<lparr>at_secrets := names\<rparr>, ts1))
       else if name = ''ct'' then
         if at_ct A then fail_at t0 (Refused ''ct attribute appears more than once'')
         else Inr (A\<lparr>at_ct := True\<rparr>, r)
       else if name = ''deprecated'' then deprecated_attr t0 A r
       else if name \<in> {''taint_source'', ''taint_sink''}
       then fail_at t0 (Refused ''an extern-block attribute'')
       else if name \<in> {''stack'', ''boxed''} then fail_at t0 (Refused ''a let-binding attribute'')
       else fail_at t0 (Refused ''unknown attribute''))"
      using assms r
      by - (rule R ok_rules | assumption | (simp; fail) | (auto simp: attrs_defs; fail))+
  qed
qed

lemma ok_attr_lists:
  assumes "\<And>t0 n A us. I A \<Longrightarrow> good us \<Longrightarrow> length us \<le> n \<Longrightarrow> ok (length us) I (attr t0 n A us)"
    "I A" "good ts" "length ts \<le> n"
  shows "ok (Suc (length ts)) I (attr_lists attr n A ts)"
  using assms(2-)
proof (induction n arbitrary: A ts)
  case 0
  then show ?case by simp
next
  case (Suc n)
  have IH: "ok (Suc (length ts)) I (attr_lists attr n B us)"
    if "I B" "good us" "length us < length ts" for B us
    by (rule ok_mono [OF Suc.IH [OF that(1,2)]]) (use that Suc.prems in auto)
  have items: "ok (length us) I (many_st (with_comma (attr t0 n) '']'') '']'' n A us)"
    if "good us" "Suc (length us) < length ts" for us t0
    by (rule ok_many_st [where k = "length us"])
      (use that Suc.prems in \<open>auto intro!: ok_with_comma assms(1)\<close>)
  show ?case unfolding attr_lists.simps
  proof (rule ok_head [OF Suc.prems(2)])
    fix t0 r
    assume ts: "ts = t0 # r" and "t_val t0 \<noteq> TEof \<Longrightarrow> good r"
    then have "good r" if "t_val t0 = TSym ''#''" using that by simp
    then show "ok (Suc (length ts)) I
       (if t_val t0 = TSym ''#'' then bindE (eat_sym ''['' r) (\<lambda>ts1.
            bindE (many_st (with_comma (attr t0 n) '']'') '']'' n A ts1) (\<lambda>(A1, ts2). attr_lists attr n A1 ts2))
        else Inr (A, ts))"
      using Suc.prems by - (rule ok_rules items IH | (simp add: ts; fail) | assumption)+
  qed
qed

text \<open>At a hash the lists consume at least one token.\<close>

lemma ok_parse_attributes:
  assumes "fn_attrs_ok A" "good ts" "length ts \<le> f" "ts = t # r" "t_val t = TSym ''#''"
  shows "ok (length ts) fn_attrs_ok (parse_attributes f A ts)"
proof -
  obtain n where f: "f = Suc n" using assms(3,4) by (cases f) auto
  have r: "good r" using assms(2,4,5) good_tail by simp
  have items: "ok (length us) fn_attrs_ok (many_st (with_comma (fn_attr t n) '']'') '']'' n A us)"
    if "good us" "Suc (length us) < length ts" for us
    by (rule ok_many_st [where k = "length us"])
      (use that assms(1,3) f in \<open>auto intro!: ok_with_comma ok_fn_attr\<close>)
  have rest: "ok (length ts) fn_attrs_ok (attr_lists fn_attr n B us)"
    if "fn_attrs_ok B" "good us" "length us < length ts" for B us
    by (rule ok_mono [OF ok_attr_lists [where I = fn_attrs_ok, OF ok_fn_attr that(1,2)]])
      (use that assms(3) f in auto)
  have "parse_attributes f A ts = bindE (eat_sym ''['' r) (\<lambda>ts1.
      bindE (many_st (with_comma (fn_attr t n) '']'') '']'' n A ts1) (\<lambda>(A1, ts2). attr_lists fn_attr n A1 ts2))"
    by (simp add: parse_attributes_def f attr_lists.simps assms(4,5))
  moreover have "length r < length ts" by (simp add: assms(4))
  ultimately show ?thesis
    using r by (simp only:) (rule ok_rules items rest | (simp add: assms(4); fail) | assumption)+
qed

lemma ok_extern_attrs:
  assumes "good ts" "length ts \<le> n"
  shows "ok (Suc (length ts)) attrs_ok (attr_lists extern_attr n reset_cur_attrs ts)"
proof (rule ok_attr_lists [where I = attrs_ok, OF _ _ assms])
  fix t0 n A us
  assume "attrs_ok A" "good us" "length us \<le> n"
  then show "ok (length us) attrs_ok (extern_attr t0 n A us)"
    unfolding extern_attr_def
    by - (rule ok_rules | (simp; fail) | (auto simp: attrs_ok_def; fail))+
qed simp

section \<open>Declarations\<close>

lemma add_key_new: "k \<notin> fst ` set al \<Longrightarrow> AList.update k v al = al @ [(k, v)]"
  by (induction al) auto

lemma keys_update: "fst ` set (AList.update k v al) = insert k (fst ` set al)"
  by (simp add: dom_update)

lemma in_update: "(x, y) \<in> set (AList.update k v al) \<Longrightarrow> (x = k \<and> y = v) \<or> (x, y) \<in> set al"
  by (induction al) (auto split: if_splits)

text \<open>A dict of refinements: each is one of a declared name, on a primitive type.\<close>

definition preds_ok :: "(string \<times> string) set \<Rightarrow> (string \<times> refine_node) list \<Rightarrow> bool" where
  "preds_ok D preds \<longleftrightarrow> (\<forall>(n, r) \<in> set preds. \<exists>ty. (n, ty) \<in> D \<and> wf_ref ty r)"

lemma preds_ok_mono: "preds_ok D preds \<Longrightarrow> D \<subseteq> E \<Longrightarrow> preds_ok E preds"
  by (fastforce simp: preds_ok_def)

lemma preds_ok_update: "preds_ok D preds \<Longrightarrow> (n, ty) \<in> D \<Longrightarrow> wf_ref ty r \<Longrightarrow> preds_ok D (AList.update n r preds)"
  by (fastforce simp: preds_ok_def dest: in_update)

definition wf_struct :: "struct_decl \<Rightarrow> bool" where
  "wf_struct sd \<longleftrightarrow> name_ok (sd_name sd)
     \<and> (\<forall>tp \<in> set (sd_typeparams sd). name_ok tp \<and> tp \<notin> set SHADOWING_NAMES)
     \<and> sd_fields sd \<noteq> [] \<and> distinct (map fst (sd_fields sd)) \<and> defaults_last False (sd_fields sd)
     \<and> (\<forall>(n, ty, d) \<in> set (sd_fields sd). name_ok n \<and> (\<forall>e. d = Some e \<longrightarrow> wf_node e))
     \<and> preds_ok ((\<lambda>(n, ty, d). (n, ty)) ` set (sd_fields sd)) (sd_preds sd)"

lemma ok_typeparam: "good ts \<Longrightarrow> ok (length ts) (\<lambda>tp. name_ok tp \<and> tp \<notin> set SHADOWING_NAMES) (typeparam ts)"
  unfolding typeparam_def by - (rule ok_rules | (simp; fail))+

lemma ok_parse_typeparams [ok_rules]:
  assumes "good ts"
  shows "ok (Suc (length ts)) (\<lambda>tps. \<forall>tp \<in> set tps. name_ok tp \<and> tp \<notin> set SHADOWING_NAMES) (parse_typeparams ts)"
proof -
  let ?Q = "\<lambda>tps. \<forall>tp \<in> set tps. name_ok tp \<and> tp \<notin> set SHADOWING_NAMES"
  have l: "ok (Suc (length ts)) ?Q (comma_list typeparam '']'' (length ts) us)"
    if "good us" "length us < length ts" for us
    by (rule ok_mono [OF ok_comma_list [where k = "length us", OF ok_typeparam]]) (use that in auto)
  show ?thesis unfolding parse_typeparams_def using assms by - (rule ok_rules l | (simp; fail))+
qed

definition fields_ok :: "field_state \<Rightarrow> bool" where
  "fields_ok st \<longleftrightarrow> distinct (map fst (fst st))
     \<and> (\<forall>(n, ty, d) \<in> set (fst st). name_ok n \<and> (\<forall>e. d = Some e \<longrightarrow> wf_node e))
     \<and> preds_ok ((\<lambda>(n, ty, d). (n, ty)) ` set (fst st)) (snd st)"

lemma fields_ok_Nil [simp]: "fields_ok ([], [])"
  by (simp add: fields_ok_def preds_ok_def)

lemma fields_ok_add:
  assumes "fields_ok (fs, preds)" "name_ok n" "n \<notin> fst ` set fs" "\<forall>e. d = Some e \<longrightarrow> wf_node e"
    "\<forall>r. p = Some r \<longrightarrow> wf_ref ty r"
  shows "fields_ok (fs @ [(n, ty, d)], case p of None \<Rightarrow> preds | Some r \<Rightarrow> AList.update n r preds)"
proof -
  have "preds_ok ((\<lambda>(n, ty, d). (n, ty)) ` set (fs @ [(n, ty, d)])) preds"
    by (rule preds_ok_mono) (use assms(1) in \<open>auto simp: fields_ok_def\<close>)
  then show ?thesis using assms
    by (cases p) (auto simp: fields_ok_def intro: preds_ok_update)
qed

lemma ok_struct_field:
  assumes "fields_ok st" "good ts"
  shows "ok (length ts) fields_ok (struct_field src st ts)"
proof -
  obtain fs preds where st: "st = (fs, preds)" by (cases st)
  have d: "ok (Suc (length us)) (\<lambda>d. \<forall>e. d = Some e \<longrightarrow> wf_node e)
      (if_sym ''='' (\<lambda>r. bindE (parse_expr True r) (\<lambda>(e, ts5). Inr (Some e, ts5))) (\<lambda>ts5. Inr (None, ts5)) us)"
    if "good us" for us
    using that by - (rule ok_rules | (simp; fail))+
  show ?thesis unfolding struct_field_def st Let_def prod.case
    using assms st
    by - (rule d ok_rules fields_ok_add | assumption | (simp; fail))+
qed

lemma ok_parse_struct:
  assumes "good ts"
  shows "ok (length ts) wf_struct (parse_struct src ts)"
proof -
  have l: "ok (length us) fields_ok (many_st (with_comma (struct_field src) ''}'') ''}'' (Suc (length us)) ([], []) us)"
    if "good us" for us
    by (rule ok_many_st [where k = "length us"])
      (use that in \<open>auto intro: ok_with_comma ok_struct_field\<close>)
  show ?thesis unfolding parse_struct_def using assms
    by - (rule l ok_rules | (simp; fail) | (simp add: fields_ok_def wf_struct_def; fail))+
qed

definition wf_enum :: "enum_decl \<Rightarrow> bool" where
  "wf_enum ed \<longleftrightarrow> name_ok (ed_name ed)
     \<and> (\<forall>tp \<in> set (ed_typeparams ed). name_ok tp \<and> tp \<notin> set SHADOWING_NAMES)
     \<and> ed_variants ed \<noteq> [] \<and> distinct (map fst (ed_variants ed)) \<and> (\<forall>(n, tys) \<in> set (ed_variants ed). name_ok n)"

definition variants_ok :: "(string \<times> string list) list \<Rightarrow> bool" where
  "variants_ok vs \<longleftrightarrow> distinct (map fst vs) \<and> (\<forall>(n, tys) \<in> set vs. name_ok n)"

lemma variants_ok_Nil [simp]: "variants_ok []"
  by (simp add: variants_ok_def)

lemma ok_enum_variant:
  assumes "variants_ok vs" "good ts"
  shows "ok (length ts) variants_ok (enum_variant vs ts)"
proof -
  have p: "ok (length us) (\<lambda>_. True) (payload_type us)" if "good us" for us
    unfolding payload_type_def by (rule ok_unrefined) (use that in \<open>rule ok_rules\<close>)
  have l: "ok (Suc (length us)) (\<lambda>_. True) (if_sym ''('' (comma_list payload_type '')'' (length us)) (\<lambda>ts2. Inr ([], ts2)) us)"
    if "good us" for us
  proof -
    have c: "ok (Suc (length us)) (\<lambda>_. True) (comma_list payload_type '')'' (length us) vs)"
      if "good vs" "length vs < length us" for vs
      by (rule ok_mono [OF ok_comma_list [where k = "length vs", OF p]]) (use that in auto)
    show ?thesis using that by - (rule ok_rules c | (simp; fail))+
  qed
  show ?thesis unfolding enum_variant_def using assms
    by - (rule l ok_rules | (simp; fail) | (auto simp: variants_ok_def; fail))+
qed

lemma ok_parse_enum:
  assumes "good ts"
  shows "ok (length ts) wf_enum (parse_enum ts)"
proof -
  have l: "ok (length us) variants_ok (many_st (with_comma enum_variant ''}'') ''}'' (Suc (length us)) [] us)"
    if "good us" for us
    by (rule ok_many_st [where k = "length us"])
      (use that in \<open>auto intro: ok_with_comma ok_enum_variant\<close>)
  show ?thesis unfolding parse_enum_def using assms
    by - (rule l ok_rules | (simp; fail) | (simp add: variants_ok_def wf_enum_def; fail))+
qed

lemma ok_parse_import: "good ts \<Longrightarrow> ok (length ts) (\<lambda>_. True) (parse_import ts)"
  unfolding parse_import_def by - (rule ok_rules | (simp; fail))+

section \<open>Functions\<close>

text \<open>An effect set as declared: known names, closed under the IO family.\<close>

definition effects_ok :: "string set \<Rightarrow> bool" where
  "effects_ok E \<longleftrightarrow> E \<subseteq> KNOWN_EFFECTS \<and> (''IO'' \<in> E \<longrightarrow> IO_FAMILY \<subseteq> E)"

definition wf_fn :: "fn_decl \<Rightarrow> bool" where
  "wf_fn fd \<longleftrightarrow> name_ok (fd_name fd)
     \<and> (\<forall>tp \<in> set (fd_typeparams fd). name_ok tp \<and> tp \<notin> set SHADOWING_NAMES)
     \<and> (\<forall>(n, ty, m) \<in> set (fd_params fd). name_ok n)
     \<and> preds_ok ((\<lambda>(n, ty, m). (n, ty)) ` set (fd_params fd)) (fd_param_preds fd)
     \<and> (\<forall>r. fd_ret_pred fd = Some r \<longrightarrow> wf_ref (fd_ret fd) r \<and> fd_typeparams fd = [])
     \<and> effects_ok (fd_effects fd) \<and> (fd_pure fd \<longrightarrow> fd_effects fd = {})
     \<and> (\<forall>e. fd_requires fd = Some e \<longrightarrow> wf_node e) \<and> (\<forall>e. fd_ensures fd = Some e \<longrightarrow> wf_node e)
     \<and> list_all wf_stmt (fd_body fd)
     \<and> attrs_ok (fd_attrs fd)
     \<and> (fd_extern fd \<longrightarrow> fd_body fd = [] \<and> fd_param_preds fd = [] \<and> fd_ret_pred fd = None)
     \<and> (\<not> fd_extern fd \<longrightarrow> untainted (fd_attrs fd))"

definition params_ok :: "param_state \<Rightarrow> bool" where
  "params_ok st \<longleftrightarrow> (\<forall>(n, ty, m) \<in> set (fst st). name_ok n)
     \<and> preds_ok ((\<lambda>(n, ty, m). (n, ty)) ` set (fst st)) (snd st)"

lemma params_ok_Nil [simp]: "params_ok ([], [])"
  by (simp add: params_ok_def preds_ok_def)

lemma params_ok_add:
  assumes "params_ok (ps, preds)" "name_ok n" "\<forall>r. p = Some r \<longrightarrow> wf_ref ty r"
  shows "params_ok (ps @ [(n, ty, m)], case p of None \<Rightarrow> preds | Some r \<Rightarrow> AList.update n r preds)"
proof -
  have "preds_ok ((\<lambda>(n, ty, m). (n, ty)) ` set (ps @ [(n, ty, m)])) preds"
    by (rule preds_ok_mono) (use assms(1) in \<open>auto simp: params_ok_def\<close>)
  then show ?thesis using assms
    by (cases p) (auto simp: params_ok_def intro: preds_ok_update)
qed

lemma ok_fn_param:
  assumes "params_ok st" "good ts"
  shows "ok (length ts) params_ok (fn_param src ext st ts)"
proof -
  obtain ps preds where st: "st = (ps, preds)" by (cases st)
  have p: "ok (Suc (length us)) (\<lambda>p. \<forall>r. p = Some r \<longrightarrow> wf_ref ty r)
      (if ext then bindE (reject_refinement us) (\<lambda>ts5. Inr (None, ts5)) else parse_refinement src ty us)"
    if "good us" for us ty
    using that by - (rule ok_rules | (simp; fail))+
  show ?thesis unfolding fn_param_def st Let_def prod.case
    using assms st
    by - (rule ok_flag p ok_rules params_ok_add | assumption | (simp; fail))+
qed

lemma ok_fn_ret [ok_rules]:
  assumes "good ts"
  shows "ok (Suc (length ts)) (\<lambda>(ret, p). \<forall>r. p = Some r \<longrightarrow> wf_ref ret r \<and> tps = []) (fn_ret src ext tps ts)"
  unfolding fn_ret_def using assms by - (rule ok_rules | (simp; fail))+

lemma ok_fn_uses:
  assumes "good ts" "length ts < n" "effects_ok effs"
  shows "ok (length ts) effects_ok (fn_uses n expl effs ts)"
  using assms
proof (induction n arbitrary: expl effs ts)
  case 0
  then show ?case by simp
next
  case (Suc n)
  have step: "effects_ok (insert e effs \<union> (if e = ''IO'' then IO_FAMILY else {}))" if "e \<in> KNOWN_EFFECTS" for e
    using that Suc.prems(3) by (auto simp: effects_ok_def IO_FAMILY_def KNOWN_EFFECTS_def)
  have IH: "ok (length ts) effects_ok (fn_uses n ex effs' us)"
    if "good us" "length us < length ts" "effects_ok effs'" for ex effs' us
    by (rule ok_mono [OF Suc.IH [OF that(1) _ that(3)]]) (use that Suc.prems in auto)
  show ?case unfolding fn_uses.simps Let_def
    using Suc.prems by - (rule ok_rules IH step | (simp del: Un_insert_left; fail) | blast)+
qed

lemma ok_fn_effects [ok_rules]:
  assumes "good ts"
  shows "ok (Suc (length ts)) (\<lambda>E. effects_ok E \<and> (pure \<longrightarrow> E = {})) (fn_effects t0 pure ts)"
proof -
  have u: "ok (Suc (length ts)) (\<lambda>E. effects_ok E \<and> (pure \<longrightarrow> E = {})) (fn_uses (Suc (length us)) {} {} us)"
    if "good us" "length us < length ts" "\<not> pure" for us
    by (rule ok_mono [OF ok_fn_uses]) (use that in \<open>auto simp: effects_ok_def\<close>)
  show ?thesis unfolding fn_effects_def using assms
    by - (rule ok_rules u | (simp add: effects_ok_def; fail))+
qed

lemma ok_contract_clauses:
  assumes "good ts" "length ts < n" "\<forall>e \<in> set reqs. wf_node e" "\<forall>e \<in> set enss. wf_node e"
  shows "ok (Suc (length ts)) (\<lambda>(rs, es). (\<forall>e \<in> set rs. wf_node e) \<and> (\<forall>e \<in> set es. wf_node e))
    (contract_clauses n reqs enss ts)"
  using assms
proof (induction n arbitrary: reqs enss ts)
  case 0
  then show ?case by simp
next
  case (Suc n)
  let ?Q = "\<lambda>(rs, es). (\<forall>e \<in> set rs. wf_node e) \<and> (\<forall>e \<in> set es. wf_node e)"
  have IH: "ok (Suc (length ts)) ?Q (contract_clauses n rs es us)"
    if "good us" "length us < length ts" "\<forall>e \<in> set rs. wf_node e" "\<forall>e \<in> set es. wf_node e" for rs es us
    by (rule ok_mono [OF Suc.IH [OF that(1) _ that(3,4)]]) (use that Suc.prems in auto)
  show ?case unfolding contract_clauses.simps
  proof (rule ok_head [OF Suc.prems(1)])
    fix t r
    assume ts: "ts = t # r" and "t_val t \<noteq> TEof \<Longrightarrow> good r"
    then have "good r" if "t_val t = TKw k" for k using that by simp
    then show "ok (Suc (length ts)) ?Q
       (if t_val t = TKw ''requires'' \<and> enss = [] then
          bindE (parse_expr False r) (\<lambda>(e, ts1). contract_clauses n (reqs @ [e]) enss ts1)
        else if t_val t = TKw ''ensures'' then
          bindE (parse_expr False r) (\<lambda>(e, ts1). contract_clauses n reqs (enss @ [e]) ts1)
        else Inr ((reqs, enss), ts))"
      using Suc.prems by - (rule ok_rules IH | (simp add: ts; fail) | blast)+
  qed
qed

lemma wf_conj_all: "\<forall>e \<in> set es. wf_node e \<Longrightarrow> conj_all es = Some x \<Longrightarrow> wf_node x"
proof -
  have "wf_node (foldl (NBin ''&&'') e es)" if "wf_node e" "\<forall>e \<in> set es. wf_node e" for e es
    using that by (induction es arbitrary: e) (auto simp: BIN_LEVELS_def)
  then show "\<forall>e \<in> set es. wf_node e \<Longrightarrow> conj_all es = Some x \<Longrightarrow> wf_node x"
    by (cases es) (auto simp: conj_all_def)
qed

lemma ok_parse_contracts [ok_rules]:
  assumes "good ts"
  shows "ok (Suc (length ts)) (\<lambda>(req, ens). (\<forall>e. req = Some e \<longrightarrow> wf_node e) \<and> (\<forall>e. ens = Some e \<longrightarrow> wf_node e))
    (parse_contracts ts)"
  unfolding parse_contracts_def
  by (rule ok_bind [OF ok_contract_clauses [OF assms]])
    (use wf_conj_all in \<open>auto intro!: ok_rules\<close>)

lemma ok_parse_fn [ok_rules]:
  assumes "good ts" "if ext then attrs_ok A else fn_attrs_ok A"
  shows "ok (length ts) (\<lambda>fd. wf_fn fd \<and> fd_extern fd = ext \<and> fd_struct fd = sn) (parse_fn src A sn ext ts)"
proof -
  have l: "ok (length us) params_ok (many_st (with_comma (fn_param src ext) '')'') '')'' (Suc (length us)) ([], []) us)"
    if "good us" for us
    by (rule ok_many_st [where k = "length us"])
      (use that in \<open>auto intro: ok_with_comma ok_fn_param\<close>)
  have b: "ok (Suc (length us)) (\<lambda>b. list_all wf_stmt b \<and> (ext \<longrightarrow> b = [])) (if ext then Inr ([], us) else parse_body src us)"
    if "good us" for us
    using that by (auto intro!: ok_rules ok_mono [OF ok_parse_body])
  have ext: "attrs_ok (reset_cur_attrs\<lparr>at_taint_source := at_taint_source A, at_taint_sinks := at_taint_sinks A\<rparr>)" if ext
    using assms(2) that attrs_ok_reset(2) by (simp add: attrs_ok_def)
  show ?thesis unfolding parse_fn_def using assms(1)
    by - (rule l b ok_flag ok_rules | (simp; fail)
      | (use assms(2) ext in \<open>cases ext; auto simp: wf_fn_def params_ok_def fn_attrs_ok_def preds_ok_def\<close>; fail))+
qed

section \<open>The program\<close>

text \<open>The functions of a program: keys are distinct, and a key is the function's name, prefixed by its
  struct's for a method.\<close>

definition fn_key :: "fn_decl \<Rightarrow> string" where
  "fn_key fd = (case fd_struct fd of None \<Rightarrow> fd_name fd | Some s \<Rightarrow> s @ ''.'' @ fd_name fd)"

definition fns_ok :: "fn_table \<Rightarrow> bool" where
  "fns_ok fns \<longleftrightarrow> distinct (map fst fns) \<and> (\<forall>(k, fd) \<in> set fns. wf_fn fd \<and> k = fn_key fd)"

lemma fns_ok_add:
  assumes "fns_ok fns" "wf_fn fd" "fn_key fd \<notin> fst ` set fns"
  shows "fns_ok (AList.update (fn_key fd) fd fns)"
  using assms by (auto simp: fns_ok_def add_key_new)

definition impl_ok :: "string \<Rightarrow> fn_table \<Rightarrow> fn_table \<times> fn_attrs \<Rightarrow> bool" where
  "impl_ok sname fns0 st \<longleftrightarrow> fns_ok (fst st) \<and> fn_attrs_ok (snd st) \<and> set fns0 \<subseteq> set (fst st)"

lemma ok_impl_item:
  assumes "impl_ok s fns0 st" "good ts" "length ts \<le> f"
  shows "ok (length ts) (impl_ok s fns0) (impl_item src t0 s f st ts)"
  unfolding impl_item_def
proof (rule ok_head [OF assms(2)])
  fix t r
  assume ts: "ts = t # r"
  have A: "fn_attrs_ok (snd st)" using assms(1) by (simp add: impl_ok_def)
  have add: "impl_ok s fns0 (AList.update (s @ ''.'' @ fd_name fd) fd (fst st), reset_cur_attrs)"
    if "wf_fn fd \<and> fd_extern fd = False \<and> fd_struct fd = Some s" "s @ ''.'' @ fd_name fd \<notin> fst ` set (fst st)" for fd
    using fns_ok_add [of "fst st" fd] that assms(1)
    by (auto simp: impl_ok_def fn_key_def add_key_new)
  show "ok (length ts) (impl_ok s fns0)
     (if t_val t = TSym ''#'' then
        bindE (parse_attributes f (snd st) ts) (\<lambda>(A, ts1). Inr ((fst st, A), ts1))
      else if t_val t = TKw ''fn'' then
        bindE (parse_fn src (snd st) (Some s) False ts) (\<lambda>(fd, ts1).
        let key = s @ ''.'' @ fd_name fd in
        if key \<in> fst ` set (fst st) then fail_at t0 (Refused ''duplicate method name'')
        else Inr ((AList.update key fd (fst st), reset_cur_attrs), ts1))
      else refuse ''only fn definitions allowed inside impl'' ts)"
    unfolding Let_def using assms A
    by - (rule ok_parse_attributes [OF A assms(2,3) ts] ok_rules add | assumption | (simp; fail)
      | (simp add: impl_ok_def; fail))+
qed

lemma ok_parse_impl [ok_rules]:
  assumes "good ts" "fns_ok fns"
  shows "ok (length ts) (\<lambda>fns1. fns_ok fns1 \<and> set fns \<subseteq> set fns1) (parse_impl src fns ts)"
proof -
  have l: "ok (length us) (impl_ok s fns) (many_st (impl_item src t0 s (length ts)) ''}'' (Suc (length us)) (fns, reset_cur_attrs) us)"
    if "good us" "length us < length ts" for us s t0
    by (rule ok_many_st [where k = "length us"])
      (use that assms(2) in \<open>auto intro: ok_impl_item simp: impl_ok_def\<close>)
  show ?thesis unfolding parse_impl_def using assms
    by - (rule l ok_rules | (simp; fail) | (simp add: impl_ok_def; fail))+
qed

definition decls_ok :: "fn_decl list \<Rightarrow> bool" where
  "decls_ok ds \<longleftrightarrow> (\<forall>fd \<in> set ds. wf_fn fd \<and> fd_extern fd \<and> fd_struct fd = None \<and> (fd_pure fd \<or> fd_effects fd \<noteq> {}))"

lemma ok_extern_decl:
  assumes "decls_ok ds" "good ts" "length ts \<le> f"
  shows "ok (length ts) decls_ok (extern_decl src t0 f ds ts)"
proof -
  have p: "ok (length ts) (\<lambda>fd. wf_fn fd \<and> fd_extern fd = True \<and> fd_struct fd = None) (parse_fn src A None True us)"
    if "attrs_ok A" "good us" "length us < Suc (length ts)" for A us
    by (rule ok_mono [OF ok_parse_fn]) (use that in auto)
  show ?thesis unfolding extern_decl_def
    using assms by - (rule ok_extern_attrs p ok_rules | (simp; fail) | (auto simp: decls_ok_def; fail))+
qed

lemma ok_parse_extern_block [ok_rules]:
  assumes "good ts"
  shows "ok (length ts) (\<lambda>(abi, ds). abi \<in> {''C'', ''js''} \<and> decls_ok ds) (parse_extern_block src ts)"
proof -
  have l: "ok (length us) decls_ok (many_st (extern_decl src t0 (length ts)) ''}'' (Suc (length us)) [] us)"
    if "good us" "length us < length ts" for us t0
    by (rule ok_many_st [where k = "length us"])
      (use that in \<open>auto intro: ok_extern_decl simp: decls_ok_def [of "[]"]\<close>)
  show ?thesis unfolding parse_extern_block_def using assms
    by - (rule l ok_rules | (simp; fail))+
qed

definition crate_value_ok :: "string \<Rightarrow> crate_value \<Rightarrow> bool" where
  "crate_value_ok name v \<longleftrightarrow>
     (case v of
        CNone \<Rightarrow> name \<in> {''freestanding'', ''no_std''}
      | CSize n \<Rightarrow> name = ''stack_size'' \<and> 0 < n
      | CPath s \<Rightarrow> name = ''link_script'' \<and> s \<noteq> []
      | CProtocol q \<Rightarrow> name = ''boot_header'' \<and> q \<in> set BOOT_PROTOCOLS)"

definition wf_program :: "program \<Rightarrow> bool" where
  "wf_program p \<longleftrightarrow>
     distinct (map fst (pg_structs p) @ map fst (pg_enums p))
     \<and> (\<forall>(k, sd) \<in> set (pg_structs p). k = sd_name sd \<and> wf_struct sd \<and> k \<notin> set RESERVED_TYPE_NAMES)
     \<and> (\<forall>(k, ed) \<in> set (pg_enums p). k = ed_name ed \<and> wf_enum ed \<and> k \<notin> set RESERVED_TYPE_NAMES)
     \<and> fns_ok (pg_fns p)
     \<and> (\<forall>(abi, ds) \<in> set (pg_externs p). abi \<in> {''C'', ''js''} \<and> decls_ok ds
          \<and> (\<forall>fd \<in> set ds. (fd_name fd, fd) \<in> set (pg_fns p)))
     \<and> distinct (map fst (pg_crate_attrs p)) \<and> (\<forall>(n, v) \<in> set (pg_crate_attrs p). crate_value_ok n v)
     \<and> fn_attrs_ok (pg_attrs p)"

lemma ok_crate_argument:
  assumes "good ts" "name \<in> set CRATE_ATTRS"
  shows "ok (Suc (length ts)) (crate_value_ok name) (crate_argument t0 seen name ts)"
proof -
  have a: "ok (length us) (\<lambda>n. 0 < n) (crate_size us)" if "good us" for us
    unfolding crate_size_def using that by - (rule ok_rules | (simp; fail))+
  have b: "ok (length us) (\<lambda>s. s \<noteq> []) (crate_path us)" if "good us" for us
    unfolding crate_path_def using that by - (rule ok_rules | (simp add: decode_def; fail))+
  have c: "ok (length us) (\<lambda>q. q \<in> set BOOT_PROTOCOLS) (protocol_name us)" if "good us" for us
    using that good_tail by (cases us) (auto simp: protocol_name_def split: tokval.split intro!: ok_rules)
  show ?thesis unfolding crate_argument_def using assms
    by - (rule a b c ok_rules | (simp add: crate_value_ok_def; fail)
      | (auto simp: crate_value_ok_def CRATE_ATTRS_def; fail))+
qed

lemma ok_parse_crate_attr:
  assumes "good ts"
  shows "ok (length ts) (\<lambda>(n, v). crate_value_ok n v) (parse_crate_attr seen ts)"
proof -
  have n: "ok (length us) (\<lambda>(n, v). crate_value_ok n v)
      (case us of
       [] \<Rightarrow> Inl PIndex
     | nt # r \<Rightarrow>
         (case t_val nt of
            TIdent name \<Rightarrow>
              if name \<notin> set CRATE_ATTRS then fail_at nt (Refused ''unknown crate attribute'')
              else
                bindE (crate_argument t0 seen name r) (\<lambda>(v, ts4).
                bindE (eat_sym '']'' ts4) (\<lambda>ts5. Inr ((name, v), ts5)))
          | x \<Rightarrow> fail_at nt (Expected ''a crate attribute name'' x)))"
    if "good us" for us t0
  proof (rule ok_head [OF that])
    fix nt r
    assume us: "us = nt # r" and g: "t_val nt \<noteq> TEof \<Longrightarrow> good r"
    show "ok (length us) (\<lambda>(n, v). crate_value_ok n v) (case t_val nt of
            TIdent name \<Rightarrow>
              if name \<notin> set CRATE_ATTRS then fail_at nt (Refused ''unknown crate attribute'')
              else
                bindE (crate_argument t0 seen name r) (\<lambda>(v, ts4).
                bindE (eat_sym '']'' ts4) (\<lambda>ts5. Inr ((name, v), ts5)))
          | x \<Rightarrow> fail_at nt (Expected ''a crate attribute name'' x))"
    proof (cases "t_val nt")
      case (TIdent name)
      with g have "good r" by simp
      then show ?thesis unfolding TIdent tokval.case
        by - (rule ok_crate_argument ok_rules | (simp add: us; fail))+
    qed (auto intro: ok_rules)
  qed
  show ?thesis unfolding parse_crate_attr_def using assms
    by - (rule ok_rules ok_mono [OF n] | (simp; fail))+
qed

lemma ok_crate_item:
  assumes "wf_program p" "good ts"
  shows "ok (length ts) wf_program (crate_item p ts)"
  unfolding crate_item_def using assms
  by - (rule ok_parse_crate_attr ok_rules | (simp; fail) | (auto simp: wf_program_def; fail))+

lemma okt_check_type_name:
  assumes "good ts"
  shows "okt (Suc (length ts)) (check_type_name name p ts)"
  unfolding check_type_name_def using assms by (auto intro: ok_rules)

lemma check_type_name_fresh:
  "check_type_name name p ts = Inr us \<Longrightarrow> good ts \<Longrightarrow>
     us = ts \<and> name \<notin> set RESERVED_TYPE_NAMES \<and> name \<notin> fst ` set (pg_structs p) \<and> name \<notin> fst ` set (pg_enums p)"
  by (cases ts) (auto simp: check_type_name_def refuse_def peek_def fail_at_def split: if_splits)

text \<open>Adding functions to the table.\<close>

lemma add_fns_ok:
  assumes "fns_ok fns" "\<forall>fd \<in> set fds. wf_fn fd \<and> fd_struct fd = None" "good ts"
  shows "case add_fns fds fns ts of Inl e \<Rightarrow> is_perr e
     | Inr fns1 \<Rightarrow> fns_ok fns1 \<and> set fns \<subseteq> set fns1 \<and> (\<forall>fd \<in> set fds. (fd_name fd, fd) \<in> set fns1)"
  using assms(1,2)
proof (induction fds arbitrary: fns)
  case Nil
  then show ?case by simp
next
  case (Cons fd fds)
  show ?case
  proof (cases "fd_name fd \<in> fst ` set fns")
    case True
    then show ?thesis using assms(3)
      by (cases ts) (auto simp: refuse_def peek_def fail_at_def is_perr_def)
  next
    case False
    let ?fns = "AList.update (fd_name fd) fd fns"
    have key: "fd_name fd = fn_key fd" using Cons.prems(2) by (simp add: fn_key_def)
    have "fns_ok ?fns" unfolding key using Cons.prems False key by (intro fns_ok_add) auto
    then have "case add_fns fds ?fns ts of Inl e \<Rightarrow> is_perr e
       | Inr fns1 \<Rightarrow> fns_ok fns1 \<and> set ?fns \<subseteq> set fns1 \<and> (\<forall>fd \<in> set fds. (fd_name fd, fd) \<in> set fns1)"
      using Cons.prems(2) by (intro Cons.IH) auto
    then show ?thesis using False by (auto simp: add_key_new split: sum.splits)
  qed
qed

lemma ok_add_fns:
  assumes "fns_ok fns" "\<forall>fd \<in> set fds. wf_fn fd \<and> fd_struct fd = None" "good ts"
    "\<And>fns1. fns_ok fns1 \<Longrightarrow> set fns \<subseteq> set fns1 \<Longrightarrow> \<forall>fd \<in> set fds. (fd_name fd, fd) \<in> set fns1 \<Longrightarrow> ok n Q (g fns1)"
  shows "ok n Q (bindE (add_fns fds fns ts) g)"
  using add_fns_ok [OF assms(1-3)] assms(4) by (cases "add_fns fds fns ts") (auto simp: ok_def)

lemma wf_item_fns:
  assumes "wf_program p" "fns_ok fns" "set (pg_fns p) \<subseteq> set fns"
  shows "wf_program (item_done (p\<lparr>pg_fns := fns\<rparr>))"
  using assms by (fastforce simp: wf_program_def item_done_def)

lemma ok_program_item:
  assumes "wf_program p" "good ts" "ts = t # r"
  shows "ok (length ts) wf_program (program_item src p t ts)"
proof -
  have fns: "fns_ok (pg_fns p)" using assms(1) by (simp add: wf_program_def)
  have chk: "ok (length ts) wf_program (bindE (check_type_name name p us) (\<lambda>ts2. Inr (item_done q, ts2)))"
    if "good us" "length us < length ts"
      "name \<notin> set RESERVED_TYPE_NAMES \<Longrightarrow> name \<notin> fst ` set (pg_structs p) \<Longrightarrow> name \<notin> fst ` set (pg_enums p) \<Longrightarrow>
         wf_program (item_done q)" for name us q
    using okt_check_type_name [OF that(1), of name p] check_type_name_fresh [OF _ that(1), of name p] that
    by (cases "check_type_name name p us") (auto simp: okt_def ok_def)
  have s: "wf_program (item_done (p\<lparr>pg_structs := AList.update (sd_name sd) sd (pg_structs p)\<rparr>))"
    if "wf_struct sd" "sd_name sd \<notin> set RESERVED_TYPE_NAMES" "sd_name sd \<notin> fst ` set (pg_structs p)"
      "sd_name sd \<notin> fst ` set (pg_enums p)" for sd
    using assms(1) that by (simp add: wf_program_def item_done_def add_key_new)
  have e: "wf_program (item_done (p\<lparr>pg_enums := AList.update (ed_name ed) ed (pg_enums p)\<rparr>))"
    if "wf_enum ed" "ed_name ed \<notin> set RESERVED_TYPE_NAMES" "ed_name ed \<notin> fst ` set (pg_structs p)"
      "ed_name ed \<notin> fst ` set (pg_enums p)" for ed
    using assms(1) that by (auto simp: wf_program_def item_done_def add_key_new)
  have i: "wf_program (item_done (p\<lparr>pg_imports := x\<rparr>))" for x
    using assms(1) by (simp add: wf_program_def item_done_def)
  have x: "wf_program (item_done (p\<lparr>pg_fns := fns, pg_externs := pg_externs p @ [(abi, ds)]\<rparr>))"
    if "fns_ok fns" "set (pg_fns p) \<subseteq> set fns" "\<forall>fd \<in> set ds. (fd_name fd, fd) \<in> set fns" "abi \<in> {''C'', ''js''}"
      "decls_ok ds" for fns abi ds
    using assms(1) that by (fastforce simp: wf_program_def item_done_def)
  have a: "fn_attrs_ok (pg_attrs p)" using assms(1) by (simp add: wf_program_def)
  show ?thesis unfolding program_item_def using assms(1,2) fns a
    by - (rule chk s e i x ok_add_fns wf_item_fns ok_parse_struct ok_parse_enum ok_parse_import ok_rules
      | assumption | (simp; fail) | (auto simp: decls_ok_def; fail))+
qed

lemma ok_program_loop:
  assumes "wf_program p" "good ts" "length ts < n"
  shows "ok (Suc (length ts)) wf_program (program_loop src n p ts)"
  using assms
proof (induction n arbitrary: p ts)
  case 0
  then show ?case by simp
next
  case (Suc n)
  have IH: "ok (Suc (length ts)) wf_program (program_loop src n q us)"
    if "wf_program q" "good us" "length us < length ts" for q us
    by (rule ok_mono [OF Suc.IH [OF that(1,2)]]) (use that Suc.prems in auto)
  have A: "fn_attrs_ok (pg_attrs p)" using Suc.prems(1) by (simp add: wf_program_def)
  have q: "wf_program (p\<lparr>pg_attrs := A\<rparr>)" if "fn_attrs_ok A" for A
    using Suc.prems(1) that by (simp add: wf_program_def)
  show ?case unfolding program_loop.simps
  proof (rule ok_head [OF Suc.prems(2)])
    fix t r
    assume ts: "ts = t # r" and "t_val t \<noteq> TEof \<Longrightarrow> good r"
    then have g: "good r" if "t_val t = TSym s" for s using that by simp
    have attrs: "ok (length ts) fn_attrs_ok (parse_attributes n (pg_attrs p) ts)" if "t_val t = TSym ''#''"
      by (rule ok_parse_attributes [OF A Suc.prems(2) _ ts that]) (use Suc.prems(3) in simp)
    show "ok (Suc (length ts)) wf_program
       (if t_val t = TEof then Inr (p, ts)
          else if t_val t = TSym ''#'' then
            bindE (peek r) (\<lambda>nxt.
            if t_val nxt = TSym ''!'' then
              bindE (crate_item p ts) (\<lambda>(p1, ts1). program_loop src n p1 ts1)
            else
              bindE (parse_attributes n (pg_attrs p) ts) (\<lambda>(A, ts1).
              program_loop src n (p\<lparr>pg_attrs := A\<rparr>) ts1))
          else bindE (program_item src p t ts) (\<lambda>(p1, ts1). program_loop src n p1 ts1))"
      using Suc.prems
      by - (rule ok_If ok_peek g ok_bind [OF ok_crate_item] ok_bind [OF attrs] ok_bind [OF ok_program_item [OF _ _ ts]]
          ok_Inr IH q | assumption | (simp; fail))+
  qed
qed

theorem parse_program_ok:
  assumes "good ts"
  shows "case parse_program src ts of Inl e \<Rightarrow> is_perr e | Inr p \<Rightarrow> wf_program p"
proof -
  have "wf_program no_program"
    by (simp add: wf_program_def no_program_def fns_ok_def)
  from ok_program_loop [OF this assms, of "Suc (length ts)" src] show ?thesis
    by (cases "program_loop src (Suc (length ts)) no_program ts") (auto simp: parse_program_def ok_def)
qed

end
