(* ===== verification/ParserProps.thy ===== *)
theory ParserProps
  imports ParseRound ParseWf LexerProps
begin

text \<open>The properties of the parser, on the lexer's output.\<close>

section \<open>The front end\<close>

lemma lexed_good:
  assumes "tokenize fl src = Inr ts"
  shows "good ts"
proof -
  obtain us l c where ts: "ts = us @ [tok TEof l c]" "\<forall>t\<in>set us. tok_ok fl (t_val t) \<and> t_val t \<noteq> TEof"
    using assms lex_go_ok unfolding tokenize_def by blast
  then have "\<forall>t \<in> set us. t_val t \<noteq> TIdent []" by (auto simp: word_shape_def)
  then show ?thesis by (auto simp: good_def ts(1))
qed

text \<open>A value from source text, an error of the lexer, or an error of the parser.\<close>

datatype front_error = LexError lex_error | ParseError perr

definition front_end :: "(string \<Rightarrow> 64 word option) \<Rightarrow> bytes \<Rightarrow> front_error + program" where
  "front_end fl src =
     (case tokenize fl src of
        Inl e \<Rightarrow> Inl (LexError e)
      | Inr ts \<Rightarrow> (case parse_program src ts of Inl e \<Rightarrow> Inl (ParseError e) | Inr p \<Rightarrow> Inr p))"

text \<open>C5. The front end is total. On every byte string it returns an error of the lexer, an error
  of the parser at a token (never one of reading past the end, and never by running out of fuel), or a
  well-formed program: distinct names that are no reserved types, methods under their struct's name,
  structs and enums that are not empty with defaults last, pure functions without effects and effect
  sets of known effects closed under IO, extern functions without body and with a declared effect or
  \<open>pure\<close>, refinements on primitive types of the names they belong to, attributes that do not exclude
  each other and are in range, assignments to variables, fields and indices of variables, and only the
  nodes, patterns and statements of the grammar.\<close>

theorem front_end_total:
  "(\<exists>e. front_end fl src = Inl (LexError e)) \<or> (\<exists>m l c. front_end fl src = Inl (ParseError (PErr m l c)))
   \<or> (\<exists>p. front_end fl src = Inr p \<and> wf_program p)"
proof (cases "tokenize fl src")
  case (Inl e)
  then show ?thesis by (intro disjI1 exI [of _ e]) (simp add: front_end_def)
next
  case (Inr ts)
  show ?thesis
  proof (cases "parse_program src ts")
    case e: (Inl e)
    then show ?thesis using parse_program_ok [OF lexed_good [OF Inr], of src] Inr
      by (cases e) (auto simp: front_end_def is_perr_def)
  next
    case p: (Inr p)
    then show ?thesis using parse_program_ok [OF lexed_good [OF Inr], of src] Inr by (simp add: front_end_def)
  qed
qed

section \<open>Expressions\<close>

text \<open>A token's value without the spelling of its number; the tokens that a text can spell.\<close>

definition unspelt :: "tokval \<Rightarrow> tokval" where
  "unspelt v = (case v of TInt n _ \<Rightarrow> TInt n [] | TFloat w _ \<Rightarrow> TFloat w [] | _ \<Rightarrow> v)"

definition lexeme :: "(string \<Rightarrow> 64 word option) \<Rightarrow> tokval \<Rightarrow> bool" where
  "lexeme fl v \<longleftrightarrow> tok_ok fl v \<and> v \<noteq> TEof \<and> v \<noteq> TSym ''#''"

lemma tval_unspelt: "tval t = unspelt (t_val t)"
  by (cases "t_val t") (simp_all add: tval_def unspelt_def)

lemma lexeme_not_empty: "lexeme fl v \<Longrightarrow> v \<noteq> TIdent []"
  by (auto simp: lexeme_def word_shape_def)

lemma placed_toks: "\<exists>us c. placed col vs = us @ [tok TEof 1 c] \<and> map t_val us = vs"
proof (induction vs arbitrary: col)
  case Nil
  show ?case by simp
next
  case (Cons v vs)
  then obtain us c where "placed (col + length (render v) + 1) vs = us @ [tok TEof 1 c]" "map t_val us = vs"
    by blast
  then show ?case by (intro exI [of _ "tok v 1 col # us"] exI [of _ c]) simp
qed

text \<open>C9. Printing an expression and parsing it gives the expression back. The tokens of a
  well-formed node, with parentheses only where its level in the grammar is too low or a struct literal
  is not allowed, parse to the node and leave the rest, whatever follows that cannot continue it: the
  operators bind and associate as the levels say. The printed text, lexed and parsed, is the node again.\<close>

theorem printed_expression_parses:
  assumes "wf_node e" "map unspelt vs = show_node 0 a e" "\<forall>v \<in> set vs. lexeme fl v"
  shows "(\<forall>us rest. map t_val us = vs \<longrightarrow> stop 0 a rest \<longrightarrow> good rest \<longrightarrow> parse_expr a (us @ rest) = Inr (e, rest))
    \<and> (\<exists>ts. tokenize fl (print_toks vs) = Inr ts \<and> parse_expr a ts = Inr (e, [last ts]))"
proof -
  have tokens: "parse_expr a (us @ rest) = Inr (e, rest)"
    if "map t_val us = vs" "stop 0 a rest" "good rest" for us rest
  proof -
    have "map tval us = map unspelt (map t_val us)" by (simp add: tval_unspelt)
    then have "map tval us = show_node 0 a e" using assms(2) that(1) by simp
    moreover have "good (us @ rest)" using that lexeme_not_empty assms(3) by (fastforce simp: good_def)
    ultimately show ?thesis using that(2) by (intro parse_shown assms(1))
  qed
  obtain us c where us: "placed 1 vs = us @ [tok TEof 1 c]" "map t_val us = vs" using placed_toks by blast
  have "tokenize fl (print_toks vs) = Inr (us @ [tok TEof 1 c])"
    unfolding tokenize_def us(1) [symmetric] by (rule relex_go) (use assms(3) in \<open>auto simp: lexeme_def\<close>)
  moreover have "stop 0 a [tok TEof 1 c]" "good [tok TEof 1 c]"
    by (auto simp: stop_def good_def postfix_syms_def)
  ultimately show ?thesis using tokens us(2) by fastforce
qed

text \<open>\<open>a - (b - 1) * -x.f(2)[0]?\<close>\<close>

definition demo_node :: node where
  "demo_node = NBin ''-'' (NIdent ''a'') (NBin ''*'' (NBin ''-'' (NIdent ''b'') (NInt 1))
     (NUn ''-'' (NQmark (NIndex (NFieldCall (NIdent ''x'') ''f'' [NInt 2]) (NInt 0)))))"

definition demo_toks :: "tokval list" where
  "demo_toks = [TIdent ''a'', TSym ''-'', TSym ''('', TIdent ''b'', TSym ''-'', TInt 1 [49], TSym '')'', TSym ''*'',
     TSym ''-'', TIdent ''x'', TSym ''.'', TIdent ''f'', TSym ''('', TInt 2 [50], TSym '')'', TSym ''['',
     TInt 0 [48], TSym '']'', TSym ''?'']"

lemma demo_lexemes: "\<forall>v \<in> set demo_toks. lexeme (\<lambda>_. None) v"
proof -
  have n: "\<exists>s. scan_number s = ([d], False)" if "is_dec d" for d
    by (rule exI [of _ "[d]"]) (use that in \<open>simp add: scan_number_def scan_fraction_def scan_exponent_def is_dec_num\<close>)
  show ?thesis
    by (simp add: demo_toks_def lexeme_def word_shape_def KEYWORDS_def ONE_CHAR_def code_of_def is_ident_start_def
        is_ident_char_def digits_next_def is_dec_def n number_value_def Let_def decode_def int_of_def dec_step_def)
qed

theorem printed_expression_parses_witness:
  "\<exists>ts. tokenize (\<lambda>_. None) (print_toks demo_toks) = Inr ts \<and> parse_expr True ts = Inr (demo_node, [last ts])"
proof -
  have wf: "wf_node demo_node"
    by (simp add: demo_node_def BIN_LEVELS_def name_ok_def RESERVED_IDENTIFIERS_def)
  have shown: "map unspelt demo_toks = show_node 0 True demo_node"
    by (simp add: demo_toks_def demo_node_def unspelt_def show_node_def parens_def op_level_def BIN_LEVELS_def
        del: show_folds)
  from printed_expression_parses [OF wf shown demo_lexemes] show ?thesis by blast
qed

end
