(* ===== verification/Positions.thy ===== *)
theory Positions
  imports ParseRound ParseWf LexerProps
begin

text \<open>
  The positions the lexer gives its tokens, and the source text the parser cuts out between two of them.
\<close>

section \<open>Lines and columns\<close>

text \<open>Having read \<open>pre\<close> of the source, with \<open>s\<close> still to read, the lexer is at \<open>line\<close> and \<open>col\<close>.\<close>

definition place :: "bytes \<Rightarrow> nat \<Rightarrow> nat \<Rightarrow> bool" where
  "place pre line col \<longleftrightarrow>
     line = Suc (count_list pre 10) \<and> col = Suc (length (takeWhile (\<lambda>c. c \<noteq> 10) (rev pre)))"

lemma place_start: "place [] 1 1"
  by (simp add: place_def)

lemma place_newline: "place pre line col \<Longrightarrow> place (pre @ [10]) (line + 1) 1"
  by (simp add: place_def)

lemma takeWhile_all_append: "list_all P xs \<Longrightarrow> takeWhile P (xs @ ys) = xs @ takeWhile P ys"
  by (induction xs) simp_all

lemma place_chunk:
  assumes "place pre line col" "10 \<notin> set w"
  shows "place (pre @ w) line (col + length w)"
proof -
  have "list_all (\<lambda>c. c \<noteq> 10) (rev w)" using assms(2) by (auto simp: list_all_iff)
  then show ?thesis using assms count_notin [OF assms(2)]
    by (simp add: place_def takeWhile_all_append)
qed

lemma line_offs_snoc:
  "line_offs (src @ [c]) = line_offs src @ (if c = 10 then [Suc (length src)] else [])"
proof -
  have "filter (\<lambda>i. (src @ [c]) ! i = 10) [0..<length src] = filter (\<lambda>i. src ! i = 10) [0..<length src]"
    by (rule filter_cong) (auto simp: nth_append)
  then show ?thesis by (simp add: line_offs_def nth_append)
qed

lemma line_offs_length: "length (line_offs pre) = Suc (count_list pre 10)"
  by (induction pre rule: rev_induct) (simp_all add: line_offs_snoc, simp add: line_offs_def)

lemma line_offs_last:
  "line_offs pre ! count_list pre 10 = length pre - length (takeWhile (\<lambda>c. c \<noteq> 10) (rev pre))"
proof (induction pre rule: rev_induct)
  case Nil
  show ?case by (simp add: line_offs_def)
next
  case (snoc c pre)
  have "length (takeWhile (\<lambda>c. c \<noteq> 10) (rev pre)) \<le> length pre"
    using length_takeWhile_le [of _ "rev pre"] by simp
  then show ?case using snoc line_offs_length [of pre]
    by (simp add: line_offs_snoc nth_append)
qed

lemma line_offs_append: "\<exists>more. line_offs (pre @ s) = line_offs pre @ more"
proof (induction s rule: rev_induct)
  case Nil
  show ?case by simp
next
  case (snoc c s)
  then show ?case using line_offs_snoc [of "pre @ s" c] by auto
qed

lemma src_off_place:
  assumes "place pre line col"
  shows "src_off (pre @ s) line col = length pre"
proof -
  obtain more where m: "line_offs (pre @ s) = line_offs pre @ more" using line_offs_append by blast
  let ?n = "count_list pre 10"
  have "min (max line 1) (length (line_offs (pre @ s))) - 1 = ?n"
    using assms by (simp add: place_def m line_offs_length)
  moreover have "line_offs (pre @ s) ! ?n = length pre - (col - 1)"
    using line_offs_last [of pre] line_offs_length [of pre] assms by (simp add: m nth_append place_def)
  moreover have "col - 1 \<le> length pre"
    using length_takeWhile_le [of _ "rev pre"] assms by (simp add: place_def)
  ultimately show ?thesis by (simp add: src_off_def Let_def)
qed

section \<open>One step of the lexer\<close>

text \<open>No carriage return alone: each is followed by a line feed.\<close>

fun no_lone_cr :: "bytes \<Rightarrow> bool" where
  "no_lone_cr [] = True"
| "no_lone_cr (c # s) = ((c = 13 \<longrightarrow> s \<noteq> [] \<and> hd s = 10) \<and> no_lone_cr s)"

lemma no_lone_cr_append: "no_lone_cr (w @ s) \<Longrightarrow> no_lone_cr s"
  by (induction w) simp_all

text \<open>A step that reads \<open>w\<close> from \<open>line\<close> and \<open>col\<close>.\<close>

definition reads_chunk :: "bytes \<Rightarrow> bytes \<Rightarrow> nat \<Rightarrow> nat \<Rightarrow> lex_state \<Rightarrow> bool" where
  "reads_chunk w s line col st \<longleftrightarrow> (case st of (s', l', c') \<Rightarrow> w @ s' = s \<and> w \<noteq> []
     \<and> (w = [10] \<and> l' = line + 1 \<and> c' = 1 \<or> 10 \<notin> set w \<and> l' = line \<and> c' = col + length w))"

lemma place_reads:
  assumes "reads_chunk w s line col (s', l', c')" "place pre line col"
  shows "place (pre @ w) l' c' \<and> s = w @ s'"
  using assms place_newline [OF assms(2)] place_chunk [OF assms(2)] by (auto simp: reads_chunk_def)

lemma lex_string_chunk:
  "lex_string ln cl s line col = Inr (bs, s', l', c') \<Longrightarrow>
     \<exists>w. s = w @ s' \<and> 10 \<notin> set w \<and> l' = line \<and> c' = col + length w"
proof (induction ln cl s line col arbitrary: bs rule: lex_string.induct)
  case (2 ln cl ch line col)
  then show ?case by (auto simp: consE_Inr split: if_splits)
next
  case (3 ln cl ch e s line col)
  consider "ch = 34" | "ch \<noteq> 34" "ch = 92" | "ch \<noteq> 34" "ch \<noteq> 92" "\<not> ch < 32"
    using 3(3) by (auto split: if_splits)
  then show ?case
  proof cases
    case 1
    then show ?thesis using 3(3) by (intro exI [of _ "[ch]"]) simp
  next
    case 2
    then obtain b cs where b: "unescape e = Some b" "lex_string ln cl s line (col + 2) = Inr (cs, s', l', c')"
      using 3(3) by (auto simp: consE_Inr split: option.splits)
    then obtain w where w: "s = w @ s'" "10 \<notin> set w" "l' = line" "c' = col + 2 + length w"
      using 3(1) [OF 2 b(1)] by blast
    have "e \<noteq> 10" using b(1) by (auto simp: unescape_def)
    then show ?thesis using 2 w by (intro exI [of _ "ch # e # w"]) simp
  next
    case 3
    then obtain cs where "lex_string ln cl (e # s) line (col + 1) = Inr (cs, s', l', c')"
      using "3.prems" by (auto simp: consE_Inr)
    then obtain w where w: "e # s = w @ s'" "10 \<notin> set w" "l' = line" "c' = col + 1 + length w"
      using "3.IH"(2) [OF 3] by blast
    have "ch \<noteq> 10" using 3 by auto
    then show ?thesis using w by (intro exI [of _ "ch # w"]) simp
  qed
qed simp

lemma takeWhile_chunk: "(\<And>c. P c \<Longrightarrow> c \<noteq> 10) \<Longrightarrow> 10 \<notin> set (takeWhile P s)"
  by (auto dest: set_takeWhileD)

text \<open>A chunk at the front of a text, without a line feed.\<close>

definition chunk :: "bytes \<Rightarrow> bytes \<Rightarrow> bool" where
  "chunk w s \<longleftrightarrow> take (length w) s = w \<and> 10 \<notin> set w"

lemma chunk_Nil [simp]: "chunk [] s"
  by (simp add: chunk_def)

lemma chunk_drop: "chunk w s \<Longrightarrow> w @ drop (length w) s = s"
  by (metis chunk_def append_take_drop_id)

lemma chunk_takeWhile: "(\<And>c. P c \<Longrightarrow> c \<noteq> 10) \<Longrightarrow> chunk (takeWhile P s) s"
  by (simp add: chunk_def takeWhile_chunk takeWhile_eq_take [symmetric] flip: takeWhile_eq_take)

lemma chunk_append: "chunk a s \<Longrightarrow> chunk b (drop (length a) s) \<Longrightarrow> chunk (a @ b) s"
  by (simp add: chunk_def take_add)

lemma chunk_take: "10 \<notin> set (take n s) \<Longrightarrow> chunk (take n s) s"
  by (simp add: chunk_def min_def)

lemma chunk_num: "chunk (takeWhile num_char s) s"
  by (rule chunk_takeWhile) (auto simp: num_char_def is_dec_def)

lemma chunk_fraction: "chunk (scan_fraction s) s"
proof (cases "scan_fraction s = []")
  case False
  then have f: "take 1 s = [46]" "scan_fraction s = take 1 s @ takeWhile num_char (drop 1 s)"
    by (auto simp: scan_fraction_def split: if_splits)
  have "length (take 1 s) = 1" using f(1) by simp
  then show ?thesis unfolding f(2)
    using chunk_take [of 1 s] chunk_num [of "drop 1 s"] f(1) by (intro chunk_append) simp_all
qed simp

lemma chunk_exponent: "chunk (scan_exponent s) s"
proof (cases "scan_exponent s = []")
  case False
  define sg where "sg = (if take 1 (drop 1 s) = [43] \<or> take 1 (drop 1 s) = [45] then take 1 (drop 1 s) else [])"
  have e: "take 1 s = [101] \<or> take 1 s = [69]"
      "scan_exponent s = take 1 s @ sg @ takeWhile num_char (drop (1 + length sg) s)"
    using False unfolding scan_exponent_def sg_def [symmetric] Let_def by (auto split: if_splits)
  have l: "length (take 1 s) = 1" using e(1) by (cases s) auto
  have "chunk sg (drop 1 s)" unfolding sg_def using chunk_take [of 1 "drop 1 s"] by auto
  then have "chunk (sg @ takeWhile num_char (drop (1 + length sg) s)) (drop 1 s)"
    using chunk_num [of "drop (1 + length sg) s"] by (intro chunk_append) simp_all
  then show ?thesis unfolding e(2)
    using chunk_take [of 1 s] e(1) l by (intro chunk_append [of "take 1 s"]) auto
qed simp

lemma scan_number_chunk:
  assumes "scan_number s = (raw, f)"
  shows "chunk raw s"
proof -
  have "raw = takeWhile num_char s @ scan_fraction (drop (length (takeWhile num_char s)) s)
      @ scan_exponent (drop (length (takeWhile num_char s @ scan_fraction (drop (length (takeWhile num_char s)) s))) s)"
    using assms by (simp add: scan_number_def Let_def)
  then show ?thesis
    by (simp only:) (intro chunk_append chunk_num chunk_fraction, simp add: chunk_exponent add.commute)
qed

lemma two_char_no_newline: "w \<in> set TWO_CHAR \<Longrightarrow> 10 \<notin> set (encode w)"
  by (auto simp: TWO_CHAR_def code_of_def)

lemma two_char_length: "w \<in> set TWO_CHAR \<Longrightarrow> length w = 2"
  by (auto simp: TWO_CHAR_def)

lemma lex_step_chunk:
  assumes "lex_step fl c s line col = Inr (ts, st)" "no_lone_cr (c # s)"
  shows "\<exists>w. reads_chunk w (c # s) line col st"
proof -
  have one: "reads_chunk [c] (c # s) line col (s, line, col + 1)" if "c \<noteq> 10"
    using that by (simp add: reads_chunk_def)
  have ch: "reads_chunk w (c # s) line col (drop (length w) (c # s), line, col + length w)"
    if "chunk w (c # s)" "w \<noteq> []" for w
    using that chunk_drop [OF that(1)] by (simp add: reads_chunk_def chunk_def)
  consider "is_blank c" | "\<not> is_blank c" "c = 35"
    | "\<not> is_blank c" "c \<noteq> 35" "is_ident_start c"
    | "\<not> is_blank c" "c \<noteq> 35" "\<not> is_ident_start c" "is_dec c"
    | "\<not> is_blank c" "c \<noteq> 35" "\<not> is_ident_start c" "\<not> is_dec c" "c = 34"
    | "\<not> is_blank c" "c \<noteq> 35" "\<not> is_ident_start c" "\<not> is_dec c" "c \<noteq> 34"
    by blast
  then show ?thesis
  proof cases
    case 1
    then have "st = lex_space c s line col" using assms(1) by (simp add: lex_step_def)
    moreover have "reads_chunk [c] (c # s) line col (lex_space c s line col)"
      using assms(2) by (auto simp: lex_space_def reads_chunk_def)
    ultimately show ?thesis by blast
  next
    case 2
    let ?body = "takeWhile (\<lambda>c. c \<noteq> 10 \<and> c \<noteq> 13) s"
    have "chunk ?body s" by (rule chunk_takeWhile) simp
    then have "chunk (c # ?body) (c # s)" using 2 by (simp add: chunk_def)
    then have "reads_chunk (c # ?body) (c # s) line col (drop (length ?body) s, line, col + 1 + length ?body)"
      using ch [of "c # ?body"] by simp
    moreover have "reads_chunk [c, 33] (c # s) line col (drop 1 s, line, col + 2)" if "take 2 s = [33, 91]"
      using that 2 by (cases s) (auto simp: reads_chunk_def)
    ultimately show ?thesis using assms(1) 2 one by (auto simp: lex_step_def lex_hash_def Let_def split: if_splits)
  next
    case 3
    have "chunk (takeWhile is_ident_char (c # s)) (c # s)"
      by (rule chunk_takeWhile) (auto simp: is_ident_char_def is_ident_start_def is_dec_def)
    moreover have "takeWhile is_ident_char (c # s) \<noteq> []" using 3 is_ident_start_char by simp
    ultimately show ?thesis using ch assms(1) 3 by (auto simp: lex_step_def lex_word_def Let_def simp del: takeWhile.simps)
  next
    case 4
    then obtain raw f where "scan_number (c # s) = (raw, f)" "raw \<noteq> []"
        "st = (drop (length raw) (c # s), line, col + length raw)"
      using assms scan_number_not_Nil [of c s]
      by (auto simp: lex_step_def lex_number_def bindE_eq_Inr Let_def split: prod.splits if_splits sum.splits)
    then show ?thesis using ch [OF scan_number_chunk] by blast
  next
    case 5
    then obtain bs where "lex_string line col s line (col + 1) = Inr (bs, st)"
      using assms(1) by (auto simp: lex_step_def bindE_eq_Inr is_blank_def)
    moreover obtain s' l' c' where st: "st = (s', l', c')" by (cases st)
    ultimately obtain w where "s = w @ s'" "10 \<notin> set w" "l' = line" "c' = col + 1 + length w"
      using lex_string_chunk by blast
    then show ?thesis using 5 st by (intro exI [of _ "c # w"]) (simp add: reads_chunk_def)
  next
    case 6
    have nl: "10 \<notin> set (take 2 (c # s))" if "decode (take 2 (c # s)) \<in> set TWO_CHAR"
    proof
      assume "10 \<in> set (take 2 (c # s))"
      then have "10 \<in> set (encode (decode (take 2 (c # s))))" by simp
      then show False using that two_char_no_newline by blast
    qed
    have "length (take 2 (c # s)) = 2" if "decode (take 2 (c # s)) \<in> set TWO_CHAR"
      using two_char_length [OF that] by simp
    moreover have "c \<noteq> 10" using 6 by (auto simp: is_blank_def)
    ultimately show ?thesis using assms(1) 6 ch [OF chunk_take [OF nl]] one
      by (auto simp: lex_step_def bindE_eq_Inr lex_symbol_def Let_def split: if_splits)
  qed
qed

section \<open>All tokens\<close>

lemma lex_step_tokens:
  assumes "lex_step fl c s line col = Inr (ts, st)"
  shows "ts = [] \<or> (\<exists>v. ts = [tok v line col])
    \<or> (\<exists>r. c = 35 \<and> s = 33 # 91 # r \<and> ts = [tok (TSym ''#'') line col, tok (TSym ''!'') line (col + 1)]
          \<and> st = (91 # r, line, col + 2))"
proof -
  have "\<exists>r. s = 33 # 91 # r" if "take 2 s = [33, 91]"
    using that by (cases s; cases "tl s") auto
  then show ?thesis using assms
    by (fastforce simp: lex_step_def lex_hash_def lex_word_def lex_number_def lex_symbol_def bindE_eq_Inr Let_def
        split: if_splits prod.splits sum.splits)
qed

lemma bang_text: "decode [33, 91] = ''![''" "decode [33] = ''!''"
  by code_simp+

text \<open>What is read from a token's position on is the token and those after it.\<close>

lemma lex_go_places:
  assumes "lex_go fl s line col = Inr ts" "place pre line col" "no_lone_cr s" "i < length ts"
  shows "lex_go fl (drop (src_off (pre @ s) (t_line (ts ! i)) (t_col (ts ! i))) (pre @ s))
      (t_line (ts ! i)) (t_col (ts ! i)) = Inr (drop i ts)"
  using assms
proof (induction fl s line col arbitrary: pre ts i rule: lex_go.induct)
  case (1 fl line col)
  then show ?case using src_off_place [OF 1(2), of "[]"] by auto
next
  case (2 fl c s line col)
  obtain us s' l' c' vs where step: "lex_step fl c s line col = Inr (us, s', l', c')"
    and rest: "lex_go fl s' l' c' = Inr vs" and ts: "ts = us @ vs"
    using "2.prems"(1) by (auto simp: bindE_eq_Inr split: sum.splits)
  obtain w where w: "place (pre @ w) l' c'" "c # s = w @ s'"
    using lex_step_chunk [OF step "2.prems"(3)] place_reads [OF _ "2.prems"(2)] by blast
  have cr: "no_lone_cr s'" using "2.prems"(3) no_lone_cr_append [of w s'] w(2) by simp
  have IH: "lex_go fl (drop (src_off (pre @ c # s) (t_line (vs ! j)) (t_col (vs ! j))) (pre @ c # s))
      (t_line (vs ! j)) (t_col (vs ! j)) = Inr (drop j vs)" if "j < length vs" for j
    using "2.IH" [OF step refl refl refl rest w(1) cr that] w(2) by simp
  have first: "src_off (pre @ c # s) line col = length pre" by (rule src_off_place [OF "2.prems"(2)])
  from lex_step_tokens [OF step] consider "us = []" | v where "us = [tok v line col]"
    | r where "c = 35" "s = 33 # 91 # r" "us = [tok (TSym ''#'') line col, tok (TSym ''!'') line (col + 1)]"
        "(s', l', c') = (91 # r, line, col + 2)"
    by blast
  then show ?case
  proof cases
    case 1
    then show ?thesis using IH "2.prems"(4) by (simp add: ts)
  next
    case (2 v)
    show ?thesis
    proof (cases i)
      case 0
      then show ?thesis using "2.prems"(1) 2 first by (simp add: ts)
    next
      case (Suc j)
      then show ?thesis using IH [of j] "2.prems"(4) 2 by (simp add: ts)
    qed
  next
    case (3 r)
    have second: "src_off ((pre @ [35]) @ 33 # 91 # r) line (col + 1) = length (pre @ [35])"
      using place_chunk [OF "2.prems"(2), of "[35]"] by (intro src_off_place) simp
    have bang: "lex_step fl 33 (91 # r) line (col + 1) = Inr ([tok (TSym ''!'') line (col + 1)], 91 # r, line, col + 2)"
      by (simp add: lex_step_def is_blank_def is_ident_start_def is_dec_def lex_symbol_def bang_text TWO_CHAR_def
          ONE_CHAR_def Let_def)
    consider "i = 0" | "i = 1" | j where "i = Suc (Suc j)" by (cases i; cases "i - 1") auto
    then show ?thesis
    proof cases
      case 1
      then show ?thesis using "2.prems"(1) 3 first by (simp add: ts)
    next
      case i: 2
      have "lex_go fl (33 # 91 # r) line (col + 1) = Inr (tok (TSym ''!'') line (col + 1) # vs)"
        using bang rest 3(4) by simp
      then show ?thesis using second 3 i by (simp add: ts)
    next
      case (3 j)
      then show ?thesis using IH [of j] "2.prems"(4) \<open>us = _\<close> by (simp add: ts)
    qed
  qed
qed

section \<open>The text of a refinement\<close>

text \<open>The source \<open>where x>0{\<close> after a line end.\<close>

definition clause_after :: "8 word \<Rightarrow> bytes" where
  "clause_after c = [c, 119, 104, 101, 114, 101, 32, 120, 62, 48, 123]"

definition clause_toks :: "token list" where
  "clause_toks = [tok (TKw ''where'') 2 1, tok (TIdent ''x'') 2 7, tok (TSym ''>'') 2 8,
     tok (TInt 0 [48]) 2 9, tok (TSym ''{'') 2 10, tok TEof 2 11]"

lemma clause_words: "decode [119, 104, 101, 114, 101] = ''where''" "decode [120] = ''x''" "decode [62, 48] = ''>0''"
  "decode [62] = ''>''" "decode [48] = ''0''" "decode [123] = ''{''"
  by code_simp+

lemmas first_byte = lex_step_def is_blank_def is_ident_start_def is_ident_char_def is_dec_def

lemma clause_steps:
  "c \<in> {10, 13} \<Longrightarrow> lex_step fl c (119 # s) 1 1 = Inr ([], 119 # s, 2, 1)"
  "lex_step fl 119 (104 # 101 # 114 # 101 # 32 # s) 2 1 = Inr ([tok (TKw ''where'') 2 1], 32 # s, 2, 6)"
  "lex_step fl 32 s 2 6 = Inr ([], s, 2, 7)"
  "lex_step fl 120 (62 # s) 2 7 = Inr ([tok (TIdent ''x'') 2 7], 62 # s, 2, 8)"
  "lex_step fl 62 (48 # s) 2 8 = Inr ([tok (TSym ''>'') 2 8], 48 # s, 2, 9)"
  "lex_step fl 48 (123 # s) 2 9 = Inr ([tok (TInt 0 [48]) 2 9], 123 # s, 2, 10)"
  "lex_step fl 123 [] 2 10 = Inr ([tok (TSym ''{'') 2 10], [], 2, 11)"
  by (auto simp: lex_step_def is_blank_def lex_space_def)
    (simp_all add: first_byte lex_space_def lex_word_def lex_symbol_def lex_number_def Let_def KEYWORDS_def
      TWO_CHAR_def ONE_CHAR_def clause_words scan_number_def scan_fraction_def scan_exponent_def num_char_def
      digits_next_def number_value_def int_of_def dec_step_def code_of_def)

lemma clause_lexed: "c \<in> {10, 13} \<Longrightarrow> tokenize fl (clause_after c) = Inr clause_toks"
  by (simp only: tokenize_def clause_after_def lex_go.simps(2) clause_steps sum.case prod.case)
    (simp add: clause_toks_def)

lemma clause_parsed: "parse_expr False (tl clause_toks) = Inr (NBin ''>'' (NIdent ''x'') (NInt 0), drop 4 clause_toks)"
proof -
  let ?e = "NBin ''>'' (NIdent ''x'') (NInt 0)"
  have "parse_expr False (take 3 (tl clause_toks) @ drop 4 clause_toks) = Inr (?e, drop 4 clause_toks)"
    by (rule parse_shown)
      (simp_all add: clause_toks_def BIN_LEVELS_def show_node_def parens_def op_level_def tval_def stop_def
        postfix_syms_def good_def del: show_folds)
  then show ?thesis by (simp add: clause_toks_def)
qed

lemma clause_refinement:
  "parse_refinement src ''int'' clause_toks =
     Inr (Some \<lparr>r_text = join_on '' '' (split_ws (src_text_between src (clause_toks ! 1) (clause_toks ! 4))),
       r_ast = NBin ''>'' (NIdent ''x'') (NInt 0), r_base = ''int'', r_where = hd clause_toks\<rparr>, drop 4 clause_toks)"
  using clause_parsed by (simp add: parse_refinement_def clause_toks_def peek_def REFINE_PRIMS_def)

lemma clause_texts:
  "join_on '' '' (split_ws (src_text_between (clause_after 10) (clause_toks ! 1) (clause_toks ! 4))) = ''x>0''"
  "join_on '' '' (split_ws (src_text_between (clause_after 13) (clause_toks ! 1) (clause_toks ! 4))) = ''x>''"
  by code_simp+

text \<open>C39. Every token carries the place its text starts at: on a source in which each carriage return is
  followed by a line feed, reading the source from the offset of a token's line and column on gives that
  token and the ones after it, so the text of a refinement is the source from the clause's first token to
  the token after it. A carriage return alone ends a line for the lexer but not for the offsets: after one,
  the recorded text starts and ends a byte early, so different clauses may get the same text.\<close>

theorem tokens_in_place:
  assumes "tokenize fl src = Inr ts" "no_lone_cr src" "i < length ts"
  shows "lex_go fl (drop (src_off src (t_line (ts ! i)) (t_col (ts ! i))) src) (t_line (ts ! i)) (t_col (ts ! i))
      = Inr (drop i ts)
    \<and> (\<exists>us r. tokenize fl (clause_after 10) = Inr us
        \<and> parse_refinement (clause_after 10) ''int'' us = Inr (Some r, drop 4 us) \<and> r_text r = ''x>0'')
    \<and> (\<exists>us r. tokenize fl (clause_after 13) = Inr us
        \<and> parse_refinement (clause_after 13) ''int'' us = Inr (Some r, drop 4 us) \<and> r_text r = ''x>'')"
  using lex_go_places [of fl src 1 1 ts "[]" i] assms place_start clause_lexed [of _ fl] clause_refinement clause_texts
  by (simp add: tokenize_def)

theorem tokens_in_place_witness:
  "lex_go (\<lambda>_. None) (drop (src_off (clause_after 10) 2 7) (clause_after 10)) 2 7 = Inr (drop 1 clause_toks)"
proof -
  have "no_lone_cr (clause_after 10)" "1 < length clause_toks" "tokenize (\<lambda>_. None) (clause_after 10) = Inr clause_toks"
    by (simp_all add: clause_after_def clause_toks_def clause_lexed [unfolded clause_after_def clause_toks_def])
  from tokens_in_place [OF this(3,1,2)] show ?thesis by (simp add: clause_toks_def)
qed

end
