(* ===== verification/Conc.thy ===== *)
theory Conc
  imports Prelude
begin

text \<open>
  Tasks and channels (src/tools/hlinterp/interp_parts/rt_conc.py and the spawning operations of
  spawn.py and builtin.py): the state \<open>ConcRuntime\<close> keeps, the operations on it as the code splits them
  (a wait loop, its bookkeeping on entry and exit, and the part after the loop), and the two modes they
  run in: pre-emptive threads around one condition variable with the deadlock check, and the
  deterministic scheduler \<open>DetCore\<close>, which hands a baton round a ready queue.

  Channels and tasks are numbered in the order of their creation; a channel stays in the registry
  (the code drops one that nothing refers to any more). The lists of parked nodes are empty where the
  code has \<open>None\<close>. A thread runs any program: the operations it issues are the arguments of
  \<open>act\<close> and \<open>det_act\<close>, whose runs are all the schedules of all programs. The part of an operation under
  the lock is one step, and so is a whole turn of the deterministic scheduler; between two steps a thread
  touches nothing the others can see. The type of the values is a parameter.
\<close>

section \<open>State\<close>

record 'v chan =
  c_q :: "'v list"
  c_cap :: int
  c_waiters :: int
  c_send_waiters :: int
  c_det_recv :: "nat list"
  c_det_send :: "nat list"

record 'v task =
  t_done :: bool
  t_joined :: bool
  t_result :: "'v option"
  t_det_join :: "nat list"

record 'v conc =
  chans :: "'v chan list"
  tasks :: "'v task list"
  tasks_alive :: int
  blocked :: int
  msgs :: int
  done_unjoined :: int
  join_waiters :: int

definition new_chan :: "int \<Rightarrow> 'v chan" where
  "new_chan cap = \<lparr>c_q = [], c_cap = cap, c_waiters = 0, c_send_waiters = 0, c_det_recv = [], c_det_send = []\<rparr>"

definition new_task :: "'v task" where
  "new_task = \<lparr>t_done = False, t_joined = False, t_result = None, t_det_join = []\<rparr>"

definition new_runtime :: "'v conc" where
  "new_runtime = \<lparr>chans = [], tasks = [], tasks_alive = 0, blocked = 0, msgs = 0, done_unjoined = 0,
     join_waiters = 0\<rparr>"

definition register :: "'v chan \<Rightarrow> 'v conc \<Rightarrow> 'v conc" where
  "register ch s = s\<lparr>chans := chans s @ [ch]\<rparr>"

definition on_chan :: "nat \<Rightarrow> ('v chan \<Rightarrow> 'v chan) \<Rightarrow> 'v conc \<Rightarrow> 'v conc" where
  "on_chan c f s = s\<lparr>chans := (chans s)[c := f (chans s ! c)]\<rparr>"

definition on_task :: "nat \<Rightarrow> ('v task \<Rightarrow> 'v task) \<Rightarrow> 'v conc \<Rightarrow> 'v conc" where
  "on_task t f s = s\<lparr>tasks := (tasks s)[t := f (tasks s ! t)]\<rparr>"

definition chan_full :: "'v chan \<Rightarrow> bool" where
  "chan_full ch \<longleftrightarrow> c_cap ch > 0 \<and> int (length (c_q ch)) \<ge> c_cap ch"

section \<open>Operations\<close>

datatype 'v op =
    Send nat 'v | TrySend nat 'v | Recv nat | RecvOr nat 'v | Select "nat list" | Join nat

text \<open>Replies; a default handed back by \<open>recv_or\<close> is told apart from a message.\<close>

datatype 'v reply = RUnit | RBool bool | RVal 'v | RDefault 'v | RIndex nat | RResult "'v option"

text \<open>The errors the code raises before the loop of an operation is entered.\<close>

fun op_check :: "'v op \<Rightarrow> 'v conc \<Rightarrow> string option" where
  "op_check (Select cs) s = (if cs = [] then Some ''select() on empty channel list'' else None)"
| "op_check (Join t) s = (if t_joined (tasks s ! t) then Some ''task already joined'' else None)"
| "op_check _ s = None"

text \<open>The condition that ends the wait loop; an operation without one never waits.\<close>

fun can_go :: "'v op \<Rightarrow> 'v conc \<Rightarrow> bool" where
  "can_go (Send c v) s = (\<not> chan_full (chans s ! c))"
| "can_go (Recv c) s = (c_q (chans s ! c) \<noteq> [])"
| "can_go (Select cs) s = (\<exists>c\<in>set cs. c_q (chans s ! c) \<noteq> [])"
| "can_go (Join t) s = t_done (tasks s ! t)"
| "can_go _ s = True"

text \<open>The counters kept around one wait, with \<open>d = 1\<close> before it and \<open>d = -1\<close> after it.\<close>

definition count_blocked :: "int \<Rightarrow> 'v conc \<Rightarrow> 'v conc" where
  "count_blocked d s = s\<lparr>blocked := blocked s + d\<rparr>"

definition count_recv :: "int \<Rightarrow> nat \<Rightarrow> 'v conc \<Rightarrow> 'v conc" where
  "count_recv d c = on_chan c (\<lambda>ch. ch\<lparr>c_waiters := c_waiters ch + d\<rparr>)"

definition count_send :: "int \<Rightarrow> nat \<Rightarrow> 'v conc \<Rightarrow> 'v conc" where
  "count_send d c = on_chan c (\<lambda>ch. ch\<lparr>c_send_waiters := c_send_waiters ch + d\<rparr>)"

fun count_wait :: "int \<Rightarrow> 'v op \<Rightarrow> 'v conc \<Rightarrow> 'v conc" where
  "count_wait d (Send c v) s = count_blocked d (count_send d c s)"
| "count_wait d (Recv c) s = count_blocked d (count_recv d c s)"
| "count_wait d (Select cs) s = count_blocked d (fold (count_recv d) cs s)"
| "count_wait d (Join t) s = count_blocked d (s\<lparr>join_waiters := join_waiters s + d\<rparr>)"
| "count_wait d _ s = s"

text \<open>What an operation does once its loop has ended, and its reply.\<close>

definition put_msg :: "nat \<Rightarrow> 'v \<Rightarrow> 'v conc \<Rightarrow> 'v conc" where
  "put_msg c v s = (on_chan c (\<lambda>ch. ch\<lparr>c_q := c_q ch @ [v]\<rparr>) s)\<lparr>msgs := msgs s + 1\<rparr>"

definition take_msg :: "nat \<Rightarrow> 'v conc \<Rightarrow> 'v conc" where
  "take_msg c s = (on_chan c (\<lambda>ch. ch\<lparr>c_q := tl (c_q ch)\<rparr>) s)\<lparr>msgs := msgs s - 1\<rparr>"

fun ready_index :: "nat list \<Rightarrow> 'v conc \<Rightarrow> nat" where
  "ready_index [] s = 0"
| "ready_index (c # cs) s = (if c_q (chans s ! c) \<noteq> [] then 0 else Suc (ready_index cs s))"

fun complete :: "'v op \<Rightarrow> 'v conc \<Rightarrow> 'v reply \<times> 'v conc" where
  "complete (Send c v) s = (RUnit, put_msg c v s)"
| "complete (TrySend c v) s =
     (if chan_full (chans s ! c) then (RBool False, s) else (RBool True, put_msg c v s))"
| "complete (Recv c) s = (RVal (hd (c_q (chans s ! c))), take_msg c s)"
| "complete (RecvOr c dflt) s =
     (if c_q (chans s ! c) \<noteq> [] then (RVal (hd (c_q (chans s ! c))), take_msg c s) else (RDefault dflt, s))"
| "complete (Select cs) s = (RIndex (ready_index cs s), s)"
| "complete (Join t) s =
     (RResult (t_result (tasks s ! t)),
      (on_task t (\<lambda>k. k\<lparr>t_joined := True\<rparr>) s)\<lparr>done_unjoined := done_unjoined s - 1\<rparr>)"

text \<open>The end of a task that has a handle.\<close>

definition task_finished :: "nat \<Rightarrow> 'v \<Rightarrow> 'v conc \<Rightarrow> 'v conc" where
  "task_finished t r s =
     (on_task t (\<lambda>k. k\<lparr>t_result := Some r, t_done := True\<rparr>) s)
       \<lparr>tasks_alive := tasks_alive s - 1, done_unjoined := done_unjoined s + 1\<rparr>"

text \<open>\<open>deadlock_check\<close>, called by a thread that has just counted itself as blocked: true if it raises.\<close>

definition deadlock_check :: "'v conc \<Rightarrow> bool" where
  "deadlock_check s \<longleftrightarrow>
     blocked s = tasks_alive s + 1 \<and> \<not> (done_unjoined s > 0 \<and> join_waiters s > 0) \<and>
     (\<forall>ch\<in>set (chans s). \<not> (c_q ch \<noteq> [] \<and> c_waiters ch > 0) \<and> \<not> (c_send_waiters ch > 0 \<and> \<not> chan_full ch))"

section \<open>Pre-emptive threads\<close>

text \<open>A thread waits in the loop of an operation until it has been notified and rescheduled.\<close>

datatype 'v thread = Running | Waiting "'v op" bool | Finished

text \<open>An error raised outside the error handling of a task ends the task's thread only: the process hangs.\<close>

datatype status = Live | Panicked string | Hung string | Exited

record 'v sys =
  rt :: "'v conc"
  threads :: "'v thread list"
  handles :: "nat option list"
  status :: status

text \<open>A step of a thread: an operation, the return from a wait, the three ways to start a task (with a
  join handle, with a future of capacity one, with a stream of capacity 16), a new channel, the end of a
  task with its result, and the end of \<open>main\<close>.\<close>

datatype 'v action =
    Call "'v op" | Resume | Spawn | AsyncSpawn int | NewChan int | Finish 'v | MainEnd

definition deadlock_message :: string where
  "deadlock_message = ''deadlock: all tasks are blocked on channel operations (no possible progress)''"

text \<open>\<open>notify_all\<close>: every waiting thread may be rescheduled. Which operations call it.\<close>

fun notified :: "'v thread \<Rightarrow> 'v thread" where
  "notified (Waiting p b) = Waiting p True"
| "notified th = th"

fun notifies :: "'v op \<Rightarrow> 'v conc \<Rightarrow> bool" where
  "notifies (TrySend c v) s = (\<not> chan_full (chans s ! c))"
| "notifies (RecvOr c dflt) s = (c_q (chans s ! c) \<noteq> [])"
| "notifies (Join t) s = False"
| "notifies _ s = True"

definition set_thread :: "nat \<Rightarrow> 'v thread \<Rightarrow> 'v sys \<Rightarrow> 'v sys" where
  "set_thread i th S = S\<lparr>threads := (threads S)[i := th]\<rparr>"

definition notify_all :: "'v sys \<Rightarrow> 'v sys" where
  "notify_all S = S\<lparr>threads := map notified (threads S)\<rparr>"

text \<open>One turn of the loop, with the lock held: the event is the operation and its reply if it is over.\<close>

type_synonym 'v event = "'v op \<times> 'v reply"

definition attempt :: "nat \<Rightarrow> 'v op \<Rightarrow> 'v sys \<Rightarrow> 'v event option \<times> 'v sys" where
  "attempt i p S =
     (if can_go p (rt S) then
        (case complete p (rt S) of (r, s) \<Rightarrow>
           let S1 = set_thread i Running (S\<lparr>rt := s\<rparr>)
           in (Some (p, r), if notifies p (rt S) then notify_all S1 else S1))
      else
        let s = count_wait 1 p (rt S); S1 = set_thread i (Waiting p False) (S\<lparr>rt := s\<rparr>)
        in (None, if deadlock_check s then S1\<lparr>status := Panicked deadlock_message\<rparr> else S1))"

text \<open>The operands of an operation exist, and a join handle has one user: the checker refuses to
  clone one, so no second thread joins a task that a thread is waiting for.\<close>

fun op_valid :: "'v op \<Rightarrow> 'v conc \<Rightarrow> bool" where
  "op_valid (Send c v) s = (c < length (chans s))"
| "op_valid (TrySend c v) s = (c < length (chans s))"
| "op_valid (Recv c) s = (c < length (chans s))"
| "op_valid (RecvOr c v) s = (c < length (chans s))"
| "op_valid (Select cs) s = (\<forall>c\<in>set cs. c < length (chans s))"
| "op_valid (Join t) s = (t < length (tasks s))"

definition sole_user :: "'v op \<Rightarrow> 'v thread list \<Rightarrow> bool" where
  "sole_user p ths \<longleftrightarrow> (case p of Join t \<Rightarrow> \<forall>b. Waiting (Join t) b \<notin> set ths | _ \<Rightarrow> True)"

definition runs :: "nat \<Rightarrow> 'v sys \<Rightarrow> bool" where
  "runs i S \<longleftrightarrow> status S = Live \<and> i < length (threads S) \<and> threads S ! i = Running"

definition add_thread :: "nat option \<Rightarrow> 'v sys \<Rightarrow> 'v sys" where
  "add_thread h S = S\<lparr>rt := (rt S)\<lparr>tasks_alive := tasks_alive (rt S) + 1\<rparr>,
     threads := threads S @ [Running], handles := handles S @ [h]\<rparr>"

definition call :: "nat \<Rightarrow> 'v op \<Rightarrow> 'v sys \<Rightarrow> 'v event option \<times> 'v sys" where
  "call i p S =
     (case op_check p (rt S) of
        Some m \<Rightarrow> (None, S\<lparr>status := Panicked m\<rparr>)
      | None \<Rightarrow> attempt i p S)"

definition finish_thread :: "nat \<Rightarrow> 'v \<Rightarrow> 'v sys \<Rightarrow> 'v sys" where
  "finish_thread i v S =
     notify_all (set_thread i Finished (S\<lparr>rt :=
       (case handles S ! i of
          Some t \<Rightarrow> task_finished t v (rt S)
        | None \<Rightarrow> (rt S)\<lparr>tasks_alive := tasks_alive (rt S) - 1\<rparr>)\<rparr>))"

text \<open>A thread that is not waiting and has not finished runs code of its own between its steps.\<close>

fun act :: "nat \<Rightarrow> 'v action \<Rightarrow> 'v sys \<Rightarrow> ('v event option \<times> 'v sys) option" where
  "act i (Call p) S =
     (if runs i S \<and> op_valid p (rt S) \<and> sole_user p (threads S) then Some (call i p S) else None)"
| "act i Resume S =
     (if status S = Live \<and> i < length (threads S)
      then (case threads S ! i of
              Waiting p True \<Rightarrow> Some (attempt i p (S\<lparr>rt := count_wait (-1) p (rt S)\<rparr>))
            | _ \<Rightarrow> None)
      else None)"
| "act i Spawn S =
     (if runs i S
      then Some (None, add_thread (Some (length (tasks (rt S))))
                  (S\<lparr>rt := (rt S)\<lparr>tasks := tasks (rt S) @ [new_task]\<rparr>\<rparr>))
      else None)"
| "act i (AsyncSpawn cap) S =
     (if runs i S then Some (None, add_thread None (S\<lparr>rt := register (new_chan cap) (rt S)\<rparr>)) else None)"
| "act i (NewChan cap) S =
     (if runs i S then Some (None, S\<lparr>rt := register (new_chan cap) (rt S)\<rparr>) else None)"
| "act i (Finish v) S = (if runs i S \<and> i \<noteq> 0 then Some (None, finish_thread i v S) else None)"
| "act i MainEnd S = (if runs i S \<and> i = 0 then Some (None, S\<lparr>status := Exited\<rparr>) else None)"

definition start :: "'v sys" where
  "start = \<lparr>rt = new_runtime, threads = [Running], handles = [None], status = Live\<rparr>"

text \<open>Runs: the events (completed operations with their replies) of any sequence of steps.\<close>

inductive runs_to :: "'v event list \<Rightarrow> 'v sys \<Rightarrow> bool" where
  begin_run: "runs_to [] start"
| step_run: "runs_to es S \<Longrightarrow> act i a S = Some (e, S') \<Longrightarrow> runs_to (es @ (case e of None \<Rightarrow> [] | Some x \<Rightarrow> [x])) S'"

definition reachable :: "'v sys \<Rightarrow> bool" where
  "reachable S \<longleftrightarrow> (\<exists>es. runs_to es S)"

text \<open>A run given by its steps, with its events.\<close>

fun play :: "(nat \<times> 'v action) list \<Rightarrow> 'v event list \<Rightarrow> 'v sys \<Rightarrow> ('v event list \<times> 'v sys) option" where
  "play [] es S = Some (es, S)"
| "play ((i, a) # as) es S =
     (case act i a S of
        None \<Rightarrow> None
      | Some (e, S') \<Rightarrow> play as (es @ (case e of None \<Rightarrow> [] | Some x \<Rightarrow> [x])) S')"

lemma play_runs: "runs_to es S \<Longrightarrow> play as es S = Some (es', S') \<Longrightarrow> runs_to es' S'"
proof (induction as arbitrary: es S)
  case (Cons x as)
  obtain i a where x: "x = (i, a)" by (cases x)
  obtain e T where "act i a S = Some (e, T)" "play as (es @ (case e of None \<Rightarrow> [] | Some x \<Rightarrow> [x])) T = Some (es', S')"
    using Cons.prems(2) x by (auto split: option.splits)
  then show ?case using Cons.IH step_run [OF Cons.prems(1)] by blast
qed simp

definition played :: "(nat \<times> 'v action) list \<Rightarrow> 'v event list \<times> 'v sys" where
  "played as = the (play as [] start)"

lemma played_runs: "play as [] start \<noteq> None \<Longrightarrow> runs_to (fst (played as)) (snd (played as))"
  using play_runs [OF begin_run, of as] by (auto simp: played_def)

lemma played_reachable: "play as [] start \<noteq> None \<Longrightarrow> reachable (snd (played as))"
  using played_runs by (auto simp: reachable_def)

end
