(* ===== verification/DetSched.thy ===== *)
theory DetSched
  imports Conc
begin

text \<open>
  The deterministic scheduler \<open>DetCore\<close> of rt_conc.py and the operations of the runtime in that mode. One
  node holds the baton; it runs the code of its task up to the next scheduling point, does the operation
  and either goes to the end of the ready queue or, when the operation has to wait, into wait lists, and
  the baton goes to the head of the queue. A node is the index of its task, \<open>main\<close> being 0. A turn from
  one scheduling point to the passing of the baton is one step; a trace line is recorded for each
  scheduling point.
\<close>

datatype 'v place = InCode | Parked "'v op" | Retired

datatype 'v label = LOp "'v op" | LSpawn nat | LFinish

record 'v det =
  d_rt :: "'v conc"
  d_place :: "'v place list"
  d_queued :: "bool list"
  d_ready :: "nat list"
  d_owner :: "nat option"
  d_join_live :: int
  d_trace :: "(nat \<times> nat \<times> 'v label) list"
  d_handles :: "nat option list"
  d_status :: status

definition retired :: "'v det \<Rightarrow> nat \<Rightarrow> bool" where
  "retired D n \<longleftrightarrow> d_place D ! n = Retired"

definition on_rt :: "('v conc \<Rightarrow> 'v conc) \<Rightarrow> 'v det \<Rightarrow> 'v det" where
  "on_rt f D = D\<lparr>d_rt := f (d_rt D)\<rparr>"

definition set_place :: "nat \<Rightarrow> 'v place \<Rightarrow> 'v det \<Rightarrow> 'v det" where
  "set_place n x D = D\<lparr>d_place := (d_place D)[n := x]\<rparr>"

definition enqueue :: "nat \<Rightarrow> 'v det \<Rightarrow> 'v det" where
  "enqueue n D = D\<lparr>d_queued := (d_queued D)[n := True], d_ready := d_ready D @ [n]\<rparr>"

text \<open>\<open>wake\<close>: the number of nodes woken, and the state.\<close>

fun wake :: "nat list \<Rightarrow> 'v det \<Rightarrow> nat \<times> 'v det" where
  "wake [] D = (0, D)"
| "wake (n # ns) D =
     (if \<not> d_queued D ! n \<and> \<not> retired D n
      then (case wake ns (enqueue n D) of (k, D') \<Rightarrow> (Suc k, D'))
      else wake ns D)"

text \<open>The wait lists of channels and tasks, emptied by the wake.\<close>

definition det_wake_recv :: "nat \<Rightarrow> 'v det \<Rightarrow> 'v det" where
  "det_wake_recv c D = on_rt (on_chan c (\<lambda>ch. ch\<lparr>c_det_recv := []\<rparr>)) (snd (wake (c_det_recv (chans (d_rt D) ! c)) D))"

definition det_wake_send :: "nat \<Rightarrow> 'v det \<Rightarrow> 'v det" where
  "det_wake_send c D = on_rt (on_chan c (\<lambda>ch. ch\<lparr>c_det_send := []\<rparr>)) (snd (wake (c_det_send (chans (d_rt D) ! c)) D))"

definition wake_joiners :: "nat \<Rightarrow> 'v det \<Rightarrow> 'v det" where
  "wake_joiners t D =
     (case wake (t_det_join (tasks (d_rt D) ! t)) D of (k, D') \<Rightarrow>
        (on_rt (on_task t (\<lambda>x. x\<lparr>t_det_join := []\<rparr>)) D')\<lparr>d_join_live := d_join_live D' - int k\<rparr>)"

text \<open>\<open>_live_in\<close> and \<open>_deadlock_locked\<close>: the error raised, if any.\<close>

definition live_in :: "nat list \<Rightarrow> 'v det \<Rightarrow> nat" where
  "live_in ns D = length (filter (\<lambda>n. \<not> d_queued D ! n \<and> \<not> retired D n) ns)"

definition missed_message :: string where
  "missed_message = ''det scheduler bug: missed wake (pending message with a parked receiver)''"

definition missed_capacity :: string where
  "missed_capacity = ''det scheduler bug: missed wake (free capacity with a parked sender)''"

fun scan_chans :: "'v chan list \<Rightarrow> bool \<Rightarrow> 'v det \<Rightarrow> string option" where
  "scan_chans [] any_waiter D = (if any_waiter then Some deadlock_message else None)"
| "scan_chans (ch # chs) any_waiter D =
     (if c_q ch \<noteq> [] \<and> live_in (c_det_recv ch) D > 0 then Some missed_message
      else if c_cap ch > 0 \<and> int (length (c_q ch)) < c_cap ch \<and> live_in (c_det_send ch) D > 0
      then Some missed_capacity
      else scan_chans chs (any_waiter \<or> live_in (c_det_recv ch) D > 0 \<or> live_in (c_det_send ch) D > 0) D)"

definition det_deadlock :: "'v det \<Rightarrow> string option" where
  "det_deadlock D = scan_chans (chans (d_rt D)) (d_join_live D > 0) D"

text \<open>\<open>_pass_locked\<close>, \<open>yield_baton\<close> and \<open>retire_baton\<close>.\<close>

definition pass :: "'v det \<Rightarrow> 'v det" where
  "pass D =
     (case dropWhile (retired D) (d_ready D) of
        n # ns \<Rightarrow> D\<lparr>d_ready := ns, d_queued := (d_queued D)[n := False], d_owner := Some n\<rparr>
      | [] \<Rightarrow>
          let D1 = D\<lparr>d_ready := [], d_owner := None\<rparr>
          in (case det_deadlock D1 of None \<Rightarrow> D1 | Some m \<Rightarrow> D1\<lparr>d_status := Panicked m\<rparr>))"

definition yield_baton :: "nat \<Rightarrow> 'v det \<Rightarrow> 'v det" where
  "yield_baton n D = (if retired D n then D else pass (enqueue n D))"

definition retire_baton :: "nat \<Rightarrow> 'v det \<Rightarrow> 'v det" where
  "retire_baton n D = (if retired D n then D else pass (set_place n Retired D))"

text \<open>Parking: the lists a node joins for an operation (\<open>park_on\<close>, \<open>park_join\<close> and the loop of \<open>select\<close>).\<close>

fun park :: "nat \<Rightarrow> 'v op \<Rightarrow> 'v det \<Rightarrow> 'v det" where
  "park n (Send c v) D = on_rt (on_chan c (\<lambda>ch. ch\<lparr>c_det_send := c_det_send ch @ [n]\<rparr>)) D"
| "park n (Recv c) D = on_rt (on_chan c (\<lambda>ch. ch\<lparr>c_det_recv := c_det_recv ch @ [n]\<rparr>)) D"
| "park n (Select cs) D =
     on_rt (fold (\<lambda>c. on_chan c (\<lambda>ch. ch\<lparr>c_det_recv := c_det_recv ch @ [n]\<rparr>)) cs) D"
| "park n (Join t) D =
     (on_rt (on_task t (\<lambda>x. x\<lparr>t_det_join := t_det_join x @ [n]\<rparr>)) D)\<lparr>d_join_live := d_join_live D + 1\<rparr>"
| "park n _ D = D"

text \<open>The wakes an operation makes when it is over, given the runtime it found.\<close>

fun wake_after :: "'v op \<Rightarrow> 'v conc \<Rightarrow> 'v det \<Rightarrow> 'v det" where
  "wake_after (Send c v) s D = det_wake_recv c D"
| "wake_after (TrySend c v) s D = (if chan_full (chans s ! c) then D else det_wake_recv c D)"
| "wake_after (Recv c) s D = det_wake_send c D"
| "wake_after (RecvOr c v) s D = (if c_q (chans s ! c) \<noteq> [] then det_wake_send c D else D)"
| "wake_after (Select cs) s D = det_wake_send (cs ! ready_index cs s) D"
| "wake_after (Join t) s D = D"

text \<open>One turn of the loop of an operation, up to the passing of the baton.\<close>

definition turn :: "nat \<Rightarrow> 'v op \<Rightarrow> 'v det \<Rightarrow> 'v det" where
  "turn n p D =
     (if can_go p (d_rt D)
      then yield_baton n (wake_after p (d_rt D) (set_place n InCode (on_rt (\<lambda>s. snd (complete p s)) D)))
      else pass (park n p (set_place n (Parked p) (on_rt (count_wait 1 p) D))))"

definition emit :: "nat \<Rightarrow> 'v label \<Rightarrow> 'v det \<Rightarrow> 'v det" where
  "emit n l D = D\<lparr>d_trace := d_trace D @ [(length (d_trace D), n, l)]\<rparr>"

definition spawn_op :: "nat \<Rightarrow> 'v det \<Rightarrow> 'v det" where
  "spawn_op n D = emit n (LSpawn (length (d_place D)))
     (D\<lparr>d_place := d_place D @ [InCode], d_queued := d_queued D @ [True],
        d_ready := d_ready D @ [length (d_place D)]\<rparr>)"

definition det_spawn :: "nat \<Rightarrow> nat option \<Rightarrow> 'v det \<Rightarrow> 'v det" where
  "det_spawn n h D = yield_baton n
     ((on_rt (\<lambda>s. s\<lparr>tasks_alive := tasks_alive s + 1\<rparr>) (spawn_op n D))\<lparr>d_handles := d_handles D @ [h]\<rparr>)"

definition det_finish :: "nat \<Rightarrow> 'v \<Rightarrow> 'v det \<Rightarrow> 'v det" where
  "det_finish n v D =
     (case d_handles D ! n of
        Some t \<Rightarrow> retire_baton n (wake_joiners t (on_rt (task_finished t v) (emit n LFinish D)))
      | None \<Rightarrow> retire_baton n (on_rt (\<lambda>s. s\<lparr>tasks_alive := tasks_alive s - 1\<rparr>) D))"

text \<open>The end of a task comes after the \<open>try\<close> of its thread in spawn.py, so nothing catches the error of a
  deadlock that is found there.\<close>

definition uncaught :: "'v det \<Rightarrow> 'v det" where
  "uncaught D = (case d_status D of Panicked m \<Rightarrow> D\<lparr>d_status := Hung m\<rparr> | _ \<Rightarrow> D)"

definition owns_turn :: "nat \<Rightarrow> 'v det \<Rightarrow> bool" where
  "owns_turn n D \<longleftrightarrow> d_status D = Live \<and> d_owner D = Some n \<and> d_place D ! n = InCode"

fun det_act :: "nat \<Rightarrow> 'v action \<Rightarrow> 'v det \<Rightarrow> 'v det option" where
  "det_act n (Call p) D =
     (if owns_turn n D \<and> op_valid p (d_rt D)
      then (case op_check p (d_rt D) of
              Some m \<Rightarrow> Some (emit n (LOp p) D\<lparr>d_status := Panicked m\<rparr>)
            | None \<Rightarrow> Some (turn n p (emit n (LOp p) D)))
      else None)"
| "det_act n Resume D =
     (if d_status D = Live \<and> d_owner D = Some n
      then (case d_place D ! n of
              Parked p \<Rightarrow> Some (turn n p (on_rt (count_wait (-1) p) D))
            | _ \<Rightarrow> None)
      else None)"
| "det_act n Spawn D =
     (if owns_turn n D
      then Some (det_spawn n (Some (length (tasks (d_rt D)))) (on_rt (\<lambda>s. s\<lparr>tasks := tasks s @ [new_task]\<rparr>) D))
      else None)"
| "det_act n (AsyncSpawn cap) D =
     (if owns_turn n D then Some (det_spawn n None (on_rt (register (new_chan cap)) D)) else None)"
| "det_act n (NewChan cap) D = (if owns_turn n D then Some (on_rt (register (new_chan cap)) D) else None)"
| "det_act n (Finish v) D = (if owns_turn n D \<and> n \<noteq> 0 then Some (uncaught (det_finish n v D)) else None)"
| "det_act n MainEnd D = (if owns_turn n D \<and> n = 0 then Some (D\<lparr>d_status := Exited\<rparr>) else None)"

definition det_start :: "'v det" where
  "det_start = \<lparr>d_rt = new_runtime, d_place = [InCode], d_queued = [False], d_ready = [], d_owner = Some 0,
     d_join_live = 0, d_trace = [], d_handles = [None], d_status = Live\<rparr>"

inductive det_reachable :: "'v det \<Rightarrow> bool" where
  det_begin: "det_reachable det_start"
| det_next: "det_reachable D \<Longrightarrow> det_act n a D = Some D' \<Longrightarrow> det_reachable D'"

fun det_play :: "(nat \<times> 'v action) list \<Rightarrow> 'v det \<Rightarrow> 'v det option" where
  "det_play [] D = Some D"
| "det_play ((n, a) # as) D = (case det_act n a D of None \<Rightarrow> None | Some D' \<Rightarrow> det_play as D')"

lemma det_play_reachable: "det_reachable D \<Longrightarrow> det_play as D = Some D' \<Longrightarrow> det_reachable D'"
proof (induction as arbitrary: D)
  case (Cons x as)
  then show ?case by (cases x) (auto split: option.splits intro: det_next)
qed simp

definition det_played :: "(nat \<times> 'v action) list \<Rightarrow> 'v det" where
  "det_played as = the (det_play as det_start)"

lemma det_played_reachable: "det_play as det_start \<noteq> None \<Longrightarrow> det_reachable (det_played as)"
  using det_play_reachable [OF det_begin, of as] by (auto simp: det_played_def)

end
