(* ===== verification/ConcFacts.thy ===== *)
theory ConcFacts
  imports Conc
begin

text \<open>
  The invariant of the pre-emptive runtime: every counter is the number of what it counts, a thread
  that waits without having been notified cannot go on, and the join handles are used once. It is
  preserved by every step.
\<close>

section \<open>Totals over the threads\<close>

definition total :: "('a \<Rightarrow> int) \<Rightarrow> 'a list \<Rightarrow> int" where
  "total f xs = sum_list (map f xs)"

lemma total_simps [simp]: "total f [] = 0" "total f (x # xs) = f x + total f xs"
  "total f (xs @ ys) = total f xs + total f ys"
  by (simp_all add: total_def)

lemma total_update: "i < length xs \<Longrightarrow> total f (xs[i := x]) = total f xs - f (xs ! i) + f x"
  by (induction xs arbitrary: i) (auto split: nat.splits)

lemma total_map_cong: "(\<And>x. f (g x) = f x) \<Longrightarrow> total f (map g xs) = total f xs"
  by (induction xs) auto

lemma total_nonneg: "(\<And>x. 0 \<le> f x) \<Longrightarrow> 0 \<le> total f xs"
  by (induction xs) (auto simp: add_nonneg_nonneg)

lemma total_member: "(\<And>x. 0 \<le> f x) \<Longrightarrow> x \<in> set xs \<Longrightarrow> f x \<le> total f xs"
  by (induction xs) (auto simp: add_increasing add_increasing2 total_nonneg)

lemma total_pos: "(\<And>x. 0 \<le> f x) \<Longrightarrow> 0 < total f xs \<longleftrightarrow> (\<exists>x\<in>set xs. 0 < f x)"
proof (induction xs)
  case (Cons a xs)
  have "0 \<le> f a" "0 \<le> total f xs" using Cons.prems by (auto intro: total_nonneg)
  then have "0 < f a + total f xs \<longleftrightarrow> 0 < f a \<or> 0 < total f xs" by linarith
  then show ?case using Cons by simp
qed simp

lemma total_le: "(\<And>x. x \<in> set xs \<Longrightarrow> f x \<le> g x) \<Longrightarrow> total f xs \<le> total g xs"
  by (induction xs) (auto intro: add_mono)

lemma total_eq_all:
  "(\<And>x. f x \<le> g x) \<Longrightarrow> total f xs = total g xs \<Longrightarrow> x \<in> set xs \<Longrightarrow> f x = g x"
proof (induction xs)
  case (Cons a xs)
  have "f a \<le> g a" "total f xs \<le> total g xs" using Cons.prems(1) by (auto intro: total_le)
  then have "f a = g a" "total f xs = total g xs" using Cons.prems(2) by auto
  then show ?case using Cons by auto
qed simp

section \<open>What the counters count\<close>

definition is_waiting :: "'v thread \<Rightarrow> int" where
  "is_waiting th = (case th of Waiting _ _ \<Rightarrow> 1 | _ \<Rightarrow> 0)"

definition is_alive :: "'v thread \<Rightarrow> int" where
  "is_alive th = (case th of Finished \<Rightarrow> 0 | _ \<Rightarrow> 1)"

definition recv_waits :: "nat \<Rightarrow> 'v thread \<Rightarrow> int" where
  "recv_waits c th =
     (case th of
        Waiting (Recv d) _ \<Rightarrow> (if c = d then 1 else 0)
      | Waiting (Select cs) _ \<Rightarrow> int (count_list cs c)
      | _ \<Rightarrow> 0)"

definition send_waits :: "nat \<Rightarrow> 'v thread \<Rightarrow> int" where
  "send_waits c th = (case th of Waiting (Send d v) _ \<Rightarrow> (if c = d then 1 else 0) | _ \<Rightarrow> 0)"

definition join_waits :: "'v thread \<Rightarrow> int" where
  "join_waits th = (case th of Waiting (Join t) _ \<Rightarrow> 1 | _ \<Rightarrow> 0)"

definition joins :: "nat \<Rightarrow> 'v thread \<Rightarrow> int" where
  "joins t th = (case th of Waiting (Join u) _ \<Rightarrow> (if t = u then 1 else 0) | _ \<Rightarrow> 0)"

definition unjoined :: "'v task \<Rightarrow> int" where
  "unjoined k = (if t_done k \<and> \<not> t_joined k then 1 else 0)"

lemmas counts = is_waiting_def is_alive_def recv_waits_def send_waits_def join_waits_def joins_def

lemma counts_running [simp]:
  "is_waiting Running = 0" "is_alive Running = 1" "recv_waits c Running = 0" "send_waits c Running = 0"
  "join_waits Running = 0" "joins t Running = 0"
  "is_waiting Finished = 0" "is_alive Finished = 0" "recv_waits c Finished = 0" "send_waits c Finished = 0"
  "join_waits Finished = 0" "joins t Finished = 0"
  "is_waiting (Waiting p b) = 1" "is_alive (Waiting p b) = 1"
  by (simp_all add: counts)

lemma counts_notified [simp]:
  "is_waiting (notified th) = is_waiting th" "is_alive (notified th) = is_alive th"
  "recv_waits c (notified th) = recv_waits c th" "send_waits c (notified th) = send_waits c th"
  "join_waits (notified th) = join_waits th" "joins t (notified th) = joins t th"
  by (cases th; simp add: counts)+

lemma counts_nonneg [simp]:
  "0 \<le> is_waiting th" "0 \<le> is_alive th" "0 \<le> recv_waits c th" "0 \<le> send_waits c th"
  "0 \<le> join_waits th" "0 \<le> joins t th" "is_waiting th \<le> is_alive th"
  by (simp_all add: counts split: thread.splits op.splits)

fun waits :: "'v op \<Rightarrow> bool" where
  "waits (TrySend c v) = False" | "waits (RecvOr c v) = False" | "waits _ = True"

lemma not_can_go_waits: "\<not> can_go p s \<Longrightarrow> waits p"
  by (cases p) auto

section \<open>The fields the operations change\<close>

lemma on_chan_fields [simp]:
  "length (chans (on_chan c f s)) = length (chans s)" "tasks (on_chan c f s) = tasks s"
  "tasks_alive (on_chan c f s) = tasks_alive s" "blocked (on_chan c f s) = blocked s"
  "msgs (on_chan c f s) = msgs s" "done_unjoined (on_chan c f s) = done_unjoined s"
  "join_waiters (on_chan c f s) = join_waiters s"
  by (simp_all add: on_chan_def)

lemma on_chan_nth [simp]:
  "d < length (chans s) \<Longrightarrow> chans (on_chan c f s) ! d = (if d = c then f (chans s ! c) else chans s ! d)"
  by (simp add: on_chan_def nth_list_update)

lemma fold_count_recv [simp]:
  "length (chans (fold (count_recv d) cs s)) = length (chans s)"
  "tasks (fold (count_recv d) cs s) = tasks s" "tasks_alive (fold (count_recv d) cs s) = tasks_alive s"
  "blocked (fold (count_recv d) cs s) = blocked s" "msgs (fold (count_recv d) cs s) = msgs s"
  "done_unjoined (fold (count_recv d) cs s) = done_unjoined s"
  "join_waiters (fold (count_recv d) cs s) = join_waiters s"
  by (induction cs arbitrary: s) (simp_all add: count_recv_def)

lemma fold_count_recv_nth:
  "c < length (chans s) \<Longrightarrow> chans (fold (count_recv d) cs s) ! c =
     (chans s ! c)\<lparr>c_waiters := c_waiters (chans s ! c) + d * int (count_list cs c)\<rparr>"
proof (induction cs arbitrary: s)
  case (Cons a cs)
  from Cons.IH [of "count_recv d a s"] Cons.prems show ?case
    by (auto simp: count_recv_def algebra_simps)
qed simp

lemma count_wait_fields [simp]:
  "length (chans (count_wait d p s)) = length (chans s)" "tasks (count_wait d p s) = tasks s"
  "tasks_alive (count_wait d p s) = tasks_alive s" "msgs (count_wait d p s) = msgs s"
  "done_unjoined (count_wait d p s) = done_unjoined s"
  "waits p \<Longrightarrow> blocked (count_wait d p s) = blocked s + d"
  "join_waiters (count_wait d p s) = join_waiters s + d * join_waits (Waiting p False)"
  by (cases p; simp add: count_blocked_def count_recv_def count_send_def counts)+

lemma count_wait_nth:
  "c < length (chans s) \<Longrightarrow> op_valid p s \<Longrightarrow> chans (count_wait d p s) ! c =
     (chans s ! c)\<lparr>c_waiters := c_waiters (chans s ! c) + d * recv_waits c (Waiting p False),
       c_send_waiters := c_send_waiters (chans s ! c) + d * send_waits c (Waiting p False)\<rparr>"
  by (cases p) (auto simp: count_blocked_def count_recv_def count_send_def counts fold_count_recv_nth)

lemma op_valid_cong:
  "length (chans s) \<le> length (chans s') \<Longrightarrow> length (tasks s) \<le> length (tasks s') \<Longrightarrow> op_valid p s \<Longrightarrow> op_valid p s'"
  by (cases p) auto

lemma chan_full_counters [simp]:
  "chan_full (ch\<lparr>c_waiters := x\<rparr>) = chan_full ch" "chan_full (ch\<lparr>c_send_waiters := y\<rparr>) = chan_full ch"
  by (simp_all add: chan_full_def)

lemma can_go_count_wait [simp]:
  assumes "op_valid q s" "op_valid p s"
  shows "can_go q (count_wait d p s) = can_go q s"
  using assms by (cases q) (auto simp: count_wait_nth)

section \<open>The invariant\<close>

definition ok_thread :: "'v conc \<Rightarrow> 'v thread \<Rightarrow> bool" where
  "ok_thread s th \<longleftrightarrow>
     (case th of Waiting p b \<Rightarrow> op_valid p s \<and> waits p \<and> (b \<or> \<not> can_go p s) | _ \<Rightarrow> True)"

definition ok_conc :: "'v conc \<Rightarrow> 'v thread list \<Rightarrow> bool" where
  "ok_conc s ths \<longleftrightarrow>
     blocked s = total is_waiting ths \<and> join_waiters s = total join_waits ths \<and>
     tasks_alive s + 1 = total is_alive ths \<and> done_unjoined s = total unjoined (tasks s) \<and>
     (\<forall>c<length (chans s). c_waiters (chans s ! c) = total (recv_waits c) ths \<and>
        c_send_waiters (chans s ! c) = total (send_waits c) ths) \<and>
     (\<forall>t<length (tasks s). total (joins t) ths \<le> (if t_joined (tasks s ! t) then 0 else 1) \<and>
        (t_joined (tasks s ! t) \<longrightarrow> t_done (tasks s ! t))) \<and>
     (\<forall>th\<in>set ths. ok_thread s th)"

definition ok_handles :: "'v sys \<Rightarrow> bool" where
  "ok_handles S \<longleftrightarrow>
     length (handles S) = length (threads S) \<and> handles S \<noteq> [] \<and> handles S ! 0 = None \<and>
     threads S ! 0 \<noteq> Finished \<and>
     (\<forall>i<length (handles S). \<forall>t. handles S ! i = Some t \<longrightarrow>
        t < length (tasks (rt S)) \<and> (t_done (tasks (rt S) ! t) \<longleftrightarrow> threads S ! i = Finished) \<and>
        (\<forall>j<length (handles S). handles S ! j = Some t \<longrightarrow> j = i))"

definition ok_sys :: "'v sys \<Rightarrow> bool" where
  "ok_sys S \<longleftrightarrow> ok_conc (rt S) (threads S) \<and> ok_handles S"

section \<open>Waiting, leaving a wait and completing an operation\<close>

lemma ok_concD:
  assumes "ok_conc s ths"
  shows "blocked s = total is_waiting ths" "join_waiters s = total join_waits ths"
    "tasks_alive s + 1 = total is_alive ths" "done_unjoined s = total unjoined (tasks s)"
    "c < length (chans s) \<Longrightarrow> c_waiters (chans s ! c) = total (recv_waits c) ths"
    "c < length (chans s) \<Longrightarrow> c_send_waiters (chans s ! c) = total (send_waits c) ths"
    "t < length (tasks s) \<Longrightarrow> total (joins t) ths \<le> (if t_joined (tasks s ! t) then 0 else 1)"
    "t < length (tasks s) \<Longrightarrow> t_joined (tasks s ! t) \<Longrightarrow> t_done (tasks s ! t)"
    "th \<in> set ths \<Longrightarrow> ok_thread s th"
  using assms by (simp_all add: ok_conc_def)

lemma ok_thread_simps [simp]:
  "ok_thread s Running" "ok_thread s Finished"
  "ok_thread s (Waiting p b) \<longleftrightarrow> op_valid p s \<and> waits p \<and> (b \<or> \<not> can_go p s)"
  by (simp_all add: ok_thread_def)

lemma ok_thread_notified:
  "ok_thread s th \<Longrightarrow> length (chans s) \<le> length (chans s') \<Longrightarrow> length (tasks s) \<le> length (tasks s') \<Longrightarrow>
     ok_thread s' (notified th)"
  by (cases th) (auto intro: op_valid_cong)

lemma count_wait_op_valid [simp]: "op_valid q (count_wait d p s) = op_valid q s"
  by (cases q) auto

lemma ok_count_wait:
  assumes ok: "ok_conc s ths" and i: "i < length ths" and p: "op_valid p s" "waits p"
    and f: "is_waiting th = is_waiting (ths ! i) + d" "is_alive th = is_alive (ths ! i)"
      "join_waits th = join_waits (ths ! i) + d * join_waits (Waiting p False)"
      "\<And>c. recv_waits c th = recv_waits c (ths ! i) + d * recv_waits c (Waiting p False)"
      "\<And>c. send_waits c th = send_waits c (ths ! i) + d * send_waits c (Waiting p False)"
    and j: "\<And>t. t < length (tasks s) \<Longrightarrow> joins t th \<noteq> joins t (ths ! i) \<Longrightarrow>
      joins t th = 0 \<or> \<not> t_joined (tasks s ! t) \<and> total (joins t) ths = 0 \<and> joins t th \<le> 1"
    and th: "ok_thread (count_wait d p s) th"
  shows "ok_conc (count_wait d p s) (ths[i := th])"
proof -
  note D = ok_concD [OF ok]
  have others: "ok_thread (count_wait d p s) x" if "x \<in> set ths" for x
    using D(9) [OF that] p(1) by (cases x) auto
  have js: "total (joins t) (ths[i := th]) \<le> (if t_joined (tasks s ! t) then 0 else 1)"
    if t: "t < length (tasks s)" for t
  proof (cases "joins t th = joins t (ths ! i)")
    case True
    then show ?thesis using D(7) [OF t] i by (simp add: total_update)
  next
    case False
    let ?m = "if t_joined (tasks s ! t) then 0 else 1 :: int"
    have "joins t (ths ! i) \<ge> 0" "0 \<le> ?m" "total (joins t) ths \<le> ?m" using D(7) [OF t] by auto
    moreover have "joins t th = 0 \<or> ?m = 1 \<and> total (joins t) ths = 0 \<and> joins t th \<le> 1"
      using j [OF t False] by auto
    moreover have "total (joins t) (ths[i := th]) = total (joins t) ths - joins t (ths ! i) + joins t th"
      using i by (rule total_update)
    ultimately show ?thesis by linarith
  qed
  show ?thesis
    unfolding ok_conc_def
    using D(1-6) D(8) f i js th others p
    by (auto simp: total_update count_wait_nth dest: set_update_subset_insert [THEN subsetD])
qed

lemma ok_enter:
  assumes "ok_conc s ths" "i < length ths" "ths ! i = Running" "op_valid p s" "\<not> can_go p s"
    and "\<And>t. p = Join t \<Longrightarrow> \<not> t_joined (tasks s ! t) \<and> total (joins t) ths = 0"
  shows "ok_conc (count_wait 1 p s) (ths[i := Waiting p False])"
proof (rule ok_count_wait [OF assms(1,2,4)])
  show "waits p" by (rule not_can_go_waits [OF assms(5)])
  show "joins t (Waiting p False) = 0 \<or>
      \<not> t_joined (tasks s ! t) \<and> total (joins t) ths = 0 \<and> joins t (Waiting p False) \<le> 1"
    if "joins t (Waiting p False) \<noteq> joins t (ths ! i)" for t
    using assms(6) by (cases p) (auto simp: joins_def)
  show "ok_thread (count_wait 1 p s) (Waiting p False)"
    using assms(4,5) not_can_go_waits by auto
qed (use assms(3) in simp_all)

lemma ok_leave:
  assumes "ok_conc s ths" "i < length ths" "ths ! i = Waiting p b"
  shows "ok_conc (count_wait (-1) p s) (ths[i := Running])"
proof -
  have "ok_thread s (Waiting p b)" using ok_concD(9) [OF assms(1)] assms(2,3) nth_mem by metis
  then have p: "op_valid p s" "waits p" by auto
  have eq: "join_waits (Waiting p b) = join_waits (Waiting p False)"
    "recv_waits c (Waiting p b) = recv_waits c (Waiting p False)"
    "send_waits c (Waiting p b) = send_waits c (Waiting p False)" for c
    by (simp_all add: counts)
  show ?thesis
    by (rule ok_count_wait [OF assms(1,2) p]) (simp_all add: assms(3) eq)
qed

lemma complete_lengths [simp]:
  "length (chans (snd (complete p s))) = length (chans s)" "length (tasks (snd (complete p s))) = length (tasks s)"
  by (cases p; simp add: put_msg_def take_msg_def on_task_def)+

lemma total_unjoined_update:
  "t < length ks \<Longrightarrow> total unjoined (ks[t := k]) = total unjoined ks - unjoined (ks ! t) + unjoined k"
  by (rule total_update)

lemma ok_complete:
  assumes ok: "ok_conc s ths" and p: "op_valid p s" "can_go p s"
    and j: "\<And>t. p = Join t \<Longrightarrow> \<not> t_joined (tasks s ! t) \<and> total (joins t) ths = 0"
  shows "ok_conc (snd (complete p s)) (if notifies p s then map notified ths else ths)"
proof -
  note D = ok_concD [OF ok]
  let ?s = "snd (complete p s)"
  have same: "total f (if notifies p s then map notified ths else ths) = total f ths"
    if "\<And>th. f (notified th) = f th" for f
    using that by (simp add: total_map_cong)
  have keep: "ok_thread ?s x" if "x \<in> set (if notifies p s then map notified ths else ths)" for x
  proof (cases "notifies p s")
    case True
    then show ?thesis using that D(9) ok_thread_notified [of s _ ?s] by auto
  next
    case False
    have "can_go q ?s = can_go q s \<and> op_valid q ?s = op_valid q s" if "op_valid q s" for q
      using False p(1) that by (cases p; cases q) (auto simp: on_task_def nth_list_update)
    then show ?thesis using that D(9) [of x] False by (cases x) auto
  qed
  have chan: "c_waiters (chans ?s ! c) = c_waiters (chans s ! c) \<and>
      c_send_waiters (chans ?s ! c) = c_send_waiters (chans s ! c)" if "c < length (chans s)" for c
    using that p(1) by (cases p) (auto simp: put_msg_def take_msg_def on_task_def)
  have D7: "total (joins t) ths \<le> 0" if "t < length (tasks s)" "t_joined (tasks s ! t)" for t
    using D(7) [OF that(1)] that(2) by simp
  have D7': "total (joins t) ths \<le> 1" if "t < length (tasks s)" for t
    using D(7) [OF that] by (simp split: if_splits)
  have rest: "blocked ?s = blocked s" "join_waiters ?s = join_waiters s" "tasks_alive ?s = tasks_alive s"
    by (cases p; simp add: put_msg_def take_msg_def on_task_def)+
  have "done_unjoined ?s = total unjoined (tasks ?s) \<and>
      (\<forall>t<length (tasks s). total (joins t) ths \<le> (if t_joined (tasks ?s ! t) then 0 else 1) \<and>
        (t_joined (tasks ?s ! t) \<longrightarrow> t_done (tasks ?s ! t)))"
  proof (cases "\<exists>t. p = Join t")
    case True
    then obtain t where t: "p = Join t" by blast
    then show ?thesis
      using D(4,8) D7 D7' p j [OF t] by (auto simp: on_task_def total_update nth_list_update unjoined_def)
  next
    case False
    then have "tasks ?s = tasks s \<and> done_unjoined ?s = done_unjoined s"
      by (cases p) (auto simp: put_msg_def take_msg_def)
    then show ?thesis using D(4,7,8) by simp
  qed
  then show ?thesis
    unfolding ok_conc_def using D(1-3,5,6) keep chan rest by (simp add: same)
qed

section \<open>Steps\<close>

lemma set_thread_same [simp]: "set_thread i th (set_thread i th' S) = set_thread i th S"
  by (simp add: set_thread_def)

lemma sys_fields [simp]:
  "rt (set_thread i th S) = rt S" "handles (set_thread i th S) = handles S" "status (set_thread i th S) = status S"
  "threads (set_thread i th S) = (threads S)[i := th]"
  "rt (notify_all S) = rt S" "handles (notify_all S) = handles S" "status (notify_all S) = status S"
  "threads (notify_all S) = map notified (threads S)"
  by (simp_all add: set_thread_def notify_all_def)

lemma notified_finished [simp]: "notified th = Finished \<longleftrightarrow> th = Finished"
  by (cases th) simp_all

lemma attempt_rt:
  "rt (snd (attempt i p S)) = (if can_go p (rt S) then snd (complete p (rt S)) else count_wait 1 p (rt S))"
  by (auto simp: attempt_def Let_def split: prod.splits)

lemma attempt_threads:
  "threads (snd (attempt i p S)) =
     (if can_go p (rt S)
      then (if notifies p (rt S) then map notified ((threads S)[i := Running]) else (threads S)[i := Running])
      else (threads S)[i := Waiting p False])"
  by (auto simp: attempt_def Let_def split: prod.splits)

lemma attempt_handles [simp]: "handles (snd (attempt i p S)) = handles S"
  by (auto simp: attempt_def Let_def split: prod.splits)

lemma ok_handles_update:
  assumes "ok_handles S" "i < length (threads S)" "threads S ! i \<noteq> Finished" "handles S' = handles S"
    and "threads S' = (threads S)[i := th] \<or> threads S' = map notified ((threads S)[i := th])" "th \<noteq> Finished"
    and "length (tasks (rt S')) = length (tasks (rt S))"
    and "\<And>t. t < length (tasks (rt S)) \<Longrightarrow> t_done (tasks (rt S') ! t) = t_done (tasks (rt S) ! t)"
  shows "ok_handles S'"
proof -
  have len: "length (threads S') = length (threads S)" using assms(5) by auto
  have fin: "threads S' ! j = Finished \<longleftrightarrow> threads S ! j = Finished" if "j < length (threads S)" for j
    using assms(2,3,5,6) that by (auto simp: nth_list_update split: if_splits)
  note h = assms(1) [unfolded ok_handles_def]
  have "0 < length (threads S)" using h by (metis length_greater_0_conv)
  show ?thesis
    unfolding ok_handles_def assms(4) len assms(7)
  proof (intro conjI allI impI)
    show "threads S' ! 0 \<noteq> Finished" using h fin \<open>0 < length (threads S)\<close> by blast
  next
    fix j t
    assume "j < length (handles S)" "handles S ! j = Some t"
    then have t: "t < length (tasks (rt S))" "t_done (tasks (rt S) ! t) \<longleftrightarrow> threads S ! j = Finished"
      "j < length (threads S)" using h by auto
    then show "t < length (tasks (rt S))" "t_done (tasks (rt S') ! t) = (threads S' ! j = Finished)"
      using assms(8) fin by auto
  next
    fix j t k
    assume "j < length (handles S)" "handles S ! j = Some t" "k < length (handles S)" "handles S ! k = Some t"
    then show "k = j" using h by blast
  qed (use h in simp_all)
qed

lemma nth_list_update': "xs[i := x] ! j = (if i = j \<and> i < length xs then x else xs ! j)"
  by (cases "i < length xs") (auto simp: nth_list_update list_update_beyond not_less)

lemma complete_done [simp]:
  "t < length (tasks s) \<Longrightarrow> t_done (tasks (snd (complete p s)) ! t) = t_done (tasks s ! t)"
  by (cases p) (auto simp: put_msg_def take_msg_def on_task_def nth_list_update')

lemma ok_attempt:
  assumes ok: "ok_sys S" and i: "i < length (threads S)" "threads S ! i = Running" and p: "op_valid p (rt S)"
    and j: "\<And>t. p = Join t \<Longrightarrow> \<not> t_joined (tasks (rt S) ! t) \<and> total (joins t) (threads S) = 0"
  shows "ok_sys (snd (attempt i p S))"
proof -
  have same: "(threads S)[i := Running] = threads S" using i by (metis list_update_id)
  have "ok_conc (rt (snd (attempt i p S))) (threads (snd (attempt i p S)))"
  proof (cases "can_go p (rt S)")
    case True
    then show ?thesis
      using ok_complete [OF _ p True j] ok by (simp add: ok_sys_def attempt_rt attempt_threads same split: if_splits)
  next
    case False
    then show ?thesis
      using ok_enter [OF _ i p False j] ok by (simp add: ok_sys_def attempt_rt attempt_threads)
  qed
  moreover have "ok_handles (snd (attempt i p S))"
  proof (rule ok_handles_update [where S = S and i = i])
    let ?th = "if can_go p (rt S) then Running else Waiting p False"
    show "threads (snd (attempt i p S)) = (threads S)[i := ?th] \<or>
        threads (snd (attempt i p S)) = map notified ((threads S)[i := ?th])" "?th \<noteq> Finished"
      by (simp_all add: attempt_threads)
  qed (use ok i in \<open>simp_all add: ok_sys_def attempt_rt\<close>)
  ultimately show ?thesis by (simp add: ok_sys_def)
qed

lemma joins_pos: "0 < joins t th \<longleftrightarrow> (\<exists>b. th = Waiting (Join t) b)"
proof (cases th)
  case (Waiting p b)
  then show ?thesis by (cases p) (auto simp: joins_def)
qed simp_all

lemma ok_sys_status [simp]: "ok_sys (S\<lparr>status := x\<rparr>) = ok_sys S"
  by (cases S) (simp only: ok_sys_def ok_handles_def sys.simps)

lemma total_joins_0: "total (joins t) ths = 0 \<longleftrightarrow> (\<forall>b. Waiting (Join t) b \<notin> set ths)"
proof -
  have "total (joins t) ths \<noteq> 0 \<longleftrightarrow> (\<exists>th\<in>set ths. 0 < joins t th)"
    using total_pos [of "joins t" ths] total_nonneg [of "joins t" ths] by (auto simp: order_less_le)
  also have "\<dots> \<longleftrightarrow> (\<exists>b. Waiting (Join t) b \<in> set ths)"
    by (auto simp: joins_pos)
  finally show ?thesis by blast
qed

lemma ok_call:
  assumes "ok_sys S" "runs i S" "op_valid p (rt S)" "sole_user p (threads S)"
  shows "ok_sys (snd (call i p S))"
proof (cases "op_check p (rt S)")
  case None
  have "ok_sys (snd (attempt i p S))"
  proof (rule ok_attempt [OF assms(1)])
    show "\<not> t_joined (tasks (rt S) ! t) \<and> total (joins t) (threads S) = 0" if "p = Join t" for t
      using that None assms(4) by (auto simp: sole_user_def total_joins_0 split: if_splits)
  qed (use assms(2,3) in \<open>simp_all add: runs_def\<close>)
  then show ?thesis using None by (simp add: call_def)
next
  case (Some m)
  then show ?thesis using assms(1) by (simp add: call_def)
qed

lemma ok_resume:
  assumes "ok_sys S" "i < length (threads S)" "threads S ! i = Waiting p b"
  shows "ok_sys (snd (attempt i p (S\<lparr>rt := count_wait (-1) p (rt S)\<rparr>)))"
proof -
  let ?S = "set_thread i Running (S\<lparr>rt := count_wait (-1) p (rt S)\<rparr>)"
  have c: "ok_conc (rt S) (threads S)" using assms(1) by (simp add: ok_sys_def)
  have "Waiting p b \<in> set (threads S)" using assms(2,3) nth_mem by metis
  then have w: "op_valid p (rt S)" using ok_concD(9) [OF c] by force
  have ok: "ok_sys ?S"
    unfolding ok_sys_def
  proof
    show "ok_conc (rt ?S) (threads ?S)" using ok_leave [OF c assms(2,3)] by simp
    show "ok_handles ?S"
      by (rule ok_handles_update [of S i _ Running]) (use assms in \<open>simp_all add: ok_sys_def\<close>)
  qed
  have "snd (attempt i p ?S) = snd (attempt i p (S\<lparr>rt := count_wait (-1) p (rt S)\<rparr>))"
    by (simp add: attempt_def set_thread_def Let_def split: prod.splits)
  moreover have "ok_sys (snd (attempt i p ?S))"
  proof (rule ok_attempt [OF ok])
    show "\<not> t_joined (tasks (rt ?S) ! t) \<and> total (joins t) (threads ?S) = 0" if t: "p = Join t" for t
    proof -
      have "joins t (threads S ! i) = 1" using assms(3) t by (simp add: joins_def)
      moreover have "t < length (tasks (rt S))" using w t by simp
      moreover have "joins t (threads S ! i) \<le> total (joins t) (threads S)"
        using assms(2) by (intro total_member) auto
      ultimately show ?thesis
        using ok_concD(7) [OF c, of t] assms(2) by (auto simp: total_update split: if_splits)
    qed
  qed (use assms w in simp_all)
  ultimately show ?thesis by simp
qed

section \<open>New channels, new threads and finished ones\<close>

lemma ok_thread_register [simp]: "ok_thread s th \<Longrightarrow> ok_thread (register ch s) th"
proof (cases th)
  case (Waiting p b)
  assume "ok_thread s th"
  then show ?thesis unfolding Waiting
    by (cases p) (auto simp: register_def nth_append)
qed simp_all

lemma recv_waits_out: "ok_thread s th \<Longrightarrow> recv_waits (length (chans s)) th = 0 \<and> send_waits (length (chans s)) th = 0"
proof (cases th)
  case (Waiting p b)
  assume "ok_thread s th"
  then show ?thesis unfolding Waiting by (cases p) (auto simp: counts count_list_0_iff)
qed simp_all

lemma total_zero: "(\<And>x. x \<in> set xs \<Longrightarrow> f x = 0) \<Longrightarrow> total f xs = 0"
  by (induction xs) auto

lemma ok_register:
  assumes "ok_conc s ths"
  shows "ok_conc (register (new_chan cap) s) ths"
proof -
  note D = ok_concD [OF assms]
  have "total (recv_waits (length (chans s))) ths = 0" "total (send_waits (length (chans s))) ths = 0"
    using D(9) recv_waits_out by (auto intro!: total_zero)
  then have "c_waiters (chans (register (new_chan cap) s) ! c) = total (recv_waits c) ths \<and>
      c_send_waiters (chans (register (new_chan cap) s) ! c) = total (send_waits c) ths"
    if "c < Suc (length (chans s))" for c
    using that D(5,6) by (cases "c = length (chans s)") (simp_all add: register_def nth_append new_chan_def)
  moreover have "\<forall>th\<in>set ths. ok_thread (register (new_chan cap) s) th" using D(9) by simp
  ultimately show ?thesis using D(1-4,7,8) by (simp add: ok_conc_def register_def)
qed

lemma ok_handles_rt: "tasks s = tasks (rt S) \<Longrightarrow> ok_handles (S\<lparr>rt := s\<rparr>) = ok_handles S"
  by (cases S) (simp only: ok_handles_def sys.simps)

lemma register_tasks [simp]: "tasks (register ch s) = tasks s"
  by (simp add: register_def)

lemma ok_register_sys: "ok_sys S \<Longrightarrow> ok_sys (S\<lparr>rt := register (new_chan cap) (rt S)\<rparr>)"
  using ok_register [of "rt S" "threads S" cap] by (simp add: ok_sys_def ok_handles_rt)

lemma ok_thread_new_task: "ok_thread s th \<Longrightarrow> ok_thread (s\<lparr>tasks := tasks s @ [k]\<rparr>) th"
proof (cases th)
  case (Waiting p b)
  assume "ok_thread s th"
  then show ?thesis unfolding Waiting by (cases p) (auto simp: nth_append)
qed simp_all

lemma joins_out: "ok_thread s th \<Longrightarrow> joins (length (tasks s)) th = 0"
proof (cases th)
  case (Waiting p b)
  assume "ok_thread s th"
  then show ?thesis unfolding Waiting by (cases p) (auto simp: counts)
qed simp_all

lemma ok_new_task:
  assumes "ok_conc s ths"
  shows "ok_conc (s\<lparr>tasks := tasks s @ [new_task]\<rparr>) ths"
proof -
  note D = ok_concD [OF assms]
  have "total (joins (length (tasks s))) ths = 0" using D(9) joins_out by (auto intro!: total_zero)
  then have "total (joins t) ths \<le> (if t_joined ((tasks s @ [new_task]) ! t) then 0 else 1) \<and>
      (t_joined ((tasks s @ [new_task]) ! t) \<longrightarrow> t_done ((tasks s @ [new_task]) ! t))"
    if "t < Suc (length (tasks s))" for t
    using that D(7,8) by (cases "t = length (tasks s)") (simp_all add: nth_append new_task_def)
  moreover have "\<forall>th\<in>set ths. ok_thread (s\<lparr>tasks := tasks s @ [new_task]\<rparr>) th"
    using D(9) ok_thread_new_task by blast
  moreover have "unjoined new_task = 0" by (simp add: unjoined_def new_task_def)
  ultimately show ?thesis using D(1-6) by (simp add: ok_conc_def)
qed

lemma ok_thread_alive [simp]: "ok_thread (s\<lparr>tasks_alive := x\<rparr>) th = ok_thread s th"
proof (cases th)
  case (Waiting p b)
  show ?thesis unfolding Waiting by (cases p) auto
qed simp_all

lemma ok_add_thread_conc:
  "ok_conc s ths \<Longrightarrow> ok_conc (s\<lparr>tasks_alive := tasks_alive s + 1\<rparr>) (ths @ [Running])"
  by (simp add: ok_conc_def)

lemma handles_append:
  assumes "ok_handles S" "length (threads S') = Suc (length (threads S))" "handles S' = handles S @ [h]"
    "\<And>i. i < length (threads S) \<Longrightarrow> threads S' ! i = threads S ! i" "threads S' ! length (threads S) = Running"
    "\<And>t. t < length (tasks (rt S)) \<Longrightarrow> tasks (rt S') ! t = tasks (rt S) ! t"
    "length (tasks (rt S)) \<le> length (tasks (rt S'))"
    "\<And>t. h = Some t \<Longrightarrow> length (tasks (rt S)) \<le> t \<and> t < length (tasks (rt S')) \<and> \<not> t_done (tasks (rt S') ! t)"
  shows "ok_handles S'"
proof -
  note H = assms(1) [unfolded ok_handles_def]
  have old: "t < length (tasks (rt S)) \<and> (t_done (tasks (rt S) ! t) \<longleftrightarrow> threads S ! i = Finished)"
    if "handles S ! i = Some t" "i < length (threads S)" for i t using H that by auto
  have uniq: "i = j" if "handles S ! i = Some t" "handles S ! j = Some t" "i < length (threads S)"
    "j < length (threads S)" for i j t using H that by metis
  have len: "length (handles S) = length (threads S)" "0 < length (threads S)" using H by auto
  show ?thesis
    unfolding ok_handles_def
  proof (intro conjI allI impI)
    show "length (handles S') = length (threads S')" "handles S' \<noteq> []" using assms(2,3) len by simp_all
    show "handles S' ! 0 = None" "threads S' ! 0 \<noteq> Finished" using assms(3,4) H len by (simp_all add: nth_append)
  next
    fix i t
    assume i: "i < length (handles S')" "handles S' ! i = Some t"
    show t: "t < length (tasks (rt S'))" "t_done (tasks (rt S') ! t) = (threads S' ! i = Finished)"
      using i old [of i t] assms(3-8) len by (auto simp: nth_append less_Suc_eq split: if_splits)
    fix j
    assume j: "j < length (handles S')" "handles S' ! j = Some t"
    show "j = i"
      using i j uniq [of i t j] old [of i t] old [of j t] assms(3,8) len
      by (auto simp: nth_append less_Suc_eq split: if_splits)
  qed
qed

lemma ok_spawn:
  assumes "ok_sys S"
  shows "ok_sys (add_thread (Some (length (tasks (rt S)))) (S\<lparr>rt := (rt S)\<lparr>tasks := tasks (rt S) @ [new_task]\<rparr>\<rparr>))"
    (is "ok_sys ?S")
  unfolding ok_sys_def
proof
  have c: "ok_conc (rt S) (threads S)" using assms by (simp add: ok_sys_def)
  show "ok_conc (rt ?S) (threads ?S)"
    using ok_add_thread_conc [OF ok_new_task [OF c]] by (simp add: add_thread_def)
  show "ok_handles ?S"
  proof (rule handles_append [where S = S])
    show "ok_handles S" using assms by (simp add: ok_sys_def)
  qed (auto simp: add_thread_def nth_append new_task_def)
qed

lemma ok_async_spawn:
  assumes "ok_sys S"
  shows "ok_sys (add_thread None (S\<lparr>rt := register (new_chan cap) (rt S)\<rparr>))" (is "ok_sys ?S")
  unfolding ok_sys_def
proof
  have c: "ok_conc (rt S) (threads S)" using assms by (simp add: ok_sys_def)
  show "ok_conc (rt ?S) (threads ?S)"
    using ok_add_thread_conc [OF ok_register [OF c, of cap]] by (simp add: add_thread_def)
  show "ok_handles ?S"
  proof (rule handles_append [where S = S])
    show "ok_handles S" using assms by (simp add: ok_sys_def)
  qed (auto simp: add_thread_def nth_append)
qed

lemma ok_thread_notified_cong:
  "ok_thread s th \<Longrightarrow> length (chans s') = length (chans s) \<Longrightarrow> length (tasks s') = length (tasks s) \<Longrightarrow> ok_thread s' (notified th)"
  by (rule ok_thread_notified [of s]) simp_all

lemma ok_finish_conc:
  assumes "ok_conc s ths" "i < length ths" "ths ! i = Running"
    and "\<And>t. h = Some t \<Longrightarrow> t < length (tasks s) \<and> \<not> t_done (tasks s ! t)"
  shows "ok_conc (case h of Some t \<Rightarrow> task_finished t v s | None \<Rightarrow> s\<lparr>tasks_alive := tasks_alive s - 1\<rparr>)
     (map notified (ths[i := Finished]))" (is "ok_conc ?s _")
proof -
  note D = ok_concD [OF assms(1)]
  have tot: "total f (map notified (ths[i := Finished])) = total f ths - f Running + f Finished"
    if "\<And>th. f (notified th) = f th" for f
    using that assms(2,3) by (simp add: total_map_cong total_update)
  have len: "length (chans ?s) = length (chans s)" "length (tasks ?s) = length (tasks s)" "chans ?s = chans s"
    by (simp_all add: task_finished_def on_task_def split: option.splits)
  have ths: "ok_thread ?s th" if "th \<in> set (map notified (ths[i := Finished]))" for th
    using that D(9) ok_thread_notified_cong [OF _ len(1,2)] set_update_subset_insert [of ths i Finished] by fastforce
  have tasks: "done_unjoined ?s = total unjoined (tasks ?s)"
    "\<And>t. t < length (tasks s) \<Longrightarrow> t_joined (tasks ?s ! t) = t_joined (tasks s ! t) \<and>
       (t_done (tasks s ! t) \<longrightarrow> t_done (tasks ?s ! t))"
    using D(4,8) assms(4)
    by (auto simp: task_finished_def on_task_def total_update nth_list_update unjoined_def split: option.splits)
  have rest: "blocked ?s = blocked s" "join_waiters ?s = join_waiters s" "tasks_alive ?s = tasks_alive s - 1"
    by (simp_all add: task_finished_def on_task_def split: option.splits)
  show ?thesis
    unfolding ok_conc_def using D(1-3,5-8) tasks rest ths by (simp add: tot len)
qed

lemma ok_finish:
  assumes "ok_sys S" "runs i S" "i \<noteq> 0"
  shows "ok_sys (finish_thread i v S)"
proof -
  have c: "ok_conc (rt S) (threads S)" and h: "ok_handles S" using assms(1) by (simp_all add: ok_sys_def)
  have i: "i < length (threads S)" "threads S ! i = Running" using assms(2) by (simp_all add: runs_def)
  note H = h [unfolded ok_handles_def]
  have mine: "t < length (tasks (rt S)) \<and> \<not> t_done (tasks (rt S) ! t)" if "handles S ! i = Some t" for t
    using H that i by auto
  have other: "handles S ! j \<noteq> Some t" if "handles S ! i = Some t" "j < length (threads S)" "j \<noteq> i" for j t
    using H that i by metis
  let ?S = "finish_thread i v S"
  have rt: "rt ?S = (case handles S ! i of Some t \<Rightarrow> task_finished t v (rt S)
      | None \<Rightarrow> (rt S)\<lparr>tasks_alive := tasks_alive (rt S) - 1\<rparr>)"
    and th: "threads ?S = map notified ((threads S)[i := Finished])" and hd: "handles ?S = handles S"
    by (simp_all add: finish_thread_def)
  have conc: "ok_conc (rt ?S) (threads ?S)"
    unfolding rt th by (rule ok_finish_conc [OF c i mine])
  have done_tasks: "t_done (tasks (rt ?S) ! t) \<longleftrightarrow> t_done (tasks (rt S) ! t) \<or> handles S ! i = Some t"
    "length (tasks (rt ?S)) = length (tasks (rt S))" if "t < length (tasks (rt S))" for t
    using that by (auto simp: rt task_finished_def on_task_def nth_list_update' split: option.splits)
  have len: "length (handles S) = length (threads S)" "0 < length (threads S)" using H by auto
  have "ok_handles ?S"
    unfolding ok_handles_def hd
  proof (intro conjI allI impI)
    show "threads ?S ! 0 \<noteq> Finished" using H assms(3) len(2) by (simp add: th)
  next
    fix j t
    assume j: "j < length (handles S)" "handles S ! j = Some t"
    then have t: "t < length (tasks (rt S))" "t_done (tasks (rt S) ! t) \<longleftrightarrow> threads S ! j = Finished" using H by auto
    show "t < length (tasks (rt ?S))" using t(1) done_tasks(2) by simp
    show "t_done (tasks (rt ?S) ! t) = (threads ?S ! j = Finished)"
      using t j other [of t j] done_tasks(1) [OF t(1)] i len by (cases "j = i") (auto simp: th)
    show "k = j" if "k < length (handles S)" "handles S ! k = Some t" for k using H j that by blast
  qed (use H in \<open>auto simp: th\<close>)
  then show ?thesis using conc by (simp add: ok_sys_def)
qed

lemma ok_start: "ok_sys start"
  by (simp add: start_def ok_sys_def ok_conc_def ok_handles_def new_runtime_def)

lemma act_Resume:
  assumes "act i Resume S = Some (e, S')"
  obtains p where "i < length (threads S)" "threads S ! i = Waiting p True" "status S = Live"
    "(e, S') = attempt i p (S\<lparr>rt := count_wait (-1) p (rt S)\<rparr>)"
  using assms by (auto split: if_splits thread.splits bool.splits)

lemma act_live: "act i a S = Some (e, S') \<Longrightarrow> status S = Live \<and> i < length (threads S)"
  by (cases a) (auto simp: runs_def split: if_splits)

lemma ok_act:
  assumes "ok_sys S" "act i a S = Some (e, S')"
  shows "ok_sys S'"
proof (cases a)
  case (Call p)
  then have "runs i S \<and> op_valid p (rt S) \<and> sole_user p (threads S) \<and> S' = snd (call i p S)"
    using assms(2) by (auto split: if_splits)
  then show ?thesis using ok_call [OF assms(1)] by blast
next
  case Resume
  then show ?thesis
    using act_Resume [of i S e S'] assms(2) ok_resume [OF assms(1)] by (metis snd_conv)
next
  case Spawn
  then show ?thesis using assms(2) ok_spawn [OF assms(1)] by (auto split: if_splits)
next
  case (AsyncSpawn cap)
  then show ?thesis using assms(2) ok_async_spawn [OF assms(1)] by (auto split: if_splits)
next
  case (NewChan cap)
  then show ?thesis using assms(2) ok_register_sys [OF assms(1)] by (auto split: if_splits)
next
  case (Finish v)
  then show ?thesis using assms(2) ok_finish [OF assms(1)] by (auto split: if_splits)
next
  case MainEnd
  then show ?thesis using assms by (auto split: if_splits)
qed

lemma ok_reachable: "reachable S \<Longrightarrow> ok_sys S"
proof -
  have "ok_sys S" if "runs_to es S" for es
    using that by (induction rule: runs_to.induct) (auto intro: ok_start ok_act)
  then show "reachable S \<Longrightarrow> ok_sys S" by (auto simp: reachable_def)
qed

end
