(* ===== verification/DetFacts.thy ===== *)
theory DetFacts
  imports DetSched ConcFacts
begin

text \<open>
  The invariant of the deterministic scheduler. Between two turns one node holds the baton and every other
  node that has not retired is in the ready queue or parked, on the lists of its operation, with a
  condition that is false. A channel with messages has no parked receivers, one with room has no parked
  senders, a task that is done no parked joiners.
\<close>

section \<open>The effect of the primitives\<close>

lemma det_fields [simp]:
  "d_place (on_rt f D) = d_place D" "d_queued (on_rt f D) = d_queued D" "d_ready (on_rt f D) = d_ready D"
  "d_owner (on_rt f D) = d_owner D" "d_join_live (on_rt f D) = d_join_live D" "d_handles (on_rt f D) = d_handles D"
  "d_status (on_rt f D) = d_status D" "d_rt (on_rt f D) = f (d_rt D)" "d_trace (on_rt f D) = d_trace D"
  "d_rt (set_place n x D) = d_rt D" "d_queued (set_place n x D) = d_queued D" "d_ready (set_place n x D) = d_ready D"
  "d_owner (set_place n x D) = d_owner D" "d_join_live (set_place n x D) = d_join_live D"
  "d_handles (set_place n x D) = d_handles D" "d_status (set_place n x D) = d_status D"
  "d_place (set_place n x D) = (d_place D)[n := x]"
  "d_rt (emit n l D) = d_rt D" "d_queued (emit n l D) = d_queued D" "d_ready (emit n l D) = d_ready D"
  "d_owner (emit n l D) = d_owner D" "d_join_live (emit n l D) = d_join_live D" "d_place (emit n l D) = d_place D"
  "d_handles (emit n l D) = d_handles D" "d_status (emit n l D) = d_status D"
  by (simp_all add: on_rt_def set_place_def emit_def)

lemma enqueue_fields [simp]:
  "d_rt (enqueue n D) = d_rt D" "d_place (enqueue n D) = d_place D" "d_owner (enqueue n D) = d_owner D"
  "d_join_live (enqueue n D) = d_join_live D" "d_handles (enqueue n D) = d_handles D"
  "d_status (enqueue n D) = d_status D" "d_ready (enqueue n D) = d_ready D @ [n]"
  "d_queued (enqueue n D) = (d_queued D)[n := True]"
  by (simp_all add: enqueue_def)

lemma retired_cong: "d_place D' = d_place D \<Longrightarrow> retired D' n = retired D n"
  by (simp add: retired_def)

lemma retired_enqueue [simp]: "retired (enqueue n D) = retired D"
  by (rule ext) (simp add: retired_def)

definition flagged :: "'v det \<Rightarrow> bool" where
  "flagged D \<longleftrightarrow> length (d_queued D) = length (d_place D) \<and> (\<forall>n\<in>set (d_ready D). n < length (d_place D)) \<and>
     (\<forall>n<length (d_place D). d_queued D ! n \<longrightarrow> \<not> retired D n \<longrightarrow> n \<in> set (d_ready D))"

lemma flagged_enqueue: "flagged D \<Longrightarrow> n < length (d_place D) \<Longrightarrow> flagged (enqueue n D)"
  by (auto simp: flagged_def nth_list_update')

lemma flagged_cong:
  "d_place D' = d_place D \<Longrightarrow> d_queued D' = d_queued D \<Longrightarrow> d_ready D' = d_ready D \<Longrightarrow> flagged D' = flagged D"
  by (simp add: flagged_def retired_def)

lemma wake_effect:
  assumes "flagged D" "\<forall>n\<in>set ns. n < length (d_place D)" "wake ns D = (k, D')"
  shows "d_rt D' = d_rt D \<and> d_place D' = d_place D \<and> d_owner D' = d_owner D \<and> d_join_live D' = d_join_live D \<and>
    d_handles D' = d_handles D \<and> d_status D' = d_status D \<and> flagged D' \<and> k \<le> length ns \<and>
    (\<exists>ms. d_ready D' = d_ready D @ ms) \<and> (\<forall>n\<in>set ns. \<not> retired D n \<longrightarrow> n \<in> set (d_ready D'))"
  using assms
proof (induction ns arbitrary: D k D')
  case (Cons n ns)
  show ?case
  proof (cases "\<not> d_queued D ! n \<and> \<not> retired D n")
    case True
    obtain j D1 where w: "wake ns (enqueue n D) = (j, D1)" by fastforce
    then have "k = Suc j" "D' = D1" using Cons.prems(3) True by simp_all
    moreover have "flagged (enqueue n D)" using Cons.prems by (intro flagged_enqueue) simp_all
    ultimately show ?thesis using Cons.IH [OF _ _ w] Cons.prems(2) by auto
  next
    case False
    then have w: "wake ns D = (k, D')" using Cons.prems(3) by (simp split: if_splits)
    have "n < length (d_place D)" using Cons.prems(2) by simp
    then have "\<not> retired D n \<Longrightarrow> n \<in> set (d_ready D)" using False Cons.prems(1) by (auto simp: flagged_def)
    then show ?thesis using Cons.IH [OF Cons.prems(1) _ w] Cons.prems(2) by auto
  qed
qed auto

section \<open>The invariant\<close>

fun registered :: "'v op \<Rightarrow> nat \<Rightarrow> 'v conc \<Rightarrow> bool" where
  "registered (Send c v) n s = (n \<in> set (c_det_send (chans s ! c)))"
| "registered (Recv c) n s = (n \<in> set (c_det_recv (chans s ! c)))"
| "registered (Select cs) n s = (\<forall>c\<in>set cs. n \<in> set (c_det_recv (chans s ! c)))"
| "registered (Join t) n s = (n \<in> set (t_det_join (tasks s ! t)))"
| "registered _ n s = False"

definition parked_well :: "'v op \<Rightarrow> nat \<Rightarrow> 'v conc \<Rightarrow> bool" where
  "parked_well p n s \<longleftrightarrow> registered p n s \<and> \<not> can_go p s"

definition settled :: "'v det \<Rightarrow> nat \<Rightarrow> bool" where
  "settled D n \<longleftrightarrow> n \<in> set (d_ready D) \<or>
     (case d_place D ! n of InCode \<Rightarrow> False | Parked p \<Rightarrow> parked_well p n (d_rt D) | Retired \<Rightarrow> True)"

definition chan_lists :: "nat \<Rightarrow> 'v chan \<Rightarrow> bool" where
  "chan_lists N ch \<longleftrightarrow> (c_q ch \<noteq> [] \<longrightarrow> c_det_recv ch = []) \<and> (\<not> chan_full ch \<longrightarrow> c_det_send ch = []) \<and>
     (\<forall>n\<in>set (c_det_recv ch) \<union> set (c_det_send ch). n < N)"

definition task_lists :: "nat \<Rightarrow> 'v task \<Rightarrow> bool" where
  "task_lists N k \<longleftrightarrow> (t_done k \<longrightarrow> t_det_join k = []) \<and> (\<forall>n\<in>set (t_det_join k). n < N)"

definition joiners :: "'v task \<Rightarrow> int" where
  "joiners k = int (length (t_det_join k))"

definition lists_ok :: "nat \<Rightarrow> 'v conc \<Rightarrow> bool" where
  "lists_ok N s \<longleftrightarrow> (\<forall>ch\<in>set (chans s). chan_lists N ch) \<and> (\<forall>k\<in>set (tasks s). task_lists N k)"

definition handles_ok :: "'v det \<Rightarrow> bool" where
  "handles_ok D \<longleftrightarrow> length (d_handles D) = length (d_place D) \<and> 0 < length (d_place D) \<and> \<not> retired D 0 \<and>
     (\<forall>n<length (d_place D). \<forall>t. d_handles D ! n = Some t \<longrightarrow> t < length (tasks (d_rt D))) \<and>
     (\<forall>n<length (d_place D). \<forall>p. d_place D ! n = Parked p \<longrightarrow> op_valid p (d_rt D) \<and> p \<noteq> Select [])"

definition det_inv :: "'v det \<Rightarrow> bool" where
  "det_inv D \<longleftrightarrow> flagged D \<and> handles_ok D \<and> lists_ok (length (d_place D)) (d_rt D) \<and>
     total joiners (tasks (d_rt D)) \<le> d_join_live D"

definition released :: "'v det \<Rightarrow> bool" where
  "released D \<longleftrightarrow> det_inv D \<and> (\<forall>n<length (d_place D). settled D n)"

definition owned :: "nat \<Rightarrow> 'v det \<Rightarrow> bool" where
  "owned k D \<longleftrightarrow> det_inv D \<and> d_owner D = Some k \<and> k < length (d_place D) \<and> \<not> retired D k \<and>
     (\<forall>n<length (d_place D). n \<noteq> k \<longrightarrow> settled D n)"

definition all_stand :: "'v det \<Rightarrow> bool" where
  "all_stand D \<longleftrightarrow> (\<forall>n<length (d_place D). d_place D ! n = Retired \<or>
     (\<exists>p. d_place D ! n = Parked p \<and> \<not> can_go p (d_rt D)))"

section \<open>Passing the baton\<close>

lemma live_in_pos: "0 < live_in ns D \<longleftrightarrow> (\<exists>n\<in>set ns. \<not> d_queued D ! n \<and> \<not> retired D n)"
  by (auto simp: live_in_def filter_empty_conv)

lemma scan_verdict:
  assumes "\<forall>ch\<in>set chs. chan_lists N ch"
  shows "scan_chans chs w D = (if w \<or> (\<exists>ch\<in>set chs. live_in (c_det_recv ch) D > 0 \<or> live_in (c_det_send ch) D > 0)
    then Some deadlock_message else None)"
  using assms
proof (induction chs arbitrary: w)
  case (Cons ch chs)
  then have "c_q ch \<noteq> [] \<longrightarrow> c_det_recv ch = []" "\<not> chan_full ch \<longrightarrow> c_det_send ch = []"
    by (simp_all add: chan_lists_def)
  then have "\<not> (c_q ch \<noteq> [] \<and> live_in (c_det_recv ch) D > 0)"
    "\<not> (c_cap ch > 0 \<and> int (length (c_q ch)) < c_cap ch \<and> live_in (c_det_send ch) D > 0)"
    by (auto simp: live_in_def chan_full_def)
  then show ?case using Cons by auto
qed simp

lemma settled_live:
  assumes "settled D n" "n \<notin> set (d_ready D)" "\<not> retired D n" "n < length (d_place D)" "flagged D"
  shows "\<exists>p. d_place D ! n = Parked p \<and> registered p n (d_rt D) \<and> \<not> can_go p (d_rt D) \<and> \<not> d_queued D ! n"
  using assms by (auto simp: settled_def parked_well_def retired_def flagged_def split: place.splits)

lemma released_waiter:
  assumes rel: "released D" and none: "\<forall>n\<in>set (d_ready D). retired D n"
  shows "det_deadlock (D\<lparr>d_ready := [], d_owner := None\<rparr>) = Some deadlock_message \<and> all_stand D"
proof -
  let ?D = "D\<lparr>d_ready := [], d_owner := None\<rparr>"
  have inv: "flagged D" "handles_ok D" "lists_ok (length (d_place D)) (d_rt D)"
    "total joiners (tasks (d_rt D)) \<le> d_join_live D"
    and set: "\<And>n. n < length (d_place D) \<Longrightarrow> settled D n"
    using rel by (simp_all add: released_def det_inv_def)
  have live: "\<exists>p. d_place D ! n = Parked p \<and> registered p n (d_rt D) \<and> \<not> can_go p (d_rt D) \<and> \<not> d_queued D ! n"
    if "n < length (d_place D)" "\<not> retired D n" for n
    using settled_live [OF set [OF that(1)] _ that(2,1) inv(1)] none that(2) by blast
  have same: "live_in ns ?D = live_in ns D" for ns by (simp add: live_in_def retired_def)
  have z: "0 < length (d_place D)" "\<not> retired D 0" using inv(2) by (simp_all add: handles_ok_def)
  then obtain p where p: "d_place D ! 0 = Parked p" "registered p 0 (d_rt D)" "\<not> can_go p (d_rt D)" "\<not> d_queued D ! 0"
    using live by blast
  have v: "op_valid p (d_rt D)" "p \<noteq> Select []" using inv(2) z p(1) by (auto simp: handles_ok_def)
  have "d_join_live D > 0 \<or> (\<exists>ch\<in>set (chans (d_rt D)). live_in (c_det_recv ch) D > 0 \<or> live_in (c_det_send ch) D > 0)"
  proof (cases p)
    case (Join t)
    then have "t < length (tasks (d_rt D))" "0 \<in> set (t_det_join (tasks (d_rt D) ! t))" using v p(2) by simp_all
    then have "0 < total joiners (tasks (d_rt D))"
      using nth_mem by (subst total_pos) (auto simp: joiners_def intro!: bexI [of _ "tasks (d_rt D) ! t"] length_pos_if_in_set)
    then show ?thesis using inv(4) by linarith
  next
    case (Send c x)
    then show ?thesis using v p z(2) nth_mem by (auto simp: live_in_pos)
  next
    case (Recv c)
    then show ?thesis using v p z(2) nth_mem by (auto simp: live_in_pos)
  next
    case (Select cs)
    then obtain c where "c \<in> set cs" using v(2) by (cases cs) auto
    then have "chans (d_rt D) ! c \<in> set (chans (d_rt D))" "0 \<in> set (c_det_recv (chans (d_rt D) ! c))"
      using Select v(1) p(2) by simp_all
    then show ?thesis using p(4) z(2) by (auto simp: live_in_pos)
  qed (use p(2) in simp_all)
  then have "det_deadlock ?D = Some deadlock_message"
    using scan_verdict [of "chans (d_rt D)" "length (d_place D)"] inv(3) by (auto simp: det_deadlock_def lists_ok_def same)
  moreover have "all_stand D" using live by (auto simp: all_stand_def retired_def)
  ultimately show ?thesis by blast
qed

lemma all_stand_cong:
  "d_place D' = d_place D \<Longrightarrow> d_rt D' = d_rt D \<Longrightarrow> all_stand D' = all_stand D"
  by (simp add: all_stand_def)

definition passed :: "'v det \<Rightarrow> bool" where
  "passed D \<longleftrightarrow> d_status D = Live \<and> (\<exists>k. owned k D) \<or> d_status D = Panicked deadlock_message \<and> all_stand D"

lemma dropWhile_split: "dropWhile P xs = y # ys \<Longrightarrow> \<exists>zs. xs = zs @ y # ys \<and> (\<forall>z\<in>set zs. P z) \<and> \<not> P y"
  by (metis hd_dropWhile list.distinct(1) list.sel(1) set_takeWhileD takeWhile_dropWhile_id)

lemma pass_released:
  assumes rel: "released D" and live: "d_status D = Live"
  shows "passed (pass D)"
proof (cases "dropWhile (retired D) (d_ready D)")
  case Nil
  then have none: "\<forall>n\<in>set (d_ready D). retired D n" by (simp add: dropWhile_eq_Nil_conv)
  note v = released_waiter [OF rel none, THEN conjunct1] and st = released_waiter [OF rel none, THEN conjunct2]
  have d: "pass D = D\<lparr>d_ready := [], d_owner := None, d_status := Panicked deadlock_message\<rparr>"
    by (simp only: pass_def Nil list.case Let_def v option.case)
  have "d_place (pass D) = d_place D" "d_rt (pass D) = d_rt D" by (simp_all add: d)
  then have "all_stand (pass D)" using st all_stand_cong [of "pass D" D] by blast
  moreover have "d_status (pass D) = Panicked deadlock_message" by (simp add: d)
  ultimately show ?thesis unfolding passed_def by blast
next
  case (Cons k ns)
  obtain zs where zs: "d_ready D = zs @ k # ns" "\<forall>z\<in>set zs. retired D z" "\<not> retired D k"
    using dropWhile_split [OF Cons] by (elim exE conjE)
  define D' where "D' = D\<lparr>d_ready := ns, d_queued := (d_queued D)[k := False], d_owner := Some k\<rparr>"
  have d: "pass D = D'" by (simp add: pass_def Cons D'_def)
  have R: "retired D' n = retired D n" for n by (simp add: D'_def retired_def)
  have inv: "flagged D" "handles_ok D" "lists_ok (length (d_place D)) (d_rt D)"
    "total joiners (tasks (d_rt D)) \<le> d_join_live D"
    and set: "\<And>n. n < length (d_place D) \<Longrightarrow> settled D n"
    using rel by (simp_all add: released_def det_inv_def)
  have k: "k < length (d_place D)" using inv(1) zs(1) by (simp add: flagged_def)
  have "flagged D'"
    using inv(1) zs unfolding flagged_def R by (auto simp: D'_def nth_list_update)
  moreover have "handles_ok D'" using inv(2) unfolding handles_ok_def R by (simp add: D'_def)
  moreover have "settled D' n" if "n < length (d_place D)" "n \<noteq> k" for n
    using set [OF that(1)] that(2) zs by (auto simp: settled_def D'_def retired_def split: place.splits)
  ultimately have "owned k D'"
    using inv(3,4) k zs(3) R by (simp add: owned_def det_inv_def) (simp add: D'_def)
  moreover have "d_status D' = Live" using live by (simp add: D'_def)
  ultimately show ?thesis unfolding passed_def d by blast
qed

section \<open>Wakes\<close>

text \<open>The nodes woken at the end of an operation, and the list emptied by it.\<close>

fun woken :: "'v op \<Rightarrow> 'v conc \<Rightarrow> nat list" where
  "woken (Send c v) s = c_det_recv (chans s ! c)"
| "woken (TrySend c v) s = (if chan_full (chans s ! c) then [] else c_det_recv (chans s ! c))"
| "woken (Recv c) s = c_det_send (chans s ! c)"
| "woken (RecvOr c v) s = (if c_q (chans s ! c) \<noteq> [] then c_det_send (chans s ! c) else [])"
| "woken (Select cs) s = c_det_send (chans s ! (cs ! ready_index cs s))"
| "woken (Join t) s = []"

definition no_recv :: "nat \<Rightarrow> 'v conc \<Rightarrow> 'v conc" where
  "no_recv c = on_chan c (\<lambda>ch. ch\<lparr>c_det_recv := []\<rparr>)"

definition no_send :: "nat \<Rightarrow> 'v conc \<Rightarrow> 'v conc" where
  "no_send c = on_chan c (\<lambda>ch. ch\<lparr>c_det_send := []\<rparr>)"

fun emptied :: "'v op \<Rightarrow> 'v conc \<Rightarrow> 'v conc \<Rightarrow> 'v conc" where
  "emptied (Send c v) s = no_recv c"
| "emptied (TrySend c v) s = (if chan_full (chans s ! c) then id else no_recv c)"
| "emptied (Recv c) s = no_send c"
| "emptied (RecvOr c v) s = (if c_q (chans s ! c) \<noteq> [] then no_send c else id)"
| "emptied (Select cs) s = no_send (cs ! ready_index cs s)"
| "emptied (Join t) s = id"

definition moved :: "'v det \<Rightarrow> nat list \<Rightarrow> 'v det \<Rightarrow> bool" where
  "moved D ns D' \<longleftrightarrow> d_place D' = d_place D \<and> d_owner D' = d_owner D \<and>
    d_handles D' = d_handles D \<and> d_status D' = d_status D \<and> flagged D' \<and>
    (\<exists>ms. d_ready D' = d_ready D @ ms) \<and> (\<forall>n\<in>set ns. \<not> retired D n \<longrightarrow> n \<in> set (d_ready D'))"

lemma wake_moved:
  assumes "flagged D" "\<forall>n\<in>set ns. n < length (d_place D)"
  shows "moved D ns (snd (wake ns D))" "d_rt (snd (wake ns D)) = d_rt D"
    "d_join_live (snd (wake ns D)) = d_join_live D" "fst (wake ns D) \<le> length ns"
  using wake_effect [OF assms, of "fst (wake ns D)" "snd (wake ns D)"] by (simp_all add: moved_def)

lemma moved_on_rt [simp]: "moved D ns (on_rt f D') = moved D ns D'"
  by (simp add: moved_def flagged_def retired_def)

lemma moved_refl: "flagged D \<Longrightarrow> moved D [] D"
  by (simp add: moved_def)

lemma ready_index_nth:
  "\<exists>c\<in>set cs. c_q (chans s ! c) \<noteq> [] \<Longrightarrow>
     ready_index cs s < length cs \<and> c_q (chans s ! (cs ! ready_index cs s)) \<noteq> []"
  by (induction cs) auto

lemma complete_lists:
  "c_det_recv (chans (snd (complete p s)) ! c) = c_det_recv (chans s ! c)"
  "c_det_send (chans (snd (complete p s)) ! c) = c_det_send (chans s ! c)"
  "t_det_join (tasks (snd (complete p s)) ! t) = t_det_join (tasks s ! t)"
  by (cases p; simp add: put_msg_def take_msg_def on_task_def on_chan_def nth_list_update')+

lemma wake_after_moved:
  assumes "flagged D" "lists_ok (length (d_place D)) s" "op_valid p s" "can_go p s"
    and rt: "d_rt D = snd (complete p s)"
  shows "moved D (woken p s) (wake_after p s D)" "d_rt (wake_after p s D) = emptied p s (d_rt D)"
    "d_join_live (wake_after p s D) = d_join_live D"
proof -
  have b: "\<forall>n\<in>set (c_det_recv (chans s ! c)) \<union> set (c_det_send (chans s ! c)). n < length (d_place D)"
    if "c < length (chans s)" for c
    using assms(2) nth_mem [OF that] by (auto simp: lists_ok_def chan_lists_def)
  have r: "moved D (c_det_recv (chans s ! c)) (det_wake_recv c D) \<and> d_rt (det_wake_recv c D) = no_recv c (d_rt D) \<and>
      d_join_live (det_wake_recv c D) = d_join_live D" if "c < length (chans s)" for c
    using wake_moved [OF assms(1), of "c_det_recv (chans s ! c)"] b [OF that]
    by (simp add: det_wake_recv_def no_recv_def rt complete_lists)
  have w: "moved D (c_det_send (chans s ! c)) (det_wake_send c D) \<and> d_rt (det_wake_send c D) = no_send c (d_rt D) \<and>
      d_join_live (det_wake_send c D) = d_join_live D" if "c < length (chans s)" for c
    using wake_moved [OF assms(1), of "c_det_send (chans s ! c)"] b [OF that]
    by (simp add: det_wake_send_def no_send_def rt complete_lists)
  have "cs ! ready_index cs s < length (chans s)" if "p = Select cs" for cs
    using assms(3,4) that ready_index_nth [of cs s] nth_mem [of "ready_index cs s" cs] by simp
  then show "moved D (woken p s) (wake_after p s D)" "d_rt (wake_after p s D) = emptied p s (d_rt D)"
    "d_join_live (wake_after p s D) = d_join_live D"
    using r w assms(1,3) moved_refl by (cases p; auto)+
qed

section \<open>Parked nodes stay well parked\<close>

lemma parked_well_after:
  assumes p: "op_valid p s" "can_go p s" and q: "op_valid q s" "parked_well q n s" "n \<notin> set (woken p s)"
  shows "parked_well q n (emptied p s (snd (complete p s)))"
proof (cases p)
  case (Select cs)
  then show ?thesis
    using assms ready_index_nth [of cs s]
    by (cases q) (auto simp: parked_well_def no_send_def on_chan_def nth_list_update' chan_full_def)
qed (use assms in \<open>cases q; auto simp: parked_well_def no_send_def no_recv_def on_chan_def on_task_def put_msg_def
      take_msg_def nth_list_update' chan_full_def split: if_splits\<close>)+

lemma parked_well_count_wait:
  assumes "op_valid q s" "op_valid p s"
  shows "parked_well q n (count_wait d p s) = parked_well q n s"
  using assms by (cases q) (auto simp: parked_well_def count_wait_nth)

fun park_rt :: "nat \<Rightarrow> 'v op \<Rightarrow> 'v conc \<Rightarrow> 'v conc" where
  "park_rt n (Send c v) = on_chan c (\<lambda>ch. ch\<lparr>c_det_send := c_det_send ch @ [n]\<rparr>)"
| "park_rt n (Recv c) = on_chan c (\<lambda>ch. ch\<lparr>c_det_recv := c_det_recv ch @ [n]\<rparr>)"
| "park_rt n (Select cs) = fold (\<lambda>c. on_chan c (\<lambda>ch. ch\<lparr>c_det_recv := c_det_recv ch @ [n]\<rparr>)) cs"
| "park_rt n (Join t) = on_task t (\<lambda>x. x\<lparr>t_det_join := t_det_join x @ [n]\<rparr>)"
| "park_rt n _ = id"

lemma park_fields [simp]:
  "d_place (park n p D) = d_place D" "d_queued (park n p D) = d_queued D" "d_ready (park n p D) = d_ready D"
  "d_handles (park n p D) = d_handles D" "d_status (park n p D) = d_status D"
  "d_rt (park n p D) = park_rt n p (d_rt D)"
  "d_join_live (park n p D) = d_join_live D + join_waits (Waiting p False)"
  by (cases p; simp add: counts)+

lemma fold_park:
  "length (chans (fold (\<lambda>c. on_chan c (\<lambda>ch. ch\<lparr>c_det_recv := c_det_recv ch @ [n]\<rparr>)) cs s)) = length (chans s) \<and>
   tasks (fold (\<lambda>c. on_chan c (\<lambda>ch. ch\<lparr>c_det_recv := c_det_recv ch @ [n]\<rparr>)) cs s) = tasks s \<and>
   (c < length (chans s) \<longrightarrow>
      chans (fold (\<lambda>c. on_chan c (\<lambda>ch. ch\<lparr>c_det_recv := c_det_recv ch @ [n]\<rparr>)) cs s) ! c =
        (chans s ! c)\<lparr>c_det_recv := c_det_recv (chans s ! c) @ replicate (count_list cs c) n\<rparr>)"
proof (induction cs arbitrary: s)
  case (Cons a cs)
  show ?case using Cons.IH [of "on_chan a (\<lambda>ch. ch\<lparr>c_det_recv := c_det_recv ch @ [n]\<rparr>) s"]
    by (auto simp: replicate_append_same [symmetric])
qed simp

lemmas fold_park_simps [simp] = fold_park [THEN conjunct1] fold_park [THEN conjunct2, THEN conjunct1]
  fold_park [THEN conjunct2, THEN conjunct2, rule_format]

lemma park_lengths [simp]:
  "length (chans (park_rt n p s)) = length (chans s)" "length (tasks (park_rt n p s)) = length (tasks s)"
  by (cases p; simp add: on_task_def)+

lemma park_nth:
  "c < length (chans s) \<Longrightarrow> op_valid p s \<Longrightarrow> chans (park_rt n p s) ! c =
     (chans s ! c)\<lparr>c_det_recv := c_det_recv (chans s ! c) @ replicate (nat (recv_waits c (Waiting p False))) n,
       c_det_send := c_det_send (chans s ! c) @ replicate (nat (send_waits c (Waiting p False))) n\<rparr>"
  by (cases p) (auto simp: counts on_task_def)

lemma park_task_nth:
  "t < length (tasks s) \<Longrightarrow> tasks (park_rt n p s) ! t =
     (tasks s ! t)\<lparr>t_det_join := t_det_join (tasks s ! t) @ replicate (nat (joins t (Waiting p False))) n\<rparr>"
  by (cases p) (auto simp: counts on_task_def nth_list_update')

lemma chan_full_lists [simp]:
  "chan_full (ch\<lparr>c_det_recv := x\<rparr>) = chan_full ch" "chan_full (ch\<lparr>c_det_send := y\<rparr>) = chan_full ch"
  by (simp_all add: chan_full_def)

lemma can_go_park [simp]: "op_valid q s \<Longrightarrow> op_valid p s \<Longrightarrow> can_go q (park_rt n p s) = can_go q s"
  by (cases q) (auto simp: park_nth park_task_nth)

lemma parked_well_park:
  assumes "op_valid q s" "op_valid p s" "parked_well q m s"
  shows "parked_well q m (park_rt n p s)"
  using assms by (cases q) (auto simp: parked_well_def park_nth park_task_nth)

lemma registered_park:
  assumes "op_valid p s" "\<not> can_go p s"
  shows "registered p n (park_rt n p s)"
proof (cases p)
  case (Select cs)
  have "0 < count_list cs c" if "c \<in> set cs" for c using that count_list_0_iff [of cs c] by (metis gr0I)
  then show ?thesis using assms Select by (auto simp: park_nth counts in_set_replicate)
qed (use assms in \<open>auto simp: park_nth park_task_nth counts on_task_def\<close>)

section \<open>Turns\<close>

lemma settled_step:
  assumes "settled D n" "d_place D' ! n = d_place D ! n" "set (d_ready D) \<subseteq> set (d_ready D')"
    and "\<And>p. d_place D ! n = Parked p \<Longrightarrow> n \<notin> set (d_ready D') \<Longrightarrow> parked_well p n (d_rt D) \<Longrightarrow> parked_well p n (d_rt D')"
  shows "settled D' n"
  using assms by (auto simp: settled_def split: place.splits)

lemma op_valid_same:
  "length (chans s') = length (chans s) \<Longrightarrow> length (tasks s') = length (tasks s) \<Longrightarrow> op_valid p s' = op_valid p s"
  by (cases p) simp_all

lemma lists_okI:
  assumes "\<And>c. c < length (chans s) \<Longrightarrow> chan_lists N (chans s ! c)" "\<And>t. t < length (tasks s) \<Longrightarrow> task_lists N (tasks s ! t)"
  shows "lists_ok N s"
  using assms by (auto simp: lists_ok_def in_set_conv_nth)

lemma lists_okD:
  assumes "lists_ok N s"
  shows "c < length (chans s) \<Longrightarrow> chan_lists N (chans s ! c)" "t < length (tasks s) \<Longrightarrow> task_lists N (tasks s ! t)"
  using assms by (simp_all add: lists_ok_def)

lemma emptied_lengths [simp]:
  "length (chans (emptied p s s')) = length (chans s')" "tasks (emptied p s s') = tasks s'"
  by (cases p; simp add: no_recv_def no_send_def)+

lemma lists_after:
  assumes ok: "lists_ok N s" and p: "op_valid p s" "can_go p s"
  shows "lists_ok N (emptied p s (snd (complete p s)))"
proof (rule lists_okI)
  fix c
  assume "c < length (chans (emptied p s (snd (complete p s))))"
  then have c: "c < length (chans s)" by simp
  show "chan_lists N (chans (emptied p s (snd (complete p s))) ! c)"
  proof (cases p)
    case (Select cs)
    then show ?thesis
      using lists_okD(1) [OF ok c] c by (auto simp: no_send_def chan_lists_def on_chan_def nth_list_update')
  qed (use lists_okD(1) [OF ok c] c p in \<open>auto simp: no_send_def no_recv_def chan_lists_def on_chan_def
       put_msg_def take_msg_def on_task_def nth_list_update' chan_full_def split: if_splits\<close>)
next
  fix t
  assume "t < length (tasks (emptied p s (snd (complete p s))))"
  then have t: "t < length (tasks s)" by simp
  show "task_lists N (tasks (emptied p s (snd (complete p s))) ! t)"
    using lists_okD(2) [OF ok t] t by (simp add: task_lists_def complete_lists)
qed

lemma lists_park:
  assumes ok: "lists_ok N s" and p: "op_valid p s" "\<not> can_go p s" and n: "n < N"
  shows "lists_ok N (park_rt n p s)"
proof (rule lists_okI)
  fix c
  assume "c < length (chans (park_rt n p s))"
  then have c: "c < length (chans s)" by simp
  show "chan_lists N (chans (park_rt n p s) ! c)"
    using lists_okD(1) [OF ok c] p n c
    by (cases p) (auto simp: park_nth chan_lists_def counts count_list_0_iff in_set_replicate on_task_def
        split: if_splits)
next
  fix t
  assume "t < length (tasks (park_rt n p s))"
  then have t: "t < length (tasks s)" by simp
  show "task_lists N (tasks (park_rt n p s) ! t)"
    using lists_okD(2) [OF ok t] p n t
    by (cases p) (auto simp: park_task_nth task_lists_def counts on_task_def nth_list_update')
qed

lemma lists_count_wait: "lists_ok N s \<Longrightarrow> op_valid p s \<Longrightarrow> lists_ok N (count_wait d p s)"
  by (rule lists_okI) (auto simp: count_wait_nth chan_lists_def dest: lists_okD)

lemma joiners_same:
  assumes "length (tasks s') = length (tasks s)" "\<And>t. t < length (tasks s) \<Longrightarrow> t_det_join (tasks s' ! t) = t_det_join (tasks s ! t)"
  shows "total joiners (tasks s') = total joiners (tasks s)"
proof -
  have "map joiners (tasks s') = map joiners (tasks s)"
    using assms by (intro nth_equalityI) (simp_all add: joiners_def)
  then show ?thesis by (simp add: total_def)
qed

lemma joiners_park: "op_valid p s \<Longrightarrow>
  total joiners (tasks (park_rt n p s)) = total joiners (tasks s) + join_waits (Waiting p False)"
proof (cases p)
  case (Join t)
  assume "op_valid p s"
  then show ?thesis by (simp add: Join on_task_def total_update joiners_def counts)
qed (simp_all add: counts)

lemma handles_step:
  assumes ok: "handles_ok D" and "d_handles D' = d_handles D" "d_place D' = (d_place D)[k := x]" "x \<noteq> Retired \<or> k \<noteq> 0"
    and "length (tasks (d_rt D')) = length (tasks (d_rt D))" "length (chans (d_rt D')) = length (chans (d_rt D))"
    and "\<And>p. x = Parked p \<Longrightarrow> op_valid p (d_rt D) \<and> p \<noteq> Select []"
  shows "handles_ok D'"
proof -
  have "op_valid p (d_rt D') = op_valid p (d_rt D)" for p using assms(5,6) by (rule op_valid_same [rotated])
  moreover have "\<not> retired D' 0" using ok assms(3,4) by (auto simp: handles_ok_def retired_def nth_list_update')
  moreover have "op_valid p (d_rt D) \<and> p \<noteq> Select []" if "n < length (d_place D)" "d_place D' ! n = Parked p" for n p
    using that ok assms(3,7) by (cases "n = k") (auto simp: handles_ok_def)
  ultimately show ?thesis using ok assms(2,3,5) by (simp add: handles_ok_def)
qed

lemma flagged_place:
  assumes "flagged D" "d_queued D' = d_queued D" "d_ready D' = d_ready D" "d_place D' = (d_place D)[k := x]"
    "x = Retired \<or> \<not> retired D k"
  shows "flagged D'"
  using assms by (auto simp: flagged_def retired_def nth_list_update')

lemma ownedD:
  assumes "owned k D"
  shows "flagged D" "handles_ok D" "lists_ok (length (d_place D)) (d_rt D)" "total joiners (tasks (d_rt D)) \<le> d_join_live D"
    "k < length (d_place D)" "\<not> retired D k" "n < length (d_place D) \<Longrightarrow> n \<noteq> k \<Longrightarrow> settled D n"
    "n < length (d_place D) \<Longrightarrow> d_place D ! n = Parked p \<Longrightarrow> op_valid p (d_rt D) \<and> p \<noteq> Select []"
  using assms by (simp_all add: owned_def det_inv_def handles_ok_def)

lemma moved_length: "moved D ns D' \<Longrightarrow> d_place D' = d_place D" "moved D ns D' \<Longrightarrow> flagged D'"
  "moved D ns D' \<Longrightarrow> d_handles D' = d_handles D" "moved D ns D' \<Longrightarrow> d_status D' = d_status D"
  "moved D ns D' \<Longrightarrow> set (d_ready D) \<subseteq> set (d_ready D')"
  "moved D ns D' \<Longrightarrow> n \<in> set ns \<Longrightarrow> \<not> retired D n \<Longrightarrow> n \<in> set (d_ready D')"
  by (auto simp: moved_def)

lemma yield_live: "\<not> retired D k \<Longrightarrow> yield_baton k D = pass (enqueue k D)"
  by (simp add: yield_baton_def)

lemma go_released:
  assumes own: "owned k D" and p: "op_valid p (d_rt D)" "can_go p (d_rt D)"
    and D2: "D2 = wake_after p (d_rt D) (set_place k InCode (on_rt (\<lambda>s. snd (complete p s)) D))"
  shows "released (enqueue k D2) \<and> \<not> retired D2 k \<and> d_status D2 = d_status D"
proof -
  note O = ownedD [OF own]
  let ?D1 = "set_place k InCode (on_rt (\<lambda>s. snd (complete p s)) D)"
  have f1: "flagged ?D1" by (rule flagged_place [OF O(1), of _ k InCode]) (simp_all add: O(6))
  have mv: "moved ?D1 (woken p (d_rt D)) D2" and rt: "d_rt D2 = emptied p (d_rt D) (snd (complete p (d_rt D)))"
    and jl: "d_join_live D2 = d_join_live D"
    using wake_after_moved [OF f1 _ p] O(3) unfolding D2 by simp_all
  note m = moved_length [OF mv]
  have place: "d_place D2 = (d_place D)[k := InCode]" using m(1) by simp
  have fl: "flagged (enqueue k D2)" using m(2) O(5) by (intro flagged_enqueue) (simp_all add: place)
  have h: "handles_ok (enqueue k D2)"
    by (rule handles_step [OF O(2), of _ k InCode]) (simp_all add: place m(3) rt)
  have l: "lists_ok (length (d_place D)) (d_rt D2)" unfolding rt by (rule lists_after [OF O(3) p])
  have j: "total joiners (tasks (d_rt D2)) = total joiners (tasks (d_rt D))"
    by (rule joiners_same) (simp_all add: rt complete_lists)
  have set: "settled (enqueue k D2) n" if n: "n < length (d_place D)" for n
  proof (cases "n = k")
    case True
    then show ?thesis by (simp add: settled_def)
  next
    case False
    show ?thesis
    proof (rule settled_step [OF O(7) [OF n False]])
      show "d_place (enqueue k D2) ! n = d_place D ! n" using False by (simp add: place)
      show "set (d_ready D) \<subseteq> set (d_ready (enqueue k D2))" using m(5) by auto
      fix q
      assume q: "d_place D ! n = Parked q" "n \<notin> set (d_ready (enqueue k D2))" "parked_well q n (d_rt D)"
      have "\<not> retired ?D1 n" using q(1) False n by (simp add: retired_def)
      then have "n \<notin> set (woken p (d_rt D))" using m(6) q(2) by auto
      then show "parked_well q n (d_rt (enqueue k D2))"
        using parked_well_after [OF p _ q(3)] O(8) [OF n q(1)] by (simp add: rt)
    qed
  qed
  show ?thesis
    using fl h l j O(4) set m(4) O(5) by (simp add: released_def det_inv_def place jl retired_def)
qed

lemma wait_released:
  assumes own: "owned k D" and p: "op_valid p (d_rt D)" "\<not> can_go p (d_rt D)" "p \<noteq> Select []"
    and D1: "D1 = park k p (set_place k (Parked p) (on_rt (count_wait 1 p) D))"
  shows "released D1 \<and> d_status D1 = d_status D"
proof -
  note O = ownedD [OF own]
  have rt: "d_rt D1 = park_rt k p (count_wait 1 p (d_rt D))" and place: "d_place D1 = (d_place D)[k := Parked p]"
    and ready: "d_ready D1 = d_ready D" by (simp_all add: D1)
  have fl: "flagged D1" by (rule flagged_place [OF O(1), of _ k "Parked p"]) (simp_all add: D1 O(6))
  have h: "handles_ok D1"
    by (rule handles_step [OF O(2), of _ k "Parked p"]) (use p in \<open>simp_all add: D1\<close>)
  have l: "lists_ok (length (d_place D)) (d_rt D1)"
    unfolding rt by (rule lists_park [OF lists_count_wait [OF O(3) p(1)]]) (simp_all add: p O(5))
  have j: "total joiners (tasks (d_rt D1)) \<le> d_join_live D1"
    using O(4) joiners_park [of p "count_wait 1 p (d_rt D)" k] p(1) by (simp add: D1)
  have set: "settled D1 n" if n: "n < length (d_place D)" for n
  proof (cases "n = k")
    case True
    then show ?thesis
      using registered_park [of p "count_wait 1 p (d_rt D)" k] p n by (simp add: settled_def place rt parked_well_def)
  next
    case False
    show ?thesis
    proof (rule settled_step [OF O(7) [OF n False]])
      fix q
      assume q: "d_place D ! n = Parked q" "parked_well q n (d_rt D)"
      have "op_valid q (d_rt D)" using O(8) [OF n q(1)] by simp
      then show "parked_well q n (d_rt D1)"
        unfolding rt using p(1) q(2) by (intro parked_well_park) (simp_all add: parked_well_count_wait)
    qed (use False in \<open>simp_all add: place ready\<close>)
  qed
  show ?thesis
    using fl h l j set by (simp add: released_def det_inv_def place) (simp add: D1)
qed

lemma turn_passed:
  assumes "owned k D" "d_status D = Live" "op_valid p (d_rt D)" "p \<noteq> Select []"
  shows "passed (turn k p D)"
proof (cases "can_go p (d_rt D)")
  case True
  let ?D = "wake_after p (d_rt D) (set_place k InCode (on_rt (\<lambda>s. snd (complete p s)) D))"
  have "released (enqueue k ?D)" "\<not> retired ?D k" "d_status (enqueue k ?D) = Live"
    using go_released [OF assms(1,3) True refl] assms(2) by simp_all
  then have "passed (pass (enqueue k ?D))" by (intro pass_released)
  then show ?thesis using True \<open>\<not> retired ?D k\<close> by (simp add: turn_def yield_live)
next
  case False
  let ?D = "park k p (set_place k (Parked p) (on_rt (count_wait 1 p) D))"
  have "released ?D" "d_status ?D = Live" using wait_released [OF assms(1,3) False assms(4) refl] assms(2) by simp_all
  then have "passed (pass ?D)" by (rule pass_released)
  then show ?thesis using False by (simp add: turn_def)
qed

section \<open>Every action\<close>

lemma owned_cong:
  assumes "owned k D" "d_place D' = d_place D" "d_queued D' = d_queued D" "d_ready D' = d_ready D"
    "d_owner D' = d_owner D" "d_handles D' = d_handles D" "total joiners (tasks (d_rt D')) \<le> d_join_live D'"
    "length (chans (d_rt D)) \<le> length (chans (d_rt D'))" "length (tasks (d_rt D)) \<le> length (tasks (d_rt D'))"
    "lists_ok (length (d_place D)) (d_rt D')"
    "\<And>p n. op_valid p (d_rt D) \<Longrightarrow> parked_well p n (d_rt D) \<Longrightarrow> parked_well p n (d_rt D')"
  shows "owned k D'"
proof -
  note O = ownedD [OF assms(1)]
  have R: "retired D' n = retired D n" for n using assms(2) by (simp add: retired_def)
  have v: "op_valid p (d_rt D) \<Longrightarrow> op_valid p (d_rt D')" for p using assms(8,9) by (rule op_valid_cong)
  have "flagged D'" using O(1) by (simp add: flagged_def R assms(2-4))
  moreover have "handles_ok D'"
    using O(2) assms(9) v unfolding handles_ok_def R assms(2,6) by (metis order_less_le_trans)
  moreover have "settled D' n" if "n < length (d_place D)" "n \<noteq> k" for n
    by (rule settled_step [OF O(7) [OF that]]) (use assms(2,4,11) O(8) [OF that(1)] in auto)
  ultimately show ?thesis
    using assms(1,2,5,7,10) by (simp add: owned_def det_inv_def R)
qed

lemma settled_emit [simp]: "settled (emit n l D) m = settled D m"
  by (simp add: settled_def split: place.split)

lemma owned_emit [simp]: "owned k (emit n l D) = owned k D"
  by (simp add: owned_def det_inv_def flagged_def handles_ok_def retired_def)

lemma owned_leave:
  assumes "owned k D" "d_place D ! k = Parked p"
  shows "owned k (on_rt (count_wait (-1) p) D)"
proof -
  note O = ownedD [OF assms(1)]
  have p: "op_valid p (d_rt D)" using O(8) [OF O(5) assms(2)] by simp
  show ?thesis
    by (rule owned_cong [OF assms(1)])
       (use O(3,4) lists_count_wait p in \<open>auto simp: parked_well_count_wait\<close>)
qed

lemma parked_well_append:
  assumes "op_valid p s" "parked_well p n s"
    and "\<And>c. c < length (chans s) \<Longrightarrow> chans s' ! c = chans s ! c" "\<And>t. t < length (tasks s) \<Longrightarrow> tasks s' ! t = tasks s ! t"
  shows "parked_well p n s'"
  using assms by (cases p) (auto simp: parked_well_def)

lemma owned_register: "owned k D \<Longrightarrow> owned k (on_rt (register (new_chan cap)) D)"
proof (rule owned_cong)
  assume own: "owned k D"
  note O = ownedD [OF own]
  show "total joiners (tasks (d_rt (on_rt (register (new_chan cap)) D))) \<le> d_join_live (on_rt (register (new_chan cap)) D)"
    using O(4) by simp
  show "lists_ok (length (d_place D)) (d_rt (on_rt (register (new_chan cap)) D))"
    using O(3) by (auto simp: lists_ok_def register_def new_chan_def chan_lists_def)
  show "parked_well p n (d_rt (on_rt (register (new_chan cap)) D))"
    if "op_valid p (d_rt D)" "parked_well p n (d_rt D)" for p n
    by (rule parked_well_append [OF that]) (simp_all add: register_def nth_append)
qed (simp_all add: register_def)

lemma owned_new_task: "owned k D \<Longrightarrow> owned k (on_rt (\<lambda>s. s\<lparr>tasks := tasks s @ [new_task]\<rparr>) D)"
proof (rule owned_cong)
  assume own: "owned k D"
  note O = ownedD [OF own]
  let ?D = "on_rt (\<lambda>s. s\<lparr>tasks := tasks s @ [new_task]\<rparr>) D"
  show "total joiners (tasks (d_rt ?D)) \<le> d_join_live ?D" using O(4) by (simp add: joiners_def new_task_def)
  show "lists_ok (length (d_place D)) (d_rt ?D)"
    using O(3) by (auto simp: lists_ok_def new_task_def task_lists_def)
  show "parked_well p n (d_rt ?D)" if "op_valid p (d_rt D)" "parked_well p n (d_rt D)" for p n
    by (rule parked_well_append [OF that]) (simp_all add: nth_append)
qed simp_all

lemma lists_ok_mono: "lists_ok N s \<Longrightarrow> N \<le> M \<Longrightarrow> lists_ok M s"
  unfolding lists_ok_def chan_lists_def task_lists_def using order_less_le_trans by blast

lemma spawn_passed:
  assumes own: "owned k D" and live: "d_status D = Live" and h: "\<And>t. h = Some t \<Longrightarrow> t < length (tasks (d_rt D))"
  shows "passed (det_spawn k h D)"
proof -
  note O = ownedD [OF own]
  let ?N = "length (d_place D)"
  define D1 where "D1 = (on_rt (\<lambda>s. s\<lparr>tasks_alive := tasks_alive s + 1\<rparr>) (spawn_op k D))\<lparr>d_handles := d_handles D @ [h]\<rparr>"
  have f: "d_place D1 = d_place D @ [InCode]" "d_queued D1 = d_queued D @ [True]" "d_ready D1 = d_ready D @ [?N]"
    "d_handles D1 = d_handles D @ [h]" "d_rt D1 = (d_rt D)\<lparr>tasks_alive := tasks_alive (d_rt D) + 1\<rparr>"
    "d_join_live D1 = d_join_live D" "d_status D1 = Live"
    by (simp_all add: D1_def spawn_op_def emit_def on_rt_def live)
  have R: "retired D1 n \<longleftrightarrow> retired D n" if "n < ?N" for n using that by (simp add: retired_def f nth_append)
  have lens: "length (d_queued D) = ?N" "length (d_handles D) = ?N" "0 < ?N"
    using O(1,2) by (simp_all add: flagged_def handles_ok_def)
  have "flagged D1"
    using O(1) lens unfolding flagged_def f
    by (auto simp: nth_append less_Suc_eq R)
  then have fl: "flagged (enqueue k D1)" using O(5) by (intro flagged_enqueue) (simp_all add: f)
  have v: "op_valid p ((d_rt D)\<lparr>tasks_alive := x\<rparr>) = op_valid p (d_rt D)" for p x by (rule op_valid_same) simp_all
  have hd: "handles_ok (enqueue k D1)"
    using O(2) lens h R [of 0] by (auto simp: handles_ok_def f v nth_append less_Suc_eq)
  have l: "lists_ok (Suc ?N) (d_rt D1)" using lists_ok_mono [OF O(3), of "Suc ?N"] by (simp add: f lists_ok_def)
  have set: "settled (enqueue k D1) n" if n: "n < Suc ?N" for n
  proof (cases "n = k \<or> n = ?N")
    case True
    then show ?thesis by (auto simp: settled_def f)
  next
    case False
    then have n: "n < ?N" "n \<noteq> k" using n by auto
    show ?thesis
    proof (rule settled_step [OF O(7) [OF n]])
      fix p
      assume q: "d_place D ! n = Parked p" "parked_well p n (d_rt D)"
      then have "op_valid p (d_rt D)" using O(8) [OF n(1)] by blast
      then show "parked_well p n (d_rt (enqueue k D1))" by (rule parked_well_append [OF _ q(2)]) (simp_all add: f)
    qed (use n in \<open>auto simp: f nth_append\<close>)
  qed
  have "released (enqueue k D1)"
    using fl hd l set O(4) by (simp add: released_def det_inv_def f)
  moreover have "\<not> retired D1 k" using R O(5,6) by simp
  ultimately have "passed (yield_baton k D1)" using f(7) pass_released [of "enqueue k D1"] by (simp add: yield_live)
  then show ?thesis by (simp add: det_spawn_def D1_def)
qed

lemma retire_passed:
  assumes fl: "flagged D" and h: "handles_ok D" and l: "lists_ok (length (d_place D)) (d_rt D)"
    and j: "total joiners (tasks (d_rt D)) \<le> d_join_live D" and k: "k < length (d_place D)" "k \<noteq> 0" "\<not> retired D k"
    and set: "\<And>n. n < length (d_place D) \<Longrightarrow> n \<noteq> k \<Longrightarrow> settled D n" and live: "d_status D = Live"
  shows "passed (retire_baton k D)"
proof -
  let ?D = "set_place k Retired D"
  have "flagged ?D" by (rule flagged_place [OF fl, of _ k Retired]) simp_all
  moreover have "handles_ok ?D" by (rule handles_step [OF h, of _ k Retired]) (simp_all add: k(2))
  moreover have "settled ?D n" if "n < length (d_place D)" for n
  proof (cases "n = k")
    case False
    show ?thesis by (rule settled_step [OF set [OF that False]]) (use False in simp_all)
  qed (use k in \<open>simp add: settled_def\<close>)
  ultimately have "released ?D" using l j by (simp add: released_def det_inv_def)
  then show ?thesis using live k(3) pass_released [of ?D] by (simp add: retire_baton_def)
qed

lemma parked_well_finished:
  assumes "op_valid q s" "parked_well q n s" "n \<notin> set (t_det_join (tasks s ! t))"
  shows "parked_well q n (on_task t (\<lambda>x. x\<lparr>t_det_join := []\<rparr>) (task_finished t v s))"
  using assms by (cases q) (auto simp: parked_well_def task_finished_def on_task_def nth_list_update')

lemma finish_passed:
  assumes own: "owned k D" and live: "d_status D = Live" and k0: "k \<noteq> 0"
  shows "passed (det_finish k v D)"
proof (cases "d_handles D ! k")
  case None
  note O = ownedD [OF own]
  have "owned k (on_rt (\<lambda>s. s\<lparr>tasks_alive := tasks_alive s - 1\<rparr>) D)"
    by (rule owned_cong [OF own]) (use O(3,4) in \<open>auto simp: lists_ok_def intro: parked_well_append\<close>)
  from ownedD [OF this] have "passed (retire_baton k (on_rt (\<lambda>s. s\<lparr>tasks_alive := tasks_alive s - 1\<rparr>) D))"
    by (intro retire_passed) (simp_all add: k0 live)
  then show ?thesis by (simp add: det_finish_def None)
next
  case (Some t)
  note O = ownedD [OF own]
  have t: "t < length (tasks (d_rt D))" using O(2,5) Some by (auto simp: handles_ok_def)
  let ?D = "on_rt (task_finished t v) (emit k LFinish D)"
  let ?ns = "t_det_join (tasks (d_rt D) ! t)"
  have ns: "\<forall>n\<in>set ?ns. n < length (d_place D)" using lists_okD(2) [OF O(3) t] by (simp add: task_lists_def)
  have R: "retired ?D = retired D" by (rule ext) (simp add: retired_def)
  have f1: "flagged ?D" using O(1) unfolding flagged_def R by simp
  have join: "t_det_join (tasks (d_rt ?D) ! t) = ?ns" using t by (simp add: task_finished_def on_task_def)
  define D2 where "D2 = wake_joiners t ?D"
  obtain w D1 where w: "wake ?ns ?D = (w, D1)" by fastforce
  have mv: "moved ?D ?ns D1" "d_rt D1 = task_finished t v (d_rt D)" "d_join_live D1 = d_join_live D" "w \<le> length ?ns"
    using wake_moved [OF f1, of ?ns] ns w by simp_all
  note m = moved_length [OF mv(1)]
  have D2: "D2 = (on_rt (on_task t (\<lambda>x. x\<lparr>t_det_join := []\<rparr>)) D1)\<lparr>d_join_live := d_join_live D1 - int w\<rparr>"
    unfolding D2_def wake_joiners_def join w by simp
  have place: "d_place D2 = d_place D" and ready: "d_ready D2 = d_ready D1" and hs: "d_handles D2 = d_handles D"
    and st: "d_status D2 = Live" and rt: "d_rt D2 = on_task t (\<lambda>x. x\<lparr>t_det_join := []\<rparr>) (task_finished t v (d_rt D))"
    and jl: "d_join_live D2 = d_join_live D - int w"
    using m live mv by (simp_all add: D2)
  have R2: "retired D2 n = retired D n" for n by (simp add: retired_def place)
  have "flagged D2" using m(2) by (simp add: D2 flagged_def retired_def)
  moreover have "handles_ok D2"
    by (rule handles_step [OF O(2), of _ k "d_place D ! k"])
       (use O(6,8) O(5) in \<open>auto simp: place hs rt retired_def task_finished_def on_task_def\<close>)
  moreover have "lists_ok (length (d_place D2)) (d_rt D2)"
  proof (rule lists_okI)
    show "chan_lists (length (d_place D2)) (chans (d_rt D2) ! c)" if "c < length (chans (d_rt D2))" for c
      using that lists_okD(1) [OF O(3), of c] by (simp add: rt place task_finished_def on_task_def)
    show "task_lists (length (d_place D2)) (tasks (d_rt D2) ! u)" if "u < length (tasks (d_rt D2))" for u
      using that lists_okD(2) [OF O(3), of u]
      by (auto simp: rt place task_finished_def on_task_def nth_list_update' task_lists_def)
  qed
  moreover have "total joiners (tasks (d_rt D2)) = total joiners (tasks (d_rt D)) - int (length ?ns)"
    using t by (simp add: rt task_finished_def on_task_def total_update joiners_def)
  then have "total joiners (tasks (d_rt D2)) \<le> d_join_live D2" using O(4) mv(4) by (simp add: jl)
  moreover have "settled D2 n" if n: "n < length (d_place D)" "n \<noteq> k" for n
  proof (rule settled_step [OF O(7) [OF n]])
    show "set (d_ready D) \<subseteq> set (d_ready D2)" using m(5) by (simp add: ready)
    fix q
    assume q: "d_place D ! n = Parked q" "n \<notin> set (d_ready D2)" "parked_well q n (d_rt D)"
    have "n \<notin> set ?ns" using m(6) [of n] q(1,2) by (auto simp: ready R retired_def)
    then show "parked_well q n (d_rt D2)" using parked_well_finished [OF _ q(3)] O(8) [OF n(1) q(1)] by (simp add: rt)
  qed (simp add: place)
  ultimately have "passed (retire_baton k D2)"
    using O(5,6) k0 st by (intro retire_passed) (simp_all add: place R2)
  then show ?thesis by (simp add: det_finish_def Some D2_def)
qed

definition det_ok :: "'v det \<Rightarrow> bool" where
  "det_ok D \<longleftrightarrow> passed D \<or> d_status D = Exited \<or> d_status D = Hung deadlock_message \<and> all_stand D \<or>
     (\<exists>m\<in>{''select() on empty channel list'', ''task already joined''}. d_status D = Panicked m)"

lemma uncaught_ok: "passed D \<Longrightarrow> det_ok (uncaught D)"
  by (auto simp: det_ok_def passed_def uncaught_def all_stand_def)

lemma op_check_messages:
  "op_check p s = Some m \<Longrightarrow> m \<in> {''select() on empty channel list'', ''task already joined''}"
  "op_check p s = None \<Longrightarrow> p \<noteq> Select []"
  by (cases p; auto split: if_splits)+

lemma det_act_owner: "det_act n a D = Some D' \<Longrightarrow> d_status D = Live \<and> d_owner D = Some n"
  by (cases a) (auto simp: owns_turn_def split: if_splits)

lemma det_ok_act:
  assumes ok: "det_ok D" and act: "det_act n a D = Some D'"
  shows "det_ok D'"
proof -
  have live: "d_status D = Live" "d_owner D = Some n" using det_act_owner [OF act] by auto
  then obtain k where "owned k D" using ok by (auto simp: det_ok_def passed_def)
  then have own: "owned n D" using live by (simp add: owned_def)
  note O = ownedD [OF own]
  show ?thesis
  proof (cases a)
    case (Call p)
    then have v: "op_valid p (d_rt D)" using act by (simp split: if_splits)
    show ?thesis
    proof (cases "op_check p (d_rt D)")
      case None
      then have "D' = turn n p (emit n (LOp p) D)" using act Call by (simp split: if_splits)
      then show ?thesis
        using turn_passed [of n "emit n (LOp p) D" p] own live v op_check_messages(2) [OF None] by (simp add: det_ok_def)
    next
      case (Some m)
      then have "d_status D' = Panicked m" using act Call by (auto split: if_splits)
      then show ?thesis using op_check_messages(1) [OF Some] by (auto simp: det_ok_def)
    qed
  next
    case Resume
    then obtain p where p: "d_place D ! n = Parked p" "D' = turn n p (on_rt (count_wait (-1) p) D)"
      using act by (auto split: if_splits place.splits)
    then show ?thesis
      using turn_passed [OF owned_leave [OF own p(1)], of p] live O(8) [OF O(5) p(1)] by (simp add: det_ok_def)
  next
    case Spawn
    then have "D' = det_spawn n (Some (length (tasks (d_rt D)))) (on_rt (\<lambda>s. s\<lparr>tasks := tasks s @ [new_task]\<rparr>) D)"
      using act by (simp split: if_splits)
    moreover have "passed (det_spawn n (Some (length (tasks (d_rt D)))) (on_rt (\<lambda>s. s\<lparr>tasks := tasks s @ [new_task]\<rparr>) D))"
      by (rule spawn_passed [OF owned_new_task [OF own]]) (use live in auto)
    ultimately show ?thesis by (simp add: det_ok_def)
  next
    case (AsyncSpawn cap)
    then have "D' = det_spawn n None (on_rt (register (new_chan cap)) D)" using act by (simp split: if_splits)
    moreover have "passed (det_spawn n None (on_rt (register (new_chan cap)) D))"
      by (rule spawn_passed [OF owned_register [OF own]]) (use live in auto)
    ultimately show ?thesis by (simp add: det_ok_def)
  next
    case (NewChan cap)
    then have "D' = on_rt (register (new_chan cap)) D" using act by (simp split: if_splits)
    then show ?thesis using owned_register [OF own, of cap] live by (auto simp: det_ok_def passed_def)
  next
    case (Finish v)
    then have "D' = uncaught (det_finish n v D)" "n \<noteq> 0" using act by (simp_all split: if_splits)
    then show ?thesis using uncaught_ok [OF finish_passed [OF own live(1)]] by simp
  next
    case MainEnd
    then have "d_status D' = Exited" using act by (auto split: if_splits)
    then show ?thesis by (simp add: det_ok_def)
  qed
qed

lemma det_ok_start: "det_ok det_start"
proof -
  have "owned 0 det_start"
    by (simp add: owned_def det_start_def det_inv_def flagged_def handles_ok_def lists_ok_def new_runtime_def retired_def)
  moreover have "d_status (det_start :: 'a det) = Live" by (simp add: det_start_def)
  ultimately show ?thesis by (auto simp: det_ok_def passed_def)
qed

lemma det_ok_reachable: "det_reachable D \<Longrightarrow> det_ok D"
  by (induction rule: det_reachable.induct) (auto intro: det_ok_start det_ok_act)

end
