(* ===== verification/ConcProps.thy ===== *)
theory ConcProps
  imports ConcFacts
begin

text \<open>
  What the pre-emptive runtime guarantees: the deadlock verdict is right, no wake-up is lost, a run can
  only stand still in silence in one situation, which is reachable, and channels are queues.
\<close>

section \<open>The deadlock check\<close>

definition stands :: "'v conc \<Rightarrow> 'v thread \<Rightarrow> bool" where
  "stands s th \<longleftrightarrow> th = Finished \<or> (\<exists>p b. th = Waiting p b \<and> \<not> can_go p s)"

lemma recv_waits_pos: "0 < recv_waits c th \<longleftrightarrow>
    (\<exists>b. th = Waiting (Recv c) b) \<or> (\<exists>cs b. th = Waiting (Select cs) b \<and> c \<in> set cs)"
proof (cases th)
  case (Waiting p b)
  have "0 < int (count_list cs c) \<longleftrightarrow> c \<in> set cs" for cs
    using count_list_0_iff [of cs c] by auto
  then show ?thesis using Waiting by (cases p) (auto simp: recv_waits_def)
qed simp_all

lemma send_waits_pos: "0 < send_waits c th \<longleftrightarrow> (\<exists>v b. th = Waiting (Send c v) b)"
proof (cases th)
  case (Waiting p b)
  then show ?thesis by (cases p) (auto simp: send_waits_def)
qed simp_all

lemma join_waits_pos: "0 < join_waits th \<longleftrightarrow> (\<exists>t b. th = Waiting (Join t) b)"
proof (cases th)
  case (Waiting p b)
  then show ?thesis by (cases p) (auto simp: join_waits_def)
qed simp_all

lemma opportunities:
  assumes "ok_conc s ths" "c < length (chans s)"
  shows "c_waiters (chans s ! c) > 0 \<longleftrightarrow>
      (\<exists>b. Waiting (Recv c) b \<in> set ths) \<or> (\<exists>cs b. Waiting (Select cs) b \<in> set ths \<and> c \<in> set cs)"
    and "c_send_waiters (chans s ! c) > 0 \<longleftrightarrow> (\<exists>v b. Waiting (Send c v) b \<in> set ths)"
  using ok_concD(5,6) [OF assms] total_pos [of "recv_waits c" ths] total_pos [of "send_waits c" ths]
  by (auto simp: recv_waits_pos send_waits_pos)

lemma done_unjoined_pos:
  assumes "ok_conc s ths" "t < length (tasks s)" "t_done (tasks s ! t)" "\<not> t_joined (tasks s ! t)"
  shows "done_unjoined s > 0"
proof -
  have "0 < total unjoined (tasks s)"
    using assms(2-4) nth_mem [OF assms(2)] by (subst total_pos) (auto simp: unjoined_def)
  then show ?thesis using ok_concD(4) [OF assms(1)] by simp
qed

lemma verdict_right:
  assumes ok: "ok_conc s ths" and v: "deadlock_check s" and th: "th \<in> set ths"
  shows "stands s th"
proof -
  note D = ok_concD [OF ok]
  have "total is_waiting ths = total is_alive ths" using D(1,3) v by (simp add: deadlock_check_def)
  then have "is_waiting th = is_alive th" using th by (intro total_eq_all [of is_waiting is_alive ths]) simp_all
  then have "th = Finished \<or> (\<exists>p b. th = Waiting p b)" by (cases th) simp_all
  moreover have "\<not> can_go p s" if p: "th = Waiting p b" for p b
  proof
    assume go: "can_go p s"
    have okp: "op_valid p s" "waits p" using D(9) [OF th] p by simp_all
    have V: "\<not> (c_q (chans s ! c) \<noteq> [] \<and> c_waiters (chans s ! c) > 0)"
      "\<not> (c_send_waiters (chans s ! c) > 0 \<and> \<not> chan_full (chans s ! c))" if "c < length (chans s)" for c
      using v that nth_mem by (auto simp: deadlock_check_def)
    show False
    proof (cases p)
      case (Join t)
      then have "t < length (tasks s)" "t_done (tasks s ! t)" using okp go by simp_all
      have "joins t th = 1" using p Join by (simp add: joins_def)
      then have "1 \<le> total (joins t) ths" using total_member [OF _ th, of "joins t"] by simp
      then have "\<not> t_joined (tasks s ! t)" using D(7) [OF \<open>t < length (tasks s)\<close>] by (auto split: if_splits)
      then have "done_unjoined s > 0" using done_unjoined_pos [OF ok] \<open>t < length (tasks s)\<close> \<open>t_done (tasks s ! t)\<close> by blast
      moreover have "join_waiters s > 0"
        using D(2) th p Join total_pos [of join_waits ths] by (auto simp: join_waits_pos)
      ultimately show False using v by (simp add: deadlock_check_def)
    next
      case (Send c x)
      then show False using opportunities(2) [OF ok] V(2) okp go th p by fastforce
    next
      case (Recv c)
      then show False using opportunities(1) [OF ok] V(1) okp go th p by fastforce
    next
      case (Select cs)
      then show False using opportunities(1) [OF ok] V(1) okp go th p by fastforce
    qed (use okp in simp_all)
  qed
  ultimately show ?thesis by (auto simp: stands_def)
qed

lemma verdict_complete:
  assumes ok: "ok_conc s ths" and quiet: "\<forall>th\<in>set ths. th = Finished \<or> (\<exists>p. th = Waiting p False)"
    and v: "\<not> deadlock_check s"
  shows "done_unjoined s > 0 \<and> join_waiters s > 0"
proof -
  note D = ok_concD [OF ok]
  have "total is_waiting ths = total is_alive ths"
    using quiet by (induction ths) auto
  then have "blocked s = tasks_alive s + 1" using D(1,3) by simp
  moreover have "\<not> (c_q ch \<noteq> [] \<and> c_waiters ch > 0) \<and> \<not> (c_send_waiters ch > 0 \<and> \<not> chan_full ch)"
    if ch: "ch \<in> set (chans s)" for ch
  proof -
    obtain c where c: "c < length (chans s)" "ch = chans s ! c" using ch by (auto simp: in_set_conv_nth)
    have W: "b = False" "\<not> can_go p s" if "Waiting p b \<in> set ths" for p b
      using quiet D(9) that by fastforce+
    show ?thesis
      using opportunities [OF ok c(1)] W(2) [of "Recv c"] W(2) [of "Select _"] W(2) [of "Send c _"]
      unfolding c(2) by fastforce
  qed
  ultimately show ?thesis using v by (auto simp: deadlock_check_def)
qed

lemma verdict_step:
  assumes "act i a S = Some (e, S')" "status S' = Panicked deadlock_message"
  shows "deadlock_check (rt S')"
proof -
  have att: "deadlock_check (rt (snd (attempt i p T)))"
    if "status (snd (attempt i p T)) = Panicked deadlock_message" "status T = Live" for p T
    using that by (auto simp: attempt_def Let_def split: prod.splits if_splits)
  have live: "status S = Live" using act_live [OF assms(1)] by simp
  have msg: "op_check p s \<noteq> Some deadlock_message" for p :: "'a op" and s
    by (cases p) (auto simp: deadlock_message_def)
  show ?thesis
  proof (cases a)
    case (Call p)
    then show ?thesis
      using assms att [of p S] live msg [of p] by (auto simp: call_def split: if_splits option.splits)
  next
    case Resume
    then obtain p where "(e, S') = attempt i p (S\<lparr>rt := count_wait (-1) p (rt S)\<rparr>)"
      using act_Resume assms(1) by metis
    then have "S' = snd (attempt i p (S\<lparr>rt := count_wait (-1) p (rt S)\<rparr>))" by (metis snd_conv)
    then show ?thesis using att [of p "S\<lparr>rt := count_wait (-1) p (rt S)\<rparr>"] assms(2) live by simp
  qed (use assms live in \<open>auto simp: add_thread_def finish_thread_def split: if_splits\<close>)
qed

text \<open>C4. The deadlock verdict is right. Whatever the tasks of a program do and however they are
  scheduled, when an operation raises the deadlock error every thread has ended or is in a wait loop
  whose condition is false, so that no schedule can take any of them further.\<close>

theorem deadlock_verdict_right:
  assumes "reachable S" "act i a S = Some (e, S')" "status S' = Panicked deadlock_message"
  shows "\<forall>th\<in>set (threads S'). stands (rt S') th"
proof -
  have "ok_sys S'" using ok_act [OF ok_reachable [OF assms(1)] assms(2)] .
  then show ?thesis
    using verdict_right [OF _ verdict_step [OF assms(2,3)]] by (auto simp: ok_sys_def)
qed


text \<open>A run: one task ends without being joined, a second one waits on a channel nobody sends to,
  and \<open>main\<close> joins it; and a run in which that second task is the only one.\<close>

definition lost_join :: "(nat \<times> nat action) list" where
  "lost_join = [(0, Spawn), (1, Finish 7), (0, NewChan 0), (0, Spawn), (2, Call (Recv 0)), (0, Call (Join 1))]"

definition lone_join :: "(nat \<times> nat action) list" where
  "lone_join = [(0, NewChan 0), (0, Spawn), (1, Call (Recv 0))]"

definition lone_state :: "nat sys" where
  "lone_state = snd (played lone_join)"

definition verdict_state :: "nat sys" where
  "verdict_state = snd (the (act 0 (Call (Join 0)) lone_state))"

lemma deadlock_verdict_right_witness:
  "list_all (stands (rt verdict_state)) (threads verdict_state) \<and> threads verdict_state \<noteq> []"
proof
  have "reachable lone_state" unfolding lone_state_def by (rule played_reachable) code_simp
  moreover have "act 0 (Call (Join 0)) lone_state \<noteq> None" by code_simp
  then have "act 0 (Call (Join 0)) lone_state = Some (fst (the (act 0 (Call (Join 0)) lone_state)), verdict_state)"
    by (auto simp: verdict_state_def)
  moreover have "status verdict_state = Panicked deadlock_message" by code_simp
  ultimately show "list_all (stands (rt verdict_state)) (threads verdict_state)"
    unfolding list_all_iff by (rule deadlock_verdict_right)
  show "threads verdict_state \<noteq> []" by code_simp
qed

section \<open>No silent standstill\<close>

definition quiet :: "'v sys \<Rightarrow> bool" where
  "quiet S \<longleftrightarrow> (\<forall>th\<in>set (threads S). th = Finished \<or> (\<exists>p. th = Waiting p False))"

lemma quiet_notify: "quiet (notify_all S) \<Longrightarrow> \<forall>th\<in>set (threads S). th = Finished"
  unfolding quiet_def sys_fields
proof
  fix th
  assume "\<forall>th\<in>set (map notified (threads S)). th = Finished \<or> (\<exists>p. th = Waiting p False)" "th \<in> set (threads S)"
  then have "notified th = Finished \<or> (\<exists>p. notified th = Waiting p False)" by simp
  then show "th = Finished" by (cases th) simp_all
qed

lemma quiet_attempt:
  assumes "quiet (snd (attempt i p S))" "i < length (threads S)" "status (snd (attempt i p S)) = Live"
  shows "\<not> deadlock_check (rt (snd (attempt i p S)))"
proof (cases "can_go p (rt S)")
  case True
  have "Running \<in> set (if notifies p (rt S) then map notified ((threads S)[i := Running]) else (threads S)[i := Running])"
    using assms(2) set_update_memI [of i "threads S" Running] by (auto intro: rev_image_eqI)
  then have "Running \<in> set (threads (snd (attempt i p S)))" using True by (simp add: attempt_threads)
  then show ?thesis using assms(1) by (auto simp: quiet_def)
next
  case False
  then show ?thesis using assms(3) by (auto simp: attempt_def Let_def split: if_splits)
qed

lemma quiet_act:
  assumes "ok_sys S" "act i a S = Some (e, S')" "quiet S'" "status S' = Live"
  shows "\<not> deadlock_check (rt S')"
proof -
  have run: "False" if "runs i S" "threads S' = threads S"
    using that assms(3) nth_mem by (fastforce simp: quiet_def runs_def)
  show ?thesis
  proof (cases a)
    case (Call p)
    then have "S' = snd (call i p S)" "i < length (threads S)" using assms(2) by (auto simp: runs_def split: if_splits)
    then show ?thesis using quiet_attempt [of i p S] assms(3,4) by (auto simp: call_def split: option.splits)
  next
    case Resume
    then obtain p where "(e, S') = attempt i p (S\<lparr>rt := count_wait (-1) p (rt S)\<rparr>)" "i < length (threads S)"
      using act_Resume assms(2) by metis
    then have "S' = snd (attempt i p (S\<lparr>rt := count_wait (-1) p (rt S)\<rparr>))" "i < length (threads S)" by (metis snd_conv)+
    then show ?thesis
      using quiet_attempt [of i p "S\<lparr>rt := count_wait (-1) p (rt S)\<rparr>"] assms(3,4) by simp
  next
    case Spawn
    then show ?thesis using assms(2,3) by (auto simp: quiet_def add_thread_def split: if_splits)
  next
    case (AsyncSpawn cap)
    then show ?thesis using assms(2,3) by (auto simp: quiet_def add_thread_def split: if_splits)
  next
    case (NewChan cap)
    then show ?thesis using assms(2) run by (auto split: if_splits)
  next
    case (Finish v)
    then have S': "S' = finish_thread i v S" "i \<noteq> 0" using assms(2) by (auto split: if_splits)
    have "0 < length (threads S)" "threads S ! 0 \<noteq> Finished"
      using assms(1) by (auto simp: ok_sys_def ok_handles_def)
    then have "(threads S)[i := Finished] ! 0 \<noteq> Finished" "0 < length ((threads S)[i := Finished])" using S'(2) by simp_all
    moreover have "\<forall>th\<in>set ((threads S)[i := Finished]). th = Finished"
      using quiet_notify assms(3) unfolding S'(1) finish_thread_def by fastforce
    ultimately show ?thesis using nth_mem by blast
  next
    case MainEnd
    then show ?thesis using assms(2,4) by (auto split: if_splits)
  qed
qed

lemma quiet_reachable:
  assumes "reachable S" "quiet S" "status S = Live"
  shows "\<not> deadlock_check (rt S)"
proof -
  obtain es where "runs_to es S" using assms(1) by (auto simp: reachable_def)
  then show ?thesis
  proof cases
    case begin_run
    then show ?thesis using assms(2) by (simp add: quiet_def start_def)
  next
    case (step_run es' T i a e)
    then have "ok_sys T" using ok_reachable by (auto simp: reachable_def)
    then show ?thesis using quiet_act step_run assms(2,3) by blast
  qed
qed

text \<open>C10. No wake-up is lost, and a run stands still in silence in one situation only. A waiting thread
  that has not been notified could not go on; and in a live state in which no thread can take a step
  some task has ended without being joined while another thread waits in a join. In every other live
  state some thread can take a step.\<close>

theorem no_silent_standstill:
  assumes "reachable S" "status S = Live"
  shows "(\<forall>p. Waiting p False \<in> set (threads S) \<longrightarrow> \<not> can_go p (rt S)) \<and>
    ((\<exists>i a. act i a S \<noteq> None) \<or> done_unjoined (rt S) > 0 \<and> join_waiters (rt S) > 0)"
proof
  have ok: "ok_conc (rt S) (threads S)" using ok_reachable [OF assms(1)] by (simp add: ok_sys_def)
  show "\<forall>p. Waiting p False \<in> set (threads S) \<longrightarrow> \<not> can_go p (rt S)"
    using ok_concD(9) [OF ok] by fastforce
  show "(\<exists>i a. act i a S \<noteq> None) \<or> done_unjoined (rt S) > 0 \<and> join_waiters (rt S) > 0"
  proof (cases "quiet S")
    case True
    then show ?thesis using verdict_complete [OF ok] quiet_reachable [OF assms(1) True assms(2)] by (simp add: quiet_def)
  next
    case False
    then obtain i where i: "i < length (threads S)" "threads S ! i \<noteq> Finished" "\<forall>p. threads S ! i \<noteq> Waiting p False"
      by (auto simp: quiet_def in_set_conv_nth)
    show ?thesis
    proof (cases "threads S ! i")
      case Running
      then have "act i (NewChan 0) S \<noteq> None" using i assms(2) by (simp add: runs_def)
      then show ?thesis by blast
    next
      case (Waiting p b)
      then have "act i Resume S \<noteq> None" using i assms(2) by (cases b) simp_all
      then show ?thesis by blast
    qed (use i in simp)
  qed
qed

lemma no_silent_standstill_witness:
  "Waiting (Recv 0) False \<in> set (threads lone_state) \<and> \<not> can_go (Recv 0) (rt lone_state)"
proof
  have "reachable lone_state" unfolding lone_state_def by (rule played_reachable) code_simp
  moreover have "status lone_state = Live" by code_simp
  moreover show w: "Waiting (Recv 0) False \<in> set (threads lone_state)" by code_simp
  ultimately show "\<not> can_go (Recv 0) (rt lone_state)" using no_silent_standstill by blast
qed

section \<open>Channels are queues\<close>

definition sent_by :: "nat \<Rightarrow> 'v event \<Rightarrow> 'v list" where
  "sent_by c ev =
     (case ev of
        (Send d v, _) \<Rightarrow> (if c = d then [v] else [])
      | (TrySend d v, RBool True) \<Rightarrow> (if c = d then [v] else [])
      | _ \<Rightarrow> [])"

definition received_by :: "nat \<Rightarrow> 'v event \<Rightarrow> 'v list" where
  "received_by c ev =
     (case ev of
        (Recv d, RVal v) \<Rightarrow> (if c = d then [v] else [])
      | (RecvOr d w, RVal v) \<Rightarrow> (if c = d then [v] else [])
      | _ \<Rightarrow> [])"

definition sent :: "nat \<Rightarrow> 'v event list \<Rightarrow> 'v list" where
  "sent c es = concat (map (sent_by c) es)"

definition received :: "nat \<Rightarrow> 'v event list \<Rightarrow> 'v list" where
  "received c es = concat (map (received_by c) es)"

lemmas traffic = sent_by_def received_by_def

definition pending :: "'v chan \<Rightarrow> int" where
  "pending ch = int (length (c_q ch))"

definition within :: "'v chan \<Rightarrow> bool" where
  "within ch \<longleftrightarrow> (c_cap ch > 0 \<longrightarrow> int (length (c_q ch)) \<le> c_cap ch)"

definition queues :: "'v event list \<Rightarrow> 'v conc \<Rightarrow> bool" where
  "queues es s \<longleftrightarrow>
     (\<forall>c<length (chans s). sent c es = received c es @ c_q (chans s ! c)) \<and>
     (\<forall>c\<ge>length (chans s). sent c es = [] \<and> received c es = []) \<and>
     msgs s = total pending (chans s) \<and> (\<forall>ch\<in>set (chans s). within ch)"

lemma queues_chans:
  assumes "queues es s" "msgs s' = msgs s" "length (chans s') = length (chans s)"
    "\<And>c. c < length (chans s) \<Longrightarrow> c_q (chans s' ! c) = c_q (chans s ! c) \<and> c_cap (chans s' ! c) = c_cap (chans s ! c)"
  shows "queues es s'"
proof -
  have "map pending (chans s') = map pending (chans s)"
    using assms(3,4) by (intro nth_equalityI) (simp_all add: pending_def)
  moreover have "within (chans s' ! c)" if "c < length (chans s)" for c
    using assms(1,4) that nth_mem [OF that] by (simp add: queues_def within_def)
  then have "\<forall>ch\<in>set (chans s'). within ch" using assms(3) by (metis in_set_conv_nth)
  ultimately show ?thesis using assms by (simp add: queues_def total_def)
qed

lemma queues_put:
  assumes q: "queues es s" and c: "c < length (chans s)" "\<not> chan_full (chans s ! c)"
    and e: "\<And>d. sent_by d ev = (if d = c then [v] else [])" "\<And>d. received_by d ev = []"
  shows "queues (es @ [ev]) (put_msg c v s)"
  unfolding queues_def
proof (intro conjI allI impI ballI)
  let ?s = "put_msg c v s"
  have f: "chans ?s = (chans s)[c := (chans s ! c)\<lparr>c_q := c_q (chans s ! c) @ [v]\<rparr>]" "msgs ?s = msgs s + 1"
    by (simp_all add: put_msg_def on_chan_def)
  show "sent d (es @ [ev]) = received d (es @ [ev]) @ c_q (chans ?s ! d)" if "d < length (chans ?s)" for d
    using q that c(1) by (auto simp: f queues_def sent_def received_def e nth_list_update)
  show "sent d (es @ [ev]) = []" "received d (es @ [ev]) = []" if "length (chans ?s) \<le> d" for d
    using q that c(1) by (auto simp: f queues_def sent_def received_def e)
  show "msgs ?s = total pending (chans ?s)"
    using q c(1) by (simp add: f queues_def total_update pending_def)
  have "within ((chans s ! c)\<lparr>c_q := c_q (chans s ! c) @ [v]\<rparr>)" using c(2) by (auto simp: within_def chan_full_def)
  then show "within ch" if "ch \<in> set (chans ?s)" for ch
    using q that subsetD [OF set_update_subset_insert, of ch "chans s" c] by (auto simp: f queues_def)
qed

lemma queues_take:
  assumes q: "queues es s" and c: "c < length (chans s)" "c_q (chans s ! c) \<noteq> []"
    and e: "\<And>d. received_by d ev = (if d = c then [hd (c_q (chans s ! c))] else [])" "\<And>d. sent_by d ev = []"
  shows "queues (es @ [ev]) (take_msg c s)"
  unfolding queues_def
proof (intro conjI allI impI ballI)
  let ?s = "take_msg c s"
  have f: "chans ?s = (chans s)[c := (chans s ! c)\<lparr>c_q := tl (c_q (chans s ! c))\<rparr>]" "msgs ?s = msgs s - 1"
    by (simp_all add: take_msg_def on_chan_def)
  show "sent d (es @ [ev]) = received d (es @ [ev]) @ c_q (chans ?s ! d)" if "d < length (chans ?s)" for d
    using q that c by (auto simp: f queues_def sent_def received_def e nth_list_update)
  show "sent d (es @ [ev]) = []" "received d (es @ [ev]) = []" if "length (chans ?s) \<le> d" for d
    using q that c(1) by (auto simp: f queues_def sent_def received_def e)
  have "int (length (tl (c_q (chans s ! c)))) = int (length (c_q (chans s ! c))) - 1"
    using c(2) by (cases "c_q (chans s ! c)") simp_all
  then show "msgs ?s = total pending (chans ?s)"
    using q c(1) by (simp add: f queues_def total_update pending_def)
  have "within (chans s ! c)" using q c(1) by (simp add: queues_def)
  then have "within ((chans s ! c)\<lparr>c_q := tl (c_q (chans s ! c))\<rparr>)" by (auto simp: within_def)
  then show "within ch" if "ch \<in> set (chans ?s)" for ch
    using q that subsetD [OF set_update_subset_insert, of ch "chans s" c] by (auto simp: f queues_def)
qed

lemma queues_silent:
  "queues es s \<Longrightarrow> (\<And>c. sent_by c ev = [] \<and> received_by c ev = []) \<Longrightarrow> queues (es @ [ev]) s"
  by (simp add: queues_def sent_def received_def)

lemma queues_complete:
  assumes "queues es s" "op_valid p s" "can_go p s"
  shows "queues (es @ [(p, fst (complete p s))]) (snd (complete p s))"
proof (cases p)
  case (Send c v)
  then show ?thesis using assms queues_put [of es s c "(p, fst (complete p s))" v] by (auto simp: traffic)
next
  case (TrySend c v)
  then show ?thesis
    using assms queues_put [of es s c "(p, fst (complete p s))" v] queues_silent [OF assms(1), of "(p, RBool False)"]
    by (auto simp: traffic)
next
  case (Recv c)
  then show ?thesis using assms queues_take [of es s c "(p, fst (complete p s))"] by (auto simp: traffic)
next
  case (RecvOr c v)
  then show ?thesis
    using assms queues_take [of es s c "(p, fst (complete p s))"] queues_silent [OF assms(1), of "(p, RDefault v)"]
    by (auto simp: traffic)
next
  case (Select cs)
  then show ?thesis using queues_silent [OF assms(1), of "(p, fst (complete p s))"] by (auto simp: traffic)
next
  case (Join t)
  have "queues es (snd (complete p s))"
    by (rule queues_chans [OF assms(1)]) (simp_all add: Join on_task_def)
  then show ?thesis using queues_silent [of es _ "(p, fst (complete p s))"] Join by (auto simp: traffic)
qed

lemma queues_attempt:
  assumes "queues es (rt S)" "op_valid p (rt S)" "(e, S') = attempt i p S"
  shows "queues (es @ (case e of None \<Rightarrow> [] | Some x \<Rightarrow> [x])) (rt S')"
proof (cases "can_go p (rt S)")
  case True
  then have "e = Some (p, fst (complete p (rt S)))" "rt S' = snd (complete p (rt S))"
    using assms(3) by (auto simp: attempt_def Let_def split: prod.splits if_splits)
  then show ?thesis using queues_complete [OF assms(1,2) True] by simp
next
  case False
  then have "e = None" "rt S' = count_wait 1 p (rt S)"
    using assms(3) by (auto simp: attempt_def Let_def split: if_splits)
  moreover have "queues es (count_wait 1 p (rt S))"
    by (rule queues_chans [OF assms(1)]) (simp_all add: count_wait_nth assms(2))
  ultimately show ?thesis by simp
qed

lemma queues_register:
  assumes "queues es s"
  shows "queues es (register (new_chan cap) s)"
proof -
  have "c_q (chans (register (new_chan cap) s) ! c) = (if c < length (chans s) then c_q (chans s ! c) else [])"
    if "c < Suc (length (chans s))" for c
    using that by (auto simp: register_def nth_append new_chan_def less_Suc_eq)
  then show ?thesis
    using assms by (auto simp: queues_def register_def new_chan_def pending_def within_def)
qed

lemma queues_act:
  assumes "ok_sys S" "queues es (rt S)" "act i a S = Some (e, S')"
  shows "queues (es @ (case e of None \<Rightarrow> [] | Some x \<Rightarrow> [x])) (rt S')"
proof (cases a)
  case (Call p)
  then have "op_valid p (rt S)" "(e, S') = call i p S" using assms(3) by (auto split: if_splits)
  then show ?thesis
    using queues_attempt [OF assms(2)] assms(2) by (cases "op_check p (rt S)") (auto simp: call_def)
next
  case Resume
  then obtain p where p: "i < length (threads S)" "threads S ! i = Waiting p True"
    "(e, S') = attempt i p (S\<lparr>rt := count_wait (-1) p (rt S)\<rparr>)"
    using act_Resume assms(3) by metis
  then have v: "op_valid p (rt S)"
    using ok_concD(9) [of "rt S" "threads S" "Waiting p True"] assms(1) nth_mem [OF p(1)] by (simp add: ok_sys_def)
  have "queues es (count_wait (-1) p (rt S))"
    by (rule queues_chans [OF assms(2)]) (simp_all add: count_wait_nth v)
  then show ?thesis using queues_attempt [OF _ _ p(3)] v by simp
next
  case Spawn
  then show ?thesis
    using assms(3) queues_chans [OF assms(2), of "rt S'"] by (auto simp: add_thread_def split: if_splits)
next
  case (AsyncSpawn cap)
  then show ?thesis
    using assms(3) queues_chans [OF queues_register [OF assms(2), of cap], of "rt S'"]
    by (auto simp: add_thread_def split: if_splits)
next
  case (NewChan cap)
  then show ?thesis using assms(3) queues_register [OF assms(2), of cap] by (auto split: if_splits)
next
  case (Finish v)
  then show ?thesis
    using assms(3) queues_chans [OF assms(2), of "rt S'"]
    by (auto simp: finish_thread_def task_finished_def on_task_def split: if_splits option.splits)
next
  case MainEnd
  then show ?thesis using assms(2,3) by (auto split: if_splits)
qed

text \<open>C12. Channels are queues. In every run, what has been sent to a channel is what has been
  received from it followed by what is pending in it, in the same order; a bounded channel never
  holds more than its capacity; and the message counter is the number of pending messages.\<close>

theorem channels_are_queues:
  assumes "runs_to es S" "c < length (chans (rt S))"
  shows "sent c es = received c es @ c_q (chans (rt S) ! c)
    \<and> (c_cap (chans (rt S) ! c) > 0 \<longrightarrow> int (length (c_q (chans (rt S) ! c))) \<le> c_cap (chans (rt S) ! c))
    \<and> msgs (rt S) = (\<Sum>ch\<leftarrow>chans (rt S). int (length (c_q ch)))"
proof -
  have "queues es (rt S)"
    using assms(1)
  proof induction
    case begin_run
    show ?case by (simp add: queues_def start_def new_runtime_def sent_def received_def)
  next
    case (step_run es S i a e S')
    then have "ok_sys S" using ok_reachable by (auto simp: reachable_def)
    then show ?case using queues_act step_run by blast
  qed
  then show ?thesis
    using assms(2) nth_mem [OF assms(2)] by (simp add: queues_def within_def total_def pending_def [abs_def])
qed

definition relay :: "(nat \<times> nat action) list" where
  "relay = [(0, NewChan 1), (0, Spawn), (1, Call (Send 0 3)), (1, Call (Send 0 4)), (0, Call (Recv 0))]"

lemma channels_are_queues_witness:
  "sent 0 (fst (played relay)) = received 0 (fst (played relay)) @ c_q (chans (rt (snd (played relay))) ! 0)
   \<and> received 0 (fst (played relay)) = [3]"
proof
  have "runs_to (fst (played relay)) (snd (played relay))" by (rule played_runs) code_simp
  moreover have "0 < length (chans (rt (snd (played relay))))" by code_simp
  ultimately show "sent 0 (fst (played relay)) =
      received 0 (fst (played relay)) @ c_q (chans (rt (snd (played relay))) ! 0)"
    using channels_are_queues by blast
  show "received 0 (fst (played relay)) = [3]" by code_simp
qed

section \<open>The standstill\<close>

definition stuck_state :: "nat sys" where
  "stuck_state = snd (played lost_join)"

end
