(* ===== verification/DetProps.thy ===== *)
theory DetProps
  imports DetFacts ConcProps
begin

text \<open>
  What the deterministic scheduler guarantees, and what goes wrong in it and in the pre-emptive runtime.
\<close>

section \<open>One holder, right verdicts\<close>

text \<open>C3. The deterministic scheduler never stands still. In a live state one task holds the baton, it
  can go on, and no other task can; the errors of a missed wake are never raised, and when the deadlock
  error is raised every task has ended or is parked with a condition that is false.\<close>

theorem det_scheduler_right:
  assumes "det_reachable D"
  shows "(d_status D = Live \<longrightarrow> (\<exists>n. d_owner D = Some n \<and> (\<exists>a. det_act n a D \<noteq> None))
      \<and> (\<forall>m a. det_act m a D \<noteq> None \<longrightarrow> d_owner D = Some m))
    \<and> d_status D \<notin> {Panicked missed_message, Panicked missed_capacity, Hung missed_message, Hung missed_capacity}
    \<and> (d_status D \<in> {Panicked deadlock_message, Hung deadlock_message} \<longrightarrow> all_stand D)"
proof (intro conjI impI)
  have ok: "det_ok D" by (rule det_ok_reachable [OF assms])
  have ne: "deadlock_message \<noteq> missed_message" "deadlock_message \<noteq> missed_capacity"
    "deadlock_message \<noteq> ''select() on empty channel list''" "deadlock_message \<noteq> ''task already joined''"
    "missed_message \<notin> {''select() on empty channel list'', ''task already joined''}"
    "missed_capacity \<notin> {''select() on empty channel list'', ''task already joined''}"
    by (simp_all add: deadlock_message_def missed_message_def missed_capacity_def)
  show "d_status D \<notin> {Panicked missed_message, Panicked missed_capacity, Hung missed_message, Hung missed_capacity}"
    using ok ne by (auto simp: det_ok_def passed_def)
  show "all_stand D" if "d_status D \<in> {Panicked deadlock_message, Hung deadlock_message}"
    using ok ne that by (auto simp: det_ok_def passed_def)
  show "\<forall>m a. det_act m a D \<noteq> None \<longrightarrow> d_owner D = Some m" using det_act_owner by blast
  show "\<exists>n. d_owner D = Some n \<and> (\<exists>a. det_act n a D \<noteq> None)" if live: "d_status D = Live"
  proof -
    obtain n where n: "d_owner D = Some n" "\<not> retired D n" using ok live by (auto simp: det_ok_def passed_def owned_def)
    have "\<exists>a. det_act n a D \<noteq> None"
    proof (cases "d_place D ! n")
      case InCode
      then have "det_act n (NewChan 0) D \<noteq> None" using n live by (simp add: owns_turn_def)
      then show ?thesis by blast
    next
      case (Parked p)
      then have "det_act n Resume D \<noteq> None" using n live by simp
      then show ?thesis by blast
    qed (use n in \<open>simp add: retired_def\<close>)
    then show ?thesis using n by blast
  qed
qed

lemma det_scheduler_right_witness: "all_stand (det_played lost_join :: nat det)"
proof -
  have "det_reachable (det_played lost_join :: nat det)" by (rule det_played_reachable) code_simp
  moreover have "d_status (det_played lost_join) = Panicked deadlock_message" by code_simp
  ultimately show ?thesis using det_scheduler_right by blast
qed

section \<open>Every ready task gets its turn\<close>

definition scheduling :: "'v action \<Rightarrow> bool" where
  "scheduling a \<longleftrightarrow> (\<forall>cap. a \<noteq> NewChan cap) \<and> a \<noteq> MainEnd"

text \<open>A step at a scheduling point is a passing of the baton, before which nodes were only added to the
  end of the queue.\<close>

definition passes :: "nat \<Rightarrow> 'v det \<Rightarrow> 'v det \<Rightarrow> bool" where
  "passes n D D' \<longleftrightarrow> (\<exists>E ms. D' = pass E \<and> d_ready E = d_ready D @ ms \<and>
     (\<forall>j<length (d_place D). j \<noteq> n \<longrightarrow> d_place E ! j = d_place D ! j))"

lemma pass_place [simp]: "d_place (pass D) = d_place D"
  by (simp add: pass_def Let_def split: list.split option.split)

lemma turn_passes:
  assumes own: "owned n D" and p: "op_valid p (d_rt D)" "p \<noteq> Select []"
  shows "passes n D (turn n p D)"
proof (cases "can_go p (d_rt D)")
  case True
  note O = ownedD [OF own]
  let ?D1 = "set_place n InCode (on_rt (\<lambda>s. snd (complete p s)) D)"
  let ?D2 = "wake_after p (d_rt D) ?D1"
  have f1: "flagged ?D1" by (rule flagged_place [OF O(1), of _ n InCode]) (simp_all add: O(6))
  have mv: "moved ?D1 (woken p (d_rt D)) ?D2" using wake_after_moved(1) [OF f1 _ p(1) True] O(3) by simp
  then obtain ms where ms: "d_ready ?D2 = d_ready D @ ms" by (auto simp: moved_def)
  have "turn n p D = pass (enqueue n ?D2)"
    using go_released [OF own p(1) True refl] True by (simp add: turn_def yield_live)
  moreover have "d_place (enqueue n ?D2) = (d_place D)[n := InCode]" using mv by (simp add: moved_def)
  ultimately show ?thesis using ms unfolding passes_def
    by (intro exI [of _ "enqueue n ?D2"] exI [of _ "ms @ [n]"]) simp
next
  case False
  then show ?thesis unfolding passes_def turn_def
    by (intro exI [of _ "park n p (set_place n (Parked p) (on_rt (count_wait 1 p) D))"] exI [of _ "[]"]) simp
qed

lemma spawn_passes:
  assumes "owned n D"
  shows "passes n D (det_spawn n h D)"
proof -
  note O = ownedD [OF assms]
  let ?D = "(on_rt (\<lambda>s. s\<lparr>tasks_alive := tasks_alive s + 1\<rparr>) (spawn_op n D))\<lparr>d_handles := d_handles D @ [h]\<rparr>"
  have f: "d_place ?D = d_place D @ [InCode]" "d_ready ?D = d_ready D @ [length (d_place D)]"
    by (simp_all add: spawn_op_def emit_def on_rt_def)
  have "\<not> retired ?D n" using O(5,6) by (simp add: retired_def f nth_append)
  then have "det_spawn n h D = pass (enqueue n ?D)" by (simp add: det_spawn_def yield_live)
  then show ?thesis unfolding passes_def
    by (intro exI [of _ "enqueue n ?D"] exI [of _ "[length (d_place D), n]"]) (simp add: f nth_append)
qed

lemma finish_passes:
  assumes own: "owned n D"
  shows "passes n D (det_finish n v D)"
proof (cases "d_handles D ! n")
  case None
  note O = ownedD [OF own]
  let ?D = "set_place n Retired (on_rt (\<lambda>s. s\<lparr>tasks_alive := tasks_alive s - 1\<rparr>) D)"
  have "det_finish n v D = pass ?D" using O(6) by (simp add: det_finish_def None retire_baton_def retired_def)
  then show ?thesis unfolding passes_def by (intro exI [of _ ?D] exI [of _ "[]"]) simp
next
  case (Some t)
  note O = ownedD [OF own]
  let ?D = "on_rt (task_finished t v) (emit n LFinish D)"
  let ?ns = "t_det_join (tasks (d_rt D) ! t)"
  have t: "t < length (tasks (d_rt D))" using O(2,5) Some by (auto simp: handles_ok_def)
  have ns: "\<forall>n\<in>set ?ns. n < length (d_place ?D)" using lists_okD(2) [OF O(3) t] by (simp add: task_lists_def)
  have f1: "flagged ?D" using O(1) by (simp add: flagged_def retired_def)
  obtain w D1 where w: "wake ?ns ?D = (w, D1)" by fastforce
  have mv: "moved ?D ?ns D1" using wake_moved(1) [OF f1 ns] w by simp
  have join: "t_det_join (tasks (d_rt ?D) ! t) = ?ns" using t by (simp add: task_finished_def on_task_def)
  let ?E = "set_place n Retired (wake_joiners t ?D)"
  have e: "d_place (wake_joiners t ?D) = d_place D" "d_ready (wake_joiners t ?D) = d_ready D1"
    using mv unfolding wake_joiners_def join w by (simp_all add: moved_def)
  have "det_finish n v D = pass ?E" using O(6) e(1) by (simp add: det_finish_def Some retire_baton_def retired_def)
  moreover obtain ms where "d_ready D1 = d_ready D @ ms" using mv by (auto simp: moved_def)
  ultimately show ?thesis unfolding passes_def by (intro exI [of _ ?E] exI [of _ ms]) (simp add: e)
qed

lemma act_passes:
  assumes reach: "det_reachable D" and act: "det_act n a D = Some D'" and a: "scheduling a" and live: "d_status D' = Live"
  shows "passes n D D'"
proof -
  have l: "d_status D = Live" "d_owner D = Some n" using det_act_owner [OF act] by auto
  then obtain k where "owned k D" using det_ok_reachable [OF reach] by (auto simp: det_ok_def passed_def)
  then have own: "owned n D" using l by (simp add: owned_def)
  note O = ownedD [OF own]
  have cong: "passes n E D' \<Longrightarrow> d_ready E = d_ready D \<Longrightarrow> d_place E = d_place D \<Longrightarrow> passes n D D'" for E
    by (simp add: passes_def)
  show ?thesis
  proof (cases a)
    case (Call p)
    then have v: "op_valid p (d_rt D)" "op_check p (d_rt D) = None" "D' = turn n p (emit n (LOp p) D)"
      using act live by (auto split: if_splits option.splits)
    then show ?thesis
      using cong [OF turn_passes [of n "emit n (LOp p) D" p, folded v(3)]] own op_check_messages(2) [OF v(2)] by simp
  next
    case Resume
    then obtain p where p: "d_place D ! n = Parked p" "D' = turn n p (on_rt (count_wait (-1) p) D)"
      using act by (auto split: if_splits place.splits)
    then show ?thesis
      using cong [OF turn_passes [OF owned_leave [OF own p(1)], of p, folded p(2)]] O(8) [OF O(5) p(1)] by simp
  next
    case Spawn
    then have d: "D' = det_spawn n (Some (length (tasks (d_rt D)))) (on_rt (\<lambda>s. s\<lparr>tasks := tasks s @ [new_task]\<rparr>) D)"
      using act by (simp split: if_splits)
    show ?thesis by (rule cong [OF spawn_passes [OF owned_new_task [OF own], of "Some (length (tasks (d_rt D)))", folded d]]) simp_all
  next
    case (AsyncSpawn cap)
    then have d: "D' = det_spawn n None (on_rt (register (new_chan cap)) D)" using act by (simp split: if_splits)
    show ?thesis by (rule cong [OF spawn_passes [OF owned_register [OF own], of cap None, folded d]]) simp_all
  next
    case (Finish v)
    then have d: "D' = uncaught (det_finish n v D)" using act by (simp split: if_splits)
    then have "d_status (det_finish n v D) = Live" using live by (auto simp: uncaught_def split: status.splits)
    then have "D' = det_finish n v D" by (simp add: d uncaught_def)
    then show ?thesis using finish_passes [OF own] by simp
  qed (use a in \<open>simp_all add: scheduling_def\<close>)
qed

lemma passes_rank:
  assumes ps: "passes n D D'" and i: "i < length (d_ready D)" "d_ready D ! i = j" and j: "j < length (d_place D)"
    "\<not> retired D j" "j \<noteq> n"
  shows "\<not> retired D' j \<and> (d_owner D' = Some j \<or> (\<exists>i'<i. i' < length (d_ready D') \<and> d_ready D' ! i' = j))"
proof -
  obtain E ms where E: "D' = pass E" "d_ready E = d_ready D @ ms" "d_place E ! j = d_place D ! j"
    using ps j by (auto simp: passes_def)
  have R: "\<not> retired E j" "\<not> retired D' j" using E j(2) by (simp_all add: retired_def)
  have in_r: "i < length (d_ready E)" "d_ready E ! i = j" using i by (simp_all add: E(2) nth_append)
  have "dropWhile (retired E) (d_ready E) \<noteq> []"
    using R(1) in_r nth_mem [OF in_r(1)] by (auto simp: dropWhile_eq_Nil_conv)
  then obtain k ns where kn: "dropWhile (retired E) (d_ready E) = k # ns" by (cases "dropWhile (retired E) (d_ready E)") auto
  then obtain zs where zs: "d_ready E = zs @ k # ns" "\<forall>z\<in>set zs. retired E z"
    using dropWhile_split [OF kn] by blast
  have p: "d_owner D' = Some k" "d_ready D' = ns" by (simp_all add: E(1) pass_def kn)
  have "length zs \<le> i"
  proof (rule ccontr)
    assume "\<not> length zs \<le> i"
    then have "j \<in> set zs" using in_r(2) zs(1) by (auto simp: nth_append)
    then show False using zs(2) R(1) by blast
  qed
  then have "d_owner D' = Some j \<or> (\<exists>i'<i. i' < length (d_ready D') \<and> d_ready D' ! i' = j)"
    using in_r zs(1) p by (cases "i = length zs") (auto simp: nth_append nth_Cons' intro!: exI [of _ "i - length zs - 1"])
  then show ?thesis using R(2) by blast
qed

lemma det_play_live: "det_play as D = Some D' \<Longrightarrow> d_status D' = Live \<Longrightarrow> d_status D = Live"
  by (induction as arbitrary: D) (auto split: option.splits dest: det_act_owner)

lemma place_grows: "passes n D D' \<Longrightarrow> det_reachable D' \<Longrightarrow> d_status D' = Live \<Longrightarrow> i < length (d_ready D') \<Longrightarrow>
    d_ready D' ! i < length (d_place D')"
  using det_ok_reachable [of D'] nth_mem [of i "d_ready D'"]
  by (auto simp: det_ok_def passed_def owned_def det_inv_def flagged_def)

text \<open>C11. No task starves. A task that is in the ready queue at position \<open>i\<close> gets the baton after at most
  \<open>i + 1\<close> scheduling points of the others, whatever they do, as long as the program lives.\<close>

theorem no_starvation:
  assumes "det_reachable D" "i < length (d_ready D)" "\<not> retired D (d_ready D ! i)" "d_owner D \<noteq> Some (d_ready D ! i)"
    and "det_play as D = Some D'" "i < length as" "\<forall>(n, a)\<in>set as. scheduling a" "d_status D' = Live"
  shows "\<exists>bs cs E. as = bs @ cs \<and> length bs \<le> i + 1 \<and> det_play bs D = Some E \<and> d_owner E = Some (d_ready D ! i)"
  using assms
proof (induction as arbitrary: D i)
  case (Cons x as)
  obtain n a where x: "x = (n, a)" by (cases x)
  let ?j = "d_ready D ! i"
  obtain E where E: "det_act n a D = Some E" "det_play as E = Some D'" using Cons.prems(5) x by (auto split: option.splits)
  have live: "d_status E = Live" using det_play_live [OF E(2)] Cons.prems(8) .
  have reach: "det_reachable E" by (rule det_next [OF Cons.prems(1) E(1)])
  have ps: "passes n D E" using act_passes [OF Cons.prems(1) E(1) _ live] Cons.prems(7) x by simp
  have n: "?j \<noteq> n" using det_act_owner [OF E(1)] Cons.prems(4) by auto
  have j: "?j < length (d_place D)"
    using det_ok_reachable [OF Cons.prems(1)] det_act_owner [OF E(1)] nth_mem [OF Cons.prems(2)]
    by (auto simp: det_ok_def passed_def owned_def det_inv_def flagged_def)
  from passes_rank [OF ps Cons.prems(2) refl j Cons.prems(3) n]
  consider "d_owner E = Some ?j"
    | i' where "d_owner E \<noteq> Some ?j" "i' < i" "i' < length (d_ready E)" "d_ready E ! i' = ?j" "\<not> retired E ?j" by blast
  then show ?case
  proof cases
    case 1
    then show ?thesis using E(1) x by (intro exI [of _ "[x]"] exI [of _ as] exI [of _ E]) simp
  next
    case 2
    have "\<exists>bs cs F. as = bs @ cs \<and> length bs \<le> i' + 1 \<and> det_play bs E = Some F \<and> d_owner F = Some (d_ready E ! i')"
      by (rule Cons.IH [OF reach 2(3) _ _ E(2) _ _ Cons.prems(8)]) (use 2 Cons.prems(6,7) in auto)
    then obtain bs cs F where F: "as = bs @ cs" "length bs \<le> i' + 1" "det_play bs E = Some F" "d_owner F = Some ?j"
      using 2(4) by auto
    then show ?thesis
      using E(1) x 2(2) by (intro exI [of _ "x # bs"] exI [of _ cs] exI [of _ F]) simp
  qed
qed simp

definition two_tasks :: "nat det" where
  "two_tasks = det_played [(0, NewChan 0), (0, Spawn)]"

definition after_send :: "nat det" where
  "after_send = the (det_act 1 (Call (TrySend 0 5)) two_tasks)"

lemma no_starvation_witness:
  "\<exists>bs cs E. [(1, Call (TrySend 0 5))] = bs @ cs \<and> length bs \<le> 0 + 1 \<and> det_play bs two_tasks = Some E
     \<and> d_owner E = Some (d_ready two_tasks ! 0)"
proof (rule no_starvation)
  show "det_reachable two_tasks" unfolding two_tasks_def by (rule det_played_reachable) code_simp
  show "0 < length (d_ready two_tasks)" "\<not> retired two_tasks (d_ready two_tasks ! 0)"
    "d_owner two_tasks \<noteq> Some (d_ready two_tasks ! 0)" by code_simp+
  have "det_act 1 (Call (TrySend 0 5)) two_tasks \<noteq> None" by code_simp
  then show "det_play [(1, Call (TrySend 0 5))] two_tasks = Some after_send" by (auto simp: after_send_def)
  show "d_status after_send = Live" by code_simp
qed (simp_all add: scheduling_def)

section \<open>Flaws\<close>

text \<open>A task that waits in a \<open>select\<close> over two channels and is woken by the first stays on the list of the
  second: later it sends to the second channel itself, or it joins a task that sends to it.\<close>

definition select_then_send :: "(nat \<times> nat action) list" where
  "select_then_send = [(0, NewChan 0), (0, NewChan 0), (0, Spawn), (1, Call (RecvOr 0 9)), (0, Call (Select [0, 1])),
     (1, Call (Send 0 5)), (0, Resume), (1, Call (RecvOr 1 9)), (0, Call (Send 1 6))]"

definition select_then_join :: "(nat \<times> nat action) list" where
  "select_then_join = [(0, NewChan 0), (0, NewChan 0), (0, Spawn), (1, Call (RecvOr 0 9)), (0, Call (Select [0, 1])),
     (1, Call (Send 0 5)), (0, Resume), (1, Call (RecvOr 1 9)), (0, Call (Join 0)), (1, Call (Send 1 6)),
     (0, Resume), (1, Finish 7)]"

text \<open>The simplest deadlock: \<open>main\<close> waits for a message and its only task ends without sending one.\<close>

definition last_task_ends :: "(nat \<times> nat action) list" where
  "last_task_ends = [(0, NewChan 0), (0, Spawn), (1, Call (RecvOr 0 9)), (0, Call (Recv 0)), (1, Finish 7)]"

lemma stuck_facts:
  "threads stuck_state = [Waiting (Join 1) False, Finished, Waiting (Recv 0) False]" "status stuck_state = Live"
  by code_simp+

lemma stuck: "act i a stuck_state = None"
proof (cases "i < 3")
  case True
  then have "i = 0 \<or> i = 1 \<or> i = 2" by auto
  then show ?thesis by (cases a) (auto simp: stuck_facts runs_def)
next
  case False
  then show ?thesis by (cases a) (auto simp: stuck_facts runs_def)
qed

text \<open>C40. Four flaws. A task that ended without being joined hides the deadlock of the others: the
  pre-emptive runtime stands still in silence in a reachable state where the deterministic one reports
  the deadlock for the same program. A stale entry of a \<open>select\<close> puts a task into the ready queue twice,
  so that it gets two turns a round. And a join that is woken by such an entry is counted twice, so that the
  counter of parked joiners stays above zero when none is left. And a deadlock found when the last running
  task ends is raised where nothing handles it: the process hangs instead of halting with the error.\<close>

theorem scheduler_flaws:
  "(reachable stuck_state \<and> status stuck_state = Live \<and> (\<forall>i a. act i a stuck_state = None)
     \<and> d_status (det_played lost_join) = Panicked deadlock_message)
   \<and> (det_reachable (det_played select_then_send) \<and> \<not> distinct (d_ready (det_played select_then_send)))
   \<and> (det_reachable (det_played select_then_join) \<and> d_join_live (det_played select_then_join) = 1
      \<and> list_all (\<lambda>k. t_det_join k = []) (tasks (d_rt (det_played select_then_join))))
   \<and> (det_reachable (det_played last_task_ends) \<and> d_status (det_played last_task_ends) = Hung deadlock_message)"
proof (intro conjI allI)
  show "reachable stuck_state" unfolding stuck_state_def by (rule played_reachable) code_simp
  show "status stuck_state = Live" "\<And>i a. act i a stuck_state = None" by (rule stuck_facts stuck)+
  show "d_status (det_played lost_join) = Panicked deadlock_message" by code_simp
  show "det_reachable (det_played select_then_send)" "det_reachable (det_played select_then_join)"
    "det_reachable (det_played last_task_ends)"
    by (rule det_played_reachable, code_simp)+
  show "\<not> distinct (d_ready (det_played select_then_send))" by code_simp
  show "d_join_live (det_played select_then_join) = 1" by code_simp
  show "d_status (det_played last_task_ends) = Hung deadlock_message" by code_simp
  show "list_all (\<lambda>k. t_det_join k = []) (tasks (d_rt (det_played select_then_join)))" by code_simp
qed

end
