(* ===== verification/CallGraph.thy ===== *)
theory CallGraph
  imports ParseDecl Policy TypeStr
begin

text \<open>
  The checks of the type checker that work on the whole program's call graph: the effects
  (src/tools/hlinterp/checking/match_fx.py), the allocation-freedom of interrupt handlers and the stack
  budget (core.py), and core.py's checks of function attributes. The functions are those of the parsed program
  (\<open>self.fns\<close>, in order); the call graph \<open>edges\<close>, the capabilities taken and the allocation sites are
  what the check of the bodies recorded, and parameters here. A node of the graph is a function, a struct's
  defaults (\<open>@default.S\<close>) or a builtin (\<open>b:name\<close>).
\<close>

text \<open>A check of every function: it passes when each passes, and fails with the error of one.\<close>

lemma mapE_all: "bindE (mapE f xs) (\<lambda>_. Inr z) = Inr w \<longleftrightarrow> w = z \<and> (\<forall>x \<in> set xs. \<exists>y. f x = Inr y)"
  by (induction xs) (auto simp: bindE_eq_Inr)

lemma mapE_Inl: "mapE f xs = Inl e \<Longrightarrow> \<exists>x \<in> set xs. f x = Inl e"
  by (induction xs) (auto simp: bindE_eq_Inl)

section \<open>Effects\<close>

definition BUILTIN_EFFECTS :: "(string \<times> string list) list" where
  "BUILTIN_EFFECTS = [
     (''print'', [''IO'']), (''println'', [''IO'']), (''eprint'', [''IO'']), (''eprintln'', [''IO'']),
     (''isatty'', [''IO'']), (''proc_pid'', [''Proc'']), (''sys_hostname'', [''Proc'']),
     (''read_file'', [''Fs'']), (''write_file'', [''Fs'']), (''file_exists'', [''Fs'']),
     (''fs_read_dir'', [''Fs'']), (''fs_size'', [''Fs'']), (''fs_is_dir'', [''Fs'']),
     (''fs_set_perms'', [''Fs'']), (''clock_ms'', [''Clock'']), (''args'', [''Args'']),
     (''exit'', [''Exit'']), (''tainted_args'', [''Args'']), (''read_file_tainted'', [''Fs'']),
     (''read_line'', [''IO'']), (''net_lookup'', [''Net'']), (''net_tcp_connect'', [''Net'']),
     (''net_tcp_listen'', [''Net'']), (''net_tcp_accept'', [''Net'']), (''net_read'', [''Net'']),
     (''net_write'', [''Net'']), (''net_close'', [''Net'']), (''net_udp_open'', [''Net'']),
     (''net_udp_send_to'', [''Net'']), (''net_udp_recv_from'', [''Net'']), (''net_tls_get'', [''Net'']),
     (''rand_int'', [''Rand'']), (''rand_float'', [''Rand'']), (''rand_seed'', [''Rand'']),
     (''proc_exec'', [''Proc'']), (''chan_new'', [''Conc'']), (''chan_new_bounded'', [''Conc'']),
     (''spawn'', [''Conc'']), (''select'', [''Conc'']), (''async_spawn'', [''Conc'']),
     (''await'', [''Conc'']), (''future_ready'', [''Conc'']), (''future_poll'', [''Conc'']),
     (''future_select'', [''Conc'']), (''stream_new'', [''Conc'']), (''stream_send'', [''Conc'']),
     (''stream_recv'', [''Conc'']), (''stream_try_recv'', [''Conc'']), (''stream_len'', [''Conc'']),
     (''stream_close'', [''Conc'']), (''stream_map_int'', [''Conc'']), (''stream_filter_int'', [''Conc'']),
     (''stream_take_int'', [''Conc'']), (''stream_fold_int'', [''Conc'']),
     (''stream_merge_int'', [''Conc'']), (''stream_flat_map_int'', [''Conc'']), (''gen_spawn'', [''Conc'']),
     (''thread_sleep_ms'', [''Clock'', ''Conc'']), (''thread_yield'', [''Conc'']),
     (''thread_current_id'', [''Conc'']), (''proc_spawn'', [''Proc'']), (''proc_wait'', [''Proc'']),
     (''proc_kill'', [''Proc'']), (''proc_child_write'', [''Proc'']), (''proc_child_read'', [''Proc'']),
     (''proc_child_close'', [''Proc'']), (''env_get'', [''Proc'']), (''env_has'', [''Proc'']),
     (''env_set'', [''Proc'']), (''env_unset'', [''Proc'']), (''cwd_get'', [''Proc'']),
     (''cwd_set'', [''Proc'']), (''args_os'', [''Proc'']), (''instant_now_ns'', [''Clock'']),
     (''system_time_now_ms'', [''Clock'']), (''chan.send'', [''Conc'']), (''chan.try_send'', [''Conc'']),
     (''chan.recv'', [''Conc'']), (''chan.recv_or'', [''Conc'']), (''chan.len'', [''Conc'']),
     (''task.join'', [''Conc''])]"

datatype graph_error =
    Impure string "string list"          \<comment> \<open>a pure function that uses effects\<close>
  | MissingEffect string string string   \<comment> \<open>function, callee, effect\<close>
  | RecursionCycle "string list"
  | OverBudget nat "string list"
  | BadBudget
  | Allocates string "string list"       \<comment> \<open>handler, path to the allocation\<close>
  | BadAttr string string                \<comment> \<open>attribute, function\<close>

text \<open>The effects a callee brings, with the sets computed so far.\<close>

definition callee_effects :: "fn_table \<Rightarrow> call_graph \<Rightarrow> string \<Rightarrow> string list" where
  "callee_effects fns eff c =
     (if is_builtin_key c
      then (case map_of BUILTIN_EFFECTS (drop 2 c) of None \<Rightarrow> [] | Some es \<Rightarrow> es)
      else (case map_of fns c of
              Some f \<Rightarrow> if fd_extern f then sorted_list_of_set (fd_effects f) else callees eff c
            | None \<Rightarrow> callees eff c))"

text \<open>One pass of the loop: \<open>eff[key] |= new_eff\<close> for every edge, and whether a set has grown.\<close>

definition add_callee :: "fn_table \<Rightarrow> string \<Rightarrow> string \<Rightarrow> call_graph \<times> bool \<Rightarrow> call_graph \<times> bool" where
  "add_callee fns key c st =
     (let (eff, changed) = st; old = callees eff key; new = List.union (callee_effects fns eff c) old
      in (AList.update key new eff, changed \<or> length new \<noteq> length old))"

definition effect_pass :: "fn_table \<Rightarrow> call_graph \<Rightarrow> call_graph \<Rightarrow> call_graph \<times> bool" where
  "effect_pass fns edges eff =
     fold (\<lambda>(key, cs). fold (add_callee fns key) cs) edges (eff, False)"

text \<open>What the termination of the loop rests on: sets only grow, within the effects named anywhere, and a
  pass that reports a change has made one of them larger.\<close>

lemma length_union:
  "length ys \<le> length (List.union xs ys) \<and> (length (List.union xs ys) = length ys \<longleftrightarrow> set xs \<subseteq> set ys)"
proof (induction xs arbitrary: ys)
  case (Cons x xs)
  have "List.union (x # xs) ys = List.union xs (List.insert x ys)" by (simp add: List.union_def)
  then show ?case
    using Cons.IH [of "List.insert x ys"] by (cases "x \<in> set ys") (auto simp: List.insert_def)
qed (simp add: List.union_def)

lemma callees_update: "callees (AList.update key v eff) k = (if k = key then v else callees eff k)"
  by (simp add: callees_def update_conv')

definition known_effects :: "fn_table \<Rightarrow> call_graph \<Rightarrow> string set" where
  "known_effects fns eff =
     set (concat (map snd BUILTIN_EFFECTS)) \<union> set (concat (map (\<lambda>(k, f). sorted_list_of_set (fd_effects f)) fns))
       \<union> all_callees eff"

definition grown :: "fn_table \<Rightarrow> call_graph \<Rightarrow> call_graph \<Rightarrow> bool" where
  "grown fns eff eff' \<longleftrightarrow>
     (\<forall>k. set (callees eff k) \<subseteq> set (callees eff' k)) \<and> known_effects fns eff' \<subseteq> known_effects fns eff"

lemma all_callees_update: "all_callees (AList.update key v eff) \<subseteq> set v \<union> all_callees eff"
  by (induction eff) (auto simp: all_callees_def)

lemma callee_effects_known: "set (callee_effects fns eff c) \<subseteq> known_effects fns eff"
proof -
  have b: "set es \<subseteq> known_effects fns eff" if "map_of BUILTIN_EFFECTS x = Some es" for x es
    using imageI [OF map_of_SomeD [OF that], of snd] unfolding known_effects_def by auto
  have f: "set (sorted_list_of_set (fd_effects f)) \<subseteq> known_effects fns eff" if "map_of fns c = Some f" for f
    using imageI [OF map_of_SomeD [OF that], of "\<lambda>(k, f). sorted_list_of_set (fd_effects f)"]
    unfolding known_effects_def by auto
  have e: "set (callees eff c) \<subseteq> known_effects fns eff" using callees_subset [of eff c] unfolding known_effects_def by blast
  show ?thesis
    unfolding callee_effects_def using b [of "drop 2 c"] f e
    by (cases "map_of BUILTIN_EFFECTS (drop 2 c)"; cases "map_of fns c") simp_all
qed

lemma grown_refl [simp]: "grown fns eff eff"
  by (simp add: grown_def)

lemma grown_trans: "grown fns a b \<Longrightarrow> grown fns b c \<Longrightarrow> grown fns a c"
  by (fastforce simp: grown_def)

lemma add_callee_grown: "grown fns eff (fst (add_callee fns key c (eff, ch)))"
proof -
  let ?new = "List.union (callee_effects fns eff c) (callees eff key)"
  have "all_callees (AList.update key ?new eff) \<subseteq> known_effects fns eff"
    using all_callees_update [of key ?new eff] callee_effects_known [of fns eff c] callees_subset [of eff key]
    by (auto simp: known_effects_def)
  then have "known_effects fns (AList.update key ?new eff) \<subseteq> known_effects fns eff"
    by (simp add: known_effects_def)
  then show ?thesis by (simp add: add_callee_def Let_def grown_def callees_update)
qed

text \<open>The edges one by one.\<close>

definition edge_list :: "call_graph \<Rightarrow> (string \<times> string) list" where
  "edge_list edges = concat (map (\<lambda>(key, cs). map (Pair key) cs) edges)"

definition relax_edge :: "fn_table \<Rightarrow> string \<times> string \<Rightarrow> call_graph \<times> bool \<Rightarrow> call_graph \<times> bool" where
  "relax_edge fns e = add_callee fns (fst e) (snd e)"

lemma effect_pass_edges:
  "effect_pass fns edges eff = fold (relax_edge fns) (edge_list edges) (eff, False)"
proof -
  have "fold (\<lambda>(key, cs). fold (add_callee fns key) cs) edges st =
      fold (relax_edge fns) (edge_list edges) st" for st
    by (induction edges arbitrary: st) (auto simp: edge_list_def fold_map comp_def relax_edge_def)
  then show ?thesis by (simp add: effect_pass_def)
qed

lemma edge_fold_grown: "grown fns eff (fst (fold (relax_edge fns) es (eff, ch)))"
proof (induction es arbitrary: eff ch)
  case (Cons e es)
  obtain key c where e: "e = (key, c)" by fastforce
  obtain eff1 ch1 where s: "add_callee fns key c (eff, ch) = (eff1, ch1)" by fastforce
  show ?case using grown_trans [OF add_callee_grown [of fns eff key c ch]] Cons.IH [of eff1 ch1] by (simp add: e s relax_edge_def)
qed simp

lemma edge_fold_changed:
  assumes "snd (fold (relax_edge fns) es (eff, ch))"
  shows "ch \<or> (\<exists>key\<in>fst ` set es. \<not> set (callees (fst (fold (relax_edge fns) es (eff, ch))) key)
    \<subseteq> set (callees eff key))"
  using assms
proof (induction es arbitrary: eff ch)
  case (Cons e es)
  obtain key c where e: "e = (key, c)" by fastforce
  obtain eff1 ch1 where s: "add_callee fns key c (eff, ch) = (eff1, ch1)" by fastforce
  have split: "fold (relax_edge fns) (e # es) (eff, ch) =
      fold (relax_edge fns) es (eff1, ch1)" by (simp add: e s relax_edge_def)
  let ?r = "fst (fold (relax_edge fns) es (eff1, ch1))"
  have g: "grown fns eff eff1" "grown fns eff1 ?r"
    using add_callee_grown [of fns eff key c ch] edge_fold_grown [of fns eff1 es ch1] by (simp_all add: s)
  have key: "key \<in> fst ` set (e # es)" by (simp add: e)
  from Cons.IH [of eff1 ch1] Cons.prems
  consider "ch1" | k where "k \<in> fst ` set es" "\<not> set (callees ?r k) \<subseteq> set (callees eff1 k)" unfolding split by blast
  then show ?case
  proof cases
    case 1
    then have "ch \<or> \<not> set (callee_effects fns eff c) \<subseteq> set (callees eff key)"
      using s length_union [of "callees eff key"] by (auto simp: add_callee_def Let_def)
    moreover have "set (callee_effects fns eff c) \<subseteq> set (callees eff1 key)"
      using s by (auto simp: add_callee_def Let_def callees_update)
    moreover have "set (callees eff1 key) \<subseteq> set (callees ?r key)" using g(2) by (simp add: grown_def)
    ultimately have "ch \<or> \<not> set (callees ?r key) \<subseteq> set (callees eff key)" by blast
    then show ?thesis unfolding split using key by (elim disjE) (rule disjI1, assumption, rule disjI2, rule bexI)
  next
    case 2
    moreover have "set (callees eff k) \<subseteq> set (callees eff1 k)" using g(1) by (simp add: grown_def)
    moreover have "k \<in> fst ` set (e # es)" using 2(1) by simp
    ultimately have "\<not> set (callees ?r k) \<subseteq> set (callees eff k)" "k \<in> fst ` set (e # es)" by blast+
    then show ?thesis unfolding split by (intro disjI2) (rule bexI)
  qed
qed simp

lemma finite_known [simp]: "finite (known_effects fns eff)"
  unfolding known_effects_def all_callees_def by (intro finite_UnI finite_set)

definition effect_gap :: "fn_table \<Rightarrow> call_graph \<Rightarrow> call_graph \<Rightarrow> nat" where
  "effect_gap fns edges eff = (\<Sum>k\<in>set (map fst edges). card (known_effects fns eff - set (callees eff k)))"

lemma effect_gap_decreases:
  assumes "effect_pass fns edges eff = (eff', True)"
  shows "effect_gap fns edges eff' < effect_gap fns edges eff"
proof -
  have r: "fold (relax_edge fns) (edge_list edges) (eff, False) = (eff', True)"
    using assms by (simp add: effect_pass_edges)
  have g: "grown fns eff eff'" using edge_fold_grown [of fns eff "edge_list edges" False] by (simp add: r)
  obtain k where k: "k \<in> fst ` set (edge_list edges)" "\<not> set (callees eff' k) \<subseteq> set (callees eff k)"
    using edge_fold_changed [of fns "edge_list edges" eff False] by (auto simp: r)
  have le: "card (known_effects fns eff' - set (callees eff' j)) \<le> card (known_effects fns eff - set (callees eff j))" for j
    by (rule card_mono) (use g in \<open>auto simp: grown_def\<close>)
  have sub: "known_effects fns eff' - set (callees eff' j) \<subseteq> known_effects fns eff - set (callees eff j)" for j
    using g by (auto simp: grown_def)
  have new: "set (callees eff' k) \<subseteq> known_effects fns eff"
    using callees_subset [of eff' k] g by (auto simp: grown_def known_effects_def)
  have "card (known_effects fns eff' - set (callees eff' k)) < card (known_effects fns eff - set (callees eff k))"
    by (rule psubset_card_mono) (use sub [of k] k(2) new in auto)
  moreover have "k \<in> set (map fst edges)" using k(1) by (force simp: edge_list_def)
  ultimately show ?thesis
    unfolding effect_gap_def by (intro sum_strict_mono_ex1) (use le in auto)
qed

function effect_fixpoint :: "fn_table \<Rightarrow> call_graph \<Rightarrow> call_graph \<Rightarrow> call_graph" where
  "effect_fixpoint fns edges eff =
     (case effect_pass fns edges eff of (eff', changed) \<Rightarrow>
        if changed then effect_fixpoint fns edges eff' else eff')"
  by pat_completeness auto
termination
  by (relation "measure (\<lambda>(fns, edges, eff). effect_gap fns edges eff)") (auto intro: effect_gap_decreases)

declare effect_fixpoint.simps [simp del]

definition computed_effects :: "fn_table \<Rightarrow> call_graph \<Rightarrow> call_graph" where
  "computed_effects fns edges = effect_fixpoint fns edges (map (\<lambda>(key, cs). (key, [])) edges)"

text \<open>\<open>cap_grants\<close>: the effects a function holds through its direct capability parameters and the
  tokens its body takes; and the check of one function. The callees are looked through in sorted order.\<close>

definition cap_grants :: "(string \<Rightarrow> string list) \<Rightarrow> string \<Rightarrow> fn_decl \<Rightarrow> string list" where
  "cap_grants cap_taken key f =
     foldl cap_family_add
       (foldl (\<lambda>out (pn, pt, _). if is_cap pt then cap_family_add out (cap_inner pt) else out) [] (fd_params f))
       (cap_taken key)"

definition callee_name :: "string \<Rightarrow> string" where
  "callee_name c = (if is_builtin_key c then drop 2 c else c)"

definition check_fn_effects ::
  "fn_table \<Rightarrow> (string \<Rightarrow> string list) \<Rightarrow> call_graph \<Rightarrow> call_graph \<Rightarrow> string \<times> fn_decl \<Rightarrow> graph_error + unit" where
  "check_fn_effects fns cap_taken edges eff kf =
     (let (key, f) = kf;
          computed = callees eff key;
          lacks = (\<lambda>es. filter (\<lambda>e. e \<notin> fd_effects f \<and> e \<notin> set (cap_grants cap_taken key f)) es)
      in if lacks computed = []
         then (if fd_pure f \<and> computed \<noteq> [] then Inl (Impure (fd_name f) (sort computed)) else Inr ())
         else (case filter (\<lambda>c. lacks (callee_effects fns eff c) \<noteq> []) (sort (remdups (callees edges key))) of
                 [] \<Rightarrow> Inr ()
               | c # _ \<Rightarrow>
                   Inl (MissingEffect (fd_name f) (callee_name c) (hd (sort (lacks (callee_effects fns eff c)))))))"

definition check_effects ::
  "fn_table \<Rightarrow> (string \<Rightarrow> string list) \<Rightarrow> call_graph \<Rightarrow> graph_error + call_graph" where
  "check_effects fns cap_taken edges =
     (let eff = computed_effects fns edges
      in bindE (mapE (check_fn_effects fns cap_taken edges eff) fns) (\<lambda>_. Inr eff))"

section \<open>The stack budget\<close>

text \<open>\<open>_est_calls\<close>, \<open>_est_stmt\<close> and \<open>estimate_stack_size\<close> on the parser's trees: 16 bytes for a call, 8 for
  a binding or a parameter, 16 for a for-loop, 32 for the frame.\<close>

fun est_calls :: "node \<Rightarrow> nat" where
  "est_calls (NBin op l r) = est_calls l + est_calls r"
| "est_calls (NUn op e) = est_calls e"
| "est_calls (NCall f args) = 16 + sum_list (map est_calls args)"
| "est_calls (NFieldCall t m args) = est_calls t + sum_list (map est_calls args)"
| "est_calls (NField t f) = est_calls t"
| "est_calls (NIndex t i) = est_calls t + est_calls i"
| "est_calls (NQmark e) = est_calls e"
| "est_calls (NMatch s arms) = est_calls s + sum_list (map (\<lambda>a. est_calls (snd a)) arms)"
| "est_calls (NList items) = sum_list (map est_calls items)"
| "est_calls (NStruct s fvs) = sum_list (map (\<lambda>f. est_calls (snd f)) fvs)"
| "est_calls _ = 0"

fun est_stmt :: "pstmt \<Rightarrow> nat" where
  "est_stmt (XLet x t m v st bx r) = (if t \<noteq> ''void'' then 8 else 0) + est_calls v"
| "est_stmt (XFor x t it body) = 16 + sum_list (map est_stmt body) + est_calls it"
| "est_stmt (XWhile c body) = sum_list (map est_stmt body) + est_calls c"
| "est_stmt (XIf c th els) =
     sum_list (map est_stmt th) + (case els of None \<Rightarrow> 0 | Some ss \<Rightarrow> sum_list (map est_stmt ss)) + est_calls c"
| "est_stmt (XReturn v) = (case v of None \<Rightarrow> 0 | Some e \<Rightarrow> est_calls e)"
| "est_stmt (XAssign t v) = est_calls t + est_calls v"
| "est_stmt (XExpr e) = est_calls e"
| "est_stmt _ = 0"

definition estimate_stack_size :: "fn_decl \<Rightarrow> nat" where
  "estimate_stack_size f = 32 + 8 * length (fd_params f) + sum_list (map est_stmt (fd_body f))"

definition check_stack_size_attrs :: "fn_table \<Rightarrow> graph_error + unit" where
  "check_stack_size_attrs fns =
     bindE (mapE (\<lambda>(key, f).
        if at_stack_size (fd_attrs f) < 0 \<or> fd_extern f then Inr ()
        else if int (estimate_stack_size f) > at_stack_size (fd_attrs f) then Inl (BadAttr ''stack_size'' (fd_name f))
        else Inr ()) fns) (\<lambda>_. Inr ())"

definition stack_frames :: "fn_table \<Rightarrow> call_graph \<Rightarrow> (string \<times> nat) list" where
  "stack_frames fns edges =
     map (\<lambda>(key, f). (key, if fd_extern f then 0 else estimate_stack_size f)) fns
       @ map (\<lambda>k. (k, 0)) (filter (\<lambda>k. is_prefix ''@default.'' k \<and> k \<notin> set (map fst fns)) (map fst edges))"

text \<open>The loop of \<open>visit\<close> over the callees of the node on top of \<open>st\<close>, which holds the nodes in progress
  (GRAY); \<open>memo\<close> holds the finished ones (BLACK) with the cost and the path of their worst chain, and
  \<open>best\<close> is the worst chain of the callees seen so far.\<close>

type_synonym chain_memo = "(string \<times> nat \<times> string list) list"

function visit_callees ::
  "(string \<times> nat) list \<Rightarrow> call_graph \<Rightarrow> string list \<Rightarrow> string list \<Rightarrow> nat \<times> string list \<Rightarrow> chain_memo
   \<Rightarrow> graph_error + (nat \<times> string list) \<times> chain_memo" where
  "visit_callees F E st [] best memo = Inr (best, memo)"
| "visit_callees F E st (c # cs) best memo =
     (case map_of F c of
        None \<Rightarrow> visit_callees F E st cs best memo
      | Some frame \<Rightarrow>
          if c \<in> set st then Inl (RecursionCycle (dropWhile (\<lambda>x. x \<noteq> c) st @ [c]))
          else bindE
            (case map_of memo c of
               Some r \<Rightarrow> Inr (r, memo)
             | None \<Rightarrow>
                 bindE (visit_callees F E (st @ [c]) (sort (remdups (callees E c))) (0, []) memo)
                   (\<lambda>((cost, path), memo'). Inr ((frame + cost, c # path), (c, frame + cost, c # path) # memo')))
            (\<lambda>(r, memo'). visit_callees F E st cs (if fst r > fst best then r else best) memo'))"
  by pat_completeness auto
termination
proof (relation "measures [\<lambda>(F, E, st, cs, best, memo). card (fst ` set F - set st), \<lambda>(F, E, st, cs, best, memo). length cs]",
    goal_cases)
  case (3 F E st c cs best memo frame)
  then have "c \<in> fst ` set F - set st" by (force dest: map_of_SomeD)
  then have "fst ` set F - set (st @ [c]) \<subset> fst ` set F - set st" by auto
  then have "card (fst ` set F - set (st @ [c])) < card (fst ` set F - set st)" by (intro psubset_card_mono) simp_all
  then show ?case by simp
qed auto

declare visit_callees.simps(2) [simp del]

definition visit ::
  "(string \<times> nat) list \<Rightarrow> call_graph \<Rightarrow> string \<Rightarrow> chain_memo \<Rightarrow> graph_error + (nat \<times> string list) \<times> chain_memo" where
  "visit F E node memo =
     bindE (visit_callees F E [node] (sort (remdups (callees E node))) (0, []) memo)
       (\<lambda>((cost, path), memo').
          let r = (the (map_of F node) + cost, node # path) in Inr (r, (node, r) # memo'))"

fun visit_roots ::
  "(string \<times> nat) list \<Rightarrow> call_graph \<Rightarrow> string list \<Rightarrow> nat \<times> string list \<Rightarrow> chain_memo
   \<Rightarrow> graph_error + nat \<times> string list" where
  "visit_roots F E [] worst memo = Inr worst"
| "visit_roots F E (k # ks) worst memo =
     (if map_of memo k \<noteq> None then visit_roots F E ks worst memo
      else bindE (visit F E k memo) (\<lambda>(r, memo').
        visit_roots F E ks (if fst r > fst worst then r else worst) memo'))"

text \<open>The result is the worst chain, \<open>None\<close> when the crate has no budget.\<close>

definition check_stack_budget ::
  "(string \<times> crate_value) list \<Rightarrow> fn_table \<Rightarrow> call_graph \<Rightarrow> graph_error + (nat \<times> nat \<times> string list) option" where
  "check_stack_budget crate_attrs fns edges =
     (case filter (\<lambda>a. fst a = ''stack_size'') crate_attrs of
        [] \<Rightarrow> Inr None
      | (_, CSize n) # _ \<Rightarrow>
          if n = 0 then Inl BadBudget
          else
            (let F = stack_frames fns edges
             in bindE (visit_roots F edges (sort (remdups (map fst F))) (0, []) []) (\<lambda>(worst, path).
                if worst > n then Inl (OverBudget worst path) else Inr (Some (n, worst, path))))
      | _ \<Rightarrow> Inl BadBudget)"

section \<open>Interrupt handlers\<close>

text \<open>\<open>check_irq_no_alloc\<close>: the breadth-first walk from one handler. \<open>parent\<close> holds the nodes discovered, each
  with the node it was discovered from, in the order of the queue, and \<open>todo\<close> is the part of the queue not
  looked at yet. The walk ends with the path to the first node with an allocation site, or with the number
  of nodes.\<close>

type_synonym parents = "(string \<times> string option) list"

fun walk_up :: "nat \<Rightarrow> parents \<Rightarrow> string \<Rightarrow> string list" where
  "walk_up 0 parent k = []"
| "walk_up (Suc n) parent k =
     (case map_of parent k of Some (Some q) \<Rightarrow> walk_up n parent q @ [k] | _ \<Rightarrow> [k])"

definition discovered :: "call_graph \<Rightarrow> parents \<Rightarrow> string \<Rightarrow> string list" where
  "discovered E parent k = filter (\<lambda>c. map_of parent c = None) (sort (remdups (callees E k)))"

function irq_walk :: "call_graph \<Rightarrow> string list \<Rightarrow> parents \<Rightarrow> string list \<Rightarrow> string list + nat" where
  "irq_walk E sites parent [] = Inr (length parent)"
| "irq_walk E sites parent (k # todo) =
     (if k \<in> set sites then Inl (walk_up (length parent) parent k)
      else irq_walk E sites (parent @ map (\<lambda>c. (c, Some k)) (discovered E parent k))
             (todo @ discovered E parent k))"
  by pat_completeness auto
termination
proof (relation "measures [\<lambda>(E, sites, parent, todo). card (all_callees E - fst ` set parent),
    \<lambda>(E, sites, parent, todo). length todo]", goal_cases)
  case (2 E sites parent k todo)
  show ?case
  proof (cases "discovered E parent k")
    case (Cons c cs)
    then have "c \<in> set (discovered E parent k)" by simp
    then have "c \<in> all_callees E" "c \<notin> fst ` set parent"
      using callees_subset [of E k] by (auto simp: discovered_def map_of_eq_None_iff)
    then have "all_callees E - fst ` set (parent @ map (\<lambda>c. (c, Some k)) (discovered E parent k))
        \<subset> all_callees E - fst ` set parent" using Cons by auto
    then have "card (all_callees E - fst ` set (parent @ map (\<lambda>c. (c, Some k)) (discovered E parent k)))
        < card (all_callees E - fst ` set parent)"
      by (intro psubset_card_mono) (simp_all add: all_callees_def)
    then show ?thesis by simp
  qed simp
qed simp

declare irq_walk.simps(2) [simp del]

text \<open>The handlers in sorted order; a line of the audit is the vector, the name and the number of nodes.\<close>

definition in_order :: "fn_table \<Rightarrow> (string \<times> fn_decl) list" where
  "in_order fns = map (\<lambda>k. (k, the (map_of fns k))) (sort (remdups (map fst fns)))"

definition is_handler :: "fn_decl \<Rightarrow> bool" where
  "is_handler f \<longleftrightarrow> at_irq_handler (fd_attrs f) \<and> \<not> fd_extern f"

definition check_irq_no_alloc ::
  "fn_table \<Rightarrow> string list \<Rightarrow> call_graph \<Rightarrow> graph_error + (int \<times> string \<times> nat) list" where
  "check_irq_no_alloc fns sites edges =
     mapE (\<lambda>(key, f).
        case irq_walk edges sites [(key, None)] [key] of
          Inl path \<Rightarrow> Inl (Allocates (fd_name f) path)
        | Inr n \<Rightarrow> Inr (at_irq_vector (fd_attrs f), fd_name f, n))
       (filter (\<lambda>kf. is_handler (snd kf)) (in_order fns))"

section \<open>Attributes of functions and of the crate\<close>

text \<open>\<open>bare\<close> says that the program is compiled for a bare-metal triple.\<close>

definition crate_modes :: "bool \<Rightarrow> program \<Rightarrow> bool \<times> bool" where
  "crate_modes bare p =
     (let names = fst ` set (pg_crate_attrs p); freestanding = ''freestanding'' \<in> names \<or> bare
      in (freestanding, freestanding \<or> ''no_std'' \<in> names))"

definition require :: "bool \<Rightarrow> 'e \<Rightarrow> 'e + unit" where
  "require b e = (if b then Inr () else Inl e)"

definition each_fn :: "(string \<times> fn_decl \<Rightarrow> graph_error + unit) \<Rightarrow> (string \<times> fn_decl) list \<Rightarrow> graph_error + unit" where
  "each_fn check kfs = bindE (mapE check kfs) (\<lambda>_. Inr ())"

definition check_crate_modes :: "bool \<Rightarrow> program \<Rightarrow> graph_error + unit" where
  "check_crate_modes bare p =
     (if \<not> snd (crate_modes bare p) then Inr ()
      else
        bindE (require (list_all (\<lambda>path. \<not> is_prefix ''std.'' path) (pg_imports p)) (BadAttr ''no_std'' ''import'')) (\<lambda>_.
        bindE (require (pg_externs p = []) (BadAttr ''no_std'' ''extern'')) (\<lambda>_.
        each_fn (\<lambda>(key, f).
          bindE (require (fd_effects f = {}) (BadAttr ''no_std'' (fd_name f))) (\<lambda>_.
          bindE (require (list_all (\<lambda>(pn, pt, _). \<not> is_cap pt) (fd_params f)) (BadAttr ''no_std'' (fd_name f))) (\<lambda>_.
          require (\<not> is_cap (fd_ret f)) (BadAttr ''no_std'' (fd_name f))))) (pg_fns p))))"

definition is_ptr_param :: "program \<Rightarrow> string \<Rightarrow> bool" where
  "is_ptr_param p pt \<longleftrightarrow>
     pt \<notin> {''int'', ''float'', ''bool'', ''void''} \<and>
     (pt \<in> fst ` set (pg_structs p) \<or> pt = ''str'' \<or>
      type_base pt \<in> {''list'', ''map'', ''Chan'', ''Task'', ''tainted''})"

definition check_irq_handler_signatures :: "program \<Rightarrow> graph_error + unit" where
  "check_irq_handler_signatures p =
     each_fn (\<lambda>(key, f).
       if \<not> is_handler f then Inr ()
       else
         bindE (require (fd_ret f = ''void'') (BadAttr ''irq_handler'' (fd_name f))) (\<lambda>_.
         bindE (require (length (fd_params f) = 1) (BadAttr ''irq_handler'' (fd_name f))) (\<lambda>_.
         require (is_ptr_param p (fst (snd (hd (fd_params f))))) (BadAttr ''irq_handler'' (fd_name f)))))
       (in_order (pg_fns p))"

text \<open>The owners of the vectors seen so far.\<close>

fun irq_vectors :: "(string \<times> fn_decl) list \<Rightarrow> (int \<times> string) list \<Rightarrow> graph_error + unit" where
  "irq_vectors [] owner = Inr ()"
| "irq_vectors ((key, f) # kfs) owner =
     (let vec = at_irq_vector (fd_attrs f)
      in if vec < 0 then irq_vectors kfs owner
         else if map_of owner vec \<noteq> None then Inl (BadAttr ''irq_vector'' key)
         else irq_vectors kfs ((vec, key) # owner))"

definition check_irq_vectors :: "fn_table \<Rightarrow> graph_error + unit" where
  "check_irq_vectors fns = irq_vectors (in_order fns) []"

definition panic_shape :: "fn_decl \<Rightarrow> bool" where
  "panic_shape f \<longleftrightarrow> fd_struct f = None \<and> \<not> fd_extern f \<and> fd_typeparams f = [] \<and>
     (\<exists>n m. fd_params f = [(n, ''str'', m)]) \<and> fd_ret f = ''void''"

lemma panic_shape_code [code]:
  "panic_shape f \<longleftrightarrow> fd_struct f = None \<and> \<not> fd_extern f \<and> fd_typeparams f = [] \<and>
     (case fd_params f of [(n, t, m)] \<Rightarrow> t = ''str'' | _ \<Rightarrow> False) \<and> fd_ret f = ''void''"
  by (auto simp: panic_shape_def split: list.splits)

fun panic_handlers :: "(string \<times> fn_decl) list \<Rightarrow> bool \<Rightarrow> graph_error + unit" where
  "panic_handlers [] found = Inr ()"
| "panic_handlers ((key, f) # kfs) found =
     (if \<not> at_panic_handler (fd_attrs f) then panic_handlers kfs found
      else if found \<or> \<not> panic_shape f then Inl (BadAttr ''panic_handler'' key)
      else panic_handlers kfs True)"

definition check_panic_handler :: "fn_table \<Rightarrow> graph_error + unit" where
  "check_panic_handler fns = panic_handlers fns False"

definition check_secrets_attrs :: "fn_table \<Rightarrow> graph_error + unit" where
  "check_secrets_attrs =
     each_fn (\<lambda>(key, f). require (set (at_secrets (fd_attrs f)) \<subseteq> fst ` set (fd_params f)) (BadAttr ''secrets'' key))"

definition check_ct_attrs :: "fn_table \<Rightarrow> graph_error + unit" where
  "check_ct_attrs =
     each_fn (\<lambda>(key, f). require (at_ct (fd_attrs f) \<longrightarrow> at_secrets (fd_attrs f) \<noteq> []) (BadAttr ''ct'' key))"

definition check_ffi_taint_attrs :: "fn_table \<Rightarrow> graph_error + unit" where
  "check_ffi_taint_attrs =
     each_fn (\<lambda>(key, f).
       if \<not> fd_extern f
       then require (\<not> at_taint_source (fd_attrs f) \<and> at_taint_sinks (fd_attrs f) = []) (BadAttr ''taint'' key)
       else
         bindE (require (\<not> (at_taint_source (fd_attrs f) \<and> fd_ret f = ''void'')) (BadAttr ''taint_source'' key)) (\<lambda>_.
         require (set (at_taint_sinks (fd_attrs f)) \<subseteq> fst ` set (fd_params f)) (BadAttr ''taint_sink'' key)))"

definition check_boot_header :: "bool \<Rightarrow> program \<Rightarrow> graph_error + unit" where
  "check_boot_header bare p =
     require (boot_headers p = [] \<or> fst (crate_modes bare p)) (BadAttr ''boot_header'' ''crate'')"

text \<open>The order of \<open>check\<close>.\<close>

definition check_attributes :: "bool \<Rightarrow> program \<Rightarrow> graph_error + unit" where
  "check_attributes bare p =
     bindE (check_crate_modes bare p) (\<lambda>_.
     bindE (check_panic_handler (pg_fns p)) (\<lambda>_.
     bindE (check_secrets_attrs (pg_fns p)) (\<lambda>_.
     bindE (check_ct_attrs (pg_fns p)) (\<lambda>_.
     bindE (check_ffi_taint_attrs (pg_fns p)) (\<lambda>_.
     bindE (check_stack_size_attrs (pg_fns p)) (\<lambda>_.
     bindE (check_irq_vectors (pg_fns p)) (\<lambda>_.
     bindE (check_irq_handler_signatures p) (\<lambda>_.
     check_boot_header bare p))))))))"

text \<open>The passes over the complete call graph, in the order of \<open>check\<close>: what is published for the audit.\<close>

record graph_report =
  gr_computed :: call_graph
  gr_irq :: "(int \<times> string \<times> nat) list"
  gr_stack :: "(nat \<times> nat \<times> string list) option"

definition check_graph ::
  "program \<Rightarrow> (string \<Rightarrow> string list) \<Rightarrow> string list \<Rightarrow> call_graph \<Rightarrow> graph_error + graph_report" where
  "check_graph p cap_taken sites edges =
     bindE (check_effects (pg_fns p) cap_taken edges) (\<lambda>eff.
     bindE (check_irq_no_alloc (pg_fns p) sites edges) (\<lambda>lines.
     bindE (check_stack_budget (pg_crate_attrs p) (pg_fns p) edges) (\<lambda>budget.
     Inr \<lparr>gr_computed = eff, gr_irq = lines, gr_stack = budget\<rparr>)))"

end
