(* ===== verification/EffectProps.thy ===== *)
theory EffectProps
  imports CallGraph SandboxProps
begin

text \<open>
  What the effect fixpoint computes and what its acceptance promises: the computed effects are those
  needed along the call graph, an accepted program declares or holds all of them, and the sandbox derived
  from it grants nothing beyond them.
\<close>

section \<open>The fixpoint\<close>

text \<open>A function needs the effects of the builtins and the declared effects of the extern functions it
  calls, and what its other callees need.\<close>

inductive needs :: "fn_table \<Rightarrow> call_graph \<Rightarrow> string \<Rightarrow> string \<Rightarrow> bool" for fns edges where
  needs_builtin: "c \<in> set (callees edges k) \<Longrightarrow> is_builtin_key c \<Longrightarrow> map_of BUILTIN_EFFECTS (drop 2 c) = Some es \<Longrightarrow>
    e \<in> set es \<Longrightarrow> needs fns edges k e"
| needs_extern: "c \<in> set (callees edges k) \<Longrightarrow> \<not> is_builtin_key c \<Longrightarrow> map_of fns c = Some f \<Longrightarrow> fd_extern f \<Longrightarrow>
    e \<in> fd_effects f \<Longrightarrow> needs fns edges k e"
| needs_call: "c \<in> set (callees edges k) \<Longrightarrow> \<not> is_builtin_key c \<Longrightarrow> (\<And>f. map_of fns c = Some f \<Longrightarrow> \<not> fd_extern f) \<Longrightarrow>
    needs fns edges c e \<Longrightarrow> needs fns edges k e"

definition effects_known :: "fn_table \<Rightarrow> bool" where
  "effects_known fns \<longleftrightarrow> (\<forall>(k, f) \<in> set fns. fd_effects f \<subseteq> KNOWN_EFFECTS)"

lemma effects_finite: "effects_known fns \<Longrightarrow> map_of fns k = Some f \<Longrightarrow> finite (fd_effects f)"
  unfolding effects_known_def KNOWN_EFFECTS_def
  by (drule map_of_SomeD, drule (1) bspec) (auto intro: finite_subset)

text \<open>The edges of a graph whose keys are distinct.\<close>

lemma edge_list_iff: "distinct (map fst edges) \<Longrightarrow> (k, c) \<in> set (edge_list edges) \<longleftrightarrow> c \<in> set (callees edges k)"
  by (force simp: edge_list_def callees_def split: option.splits dest: map_of_SomeD)

lemma callee_effects_needs:
  assumes "effects_known fns" "\<And>k. set (callees eff k) \<subseteq> {e. needs fns edges k e}" "c \<in> set (callees edges k)"
    and "e \<in> set (callee_effects fns eff c)"
  shows "needs fns edges k e"
proof (cases "is_builtin_key c")
  case True
  then obtain es where "map_of BUILTIN_EFFECTS (drop 2 c) = Some es" "e \<in> set es"
    using assms(4) by (cases "map_of BUILTIN_EFFECTS (drop 2 c)") (auto simp: callee_effects_def)
  then show ?thesis using needs_builtin assms(3) True by blast
next
  case False
  show ?thesis
  proof (cases "\<exists>f. map_of fns c = Some f \<and> fd_extern f")
    case True
    then obtain f where f: "map_of fns c = Some f" "fd_extern f" by blast
    then have "e \<in> fd_effects f" using assms(4) False effects_finite [OF assms(1) f(1)] by (simp add: callee_effects_def)
    then show ?thesis using needs_extern assms(3) False f by blast
  next
    case no: False
    then have "e \<in> set (callees eff c)" using assms(4) False by (auto simp: callee_effects_def split: option.splits if_splits)
    then have "needs fns edges c e" using assms(2) by blast
    then show ?thesis using needs_call [OF assms(3) False] no by blast
  qed
qed

lemma callees_relax:
  "callees (fst (relax_edge fns (key, c) (eff, ch))) k =
     (if k = key then List.union (callee_effects fns eff c) (callees eff key) else callees eff k)"
  by (simp add: relax_edge_def add_callee_def Let_def callees_update)

lemma edge_fold_sound:
  assumes "effects_known fns" "\<And>k c. (k, c) \<in> set es \<Longrightarrow> c \<in> set (callees edges k)"
    and "\<And>k. set (callees eff k) \<subseteq> {e. needs fns edges k e}"
  shows "set (callees (fst (fold (relax_edge fns) es (eff, ch))) k) \<subseteq> {e. needs fns edges k e}"
  using assms(2,3)
proof (induction es arbitrary: eff ch)
  case (Cons x es)
  obtain key c where x: "x = (key, c)" by fastforce
  obtain eff1 ch1 where s: "relax_edge fns x (eff, ch) = (eff1, ch1)" by fastforce
  have "set (callees eff1 j) \<subseteq> {e. needs fns edges j e}" for j
  proof -
    have "callees eff1 j = (if j = key then List.union (callee_effects fns eff c) (callees eff key) else callees eff j)"
      using callees_relax [of fns key c eff ch j] s x by simp
    then show ?thesis
      using Cons.prems(2) [of j] callee_effects_needs [OF assms(1) Cons.prems(2), of c key] Cons.prems(1) [of key c] x by auto
  qed
  then show ?case using Cons.IH [of eff1 ch1] Cons.prems(1) by (simp add: s)
qed simp

lemma union_absorb: "set xs \<subseteq> set ys \<Longrightarrow> List.union xs ys = ys"
  by (induction xs) (auto simp: List.union_def List.insert_def)

lemma edge_fold_unchanged:
  assumes "fold (relax_edge fns) es (eff, ch) = (eff', False)"
  shows "\<not> ch \<and> (\<forall>k. callees eff' k = callees eff k) \<and>
    (\<forall>(k, c) \<in> set es. set (callee_effects fns eff c) \<subseteq> set (callees eff k))"
  using assms
proof (induction es arbitrary: eff ch)
  case (Cons x es)
  obtain key c where x: "x = (key, c)" by fastforce
  obtain eff1 ch1 where s: "relax_edge fns x (eff, ch) = (eff1, ch1)" by fastforce
  have IH: "\<not> ch1" "\<forall>k. callees eff' k = callees eff1 k"
    "\<forall>(k, c) \<in> set es. set (callee_effects fns eff1 c) \<subseteq> set (callees eff1 k)"
    using Cons.IH [of eff1 ch1] Cons.prems by (auto simp: s)
  have "ch1 = (ch \<or> length (List.union (callee_effects fns eff c) (callees eff key)) \<noteq> length (callees eff key))"
    using s x by (auto simp: relax_edge_def add_callee_def Let_def)
  then have c: "\<not> ch" "set (callee_effects fns eff c) \<subseteq> set (callees eff key)"
    using IH(1) length_union [of "callees eff key" "callee_effects fns eff c"] by auto
  have "List.union (callee_effects fns eff c) (callees eff key) = callees eff key"
    using c(2) by (rule union_absorb)
  then have same: "callees eff1 k = callees eff k" for k
    using callees_relax [of fns key c eff ch k] s x by auto
  have "callee_effects fns eff1 d = callee_effects fns eff d" for d by (simp add: callee_effects_def same split: option.split)
  then show ?case using IH c x by (auto simp: same)
qed simp

lemma effect_pass_sound:
  assumes "effects_known fns" "distinct (map fst edges)" "\<And>k. set (callees eff k) \<subseteq> {e. needs fns edges k e}"
    and "effect_pass fns edges eff = (eff', ch)"
  shows "set (callees eff' k) \<subseteq> {e. needs fns edges k e}"
  using edge_fold_sound [OF assms(1) _ assms(3), of "edge_list edges" False k] assms(4)
  by (simp add: effect_pass_edges edge_list_iff [OF assms(2)])

lemma fixpoint_sound:
  assumes "effects_known fns" "distinct (map fst edges)" "\<And>k. set (callees eff k) \<subseteq> {e. needs fns edges k e}"
  shows "set (callees (effect_fixpoint fns edges eff) k) \<subseteq> {e. needs fns edges k e}"
  using assms(1,2,3)
proof (induction fns edges eff arbitrary: k rule: effect_fixpoint.induct)
  case (1 fns edges eff)
  obtain eff' ch where p: "effect_pass fns edges eff = (eff', ch)" by fastforce
  note s = effect_pass_sound [OF 1(2-4) p]
  show ?case
    using 1(1) [OF p [symmetric] _ 1(2,3) s] s by (subst effect_fixpoint.simps) (simp add: p)
qed

lemma fixpoint_closed:
  assumes "distinct (map fst edges)" "c \<in> set (callees edges k)"
  shows "set (callee_effects fns (effect_fixpoint fns edges eff) c) \<subseteq> set (callees (effect_fixpoint fns edges eff) k)"
  using assms
proof (induction fns edges eff rule: effect_fixpoint.induct)
  case (1 fns edges eff)
  obtain eff' ch where p: "effect_pass fns edges eff = (eff', ch)" by fastforce
  show ?case
  proof (cases ch)
    case True
    then show ?thesis using 1(1) [OF p [symmetric] True 1(2,3)] p by (subst (1 2) effect_fixpoint.simps) simp
  next
    case False
    then have f: "fold (relax_edge fns) (edge_list edges) (eff, False) = (eff', False)"
      using p by (simp add: effect_pass_edges)
    note u = edge_fold_unchanged [OF f]
    have same: "\<And>k. callees eff' k = callees eff k" using u by simp
    then have ce: "callee_effects fns eff' d = callee_effects fns eff d" for d by (simp add: callee_effects_def split: option.split)
    have r: "effect_fixpoint fns edges eff = eff'" using False p by (subst effect_fixpoint.simps) simp
    have "(k, c) \<in> set (edge_list edges)" using edge_list_iff [OF 1(2)] 1(3) by simp
    then show ?thesis unfolding r ce same using u by blast
  qed
qed

lemma start_effects: "callees (map (\<lambda>(key, cs). (key, [])) edges) k = []"
  by (induction edges) (auto simp: callees_def)

lemma computed_exact:
  assumes "effects_known fns" "distinct (map fst edges)"
  shows "set (callees (computed_effects fns edges) k) = {e. needs fns edges k e}"
proof
  show "set (callees (computed_effects fns edges) k) \<subseteq> {e. needs fns edges k e}"
    unfolding computed_effects_def by (rule fixpoint_sound [OF assms]) (simp add: start_effects)
  let ?eff = "computed_effects fns edges"
  have closed: "set (callee_effects fns ?eff c) \<subseteq> set (callees ?eff k)" if "c \<in> set (callees edges k)" for c k
    unfolding computed_effects_def by (rule fixpoint_closed [OF assms(2) that])
  have "e \<in> set (callees ?eff k)" if "needs fns edges k e" for k e
    using that
  proof induction
    case (needs_builtin c k es e)
    then show ?case using closed [of c k] by (auto simp: callee_effects_def)
  next
    case (needs_extern c k f e)
    then show ?case
      using closed [of c k] effects_finite [OF assms(1) needs_extern(3)] by (auto simp: callee_effects_def)
  next
    case (needs_call c k e)
    then show ?case using closed [of c k] by (auto simp: callee_effects_def split: option.splits if_splits)
  qed
  then show "{e. needs fns edges k e} \<subseteq> set (callees ?eff k)" by blast
qed

section \<open>Acceptance\<close>

definition fn_held :: "(string \<Rightarrow> string list) \<Rightarrow> string \<Rightarrow> fn_decl \<Rightarrow> string set" where
  "fn_held cap_taken key f = fd_effects f \<union> set (cap_grants cap_taken key f)"

lemma check_fn_effects_iff:
  assumes "effects_known fns" "distinct (map fst edges)" "eff = computed_effects fns edges"
  shows "check_fn_effects fns cap_taken edges eff (key, f) = Inr () \<longleftrightarrow>
    {e. needs fns edges key e} \<subseteq> fn_held cap_taken key f \<and> (fd_pure f \<longrightarrow> {e. needs fns edges key e} = {})"
proof -
  let ?lacks = "\<lambda>es. filter (\<lambda>e. e \<notin> fd_effects f \<and> e \<notin> set (cap_grants cap_taken key f)) es"
  note C = computed_exact [OF assms(1,2), folded assms(3)]
  have lacks: "?lacks (callees eff key) = [] \<longleftrightarrow> {e. needs fns edges key e} \<subseteq> fn_held cap_taken key f"
    unfolding C [symmetric] by (auto simp: filter_empty_conv fn_held_def)
  have empty: "callees eff key = [] \<longleftrightarrow> {e. needs fns edges key e} = {}" unfolding C [symmetric] by simp
  show ?thesis
  proof (cases "?lacks (callees eff key) = []")
    case True
    then show ?thesis using lacks empty by (simp add: check_fn_effects_def Let_def)
  next
    case False
    then obtain e where e: "e \<in> set (callees eff key)" "e \<notin> fn_held cap_taken key f"
      by (auto simp: filter_empty_conv fn_held_def)
    then have "needs fns edges key e" using C by blast
    then obtain c where c: "c \<in> set (callees edges key)" "e \<in> set (callee_effects fns eff c)"
    proof cases
      case (needs_builtin c es)
      then show ?thesis using that by (simp add: callee_effects_def)
    next
      case (needs_extern c f)
      then show ?thesis
        using that effects_finite [OF assms(1) needs_extern(3)] by (simp add: callee_effects_def)
    next
      case (needs_call c)
      then have "e \<in> set (callees eff c)" using C by blast
      then have "e \<in> set (callee_effects fns eff c)"
        using needs_call(2,3) by (cases "map_of fns c") (simp_all add: callee_effects_def)
      then show ?thesis using that needs_call(1) by blast
    qed
    have "filter (\<lambda>c. ?lacks (callee_effects fns eff c) \<noteq> []) (sort (remdups (callees edges key))) \<noteq> []"
      using c e(2) by (auto simp: filter_empty_conv fn_held_def)
    then have "check_fn_effects fns cap_taken edges eff (key, f) \<noteq> Inr ()"
      using False by (auto simp: check_fn_effects_def Let_def split: list.split)
    then show ?thesis using False lacks by simp
  qed
qed

lemma hd_sort_in: "xs \<noteq> [] \<Longrightarrow> hd (sort xs) \<in> set xs"
  using hd_in_set [of "sort xs"] by (metis set_empty set_sort)

text \<open>The error of one function.\<close>

definition effect_fault :: "fn_table \<Rightarrow> (string \<Rightarrow> string list) \<Rightarrow> call_graph \<Rightarrow> graph_error \<Rightarrow> bool" where
  "effect_fault fns cap_taken edges err \<longleftrightarrow>
     (\<exists>key f. (key, f) \<in> set fns \<and>
        (fd_pure f \<and> err = Impure (fd_name f) (sort (callees (computed_effects fns edges) key))
            \<and> {e. needs fns edges key e} \<noteq> {}
         \<or> (\<exists>c e. err = MissingEffect (fd_name f) (callee_name c) e \<and> c \<in> set (callees edges key)
            \<and> needs fns edges key e \<and> e \<notin> fn_held cap_taken key f)))"

lemma check_fn_effects_error:
  assumes "effects_known fns" "distinct (map fst edges)" "(key, f) \<in> set fns"
    and "check_fn_effects fns cap_taken edges (computed_effects fns edges) (key, f) = Inl err"
  shows "effect_fault fns cap_taken edges err"
proof -
  let ?eff = "computed_effects fns edges"
  let ?lacks = "\<lambda>es. filter (\<lambda>e. e \<notin> fd_effects f \<and> e \<notin> set (cap_grants cap_taken key f)) es"
  note C = computed_exact [OF assms(1,2)]
  show ?thesis
  proof (cases "?lacks (callees ?eff key) = []")
    case True
    then have "fd_pure f" "callees ?eff key \<noteq> []" "err = Impure (fd_name f) (sort (callees ?eff key))"
      using assms(4) by (simp_all add: check_fn_effects_def Let_def split: if_splits)
    moreover from this have "{e. needs fns edges key e} \<noteq> {}" unfolding C [symmetric] by simp
    ultimately show ?thesis using assms(3) unfolding effect_fault_def by blast
  next
    case False
    let ?wit = "filter (\<lambda>c. ?lacks (callee_effects fns ?eff c) \<noteq> []) (sort (remdups (callees edges key)))"
    obtain c cs where w: "?wit = c # cs"
      using False assms(4) by (cases ?wit) (simp_all add: check_fn_effects_def Let_def)
    then have "c \<in> set ?wit" by simp
    then have c: "c \<in> set (callees edges key)" "?lacks (callee_effects fns ?eff c) \<noteq> []" by auto
    let ?e = "hd (sort (?lacks (callee_effects fns ?eff c)))"
    have err: "err = MissingEffect (fd_name f) (callee_name c) ?e"
      using False assms(4) w by (simp add: check_fn_effects_def Let_def)
    have "?e \<in> set (?lacks (callee_effects fns ?eff c))" using hd_sort_in [OF c(2)] .
    then have e: "?e \<in> set (callee_effects fns ?eff c)" "?e \<notin> fn_held cap_taken key f" by (auto simp: fn_held_def)
    have "needs fns edges key ?e"
      by (rule callee_effects_needs [OF assms(1) _ c(1) e(1)]) (use C in auto)
    then show ?thesis using err c(1) e(2) assms(3) unfolding effect_fault_def by blast
  qed
qed

text \<open>C7. The effect check is exact. The fixpoint ends and gives every function exactly the effects
  needed along the call graph; the check accepts exactly the programs in which every function declares
  or holds by capability all effects it needs and no pure function needs any; and a refusal names a function
  with an effect that it needs and does not have, and one of its callees, or a pure function with effects.\<close>

theorem effect_check_exact:
  assumes "effects_known fns" "distinct (map fst edges)"
  shows "set (callees (computed_effects fns edges) k) = {e. needs fns edges k e}
    \<and> (check_effects fns cap_taken edges = Inr eff \<longleftrightarrow>
         eff = computed_effects fns edges \<and>
         (\<forall>(key, f) \<in> set fns. {e. needs fns edges key e} \<subseteq> fn_held cap_taken key f
            \<and> (fd_pure f \<longrightarrow> {e. needs fns edges key e} = {})))
    \<and> (check_effects fns cap_taken edges = Inl err \<longrightarrow> effect_fault fns cap_taken edges err)"
proof (intro conjI impI)
  show "set (callees (computed_effects fns edges) k) = {e. needs fns edges k e}" by (rule computed_exact [OF assms])
  have "(\<forall>kf \<in> set fns. \<exists>y. check_fn_effects fns cap_taken edges (computed_effects fns edges) kf = Inr y) \<longleftrightarrow>
      (\<forall>(key, f) \<in> set fns. {e. needs fns edges key e} \<subseteq> fn_held cap_taken key f
         \<and> (fd_pure f \<longrightarrow> {e. needs fns edges key e} = {}))"
    using check_fn_effects_iff [OF assms refl, of cap_taken] by (intro ball_cong refl) (auto split: prod.split)
  then show "check_effects fns cap_taken edges = Inr eff \<longleftrightarrow>
      eff = computed_effects fns edges \<and>
      (\<forall>(key, f) \<in> set fns. {e. needs fns edges key e} \<subseteq> fn_held cap_taken key f
         \<and> (fd_pure f \<longrightarrow> {e. needs fns edges key e} = {}))"
    by (simp add: check_effects_def Let_def mapE_all)
  assume "check_effects fns cap_taken edges = Inl err"
  then obtain key f where "(key, f) \<in> set fns"
      "check_fn_effects fns cap_taken edges (computed_effects fns edges) (key, f) = Inl err"
    by (auto simp: check_effects_def Let_def bindE_eq_Inl dest!: mapE_Inl)
  then show "effect_fault fns cap_taken edges err" by (rule check_fn_effects_error [OF assms])
qed

text \<open>A program of three functions: \<open>main\<close> holds Net by a token, the helper takes it as a parameter and
  calls a builtin and an extern function.\<close>

definition demo_fn :: "string \<Rightarrow> (string \<times> string \<times> bool) list \<Rightarrow> string set \<Rightarrow> bool \<Rightarrow> fn_decl" where
  "demo_fn name ps es ext = \<lparr>fd_name = name, fd_typeparams = [], fd_params = ps, fd_ret = ''void'', fd_effects = es,
     fd_pure = False, fd_body = [], fd_struct = None, fd_extern = ext, fd_requires = None, fd_ensures = None,
     fd_param_preds = [], fd_ret_pred = None, fd_attrs = reset_cur_attrs\<rparr>"

definition demo_fns :: fn_table where
  "demo_fns = [(''main'', demo_fn ''main'' [] {''Proc''} False),
     (''fetch'', demo_fn ''fetch'' [(''c'', ''Cap[Net]'', False)] {''Proc''} False),
     (''spawnv'', demo_fn ''spawnv'' [] {''Proc''} True)]"

definition demo_edges :: call_graph where
  "demo_edges = [(''main'', [''fetch'', ''b:cap_take'']), (''fetch'', [''b:net_lookup'', ''spawnv'']), (''spawnv'', [])]"

definition demo_taken :: "string \<Rightarrow> string list" where
  "demo_taken k = (if k = ''main'' then [''Net''] else [])"

definition demo_computed :: call_graph where
  "demo_computed = [(''main'', [''Net'', ''Proc'']), (''fetch'', [''Proc'', ''Net'']), (''spawnv'', [])]"

lemma demo_computed: "computed_effects demo_fns demo_edges = demo_computed"
  by code_simp

definition no_caps :: "string \<Rightarrow> string list" where
  "no_caps k = []"

lemma demo_ok:
  "effects_known demo_fns" "distinct (map fst demo_edges)"
  "check_effects demo_fns demo_taken demo_edges = Inr demo_computed"
  unfolding check_effects_def Let_def demo_computed by code_simp+

lemma effect_check_exact_witness:
  "{e. needs demo_fns demo_edges ''main'' e} = {''Net'', ''Proc''}
    \<and> check_effects demo_fns no_caps demo_edges = Inl (MissingEffect ''main'' ''fetch'' ''Net'')
    \<and> effect_fault demo_fns no_caps demo_edges (MissingEffect ''main'' ''fetch'' ''Net'')"
proof (intro conjI)
  show err: "check_effects demo_fns no_caps demo_edges = Inl (MissingEffect ''main'' ''fetch'' ''Net'')"
    unfolding check_effects_def Let_def demo_computed by code_simp
  have "set (callees demo_computed ''main'') = {''Net'', ''Proc''}" by code_simp
  then show "{e. needs demo_fns demo_edges ''main'' e} = {''Net'', ''Proc''}"
    using conjunct1 [OF effect_check_exact [OF demo_ok(1,2)], of "''main''"] unfolding demo_computed by simp
  show "effect_fault demo_fns no_caps demo_edges (MissingEffect ''main'' ''fetch'' ''Net'')"
    using conjunct2 [OF conjunct2 [OF effect_check_exact [OF demo_ok(1,2)]]] err by (rule mp)
qed

section \<open>The sandbox of an accepted program\<close>

definition externs_bodiless :: "fn_table \<Rightarrow> call_graph \<Rightarrow> bool" where
  "externs_bodiless fns edges \<longleftrightarrow> list_all (\<lambda>(k, f). fd_extern f \<longrightarrow> callees edges k = []) fns"

lemma reachable_needs:
  assumes "externs_bodiless fns edges"
    and "(j, k) \<in> (calls edges)\<^sup>*" "needs fns edges k e"
  shows "needs fns edges j e"
  using assms(2,3)
proof (induction rule: converse_rtrancl_induct)
  case (step j i)
  then have c: "i \<in> set (callees edges j)" "\<not> is_builtin_key i" by (auto simp: calls_def fn_callees_def)
  have "needs fns edges i e" using step by blast
  moreover have "\<not> fd_extern f" if "map_of fns i = Some f" for f
  proof
    assume "fd_extern f"
    then have "callees edges i = []" using assms(1) map_of_SomeD [OF that] by (auto simp: externs_bodiless_def list_all_iff)
    moreover have "callees edges i \<noteq> []" using \<open>needs fns edges i e\<close> by cases auto
    ultimately show False by blast
  qed
  ultimately show ?case using needs_call [OF c] by blast
qed

text \<open>C6. The sandbox grants what the signature of \<open>main\<close> names and no more. For a program that the
  effect check accepts, whose extern functions have no body, the effects the sandbox derives from the
  computed effects are exactly those \<open>main\<close> needs, and \<open>main\<close> declares or holds each of them.\<close>

theorem sandbox_within_signature:
  assumes "effects_known fns" "distinct (map fst edges)" "check_effects fns cap_taken edges = Inr eff"
    and "map_of fns ''main'' = Some f" "''main'' \<in> set (map fst edges)"
    and "externs_bodiless fns edges"
  shows "set (d_effects (derive_source eff edges ext)) = {e. needs fns edges ''main'' e}
    \<and> set (d_effects (derive_source eff edges ext)) \<subseteq> fn_held cap_taken ''main'' f"
proof -
  have eff: "eff = computed_effects fns edges"
    and fn: "\<forall>kf \<in> set fns. check_fn_effects fns cap_taken edges (computed_effects fns edges) kf = Inr ()"
    using assms(3) by (auto simp: check_effects_def Let_def mapE_all)
  have "reachable_fns eff edges = (calls edges)\<^sup>* `` {''main''}" using assms(5) by (simp add: reachable_fns_def)
  then have "set (d_effects (derive_source eff edges ext)) =
      (\<Union>k \<in> (calls edges)\<^sup>* `` {''main''}. {e. needs fns edges k e})"
    using derive_source_sets [of eff edges ext] computed_exact [OF assms(1,2)] by (simp add: eff)
  also have "\<dots> = {e. needs fns edges ''main'' e}"
    using reachable_needs [OF assms(6)] by blast
  finally have D: "set (d_effects (derive_source eff edges ext)) = {e. needs fns edges ''main'' e}" .
  moreover have "{e. needs fns edges ''main'' e} \<subseteq> fn_held cap_taken ''main'' f"
    using fn map_of_SomeD [OF assms(4)] check_fn_effects_iff [OF assms(1,2) refl] by blast
  ultimately show ?thesis by blast
qed

lemma sandbox_within_signature_witness:
  "set (d_effects (derive_source demo_computed demo_edges [''Proc''])) \<subseteq>
     fn_held demo_taken ''main'' (demo_fn ''main'' [] {''Proc''} False)"
proof -
  have "map_of demo_fns ''main'' = Some (demo_fn ''main'' [] {''Proc''} False)" by (simp add: demo_fns_def)
  moreover have "''main'' \<in> set (map fst demo_edges)" by code_simp
  moreover have "externs_bodiless demo_fns demo_edges" by code_simp
  ultimately show ?thesis using sandbox_within_signature [OF demo_ok] by blast
qed

end
