(* ===== verification/StackProps.thy ===== *)
theory StackProps
  imports CallGraph
begin

text \<open>
  The stack budget: the depth-first walk of core.py finds the worst call chain or a recursion cycle. A
  chain is a path of the call graph through nodes with a frame; the finished nodes of the walk carry their
  worst chains, and every callee of a finished node was finished before it.
\<close>

fun chain :: "(string \<times> nat) list \<Rightarrow> call_graph \<Rightarrow> string list \<Rightarrow> bool" where
  "chain F E [] = False"
| "chain F E [k] = (map_of F k \<noteq> None)"
| "chain F E (k # j # p) = (map_of F k \<noteq> None \<and> j \<in> set (callees E k) \<and> chain F E (j # p))"

definition cost :: "(string \<times> nat) list \<Rightarrow> string list \<Rightarrow> nat" where
  "cost F p = sum_list (map (\<lambda>k. the (map_of F k)) p)"

lemma cost_simps [simp]: "cost F [] = 0" "cost F (k # p) = the (map_of F k) + cost F p"
  by (simp_all add: cost_def)

lemma chain_Cons: "p \<noteq> [] \<Longrightarrow> chain F E (k # p) \<longleftrightarrow> map_of F k \<noteq> None \<and> hd p \<in> set (callees E k) \<and> chain F E p"
  by (cases p) auto

lemma chain_suffix: "chain F E (p @ q) \<Longrightarrow> q \<noteq> [] \<Longrightarrow> chain F E q"
  by (induction p) (auto simp: chain_Cons neq_Nil_conv)

lemma chain_snoc: "chain F E p \<Longrightarrow> map_of F c \<noteq> None \<Longrightarrow> c \<in> set (callees E (last p)) \<Longrightarrow> chain F E (p @ [c])"
  by (induction p rule: induct_list012) auto

text \<open>A result that is the worst of the callees of \<open>c\<close>, all finished.\<close>

definition best_of :: "(string \<times> nat) list \<Rightarrow> string list \<Rightarrow> chain_memo \<Rightarrow> nat \<times> string list \<Rightarrow> bool" where
  "best_of F ds m best \<longleftrightarrow>
     (\<forall>d \<in> set ds. map_of F d \<noteq> None \<longrightarrow> (\<exists>r. map_of m d = Some r \<and> fst r \<le> fst best))
     \<and> (best = (0, []) \<or> (\<exists>d \<in> set ds. map_of m d = Some best))"

fun finished :: "(string \<times> nat) list \<Rightarrow> call_graph \<Rightarrow> chain_memo \<Rightarrow> bool" where
  "finished F E [] = True"
| "finished F E ((c, k, p) # m) =
     (finished F E m \<and> map_of F c \<noteq> None \<and> map_of m c = None \<and>
      (\<exists>b bp. k = the (map_of F c) + b \<and> p = c # bp \<and> best_of F (callees E c) m (b, bp)))"

lemma finished_chain:
  "finished F E m \<Longrightarrow> map_of m c = Some (k, p) \<Longrightarrow> chain F E p \<and> hd p = c \<and> cost F p = k"
proof (induction m arbitrary: c k p)
  case (Cons x m)
  obtain c' k' p' where x: "x = (c', k', p')" by (metis surj_pair)
  show ?case
  proof (cases "c = c'")
    case True
    then have kp: "k = k'" "p = p'" using Cons.prems(2) x by auto
    obtain b bp where b: "map_of F c' \<noteq> None" "k' = the (map_of F c') + b" "p' = c' # bp"
        "best_of F (callees E c') m (b, bp)" and m: "finished F E m"
      using Cons.prems(1) x by auto
    show ?thesis
    proof (cases "(b, bp) = (0, [])")
      case False
      then obtain d where "d \<in> set (callees E c')" "map_of m d = Some (b, bp)" using b(4) by (auto simp: best_of_def)
      moreover from Cons.IH [OF m this(2)] have "chain F E bp" "hd bp = d" "cost F bp = b" by auto
      moreover from this(1) have "bp \<noteq> []" by auto
      ultimately show ?thesis using b(1-3) kp True by (simp add: chain_Cons)
    qed (use b kp True in auto)
  qed (use Cons x in auto)
qed simp

lemma finished_worst:
  "finished F E m \<Longrightarrow> map_of m c = Some r \<Longrightarrow> chain F E (c # q) \<Longrightarrow>
    cost F (c # q) \<le> fst r \<and> distinct (c # q) \<and> set (c # q) \<subseteq> fst ` set m"
proof (induction m arbitrary: c r q)
  case (Cons x m)
  obtain c' k' p' where x: "x = (c', k', p')" by (metis surj_pair)
  have m: "finished F E m" "map_of m c' = None" using Cons.prems(1) x by auto
  show ?case
  proof (cases "c = c'")
    case True
    then have r: "r = (k', p')" using Cons.prems(2) x by simp
    obtain b bp where b: "k' = the (map_of F c') + b" "best_of F (callees E c') m (b, bp)" using Cons.prems(1) x by auto
    show ?thesis
    proof (cases q)
      case (Cons d q')
      then have d: "d \<in> set (callees E c')" "chain F E (d # q')" using Cons.prems(3) True by auto
      then have "map_of F d \<noteq> None" by (cases q') auto
      then obtain rd where rd: "map_of m d = Some rd" "fst rd \<le> b" using b(2) d(1) by (auto simp: best_of_def)
      from Cons.IH [OF m(1) rd(1) d(2)] rd(2) m(2) show ?thesis
        using True r b(1) Cons x by (auto simp: map_of_eq_None_iff)
    qed (use True r b x in auto)
  next
    case False
    then show ?thesis using Cons.IH [OF m(1) _ Cons.prems(3), of r] Cons.prems(2) x by auto
  qed
qed simp

section \<open>The walk\<close>

definition extends_memo :: "chain_memo \<Rightarrow> chain_memo \<Rightarrow> bool" where
  "extends_memo m m' \<longleftrightarrow> (\<forall>c r. map_of m c = Some r \<longrightarrow> map_of m' c = Some r)"

lemma extends_memo_refl [simp]: "extends_memo m m"
  by (simp add: extends_memo_def)

lemma extends_memoD: "extends_memo m m' \<Longrightarrow> map_of m c = Some r \<Longrightarrow> map_of m' c = Some r"
  unfolding extends_memo_def by blast

lemma extends_memo_trans: "extends_memo a b \<Longrightarrow> extends_memo b c \<Longrightarrow> extends_memo a c"
  by (simp add: extends_memo_def)

lemma best_of_sort [simp]: "best_of F (sort (remdups ds)) m b = best_of F ds m b"
  by (simp add: best_of_def)

definition walked ::
  "(string \<times> nat) list \<Rightarrow> call_graph \<Rightarrow> string list \<Rightarrow> string list \<Rightarrow> nat \<times> string list \<Rightarrow> chain_memo
   \<Rightarrow> nat \<times> string list \<Rightarrow> chain_memo \<Rightarrow> bool" where
  "walked F E st cs best m best' m' \<longleftrightarrow>
     finished F E m' \<and> extends_memo m m' \<and> (\<forall>x \<in> set st. map_of m' x = None) \<and> fst best \<le> fst best'
     \<and> (best' = best \<or> (\<exists>c \<in> set cs. map_of m' c = Some best'))
     \<and> (\<forall>c \<in> set cs. map_of F c \<noteq> None \<longrightarrow> (\<exists>r. map_of m' c = Some r \<and> fst r \<le> fst best'))
     \<and> (\<forall>c r. map_of m c = None \<longrightarrow> map_of m' c = Some r \<longrightarrow> fst r \<le> fst best')"

lemma walked_best: "walked F E st cs (0, []) m best m' \<Longrightarrow> best_of F cs m' best"
  by (auto simp: walked_def best_of_def)

lemma walked_new:
  "walked F E st cs best m best' m' \<Longrightarrow> map_of m c = None \<Longrightarrow> map_of m' c = Some r \<Longrightarrow> fst r \<le> fst best'"
  unfolding walked_def by blast

lemma walked_Cons:
  assumes "finished F E m1" "extends_memo m m1" "map_of m1 c = Some r"
    and "walked F E st cs (if fst r > fst best then r else best) m1 best' m'"
    and "\<And>d rd. map_of m d = None \<Longrightarrow> map_of m1 d = Some rd \<Longrightarrow> fst rd \<le> fst r"
  shows "walked F E st (c # cs) best m best' m'"
proof -
  have "map_of m' c = Some r" using assms(3,4) unfolding walked_def extends_memo_def by blast
  moreover have "fst rd \<le> fst best'" if "map_of m d = None" "map_of m' d = Some rd" for d rd
  proof (cases "map_of m1 d")
    case None
    then show ?thesis using assms(4) that(2) unfolding walked_def by blast
  next
    case (Some x)
    then have "x = rd" using assms(4) that(2) unfolding walked_def extends_memo_def by force
    then show ?thesis using assms(5) [OF that(1)] Some assms(4) by (fastforce simp: walked_def split: if_splits)
  qed
  ultimately show ?thesis
    using assms(1,2,4) extends_memo_trans [OF assms(2)] by (cases r) (auto simp: walked_def split: if_splits)
qed

lemma visit_callees_walked:
  "visit_callees F E st cs best m = Inr (best', m') \<Longrightarrow> finished F E m \<Longrightarrow> \<forall>x \<in> set st. map_of m x = None \<Longrightarrow>
    walked F E st cs best m best' m'"
proof (induction F E st cs best m arbitrary: best' m' rule: visit_callees.induct)
  case (1 F E st best m)
  then show ?case by (simp add: walked_def)
next
  case (2 F E st c cs best m)
  show ?case
  proof (cases "map_of F c")
    case None
    then have "walked F E st cs best m best' m'" using 2 by (simp add: visit_callees.simps(2))
    then show ?thesis using None by (auto simp: walked_def)
  next
    case (Some frame)
    have c: "c \<notin> set st" using "2.prems"(1) Some by (auto simp: visit_callees.simps(2))
    show ?thesis
    proof (cases "map_of m c")
      case (Some r)
      have "visit_callees F E st cs (if fst r > fst best then r else best) m = Inr (best', m')"
        using "2.prems"(1) \<open>map_of F c = Some frame\<close> c Some by (simp add: visit_callees.simps(2))
      then have "walked F E st cs (if fst r > fst best then r else best) m best' m'"
        by (intro "2.IH"(3) [OF \<open>map_of F c = Some frame\<close> c, of "(r, m)" r m]) (use "2.prems"(2,3) Some in simp_all)
      then show ?thesis by (rule walked_Cons [OF "2.prems"(2) extends_memo_refl Some]) simp
    next
      case None
      obtain k p m1 where sub: "visit_callees F E (st @ [c]) (sort (remdups (callees E c))) (0, []) m = Inr ((k, p), m1)"
        and rest: "visit_callees F E st cs (if frame + k > fst best then (frame + k, c # p) else best)
          ((c, frame + k, c # p) # m1) = Inr (best', m')"
        using "2.prems"(1) \<open>map_of F c = Some frame\<close> c None
        by (auto simp: visit_callees.simps(2) bindE_eq_Inr split: prod.splits)
      have w: "walked F E (st @ [c]) (sort (remdups (callees E c))) (0, []) m (k, p) m1"
        by (rule "2.IH"(2) [OF \<open>map_of F c = Some frame\<close> c None sub]) (use "2.prems"(2,3) None in auto)
      let ?m2 = "(c, frame + k, c # p) # m1"
      have m2: "finished F E ?m2" "extends_memo m ?m2" "map_of ?m2 c = Some (frame + k, c # p)"
        using w walked_best [OF w] \<open>map_of F c = Some frame\<close> None by (auto simp: walked_def extends_memo_def)
      have st: "\<forall>x \<in> set st. map_of ?m2 x = None" using w c by (auto simp: walked_def)
      have "walked F E st cs (if fst (frame + k, c # p) > fst best then (frame + k, c # p) else best) ?m2 best' m'"
        by (intro "2.IH"(3) [OF \<open>map_of F c = Some frame\<close> c, of "((frame + k, c # p), ?m2)" "(frame + k, c # p)" ?m2])
          (use rest m2(1) st None sub in simp_all)
      moreover have "fst rd \<le> fst (frame + k, c # p)" if "map_of m d = None" "map_of ?m2 d = Some rd" for d rd
      proof (cases "d = c")
        case False
        then have "fst rd \<le> k" using walked_new [OF w that(1), of rd] that(2) by simp
        then show ?thesis by simp
      qed (use that in auto)
      ultimately show ?thesis by (rule walked_Cons [OF m2(1,2,3)])
    qed
  qed
qed


lemma visit_callees_error:
  "visit_callees F E st cs best m = Inl e \<Longrightarrow> chain F E st \<Longrightarrow> set cs \<subseteq> set (callees E (last st)) \<Longrightarrow>
    \<exists>k q. e = RecursionCycle (k # q @ [k]) \<and> chain F E (k # q @ [k])"
proof (induction F E st cs best m rule: visit_callees.induct)
  case (2 F E st c cs best m)
  have st: "st \<noteq> []" using "2.prems"(2) by auto
  show ?case
  proof (cases "map_of F c")
    case None
    then show ?thesis using 2 by (simp add: visit_callees.simps(2))
  next
    case (Some frame)
    show ?thesis
    proof (cases "c \<in> set st")
      case True
      then have e: "e = RecursionCycle (dropWhile (\<lambda>x. x \<noteq> c) st @ [c])"
        using "2.prems"(1) Some by (simp add: visit_callees.simps(2))
      obtain q where q: "dropWhile (\<lambda>x. x \<noteq> c) st = c # q"
        using True by (metis (mono_tags, lifting) dropWhile_eq_Nil_conv hd_dropWhile list.exhaust_sel)
      have "st = takeWhile (\<lambda>x. x \<noteq> c) st @ c # q" using q takeWhile_dropWhile_id by metis
      then have s: "chain F E (c # q)" "last (c # q) = last st"
        using "2.prems"(2) chain_suffix by (metis list.distinct(1), metis last_appendR list.distinct(1))
      have "chain F E ((c # q) @ [c])"
        by (rule chain_snoc [OF s(1)]) (use Some s(2) "2.prems"(3) in auto)
      then show ?thesis using e q by auto
    next
      case c: False
      have new: "chain F E (st @ [c])" by (rule chain_snoc [OF "2.prems"(2)]) (use Some "2.prems"(3) in auto)
      show ?thesis
      proof (cases "map_of m c")
        case (Some r)
        then show ?thesis
          using "2.prems" "2.IH"(3) [OF \<open>map_of F c = Some frame\<close> c, of "(r, m)" r m] \<open>map_of F c = Some frame\<close> c
          by (simp add: visit_callees.simps(2))
      next
        case None
        consider "visit_callees F E (st @ [c]) (sort (remdups (callees E c))) (0, []) m = Inl e"
          | k p m1 where "visit_callees F E (st @ [c]) (sort (remdups (callees E c))) (0, []) m = Inr ((k, p), m1)"
            "visit_callees F E st cs (if fst (frame + k, c # p) > fst best then (frame + k, c # p) else best)
              ((c, frame + k, c # p) # m1) = Inl e"
          using "2.prems"(1) \<open>map_of F c = Some frame\<close> c None
          by (auto simp: visit_callees.simps(2) bindE_eq_Inl bindE_eq_Inr split: prod.splits)
        then show ?thesis
        proof cases
          case 1
          show ?thesis by (rule "2.IH"(2) [OF \<open>map_of F c = Some frame\<close> c None 1 new]) simp
        next
          case 2
          show ?thesis
            by (rule "2.IH"(3) [OF \<open>map_of F c = Some frame\<close> c, of "((frame + k, c # p), (c, frame + k, c # p) # m1)"
                  "(frame + k, c # p)" "(c, frame + k, c # p) # m1"])
              (use None 2 "2.prems"(2,3) in simp_all)
        qed
      qed
    qed
  qed
qed simp

lemma visit_result:
  assumes "finished F E m" "map_of m k = None" "map_of F k \<noteq> None"
  shows "visit F E k m = Inr (r, m') \<Longrightarrow>
      finished F E m' \<and> extends_memo m m' \<and> map_of m' k = Some r
      \<and> (\<forall>c x. map_of m c = None \<longrightarrow> map_of m' c = Some x \<longrightarrow> fst x \<le> fst r)"
    and "visit F E k m = Inl e \<Longrightarrow> \<exists>j q. e = RecursionCycle (j # q @ [j]) \<and> chain F E (j # q @ [j])"
proof -
  let ?cs = "sort (remdups (callees E k))"
  { assume "visit F E k m = Inr (r, m')"
    then obtain b bp m1 where v: "visit_callees F E [k] ?cs (0, []) m = Inr ((b, bp), m1)"
      and r: "r = (the (map_of F k) + b, k # bp)" "m' = (k, r) # m1"
      by (auto simp: visit_def Let_def bindE_eq_Inr)
    have w: "walked F E [k] ?cs (0, []) m (b, bp) m1" by (rule visit_callees_walked [OF v assms(1)]) (simp add: assms(2))
    have "fst x \<le> fst r" if "map_of m c = None" "map_of m' c = Some x" for c x
      using walked_new [OF w that(1), of x] that r by (cases "c = k") auto
    then show "finished F E m' \<and> extends_memo m m' \<and> map_of m' k = Some r
        \<and> (\<forall>c x. map_of m c = None \<longrightarrow> map_of m' c = Some x \<longrightarrow> fst x \<le> fst r)"
      using w walked_best [OF w] assms(2,3) r by (auto simp: walked_def extends_memo_def) }
  assume "visit F E k m = Inl e"
  then have "visit_callees F E [k] ?cs (0, []) m = Inl e" by (auto simp: visit_def Let_def bindE_eq_Inl split: prod.splits)
  then show "\<exists>j q. e = RecursionCycle (j # q @ [j]) \<and> chain F E (j # q @ [j])"
    by (rule visit_callees_error) (use assms(3) in auto)
qed

text \<open>The roots of the walk: \<open>worst\<close> is the worst chain of the finished nodes.\<close>

definition worst_of :: "chain_memo \<Rightarrow> nat \<times> string list \<Rightarrow> bool" where
  "worst_of m worst \<longleftrightarrow>
     (\<forall>c r. map_of m c = Some r \<longrightarrow> fst r \<le> fst worst) \<and> (worst = (0, []) \<or> (\<exists>c. map_of m c = Some worst))"

lemma worst_ofD: "worst_of m worst \<Longrightarrow> map_of m c = Some r \<Longrightarrow> fst r \<le> fst worst"
  unfolding worst_of_def by blast

lemma worst_of_step:
  assumes "worst_of m worst" "extends_memo m m'" "map_of m' k = Some r"
    and "\<And>c x. map_of m c = None \<Longrightarrow> map_of m' c = Some x \<Longrightarrow> fst x \<le> fst r"
  shows "worst_of m' (if fst r > fst worst then r else worst)"
proof -
  have "fst x \<le> max (fst r) (fst worst)" if "map_of m' c = Some x" for c x
  proof (cases "map_of m c")
    case None
    then show ?thesis using assms(4) [OF None that] by simp
  next
    case (Some y)
    then have "y = x" using extends_memoD [OF assms(2) Some] that by simp
    then show ?thesis using worst_ofD [OF assms(1) Some] by simp
  qed
  moreover have "worst = (0, []) \<or> (\<exists>c. map_of m' c = Some worst)"
    using assms(1) extends_memoD [OF assms(2)] unfolding worst_of_def by blast
  ultimately show ?thesis using assms(3) unfolding worst_of_def by (auto simp: max_def)
qed

definition roots_ok :: "(string \<times> nat) list \<Rightarrow> call_graph \<Rightarrow> chain_memo \<Rightarrow> string list \<Rightarrow> graph_error + nat \<times> string list \<Rightarrow> bool" where
  "roots_ok F E m ks res \<longleftrightarrow>
     (case res of
        Inr w \<Rightarrow> \<exists>m'. finished F E m' \<and> worst_of m' w \<and> extends_memo m m' \<and> (\<forall>k \<in> set ks. map_of m' k \<noteq> None)
      | Inl e \<Rightarrow> \<exists>j q. e = RecursionCycle (j # q @ [j]) \<and> chain F E (j # q @ [j]))"

lemma roots_Cons: "extends_memo m m1 \<Longrightarrow> map_of m1 k = Some r \<Longrightarrow> roots_ok F E m1 ks res \<Longrightarrow> roots_ok F E m (k # ks) res"
proof -
  assume a: "extends_memo m m1" "map_of m1 k = Some r" "roots_ok F E m1 ks res"
  have "extends_memo m m' \<and> map_of m' k \<noteq> None" if "extends_memo m1 m'" for m'
    using extends_memo_trans [OF a(1) that] extends_memoD [OF that a(2)] by simp
  then show ?thesis using a(3) unfolding roots_ok_def by (cases res) auto
qed

lemma visit_roots_result:
  assumes "finished F E m" "worst_of m worst" "\<forall>k \<in> set ks. map_of F k \<noteq> None"
  shows "roots_ok F E m ks (visit_roots F E ks worst m)"
  using assms
proof (induction ks arbitrary: worst m)
  case (Cons k ks)
  have F: "map_of F k \<noteq> None" "\<forall>k \<in> set ks. map_of F k \<noteq> None" using Cons.prems(3) by auto
  show ?case
  proof (cases "map_of m k")
    case None
    note V = visit_result [OF Cons.prems(1) None F(1)]
    show ?thesis
    proof (cases "visit F E k m")
      case (Inl e)
      then show ?thesis using V(2) [OF Inl] None by (simp add: roots_ok_def)
    next
      case (Inr v)
      then obtain r m1 where v: "visit F E k m = Inr (r, m1)" by (metis surj_pair)
      note W = V(1) [OF v]
      have "worst_of m1 (if fst r > fst worst then r else worst)"
        using W by (intro worst_of_step [OF Cons.prems(2), of m1 k r]) blast+
      note IH = Cons.IH [OF conjunct1 [OF W] this F(2)]
      have eq: "visit_roots F E (k # ks) worst m = visit_roots F E ks (if fst r > fst worst then r else worst) m1"
        by (simp add: None v)
      have "extends_memo m m1" "map_of m1 k = Some r" using W by blast+
      then show ?thesis using IH unfolding eq by (rule roots_Cons)
    qed
  next
    case (Some r)
    then have eq: "visit_roots F E (k # ks) worst m = visit_roots F E ks worst m" by simp
    show ?thesis using roots_Cons [OF extends_memo_refl Some Cons.IH [OF Cons.prems(1,2) F(2)]] unfolding eq .
  qed
qed (auto simp: roots_ok_def)

text \<open>The right verdict.\<close>

definition budget_verdict ::
  "(string \<times> nat) list \<Rightarrow> call_graph \<Rightarrow> nat \<Rightarrow> graph_error + (nat \<times> nat \<times> string list) option \<Rightarrow> bool" where
  "budget_verdict F E n res \<longleftrightarrow>
     (case res of
        Inl (RecursionCycle p) \<Rightarrow> chain F E p \<and> 1 < length p \<and> hd p = last p
      | Inl (OverBudget worst p) \<Rightarrow> n < worst \<and> chain F E p \<and> cost F p = worst
          \<and> (\<forall>q. chain F E q \<longrightarrow> cost F q \<le> worst \<and> distinct q)
      | Inr (Some (m, worst, p)) \<Rightarrow> m = n \<and> worst \<le> n \<and> cost F p = worst \<and> (chain F E p \<or> p = [])
          \<and> (\<forall>q. chain F E q \<longrightarrow> cost F q \<le> worst \<and> distinct q)
      | _ \<Rightarrow> False)"

lemma roots_verdict:
  assumes "visit_roots F E (sort (remdups (map fst F))) (0, []) [] = Inr (worst, p)"
  shows "cost F p = worst \<and> (chain F E p \<or> p = [] \<and> worst = 0)
    \<and> (\<forall>q. chain F E q \<longrightarrow> cost F q \<le> worst \<and> distinct q)"
proof -
  have start: "finished F E []" "worst_of [] (0, [])" "\<forall>k \<in> set (sort (remdups (map fst F))). map_of F k \<noteq> None"
    by (auto simp: worst_of_def map_of_eq_None_iff)
  obtain m where m: "finished F E m" "worst_of m (worst, p)" "\<forall>k \<in> fst ` set F. map_of m k \<noteq> None"
    using visit_roots_result [OF start] assms by (auto simp: roots_ok_def)
  have "cost F q \<le> worst \<and> distinct q" if q: "chain F E q" for q
  proof -
    obtain c q' where c: "q = c # q'" using q by (cases q) auto
    then have "map_of F c \<noteq> None" using q by (cases q') auto
    then obtain r where r: "map_of m c = Some r" using m(3) by (force dest: map_of_SomeD)
    then have "fst r \<le> worst" using worst_ofD [OF m(2) r] by simp
    then show ?thesis using finished_worst [OF m(1) r, of q'] q c by auto
  qed
  moreover have "cost F p = worst \<and> (chain F E p \<or> p = [] \<and> worst = 0)"
    using m(2) finished_chain [OF m(1)] by (auto simp: worst_of_def)
  ultimately show ?thesis by blast
qed

text \<open>C13. The stack budget is exact. The walk ends: it reports a cycle of calls that is one, and only when
  there is none it finds the cost of the worst call chain, which no chain of any length exceeds; it accepts with
  a chain of that cost when that is within the budget and reports that chain otherwise.\<close>

theorem stack_budget_exact:
  assumes "filter (\<lambda>a. fst a = ''stack_size'') crate_attrs = (nm, CSize n) # rest" "0 < n"
  shows "budget_verdict (stack_frames fns edges) edges n (check_stack_budget crate_attrs fns edges)"
proof -
  let ?F = "stack_frames fns edges"
  let ?R = "visit_roots ?F edges (sort (remdups (map fst ?F))) (0, []) []"
  have res: "check_stack_budget crate_attrs fns edges = bindE ?R (\<lambda>(worst, path).
      if worst > n then Inl (OverBudget worst path) else Inr (Some (n, worst, path)))"
    using assms by (simp add: check_stack_budget_def Let_def)
  show ?thesis
  proof (cases ?R)
    case (Inl e)
    have start: "finished ?F edges []" "worst_of [] (0, [])" "\<forall>k \<in> set (sort (remdups (map fst ?F))). map_of ?F k \<noteq> None"
      by (auto simp: worst_of_def map_of_eq_None_iff)
    show ?thesis using visit_roots_result [OF start] Inl by (auto simp: res budget_verdict_def roots_ok_def)
  next
    case (Inr w)
    obtain worst p where w: "w = (worst, p)" by fastforce
    note V = roots_verdict [OF Inr [unfolded w]]
    then show ?thesis by (auto simp: res Inr w budget_verdict_def)
  qed
qed

text \<open>Two functions in a chain of three nodes, and a cycle.\<close>

definition stack_fn :: "string \<Rightarrow> pstmt list \<Rightarrow> fn_decl" where
  "stack_fn name body = \<lparr>fd_name = name, fd_typeparams = [], fd_params = [], fd_ret = ''void'', fd_effects = {},
     fd_pure = False, fd_body = body, fd_struct = None, fd_extern = False, fd_requires = None, fd_ensures = None,
     fd_param_preds = [], fd_ret_pred = None, fd_attrs = reset_cur_attrs\<rparr>"

definition stack_fns :: fn_table where
  "stack_fns = [(''main'', stack_fn ''main'' [XExpr (NCall ''f'' []), XExpr (NCall ''g'' [])]),
     (''f'', stack_fn ''f'' [XLet ''x'' ''int'' False (NCall ''g'' [NInt 1]) False False None]),
     (''g'', stack_fn ''g'' [XReturn (Some (NInt 0))])]"

definition stack_edges :: call_graph where
  "stack_edges = [(''main'', [''f'', ''g'']), (''f'', [''g'', ''@default.P'']), (''g'', []), (''@default.P'', [])]"

lemma stack_budget_exact_witness:
  "check_stack_budget [(''no_std'', CNone), (''stack_size'', CSize 200)] stack_fns stack_edges =
      Inr (Some (200, 152, [''main'', ''f'', ''g'']))
    \<and> budget_verdict (stack_frames stack_fns stack_edges) stack_edges 200
        (Inr (Some (200, 152, [''main'', ''f'', ''g''])))"
proof -
  have r: "check_stack_budget [(''no_std'', CNone), (''stack_size'', CSize 200)] stack_fns stack_edges =
      Inr (Some (200, 152, [''main'', ''f'', ''g'']))" by code_simp
  then show ?thesis
    using stack_budget_exact [of "[(''no_std'', CNone), (''stack_size'', CSize 200)]" "''stack_size''" 200 "[]"
        stack_fns stack_edges] by simp
qed

end
