(* ===== verification/IrqProps.thy ===== *)
theory IrqProps
  imports CallGraph
begin

text \<open>
  The proof of allocation-freedom of the interrupt handlers: the breadth-first walk of core.py visits what is
  reachable from a handler and stops at a nearest allocation site. And the attribute checks: what an accepted
  program's attributes are.
\<close>

fun edge_path :: "call_graph \<Rightarrow> string list \<Rightarrow> bool" where
  "edge_path E [] = False"
| "edge_path E [k] = True"
| "edge_path E (k # j # p) = (j \<in> set (callees E k) \<and> edge_path E (j # p))"

definition from_to :: "call_graph \<Rightarrow> string \<Rightarrow> string list \<Rightarrow> string \<Rightarrow> bool" where
  "from_to E h p k \<longleftrightarrow> edge_path E p \<and> hd p = h \<and> last p = k"

definition reached :: "call_graph \<Rightarrow> string \<Rightarrow> string set" where
  "reached E h = {k. \<exists>p. from_to E h p k}"

lemma edge_path_snoc: "edge_path E (p @ [c]) \<longleftrightarrow> p = [] \<or> edge_path E p \<and> c \<in> set (callees E (last p))"
  by (induction p rule: induct_list012) auto

lemma from_to_refl: "from_to E h [h] h"
  by (simp add: from_to_def)

lemma from_to_step: "from_to E h p q \<Longrightarrow> c \<in> set (callees E q) \<Longrightarrow> from_to E h (p @ [c]) c"
  using edge_path_snoc [of E p c] by (cases p) (auto simp: from_to_def)

text \<open>The state of the walk: \<open>seen\<close> are the nodes looked at, \<open>\<delta>\<close> the depth of the nodes discovered.\<close>

definition walk_inv ::
  "call_graph \<Rightarrow> string list \<Rightarrow> string \<Rightarrow> parents \<Rightarrow> string list \<Rightarrow> string list \<Rightarrow> (string \<Rightarrow> nat) \<Rightarrow> bool" where
  "walk_inv E sites h parent seen todo \<delta> \<longleftrightarrow>
     map fst parent = seen @ todo \<and> distinct (map fst parent) \<and> map_of parent h = Some None
     \<and> (\<forall>c q. map_of parent c = Some (Some q) \<longrightarrow> map_of parent q \<noteq> None \<and> c \<in> set (callees E q) \<and> \<delta> c = Suc (\<delta> q))
     \<and> (\<forall>c. map_of parent c = Some None \<longrightarrow> c = h \<and> \<delta> c = 0)
     \<and> sorted (map \<delta> (seen @ todo)) \<and> (\<forall>i < length (seen @ todo). \<delta> ((seen @ todo) ! i) \<le> i)
     \<and> (\<forall>x \<in> set (seen @ todo). \<forall>y \<in> set todo. \<delta> x \<le> Suc (\<delta> y))
     \<and> (\<forall>x \<in> set seen. x \<notin> set sites \<and> (\<forall>c \<in> set (callees E x). c \<in> set (seen @ todo) \<and> \<delta> c \<le> Suc (\<delta> x)))"

lemma walk_inv_start: "walk_inv E sites h [(h, None)] [] [h] (\<lambda>_. 0)"
  by (simp add: walk_inv_def)

lemma in_parent: "map fst parent = xs \<Longrightarrow> map_of parent c \<noteq> None \<longleftrightarrow> c \<in> set xs"
  by (metis map_of_eq_None_iff set_map)

lemma walk_inv_step:
  assumes I: "walk_inv E sites h parent seen (k # todo) \<delta>" and k: "k \<notin> set sites"
  shows "walk_inv E sites h (parent @ map (\<lambda>c. (c, Some k)) (discovered E parent k)) (seen @ [k])
    (todo @ discovered E parent k) (\<lambda>c. if c \<in> set (discovered E parent k) then Suc (\<delta> k) else \<delta> c)"
proof -
  let ?new = "discovered E parent k"
  let ?\<delta> = "\<lambda>c. if c \<in> set ?new then Suc (\<delta> k) else \<delta> c"
  let ?P = "parent @ map (\<lambda>c. (c, Some k)) ?new"
  let ?K = "seen @ k # todo"
  have K: "map fst parent = ?K" and d: "distinct ?K" and h: "map_of parent h = Some None"
    and par: "\<And>c q. map_of parent c = Some (Some q) \<Longrightarrow>
      map_of parent q \<noteq> None \<and> c \<in> set (callees E q) \<and> \<delta> c = Suc (\<delta> q)"
    and root: "\<And>c. map_of parent c = Some None \<Longrightarrow> c = h \<and> \<delta> c = 0"
    and sorted: "sorted (map \<delta> ?K)" and idx: "\<And>i. i < length ?K \<Longrightarrow> \<delta> (?K ! i) \<le> i"
    and near: "\<And>x y. x \<in> set ?K \<Longrightarrow> y \<in> set (k # todo) \<Longrightarrow> \<delta> x \<le> Suc (\<delta> y)"
    and seen: "\<And>x. x \<in> set seen \<Longrightarrow> x \<notin> set sites \<and> (\<forall>c \<in> set (callees E x). c \<in> set ?K \<and> \<delta> c \<le> Suc (\<delta> x))"
    using I unfolding walk_inv_def by auto
  have known: "map_of parent c \<noteq> None \<longleftrightarrow> c \<in> set ?K" for c by (rule in_parent [OF K])
  have new: "c \<in> set ?new \<longleftrightarrow> c \<in> set (callees E k) \<and> c \<notin> set ?K" for c
    using known [of c] by (auto simp: discovered_def)
  have old: "?\<delta> c = \<delta> c" if "c \<in> set ?K" for c using that new by auto
  have mapP: "map_of ?P c = (if c \<in> set ?new then Some (Some k) else map_of parent c)" for c
  proof (cases "c \<in> set ?new")
    case True
    then have "map_of parent c = None" using new known by blast
    then show ?thesis using True by (simp add: map_add_def map_of_keyed)
  next
    case False
    then show ?thesis by (cases "map_of parent c") (simp_all add: map_add_def map_of_keyed)
  qed
  have dn: "distinct ?new" by (simp add: discovered_def)
  have keys: "map fst ?P = (seen @ [k]) @ todo @ ?new" by (simp add: K comp_def)
  have \<delta>k: "\<delta> k \<le> \<delta> y" if "y \<in> set todo" for y using sorted that by (auto simp: sorted_append)
  have len: "\<delta> k \<le> length seen" using idx [of "length seen"] by simp
  show ?thesis
    unfolding walk_inv_def
  proof (intro conjI allI impI ballI)
    show "map fst ?P = (seen @ [k]) @ todo @ ?new" by (rule keys)
    have "set ?K \<inter> set ?new = {}" using new by blast
    then have "distinct (?K @ ?new)" using d dn by (simp only: distinct_append simp_thms)
    moreover have "map fst ?P = ?K @ ?new" unfolding keys by (simp only: append.assoc append_Cons append_Nil)
    ultimately show "distinct (map fst ?P)" by (simp only:)
    have "h \<in> set ?K" using h known [of h] by simp
    then have "h \<notin> set ?new" using new by blast
    then show "map_of ?P h = Some None" using mapP [of h] h by simp
    show "map_of ?P q \<noteq> None" "c \<in> set (callees E q)" "?\<delta> c = Suc (?\<delta> q)" if c: "map_of ?P c = Some (Some q)" for c q
    proof -
      have "map_of ?P q \<noteq> None \<and> c \<in> set (callees E q) \<and> ?\<delta> c = Suc (?\<delta> q)"
      proof (cases "c \<in> set ?new")
        case True
        then have q: "q = k" using c mapP [of c] by simp
        have "k \<in> set ?K" by simp
        then have "map_of ?P k \<noteq> None" "k \<notin> set ?new" using new known [of k] mapP [of k] by auto
        then show ?thesis using True new [of c] q by simp
      next
        case False
        then have pc: "map_of parent c = Some (Some q)" using c mapP [of c] by simp
        then have "c \<in> set ?K" "q \<in> set ?K" using known [of c] par [OF pc] known [of q] by auto
        then have "map_of ?P q = map_of parent q" "?\<delta> c = \<delta> c" "?\<delta> q = \<delta> q" using mapP [of q] old new by auto
        then show ?thesis using par [OF pc] by simp
      qed
      then show "map_of ?P q \<noteq> None" "c \<in> set (callees E q)" "?\<delta> c = Suc (?\<delta> q)" by blast+
    qed
    show "c = h" "?\<delta> c = 0" if c: "map_of ?P c = Some None" for c
    proof -
      have n: "c \<notin> set ?new" using c mapP [of c] by auto
      then have "map_of parent c = Some None" using c mapP [of c] by simp
      then show "c = h" "?\<delta> c = 0" using root n by auto
    qed
    have all: "?\<delta> x \<le> Suc (\<delta> k)" if "x \<in> set (?K @ ?new)" for x using that near [of x k] old new by auto
    have eq: "map ?\<delta> ((seen @ [k]) @ todo @ ?new) = map \<delta> ?K @ map (\<lambda>_. Suc (\<delta> k)) ?new" using old by simp
    have "\<delta> x \<le> Suc (\<delta> k)" if "x \<in> set ?K" for x using near that by simp
    then show "sorted (map ?\<delta> ((seen @ [k]) @ todo @ ?new))"
      unfolding eq using sorted by (auto simp: sorted_append sorted_replicate map_replicate_const)
    show "?\<delta> (((seen @ [k]) @ todo @ ?new) ! i) \<le> i" if i: "i < length ((seen @ [k]) @ todo @ ?new)" for i
    proof (cases "i < length ?K")
      case True
      have "(seen @ [k]) @ todo @ ?new = ?K @ ?new" by simp
      then have "((seen @ [k]) @ todo @ ?new) ! i = ?K ! i" using nth_append [of ?K ?new i] True by (simp only: if_True)
      moreover have "?\<delta> (?K ! i) = \<delta> (?K ! i)" by (rule old [OF nth_mem [OF True]])
      ultimately show ?thesis using idx [OF True] by metis
    next
      case False
      then have "((seen @ [k]) @ todo @ ?new) ! i \<in> set (?K @ ?new)" using i nth_mem [OF i] by auto
      then show ?thesis using all len False by fastforce
    qed
    show "?\<delta> x \<le> Suc (?\<delta> y)" if "x \<in> set ((seen @ [k]) @ todo @ ?new)" "y \<in> set (todo @ ?new)" for x y
    proof -
      have "\<delta> k \<le> ?\<delta> y" using that(2) \<delta>k old new by auto
      moreover have "?\<delta> x \<le> Suc (\<delta> k)" using that(1) all by auto
      ultimately show ?thesis by simp
    qed
    fix x assume x: "x \<in> set (seen @ [k])"
    show "x \<notin> set sites" using x seen k by auto
    fix c assume c: "c \<in> set (callees E x)"
    show "c \<in> set ((seen @ [k]) @ todo @ ?new)" using x c seen new by auto
    show "?\<delta> c \<le> Suc (?\<delta> x)"
    proof (cases "x = k")
      case True
      then show ?thesis using all [of c] new [of c] c old [of k] by auto
    next
      case False
      then have "x \<in> set seen" using x by simp
      then show ?thesis using seen [of x] c old by auto
    qed
  qed
qed


text \<open>The path to a discovered node, and the distance of the nodes not looked at.\<close>

lemma walk_up_path:
  assumes "walk_inv E sites h parent seen todo \<delta>" "map_of parent k \<noteq> None" "\<delta> k < n"
  shows "from_to E h (walk_up n parent k) k \<and> length (walk_up n parent k) = Suc (\<delta> k)"
  using assms(2,3)
proof (induction n arbitrary: k)
  case (Suc n)
  have par: "\<And>c q. map_of parent c = Some (Some q) \<Longrightarrow>
      map_of parent q \<noteq> None \<and> c \<in> set (callees E q) \<and> \<delta> c = Suc (\<delta> q)"
    and root: "\<And>c. map_of parent c = Some None \<Longrightarrow> c = h \<and> \<delta> c = 0"
    using assms(1) unfolding walk_inv_def by blast+
  show ?case
  proof (cases "map_of parent k")
    case (Some x)
    show ?thesis
    proof (cases x)
      case None
      then show ?thesis using root [of k] Some from_to_refl [of E h] by auto
    next
      case (Some q)
      then have pk: "map_of parent k = Some (Some q)" using \<open>map_of parent k = Some x\<close> by simp
      note P = par [OF pk]
      have "from_to E h (walk_up n parent q) q \<and> length (walk_up n parent q) = Suc (\<delta> q)"
        by (rule Suc.IH) (use P Suc.prems(2) in auto)
      then show ?thesis using from_to_step [of E h "walk_up n parent q" q k] P pk by simp
    qed
  qed (use Suc.prems in simp)
qed simp

lemma walk_depth:
  assumes "walk_inv E sites h parent seen todo \<delta>" "map_of parent k \<noteq> None"
  shows "\<delta> k < length parent"
proof -
  have K: "map fst parent = seen @ todo" "\<And>i. i < length (seen @ todo) \<Longrightarrow> \<delta> ((seen @ todo) ! i) \<le> i"
    using assms(1) unfolding walk_inv_def by blast+
  have "k \<in> set (seen @ todo)" using assms(2) in_parent [OF K(1)] by blast
  then obtain i where i: "i < length (seen @ todo)" "k = (seen @ todo) ! i" by (metis in_set_conv_nth)
  then have "\<delta> k \<le> i" using K(2) by simp
  then show ?thesis using i(1) arg_cong [OF K(1), of length] by simp
qed

lemma path_frontier:
  assumes "walk_inv E sites h parent seen todo \<delta>" "from_to E h p k"
  shows "k \<in> set seen \<and> Suc (\<delta> k) \<le> length p \<or> (\<exists>x \<in> set todo. Suc (\<delta> x) \<le> length p)"
proof -
  have h: "map_of parent h = Some None" and K: "map fst parent = seen @ todo"
    and root: "\<And>c. map_of parent c = Some None \<Longrightarrow> c = h \<and> \<delta> c = 0"
    and seen: "\<And>x c. x \<in> set seen \<Longrightarrow> c \<in> set (callees E x) \<Longrightarrow> c \<in> set (seen @ todo) \<and> \<delta> c \<le> Suc (\<delta> x)"
    using assms(1) unfolding walk_inv_def by blast+
  have "h \<in> set (seen @ todo)" using in_parent [OF K, of h] h by simp
  moreover have "\<delta> h = 0" using root [OF h] by simp
  ultimately have start: "h \<in> set seen \<and> Suc (\<delta> h) \<le> Suc n \<or> (\<exists>x \<in> set todo. Suc (\<delta> x) \<le> Suc n)" for n
    by (metis Suc_le_mono Un_iff le0 set_append)
  from assms(2) have "p \<noteq> []" "edge_path E p" "hd p = h" "last p = k" by (auto simp: from_to_def)
  then show ?thesis
  proof (induction p arbitrary: k rule: rev_induct)
    case (snoc c p)
    show ?case
    proof (cases "p = []")
      case True
      then show ?thesis using snoc.prems start [of 0] by auto
    next
      case False
      then have e: "edge_path E p" "c \<in> set (callees E (last p))" "hd p = h" "c = k"
        using snoc.prems by (auto simp: edge_path_snoc)
      from snoc.IH [OF False e(1,3) refl] show ?thesis
      proof (elim disjE conjE bexE)
        assume l: "last p \<in> set seen" "Suc (\<delta> (last p)) \<le> length p"
        have c: "c \<in> set (seen @ todo)" "\<delta> c \<le> Suc (\<delta> (last p))" using seen [OF l(1) e(2)] by blast+
        then have "Suc (\<delta> c) \<le> length (p @ [c])" using l(2) by simp
        then show ?thesis using c(1) e(4) by (metis Un_iff set_append)
      next
        fix x assume "x \<in> set todo" "Suc (\<delta> x) \<le> length p"
        then show ?thesis by (intro disjI2 bexI [of _ x]) auto
      qed
    qed
  qed simp
qed

definition no_nearer :: "call_graph \<Rightarrow> string list \<Rightarrow> string \<Rightarrow> string list \<Rightarrow> bool" where
  "no_nearer E sites h p \<longleftrightarrow> (\<forall>q k. from_to E h q k \<longrightarrow> k \<in> set sites \<longrightarrow> length p \<le> length q)"

lemma irq_walk_result:
  assumes "walk_inv E sites h parent seen todo \<delta>"
  shows "case irq_walk E sites parent todo of
      Inl p \<Rightarrow> (\<exists>k \<in> set sites. from_to E h p k) \<and> no_nearer E sites h p
    | Inr n \<Rightarrow> n = card (reached E h) \<and> reached E h \<inter> set sites = {}"
  using assms
proof (induction E sites parent todo arbitrary: seen \<delta> rule: irq_walk.induct)
  case (1 E sites parent)
  note I = 1
  have K: "map fst parent = seen" "distinct seen" using I by (auto simp: walk_inv_def)
  have "reached E h = set seen"
  proof
    show "reached E h \<subseteq> set seen" using path_frontier [OF I] by (auto simp: reached_def)
    have "map_of parent k \<noteq> None" if "k \<in> set seen" for k using in_parent [of parent seen k] K(1) that by blast
    then show "set seen \<subseteq> reached E h" using walk_up_path [OF I _ walk_depth [OF I]] by (auto simp: reached_def)
  qed
  moreover have "length parent = card (set seen)" using K by (metis distinct_card length_map)
  moreover have "set seen \<inter> set sites = {}" using I by (auto simp: walk_inv_def)
  ultimately show ?case by simp
next
  case (2 E sites parent k todo)
  note I = "2.prems"
  show ?case
  proof (cases "k \<in> set sites")
    case True
    have mk: "map_of parent k \<noteq> None"
      using in_parent [of parent "seen @ k # todo" k] I by (auto simp: walk_inv_def)
    note P = walk_up_path [OF I mk walk_depth [OF I mk]]
    have kmin: "\<delta> k \<le> \<delta> x" if "x \<in> set (k # todo)" for x
      using I that by (auto simp: walk_inv_def sorted_append)
    have "Suc (\<delta> k) \<le> length q" if q: "from_to E h q j" "j \<in> set sites" for q j
    proof -
      have "j \<notin> set seen" using I q(2) unfolding walk_inv_def by blast
      then obtain x where "x \<in> set (k # todo)" "Suc (\<delta> x) \<le> length q" using path_frontier [OF I q(1)] by blast
      then show ?thesis using kmin [of x] by simp
    qed
    then show ?thesis using P True by (auto simp: irq_walk.simps(2) no_nearer_def)
  next
    case False
    show ?thesis using "2.IH" [OF False walk_inv_step [OF I False]] False by (simp add: irq_walk.simps(2))
  qed
qed


section \<open>The check\<close>

definition handlers :: "fn_table \<Rightarrow> (string \<times> fn_decl) list" where
  "handlers fns = filter (\<lambda>kf. is_handler (snd kf)) (in_order fns)"

text \<open>C14. The proof of allocation-freedom is exact. The walk ends for every handler. The check accepts exactly
  when no handler reaches an allocation site through the call graph, and its report counts the nodes reachable
  from each handler; otherwise it names a handler and a path to an allocation site than which there
  is no shorter one.\<close>

theorem irq_check_exact:
  "case check_irq_no_alloc fns sites edges of
     Inr lines \<Rightarrow>
       (\<forall>(key, f) \<in> set (handlers fns). reached edges key \<inter> set sites = {})
       \<and> lines = map (\<lambda>(key, f). (at_irq_vector (fd_attrs f), fd_name f, card (reached edges key))) (handlers fns)
   | Inl err \<Rightarrow>
       (\<exists>(key, f) \<in> set (handlers fns). \<exists>p. err = Allocates (fd_name f) p
          \<and> (\<exists>k \<in> set sites. from_to edges key p k) \<and> no_nearer edges sites key p)"
proof -
  have W: "case irq_walk edges sites [(h, None)] [h] of
      Inl p \<Rightarrow> (\<exists>k \<in> set sites. from_to edges h p k) \<and> no_nearer edges sites h p
    | Inr n \<Rightarrow> n = card (reached edges h) \<and> reached edges h \<inter> set sites = {}" for h
    by (rule irq_walk_result [OF walk_inv_start])
  let ?one = "\<lambda>(key, f). case irq_walk edges sites [(key, None)] [key] of
      Inl path \<Rightarrow> Inl (Allocates (fd_name f) path) | Inr n \<Rightarrow> Inr (at_irq_vector (fd_attrs f), fd_name f, n)"
  have c: "check_irq_no_alloc fns sites edges = mapE ?one (handlers fns)"
    by (simp add: check_irq_no_alloc_def handlers_def)
  show ?thesis
  proof (cases "mapE ?one (handlers fns)")
    case (Inl err)
    obtain kf where one: "kf \<in> set (handlers fns)" "?one kf = Inl err" using mapE_Inl [OF Inl] by (elim bexE)
    obtain key f where "kf = (key, f)" by fastforce
    then have kf: "(key, f) \<in> set (handlers fns)" "?one (key, f) = Inl err" using one by simp_all
    then obtain p where p: "irq_walk edges sites [(key, None)] [key] = Inl p" "err = Allocates (fd_name f) p"
      by (auto split: sum.splits)
    then show ?thesis using W [of key] kf(1) unfolding c Inl by (auto intro!: bexI [of _ "(key, f)"])
  next
    case (Inr lines)
    have "list_all2 (\<lambda>kf l. ?one kf = Inr l) (handlers fns) lines" using Inr by (simp add: mapE_Inr_iff)
    then have "list_all2 (\<lambda>(key, f) l. reached edges key \<inter> set sites = {} \<and>
        l = (at_irq_vector (fd_attrs f), fd_name f, card (reached edges key))) (handlers fns) lines"
    proof (rule list_all2_mono)
      fix kf l assume a: "?one kf = Inr l"
      obtain key f where kf: "kf = (key, f)" by fastforce
      show "(case kf of (key, f) \<Rightarrow> \<lambda>l. reached edges key \<inter> set sites = {} \<and>
          l = (at_irq_vector (fd_attrs f), fd_name f, card (reached edges key))) l"
        using a W [of key] by (auto simp: kf split: sum.splits)
    qed
    then have "(\<forall>(key, f) \<in> set (handlers fns). reached edges key \<inter> set sites = {})
        \<and> lines = map (\<lambda>(key, f). (at_irq_vector (fd_attrs f), fd_name f, card (reached edges key))) (handlers fns)"
      by (induction rule: list_all2_induct) auto
    then show ?thesis unfolding c Inr by simp
  qed
qed

text \<open>A handler that reaches a builtin through one function, first without and then with an allocation
  site in that function.\<close>

definition irq_fn :: "string \<Rightarrow> bool \<Rightarrow> fn_decl" where
  "irq_fn name h = \<lparr>fd_name = name, fd_typeparams = [], fd_params = [(''f'', ''str'', False)], fd_ret = ''void'',
     fd_effects = {}, fd_pure = False, fd_body = [], fd_struct = None, fd_extern = False, fd_requires = None,
     fd_ensures = None, fd_param_preds = [], fd_ret_pred = None,
     fd_attrs = reset_cur_attrs\<lparr>at_irq_handler := h, at_irq_vector := if h then 32 else -1\<rparr>\<rparr>"

definition irq_fns :: fn_table where
  "irq_fns = [(''main'', irq_fn ''main'' False), (''kbd'', irq_fn ''kbd'' True), (''log'', irq_fn ''log'' False)]"

definition irq_edges :: call_graph where
  "irq_edges = [(''main'', [''log'']), (''kbd'', [''log'']), (''log'', [''b:len'', ''kbd''])]"

lemma irq_check_exact_witness:
  "reached irq_edges ''kbd'' \<inter> {''main''} = {} \<and> card (reached irq_edges ''kbd'') = 3
    \<and> no_nearer irq_edges [''log''] ''kbd'' [''kbd'', ''log'']"
proof -
  have h: "handlers irq_fns = [(''kbd'', irq_fn ''kbd'' True)]" by code_simp
  have a: "check_irq_no_alloc irq_fns [''main''] irq_edges = Inr [(32, ''kbd'', 3)]" by code_simp
  have b: "check_irq_no_alloc irq_fns [''log''] irq_edges = Inl (Allocates ''kbd'' [''kbd'', ''log''])" by code_simp
  show ?thesis
    using irq_check_exact [of irq_fns "[''main'']" irq_edges] irq_check_exact [of irq_fns "[''log'']" irq_edges]
    unfolding a b by (auto simp: h irq_fn_def)
qed

section \<open>Attributes\<close>

lemma require_Inr [simp]: "require b e = Inr () \<longleftrightarrow> b"
  by (simp add: require_def)

lemma each_fn_Inr: "each_fn check kfs = Inr () \<longleftrightarrow> (\<forall>kf \<in> set kfs. check kf = Inr ())"
  by (simp add: each_fn_def mapE_all)

lemma in_order_iff: "(k, f) \<in> set (in_order fns) \<longleftrightarrow> map_of fns k = Some f"
proof -
  have "(k, f) \<in> set (in_order fns) \<longleftrightarrow> k \<in> fst ` set fns \<and> f = the (map_of fns k)" by (auto simp: in_order_def)
  then show ?thesis using map_of_eq_None_iff [of fns k] by (cases "map_of fns k") auto
qed

text \<open>Each vector has one handler, and the program one panic handler at most.\<close>

definition vectors :: "(string \<times> fn_decl) list \<Rightarrow> int list" where
  "vectors kfs = filter (\<lambda>v. v \<ge> 0) (map (\<lambda>kf. at_irq_vector (fd_attrs (snd kf))) kfs)"

lemma irq_vectors_iff:
  "irq_vectors kfs owner = Inr () \<longleftrightarrow> distinct (vectors kfs) \<and> set (vectors kfs) \<inter> fst ` set owner = {}"
proof (induction kfs arbitrary: owner)
  case (Cons kf kfs)
  obtain key f where kf: "kf = (key, f)" by fastforce
  let ?v = "at_irq_vector (fd_attrs f)"
  show ?case
    using Cons.IH [of owner] Cons.IH [of "(?v, key) # owner"] map_of_eq_None_iff [of owner ?v]
    by (cases "?v < 0") (auto simp: kf vectors_def Let_def)
qed (simp add: vectors_def)

lemma panic_handlers_iff:
  "panic_handlers kfs found = Inr () \<longleftrightarrow>
     (let hs = map snd (filter (\<lambda>kf. at_panic_handler (fd_attrs (snd kf))) kfs)
      in list_all panic_shape hs \<and> length hs \<le> (if found then 0 else 1))"
proof (induction kfs arbitrary: found)
  case (Cons kf kfs)
  obtain key f where kf: "kf = (key, f)" by fastforce
  show ?case using Cons.IH [of found] Cons.IH [of True] by (auto simp: kf Let_def)
qed simp

text \<open>What holds of the attributes of a program that is accepted.\<close>

definition handler_ok :: "program \<Rightarrow> fn_decl \<Rightarrow> bool" where
  "handler_ok p f \<longleftrightarrow> fd_ret f = ''void'' \<and> (\<exists>x t m. fd_params f = [(x, t, m)] \<and> is_ptr_param p t)"

lemma handler_signature:
  "bindE (require (fd_ret f = ''void'') e1) (\<lambda>_. bindE (require (length (fd_params f) = 1) e2) (\<lambda>_.
    require (is_ptr_param p (fst (snd (hd (fd_params f))))) e3)) = Inr () \<longleftrightarrow> handler_ok p f"
  by (cases "fd_params f") (auto simp: bindE_eq_Inr handler_ok_def require_def)

lemma handler_signatures_iff:
  "check_irq_handler_signatures p = Inr () \<longleftrightarrow> (\<forall>kf \<in> set (handlers (pg_fns p)). handler_ok p (snd kf))"
  unfolding check_irq_handler_signatures_def each_fn_Inr handlers_def
  by (intro iffI ballI) (auto simp: handler_signature simp del: One_nat_def split: if_splits)

lemma frame_bounds_iff:
  "check_stack_size_attrs fns = Inr () \<longleftrightarrow>
     (\<forall>(k, f) \<in> set fns. at_stack_size (fd_attrs f) \<ge> 0 \<longrightarrow> \<not> fd_extern f \<longrightarrow>
        int (estimate_stack_size f) \<le> at_stack_size (fd_attrs f))"
  by (auto simp: check_stack_size_attrs_def mapE_all split: if_splits)

end
