(* ===== verification/Spec2Isabelle.thy ===== *)
theory Spec2Isabelle
  imports EngineProps IrProps SemverProps TlogProps LexerProps TypeProps SandboxProps ParserProps Positions DetProps
    EffectProps StackProps IrqProps
begin

text \<open>
  Verification of the Halis language tools (the Python programs under src/tools).

  \<^bold>\<open>The program.\<close> Halis source goes through the lexer and the parser (hlinterp/lexer.py, parser.py) to a
  syntax tree, which the checker (hlinterp/checking) annotates with types, resolved callees and the call
  graph. The proof engine (hlinterp/proof.py) marks the run-time checks that cannot fail; the reference
  interpreter (hlinterp/interp_parts) runs the tree with those marks, its tasks and channels on a runtime
  of their own (rt_conc.py); the intermediate representation and its optimiser (ir) serve the back ends.
  Around the language stand the sandbox (sandbox_parts, hls-sandbox.py), which turns the effects the checker
  computed into a seccomp filter, the package manager's versions (hpkg_parts) and the transparency log
  (hltlog_parts, hpkg_parts/hpkg_log.py).

  \<^bold>\<open>The theories, by component.\<close> A definition has the name of the function it models unless said
  otherwise; the header of each theory gives the correspondence in detail.

  \<^item> Prelude: computations with errors (\<open>bindE\<close>, \<open>mapE\<close>), Python's dicts and slices.

  \<^item> Int64 (interp_parts/rt_num.py, rt_core.py): checked 64-bit arithmetic, \<open>parse_int\<close>, the generator
    HalisRNG. Against signed machine words: \<open>i64_arith_word\<close>, \<open>i64_div_mod_law\<close>.

  \<^item> PyText, Lexer, LexerProps, Positions (lexer.py): \<open>tokenize\<close> over the bytes of a source, with lines and
    columns; printing tokens and lexing them again; where tokens stand.

  \<^item> ParseExpr, ParseStmt, ParseDecl (parser.py, all of it): the cursor is the list of the tokens not yet
    consumed, an error is its message kind and place. ParseSafe and ParseWf: every routine ends in an error of
    the source or in a well-formed result with a shorter rest. ParseRound: printed expressions parse back.
    ParserProps joins lexer and parser.

  \<^item> Ast, Runtime, Builtins, Interp, Run, InterpFacts (exec.py, core.py, builtin.py, builtin_method.py): values,
    the store, the evaluator as a function with a bound on its nesting; a larger bound changes no result.

  \<^item> Intervals, ProofEngine, ConstEval (proof.py): the interval domain, facts, seeding, propagation, verdicts
    and the evaluation of contracts on literals. ProofSound and ProofStmts prove them against the interpreter
    for the bodies an executable certificate accepts; PlainBody shows that the bodies of a fragment given by
    syntax have the certificate. EngineProps states the result for that fragment (no \<open>for\<close>, \<open>break\<close> or
    \<open>continue\<close>, user calls, \<open>push\<close>, \<open>pop\<close>, struct literals or shadowing, loops that write at most four int
    names): the checks elided are those that cannot fail. It also shows shapes of programs outside the
    fragment on which the engine is wrong, among them a loop with seven names for which the engine's
    four confirmation rounds are too few.

  \<^item> Hlir, Optimize, Licm, OptProps, IrProps (ir): the representation with a semantics over a store, the
    passes, and that they preserve runs or, for loop-invariant code motion, that they do not.

  \<^item> TypeStr, TypeProps (checking/helpers.py): types as texts, with instantiation and matching, against
    trees.

  \<^item> CallGraph (checking/core.py and match_fx.py): what the checker does with the whole call graph: the
    effect fixpoint, the stack budget, the walk from interrupt handlers, and the attribute checks.
    EffectProps, StackProps and IrqProps show each exact, and that the sandbox derived from an accepted program
    stays within the signature of \<open>main\<close>.

  \<^item> Bpf, Policy, PolicyProps, SandboxProps (sbx_bpf.py, sbx_policy.py, hls-sandbox.py): the filter assembler,
    the allowlist of a profile, the derivation from the call graph; the assembled program is run
    symbolically and shown to be the allowlist. A profile assembles when the calls it allows by name have
    numbers; a write refused by a read-only profile gets the default action, which blocks it unless it is \<open>log\<close>.

  \<^item> Conc, ConcFacts, ConcProps (rt_conc.py, spawn.py): the runtime in its pre-emptive mode. DetSched, DetFacts,
    DetProps: the deterministic scheduler. States, operations and their waits are those of the code; a step is
    one section under the lock, and the schedules of all programs are the runs.

  \<^item> Semver, SemverProps (hpkg_semver.py, hpkg_cmds.py) and Tlog, TlogProps (hltlog_parts, hpkg_log.py):
    versions, requirements and immutable publishing; the chained log, its replay, views, witnesses and proofs.
    The comparison of views is the prefix order of sound logs that are not empty; the code never lets
    an empty log lag, which the theorems state as it is.

  \<^bold>\<open>Interfaces.\<close> The locales name what one part relies on in another: the operators of a semantics that
  the folder's results agree with and the reads a dead instruction may do (OptProps, interpreted in IrProps
  on the interpreter's operators), the kernel that runs a filter (Bpf, interpreted on its own
  machine), and the relations between the states before and after a run that the evaluator respects
  (InterpFacts, interpreted on the scopes, the store and equality).

  \<^bold>\<open>Parameters.\<close> What is not under src is an argument: floating-point operations and the reading of a float
  (\<open>float_ops\<close>), the digest of the log (\<open>H\<close>; the theorems conclude up to a collision), the kernel's
  verdict, the values sent over channels. The call graph, the capabilities taken and the allocation sites
  are recorded by the check of bodies, which is not modelled, and are arguments of CallGraph and Policy.

  \<^bold>\<open>Bounds and fuel.\<close> The evaluator's bound is an outcome of its own (\<open>SFuel\<close>). The parser's
  routines take 16 units for each token of an expression and 2 for each of a statement, list parsers the length
  of the list: \<open>front_end_total\<close> shows that they are never used up. The proof engine's rounds are the
  source's own numbers. Everything else terminates: the effect fixpoint because sets only grow, the depth-first
  and breadth-first walks because nodes are entered once, the dominator iteration within the square of the
  number of blocks.

  \<^bold>\<open>What the theorems do not say.\<close> Texts are ASCII where Python's would be any Unicode, and the digit
  limit of Python's \<open>int\<close> is modelled in the lexer only. Clauses are those without list and struct literals,
  which the checker would let through. The messages of
  errors are their kinds. In the runtime a step is atomic, as the lock makes it; the operating system's
  threads, the copying of values between tasks and the collection of channels are left out. The stack
  budget is about the estimate the checker makes, not about machine frames.

  \<^bold>\<open>Not modelled.\<close> The checker's rules for bodies (types, moves, escapes, tail calls), the lowering to the
  intermediate representation and the back ends (C, LLVM, WebAssembly), the signing code, the development
  server, the editor, lint, test, benchmark and audit tools: they are large, and mostly produce text for other
  programs or run them. Of the modelled parts, file, network and process operations, JSON and the reports.
\<close>

end
